(* ===== verification/Rust_Prelude.thy ===== *)
theory Rust_Prelude
  imports Main "HOL-Library.Word" "HOL-Library.Signed_Division"
begin

text \<open>
  Shared vocabulary of the development: the machine integers of the Rust code, the
  result of a Rust computation, and the checked, saturating and overflow-checked
  arithmetic of the standard library that the crates use.

  \<^item> Unsigned integers are words of their width (\<open>u64\<close> is \<open>64 word\<close>); signed integers
    are \<open>int\<close> values that every operation keeps inside the range of their width, with
    casts, saturation and overflow written out.
  \<^item> A computation returns \<open>Ok v\<close>, \<open>Err e\<close> (the error of a Rust \<^verbatim>\<open>Result\<close>) or
    \<open>Panic\<close>. \<open>Panic\<close> is what an unchecked \<^verbatim>\<open>+\<close>, \<^verbatim>\<open>-\<close>, \<^verbatim>\<open>*\<close>, \<^verbatim>\<open>/\<close>, an index or a
    \<^verbatim>\<open>copy_from_slice\<close> does when it overflows or is out of range in the profile that
    \<^verbatim>\<open>cargo build\<close>, \<^verbatim>\<open>cargo run\<close> and \<^verbatim>\<open>cargo test\<close> use (overflow checks on).
\<close>

unbundle bit_operations_syntax

named_theorems rust_nat \<open>facts that move word arithmetic and comparisons to nat\<close>
named_theorems rust_step \<open>unfolding of the result type's combinators\<close>

type_synonym u8 = "8 word"
type_synonym u16 = "16 word"
type_synonym u32 = "32 word"
type_synonym u64 = "64 word"
type_synonym u128 = "128 word"
type_synonym usize = nat
type_synonym i128 = int
type_synonym i64 = int
type_synonym i32 = int

section \<open>Results\<close>

datatype ('a, 'e) res = Ok 'a | Err 'e | Panic

primrec bind_res :: "('a, 'e) res \<Rightarrow> ('a \<Rightarrow> ('b, 'e) res) \<Rightarrow> ('b, 'e) res" where
  "bind_res (Ok v) f = f v"
| "bind_res (Err e) f = Err e"
| "bind_res Panic f = Panic"

primrec map_err :: "('e \<Rightarrow> 'f) \<Rightarrow> ('a, 'e) res \<Rightarrow> ('a, 'f) res" where
  "map_err g (Ok v) = Ok v"
| "map_err g (Err e) = Err (g e)"
| "map_err g Panic = Panic"

definition ok_or :: "'a option \<Rightarrow> 'e \<Rightarrow> ('a, 'e) res" where
  "ok_or m e = (case m of None \<Rightarrow> Err e | Some v \<Rightarrow> Ok v)"

primrec is_ok :: "('a, 'e) res \<Rightarrow> bool" where
  "is_ok (Ok v) = True"
| "is_ok (Err e) = False"
| "is_ok Panic = False"

lemma bind_res_Ok_iff: "bind_res m f = Ok w \<longleftrightarrow> (\<exists>v. m = Ok v \<and> f v = Ok w)"
  by (cases m) auto

lemma bind_res_Err_iff:
  "bind_res m f = Err e \<longleftrightarrow> m = Err e \<or> (\<exists>v. m = Ok v \<and> f v = Err e)"
  by (cases m) auto

lemma bind_res_Panic_iff:
  "bind_res m f = Panic \<longleftrightarrow> m = Panic \<or> (\<exists>v. m = Ok v \<and> f v = Panic)"
  by (cases m) auto

lemma map_err_Ok_iff [simp]: "map_err g m = Ok v \<longleftrightarrow> m = Ok v"
  by (cases m) auto

lemma map_err_Err_iff: "map_err g m = Err f \<longleftrightarrow> (\<exists>e. m = Err e \<and> f = g e)"
  by (cases m) auto

lemma map_err_Panic_iff [simp]: "map_err g m = Panic \<longleftrightarrow> m = Panic"
  by (cases m) auto

lemma ok_or_Ok_iff [simp]: "ok_or m e = Ok v \<longleftrightarrow> m = Some v"
  by (cases m) (auto simp: ok_or_def)

lemma ok_or_not_Panic [simp]: "ok_or m e \<noteq> Panic"
  by (cases m) (auto simp: ok_or_def)

lemma ok_or_Err_iff: "ok_or m e = Err f \<longleftrightarrow> m = None \<and> f = e"
  by (cases m) (auto simp: ok_or_def)

lemma is_ok_iff: "is_ok m \<longleftrightarrow> (\<exists>v. m = Ok v)"
  by (cases m) auto

lemmas res_iffs = bind_res_Ok_iff bind_res_Err_iff bind_res_Panic_iff map_err_Err_iff
  ok_or_Err_iff is_ok_iff

section \<open>Unsigned arithmetic\<close>

definition checked_add_w :: "'w::len word \<Rightarrow> 'w word \<Rightarrow> 'w word option" where
  "checked_add_w a b = (if unat a + unat b < 2 ^ LENGTH('w) then Some (a + b) else None)"

definition checked_sub_w :: "'w::len word \<Rightarrow> 'w word \<Rightarrow> 'w word option" where
  "checked_sub_w a b = (if b \<le> a then Some (a - b) else None)"

definition checked_mul_w :: "'w::len word \<Rightarrow> 'w word \<Rightarrow> 'w word option" where
  "checked_mul_w a b = (if unat a * unat b < 2 ^ LENGTH('w) then Some (a * b) else None)"

definition sat_add_w :: "'w::len word \<Rightarrow> 'w word \<Rightarrow> 'w word" where
  "sat_add_w a b = (if unat a + unat b < 2 ^ LENGTH('w) then a + b else - 1)"

definition sat_sub_w :: "'w::len word \<Rightarrow> 'w word \<Rightarrow> 'w word" where
  "sat_sub_w a b = (if b \<le> a then a - b else 0)"

definition sat_mul_w :: "'w::len word \<Rightarrow> 'w word \<Rightarrow> 'w word" where
  "sat_mul_w a b = (if unat a * unat b < 2 ^ LENGTH('w) then a * b else - 1)"

text \<open>The unchecked operators of the source, which panic when the result does not fit.\<close>

definition add_p :: "'w::len word \<Rightarrow> 'w word \<Rightarrow> ('w word, 'e) res" where
  "add_p a b = (if unat a + unat b < 2 ^ LENGTH('w) then Ok (a + b) else Panic)"

definition sub_p :: "'w::len word \<Rightarrow> 'w word \<Rightarrow> ('w word, 'e) res" where
  "sub_p a b = (if b \<le> a then Ok (a - b) else Panic)"

definition mul_p :: "'w::len word \<Rightarrow> 'w word \<Rightarrow> ('w word, 'e) res" where
  "mul_p a b = (if unat a * unat b < 2 ^ LENGTH('w) then Ok (a * b) else Panic)"

lemmas [rust_nat] = word_le_nat_alt word_less_nat_alt

lemma unat_add_no_wrap:
  "unat a + unat b < 2 ^ LENGTH('w) \<Longrightarrow> unat (a + b) = unat a + unat b" for a b :: "'w::len word"
  by (simp add: unat_word_ariths)

lemma unat_mul_no_wrap:
  "unat a * unat b < 2 ^ LENGTH('w) \<Longrightarrow> unat (a * b) = unat a * unat b" for a b :: "'w::len word"
  by (simp add: unat_word_ariths)

lemma unat_of_nat_fits: "n < 2 ^ LENGTH('w) \<Longrightarrow> unat (of_nat n :: 'w::len word) = n"
  by (simp add: unat_of_nat)

lemma unat_power_no_wrap:
  "unat a ^ n < 2 ^ LENGTH('w) \<Longrightarrow> unat (a ^ n) = unat a ^ n" for a :: "'w::len word"
proof -
  assume "unat a ^ n < 2 ^ LENGTH('w)"
  moreover have "a ^ n = of_nat (unat a ^ n)" by (simp add: of_nat_power)
  ultimately show ?thesis by (simp only: unat_of_nat_fits)
qed

lemma unat_sub_no_wrap: "b \<le> a \<Longrightarrow> unat (a - b) = unat a - unat b" for a b :: "'w::len word"
  by (rule unat_sub)

lemma unat_minus_one_word_max: "unat (- 1 :: 'w::len word) = 2 ^ LENGTH('w) - 1"
  by (simp add: unsigned_minus_1_eq_mask mask_eq_exp_minus_1)

lemma unat_bound: "unat (a :: 'w::len word) < 2 ^ LENGTH('w)"
  by (rule unsigned_less)

lemma checked_add_w_Some_iff:
  "checked_add_w a b = Some c \<longleftrightarrow> unat c = unat a + unat b" for a b :: "'w::len word"
  using unat_bound [of c] by (auto simp del: unsigned_less simp: checked_add_w_def unat_add_no_wrap word_unat_eq_iff)

lemma checked_sub_w_Some_iff:
  "checked_sub_w a b = Some c \<longleftrightarrow> unat b \<le> unat a \<and> unat c = unat a - unat b"
  for a b :: "'w::len word"
  by (auto simp: checked_sub_w_def unat_sub_no_wrap word_unat_eq_iff word_le_nat_alt)

lemma checked_mul_w_Some_iff:
  "checked_mul_w a b = Some c \<longleftrightarrow> unat c = unat a * unat b" for a b :: "'w::len word"
  using unat_bound [of c] by (auto simp del: unsigned_less simp: checked_mul_w_def unat_mul_no_wrap word_unat_eq_iff)

lemma checked_add_w_None_iff:
  "checked_add_w a b = None \<longleftrightarrow> 2 ^ LENGTH('w) \<le> unat a + unat b" for a b :: "'w::len word"
  by (auto simp: checked_add_w_def)

lemma checked_sub_w_None_iff:
  "checked_sub_w a b = None \<longleftrightarrow> unat a < unat b" for a b :: "'w::len word"
  by (auto simp: checked_sub_w_def word_le_nat_alt)

lemma checked_mul_w_None_iff:
  "checked_mul_w a b = None \<longleftrightarrow> 2 ^ LENGTH('w) \<le> unat a * unat b" for a b :: "'w::len word"
  by (auto simp: checked_mul_w_def)

lemma unat_sat_add_w [rust_nat]:
  "unat (sat_add_w a b) = min (unat a + unat b) (2 ^ LENGTH('w) - 1)" for a b :: "'w::len word"
  by (auto simp: sat_add_w_def unat_add_no_wrap unat_minus_one_word_max)

lemma unat_sat_sub_w [rust_nat]:
  "unat (sat_sub_w a b) = unat a - unat b" for a b :: "'w::len word"
  by (auto simp: sat_sub_w_def unat_sub_no_wrap word_le_nat_alt)

lemma unat_sat_mul_w [rust_nat]:
  "unat (sat_mul_w a b) = min (unat a * unat b) (2 ^ LENGTH('w) - 1)" for a b :: "'w::len word"
  by (auto simp: sat_mul_w_def unat_mul_no_wrap unat_minus_one_word_max)

lemma add_p_Ok_iff: "add_p a b = Ok c \<longleftrightarrow> unat c = unat a + unat b" for a b :: "'w::len word"
  using unat_bound [of c] by (auto simp del: unsigned_less simp: add_p_def unat_add_no_wrap word_unat_eq_iff)

lemma sub_p_Ok_iff: "sub_p a b = Ok c \<longleftrightarrow> unat b \<le> unat a \<and> unat c = unat a - unat b"
  for a b :: "'w::len word"
  by (auto simp: sub_p_def unat_sub_no_wrap word_unat_eq_iff word_le_nat_alt)

lemma mul_p_Ok_iff: "mul_p a b = Ok c \<longleftrightarrow> unat c = unat a * unat b" for a b :: "'w::len word"
  using unat_bound [of c] by (auto simp del: unsigned_less simp: mul_p_def unat_mul_no_wrap word_unat_eq_iff)

lemma add_p_not_Err [simp]: "add_p a b \<noteq> Err e"
  by (simp add: add_p_def)

lemma sub_p_not_Err [simp]: "sub_p a b \<noteq> Err e"
  by (simp add: sub_p_def)

lemma mul_p_not_Err [simp]: "mul_p a b \<noteq> Err e"
  by (simp add: mul_p_def)

lemma add_p_Panic_iff: "add_p a b = Panic \<longleftrightarrow> 2 ^ LENGTH('w) \<le> unat a + unat b"
  for a b :: "'w::len word"
  by (auto simp: add_p_def)

lemma sub_p_Panic_iff: "sub_p a b = Panic \<longleftrightarrow> unat a < unat b" for a b :: "'w::len word"
  by (auto simp: sub_p_def word_le_nat_alt)

lemma mul_p_Panic_iff: "mul_p a b = Panic \<longleftrightarrow> 2 ^ LENGTH('w) \<le> unat a * unat b"
  for a b :: "'w::len word"
  by (auto simp: mul_p_def)

lemmas checked_iffs = checked_add_w_Some_iff checked_sub_w_Some_iff checked_mul_w_Some_iff
  checked_add_w_None_iff checked_sub_w_None_iff checked_mul_w_None_iff

lemmas op_p_iffs = add_p_Ok_iff sub_p_Ok_iff mul_p_Ok_iff
  add_p_Panic_iff sub_p_Panic_iff mul_p_Panic_iff

text \<open>Widening casts keep the value; the value of a narrow word is below the wide bound.\<close>

lemma unat_ucast_up [rust_nat]:
  "LENGTH('v) \<le> LENGTH('w) \<Longrightarrow> unat (ucast (a :: 'v::len word) :: 'w::len word) = unat a"
  by (simp add: unsigned_ucast_eq take_bit_nat_eq_self
      order_less_le_trans [OF unsigned_less power_increasing])

section \<open>Signed arithmetic\<close>

definition smin :: "nat \<Rightarrow> int" where
  "smin n = - (2 ^ (n - 1))"

definition smax :: "nat \<Rightarrow> int" where
  "smax n = 2 ^ (n - 1) - 1"

definition in_range :: "nat \<Rightarrow> int \<Rightarrow> bool" where
  "in_range n x \<longleftrightarrow> smin n \<le> x \<and> x \<le> smax n"

definition clamp_i :: "nat \<Rightarrow> int \<Rightarrow> int" where
  "clamp_i n x = (if x < smin n then smin n else if smax n < x then smax n else x)"

definition checked_i :: "nat \<Rightarrow> int \<Rightarrow> int option" where
  "checked_i n x = (if in_range n x then Some x else None)"

definition range_p :: "nat \<Rightarrow> int \<Rightarrow> (int, 'e) res" where
  "range_p n x = (if in_range n x then Ok x else Panic)"

text \<open>\<^verbatim>\<open>x as i128\<close> of a \<^verbatim>\<open>u128\<close>, and \<^verbatim>\<open>x as u128\<close> of an \<^verbatim>\<open>i128\<close>.\<close>

definition as_i128 :: "u128 \<Rightarrow> i128" where
  "as_i128 a = sint a"

definition as_u128 :: "i128 \<Rightarrow> u128" where
  "as_u128 x = word_of_int x"

lemma in_range_clamp: "in_range n (clamp_i n x)"
proof -
  have "(0::int) < 2 ^ (n - 1)" by simp
  then have "smin n \<le> smax n" unfolding smin_def smax_def by linarith
  then show ?thesis by (auto simp: in_range_def clamp_i_def)
qed

lemma clamp_i_id: "in_range n x \<Longrightarrow> clamp_i n x = x"
  by (auto simp: in_range_def clamp_i_def)

lemma clamp_i_mono: "x \<le> y \<Longrightarrow> clamp_i n x \<le> clamp_i n y"
  using in_range_clamp [of n x] in_range_clamp [of n y]
  by (auto simp: clamp_i_def in_range_def)

lemma clamp_i_nonpos: "x \<le> 0 \<Longrightarrow> clamp_i n x \<le> 0"
proof -
  assume "x \<le> 0"
  moreover have "smin n < 0" by (simp add: smin_def)
  ultimately show ?thesis by (simp add: clamp_i_def)
qed

lemma as_i128_small: "unat a < 2 ^ 127 \<Longrightarrow> as_i128 a = int (unat a)"
proof -
  assume "unat a < 2 ^ 127"
  then have "int (unat a) < int (2 ^ 127)" by (rule of_nat_less_iff [THEN iffD2])
  then have "uint a < 2 ^ 127" by (simp only: of_nat_unat of_nat_power of_nat_numeral)
  then have "signed_take_bit 127 (uint a) = uint a"
    by (intro signed_take_bit_int_eq_self) (auto intro: order_trans [OF _ unsigned_greater_eq])
  then show ?thesis by (simp add: as_i128_def sint_uint)
qed

lemma as_i128_range: "in_range 128 (as_i128 a)"
  using sint_greater_eq [of a] sint_less [of a] by (auto simp: as_i128_def in_range_def smin_def smax_def)

lemma checked_i_Some_iff: "checked_i n x = Some y \<longleftrightarrow> in_range n x \<and> y = x"
  by (auto simp: checked_i_def)

lemma range_p_Ok_iff: "range_p n x = Ok y \<longleftrightarrow> in_range n x \<and> y = x"
  by (auto simp: range_p_def)

lemma range_p_not_Err [simp]: "range_p n x \<noteq> Err e"
  by (simp add: range_p_def)

lemma range_p_Panic_iff: "range_p n x = Panic \<longleftrightarrow> \<not> in_range n x"
  by (simp add: range_p_def)

lemmas signed_iffs = checked_i_Some_iff range_p_Ok_iff range_p_Panic_iff

section \<open>Signed division and sums\<close>

text \<open>Rust's \<^verbatim>\<open>/\<close> on signed integers truncates towards zero, as \<open>sdiv\<close> does.\<close>

lemma sdiv_nonneg: "0 \<le> a \<Longrightarrow> 0 < d \<Longrightarrow> a sdiv d = a div d" for a d :: int
  by (auto simp: signed_divide_int_def sgn_if)

lemma sdiv_nonpos: "a \<le> 0 \<Longrightarrow> 0 < d \<Longrightarrow> a sdiv d = - ((- a) div d)" for a d :: int
  by (auto simp: signed_divide_int_def sgn_if)

lemma sdiv_mono: "a \<le> b \<Longrightarrow> 0 < d \<Longrightarrow> a sdiv d \<le> b sdiv d" for a b d :: int
proof -
  assume ab: "a \<le> b" and d: "0 < d"
  consider "0 \<le> a" | "a < 0" "0 \<le> b" | "b < 0" using ab by linarith
  then show ?thesis
  proof cases
    case 1
    then show ?thesis using ab d by (simp add: sdiv_nonneg zdiv_mono1)
  next
    case 2
    then have "0 \<le> (- a) div d" "0 \<le> b div d" using d by (simp_all add: pos_imp_zdiv_nonneg_iff)
    then show ?thesis using 2 d by (simp add: sdiv_nonneg sdiv_nonpos)
  next
    case 3
    then have "(- b) div d \<le> (- a) div d" using ab d by (intro zdiv_mono1) simp_all
    then show ?thesis using 3 ab d by (simp add: sdiv_nonpos)
  qed
qed

lemma sdiv_nonneg_iff: "0 \<le> a \<Longrightarrow> 0 < d \<Longrightarrow> 0 \<le> a sdiv d" for a d :: int
  by (simp add: sdiv_nonneg pos_imp_zdiv_nonneg_iff)

lemma sdiv_nonpos_iff: "a \<le> 0 \<Longrightarrow> 0 < d \<Longrightarrow> a sdiv d \<le> 0" for a d :: int
  by (simp add: sdiv_nonpos pos_imp_zdiv_nonneg_iff)

text \<open>\<^verbatim>\<open>iter().sum()\<close> over signed integers: the additions are unchecked.\<close>

fun sum_p :: "nat \<Rightarrow> int \<Rightarrow> int list \<Rightarrow> (int, 'e) res" where
  "sum_p n acc [] = Ok acc"
| "sum_p n acc (x # xs) = bind_res (range_p n (acc + x)) (\<lambda>s. sum_p n s xs)"

lemma sum_p_Ok: "sum_p n acc xs = Ok s \<Longrightarrow> s = acc + sum_list xs"
proof (induction xs arbitrary: acc)
  case (Cons x xs)
  then have "s = acc + x + sum_list xs" by (auto simp: bind_res_Ok_iff signed_iffs)
  then show ?case by simp
qed simp

lemma sum_p_not_Err [simp]: "sum_p n acc xs \<noteq> Err e"
  by (induction xs arbitrary: acc) (auto simp: bind_res_Err_iff)

text \<open>The recursion of a loop through \<open>bind_res\<close> sees the value that was bound.\<close>

lemma bind_res_cong [fundef_cong]:
  "m = m' \<Longrightarrow> (\<And>v. m' = Ok v \<Longrightarrow> f v = g v) \<Longrightarrow> bind_res m f = bind_res m' g"
  by (cases m') auto

text \<open>For evaluation by \<^verbatim>\<open>simp\<close>: do not rewrite a continuation before its argument is known.\<close>

lemma bind_res_weak_cong: "m = m' \<Longrightarrow> bind_res m f = bind_res m' f"
  by simp

text \<open>Byte strings \<^verbatim>\<open>b"..."\<close>.\<close>

definition bytes_of :: "string \<Rightarrow> u8 list" where
  "bytes_of s = map of_char s"

definition div_p :: "'w::len word \<Rightarrow> 'w word \<Rightarrow> ('w word, 'e) res" where
  "div_p a b = (if b = 0 then Panic else Ok (a div b))"

lemma div_p_Ok_iff: "div_p a b = Ok c \<longleftrightarrow> b \<noteq> 0 \<and> c = a div b"
  by (auto simp: div_p_def)

section \<open>Little-endian bytes\<close>

text \<open>\<^verbatim>\<open>to_le_bytes\<close> and \<^verbatim>\<open>from_le_bytes\<close> of the unsigned integers.\<close>

primrec le_bytes :: "nat \<Rightarrow> nat \<Rightarrow> u8 list" where
  "le_bytes 0 x = []"
| "le_bytes (Suc n) x = of_nat (x mod 256) # le_bytes n (x div 256)"

primrec le_nat :: "u8 list \<Rightarrow> nat" where
  "le_nat [] = 0"
| "le_nat (b # bs) = unat b + 256 * le_nat bs"

definition u64_to_le :: "u64 \<Rightarrow> u8 list" where
  "u64_to_le w = le_bytes 8 (unat w)"

definition u64_from_le :: "u8 list \<Rightarrow> u64" where
  "u64_from_le bs = of_nat (le_nat bs)"

lemma length_le_bytes [simp]: "length (le_bytes n x) = n"
  by (induction n arbitrary: x) simp_all

lemma le_nat_le_bytes: "le_nat (le_bytes n x) = x mod 256 ^ n"
proof (induction n arbitrary: x)
  case (Suc n)
  have "unat (of_nat (x mod 256) :: u8) = x mod 256" by (simp add: unat_of_nat)
  then show ?case using Suc by (simp add: mod_mult2_eq)
qed simp

lemma le_nat_less: "le_nat bs < 256 ^ length bs"
proof (induction bs)
  case (Cons b bs)
  have "unat b < 256" using unat_bound [of b] by simp
  with Cons show ?case by simp
qed simp

lemma le_bytes_le_nat: "le_bytes (length bs) (le_nat bs) = bs"
proof (induction bs)
  case (Cons b bs)
  have "unat b < 256" using unat_bound [of b] by simp
  with Cons show ?case by simp
qed simp

lemma u64_le_roundtrip [simp]: "u64_from_le (u64_to_le w) = w"
proof -
  have "unat w < 256 ^ 8" using unat_bound [of w] by simp
  then show ?thesis by (simp only: u64_from_le_def u64_to_le_def le_nat_le_bytes mod_less) simp
qed

lemma length_u64_to_le [simp]: "length (u64_to_le w) = 8"
  by (simp add: u64_to_le_def)

lemma u64_to_le_from_le:
  assumes "length bs = 8"
  shows "u64_to_le (u64_from_le bs) = bs"
proof -
  have "le_nat bs < 2 ^ 64" using le_nat_less [of bs] assms by simp
  then have "unat (u64_from_le bs) = le_nat bs"
    unfolding u64_from_le_def by (intro unat_of_nat_fits) simp
  then show ?thesis using le_bytes_le_nat [of bs] assms by (simp add: u64_to_le_def)
qed

section \<open>Binary digits\<close>

text \<open>The width of the type less \<^verbatim>\<open>leading_zeros\<close>: the number of binary digits.\<close>

fun bit_length :: "nat \<Rightarrow> nat" where
  "bit_length n = (if n = 0 then 0 else Suc (bit_length (n div 2)))"

declare bit_length.simps [simp del]

lemma bit_length_bounds: "0 < n \<Longrightarrow> 2 ^ (bit_length n - 1) \<le> n \<and> n < 2 ^ bit_length n \<and> 0 < bit_length n"
proof (induction n rule: bit_length.induct)
  case (1 n)
  have step: "bit_length n = Suc (bit_length (n div 2))" using 1(2) by (simp add: bit_length.simps [of n])
  show ?case
  proof (cases "n div 2 = 0")
    case True
    then have n: "n = 1" "bit_length n = 1" using 1(2) step by (simp_all add: bit_length.simps [of 0])
    show ?thesis unfolding n(2) using n(1) by simp
  next
    case False
    then have ih: "2 ^ (bit_length (n div 2) - 1) \<le> n div 2" "n div 2 < 2 ^ bit_length (n div 2)" "0 < bit_length (n div 2)"
      using 1 by auto
    have "2 * 2 ^ (bit_length (n div 2) - 1) = (2 ^ bit_length (n div 2) :: nat)"
      using ih(3) by (metis Suc_pred' power_Suc)
    then show ?thesis using ih by (simp add: step) linarith
  qed
qed

lemma bit_length_le_iff: "bit_length n \<le> i \<longleftrightarrow> n < 2 ^ i"
proof (cases "n = 0")
  case False
  then have b: "2 ^ (bit_length n - 1) \<le> n" "n < 2 ^ bit_length n" "0 < bit_length n" using bit_length_bounds by auto
  show ?thesis
  proof
    assume "bit_length n \<le> i"
    then have "(2 :: nat) ^ bit_length n \<le> 2 ^ i" by simp
    then show "n < 2 ^ i" using b(2) by linarith
  next
    assume n: "n < 2 ^ i"
    show "bit_length n \<le> i"
    proof (rule ccontr)
      assume "\<not> bit_length n \<le> i"
      then have "(2 :: nat) ^ i \<le> 2 ^ (bit_length n - 1)" by simp
      then show False using b(1) n by linarith
    qed
  qed
qed (simp add: bit_length.simps [of 0])

lemma bit_length_pos: "0 < n \<Longrightarrow> 0 < bit_length n"
  using bit_length_bounds by blast

end
