(* ===== verification/Fixed.thy ===== *)
theory Fixed
  imports Rust_Prelude
begin

text \<open>
  \<^verbatim>\<open>crates/dl-core/src/fixed.rs\<close>: the value-path arithmetic. The 256-bit product and
  the bitwise 256-by-128 division are modelled on \<open>128 word\<close> exactly as the code has
  them; the lemmas show that \<open>mul_div_floor\<close> is the floored quotient of the unbounded
  product, and which of its two errors it returns when.
\<close>

datatype math_error = Overflow | DivByZero | ScaleMismatch

definition MASK64 :: u128 where
  "MASK64 = 0xFFFFFFFFFFFFFFFF"

definition checked_add :: "u128 \<Rightarrow> u128 \<Rightarrow> (u128, math_error) res" where
  "checked_add a b = ok_or (checked_add_w a b) Overflow"

definition checked_sub :: "u128 \<Rightarrow> u128 \<Rightarrow> (u128, math_error) res" where
  "checked_sub a b = ok_or (checked_sub_w a b) Overflow"

definition full_mul :: "u128 \<Rightarrow> u128 \<Rightarrow> u128 \<times> u128" where
  "full_mul a b =
    (let a_lo = a AND MASK64;
         a_hi = drop_bit 64 a;
         b_lo = b AND MASK64;
         b_hi = drop_bit 64 b;
         ll = a_lo * b_lo;
         lh = a_lo * b_hi;
         hl = a_hi * b_lo;
         hh = a_hi * b_hi;
         mid = drop_bit 64 ll + (lh AND MASK64) + (hl AND MASK64);
         lo = (ll AND MASK64) OR push_bit 64 (mid AND MASK64);
         hi = hh + drop_bit 64 lh + drop_bit 64 hl + drop_bit 64 mid
     in (hi, lo))"

text \<open>
  The loop of \<^verbatim>\<open>div_256_by_128\<close>: \<open>div_loop lo d i rem quo\<close> runs it for the bits
  \<open>i - 1\<close> down to \<open>0\<close>.
\<close>

fun div_loop :: "u128 \<Rightarrow> u128 \<Rightarrow> nat \<Rightarrow> u128 \<Rightarrow> u128 \<Rightarrow> u128" where
  "div_loop lo d 0 rem quo = quo"
| "div_loop lo d (Suc i) rem quo =
    (let bt = drop_bit i lo AND 1;
         carry = drop_bit 127 rem;
         shifted = push_bit 1 rem OR bt
     in if carry = 1 \<or> d \<le> shifted
        then div_loop lo d i (shifted - d) (quo OR push_bit i 1)
        else div_loop lo d i shifted quo)"

definition div_256_by_128 :: "u128 \<Rightarrow> u128 \<Rightarrow> u128 \<Rightarrow> u128 option" where
  "div_256_by_128 hi lo d =
    (if d = 0 then None
     else if d \<le> hi then None
     else Some (div_loop lo d 128 hi 0))"

definition mul_div_floor :: "u128 \<Rightarrow> u128 \<Rightarrow> u128 \<Rightarrow> (u128, math_error) res" where
  "mul_div_floor value numerator denominator =
    (if denominator = 0 then Err DivByZero
     else case checked_mul_w value numerator of
       Some p \<Rightarrow> Ok (p div denominator)
     | None \<Rightarrow> (case full_mul value numerator of
         (hi, lo) \<Rightarrow> ok_or (div_256_by_128 hi lo denominator) Overflow))"

text \<open>\<^verbatim>\<open>u128::checked_pow\<close> by its specification: the power, when it fits.\<close>

definition checked_pow_w :: "'w::len word \<Rightarrow> nat \<Rightarrow> 'w word option" where
  "checked_pow_w b n = (if unat b ^ n < 2 ^ LENGTH('w) then Some (b ^ n) else None)"

definition pow10 :: "nat \<Rightarrow> (u128, math_error) res" where
  "pow10 e = ok_or (checked_pow_w 10 e) Overflow"

section \<open>The wide product\<close>

lemma unat_and_mask: "unat (x AND mask n) = unat x mod 2 ^ n" for x :: "'w::len word"
proof -
  have "x AND mask n = take_bit n x" by (simp only: take_bit_eq_mask)
  then have "unat (x AND mask n) = take_bit n (unat x)" by (simp only: unsigned_take_bit_eq)
  then show ?thesis by (simp only: take_bit_eq_mod)
qed

lemma MASK64_mask: "MASK64 = mask 64"
  by (simp add: MASK64_def mask_eq_exp_minus_1)

lemma unat_MASK64: "unat (x AND MASK64) = unat x mod 2 ^ 64" for x :: u128
  by (simp only: MASK64_mask unat_and_mask)

lemma unat_drop: "unat (drop_bit n x) = unat x div 2 ^ n" for x :: "'w::len word"
proof -
  have "unat (drop_bit n x) = drop_bit n (unat x)"
    by (simp only: unsigned_drop_bit_eq take_bit_nat_eq_self [OF unsigned_less])
  then show ?thesis by (simp only: drop_bit_eq_div)
qed

lemma bit_word_small:
  assumes "unat x < 2 ^ k" and "k \<le> n"
  shows "\<not> bit (x :: 'w::len word) n"
proof
  assume "bit x n"
  then have "bit (unat x) n" by (simp add: bit_unsigned_iff)
  moreover have "take_bit n (unat x) = unat x"
    using assms by (intro take_bit_nat_eq_self) (auto intro: less_le_trans)
  ultimately show False by (metis bit_take_bit_iff less_irrefl)
qed

lemma unat_or_push:
  fixes x y :: "'w::len word"
  assumes "unat x < 2 ^ k" and "unat x + 2 ^ k * unat y < 2 ^ LENGTH('w)"
  shows "unat (x OR push_bit k y) = unat x + 2 ^ k * unat y"
proof -
  have "x OR push_bit k y = x + push_bit k y"
    by (rule disjunctive_add [symmetric])
      (auto simp: bit_push_bit_iff dest: bit_word_small [OF assms(1)])
  moreover have "unat (push_bit k y) = 2 ^ k * unat y"
  proof -
    have "2 ^ k * unat y < 2 ^ LENGTH('w)" using assms(2) by simp
    then have "push_bit k (unat y) < 2 ^ LENGTH('w)"
      by (simp only: push_bit_eq_mult mult.commute)
    then have "unat (push_bit k y) = push_bit k (unat y)"
      by (simp only: unsigned_push_bit_eq take_bit_nat_eq_self)
    then show ?thesis by (simp only: push_bit_eq_mult mult.commute)
  qed
  ultimately show ?thesis using assms(2) by (simp add: unat_add_no_wrap)
qed

text \<open>The column arithmetic of \<open>full_mul\<close> on naturals, for a column base \<open>W\<close>.\<close>

lemma columns_exact:
  fixes ll lh hl hh W :: nat
  defines "m \<equiv> ll div W + lh mod W + hl mod W"
  shows "(hh + lh div W + hl div W + m div W) * (W * W) + (ll mod W + W * (m mod W))
    = hh * (W * W) + (lh + hl) * W + ll"
proof -
  have *: "(hh + b + c + q) * (W * W) + (a' + W * r) = hh * (W * W) + (y + z) * W + x"
    if "x = W * a + a'" "y = W * b + b'" "z = W * c + c'" "a + b' + c' = W * q + r"
    for x y z a b c a' b' c' q r :: nat
  proof -
    have "hh * (W * W) + (y + z) * W + x
        = hh * (W * W) + (b + c) * (W * W) + W * (a + b' + c') + a'"
      by (simp only: that(1-3)) (simp only: distrib_left distrib_right ac_simps)
    also have "\<dots> = (hh + b + c + q) * (W * W) + (a' + W * r)"
      by (simp only: that(4)) (simp only: distrib_left distrib_right ac_simps)
    finally show ?thesis by simp
  qed
  show ?thesis unfolding m_def by (rule *) simp_all
qed

lemma split_product:
  fixes a b W :: nat
  shows "a * b = (a div W) * (b div W) * (W * W)
    + ((a mod W) * (b div W) + (a div W) * (b mod W)) * W + (a mod W) * (b mod W)"
proof -
  have "a * b = (a div W * W + a mod W) * (b div W * W + b mod W)" by simp
  also have "\<dots> = (a div W) * (b div W) * (W * W)
    + ((a mod W) * (b div W) + (a div W) * (b mod W)) * W + (a mod W) * (b mod W)"
    by (simp only: distrib_left distrib_right ac_simps)
  finally show ?thesis .
qed

lemma pow128: "(2::nat) ^ 128 = 2 ^ 64 * 2 ^ 64"
  by (simp only: power_add [symmetric]) simp

lemma unat_div64_less: "unat (a :: u128) div 2 ^ 64 < 2 ^ 64"
  using unat_bound [of a] by (simp only: pow128 [symmetric] less_mult_imp_div_less len_num0 len_bit0 len_num1) simp

text \<open>
  None of the unchecked operators of \<open>full_mul\<close> overflows (every column stays below
  \<open>2^128\<close>), and the pair it returns is the product.
\<close>

lemma unat_mult_halves:
  fixes x y :: u128
  assumes "unat x < 2 ^ 64" and "unat y < 2 ^ 64"
  shows "unat (x * y) = unat x * unat y"
proof (rule unat_mul_no_wrap)
  have "unat x * unat y < 2 ^ 64 * 2 ^ 64"
    using assms by (intro mult_strict_mono) simp_all
  then show "unat x * unat y < 2 ^ LENGTH(128)" by simp
qed

lemma unat_add_small:
  fixes x y :: u128
  assumes "unat x + unat y < 2 ^ 128"
  shows "unat (x + y) = unat x + unat y"
  using assms by (intro unat_add_no_wrap) simp

lemma full_mul_exact:
  assumes "full_mul a b = (hi, lo)"
  shows "unat hi * 2 ^ 128 + unat lo = unat a * unat b"
proof -
  define W :: nat where "W = 2 ^ 64"
  have W128: "(2::nat) ^ 128 = W * W" by (simp only: W_def pow128)
  have Wpos: "0 < W" by (simp add: W_def)
  define ll where "ll = (a AND MASK64) * (b AND MASK64)"
  define lh where "lh = (a AND MASK64) * drop_bit 64 b"
  define hl where "hl = drop_bit 64 a * (b AND MASK64)"
  define hh where "hh = drop_bit 64 a * drop_bit 64 b"
  define mid where "mid = drop_bit 64 ll + (lh AND MASK64) + (hl AND MASK64)"
  have lo: "lo = (ll AND MASK64) OR push_bit 64 (mid AND MASK64)"
    and hi: "hi = hh + drop_bit 64 lh + drop_bit 64 hl + drop_bit 64 mid"
    using assms by (simp_all add: full_mul_def Let_def ll_def lh_def hl_def hh_def mid_def)
  have small: "unat (x AND MASK64) < 2 ^ 64" "unat (drop_bit 64 x) < 2 ^ 64" for x :: u128
    by (simp_all only: unat_MASK64 unat_drop unat_div64_less mod_less_divisor zero_less_power zero_less_numeral)
  have cols: "unat ll = (unat a mod W) * (unat b mod W)" "unat lh = (unat a mod W) * (unat b div W)"
    "unat hl = (unat a div W) * (unat b mod W)" "unat hh = (unat a div W) * (unat b div W)"
    unfolding ll_def lh_def hl_def hh_def W_def
    by (simp_all only: unat_mult_halves [OF small(1) small(1)] unat_mult_halves [OF small(1) small(2)]
        unat_mult_halves [OF small(2) small(1)] unat_mult_halves [OF small(2) small(2)]
        unat_MASK64 unat_drop)
  define m where "m = unat ll div W + unat lh mod W + unat hl mod W"
  have m_less: "unat ll div W < W" "unat lh mod W < W" "unat hl mod W < W"
    using unat_div64_less [of ll] Wpos by (simp_all add: W_def)
  have "3 * W \<le> W * W" by (simp add: W_def)
  with m_less have "unat mid = m"
    unfolding mid_def m_def
    by (simp only: unat_add_small unat_MASK64 unat_drop W_def [symmetric] W128)
  define H where "H = unat hh + unat lh div W + unat hl div W + m div W"
  define L where "L = unat ll mod W + W * (m mod W)"
  have HL: "H * (W * W) + L = unat a * unat b"
    unfolding H_def L_def m_def columns_exact [of "unat hh" "unat lh" W "unat hl" "unat ll"]
    unfolding cols by (simp only: split_product [of "unat a" "unat b" W])
  have "unat a * unat b < (W * W) * (W * W)"
    using unat_bound [of a] unat_bound [of b] W128 by (intro mult_strict_mono) auto
  with HL have H_less: "H < W * W" by (metis add_lessD1 mult_less_cancel2)
  have "unat hi = H"
    using H_less \<open>unat mid = m\<close> unfolding hi H_def
    by (simp only: unat_add_small unat_drop W_def [symmetric] W128)
  moreover have "unat lo = L"
  proof -
    have "m mod W < W" using Wpos by simp
    then have "m mod W \<le> W - 1" by linarith
    then have "W * (m mod W) \<le> W * (W - 1)" by (rule mult_le_mono2)
    moreover have "W * (W - 1) + W = W * W" using Wpos by (metis Suc_pred' mult_Suc_right add.commute)
    moreover have "unat ll mod W < W" using Wpos by simp
    ultimately have "unat ll mod W + W * (m mod W) < W * W" by linarith
    with \<open>unat mid = m\<close> show ?thesis
      unfolding lo L_def
      by (subst unat_or_push) (simp_all add: unat_MASK64 W_def)
  qed
  ultimately show ?thesis using HL by (simp only: W128)
qed

section \<open>The long division\<close>

lemma unat_u128: "unat (x :: u128) < 2 ^ 128"
  using unat_bound [of x] by simp

lemma unat_low_bit: "unat (x AND 1) = unat x mod 2" for x :: u128
  using unat_and_mask [of x 1] by (simp add: mask_eq_exp_minus_1)

lemma unat_shl1_or_bit:
  fixes r b :: u128
  assumes "unat b < 2"
  shows "unat (push_bit 1 r OR b) = (2 * unat r + unat b) mod 2 ^ 128"
proof -
  have "\<not> bit (push_bit 1 r) n \<or> \<not> bit b n" for n
  proof (cases n)
    case 0
    then show ?thesis by (simp only: bit_push_bit_iff) simp
  next
    case (Suc m)
    then show ?thesis using bit_word_small [of b 1 n] assms by simp
  qed
  then have "push_bit 1 r OR b = push_bit 1 r + b" by (rule disjunctive_add [symmetric])
  moreover have "unat (push_bit 1 r) = (2 * unat r) mod 2 ^ 128"
  proof -
    have "unat (push_bit 1 r) = take_bit 128 (push_bit 1 (unat r))"
      by (simp only: unsigned_push_bit_eq len_bit0 len_num1) simp
    then show ?thesis by (simp only: take_bit_eq_mod push_bit_eq_mult power_one_right mult.commute)
  qed
  ultimately have "unat (push_bit 1 r OR b) = ((2 * unat r) mod 2 ^ 128 + unat b) mod 2 ^ 128"
    by (simp add: unat_word_ariths)
  then show ?thesis by (simp only: mod_add_left_eq)
qed

lemma unat_or_new_bit:
  fixes q :: u128
  assumes "unat q mod 2 ^ Suc i = 0" and "i < 128"
  shows "unat (q OR push_bit i 1) = unat q + 2 ^ i"
proof -
  have "\<not> bit q i"
  proof -
    have "take_bit (Suc i) (unat q) = 0" using assms(1) by (simp only: take_bit_eq_mod)
    moreover have "bit (take_bit (Suc i) (unat q)) i = bit (unat q) i"
      by (simp only: bit_take_bit_iff lessI simp_thms)
    ultimately have "\<not> bit (unat q) i" by simp
    then show ?thesis using assms(2) by (simp add: bit_unsigned_iff)
  qed
  then have "\<not> bit q n \<or> \<not> bit (push_bit i 1 :: u128) n" for n
    by (cases "n = i") (auto simp only: bit_push_bit_iff bit_1_iff diff_is_0_eq)
  then have "q OR push_bit i 1 = q + push_bit i 1" by (rule disjunctive_add [symmetric])
  moreover have "unat (push_bit i 1 :: u128) = 2 ^ i"
  proof -
    have "(2::nat) ^ i < 2 ^ 128" using assms(2) by (intro power_strict_increasing) simp_all
    moreover have "unat (push_bit i 1 :: u128) = take_bit LENGTH(128) (push_bit i (unat (1 :: u128)))"
      by (rule unsigned_push_bit_eq)
    ultimately show ?thesis using assms(2) by (simp add: push_bit_eq_mult take_bit_nat_eq_self)
  qed
  moreover have "unat q + 2 ^ i < 2 ^ 128"
  proof -
    obtain k where k: "unat q = k * 2 ^ Suc i" using assms(1) by (metis mod_0_imp_dvd dvd_def mult.commute)
    define P :: nat where "P = 2 ^ (127 - i)"
    have P: "(2::nat) ^ 128 = P * 2 ^ Suc i"
      using assms(2) by (simp only: P_def power_add [symmetric]) simp
    have "k * 2 ^ Suc i < P * 2 ^ Suc i" using unat_u128 [of q] by (simp only: P k)
    then have "k < P" by (rule mult_less_cancel2 [THEN iffD1, THEN conjunct2])
    then have "k + 1 \<le> P" by simp
    then have "(k + 1) * 2 ^ Suc i \<le> P * 2 ^ Suc i" by (rule mult_le_mono1)
    then have "unat q + 2 ^ Suc i \<le> 2 ^ 128" by (simp only: P k add_mult_distrib mult_1)
    moreover have "(2::nat) ^ i < 2 ^ Suc i" by (rule power_strict_increasing) simp_all
    ultimately show ?thesis by linarith
  qed
  ultimately show ?thesis by (simp add: unat_add_small)
qed

text \<open>
  One step of the division keeps the remainder below \<open>d\<close> and moves one bit of the
  dividend into it; the quotient bits are collected from the top.
\<close>

lemma div_loop_correct:
  fixes lo d rem quo :: u128
  assumes "i \<le> 128" and "unat rem < unat d" and "unat quo mod 2 ^ i = 0"
  shows "unat (div_loop lo d i rem quo)
    = unat quo + (unat rem * 2 ^ i + unat lo mod 2 ^ i) div unat d"
  using assms
proof (induction lo d i rem quo rule: div_loop.induct)
  case (1 lo d rem quo)
  then show ?case by simp
next
  case (2 lo d i rem quo)
  define b where "b = unat lo div 2 ^ i mod 2"
  define bt where "bt = drop_bit i lo AND 1"
  define sh where "sh = push_bit 1 rem OR bt"
  define v where "v = 2 * unat rem + b"
  have bt: "unat bt = b" by (simp only: bt_def b_def unat_low_bit unat_drop)
  have b2: "b < 2" by (simp add: b_def)
  have sh: "unat sh = v mod 2 ^ 128"
    using unat_shl1_or_bit [of bt rem] bt b2 by (simp only: sh_def v_def)
  have v_d: "v < 2 * unat d" using "2.prems"(2) b2 by (simp add: v_def)
  have lo_split: "unat lo mod 2 ^ Suc i = 2 ^ i * b + unat lo mod 2 ^ i"
    by (simp only: power_Suc2 mod_mult2_eq b_def)
  have total: "unat rem * 2 ^ Suc i + unat lo mod 2 ^ Suc i = v * 2 ^ i + unat lo mod 2 ^ i"
    by (simp only: lo_split v_def) (simp add: algebra_simps)
  have q_i: "unat quo mod 2 ^ i = 0"
    using "2.prems"(3) by (metis dvd_imp_mod_0 dvd_trans le_imp_power_dvd le_SucI mod_0_imp_dvd order_refl)
  have carry: "drop_bit 127 rem = 1 \<longleftrightarrow> 2 ^ 127 \<le> unat rem"
    using unat_bound [of rem] by (simp only: word_unat_eq_iff unat_drop) auto
  have taken: "(drop_bit 127 rem = 1 \<or> d \<le> sh) \<longleftrightarrow> unat d \<le> v"
  proof (cases "2 ^ 127 \<le> unat rem")
    case True
    then have "unat d \<le> v" using unat_u128 [of d] by (simp add: v_def)
    with True show ?thesis by (simp only: carry) simp
  next
    case False
    then have "v < 2 ^ 128" using b2 by (simp add: v_def)
    with False show ?thesis by (simp only: carry word_le_nat_alt sh) simp
  qed
  have unfold: "div_loop lo d (Suc i) rem quo =
      (if unat d \<le> v then div_loop lo d i (sh - d) (quo OR push_bit i 1) else div_loop lo d i sh quo)"
    by (simp only: div_loop.simps Let_def bt_def [symmetric] sh_def [symmetric] taken)
  have d_pos: "0 < unat d" using "2.prems"(2) by simp
  show ?case
  proof (cases "unat d \<le> v")
    case True
    have sub: "unat (sh - d) = v - unat d"
    proof (cases "v < 2 ^ 128")
      case True
      with \<open>unat d \<le> v\<close> show ?thesis by (simp only: unat_sub_if' sh) simp
    next
      case False
      then have "v mod 2 ^ 128 = v - 2 ^ 128"
        using v_d unat_u128 [of d] by (subst le_mod_geq) (auto intro: mod_less)
      with False v_d unat_u128 [of d] show ?thesis by (simp only: unat_sub_if' sh) auto
    qed
    have newq: "unat (quo OR push_bit i 1) = unat quo + 2 ^ i"
      using "2.prems"(1,3) by (intro unat_or_new_bit) simp_all
    have "unat (div_loop lo d i (sh - d) (quo OR push_bit i 1))
        = unat quo + 2 ^ i + ((v - unat d) * 2 ^ i + unat lo mod 2 ^ i) div unat d"
      using "2.IH"(1) [OF bt_def refl sh_def] taken True "2.prems"(1) v_d q_i sub newq
      by simp
    moreover have "2 ^ i + ((v - unat d) * 2 ^ i + unat lo mod 2 ^ i) div unat d
        = (v * 2 ^ i + unat lo mod 2 ^ i) div unat d"
    proof -
      obtain w where "v = unat d + w" using True by (auto simp: le_iff_add)
      then have split: "v * 2 ^ i + unat lo mod 2 ^ i
          = ((v - unat d) * 2 ^ i + unat lo mod 2 ^ i) + 2 ^ i * unat d"
        by (simp add: algebra_simps)
      show ?thesis unfolding split using d_pos by simp
    qed
    ultimately show ?thesis using True by (simp only: unfold total if_True add.assoc)
  next
    case False
    then have "unat sh = v" using unat_bound [of d] by (simp add: sh)
    then have "unat (div_loop lo d i sh quo) = unat quo + (v * 2 ^ i + unat lo mod 2 ^ i) div unat d"
      using "2.IH"(2) [OF bt_def refl sh_def] taken False "2.prems"(1) q_i
      by simp
    with False show ?thesis by (simp only: unfold total if_False)
  qed
qed

lemma div_256_by_128_None_iff:
  "div_256_by_128 hi lo d = None \<longleftrightarrow> d = 0 \<or> unat d \<le> unat hi"
  by (auto simp: div_256_by_128_def word_le_nat_alt)

lemma div_256_by_128_Some:
  assumes "div_256_by_128 hi lo d = Some q"
  shows "unat q = (unat hi * 2 ^ 128 + unat lo) div unat d"
proof -
  from assms have "q = div_loop lo d 128 hi 0" and "unat hi < unat d"
    by (auto simp: div_256_by_128_def word_le_nat_alt split: if_splits)
  moreover have "unat lo mod 2 ^ 128 = unat lo" using unat_bound [of lo] by simp
  ultimately show ?thesis using div_loop_correct [of 128 hi d 0 lo] by simp
qed

section \<open>The multiply-divide primitive\<close>

text \<open>Every branch of \<open>mul_div_floor\<close>, by the floored quotient of the unbounded product.\<close>

lemma of_nat_unat_self: "of_nat (unat x) = x" for x :: u128
  by simp

lemma mul_div_floor_DivByZero [simp]: "mul_div_floor v n 0 = Err DivByZero"
  by (simp add: mul_div_floor_def)

lemma mul_div_floor_cases:
  assumes "d \<noteq> 0"
  shows "mul_div_floor v n d =
    (if unat v * unat n div unat d < 2 ^ 128
     then Ok (of_nat (unat v * unat n div unat d)) else Err Overflow)"
proof -
  have d_pos: "0 < unat d" using assms by (simp add: unat_gt_0)
  show ?thesis
  proof (cases "checked_mul_w v n")
    case (Some p)
    then have p: "unat p = unat v * unat n" by (simp add: checked_iffs)
    then have "unat v * unat n div unat d < 2 ^ 128"
      using unat_u128 [of "p div d"] by (simp add: unat_div)
    moreover have "p div d = of_nat (unat v * unat n div unat d)"
      by (metis p unat_div of_nat_unat_self)
    ultimately show ?thesis using assms Some by (simp add: mul_div_floor_def)
  next
    case None
    obtain hi lo where full: "full_mul v n = (hi, lo)" by (cases "full_mul v n")
    have prod: "unat hi * 2 ^ 128 + unat lo = unat v * unat n" by (rule full_mul_exact [OF full])
    have fits: "unat d \<le> unat hi \<longleftrightarrow> \<not> unat v * unat n div unat d < 2 ^ 128"
    proof -
      have "unat v * unat n < 2 ^ 128 * unat d \<longleftrightarrow> unat hi < unat d"
        using unat_u128 [of lo] unfolding prod [symmetric] by auto
      moreover have "unat v * unat n div unat d < 2 ^ 128 \<longleftrightarrow> unat v * unat n < 2 ^ 128 * unat d"
        using d_pos by (rule div_less_iff_less_mult)
      ultimately show ?thesis by (simp only: not_less)
    qed
    show ?thesis
    proof (cases "div_256_by_128 hi lo d")
      case None': None
      then have "unat d \<le> unat hi" using assms by (simp add: div_256_by_128_None_iff)
      then show ?thesis using assms None full None' fits by (simp add: mul_div_floor_def ok_or_def)
    next
      case (Some q)
      then have q: "unat q = unat v * unat n div unat d"
        by (simp only: div_256_by_128_Some prod)
      then have "unat v * unat n div unat d < 2 ^ 128" using unat_u128 [of q] by simp
      moreover have "q = of_nat (unat v * unat n div unat d)" by (metis q of_nat_unat_self)
      ultimately show ?thesis using assms None full Some by (simp add: mul_div_floor_def ok_or_def)
    qed
  qed
qed

lemma mul_div_floor_Ok_iff:
  "mul_div_floor v n d = Ok q \<longleftrightarrow> d \<noteq> 0 \<and> unat q = unat v * unat n div unat d"
proof (cases "d = 0")
  case False
  have "unat (of_nat m :: u128) = m" if "m < 2 ^ 128" for m
    using that by (simp add: unat_of_nat)
  then show ?thesis using False unat_u128 [of q]
    by (auto simp: mul_div_floor_cases word_unat_eq_iff)
qed simp

lemma mul_div_floor_Err_iff:
  "mul_div_floor v n d = Err e \<longleftrightarrow>
    (d = 0 \<and> e = DivByZero) \<or>
    (d \<noteq> 0 \<and> 2 ^ 128 \<le> unat v * unat n div unat d \<and> e = Overflow)"
  by (cases "d = 0") (auto simp: mul_div_floor_cases)

lemma mul_div_floor_not_Panic [simp]: "mul_div_floor v n d \<noteq> Panic"
  by (cases "d = 0") (auto simp: mul_div_floor_cases)

text \<open>
  C1. \<open>mul_div_floor\<close> is exact: it returns the floored quotient of the unbounded product
  whenever the denominator is nonzero and the quotient fits, \<open>Overflow\<close> when it does not
  fit, \<open>DivByZero\<close> on a zero denominator, and nothing else. The 256-bit product and the
  bitwise long division of the wide path are covered.
\<close>

theorem mul_div_floor_exact:
  "mul_div_floor v n d =
    (if d = 0 then Err DivByZero
     else if unat v * unat n div unat d < 2 ^ 128
     then Ok (of_nat (unat v * unat n div unat d)) else Err Overflow)"
  by (cases "d = 0") (simp_all add: mul_div_floor_cases)

text \<open>A ratio of at most one never overflows and never grows the value.\<close>

lemma mul_div_floor_ratio:
  assumes "d \<noteq> 0" and "n \<le> d"
  shows "\<exists>q. mul_div_floor v n d = Ok q \<and> q \<le> v"
proof -
  have "unat v * unat n div unat d \<le> unat v * unat d div unat d"
    using assms(2) by (intro div_le_mono mult_le_mono2) (simp add: word_le_nat_alt)
  also have "\<dots> = unat v" using assms(1) by (simp add: unat_gt_0)
  finally have le: "unat v * unat n div unat d \<le> unat v" .
  then have lt: "unat v * unat n div unat d < 2 ^ 128" using unat_u128 [of v] by linarith
  show ?thesis
    using assms(1) le lt by (simp add: mul_div_floor_cases word_le_nat_alt unat_of_nat)
qed

lemma mul_div_floor_mono:
  assumes "mul_div_floor v n d = Ok q" and "mul_div_floor v' n d = Ok q'" and "v \<le> v'"
  shows "q \<le> q'"
  using assms by (auto simp: mul_div_floor_Ok_iff word_le_nat_alt intro: div_le_mono mult_le_mono1)

end
