(* ===== verification/Amount.thy ===== *)
theory Amount
  imports Fixed
begin

text \<open>
  \<^verbatim>\<open>crates/dl-core/src/amount.rs\<close>: token amounts in base units with their decimals,
  the checked operations on them, rescaling, and the exact decimal rendering.
\<close>

record amount =
  raw :: u128
  decimals :: u8

definition from_base_units :: "u128 \<Rightarrow> u8 \<Rightarrow> amount" where
  "from_base_units r d = \<lparr>raw = r, decimals = d\<rparr>"

definition zero_amount :: "u8 \<Rightarrow> amount" where
  "zero_amount d = \<lparr>raw = 0, decimals = d\<rparr>"

definition amount_checked_add :: "amount \<Rightarrow> amount \<Rightarrow> (amount, math_error) res" where
  "amount_checked_add a b =
    (if decimals a \<noteq> decimals b then Err ScaleMismatch
     else bind_res (checked_add (raw a) (raw b)) (\<lambda>r. Ok \<lparr>raw = r, decimals = decimals a\<rparr>))"

definition amount_checked_sub :: "amount \<Rightarrow> amount \<Rightarrow> (amount, math_error) res" where
  "amount_checked_sub a b =
    (if decimals a \<noteq> decimals b then Err ScaleMismatch
     else bind_res (checked_sub (raw a) (raw b)) (\<lambda>r. Ok \<lparr>raw = r, decimals = decimals a\<rparr>))"

definition amount_mul_div :: "amount \<Rightarrow> u128 \<Rightarrow> u128 \<Rightarrow> (amount, math_error) res" where
  "amount_mul_div a n d =
    bind_res (mul_div_floor (raw a) n d) (\<lambda>r. Ok \<lparr>raw = r, decimals = decimals a\<rparr>)"

definition to_scale :: "amount \<Rightarrow> u8 \<Rightarrow> (u128, math_error) res" where
  "to_scale a t =
    (if t = decimals a then Ok (raw a)
     else if decimals a < t then
       bind_res (pow10 (unat (t - decimals a)))
         (\<lambda>factor. ok_or (checked_mul_w (raw a) factor) Overflow)
     else
       bind_res (pow10 (unat (decimals a - t)))
         (\<lambda>factor. if raw a mod factor \<noteq> 0 then Err ScaleMismatch else Ok (raw a div factor)))"

definition from_scale :: "u128 \<Rightarrow> u8 \<Rightarrow> u8 \<Rightarrow> (amount, math_error) res" where
  "from_scale v s d =
    bind_res (to_scale \<lparr>raw = v, decimals = s\<rparr> d) (\<lambda>r. Ok \<lparr>raw = r, decimals = d\<rparr>)"

text \<open>\<^verbatim>\<open>u128::to_string\<close> and the \<^verbatim>\<open>Display\<close> implementation.\<close>

fun dec_string :: "nat \<Rightarrow> string" where
  "dec_string n =
    (if n < 10 then [char_of (48 + n)] else dec_string (n div 10) @ [char_of (48 + n mod 10)])"

declare dec_string.simps [simp del]

definition fmt_amount :: "amount \<Rightarrow> string" where
  "fmt_amount a =
    (let d = unat (decimals a); s = dec_string (unat (raw a))
     in if d = 0 then s
        else if length s \<le> d then ''0.'' @ replicate (d - length s) (CHR ''0'') @ s
        else take (length s - d) s @ ''.'' @ drop (length s - d) s)"

section \<open>Addition and subtraction\<close>

lemma checked_add_Ok_iff: "checked_add a b = Ok c \<longleftrightarrow> unat c = unat a + unat b"
  by (simp add: checked_add_def checked_iffs)

lemma checked_sub_Ok_iff: "checked_sub a b = Ok c \<longleftrightarrow> unat b \<le> unat a \<and> unat c = unat a - unat b"
  by (simp add: checked_sub_def checked_iffs)

lemma amount_add_Ok_iff:
  "amount_checked_add a b = Ok c \<longleftrightarrow>
    decimals a = decimals b \<and> decimals c = decimals a \<and> unat (raw c) = unat (raw a) + unat (raw b)"
  by (cases c) (auto simp: amount_checked_add_def bind_res_Ok_iff checked_add_Ok_iff)

lemma amount_sub_Ok_iff:
  "amount_checked_sub a b = Ok c \<longleftrightarrow>
    decimals a = decimals b \<and> decimals c = decimals a \<and> unat (raw b) \<le> unat (raw a) \<and>
    unat (raw c) = unat (raw a) - unat (raw b)"
  by (cases c) (auto simp: amount_checked_sub_def bind_res_Ok_iff checked_sub_Ok_iff)

lemma amount_eqI: "decimals a = decimals b \<Longrightarrow> unat (raw a) = unat (raw b) \<Longrightarrow> a = b" for a b :: amount
  by (cases a; cases b) (simp add: word_unat_eq_iff)

lemma amount_sub_add_lemma:
  "amount_checked_add a b = Ok c \<Longrightarrow> amount_checked_sub c b = Ok a"
  by (auto simp: amount_add_Ok_iff amount_sub_Ok_iff)

section \<open>Rescaling\<close>

lemma pow10_Ok_iff: "pow10 e = Ok p \<longleftrightarrow> unat p = 10 ^ e"
proof -
  have "checked_pow_w (10 :: u128) e = Some p \<longleftrightarrow> unat p = 10 ^ e"
  proof (cases "(10::nat) ^ e < 2 ^ 128")
    case True
    then have "unat (10 ^ e :: u128) = 10 ^ e"
      using unat_power_no_wrap [of "10 :: u128" e] by simp
    with True show ?thesis by (auto simp: checked_pow_w_def word_unat_eq_iff)
  next
    case False
    then show ?thesis using unat_u128 [of p] by (auto simp: checked_pow_w_def)
  qed
  then show ?thesis by (simp add: pow10_def)
qed

lemma pow10_exists_iff: "(\<exists>p. pow10 e = Ok p) \<longleftrightarrow> (10::nat) ^ e < 2 ^ 128"
proof
  assume "\<exists>p. pow10 e = Ok p"
  then obtain p :: u128 where "unat p = 10 ^ e" by (auto simp: pow10_Ok_iff)
  then show "(10::nat) ^ e < 2 ^ 128" using unat_u128 [of p] by simp
next
  assume "(10::nat) ^ e < 2 ^ 128"
  then have "unat (of_nat (10 ^ e) :: u128) = 10 ^ e"
    using unat_of_nat_fits [where 'w = 128, of "10 ^ e"] by simp
  then show "\<exists>p. pow10 e = Ok p" by (auto simp: pow10_Ok_iff)
qed

text \<open>
  \<open>to_scale\<close> returns exactly the value that denotes the same quantity at the target
  scale; it fails when that value does not exist or a power of ten does not fit.
\<close>

lemma to_scale_up:
  assumes "decimals a < t"
  shows "to_scale a t = Ok v \<longleftrightarrow> (10::nat) ^ (unat t - unat (decimals a)) < 2 ^ 128
    \<and> unat v = unat (raw a) * 10 ^ (unat t - unat (decimals a))"
proof -
  have k: "unat (t - decimals a) = unat t - unat (decimals a)"
    using assms by (intro unat_sub_no_wrap) simp
  have "to_scale a t = Ok v \<longleftrightarrow>
      (\<exists>p. pow10 (unat t - unat (decimals a)) = Ok p \<and> unat v = unat (raw a) * unat p)"
    using assms by (auto simp: to_scale_def k bind_res_Ok_iff checked_iffs)
  also have "\<dots> \<longleftrightarrow> (\<exists>p. pow10 (unat t - unat (decimals a)) = Ok p)
      \<and> unat v = unat (raw a) * 10 ^ (unat t - unat (decimals a))"
    by (auto simp: pow10_Ok_iff)
  finally show ?thesis by (simp only: pow10_exists_iff)
qed

lemma to_scale_down:
  assumes "t < decimals a"
  shows "to_scale a t = Ok v \<longleftrightarrow> (10::nat) ^ (unat (decimals a) - unat t) < 2 ^ 128
    \<and> unat v * 10 ^ (unat (decimals a) - unat t) = unat (raw a)"
proof -
  have k: "unat (decimals a - t) = unat (decimals a) - unat t"
    using assms by (intro unat_sub_no_wrap) simp
  have "to_scale a t = Ok v \<longleftrightarrow>
      (\<exists>p. pow10 (unat (decimals a) - unat t) = Ok p \<and> raw a mod p = 0 \<and> v = raw a div p)"
  proof -
    have "((if raw a mod p \<noteq> 0 then Err ScaleMismatch else Ok (raw a div p)) = Ok v)
        = (raw a mod p = 0 \<and> v = raw a div p)" for p
      by (cases "raw a mod p = 0") (simp_all only: if_True if_False simp_thms res.inject res.distinct eq_commute)
    moreover have "\<not> decimals a < t" "t \<noteq> decimals a" using assms by auto
    ultimately show ?thesis
      by (simp only: to_scale_def k bind_res_Ok_iff if_False)
  qed
  also have "\<dots> \<longleftrightarrow> (\<exists>p. pow10 (unat (decimals a) - unat t) = Ok p \<and> unat v * unat p = unat (raw a))"
  proof -
    have eqv: "(raw a mod p = 0 \<and> v = raw a div p) = (unat v * unat p = unat (raw a))"
      if "pow10 n = Ok p" for p n
    proof -
      have "0 < unat p" using that by (simp add: pow10_Ok_iff)
      then show ?thesis
        by (simp add: word_unat_eq_iff unat_mod unat_div)
          (metis add.right_neutral div_mult_mod_eq div_mult_self_is_m mod_mult_self2_is_0)
    qed
    show ?thesis by (intro ex_cong1 conj_cong refl eqv)
  qed
  also have "\<dots> \<longleftrightarrow> (\<exists>p. pow10 (unat (decimals a) - unat t) = Ok p)
      \<and> unat v * 10 ^ (unat (decimals a) - unat t) = unat (raw a)"
    by (auto simp: pow10_Ok_iff)
  finally show ?thesis by (simp only: pow10_exists_iff)
qed

definition scale_gap :: "u8 \<Rightarrow> u8 \<Rightarrow> nat" where
  "scale_gap s t = (unat s - unat t) + (unat t - unat s)"

lemma to_scale_Ok_iff:
  "to_scale a t = Ok v \<longleftrightarrow> (10::nat) ^ scale_gap (decimals a) t < 2 ^ 128
    \<and> unat v * 10 ^ unat (decimals a) = unat (raw a) * 10 ^ unat t"
proof (cases "decimals a < t" "t < decimals a" rule: bool.exhaust [case_product bool.exhaust])
  case False_False
  then have "t = decimals a" by simp
  then show ?thesis by (auto simp: to_scale_def scale_gap_def word_unat_eq_iff)
next
  case True_False
  then have "unat (decimals a) < unat t" by (simp add: word_less_nat_alt)
  then have "(10::nat) ^ unat t = 10 ^ (unat t - unat (decimals a)) * 10 ^ unat (decimals a)"
    by (simp add: power_add [symmetric])
  with True_False \<open>unat (decimals a) < unat t\<close> show ?thesis
    by (simp add: to_scale_up scale_gap_def)
next
  case False_True
  then have lt: "unat t < unat (decimals a)" by (simp add: word_less_nat_alt)
  then have "(10::nat) ^ unat (decimals a) = 10 ^ (unat (decimals a) - unat t) * 10 ^ unat t"
    by (simp add: power_add [symmetric])
  with False_True lt show ?thesis
    by (simp add: to_scale_down scale_gap_def)
next
  case True_True
  then show ?thesis by simp
qed

lemma to_scale_not_Panic [simp]: "to_scale a t \<noteq> Panic"
  by (auto simp: to_scale_def bind_res_Panic_iff pow10_def split: if_splits)

lemma from_scale_Ok_iff:
  "from_scale v s d = Ok a \<longleftrightarrow> decimals a = d \<and> to_scale \<lparr>raw = v, decimals = s\<rparr> d = Ok (raw a)"
  by (cases a) (auto simp: from_scale_def bind_res_Ok_iff)

lemma scale_gap_sym: "scale_gap s t = scale_gap t s"
  by (simp add: scale_gap_def add.commute)

text \<open>
  Rescaling is lossless: whatever \<open>to_scale\<close> returns, \<open>from_scale\<close> at the same
  scale turns back into the original amount, in both directions of the rescale.
\<close>

theorem amount_scale_roundtrip:
  assumes "to_scale a t = Ok v"
  shows "from_scale v t (decimals a) = Ok a"
  using assms by (auto simp: from_scale_Ok_iff to_scale_Ok_iff scale_gap_sym)

theorem amount_scale_roundtrip_witness:
  "to_scale \<lparr>raw = 1500000, decimals = 6\<rparr> 9 = Ok 1500000000
    \<and> from_scale 1500000000 9 6 = Ok \<lparr>raw = 1500000, decimals = 6\<rparr>"
proof -
  have "to_scale \<lparr>raw = 1500000, decimals = 6\<rparr> 9 = Ok 1500000000"
    by (simp add: to_scale_Ok_iff scale_gap_def)
  from this amount_scale_roundtrip [OF this] show ?thesis by simp
qed

section \<open>Decimal rendering\<close>

fun read_dec :: "string \<Rightarrow> nat" where
  "read_dec s = foldl (\<lambda>n c. 10 * n + (of_char c - 48)) 0 s"

lemma read_dec_snoc: "read_dec (s @ [c]) = 10 * read_dec s + (of_char c - 48)"
  by simp

lemma read_dec_string: "read_dec (dec_string n) = n"
proof (induction n rule: dec_string.induct)
  case (1 n)
  have digit: "(of_char (char_of (48 + k) :: char) - 48 :: nat) = k" if "k < 10" for k :: nat
    using that by simp
  show ?case
  proof (cases "n < 10")
    case True
    then show ?thesis using digit [of n] by (simp add: dec_string.simps [of n])
  next
    case False
    then have "dec_string n = dec_string (n div 10) @ [char_of (48 + n mod 10)]"
      by (simp add: dec_string.simps [of n])
    then have "read_dec (dec_string n) = 10 * (n div 10) + n mod 10"
      using "1.IH" False digit [of "n mod 10"] by (simp only: read_dec_snoc) simp
    then show ?thesis by simp
  qed
qed

lemma dec_string_Nil [simp]: "dec_string n \<noteq> []"
  by (simp add: dec_string.simps [of n])

lemma read_dec_zeros: "read_dec (replicate k (CHR ''0'') @ s) = read_dec s"
  by (induction k) simp_all

lemma length_dec_string_pos: "0 < length (dec_string n)"
  by simp

text \<open>
  The rendering is exact: without decimals it is the digits of the raw value;
  otherwise an integer part, a point and exactly \<open>decimals\<close> fraction digits, and the
  digits read together are the raw value.
\<close>

theorem fmt_amount_exact:
  "\<exists>ip fp. fmt_amount a = (if decimals a = 0 then ip else ip @ ''.'' @ fp)
    \<and> ip \<noteq> [] \<and> length fp = unat (decimals a) \<and> read_dec (ip @ fp) = unat (raw a)"
proof -
  define d where "d = unat (decimals a)"
  define s where "s = dec_string (unat (raw a))"
  have s: "read_dec s = unat (raw a)" "s \<noteq> []" by (simp_all add: s_def read_dec_string del: read_dec.simps)
  have fmt: "fmt_amount a = (if d = 0 then s
      else if length s \<le> d then ''0.'' @ replicate (d - length s) (CHR ''0'') @ s
      else take (length s - d) s @ ''.'' @ drop (length s - d) s)"
    by (simp add: fmt_amount_def d_def s_def Let_def)
  have d0: "decimals a = 0 \<longleftrightarrow> d = 0" by (simp add: d_def unat_eq_zero)
  consider "d = 0" | "d \<noteq> 0" "length s \<le> d" | "d \<noteq> 0" "d < length s" by linarith
  then show ?thesis
  proof cases
    case 1
    then show ?thesis using s unfolding fmt d0 d_def [symmetric] by (intro exI [of _ s] exI [of _ "[]"]) simp
  next
    case 2
    have "read_dec (''0'' @ replicate (d - length s) (CHR ''0'') @ s) = read_dec s"
      using read_dec_zeros [of "Suc (d - length s)" s] by simp
    with 2 s show ?thesis unfolding fmt d0 d_def [symmetric]
      by (intro exI [of _ "''0''"] exI [of _ "replicate (d - length s) (CHR ''0'') @ s"])
        (simp del: read_dec.simps)
  next
    case 3
    with s show ?thesis unfolding fmt d0 d_def [symmetric]
      by (intro exI [of _ "take (length s - d) s"] exI [of _ "drop (length s - d) s"])
        (simp del: read_dec.simps)
  qed
qed

end
