(* ===== verification/Clock.thy ===== *)
theory Clock
  imports Rust_Prelude
begin

text \<open>
  \<^verbatim>\<open>crates/dl-core/src/clock.rs\<close>: the injectable clock. The \<^verbatim>\<open>Clock\<close> trait is the
  interface \<open>monotonic_clock\<close>; \<^verbatim>\<open>MockClock\<close>, the clock of the replays, provides it.
\<close>

type_synonym slot = u64

record mock_clock =
  mc_millis :: u64
  mc_slot :: slot

definition mock_new :: "u64 \<Rightarrow> slot \<Rightarrow> mock_clock" where
  "mock_new start_millis start_slot = \<lparr>mc_millis = start_millis, mc_slot = start_slot\<rparr>"

definition advance_millis :: "mock_clock \<Rightarrow> u64 \<Rightarrow> mock_clock" where
  "advance_millis c delta = c\<lparr>mc_millis := sat_add_w (mc_millis c) delta\<rparr>"

definition tick_slot :: "mock_clock \<Rightarrow> mock_clock" where
  "tick_slot c = advance_millis (c\<lparr>mc_slot := sat_add_w (mc_slot c) 1\<rparr>) 400"

definition set_slot :: "mock_clock \<Rightarrow> slot \<Rightarrow> mock_clock" where
  "set_slot c s =
    (let c' = (if mc_slot c < s then advance_millis c (sat_mul_w (s - mc_slot c) 400) else c)
     in c'\<lparr>mc_slot := s\<rparr>)"

definition now_millis :: "mock_clock \<Rightarrow> u64" where
  "now_millis c = mc_millis c"

definition clock_slot :: "mock_clock \<Rightarrow> slot" where
  "clock_slot c = mc_slot c"

text \<open>
  \<^verbatim>\<open>SystemClock\<close>: the elapsed milliseconds are the operating system's, an argument here;
  the slot is the genesis slot plus one per 400 ms, with an unchecked addition.
\<close>

definition system_slot :: "slot \<Rightarrow> u64 \<Rightarrow> (slot, 'e) res" where
  "system_slot genesis elapsed = add_p genesis (elapsed div 400)"

datatype clock_op = AdvanceMillis u64 | TickSlot | SetSlot slot

fun clock_step :: "clock_op \<Rightarrow> mock_clock \<Rightarrow> mock_clock" where
  "clock_step (AdvanceMillis d) c = advance_millis c d"
| "clock_step TickSlot c = tick_slot c"
| "clock_step (SetSlot s) c = set_slot c s"

text \<open>The interface the consumers of a clock rely on: time never runs backwards.\<close>

locale monotonic_clock =
  fixes now :: "'c \<Rightarrow> u64"
    and step :: "'o \<Rightarrow> 'c \<Rightarrow> 'c"
  assumes now_mono: "now c \<le> now (step x c)"
begin

lemma now_run_mono: "now c \<le> now (fold step xs c)"
proof (induction xs arbitrary: c)
  case (Cons x xs)
  have "now c \<le> now (step x c)" by (rule now_mono)
  also have "\<dots> \<le> now (fold step xs (step x c))" by (rule Cons.IH)
  finally show ?case by simp
qed simp

lemma elapsed_no_underflow: "unat (now (fold step xs c) - now c) = unat (now (fold step xs c)) - unat (now c)"
  by (rule unat_sub) (rule now_run_mono)

end

lemma sat_add_w_ge: "a \<le> sat_add_w a b" for a b :: "'w::len word"
  by (simp add: rust_nat) (use unat_bound [of a] in linarith)

lemma advance_millis_mono: "mc_millis c \<le> mc_millis (advance_millis c d)"
  by (simp add: advance_millis_def sat_add_w_ge)

interpretation mock: monotonic_clock now_millis clock_step
proof
  show "now_millis c \<le> now_millis (clock_step x c)" for c x
    by (cases x) (auto simp: now_millis_def tick_slot_def set_slot_def advance_millis_def
        sat_add_w_ge Let_def)
qed

text \<open>
  Under any schedule of \<^verbatim>\<open>advance_millis\<close>, \<^verbatim>\<open>tick_slot\<close> and \<^verbatim>\<open>set_slot\<close> calls the
  replay clock's time never runs backwards, even where \<^verbatim>\<open>set_slot\<close> moves the slot back,
  so the elapsed time between two readings is their exact difference.
\<close>

theorem mock_clock_monotonic:
  "now_millis c \<le> now_millis (fold clock_step xs c)
    \<and> unat (now_millis (fold clock_step xs c) - now_millis c)
      = unat (now_millis (fold clock_step xs c)) - unat (now_millis c)"
  by (simp add: mock.now_run_mono mock.elapsed_no_underflow)

end
