(* ===== verification/Pool.thy ===== *)
theory Pool
  imports Fixed
begin

text \<open>
  \<^verbatim>\<open>crates/dl-state/src/pool.rs\<close>, \<^verbatim>\<open>registry.rs\<close>, \<^verbatim>\<open>cycle.rs\<close> and \<^verbatim>\<open>mint.rs\<close>: the normalized
  market state, the in-memory pool store, and the cycle type that the detector
  produces and the simulator consumes.
\<close>

section \<open>Keys and pools\<close>

datatype pubkey = Pubkey (key_bytes: "u8 list")

definition pubkey_ZERO :: pubkey where
  "pubkey_ZERO = Pubkey (replicate 32 0)"

definition from_slice_32 :: "u8 list \<Rightarrow> pubkey option" where
  "from_slice_32 bs = (if length bs = 32 then Some (Pubkey bs) else None)"

datatype amm_kind = RaydiumAmmV4 | OrcaWhirlpool | MeteoraDlmm

definition default_kind :: amm_kind where
  "default_kind = RaydiumAmmV4"

fun discriminator :: "amm_kind \<Rightarrow> u8 option" where
  "discriminator RaydiumAmmV4 = None"
| "discriminator OrcaWhirlpool = None"
| "discriminator MeteoraDlmm = None"

datatype pool_extras =
    Raydium
  | Whirlpool (sqrt_price: u128)
  | Dlmm (bin_step: u16) (active_amount_x: u64) (active_amount_y: u64) (active_price_scaled: u128)

definition default_extras :: pool_extras where
  "default_extras = Raydium"

record pool =
  address :: pubkey
  kind :: amm_kind
  base_mint :: pubkey
  quote_mint :: pubkey
  base_decimals :: u8
  quote_decimals :: u8
  base_reserve :: u64
  quote_reserve :: u64
  fee_bps :: u16
  last_update_slot :: u64
  extras :: pool_extras

definition default_pool :: pool where
  "default_pool = \<lparr>address = pubkey_ZERO, kind = default_kind, base_mint = pubkey_ZERO,
    quote_mint = pubkey_ZERO, base_decimals = 0, quote_decimals = 0, base_reserve = 0,
    quote_reserve = 0, fee_bps = 0, last_update_slot = 0, extras = default_extras\<rparr>"

definition mid_price_scaled_1e9 :: "pool \<Rightarrow> (u128, math_error) res" where
  "mid_price_scaled_1e9 p =
    (if base_reserve p = 0 then Err DivByZero
     else mul_div_floor (ucast (quote_reserve p)) 1000000000 (ucast (base_reserve p)))"

definition pool_invariant :: "pool \<Rightarrow> u128" where
  "pool_invariant p = sat_mul_w (ucast (base_reserve p)) (ucast (quote_reserve p))"

section \<open>The registry\<close>

record pool_registry =
  by_address :: "u8 list \<rightharpoonup> pool"

definition registry_new :: pool_registry where
  "registry_new = \<lparr>by_address = Map.empty\<rparr>"

definition registry_insert :: "pool_registry \<Rightarrow> pool \<Rightarrow> pool option \<times> pool_registry" where
  "registry_insert r p =
    (by_address r (key_bytes (address p)),
     r\<lparr>by_address := (by_address r)(key_bytes (address p) \<mapsto> p)\<rparr>)"

definition registry_get :: "pool_registry \<Rightarrow> u8 list \<Rightarrow> pool option" where
  "registry_get r k = by_address r k"

definition registry_len :: "pool_registry \<Rightarrow> usize" where
  "registry_len r = card (dom (by_address r))"

definition registry_is_empty :: "pool_registry \<Rightarrow> bool" where
  "registry_is_empty r \<longleftrightarrow> registry_len r = 0"

definition registry_of :: "pool list \<Rightarrow> pool_registry" where
  "registry_of ps = fold (\<lambda>p r. snd (registry_insert r p)) ps registry_new"

text \<open>The interface of a keyed pool store, as its readers use it.\<close>

locale keyed_store =
  fixes empty :: 's
    and insert :: "'s \<Rightarrow> 'p \<Rightarrow> 'p option \<times> 's"
    and get :: "'s \<Rightarrow> 'k \<Rightarrow> 'p option"
    and key :: "'p \<Rightarrow> 'k"
  assumes get_empty: "get empty k = None"
    and insert_prev: "fst (insert s p) = get s (key p)"
    and get_insert: "get (snd (insert s p)) k = (if k = key p then Some p else get s k)"
begin

lemma get_fold_absent:
  "k \<notin> key ` set ps \<Longrightarrow> get (fold (\<lambda>p s. snd (insert s p)) ps s) k = get s k"
  by (induction ps arbitrary: s) (auto simp: get_insert)

lemma get_fold_key:
  "get s k = Some p \<Longrightarrow> key p = k \<Longrightarrow>
    \<exists>q. get (fold (\<lambda>p s. snd (insert s p)) ps s) k = Some q \<and> key q = k"
proof (induction ps arbitrary: s p)
  case (Cons x ps)
  then show ?case by (cases "k = key x") (auto simp: get_insert)
qed auto

lemma get_fold_last:
  "get (fold (\<lambda>p s. snd (insert s p)) (ps @ [p]) s) (key p) = Some p"
  by (simp add: get_insert)

end

interpretation registry: keyed_store registry_new registry_insert registry_get "key_bytes \<circ> address"
  by unfold_locales (auto simp: registry_new_def registry_insert_def registry_get_def)

lemma finite_registry_of: "finite (dom (by_address (registry_of ps)))"
proof -
  have "finite (dom (by_address (fold (\<lambda>p r. snd (registry_insert r p)) ps r)))"
    if "finite (dom (by_address r))" for r
    using that by (induction ps arbitrary: r) (simp_all add: registry_insert_def)
  then show ?thesis by (simp add: registry_of_def registry_new_def)
qed

lemma registry_len_insert:
  assumes "finite (dom (by_address r))"
  shows "registry_len (snd (registry_insert r p)) =
    (if fst (registry_insert r p) = None then Suc (registry_len r) else registry_len r)"
  using assms by (auto simp: registry_len_def registry_insert_def domIff insert_absorb)

text \<open>
  The registry is a store keyed by address: the last pool inserted under an address
  is the one a lookup finds, whatever was inserted before and whatever pools with other
  addresses are inserted afterwards, and its size counts distinct addresses.
\<close>

theorem registry_last_write_wins:
  assumes "address p \<notin> address ` set later"
  shows "registry_get (registry_of (earlier @ p # later)) (key_bytes (address p)) = Some p
    \<and> registry_len (registry_of (earlier @ p # later))
      = card (address ` set (earlier @ p # later))"
proof
  have "key_bytes (address p) \<notin> (key_bytes \<circ> address) ` set later"
    using assms by (auto simp: image_iff pubkey.expand)
  then show "registry_get (registry_of (earlier @ p # later)) (key_bytes (address p)) = Some p"
    by (simp add: registry_of_def registry.get_fold_absent registry.get_insert)
next
  have "dom (by_address (fold (\<lambda>p r. snd (registry_insert r p)) ps r))
      = dom (by_address r) \<union> key_bytes ` address ` set ps" for ps r
    by (induction ps arbitrary: r) (auto simp: registry_insert_def)
  then have "dom (by_address (registry_of ps)) = key_bytes ` address ` set ps" for ps
    by (simp add: registry_of_def registry_new_def)
  moreover have "card (key_bytes ` A) = card A" for A
    by (rule card_image) (auto intro: inj_onI pubkey.expand)
  ultimately show "registry_len (registry_of (earlier @ p # later))
      = card (address ` set (earlier @ p # later))"
    by (simp only: registry_len_def)
qed

theorem registry_last_write_wins_witness:
  "registry_get (registry_of ([] @ default_pool\<lparr>base_reserve := 5\<rparr>
      # [default_pool\<lparr>address := Pubkey [1]\<rparr>])) (replicate 32 0)
    = Some (default_pool\<lparr>base_reserve := 5\<rparr>)"
  using registry_last_write_wins [of "default_pool\<lparr>base_reserve := 5\<rparr>"
      "[default_pool\<lparr>address := Pubkey [1]\<rparr>]" "[]"]
  by (simp add: default_pool_def pubkey_ZERO_def numeral_eq_Suc)

section \<open>Cycles\<close>

datatype direction = BaseToQuote | QuoteToBase

record leg =
  leg_pool :: pubkey
  leg_direction :: direction
  leg_weight :: i64

record cycle =
  cycle_seq :: u64
  legs :: "leg list"
  weight_sum :: i64
  expected_profit_bps :: i32

definition cycle_new :: "leg list \<Rightarrow> (cycle, 'e) res" where
  "cycle_new ls = bind_res (sum_p 64 0 (map leg_weight ls))
    (\<lambda>w. Ok \<lparr>cycle_seq = 0, legs = ls, weight_sum = w, expected_profit_bps = 0\<rparr>)"

definition n_legs :: "cycle \<Rightarrow> usize" where
  "n_legs c = length (legs c)"

definition compute_profit_bps :: "i64 \<Rightarrow> i32" where
  "compute_profit_bps w =
    (let neg = (if w = smin 64 then smax 64 else - w);
         bps = clamp_i 128 (neg * 10000) sdiv 1000000000000000000
     in if smax 32 < bps then smax 32 else if bps < smin 32 then smin 32 else bps)"

definition compute_expected_profit_bps :: "cycle \<Rightarrow> cycle" where
  "compute_expected_profit_bps c = c\<lparr>expected_profit_bps := compute_profit_bps (weight_sum c)\<rparr>"

text \<open>For every \<open>i64\<close> weight neither saturation of the source is reached.\<close>

lemma compute_profit_bps_eq:
  assumes "in_range 64 w"
  shows "compute_profit_bps w = (if w = smin 64 then smax 64 else - w) * 10000 sdiv 10 ^ 18"
proof -
  define neg where "neg = (if w = smin 64 then smax 64 else - w)"
  have neg: "- (2 ^ 63) \<le> neg" "neg \<le> 2 ^ 63 - 1"
    using assms by (auto simp: neg_def in_range_def smin_def smax_def)
  have clamp: "clamp_i 128 (neg * 10000) = neg * 10000"
    using neg by (intro clamp_i_id) (auto simp: in_range_def smin_def smax_def)
  have "(- (2 ^ 63) * 10000) sdiv 10 ^ 18 \<le> neg * 10000 sdiv 10 ^ 18"
    and "neg * 10000 sdiv 10 ^ 18 \<le> 2 ^ 63 * 10000 sdiv 10 ^ 18"
    using neg by (intro sdiv_mono; simp)+
  then have "\<not> smax 32 < neg * 10000 sdiv 10 ^ 18" "\<not> neg * 10000 sdiv 10 ^ 18 < smin 32"
    by (auto simp: sdiv_nonneg sdiv_nonpos smax_def smin_def)
  then show ?thesis
    by (simp add: compute_profit_bps_def neg_def [symmetric] clamp Let_def)
qed

text \<open>
  The reported profit is antitone in the weight sum over the whole \<open>i64\<close> range: a
  cycle with a smaller (more negative) weight never reports fewer basis points, and the
  sign is that of the negated weight.
\<close>

theorem compute_profit_bps_antitone:
  assumes "in_range 64 w" and "in_range 64 w'" and "w \<le> w'"
  shows "compute_profit_bps w' \<le> compute_profit_bps w
    \<and> (w \<le> 0 \<longrightarrow> 0 \<le> compute_profit_bps w) \<and> (0 \<le> w \<longrightarrow> compute_profit_bps w \<le> 0)"
proof -
  define neg where "neg v = (if v = smin 64 then smax 64 else - v)" for v
  have eq: "compute_profit_bps v = neg v * 10000 sdiv 10 ^ 18" if "in_range 64 v" for v
    using that by (simp only: compute_profit_bps_eq neg_def)
  have anti: "neg w' \<le> neg w"
    using assms by (auto simp: neg_def in_range_def smin_def smax_def)
  then have "neg w' * 10000 sdiv 10 ^ 18 \<le> neg w * 10000 sdiv 10 ^ 18"
    by (intro sdiv_mono) simp_all
  moreover have "0 \<le> neg w * 10000 sdiv 10 ^ 18" if "w \<le> 0"
    using that by (intro sdiv_nonneg_iff) (simp_all add: neg_def smax_def)
  moreover have "neg w * 10000 sdiv 10 ^ 18 \<le> 0" if "0 \<le> w"
    using that by (intro sdiv_nonpos_iff) (simp_all add: neg_def smin_def)
  ultimately show ?thesis using assms by (simp only: eq) blast
qed

theorem compute_profit_bps_antitone_witness:
  "compute_profit_bps 500000000000000000 \<le> compute_profit_bps (- 1000000000000000000)"
  using compute_profit_bps_antitone [of "- 1000000000000000000" "500000000000000000"]
  by (simp add: in_range_def smin_def smax_def)

section \<open>Decode errors and mint decimals\<close>

text \<open>\<^verbatim>\<open>error.rs\<close>: why a decode failed. \<^verbatim>\<open>HardcodedMintSource\<close> is a table lookup.\<close>

datatype decode_error =
    TooShort (need: usize) (got_len: usize)
  | BadDiscriminator (expected: "u8 list") (got: "u8 list")
  | UnknownKind u8
  | DecodeMath math_error

definition mint_with :: "(u8 list \<rightharpoonup> u8) \<Rightarrow> pubkey \<Rightarrow> u8 \<Rightarrow> (u8 list \<rightharpoonup> u8)" where
  "mint_with table mint d = table(key_bytes mint \<mapsto> d)"

definition mint_fetch :: "(u8 list \<rightharpoonup> u8) \<Rightarrow> pubkey \<Rightarrow> (u8, decode_error) res" where
  "mint_fetch table mint =
    ok_or (table (key_bytes mint)) (BadDiscriminator (bytes_of ''mint in table'') (key_bytes mint))"

lemma mint_fetch_with:
  "mint_fetch (mint_with table m d) m' = (if m' = m then Ok d else mint_fetch table m')"
  by (auto simp: mint_fetch_def mint_with_def ok_or_def pubkey.expand)

end
