(* ===== verification/Fill.thy ===== *)
theory Fill
  imports Pool
begin

text \<open>
  \<^verbatim>\<open>crates/dl-sim/src/fill.rs\<close>, \<^verbatim>\<open>fill_orca.rs\<close>, \<^verbatim>\<open>fill_meteora.rs\<close> and \<^verbatim>\<open>error.rs\<close>: the
  output of one swap on each of the three AMM kinds. The interface \<open>swap_curve\<close> states
  what the simulator needs of a fill; each fill provides it.
\<close>

datatype sim_error =
    Math math_error
  | PoolNotFound pubkey
  | ZeroReserve
  | FeeTooHigh u16
  | CycleTooLong usize
  | ProbOutOfRange u32

section \<open>Constant product\<close>

definition MAX_FEE_BPS :: u16 where
  "MAX_FEE_BPS = 10000"

definition fill_constant_product :: "u128 \<Rightarrow> u128 \<Rightarrow> u16 \<Rightarrow> u128 \<Rightarrow> (u128, sim_error) res" where
  "fill_constant_product reserve_in reserve_out fee amount_in =
    (if amount_in = 0 then Ok 0
     else if reserve_in = 0 \<or> reserve_out = 0 then Err ZeroReserve
     else if MAX_FEE_BPS \<le> fee then Err (FeeTooHigh fee)
     else
       let fee_denom = ucast MAX_FEE_BPS;
           fee_num = ucast (MAX_FEE_BPS - fee)
       in bind_res (map_err Math (mul_div_floor amount_in fee_num fee_denom)) (\<lambda>dx_eff.
          bind_res (add_p reserve_in dx_eff) (\<lambda>denom.
          map_err Math (mul_div_floor reserve_out dx_eff denom))))"

section \<open>Orca Whirlpool\<close>

definition Q64_RESOLUTION :: u128 where
  "Q64_RESOLUTION = push_bit 64 1"

definition MIN_SQRT_PRICE :: u128 where
  "MIN_SQRT_PRICE = 4295048016"

definition MAX_SQRT_PRICE :: u128 where
  "MAX_SQRT_PRICE = 79226673515401279992446579029"

text \<open>
  \<^verbatim>\<open>sqrt_u128\<close>: Newton's iteration. \<open>sqrt_loop value prev nxt\<close> is the \<^verbatim>\<open>while next < prev\<close>
  loop; the additions and divisions are unchecked in the source.
\<close>

function sqrt_loop :: "u128 \<Rightarrow> u128 \<Rightarrow> u128 \<Rightarrow> (u128, sim_error) res" where
  "sqrt_loop v prev nxt =
    (if nxt < prev then
       bind_res (div_p v nxt) (\<lambda>q. bind_res (add_p nxt q) (\<lambda>s. sqrt_loop v nxt (s div 2)))
     else Ok prev)"
  by pat_completeness auto
termination
  by (relation "measure (\<lambda>(v, prev, nxt). unat prev)") (auto simp: word_less_nat_alt)

declare sqrt_loop.simps [simp del]

definition sqrt_u128 :: "u128 \<Rightarrow> (u128, sim_error) res" where
  "sqrt_u128 v =
    (if v < 2 then Ok v
     else let prev = v div 2 in
       bind_res (div_p v prev) (\<lambda>q. bind_res (add_p prev q) (\<lambda>s. sqrt_loop v prev (s div 2))))"

definition sqrt_u128_ceil :: "u128 \<Rightarrow> (u128, sim_error) res" where
  "sqrt_u128_ceil v =
    bind_res (sqrt_u128 v) (\<lambda>fl. if sat_mul_w fl fl < v then add_p fl 1 else Ok fl)"

definition is_valid_sqrt_price :: "u128 \<Rightarrow> bool" where
  "is_valid_sqrt_price sp \<longleftrightarrow> MIN_SQRT_PRICE \<le> sp \<and> sp \<le> MAX_SQRT_PRICE"

definition fill_orca_single_tick :: "u128 \<Rightarrow> u128 \<Rightarrow> u16 \<Rightarrow> (u128, sim_error) res" where
  "fill_orca_single_tick sp amount_in fee =
    (if \<not> is_valid_sqrt_price sp then Err (Math Overflow)
     else
       let reserve_in = Q64_RESOLUTION in
       bind_res
         (bind_res (div_p (- 1) sp) (\<lambda>lim.
            if sp \<le> max lim 1
            then bind_res (mul_p sp sp) (\<lambda>sq. Ok (sq div Q64_RESOLUTION))
            else Ok sp))
         (\<lambda>reserve_out. fill_constant_product reserve_in reserve_out fee amount_in))"

definition tick_index_to_sqrt_price :: "i32 \<Rightarrow> (u128, sim_error) res" where
  "tick_index_to_sqrt_price tick_index =
    (let tick = tick_index in
     bind_res (range_p 128 (as_i128 Q64_RESOLUTION * tick)) (\<lambda>m.
     bind_res (range_p 128 (as_i128 Q64_RESOLUTION + m sdiv 10000)) (\<lambda>linear.
     Ok (as_u128 (min (max linear (as_i128 MIN_SQRT_PRICE)) (as_i128 MAX_SQRT_PRICE))))))"

function tick_bisect :: "u128 \<Rightarrow> int \<Rightarrow> int \<Rightarrow> (i32, sim_error) res" where
  "tick_bisect sp lo hi =
    (if lo < hi then
       let mid = lo + (hi - lo) sdiv 2 in
       bind_res (tick_index_to_sqrt_price mid) (\<lambda>mid_sp.
         if mid_sp < sp then tick_bisect sp (mid + 1) hi else tick_bisect sp lo mid)
     else Ok lo)"
  by pat_completeness auto
termination
  by (relation "measure (\<lambda>(sp, lo, hi). nat (hi - lo))") (auto simp: sdiv_nonneg)

declare tick_bisect.simps [simp del]

definition MIN_TICK :: i32 where
  "MIN_TICK = - 443635"

definition MAX_TICK :: i32 where
  "MAX_TICK = 443635"

definition sqrt_price_to_tick_index :: "u128 \<Rightarrow> (i32, sim_error) res" where
  "sqrt_price_to_tick_index sp =
    (if \<not> is_valid_sqrt_price sp then Err (Math Overflow)
     else tick_bisect sp MIN_TICK MAX_TICK)"

section \<open>Meteora DLMM\<close>

definition SCALE_OFFSET :: u128 where
  "SCALE_OFFSET = 1000000000000"

datatype swap_direction = XForY | YForX

record meteora_bin =
  amount_x :: u64
  amount_y :: u64
  bin_price :: u128

text \<open>The shift amounts are unchecked: a shift by 128 or more panics.\<close>

definition mul_shr :: "u128 \<Rightarrow> u128 \<Rightarrow> nat \<Rightarrow> bool \<Rightarrow> (u128, sim_error) res" where
  "mul_shr a b offset rounding_down =
    bind_res (mul_p a b) (\<lambda>p. if 128 \<le> offset then Panic else Ok (drop_bit offset p))"

definition shl_div :: "u128 \<Rightarrow> u128 \<Rightarrow> nat \<Rightarrow> bool \<Rightarrow> (u128, sim_error) res" where
  "shl_div a b offset rounding_down =
    (if b = 0 then Ok (- 1)
     else if 128 \<le> offset then Panic else div_p (push_bit offset a) b)"

definition fill_meteora_single_bin ::
    "meteora_bin \<Rightarrow> swap_direction \<Rightarrow> u64 \<Rightarrow> u16 \<Rightarrow> (u64, sim_error) res" where
  "fill_meteora_single_bin bn dir amount_in fee =
    (case (case dir of
        XForY \<Rightarrow> (ucast (amount_x bn), ucast (amount_y bn))
      | YForX \<Rightarrow> (ucast (amount_y bn), ucast (amount_x bn))) of
      (ri, ro) \<Rightarrow>
        bind_res (fill_constant_product ri ro fee (ucast amount_in)) (\<lambda>dy.
          if 0xFFFFFFFFFFFFFFFF < dy then Err (Math Overflow) else Ok (ucast dy)))"

section \<open>The constant-product fill, on naturals\<close>

definition cp_dx :: "nat \<Rightarrow> nat \<Rightarrow> nat" where
  "cp_dx fee dx = dx * (10000 - fee) div 10000"

definition cp_out :: "nat \<Rightarrow> nat \<Rightarrow> nat \<Rightarrow> nat" where
  "cp_out x y dx = y * dx div (x + dx)"

lemma cp_dx_le: "cp_dx fee dx \<le> dx"
proof -
  have "dx * (10000 - fee) div 10000 \<le> dx * 10000 div 10000"
    by (intro div_le_mono mult_le_mono2) simp
  then show ?thesis by (simp add: cp_dx_def)
qed

lemma cp_dx_mono: "dx \<le> dx' \<Longrightarrow> cp_dx fee dx \<le> cp_dx fee dx'"
  by (simp add: cp_dx_def div_le_mono)

lemma unat_fee_num:
  assumes "fee < MAX_FEE_BPS"
  shows "unat (ucast (MAX_FEE_BPS - fee) :: u128) = 10000 - unat fee"
proof -
  have "unat (MAX_FEE_BPS - fee) = unat MAX_FEE_BPS - unat fee"
    using assms by (intro unat_sub_no_wrap) simp
  then show ?thesis by (simp add: unat_ucast_up MAX_FEE_BPS_def)
qed

lemma fill_constant_product_eq:
  assumes "amount_in \<noteq> 0" and "reserve_in \<noteq> 0" and "reserve_out \<noteq> 0" and "fee < MAX_FEE_BPS"
  shows "fill_constant_product reserve_in reserve_out fee amount_in =
    (let dx = cp_dx (unat fee) (unat amount_in) in
     if unat reserve_in + dx < 2 ^ 128
     then Ok (of_nat (cp_out (unat reserve_in) (unat reserve_out) dx)) else Panic)"
proof -
  define dx where "dx = cp_dx (unat fee) (unat amount_in)"
  have dx_less: "dx < 2 ^ 128"
    using cp_dx_le [of "unat fee" "unat amount_in"] unat_u128 [of amount_in] unfolding dx_def by linarith
  have denom: "unat (ucast MAX_FEE_BPS :: u128) = 10000" by (simp add: MAX_FEE_BPS_def)
  then have "(ucast MAX_FEE_BPS :: u128) \<noteq> 0" by (metis unat_0 zero_neq_numeral)
  then have step1: "mul_div_floor amount_in (ucast (MAX_FEE_BPS - fee)) (ucast MAX_FEE_BPS) = Ok (of_nat dx)"
    using dx_less by (simp add: mul_div_floor_cases unat_fee_num [OF assms(4)] denom dx_def cp_dx_def)
  have dx_u: "unat (of_nat dx :: u128) = dx" using dx_less by (simp add: unat_of_nat_fits)
  show ?thesis
  proof (cases "unat reserve_in + dx < 2 ^ 128")
    case True
    define den where "den = reserve_in + of_nat dx"
    have den: "unat den = unat reserve_in + dx"
      unfolding den_def using True by (subst unat_add_small) (simp_all add: dx_u)
    then have den0: "den \<noteq> 0" using assms(2) by (metis add_is_0 unat_eq_zero)
    have "unat reserve_out * dx div (unat reserve_in + dx) \<le> unat reserve_out * (unat reserve_in + dx) div (unat reserve_in + dx)"
      by (intro div_le_mono mult_le_mono2) simp
    also have "\<dots> = unat reserve_out" using den den0 by (simp add: unat_eq_zero [symmetric])
    finally have "unat reserve_out * dx div (unat reserve_in + dx) < 2 ^ 128"
      using unat_u128 [of reserve_out] by linarith
    then have "mul_div_floor reserve_out (of_nat dx) den
        = Ok (of_nat (cp_out (unat reserve_in) (unat reserve_out) dx))"
      using den0 by (simp add: mul_div_floor_cases den dx_u cp_out_def)
    moreover have "add_p reserve_in (of_nat dx) = (Ok den :: (u128, sim_error) res)"
      using True by (simp add: add_p_def dx_u den_def)
    ultimately show ?thesis
      using assms True step1
      by (simp add: fill_constant_product_def Let_def dx_def [symmetric] not_le)
  next
    case False
    then have "add_p reserve_in (of_nat dx) = (Panic :: (u128, sim_error) res)"
      by (simp add: add_p_def dx_u)
    with False show ?thesis
      using assms step1
      by (simp add: fill_constant_product_def Let_def dx_def [symmetric] not_le)
  qed
qed

lemma fill_constant_product_zero [simp]: "fill_constant_product x y fee 0 = Ok 0"
  by (simp add: fill_constant_product_def)

lemma fill_constant_product_OkD:
  assumes "fill_constant_product x y fee a = Ok dy" and "a \<noteq> 0"
  shows "x \<noteq> 0" "y \<noteq> 0" "fee < MAX_FEE_BPS"
    "unat x + cp_dx (unat fee) (unat a) < 2 ^ 128"
    "unat dy = cp_out (unat x) (unat y) (cp_dx (unat fee) (unat a))"
proof -
  show valid: "x \<noteq> 0" "y \<noteq> 0" "fee < MAX_FEE_BPS"
    using assms by (auto simp: fill_constant_product_def not_le split: if_splits)
  define dx where "dx = cp_dx (unat fee) (unat a)"
  have eq: "fill_constant_product x y fee a = (if unat x + dx < 2 ^ 128
      then Ok (of_nat (cp_out (unat x) (unat y) dx)) else Panic)"
    using fill_constant_product_eq [OF assms(2) valid] by (simp only: Let_def dx_def)
  then show "unat x + cp_dx (unat fee) (unat a) < 2 ^ 128"
    using assms(1) by (auto simp: dx_def split: if_splits)
  have "cp_out (unat x) (unat y) dx \<le> unat y * (unat x + dx) div (unat x + dx)"
    unfolding cp_out_def by (intro div_le_mono mult_le_mono2) simp
  also have "\<dots> \<le> unat y" by simp
  finally have "cp_out (unat x) (unat y) dx < 2 ^ 128" using unat_u128 [of y] by linarith
  then show "unat dy = cp_out (unat x) (unat y) (cp_dx (unat fee) (unat a))"
    using assms(1) eq by (auto simp: dx_def [symmetric] unat_of_nat_fits split: if_splits)
qed

lemma cp_out_le: "cp_out x y dx \<le> y"
proof -
  have "cp_out x y dx \<le> y * (x + dx) div (x + dx)"
    unfolding cp_out_def by (intro div_le_mono mult_le_mono2) simp
  then show ?thesis using div_le_dividend le_trans by (cases "x + dx = 0") auto
qed

lemma cp_out_less: "0 < x \<Longrightarrow> 0 < y \<Longrightarrow> cp_out x y dx < y"
  unfolding cp_out_def by (subst div_less_iff_less_mult) auto

lemma cp_out_mult_le: "cp_out x y dx * (x + dx) \<le> y * dx"
  by (simp add: cp_out_def)

lemma cp_out_mono:
  assumes "dx \<le> dx'" and "0 < x"
  shows "cp_out x y dx \<le> cp_out x y dx'"
proof -
  have "cp_out x y dx * (x + dx') * (x + dx) = (cp_out x y dx * (x + dx)) * (x + dx')"
    by (simp add: ac_simps)
  also have "\<dots> \<le> y * dx * (x + dx')" by (intro mult_le_mono1 cp_out_mult_le)
  also have "\<dots> \<le> y * dx' * (x + dx)"
    using assms(1) by (simp add: distrib_left ac_simps)
  finally have "cp_out x y dx * (x + dx') \<le> y * dx'" using assms(2) by simp
  then show ?thesis using assms(2) by (simp add: cp_out_def less_eq_div_iff_mult_less_eq)
qed

lemma cp_invariant: "x * y \<le> (x + dx) * (y - cp_out x y dx)"
proof -
  obtain r where r: "y = cp_out x y dx + r" using cp_out_le le_iff_add by blast
  have "(x + dx) * y = (x + dx) * cp_out x y dx + (x + dx) * r"
    by (subst r) (rule distrib_left)
  moreover have "(x + dx) * cp_out x y dx \<le> y * dx"
    by (subst mult.commute) (rule cp_out_mult_le)
  moreover have "(x + dx) * y = x * y + y * dx" by (simp add: algebra_simps)
  ultimately have "x * y \<le> (x + dx) * r" by linarith
  with r show ?thesis by (metis add_diff_cancel_left')
qed

text \<open>Swapping back what a swap returned never returns more than went in.\<close>

lemma cp_round_trip:
  assumes "o' \<le> cp_out x y dx" and "0 < y"
  shows "cp_out y x o' \<le> dx"
proof -
  have "x * o' \<le> x * cp_out x y dx" using assms(1) by simp
  also have "\<dots> \<le> cp_out x y dx * (x + dx)" by (simp add: algebra_simps)
  also have "\<dots> \<le> y * dx" by (rule cp_out_mult_le)
  also have "\<dots> \<le> dx * (y + o')" by (simp add: algebra_simps)
  finally show ?thesis
    using assms(2) by (metis cp_out_def add_gr_0 div_le_mono nonzero_mult_div_cancel_right not_gr_zero)
qed

section \<open>The interface of a fill\<close>

text \<open>
  What the simulator and the sizer need of a fill: nothing in, nothing out; a smaller
  input succeeds whenever a larger one does and returns no more; and no output exceeds
  what the pool holds.
\<close>

locale swap_curve =
  fixes fill :: "'w::len word \<Rightarrow> ('w word, sim_error) res"
    and capacity :: nat
  assumes fill_zero: "fill 0 = Ok y \<Longrightarrow> y = 0"
    and fill_down: "fill b = Ok y \<Longrightarrow> a \<le> b \<Longrightarrow> \<exists>x. fill a = Ok x \<and> x \<le> y"
    and fill_bound: "fill a = Ok y \<Longrightarrow> unat y \<le> capacity"
begin

lemma fill_mono: "fill a = Ok x \<Longrightarrow> fill b = Ok y \<Longrightarrow> a \<le> b \<Longrightarrow> x \<le> y"
  using fill_down by fastforce

lemma fails_upward: "\<not> is_ok (fill a) \<Longrightarrow> a \<le> b \<Longrightarrow> \<not> is_ok (fill b)"
  by (metis fill_down is_ok_iff)

end

interpretation cp: swap_curve "fill_constant_product x y fee" "unat y" for x y :: u128 and fee :: u16
proof
  fix dy
  assume "fill_constant_product x y fee 0 = Ok dy"
  then show "dy = 0" by simp
next
  fix a dy
  assume "fill_constant_product x y fee a = Ok dy"
  then show "unat dy \<le> unat y"
    by (cases "a = 0") (auto dest!: fill_constant_product_OkD(5) simp: cp_out_le)
next
  fix a b dy
  assume b: "fill_constant_product x y fee b = Ok dy" and ab: "a \<le> b"
  show "\<exists>dx. fill_constant_product x y fee a = Ok dx \<and> dx \<le> dy"
  proof (cases "a = 0")
    case False
    then have "b \<noteq> 0" using ab by auto
    note D = fill_constant_product_OkD [OF b this]
    define dxa where "dxa = cp_dx (unat fee) (unat a)"
    have dx_le: "dxa \<le> cp_dx (unat fee) (unat b)"
      unfolding dxa_def using ab by (intro cp_dx_mono) (simp add: word_le_nat_alt)
    have "0 < unat x" using D(1) by (simp add: unat_gt_0)
    then have out_le: "cp_out (unat x) (unat y) dxa \<le> unat dy"
      using dx_le by (simp only: D(5) cp_out_mono)
    then have "unat (of_nat (cp_out (unat x) (unat y) dxa) :: u128) = cp_out (unat x) (unat y) dxa"
      using unat_u128 [of dy] by (intro unat_of_nat_fits) simp
    moreover have "fill_constant_product x y fee a = Ok (of_nat (cp_out (unat x) (unat y) dxa))"
      using False D(1-4) dx_le by (simp add: fill_constant_product_eq dxa_def [symmetric] Let_def)
    ultimately show ?thesis using out_le by (simp add: word_le_nat_alt)
  qed simp
qed

text \<open>
  Every branch of the constant-product fill: no input, no output; the two rejections;
  otherwise the textbook output on the fee-reduced input, and a panic exactly when the
  unchecked \<^verbatim>\<open>reserve_in + dx_eff\<close> leaves 128 bits.
\<close>

theorem fill_constant_product_spec:
  "fill_constant_product x y fee a =
    (if a = 0 then Ok 0
     else if x = 0 \<or> y = 0 then Err ZeroReserve
     else if MAX_FEE_BPS \<le> fee then Err (FeeTooHigh fee)
     else if unat x + cp_dx (unat fee) (unat a) < 2 ^ 128
     then Ok (of_nat (cp_out (unat x) (unat y) (cp_dx (unat fee) (unat a))))
     else Panic)"
proof (cases "a = 0 \<or> x = 0 \<or> y = 0 \<or> MAX_FEE_BPS \<le> fee")
  case True
  then show ?thesis by (auto simp: fill_constant_product_def)
next
  case False
  then show ?thesis by (simp add: fill_constant_product_eq Let_def not_le)
qed

text \<open>
  C34. A fill cannot drain or devalue the pool: the output is strictly below the output
  reserve, the input that counts is at most the input paid, and the product of the
  reserves after the swap is at least the product before it.
\<close>

theorem fill_constant_product_preserves_k:
  assumes "fill_constant_product x y fee a = Ok dy" and "a \<noteq> 0"
  shows "dy < y \<and> cp_dx (unat fee) (unat a) \<le> unat a
    \<and> unat x * unat y \<le> (unat x + cp_dx (unat fee) (unat a)) * (unat y - unat dy)"
proof -
  note D = fill_constant_product_OkD [OF assms]
  have "dy < y" using D(1,2) by (simp add: word_less_nat_alt D(5) cp_out_less unat_gt_0)
  then show ?thesis by (simp add: cp_dx_le D(5) cp_invariant)
qed

theorem fill_constant_product_preserves_k_witness:
  "fill_constant_product 1000000 1000000 25 100000 = Ok 90702
    \<and> (1000000 :: nat) * 1000000 \<le> (1000000 + 99750) * (1000000 - 90702)"
proof -
  have "fill_constant_product 1000000 1000000 25 100000 = Ok 90702"
    by (simp add: fill_constant_product_spec MAX_FEE_BPS_def cp_dx_def cp_out_def)
  from this fill_constant_product_preserves_k [OF this] show ?thesis
    by (simp add: cp_dx_def)
qed

section \<open>Orca: the single-tick fill\<close>

lemma unat_Q64 [simp]: "unat Q64_RESOLUTION = 2 ^ 64"
  by (simp add: Q64_RESOLUTION_def)

lemma Q64_nonzero [simp]: "Q64_RESOLUTION \<noteq> 0"
  by (simp add: Q64_RESOLUTION_def)

definition orca_reserve_out :: "u128 \<Rightarrow> nat" where
  "orca_reserve_out sp = (if unat sp < 2 ^ 64 then unat sp * unat sp div 2 ^ 64 else unat sp)"

lemma square_guard:
  assumes "0 < n" and "n < 2 ^ 128"
  shows "n \<le> max ((2 ^ 128 - 1) div n) 1 \<longleftrightarrow> n < (2 ^ 64 :: nat)"
proof -
  have "n \<le> (2 ^ 128 - 1) div n \<longleftrightarrow> n * n \<le> 2 ^ 128 - 1"
    using assms(1) by (rule less_eq_div_iff_mult_less_eq)
  also have "\<dots> \<longleftrightarrow> n < 2 ^ 64"
  proof
    assume "n * n \<le> 2 ^ 128 - 1"
    then have "n ^ 2 < (2 ^ 64) ^ 2" by (simp add: power2_eq_square)
    then show "n < 2 ^ 64" by (rule power_less_imp_less_base) simp
  next
    assume "n < 2 ^ 64"
    then have "n * n \<le> (2 ^ 64 - 1) * (2 ^ 64 - 1)" by (intro mult_le_mono) simp_all
    then show "n * n \<le> 2 ^ 128 - 1" by simp
  qed
  finally show ?thesis using assms(1) by (auto simp: max_def)
qed

text \<open>
  The Whirlpool fill is the constant-product fill against virtual reserves
  \<open>2^64\<close> and \<open>sqrt_price^2 / 2^64\<close> while the square fits; from \<open>sqrt_price = 2^64\<close> on
  (a price of one) the output reserve is \<open>sqrt_price\<close> itself, so the rate there is the
  square root of the price.
\<close>

theorem fill_orca_single_tick_spec:
  "fill_orca_single_tick sp a fee =
    (if MIN_SQRT_PRICE \<le> sp \<and> sp \<le> MAX_SQRT_PRICE
     then fill_constant_product Q64_RESOLUTION (of_nat (orca_reserve_out sp)) fee a
     else Err (Math Overflow))"
proof (cases "is_valid_sqrt_price sp")
  case False
  then show ?thesis by (auto simp: fill_orca_single_tick_def is_valid_sqrt_price_def)
next
  case True
  then have pos: "0 < unat sp" "sp \<noteq> 0"
    by (auto simp: is_valid_sqrt_price_def MIN_SQRT_PRICE_def word_le_nat_alt)
  define lim where "lim = (- 1 :: u128) div sp"
  have lim: "unat lim = (2 ^ 128 - 1) div unat sp"
    unfolding lim_def by (simp add: unat_div unat_minus_one_word_max)
  have unat_max: "unat (max lim 1) = max (unat lim) 1"
    by (simp add: max_def word_le_nat_alt)
  have guard: "sp \<le> max lim 1 \<longleftrightarrow> unat sp < 2 ^ 64"
    using square_guard [OF pos(1) unat_u128] by (simp only: word_le_nat_alt unat_max lim)
  have "bind_res (mul_p sp sp) (\<lambda>sq. Ok (sq div Q64_RESOLUTION))
      = (Ok (of_nat (unat sp * unat sp div 2 ^ 64)) :: (u128, sim_error) res)" if "unat sp < 2 ^ 64"
  proof -
    have sq: "unat (sp * sp) = unat sp * unat sp" by (rule unat_mult_halves [OF that that])
    then have "unat sp * unat sp < 2 ^ 128" using unat_u128 [of "sp * sp"] by simp
    then have "mul_p sp sp = (Ok (sp * sp) :: (u128, sim_error) res)" by (simp add: mul_p_def)
    moreover have "sp * sp div Q64_RESOLUTION = of_nat (unat sp * unat sp div 2 ^ 64)"
      by (metis sq unat_div unat_Q64 of_nat_unat_self)
    ultimately show ?thesis by simp
  qed
  then show ?thesis
    using True pos guard
    by (simp add: fill_orca_single_tick_def is_valid_sqrt_price_def div_p_def
        lim_def [symmetric] orca_reserve_out_def)
qed

lemma orca_reserve_out_less: "orca_reserve_out sp < 2 ^ 128"
proof (cases "unat sp < 2 ^ 64")
  case True
  then have "unat sp * unat sp < 2 ^ 128"
    using unat_mult_halves [of sp sp] unat_u128 [of "sp * sp"] by simp
  then have "unat sp * unat sp div 2 ^ 64 < 2 ^ 128" by (rule le_less_trans [OF div_le_dividend])
  with True show ?thesis by (simp only: orca_reserve_out_def if_True)
next
  case False
  then show ?thesis using unat_u128 [of sp] by (simp only: orca_reserve_out_def if_False)
qed

interpretation orca: swap_curve "\<lambda>a. fill_orca_single_tick sp a fee" "orca_reserve_out sp"
  for sp :: u128 and fee :: u16
proof
  fix y
  assume "fill_orca_single_tick sp 0 fee = Ok y"
  then show "y = 0" by (auto simp: fill_orca_single_tick_spec split: if_splits)
next
  fix a y
  assume "fill_orca_single_tick sp a fee = Ok y"
  then have "fill_constant_product Q64_RESOLUTION (of_nat (orca_reserve_out sp)) fee a = Ok y"
    by (simp only: fill_orca_single_tick_spec res.distinct split: if_splits)
  then have "unat y \<le> unat (of_nat (orca_reserve_out sp) :: u128)" by (rule cp.fill_bound)
  also have "\<dots> = orca_reserve_out sp"
    using orca_reserve_out_less [of sp] by (intro unat_of_nat_fits) simp
  finally show "unat y \<le> orca_reserve_out sp" .
next
  fix a b y
  assume "fill_orca_single_tick sp b fee = Ok y" and "a \<le> b"
  then show "\<exists>x. fill_orca_single_tick sp a fee = Ok x \<and> x \<le> y"
    by (auto simp: fill_orca_single_tick_spec split: if_splits dest: cp.fill_down)
qed

section \<open>Orca: the integer square root\<close>

lemma floor_root_exists: "\<exists>r. r * r \<le> v \<and> v < Suc r * Suc r" for v :: nat
proof (induction v)
  case (Suc v)
  then obtain r where r: "r * r \<le> v" "v < Suc r * Suc r" by blast
  show ?case
  proof (cases "Suc v < Suc r * Suc r")
    case True
    with r show ?thesis by (intro exI [of _ r]) simp
  next
    case False
    with r have "Suc v = Suc r * Suc r" by simp
    then show ?thesis by (intro exI [of _ "Suc r"]) simp
  qed
qed (intro exI [of _ 0], simp)

text \<open>A Newton step never falls below the root, and stops only at it.\<close>

lemma newton_ge:
  fixes p r v :: nat
  assumes "r * r \<le> v" and "0 < p"
  shows "r \<le> (p + v div p) div 2"
proof -
  have "2 * r \<le> p + v div p"
  proof (cases "2 * r \<le> p")
    case False
    then obtain q where q: "2 * r = p + q" by (metis le_iff_add nat_le_linear)
    have "int q = 2 * int r - int p" using q by linarith
    then have "int q * int p = int r * int r - (int p - int r) * (int p - int r)"
      by (simp only:) (simp add: algebra_simps)
    then have "int q * int p \<le> int r * int r" by simp
    then have "q * p \<le> r * r" by (simp only: of_nat_mult [symmetric] of_nat_le_iff)
    then have "q * p \<le> v" using assms(1) by linarith
    then have "q \<le> v div p" using assms(2) by (simp add: less_eq_div_iff_mult_less_eq)
    with q show ?thesis by simp
  qed simp
  then show ?thesis by simp
qed

lemma newton_stop:
  fixes p r v :: nat
  assumes "v < Suc r * Suc r" and "0 < p" and "p \<le> (p + v div p) div 2"
  shows "p \<le> r"
proof -
  have "p \<le> v div p" using assms(3) by simp
  then have "p * p \<le> v" using assms(2) by (simp add: less_eq_div_iff_mult_less_eq)
  with assms(1) have "p * p < Suc r * Suc r" by simp
  then show ?thesis by (metis less_Suc_eq_le mult_le_mono not_less)
qed

lemma newton_no_overflow:
  fixes p r v :: nat
  assumes "v < Suc r * Suc r" and "0 < r" and "r \<le> p" and "p \<le> 2 ^ 127" and "v < 2 ^ 128" and "r * r \<le> v"
  shows "p + v div p < 2 ^ 128"
proof -
  have r64: "r < 2 ^ 64"
  proof (rule ccontr)
    assume "\<not> r < 2 ^ 64"
    then have "2 ^ 64 * 2 ^ 64 \<le> r * r" by (intro mult_le_mono) simp_all
    with assms(5,6) show False by simp
  qed
  have "v \<le> r * (r + 2)" using assms(1) by simp
  then have "v div p \<le> r * (r + 2) div r"
    using assms(2,3) by (intro le_trans [OF div_le_mono2 div_le_mono]) simp_all
  also have "\<dots> = r + 2" using assms(2) by simp
  finally show ?thesis using assms(4) r64 by simp
qed

lemma sqrt_loop_correct:
  fixes r :: nat
  assumes "r * r \<le> unat v" and "unat v < Suc r * Suc r" and "0 < r"
    and "r \<le> unat prev" and "unat prev \<le> 2 ^ 127"
    and "unat nxt = (unat prev + unat v div unat prev) div 2"
  shows "\<exists>s. sqrt_loop v prev nxt = Ok s \<and> unat s = r"
  using assms
proof (induction v prev nxt rule: sqrt_loop.induct)
  case (1 v prev nxt)
  have prev0: "0 < unat prev" using "1.prems"(3,4) by simp
  have nxt_ge: "r \<le> unat nxt" using newton_ge [OF "1.prems"(1) prev0] "1.prems"(6) by simp
  show ?case
  proof (cases "nxt < prev")
    case True
    then have less: "unat nxt < unat prev" by (simp add: word_less_nat_alt)
    have "unat nxt + unat v div unat nxt < 2 ^ 128"
      using "1.prems" less nxt_ge unat_u128 [of v] by (intro newton_no_overflow [of _ r]) simp_all
    then have sum: "unat (nxt + v div nxt) = unat nxt + unat v div unat nxt"
      by (simp add: unat_add_small unat_div)
    have nxt0: "nxt \<noteq> 0" using nxt_ge "1.prems"(3) by auto
    have q: "div_p v nxt = (Ok (v div nxt) :: (u128, sim_error) res)"
      using nxt0 by (simp add: div_p_def)
    have a: "add_p nxt (v div nxt) = (Ok (nxt + v div nxt) :: (u128, sim_error) res)"
      using \<open>unat nxt + unat v div unat nxt < 2 ^ 128\<close> by (simp add: add_p_def unat_div)
    have "\<exists>s. sqrt_loop v nxt ((nxt + v div nxt) div 2) = Ok s \<and> unat s = r"
      using "1.IH" [OF True q a] "1.prems" nxt_ge less by (simp add: unat_div sum)
    with True q a show ?thesis by (simp add: sqrt_loop.simps [of v prev nxt])
  next
    case False
    then have "unat prev \<le> r"
      using newton_stop [OF "1.prems"(2) prev0] "1.prems"(6) by (simp add: word_less_nat_alt)
    with False "1.prems"(4) show ?thesis by (simp add: sqrt_loop.simps [of v prev nxt])
  qed
qed

text \<open>
  \<^verbatim>\<open>sqrt_u128\<close> terminates on every input, none of its unchecked operations
  overflows or divides by zero, and its result is the floor of the square root.
\<close>

theorem sqrt_u128_floor:
  "\<exists>s. sqrt_u128 v = Ok s \<and> unat s * unat s \<le> unat v \<and> unat v < (unat s + 1) * (unat s + 1)"
proof -
  obtain r where r: "r * r \<le> unat v" "unat v < Suc r * Suc r" using floor_root_exists by blast
  show ?thesis
  proof (cases "v < 2")
    case True
    then have "unat v < 2" by (simp add: word_less_nat_alt)
    then have "unat v = 0 \<or> unat v = 1" by linarith
    with True show ?thesis by (auto simp: sqrt_u128_def)
  next
    case False
    then have v2: "2 \<le> unat v" by (simp add: word_less_nat_alt)
    with r(2) have r0: "0 < r" by (cases r) auto
    define prev where "prev = v div 2"
    have prev: "unat prev = unat v div 2" by (simp add: prev_def unat_div)
    have r_prev: "r \<le> unat prev"
    proof (cases "r = 1")
      case False
      with r0 have "2 \<le> r" by simp
      then have "2 * r \<le> r * r" by (rule mult_le_mono1)
      with r(1) have "2 * r \<le> unat v" by linarith
      then show ?thesis by (simp add: prev)
    qed (use v2 prev in simp)
    have prev127: "unat prev \<le> 2 ^ 127" using unat_u128 [of v] by (simp add: prev)
    have prev0: "prev \<noteq> 0" using r_prev r0 by auto
    have no: "unat prev + unat v div unat prev < 2 ^ 128"
      using r r0 r_prev prev127 unat_u128 [of v] by (intro newton_no_overflow [of _ r]) simp_all
    have a: "add_p prev (v div prev) = (Ok (prev + v div prev) :: (u128, sim_error) res)"
      using no by (simp add: add_p_def unat_div)
    have "unat ((prev + v div prev) div 2) = (unat prev + unat v div unat prev) div 2"
      using no by (simp add: unat_div unat_add_small)
    from sqrt_loop_correct [OF r r0 r_prev prev127 this]
    obtain s where "sqrt_loop v prev ((prev + v div prev) div 2) = Ok s" "unat s = r" by blast
    with False prev0 a r show ?thesis
      by (simp add: sqrt_u128_def prev_def [symmetric] Let_def div_p_def)
  qed
qed

section \<open>Orca: ticks\<close>

definition tick_linear :: "int \<Rightarrow> int" where
  "tick_linear t = 2 ^ 64 + (2 ^ 64 * t) sdiv 10000"

definition tick_val :: "int \<Rightarrow> int" where
  "tick_val t = min (max (tick_linear t) 4295048016) 79226673515401279992446579029"

lemma tick_linear_mono: "t \<le> u \<Longrightarrow> tick_linear t \<le> tick_linear u"
  by (simp add: tick_linear_def sdiv_mono)

lemma tick_val_mono: "t \<le> u \<Longrightarrow> tick_val t \<le> tick_val u"
  using tick_linear_mono [of t u] by (simp add: tick_val_def)

lemma tick_index_to_sqrt_price_eq:
  assumes "in_range 32 t"
  shows "\<exists>sp. tick_index_to_sqrt_price t = Ok sp \<and> int (unat sp) = tick_val t"
proof -
  have t: "- (2 ^ 31) \<le> t" "t \<le> 2 ^ 31 - 1" using assms by (auto simp: in_range_def smin_def smax_def)
  have bounds_i: "as_i128 Q64_RESOLUTION = 2 ^ 64" "as_i128 MIN_SQRT_PRICE = 4295048016"
    "as_i128 MAX_SQRT_PRICE = 79226673515401279992446579029"
    by (subst as_i128_small; simp add: MIN_SQRT_PRICE_def MAX_SQRT_PRICE_def)+
  have m: "- (2 ^ 95) \<le> 2 ^ 64 * t" "2 ^ 64 * t \<le> 2 ^ 95" using t by simp_all
  then have r1: "in_range 128 (2 ^ 64 * t)" by (simp add: in_range_def smin_def smax_def)
  have "(- (2 ^ 95)) sdiv 10000 \<le> (2 ^ 64 * t) sdiv 10000"
    and "(2 ^ 64 * t) sdiv 10000 \<le> 2 ^ 95 sdiv 10000" using m by (intro sdiv_mono; simp)+
  then have r2: "in_range 128 (2 ^ 64 + (2 ^ 64 * t) sdiv 10000)"
    by (auto simp: in_range_def smin_def smax_def sdiv_nonneg sdiv_nonpos)
  have run: "tick_index_to_sqrt_price t = Ok (as_u128 (tick_val t))"
    unfolding tick_index_to_sqrt_price_def Let_def bounds_i
    by (simp only: range_p_def r1 r2 if_True bind_res.simps tick_val_def tick_linear_def)
  have "0 \<le> tick_val t" "tick_val t < 2 ^ 128" by (simp_all add: tick_val_def min_def max_def)
  then have "int (unat (as_u128 (tick_val t))) = tick_val t"
    by (simp add: as_u128_def unat_eq_nat_uint uint_word_of_int)
  with run show ?thesis by blast
qed

lemma tick_bisect_least:
  assumes "smin 32 \<le> lo" and "hi \<le> smax 32" and "lo \<le> hi"
  shows "\<exists>t. tick_bisect sp lo hi = Ok t \<and> lo \<le> t \<and> t \<le> hi
    \<and> (\<forall>u. lo \<le> u \<and> u < t \<longrightarrow> tick_val u < int (unat sp))
    \<and> (t < hi \<longrightarrow> int (unat sp) \<le> tick_val t)"
  using assms
proof (induction sp lo hi rule: tick_bisect.induct)
  case (1 sp lo hi)
  show ?case
  proof (cases "lo < hi")
    case False
    then have "tick_bisect sp lo hi = Ok lo" by (subst tick_bisect.simps) simp
    with False "1.prems"(3) show ?thesis by (intro exI [of _ lo]) simp
  next
    case True
    define mid where "mid = lo + (hi - lo) sdiv 2"
    have mid: "lo \<le> mid" "mid < hi" using True by (simp_all add: mid_def sdiv_nonneg)
    then have "in_range 32 mid" using "1.prems" by (simp add: in_range_def)
    then obtain msp where msp: "tick_index_to_sqrt_price mid = Ok msp" "int (unat msp) = tick_val mid"
      using tick_index_to_sqrt_price_eq by blast
    show ?thesis
    proof (cases "msp < sp")
      case less: True
      then have "tick_val mid < int (unat sp)"
        by (simp only: msp(2) [symmetric] word_less_nat_alt of_nat_less_iff)
      then have below: "tick_val u < int (unat sp)" if "u \<le> mid" for u
        using tick_val_mono [OF that] by linarith
      from "1.IH"(1) [OF True mid_def msp(1) less] "1.prems" mid obtain t where
        t: "tick_bisect sp (mid + 1) hi = Ok t" "mid + 1 \<le> t" "t \<le> hi"
        "\<forall>u. mid + 1 \<le> u \<and> u < t \<longrightarrow> tick_val u < int (unat sp)"
        "t < hi \<longrightarrow> int (unat sp) \<le> tick_val t" by auto
      have "tick_val u < int (unat sp)" if "u < t" for u
        using t(4) below [of u] that by (cases "u \<le> mid") auto
      with t mid True less msp(1) show ?thesis
        by (intro exI [of _ t]) (simp add: tick_bisect.simps [of sp lo hi] mid_def [symmetric])
    next
      case ge: False
      then have mid_ge: "int (unat sp) \<le> tick_val mid"
        by (simp only: msp(2) [symmetric] word_less_nat_alt of_nat_le_iff not_less)
      from "1.IH"(2) [OF True mid_def msp(1) ge] "1.prems" mid obtain t where
        t: "tick_bisect sp lo mid = Ok t" "lo \<le> t" "t \<le> mid"
        "\<forall>u. lo \<le> u \<and> u < t \<longrightarrow> tick_val u < int (unat sp)"
        "t < mid \<longrightarrow> int (unat sp) \<le> tick_val t" by auto
      then have "int (unat sp) \<le> tick_val t" using mid_ge by (cases "t = mid") auto
      with t mid True ge msp(1) show ?thesis
        by (intro exI [of _ t]) (simp add: tick_bisect.simps [of sp lo hi] mid_def [symmetric])
    qed
  qed
qed

lemma tick_val_strict:
  assumes "- 9999 \<le> u" and "u \<le> MAX_TICK" and "t < u"
  shows "tick_val t < tick_val u"
proof -
  have u: "u \<le> 443635" using assms(2) by (simp add: MAX_TICK_def)
  have lin_u: "tick_linear u \<le> 79226673515401279992446579029"
    using tick_linear_mono [OF u] by (simp add: tick_linear_def sdiv_nonneg)
  have low: "4295048016 < tick_linear u"
    using tick_linear_mono [OF assms(1)] by (simp add: tick_linear_def sdiv_nonpos)
  have "tick_linear (u - 1) < tick_linear u"
  proof (cases "0 < u")
    case True
    then show ?thesis by (simp add: tick_linear_def sdiv_nonneg algebra_simps)
  next
    case False
    then show ?thesis by (simp add: tick_linear_def sdiv_nonpos algebra_simps)
  qed
  then have "tick_linear t < tick_linear u"
    using tick_linear_mono [of t "u - 1"] assms(3) by simp
  then show ?thesis using lin_u low by (auto simp: tick_val_def min_def max_def)
qed

text \<open>
  The two tick conversions are inverse to each other on every tick from
  \<open>-9999\<close> up to the largest tick: the bisection finds exactly the tick whose linearised
  price it was given. (From \<open>-10000\<close> down every tick is clamped to the same price.)
\<close>

theorem tick_round_trip:
  assumes "- 9999 \<le> t" and "t \<le> MAX_TICK"
  shows "bind_res (tick_index_to_sqrt_price t) sqrt_price_to_tick_index = Ok t"
proof -
  have tick: "MIN_TICK \<le> t" "in_range 32 t"
    using assms by (auto simp: MIN_TICK_def MAX_TICK_def in_range_def smin_def smax_def)
  then obtain sp where sp: "tick_index_to_sqrt_price t = Ok sp" "int (unat sp) = tick_val t"
    using tick_index_to_sqrt_price_eq by blast
  have "4295048016 \<le> tick_val t" "tick_val t \<le> 79226673515401279992446579029"
    by (simp_all add: tick_val_def)
  then have "4295048016 \<le> unat sp" "unat sp \<le> 79226673515401279992446579029"
    using sp(2) by linarith+
  then have valid: "is_valid_sqrt_price sp"
    by (simp add: is_valid_sqrt_price_def word_le_nat_alt MIN_SQRT_PRICE_def MAX_SQRT_PRICE_def)
  obtain u where u: "tick_bisect sp MIN_TICK MAX_TICK = Ok u" "u \<le> MAX_TICK"
    "\<forall>w. MIN_TICK \<le> w \<and> w < u \<longrightarrow> tick_val w < int (unat sp)"
    "u < MAX_TICK \<longrightarrow> int (unat sp) \<le> tick_val u"
    using tick_bisect_least [of MIN_TICK MAX_TICK sp]
    by (auto simp: MIN_TICK_def MAX_TICK_def smin_def smax_def)
  have "\<not> t < u" using u(3) tick(1) sp(2) by auto
  moreover have "\<not> u < t" using u(4) assms sp(2) tick_val_strict [OF assms, of u] by auto
  ultimately have "u = t" by simp
  with sp(1) valid u(1) show ?thesis by (simp add: sqrt_price_to_tick_index_def)
qed

theorem tick_round_trip_witness:
  "bind_res (tick_index_to_sqrt_price (- 100)) sqrt_price_to_tick_index = Ok (- 100)"
  by (rule tick_round_trip) (simp_all add: MAX_TICK_def)

section \<open>Meteora: the single-bin fill\<close>

definition bin_reserves :: "meteora_bin \<Rightarrow> swap_direction \<Rightarrow> u64 \<times> u64" where
  "bin_reserves bn dir = (case dir of XForY \<Rightarrow> (amount_x bn, amount_y bn) | YForX \<Rightarrow> (amount_y bn, amount_x bn))"

lemma fill_meteora_eq:
  "fill_meteora_single_bin bn dir a fee =
    (case bin_reserves bn dir of (ri, ro) \<Rightarrow>
      bind_res (fill_constant_product (ucast ri) (ucast ro) fee (ucast a)) (\<lambda>dy. Ok (ucast dy)))"
proof -
  have no_overflow: "\<not> 0xFFFFFFFFFFFFFFFF < dy"
    if "fill_constant_product x (ucast (ro :: u64)) fee a' = Ok dy" for x ro a' dy
  proof -
    have "unat dy \<le> unat (ucast ro :: u128)" using that by (rule cp.fill_bound)
    also have "\<dots> \<le> 0xFFFFFFFFFFFFFFFF" using unat_bound [of ro] by (simp add: unat_ucast_up)
    finally show ?thesis by (simp add: word_less_nat_alt)
  qed
  show ?thesis
    by (cases dir; cases "fill_constant_product (ucast (fst (bin_reserves bn dir)))
        (ucast (snd (bin_reserves bn dir))) fee (ucast a)")
      (auto simp: fill_meteora_single_bin_def bin_reserves_def dest: no_overflow)
qed

lemma unat_ucast_down:
  fixes a :: u128
  assumes "unat a < 2 ^ 64"
  shows "unat (ucast a :: u64) = unat a"
  using assms by (simp add: unsigned_ucast_eq take_bit_nat_eq_self)

interpretation meteora: swap_curve "\<lambda>a. fill_meteora_single_bin bn dir a fee" "unat (snd (bin_reserves bn dir))"
  for bn :: meteora_bin and dir :: swap_direction and fee :: u16
proof
  fix y
  assume "fill_meteora_single_bin bn dir 0 fee = Ok y"
  then show "y = 0" by (auto simp: fill_meteora_eq bind_res_Ok_iff split: prod.splits)
next
  fix a y
  assume "fill_meteora_single_bin bn dir a fee = Ok y"
  then obtain dy where dy: "y = ucast dy"
    "fill_constant_product (ucast (fst (bin_reserves bn dir))) (ucast (snd (bin_reserves bn dir))) fee (ucast a) = Ok dy"
    by (auto simp: fill_meteora_eq bind_res_Ok_iff split: prod.splits)
  have le: "unat dy \<le> unat (snd (bin_reserves bn dir))"
    using cp.fill_bound [OF dy(2)] by (simp add: unat_ucast_up)
  then have "unat dy < 2 ^ 64" using unat_bound [of "snd (bin_reserves bn dir)"] by simp
  with le show "unat y \<le> unat (snd (bin_reserves bn dir))" by (simp only: dy(1) unat_ucast_down)
next
  fix a b y
  assume b: "fill_meteora_single_bin bn dir b fee = Ok y" and ab: "a \<le> b"
  let ?f = "fill_constant_product (ucast (fst (bin_reserves bn dir))) (ucast (snd (bin_reserves bn dir))) fee"
  from b obtain dy where dy: "y = ucast dy" "?f (ucast b) = Ok dy"
    by (auto simp: fill_meteora_eq bind_res_Ok_iff split: prod.splits)
  have "(ucast a :: u128) \<le> ucast b" using ab by (simp add: word_le_nat_alt unat_ucast_up)
  from cp.fill_down [OF dy(2) this] obtain dx where dx: "?f (ucast a) = Ok dx" "dx \<le> dy" by blast
  have "unat dy < 2 ^ 64"
    using cp.fill_bound [OF dy(2)] unat_bound [of "snd (bin_reserves bn dir)"]
    by (simp add: unat_ucast_up)
  then have "(ucast dx :: u64) \<le> y"
    using dx(2) by (simp add: dy(1) word_le_nat_alt unat_ucast_down)
  with dx(1) show "\<exists>x. fill_meteora_single_bin bn dir a fee = Ok x \<and> x \<le> y"
    by (auto simp: fill_meteora_eq split: prod.splits)
qed

end
