(* ===== verification/Cost.thy ===== *)
theory Cost
  imports Fill
begin

text \<open>
  \<^verbatim>\<open>crates/dl-sim/src/cost.rs\<close>: the fixed cost of one transaction in lamports.
\<close>

definition BASE_SIG_FEE_LAMPORTS :: u64 where
  "BASE_SIG_FEE_LAMPORTS = 5000"

definition JITO_TIP_FEE_BPS :: u64 where
  "JITO_TIP_FEE_BPS = 5"

definition JITO_TIP_FEE_DENOM_BPS :: u64 where
  "JITO_TIP_FEE_DENOM_BPS = 100"

definition PRIORITY_FEE_SCALE :: u64 where
  "PRIORITY_FEE_SCALE = 1000000"

record cost_model =
  n_signatures :: u16
  cu_limit :: u32
  cu_price_micro_lamports :: u64
  jito_tip_lamports :: u64

record cost_breakdown =
  cb_base_sig_fee :: u64
  cb_priority_fee :: u64
  cb_jito_tip :: u64
  cb_jito_tip_fee :: u64
  total_lamports :: u64

definition default_min :: cost_model where
  "default_min = \<lparr>n_signatures = 1, cu_limit = 200000, cu_price_micro_lamports = 1000,
    jito_tip_lamports = 10000\<rparr>"

definition default_busy :: cost_model where
  "default_busy = \<lparr>n_signatures = 6, cu_limit = 600000, cu_price_micro_lamports = 50000,
    jito_tip_lamports = 1000000\<rparr>"

definition total_cost :: "cost_model \<Rightarrow> (cost_breakdown, sim_error) res" where
  "total_cost m =
    bind_res (ok_or (checked_mul_w BASE_SIG_FEE_LAMPORTS (ucast (n_signatures m))) (Math Overflow)) (\<lambda>base.
    bind_res (ok_or (checked_mul_w (ucast (cu_limit m)) (cu_price_micro_lamports m)) (Math Overflow)) (\<lambda>prod.
    let priority = prod div PRIORITY_FEE_SCALE in
    bind_res (ok_or (checked_mul_w (jito_tip_lamports m) JITO_TIP_FEE_BPS) (Math Overflow)) (\<lambda>tip5.
    let tip_fee = tip5 div JITO_TIP_FEE_DENOM_BPS in
    bind_res (ok_or
      (Option.bind (Option.bind (checked_add_w base priority)
        (\<lambda>x. checked_add_w x (jito_tip_lamports m))) (\<lambda>x. checked_add_w x tip_fee)) (Math Overflow)) (\<lambda>total.
    Ok \<lparr>cb_base_sig_fee = base, cb_priority_fee = priority, cb_jito_tip = jito_tip_lamports m,
        cb_jito_tip_fee = tip_fee, total_lamports = total\<rparr>))))"

section \<open>The cost on naturals\<close>

definition cost_nat :: "cost_model \<Rightarrow> nat" where
  "cost_nat m = 5000 * unat (n_signatures m)
    + unat (cu_limit m) * unat (cu_price_micro_lamports m) div 1000000
    + unat (jito_tip_lamports m) + unat (jito_tip_lamports m) * 5 div 100"

definition cost_fits :: "cost_model \<Rightarrow> bool" where
  "cost_fits m \<longleftrightarrow> unat (cu_limit m) * unat (cu_price_micro_lamports m) < 2 ^ 64
    \<and> unat (jito_tip_lamports m) * 5 < 2 ^ 64 \<and> cost_nat m < 2 ^ 64"

lemma checked_add_w_of_nat:
  "checked_add_w a b = (if unat a + unat b < 2 ^ LENGTH('w) then Some (of_nat (unat a + unat b)) else None)"
  for a b :: "'w::len word"
  by (simp add: checked_add_w_def)

lemma unat_base_fee: "unat (BASE_SIG_FEE_LAMPORTS * ucast (n :: u16)) = 5000 * unat n"
proof -
  have "unat n < 2 ^ 16" using unat_bound [of n] by simp
  then show ?thesis
    by (subst unat_mul_no_wrap) (simp_all add: BASE_SIG_FEE_LAMPORTS_def unat_ucast_up)
qed

lemma base_fee_fits: "checked_mul_w BASE_SIG_FEE_LAMPORTS (ucast (n :: u16))
    = Some (BASE_SIG_FEE_LAMPORTS * ucast n)"
proof -
  have "unat n < 2 ^ 16" using unat_bound [of n] by simp
  then show ?thesis by (simp add: checked_mul_w_def BASE_SIG_FEE_LAMPORTS_def unat_ucast_up)
qed

lemma total_cost_cases:
  "if cost_fits m
   then \<exists>b. total_cost m = Ok b \<and> unat (total_lamports b) = cost_nat m
     \<and> unat (total_lamports b) = unat (cb_base_sig_fee b) + unat (cb_priority_fee b)
         + unat (cb_jito_tip b) + unat (cb_jito_tip_fee b)
     \<and> cb_jito_tip b = jito_tip_lamports m
   else total_cost m = Err (Math Overflow)"
proof -
  define base where "base = BASE_SIG_FEE_LAMPORTS * ucast (n_signatures m)"
  define prod where "prod = ucast (cu_limit m) * cu_price_micro_lamports m"
  define tip5 where "tip5 = jito_tip_lamports m * JITO_TIP_FEE_BPS"
  have base: "unat base = 5000 * unat (n_signatures m)" by (simp only: base_def unat_base_fee)
  have cu: "unat (ucast (cu_limit m) :: u64) = unat (cu_limit m)" by (simp add: unat_ucast_up)
  show ?thesis
  proof (cases "unat (cu_limit m) * unat (cu_price_micro_lamports m) < 2 ^ 64
      \<and> unat (jito_tip_lamports m) * 5 < 2 ^ 64")
    case False
    then show ?thesis
      by (auto simp: total_cost_def base_fee_fits checked_mul_w_def cu JITO_TIP_FEE_BPS_def
          cost_fits_def ok_or_def Let_def)
  next
    case True
    then have p: "checked_mul_w (ucast (cu_limit m)) (cu_price_micro_lamports m) = Some prod"
      and t: "checked_mul_w (jito_tip_lamports m) JITO_TIP_FEE_BPS = Some tip5"
      by (simp_all add: checked_mul_w_def cu JITO_TIP_FEE_BPS_def prod_def tip5_def)
    have pn: "unat prod = unat (cu_limit m) * unat (cu_price_micro_lamports m)"
      using True unfolding prod_def by (subst unat_mul_no_wrap) (simp_all add: cu)
    have tn: "unat tip5 = unat (jito_tip_lamports m) * 5"
      using True unfolding tip5_def JITO_TIP_FEE_BPS_def by (subst unat_mul_no_wrap) simp_all
    have prio: "unat (prod div PRIORITY_FEE_SCALE) = unat prod div 1000000"
      by (simp add: unat_div PRIORITY_FEE_SCALE_def)
    have fee: "unat (tip5 div JITO_TIP_FEE_DENOM_BPS) = unat tip5 div 100"
      by (simp add: unat_div JITO_TIP_FEE_DENOM_BPS_def)
    define sum where "sum = Option.bind (Option.bind (checked_add_w base (prod div PRIORITY_FEE_SCALE))
        (\<lambda>x. checked_add_w x (jito_tip_lamports m))) (\<lambda>x. checked_add_w x (tip5 div JITO_TIP_FEE_DENOM_BPS))"
    have total: "cost_nat m = unat base + unat (prod div PRIORITY_FEE_SCALE)
        + unat (jito_tip_lamports m) + unat (tip5 div JITO_TIP_FEE_DENOM_BPS)"
      by (simp only: cost_nat_def base prio fee pn tn)
    have run: "total_cost m = bind_res (ok_or sum (Math Overflow)) (\<lambda>total.
        Ok \<lparr>cb_base_sig_fee = base, cb_priority_fee = prod div PRIORITY_FEE_SCALE,
          cb_jito_tip = jito_tip_lamports m, cb_jito_tip_fee = tip5 div JITO_TIP_FEE_DENOM_BPS,
          total_lamports = total\<rparr>)"
      by (simp add: total_cost_def base_fee_fits p t base_def [symmetric] sum_def Let_def ok_or_def)
    show ?thesis
    proof (cases sum)
      case None
      then have "2 ^ 64 \<le> cost_nat m"
        unfolding sum_def total
        by (auto simp: bind_eq_None_conv checked_iffs checked_add_w_def unat_add_no_wrap split: if_splits)
      with None run show ?thesis by (simp add: cost_fits_def ok_or_def)
    next
      case (Some s)
      then have s: "unat s = cost_nat m"
        unfolding sum_def total by (auto simp: bind_eq_Some_conv checked_iffs)
      then have "cost_nat m < 2 ^ 64" using unat_bound [of s] by simp
      with True s Some run show ?thesis by (simp add: cost_fits_def ok_or_def total)
    qed
  qed
qed

lemma total_cost_not_Panic: "total_cost m \<noteq> Panic"
  by (auto simp: total_cost_def res_iffs Let_def)

text \<open>
  The cost of a transaction is exactly the sum of its four lamport components
  whenever the two intermediate products and the sum fit 64 bits, and the error
  \<open>Overflow\<close> otherwise: it never panics and never wraps. Of the two shipped models the
  minimal one costs 15,700 lamports and the busy one 1,110,000 lamports.
\<close>

theorem total_cost_exact:
  "(if cost_fits m
    then \<exists>b. total_cost m = Ok b \<and> unat (total_lamports b) = cost_nat m
      \<and> unat (total_lamports b) = unat (cb_base_sig_fee b) + unat (cb_priority_fee b)
          + unat (cb_jito_tip b) + unat (cb_jito_tip_fee b)
      \<and> cb_jito_tip b = jito_tip_lamports m
    else total_cost m = Err (Math Overflow))
   \<and> (\<exists>b b'. total_cost default_min = Ok b \<and> unat (total_lamports b) = 15700
      \<and> total_cost default_busy = Ok b' \<and> unat (total_lamports b') = 1110000)"
proof -
  have "cost_fits default_min" "cost_nat default_min = 15700"
    "cost_fits default_busy" "cost_nat default_busy = 1110000"
    by (simp_all add: cost_fits_def cost_nat_def default_min_def default_busy_def)
  then have "\<exists>b b'. total_cost default_min = Ok b \<and> unat (total_lamports b) = 15700
      \<and> total_cost default_busy = Ok b' \<and> unat (total_lamports b') = 1110000"
    using total_cost_cases [of default_min] total_cost_cases [of default_busy] by auto
  with total_cost_cases show ?thesis by blast
qed

end
