(* ===== verification/Simulate.thy ===== *)
theory Simulate
  imports Fill
begin

text \<open>
  \<^verbatim>\<open>crates/dl-sim/src/simulate.rs\<close>: the forward fill of a cycle through the pool
  registry, leg by leg, with the fill of each pool's AMM kind.
\<close>

definition MAX_CYCLE_LEGS :: usize where
  "MAX_CYCLE_LEGS = 16"

definition FEE_DENOM_BPS :: u128 where
  "FEE_DENOM_BPS = 10000"

definition U64_MAX_128 :: u128 where
  "U64_MAX_128 = 0xFFFFFFFFFFFFFFFF"

record leg_fill =
  lf_pool :: pubkey
  lf_direction :: direction
  lf_amount_in :: u128
  lf_amount_out :: u128
  lf_reserves_after :: "u64 \<times> u64"

record cycle_fill =
  per_leg :: "leg_fill list"
  final_output :: u128

text \<open>The match on \<^verbatim>\<open>pool.extras\<close>: the output and the reserves that are logged.\<close>

definition dispatch_fill ::
    "pool \<Rightarrow> direction \<Rightarrow> u128 \<Rightarrow> (u128 \<times> u64 \<times> u64, sim_error) res" where
  "dispatch_fill p dir amount_in =
    (case extras p of
       Raydium \<Rightarrow>
         (case (case dir of BaseToQuote \<Rightarrow> (base_reserve p, quote_reserve p)
                          | QuoteToBase \<Rightarrow> (quote_reserve p, base_reserve p)) of (ri, ro) \<Rightarrow>
            bind_res (fill_constant_product (ucast ri) (ucast ro) (fee_bps p) amount_in)
              (\<lambda>amount_out. Ok (amount_out, ri, ro)))
     | Whirlpool sp \<Rightarrow>
         bind_res (fill_orca_single_tick sp amount_in (fee_bps p)) (\<lambda>amount_out.
           (case (case dir of BaseToQuote \<Rightarrow> (base_reserve p, quote_reserve p)
                            | QuoteToBase \<Rightarrow> (quote_reserve p, base_reserve p)) of (ri, ro) \<Rightarrow>
              Ok (amount_out, ri, ro)))
     | Dlmm bstep ax ay price \<Rightarrow>
         (let d = (case dir of BaseToQuote \<Rightarrow> XForY | QuoteToBase \<Rightarrow> YForX);
              bn = \<lparr>amount_x = ax, amount_y = ay, bin_price = price\<rparr>
          in bind_res (fill_meteora_single_bin bn d (ucast amount_in) (fee_bps p)) (\<lambda>out64.
            (case (case dir of BaseToQuote \<Rightarrow> (ax, ay) | QuoteToBase \<Rightarrow> (ay, ax)) of (ri, ro) \<Rightarrow>
               Ok (ucast out64, ri, ro)))))"

definition simulate_one_leg :: "leg \<Rightarrow> pool_registry \<Rightarrow> u128 \<Rightarrow> (leg_fill, sim_error) res" where
  "simulate_one_leg l reg amount_in =
    bind_res (ok_or (registry_get reg (key_bytes (leg_pool l))) (PoolNotFound (leg_pool l))) (\<lambda>p.
    bind_res (sub_p FEE_DENOM_BPS (ucast (fee_bps p))) (\<lambda>fee_num.
    bind_res (map_err Math (mul_div_floor amount_in fee_num FEE_DENOM_BPS)) (\<lambda>dx_eff.
    bind_res (dispatch_fill p (leg_direction l) amount_in) (\<lambda>(amount_out, ri, ro).
      let new_in = sat_add_w ri (ucast (min dx_eff U64_MAX_128));
          new_out = sat_sub_w ro (ucast (min amount_out U64_MAX_128))
      in Ok \<lparr>lf_pool = leg_pool l, lf_direction = leg_direction l, lf_amount_in = amount_in,
             lf_amount_out = amount_out, lf_reserves_after = (new_in, new_out)\<rparr>))))"

text \<open>The loop over the legs; \<open>acc\<close> is the vector \<^verbatim>\<open>per_leg\<close> built so far.\<close>

fun simulate_legs ::
    "leg list \<Rightarrow> pool_registry \<Rightarrow> u128 \<Rightarrow> leg_fill list \<Rightarrow> (cycle_fill, sim_error) res" where
  "simulate_legs [] reg amount_in acc = Ok \<lparr>per_leg = acc, final_output = amount_in\<rparr>"
| "simulate_legs (l # ls) reg amount_in acc =
    bind_res (simulate_one_leg l reg amount_in)
      (\<lambda>f. simulate_legs ls reg (lf_amount_out f) (acc @ [f]))"

definition simulate_cycle :: "cycle \<Rightarrow> pool_registry \<Rightarrow> u128 \<Rightarrow> (cycle_fill, sim_error) res" where
  "simulate_cycle c reg input =
    (if MAX_CYCLE_LEGS < length (legs c) then Err (CycleTooLong (length (legs c)))
     else simulate_legs (legs c) reg input [])"

section \<open>One leg\<close>

definition leg_output :: "pool_registry \<Rightarrow> leg \<Rightarrow> u128 \<Rightarrow> (u128, sim_error) res" where
  "leg_output reg l a = bind_res (simulate_one_leg l reg a) (\<lambda>f. Ok (lf_amount_out f))"

lemma simulate_one_leg_frame:
  assumes "simulate_one_leg l reg a = Ok f"
  shows "lf_pool f = leg_pool l" "lf_direction f = leg_direction l" "lf_amount_in f = a"
  using assms by (auto simp: simulate_one_leg_def bind_res_Ok_iff Let_def split: prod.splits)

lemma fee_step_Ok:
  assumes "unat (fee :: u16) \<le> 10000"
  shows "\<exists>fn dx. sub_p FEE_DENOM_BPS (ucast fee) = (Ok fn :: (u128, sim_error) res)
    \<and> mul_div_floor a fn FEE_DENOM_BPS = Ok dx"
proof -
  have f: "unat (ucast fee :: u128) = unat fee" by (simp add: unat_ucast_up)
  have le: "(ucast fee :: u128) \<le> FEE_DENOM_BPS"
    using assms by (simp add: word_le_nat_alt f FEE_DENOM_BPS_def)
  have "FEE_DENOM_BPS - ucast fee \<le> FEE_DENOM_BPS"
    using le by (simp add: word_le_nat_alt unat_sub_no_wrap)
  moreover have "FEE_DENOM_BPS \<noteq> 0" by (simp add: FEE_DENOM_BPS_def)
  ultimately obtain dx where "mul_div_floor a (FEE_DENOM_BPS - ucast fee) FEE_DENOM_BPS = Ok dx"
    using mul_div_floor_ratio by blast
  with le show ?thesis by (auto simp: sub_p_def)
qed

text \<open>The output of a leg is the dispatched fill, guarded by the fee subtraction.\<close>

lemma leg_output_eq:
  "leg_output reg l a =
    (case registry_get reg (key_bytes (leg_pool l)) of
       None \<Rightarrow> Err (PoolNotFound (leg_pool l))
     | Some p \<Rightarrow> if 10000 < unat (fee_bps p) then Panic
         else bind_res (dispatch_fill p (leg_direction l) a) (\<lambda>(out, ri, ro). Ok out))"
proof (cases "registry_get reg (key_bytes (leg_pool l))")
  case None
  then show ?thesis by (simp add: leg_output_def simulate_one_leg_def ok_or_def)
next
  case (Some p)
  show ?thesis
  proof (cases "10000 < unat (fee_bps p)")
    case True
    then have "sub_p FEE_DENOM_BPS (ucast (fee_bps p)) = (Panic :: (u128, sim_error) res)"
      by (simp add: sub_p_Panic_iff unat_ucast_up FEE_DENOM_BPS_def)
    with Some True show ?thesis by (simp add: leg_output_def simulate_one_leg_def ok_or_def)
  next
    case False
    then obtain fn dx where "sub_p FEE_DENOM_BPS (ucast (fee_bps p)) = (Ok fn :: (u128, sim_error) res)"
      "mul_div_floor a fn FEE_DENOM_BPS = Ok dx"
      using fee_step_Ok [of "fee_bps p" a] by auto
    with Some False show ?thesis
      by (cases "dispatch_fill p (leg_direction l) a")
        (auto simp: leg_output_def simulate_one_leg_def ok_or_def Let_def)
  qed
qed

definition swap_reserves :: "pool \<Rightarrow> direction \<Rightarrow> u64 \<times> u64" where
  "swap_reserves p dir = (case dir of
     BaseToQuote \<Rightarrow> (base_reserve p, quote_reserve p) | QuoteToBase \<Rightarrow> (quote_reserve p, base_reserve p))"

definition curve_of :: "pool \<Rightarrow> direction \<Rightarrow> u128 \<Rightarrow> (u128, sim_error) res" where
  "curve_of p dir a =
    (case extras p of
       Raydium \<Rightarrow> fill_constant_product (ucast (fst (swap_reserves p dir)))
         (ucast (snd (swap_reserves p dir))) (fee_bps p) a
     | Whirlpool sp \<Rightarrow> fill_orca_single_tick sp a (fee_bps p)
     | Dlmm bstep ax ay price \<Rightarrow>
         bind_res (fill_meteora_single_bin \<lparr>amount_x = ax, amount_y = ay, bin_price = price\<rparr>
           (case dir of BaseToQuote \<Rightarrow> XForY | QuoteToBase \<Rightarrow> YForX) (ucast a) (fee_bps p))
           (\<lambda>out. Ok (ucast out)))"

lemma bind_bind_res: "bind_res (bind_res m f) g = bind_res m (\<lambda>v. bind_res (f v) g)"
  by (cases m) simp_all

lemma bind_res_Ok_id [simp]: "bind_res m Ok = m"
  by (cases m) simp_all

lemma dispatch_fill_curve:
  "bind_res (dispatch_fill p dir a) (\<lambda>(out, ri, ro). Ok out) = curve_of p dir a"
  by (cases "extras p"; cases dir)
    (simp_all add: dispatch_fill_def curve_of_def swap_reserves_def bind_bind_res Let_def)

lemma leg_output_curve:
  "leg_output reg l a =
    (case registry_get reg (key_bytes (leg_pool l)) of
       None \<Rightarrow> Err (PoolNotFound (leg_pool l))
     | Some p \<Rightarrow> if 10000 < unat (fee_bps p) then Panic else curve_of p (leg_direction l) a)"
  by (simp only: leg_output_eq dispatch_fill_curve)

section \<open>The legs of a cycle\<close>

lemma simulate_one_leg_Ok:
  assumes "simulate_one_leg l reg a = Ok f"
  shows "leg_output reg l a = Ok (lf_amount_out f)"
  using assms by (simp add: leg_output_def)

lemma leg_output_Ok:
  assumes "leg_output reg l a = Ok b"
  obtains f where "simulate_one_leg l reg a = Ok f" and "lf_amount_out f = b"
  using assms by (auto simp: leg_output_def bind_res_Ok_iff)

text \<open>The amounts that enter the legs and the amount that leaves the last, without the log.\<close>

fun route_output :: "pool_registry \<Rightarrow> leg list \<Rightarrow> u128 \<Rightarrow> (u128, sim_error) res" where
  "route_output reg [] a = Ok a"
| "route_output reg (l # ls) a = bind_res (leg_output reg l a) (route_output reg ls)"

lemma simulate_legs_output:
  "bind_res (simulate_legs ls reg a acc) (\<lambda>f. Ok (final_output f)) = route_output reg ls a"
proof (induction ls arbitrary: a acc)
  case (Cons l ls)
  show ?case
    by (cases "simulate_one_leg l reg a") (simp_all add: leg_output_def Cons.IH)
qed simp

lemma simulate_cycle_output:
  assumes "length (legs c) \<le> MAX_CYCLE_LEGS"
  shows "bind_res (simulate_cycle c reg a) (\<lambda>f. Ok (final_output f)) = route_output reg (legs c) a"
  using assms simulate_legs_output by (simp add: simulate_cycle_def)

lemma simulate_cycle_Ok_output:
  assumes "simulate_cycle c reg a = Ok f"
  shows "route_output reg (legs c) a = Ok (final_output f)"
proof -
  have "length (legs c) \<le> MAX_CYCLE_LEGS"
    using assms by (auto simp: simulate_cycle_def split: if_splits)
  from simulate_cycle_output [OF this, of reg a] assms show ?thesis by simp
qed

lemma route_output_Ok_simulate:
  assumes "route_output reg (legs c) a = Ok b" and "length (legs c) \<le> MAX_CYCLE_LEGS"
  obtains f where "simulate_cycle c reg a = Ok f" and "final_output f = b"
  using assms simulate_cycle_output [OF assms(2), of reg a] by (auto simp: bind_res_Ok_iff)

text \<open>The fills of consecutive legs are chained: each leg pays in what the one before paid out.\<close>

fun chained :: "pool_registry \<Rightarrow> leg list \<Rightarrow> u128 \<Rightarrow> leg_fill list \<Rightarrow> u128 \<Rightarrow> bool" where
  "chained reg [] a [] b \<longleftrightarrow> b = a"
| "chained reg (l # ls) a (f # fs) b \<longleftrightarrow>
    simulate_one_leg l reg a = Ok f \<and> lf_pool f = leg_pool l \<and> lf_direction f = leg_direction l
    \<and> lf_amount_in f = a \<and> chained reg ls (lf_amount_out f) fs b"
| "chained reg ls a fs b \<longleftrightarrow> False"

lemma simulate_legs_chained:
  "simulate_legs ls reg a acc = Ok cf \<longleftrightarrow>
    (\<exists>fs. per_leg cf = acc @ fs \<and> chained reg ls a fs (final_output cf))"
proof (induction ls arbitrary: a acc)
  case Nil
  have "chained reg [] a fs b \<longleftrightarrow> fs = [] \<and> b = a" for fs b by (cases fs) simp_all
  then show ?case by (cases cf) auto
next
  case (Cons l ls)
  have "chained reg (l # ls) a fs b \<longleftrightarrow> (\<exists>f gs. fs = f # gs \<and> simulate_one_leg l reg a = Ok f
      \<and> chained reg ls (lf_amount_out f) gs b)" for fs b
    by (cases fs) (auto dest: simulate_one_leg_frame)
  with Cons.IH show ?case by (auto simp: bind_res_Ok_iff)
qed

lemma chained_length: "chained reg ls a fs b \<Longrightarrow> length fs = length ls"
  by (induction reg ls a fs b rule: chained.induct) simp_all

lemma chained_fill:
  "chained reg ls a fs b \<Longrightarrow> i < length ls \<Longrightarrow>
    simulate_one_leg (ls ! i) reg (lf_amount_in (fs ! i)) = Ok (fs ! i)"
proof (induction reg ls a fs b arbitrary: i rule: chained.induct)
  case (2 reg l ls a f fs b)
  then show ?case by (cases i) simp_all
qed simp_all

lemma chained_in:
  "chained reg ls a fs b \<Longrightarrow> i < length ls \<Longrightarrow>
    lf_amount_in (fs ! i) = (if i = 0 then a else lf_amount_out (fs ! (i - 1)))"
proof (induction reg ls a fs b arbitrary: i rule: chained.induct)
  case (2 reg l ls a f fs b)
  show ?case
  proof (cases i)
    case (Suc j)
    with 2 have "lf_amount_in (fs ! j) = (if j = 0 then lf_amount_out f else lf_amount_out (fs ! (j - 1)))"
      by simp
    then show ?thesis by (cases j) (simp_all add: Suc)
  qed (use 2 in simp)
qed simp_all

lemma chained_final: "chained reg ls a fs b \<Longrightarrow> b = (if fs = [] then a else lf_amount_out (last fs))"
proof (induction reg ls a fs b rule: chained.induct)
  case (2 reg l ls a f fs b)
  then show ?case by (cases fs) auto
qed simp_all

text \<open>
  C8. A simulated cycle logs exactly one fill per leg, in order: the first leg is paid
  the input, every later leg is paid what the leg before it returned, each logged fill is
  the fill of its own leg at that amount, and the final output is what the last leg returned.
\<close>

theorem simulate_cycle_chains_legs:
  assumes "simulate_cycle c reg input = Ok f"
  shows "length (legs c) \<le> 16 \<and> length (per_leg f) = length (legs c)
    \<and> (\<forall>i < length (legs c). simulate_one_leg (legs c ! i) reg (lf_amount_in (per_leg f ! i)) = Ok (per_leg f ! i)
        \<and> lf_pool (per_leg f ! i) = leg_pool (legs c ! i)
        \<and> lf_direction (per_leg f ! i) = leg_direction (legs c ! i)
        \<and> lf_amount_in (per_leg f ! i) = (if i = 0 then input else lf_amount_out (per_leg f ! (i - 1))))
    \<and> final_output f = (if legs c = [] then input else lf_amount_out (last (per_leg f)))"
proof -
  have ch: "chained reg (legs c) input (per_leg f) (final_output f)" and len: "length (legs c) \<le> 16"
    using assms simulate_legs_chained [of "legs c" reg input "[]" f]
    by (auto simp: simulate_cycle_def MAX_CYCLE_LEGS_def split: if_splits)
  from chained_length [OF ch] have n: "length (per_leg f) = length (legs c)" .
  then have "per_leg f = [] \<longleftrightarrow> legs c = []" by auto
  then have "final_output f = (if legs c = [] then input else lf_amount_out (last (per_leg f)))"
    using chained_final [OF ch] by simp
  with n len chained_in [OF ch] chained_fill [OF ch] show ?thesis
    by (intro conjI allI impI) (metis simulate_one_leg_frame)+
qed

section \<open>Sample pools\<close>

definition sample_pool :: "u8 \<Rightarrow> u64 \<Rightarrow> u64 \<Rightarrow> u16 \<Rightarrow> pool_extras \<Rightarrow> pool" where
  "sample_pool k b q fee ex = default_pool\<lparr>address := Pubkey [k], base_reserve := b,
    quote_reserve := q, fee_bps := fee, extras := ex\<rparr>"

definition leg_through :: "u8 \<Rightarrow> direction \<Rightarrow> leg" where
  "leg_through k dir = \<lparr>leg_pool = Pubkey [k], leg_direction = dir, leg_weight = 0\<rparr>"

definition cycle_through :: "leg list \<Rightarrow> cycle" where
  "cycle_through ls = \<lparr>cycle_seq = 0, legs = ls, weight_sum = 0, expected_profit_bps = 0\<rparr>"

lemma sample_pool_sel [simp]:
  "address (sample_pool k b q fee ex) = Pubkey [k]" "base_reserve (sample_pool k b q fee ex) = b"
  "quote_reserve (sample_pool k b q fee ex) = q" "fee_bps (sample_pool k b q fee ex) = fee"
  "extras (sample_pool k b q fee ex) = ex"
  by (simp_all add: sample_pool_def)

lemma leg_through_sel [simp]:
  "leg_pool (leg_through k dir) = Pubkey [k]" "leg_direction (leg_through k dir) = dir"
  "legs (cycle_through ls) = ls"
  by (simp_all add: leg_through_def cycle_through_def)

lemma registry_of_snoc:
  "registry_of (ps @ [p]) = snd (registry_insert (registry_of ps) p)"
  by (simp add: registry_of_def)

lemma registry_get_two:
  "registry_get (registry_of [p, q]) k =
    (if k = key_bytes (address q) then Some q else if k = key_bytes (address p) then Some p else None)"
  by (simp add: registry_of_def registry.get_insert registry.get_empty)

lemma registry_get_one:
  "registry_get (registry_of [p]) k = (if k = key_bytes (address p) then Some p else None)"
  by (simp add: registry_of_def registry.get_insert registry.get_empty)

lemmas sample_eval = leg_output_curve curve_of_def swap_reserves_def registry_get_two registry_get_one
  fill_constant_product_spec MAX_FEE_BPS_def cp_dx_def cp_out_def unat_ucast_up

section \<open>Smaller inputs\<close>

text \<open>
  Everything the simulation of a route relies on, from the fills' interface: each hop
  keeps an order on the amounts it is used at.
\<close>

definition within_u64 :: "pool_registry \<Rightarrow> leg_fill \<Rightarrow> bool" where
  "within_u64 reg f =
    (case registry_get reg (key_bytes (lf_pool f)) of
       None \<Rightarrow> True
     | Some p \<Rightarrow> (case extras p of Dlmm bstep ax ay price \<Rightarrow> unat (lf_amount_in f) < 2 ^ 64 | _ \<Rightarrow> True))"

lemma ucast_mono_small:
  "a \<le> b \<Longrightarrow> unat b < 2 ^ 64 \<Longrightarrow> (ucast a :: u64) \<le> ucast b" for a b :: u128
  by (simp add: word_le_nat_alt unat_ucast_down)

lemma curve_of_down:
  assumes "curve_of p dir b = Ok y" and "a \<le> b"
    and "\<And>bstep ax ay price. extras p = Dlmm bstep ax ay price \<Longrightarrow> unat b < 2 ^ 64"
  shows "\<exists>x. curve_of p dir a = Ok x \<and> x \<le> y"
proof (cases "extras p")
  case Raydium
  with assms(1,2) show ?thesis by (simp add: curve_of_def cp.fill_down)
next
  case (Whirlpool sp)
  with assms(1,2) show ?thesis by (simp add: curve_of_def orca.fill_down)
next
  case (Dlmm bstep ax ay price)
  with assms(1) obtain out where out: "y = ucast out"
    "fill_meteora_single_bin \<lparr>amount_x = ax, amount_y = ay, bin_price = price\<rparr>
      (case dir of BaseToQuote \<Rightarrow> XForY | QuoteToBase \<Rightarrow> YForX) (ucast b) (fee_bps p) = Ok out"
    by (auto simp: curve_of_def bind_res_Ok_iff)
  from meteora.fill_down [OF out(2) ucast_mono_small [OF assms(2) assms(3) [OF Dlmm]]]
  obtain out' where "fill_meteora_single_bin \<lparr>amount_x = ax, amount_y = ay, bin_price = price\<rparr>
      (case dir of BaseToQuote \<Rightarrow> XForY | QuoteToBase \<Rightarrow> YForX) (ucast a) (fee_bps p) = Ok out'"
    "out' \<le> out" by blast
  with Dlmm out(1) show ?thesis
    by (simp add: curve_of_def word_le_nat_alt unat_ucast_up)
qed

lemma leg_output_down:
  assumes "simulate_one_leg l reg b = Ok f" and "a \<le> b" and "within_u64 reg f"
  shows "\<exists>x. leg_output reg l a = Ok x \<and> x \<le> lf_amount_out f"
proof -
  note fr = simulate_one_leg_frame [OF assms(1)]
  obtain p where p: "registry_get reg (key_bytes (leg_pool l)) = Some p"
    "\<not> 10000 < unat (fee_bps p)" "curve_of p (leg_direction l) b = Ok (lf_amount_out f)"
    using simulate_one_leg_Ok [OF assms(1)] by (auto simp: leg_output_curve split: option.splits if_splits)
  have "unat b < 2 ^ 64" if "extras p = Dlmm bstep ax ay price" for bstep ax ay price
    using assms(3) that p(1) fr by (simp add: within_u64_def)
  from curve_of_down [OF p(3) assms(2) this] p(1,2) show ?thesis
    by (auto simp: leg_output_curve)
qed

lemma chained_down:
  "chained reg ls b fs y \<Longrightarrow> a \<le> b \<Longrightarrow> list_all (within_u64 reg) fs \<Longrightarrow>
    \<exists>x. route_output reg ls a = Ok x \<and> x \<le> y"
proof (induction reg ls b fs y arbitrary: a rule: chained.induct)
  case (2 reg l ls b f fs y)
  then obtain x where "leg_output reg l a = Ok x" "x \<le> lf_amount_out f"
    using leg_output_down [of l reg b f a] by auto
  with 2 show ?case by auto
qed simp_all

text \<open>
  The simulated round trip is monotone and downward closed: if a cycle fills at some
  input, it fills at every smaller input, and returns no more there. The one condition is
  that no amount that enters a Meteora leg exceeds 64 bits.
\<close>

theorem simulate_cycle_monotone:
  assumes "simulate_cycle c reg b = Ok f" and "a \<le> b" and "list_all (within_u64 reg) (per_leg f)"
  shows "\<exists>g. simulate_cycle c reg a = Ok g \<and> final_output g \<le> final_output f"
proof -
  have ch: "chained reg (legs c) b (per_leg f) (final_output f)"
    and len: "length (legs c) \<le> MAX_CYCLE_LEGS"
    using assms(1) simulate_legs_chained [of "legs c" reg b "[]" f]
    by (auto simp: simulate_cycle_def split: if_splits)
  from chained_down [OF ch assms(2,3)] obtain x where
    "route_output reg (legs c) a = Ok x" "x \<le> final_output f" by blast
  with len show ?thesis by (metis route_output_Ok_simulate)
qed

section \<open>Frames, failures and single-pool cycles\<close>

lemma leg_output_insert:
  assumes "address p \<noteq> leg_pool l"
  shows "simulate_one_leg l (snd (registry_insert reg p)) a = simulate_one_leg l reg a"
proof -
  have "key_bytes (leg_pool l) \<noteq> key_bytes (address p)" using assms by (metis pubkey.expand)
  then show ?thesis by (simp add: simulate_one_leg_def registry.get_insert)
qed

text \<open>
  A simulation reads only the pools of its legs: storing a pool that no leg trades
  through changes nothing, neither the result nor the error.
\<close>

theorem simulate_cycle_frame:
  assumes "address p \<notin> leg_pool ` set (legs c)"
  shows "simulate_cycle c (snd (registry_insert reg p)) a = simulate_cycle c reg a"
proof -
  have "simulate_legs ls (snd (registry_insert reg p)) a acc = simulate_legs ls reg a acc"
    if "address p \<notin> leg_pool ` set ls" for ls acc
    using that
  proof (induction ls arbitrary: a acc)
    case (Cons l ls)
    then have "simulate_one_leg l (snd (registry_insert reg p)) a = simulate_one_leg l reg a"
      by (intro leg_output_insert) auto
    with Cons show ?case by simp
  qed simp
  then show ?thesis using assms by (simp add: simulate_cycle_def)
qed

lemma leg_output_not_Err_of_found:
  assumes "leg_output reg l a = Err (PoolNotFound pk)"
  shows "pk = leg_pool l \<and> registry_get reg (key_bytes pk) = None"
  using assms
  by (auto simp: leg_output_curve curve_of_def fill_constant_product_spec fill_orca_single_tick_spec
      fill_meteora_single_bin_def bind_res_Err_iff split: option.splits if_splits pool_extras.splits prod.splits)

lemma simulate_legs_Err:
  "simulate_legs ls reg a acc = Err e \<Longrightarrow> \<exists>l b. l \<in> set ls \<and> leg_output reg l b = Err e"
  by (induction ls arbitrary: a acc) (fastforce simp: bind_res_Err_iff leg_output_def)+

lemma leg_output_not_CycleTooLong: "leg_output reg l a \<noteq> Err (CycleTooLong n)"
  by (auto simp: leg_output_curve curve_of_def fill_constant_product_spec fill_orca_single_tick_spec
      fill_meteora_single_bin_def bind_res_Err_iff split: option.splits if_splits pool_extras.splits prod.splits)

text \<open>
  The errors of a simulation mean what they say: \<open>CycleTooLong\<close> is reported for
  every cycle of more than sixteen legs and for no other, and \<open>PoolNotFound\<close> names the
  pool of one of the cycle's legs that the registry really lacks.
\<close>

theorem simulate_cycle_errors:
  "(simulate_cycle c reg a = Err (CycleTooLong n) \<longleftrightarrow> 16 < length (legs c) \<and> n = length (legs c))
    \<and> (simulate_cycle c reg a = Err (PoolNotFound pk) \<longrightarrow>
        registry_get reg (key_bytes pk) = None \<and> pk \<in> leg_pool ` set (legs c))"
proof -
  have "simulate_legs (legs c) reg a [] \<noteq> Err (CycleTooLong n)"
    using simulate_legs_Err leg_output_not_CycleTooLong by blast
  moreover have "registry_get reg (key_bytes pk) = None \<and> pk \<in> leg_pool ` set (legs c)"
    if notf: "simulate_legs (legs c) reg a [] = Err (PoolNotFound pk)"
    using simulate_legs_Err [OF notf] leg_output_not_Err_of_found by blast
  ultimately show ?thesis by (auto simp: simulate_cycle_def MAX_CYCLE_LEGS_def)
qed

theorem simulate_cycle_errors_witness:
  "simulate_cycle (cycle_through [leg_through 7 BaseToQuote]) registry_new 5 = Err (PoolNotFound (Pubkey [7]))
    \<and> registry_get registry_new (key_bytes (Pubkey [7])) = None"
proof -
  have "simulate_cycle (cycle_through [leg_through 7 BaseToQuote]) registry_new 5 = Err (PoolNotFound (Pubkey [7]))"
    by (simp add: simulate_cycle_def MAX_CYCLE_LEGS_def simulate_one_leg_def ok_or_def registry.get_empty)
  from this simulate_cycle_errors [THEN conjunct2, rule_format, OF this] show ?thesis by blast
qed

lemma leg_output_found:
  assumes "registry_get reg (key_bytes (leg_pool l)) = Some p" and "leg_output reg l a = Ok b"
  shows "curve_of p (leg_direction l) a = Ok b"
  using assms by (simp add: leg_output_curve split: if_splits)

fun flip :: "direction \<Rightarrow> direction" where
  "flip BaseToQuote = QuoteToBase"
| "flip QuoteToBase = BaseToQuote"

text \<open>
  There is no free money in one constant-product pool: buying through it and
  selling straight back never returns more than the input, in either direction and at any fee.
\<close>

theorem raydium_round_trip_never_gains:
  assumes "registry_get reg (key_bytes k) = Some p" and "extras p = Raydium"
    and "map leg_pool (legs c) = [k, k]" and "map leg_direction (legs c) = [d, flip d]"
    and "simulate_cycle c reg a = Ok f"
  shows "final_output f \<le> a"
proof -
  obtain l1 l2 where legs: "legs c = [l1, l2]" "leg_pool l1 = k" "leg_pool l2 = k"
    "leg_direction l1 = d" "leg_direction l2 = flip d" using assms(3,4) by auto
  obtain m where m: "leg_output reg l1 a = Ok m" "leg_output reg l2 m = Ok (final_output f)"
    using simulate_cycle_Ok_output [OF assms(5)] by (auto simp: legs bind_res_Ok_iff)
  define x y where "x = (ucast (fst (swap_reserves p d)) :: u128)" and "y = (ucast (snd (swap_reserves p d)) :: u128)"
  have c1: "fill_constant_product x y (fee_bps p) a = Ok m"
    using leg_output_found [OF _ m(1), of p] assms(1,2) by (simp add: legs curve_of_def x_def y_def)
  have "curve_of p (flip d) m = Ok (final_output f)"
    using leg_output_found [OF _ m(2), of p] assms(1) by (simp add: legs)
  then have c2: "fill_constant_product y x (fee_bps p) m = Ok (final_output f)"
    using assms(2) by (cases d) (simp_all add: curve_of_def swap_reserves_def x_def y_def)
  show ?thesis
  proof (cases "a = 0 \<or> m = 0")
    case True
    then show ?thesis using c1 c2 by (auto simp: word_le_nat_alt)
  next
    case False
    then have "a \<noteq> 0" "m \<noteq> 0" by simp_all
    note D1 = fill_constant_product_OkD [OF c1 \<open>a \<noteq> 0\<close>] and D2 = fill_constant_product_OkD [OF c2 \<open>m \<noteq> 0\<close>]
    have "cp_dx (unat (fee_bps p)) (unat m) \<le> cp_out (unat x) (unat y) (cp_dx (unat (fee_bps p)) (unat a))"
      using cp_dx_le [of "unat (fee_bps p)" "unat m"] by (simp only: D1(5))
    then have "unat (final_output f) \<le> cp_dx (unat (fee_bps p)) (unat a)"
      using D1(2) by (simp only: D2(5)) (intro cp_round_trip, simp_all add: unat_gt_0)
    also have "\<dots> \<le> unat a" by (rule cp_dx_le)
    finally show ?thesis by (simp add: word_le_nat_alt)
  qed
qed

theorem raydium_round_trip_never_gains_witness:
  "\<exists>f. simulate_cycle (cycle_through [leg_through 7 BaseToQuote, leg_through 7 QuoteToBase])
      (registry_of [sample_pool 7 1000000 2000000 30 Raydium]) 1000 = Ok f
    \<and> final_output f = 992 \<and> final_output f \<le> 1000"
proof -
  let ?c = "cycle_through [leg_through 7 BaseToQuote, leg_through 7 QuoteToBase]"
  let ?reg = "registry_of [sample_pool 7 1000000 2000000 30 Raydium]"
  have "route_output ?reg (legs ?c) 1000 = Ok 992"
    by (simp add: sample_eval)
  then obtain f where f: "simulate_cycle ?c ?reg 1000 = Ok f" "final_output f = 992"
    by (rule route_output_Ok_simulate) (simp add: MAX_CYCLE_LEGS_def)
  have "final_output f \<le> 1000"
    by (rule raydium_round_trip_never_gains [OF _ _ _ _ f(1), where d = BaseToQuote
          and p = "sample_pool 7 1000000 2000000 30 Raydium" and k = "Pubkey [7]"])
      (simp_all add: registry_get_one)
  with f show ?thesis by simp
qed

text \<open>
  A Whirlpool leg ignores its direction: the amount it returns is the same for
  base-to-quote and for quote-to-base, because the fill is a function of the pool's
  \<^verbatim>\<open>sqrt_price\<close> alone.
\<close>

theorem whirlpool_leg_ignores_direction:
  assumes "registry_get reg (key_bytes (leg_pool l)) = Some p" and "extras p = Whirlpool sp"
  shows "leg_output reg (l\<lparr>leg_direction := flip (leg_direction l)\<rparr>) a = leg_output reg l a"
  using assms by (simp add: leg_output_curve curve_of_def)

theorem whirlpool_leg_ignores_direction_witness:
  "route_output (registry_of [sample_pool 7 5 5 30 (Whirlpool (2 ^ 65))])
      [leg_through 7 BaseToQuote, leg_through 7 QuoteToBase] 1000000 = Ok 3976033
    \<and> leg_output (registry_of [sample_pool 7 5 5 30 (Whirlpool (2 ^ 65))])
      ((leg_through 7 BaseToQuote)\<lparr>leg_direction := QuoteToBase\<rparr>) 1000000 = Ok 1993999"
proof -
  let ?reg = "registry_of [sample_pool 7 5 5 30 (Whirlpool (2 ^ 65))]"
  have "leg_output ?reg (leg_through 7 BaseToQuote) 1000000 = Ok 1993999"
    by (simp add: sample_eval fill_orca_single_tick_spec orca_reserve_out_def
        MIN_SQRT_PRICE_def MAX_SQRT_PRICE_def)
  moreover have "leg_output ?reg (leg_through 7 QuoteToBase) 1993999 = Ok 3976033"
    by (simp add: sample_eval fill_orca_single_tick_spec orca_reserve_out_def
        MIN_SQRT_PRICE_def MAX_SQRT_PRICE_def)
  ultimately show ?thesis
    using whirlpool_leg_ignores_direction [of ?reg "leg_through 7 BaseToQuote" "sample_pool 7 5 5 30 (Whirlpool (2 ^ 65))" "2 ^ 65" 1000000]
    by (simp add: registry_get_one)
qed

text \<open>
  A Meteora leg sees only the low 64 bits of its input (\<^verbatim>\<open>amount_in as u64\<close>): the
  output at any amount is the output at that amount reduced modulo \<open>2^64\<close>, so an input of
  \<open>2^64\<close> returns nothing, and no error is raised.
\<close>

theorem dlmm_leg_truncates_input:
  assumes "registry_get reg (key_bytes (leg_pool l)) = Some p"
    and "extras p = Dlmm bstep ax ay price" and "unat (fee_bps p) \<le> 10000"
  shows "leg_output reg l a = leg_output reg l (of_nat (unat a mod 2 ^ 64))
    \<and> leg_output reg l (2 ^ 64) = Ok 0"
proof -
  have "unat (of_nat (unat a mod 2 ^ 64) :: u128) = unat a mod 2 ^ 64"
    by (rule unat_of_nat_fits) (simp add: less_trans [OF mod_less_divisor])
  then have "(ucast (of_nat (unat a mod 2 ^ 64) :: u128) :: u64) = ucast a"
    by (simp add: word_unat_eq_iff unsigned_ucast_eq take_bit_eq_mod)
  moreover have "(ucast (2 ^ 64 :: u128) :: u64) = 0" by simp
  ultimately show ?thesis
    using assms by (simp only: leg_output_curve curve_of_def option.case pool_extras.case not_less
        if_False fill_meteora_single_bin_def)
      (simp add: fill_constant_product_def split: prod.splits direction.splits)
qed

theorem dlmm_leg_truncates_input_witness:
  "leg_output (registry_of [sample_pool 7 1 1 30 (Dlmm 10 1000000 1000000 1)])
      (leg_through 7 BaseToQuote) (2 ^ 64 + 1000) = Ok 996"
proof -
  let ?reg = "registry_of [sample_pool 7 1 1 30 (Dlmm 10 1000000 1000000 1)]"
  have "leg_output ?reg (leg_through 7 BaseToQuote) 1000 = Ok 996"
    by (simp add: sample_eval fill_meteora_single_bin_def)
  then show ?thesis
    using dlmm_leg_truncates_input [of ?reg "leg_through 7 BaseToQuote"
        "sample_pool 7 1 1 30 (Dlmm 10 1000000 1000000 1)" 10 1000000 1000000 1 "2 ^ 64 + 1000"]
    by (simp add: registry_get_one)
qed

section \<open>Sample runs\<close>

lemma sample_route:
  assumes "route_output reg (legs c) a = Ok b" and "length (legs c) \<le> 16"
  shows "\<exists>f. simulate_cycle c reg a = Ok f \<and> final_output f = b"
  using route_output_Ok_simulate [OF assms(1)] assms(2) by (metis MAX_CYCLE_LEGS_def)

definition two_pools :: pool_registry where
  "two_pools = registry_of [sample_pool 7 1000000 1100000 30 Raydium, sample_pool 8 1000000 1000000 30 Raydium]"

definition two_leg_cycle :: cycle where
  "two_leg_cycle = cycle_through [leg_through 7 BaseToQuote, leg_through 8 QuoteToBase]"

lemma two_pool_run: "\<exists>f. simulate_cycle two_leg_cycle two_pools 1000 = Ok f \<and> final_output f = 1089"
  by (rule sample_route) (simp_all add: two_pools_def two_leg_cycle_def sample_eval)

theorem simulate_cycle_chains_legs_witness:
  "\<exists>f. simulate_cycle two_leg_cycle two_pools 1000 = Ok f \<and> length (per_leg f) = 2
    \<and> lf_amount_in (per_leg f ! 1) = lf_amount_out (per_leg f ! 0) \<and> final_output f = 1089"
proof -
  obtain f where f: "simulate_cycle two_leg_cycle two_pools 1000 = Ok f" "final_output f = 1089"
    using two_pool_run by blast
  from simulate_cycle_chains_legs [OF f(1)] have "length (per_leg f) = 2"
    "lf_amount_in (per_leg f ! 1) = lf_amount_out (per_leg f ! 0)"
    by (auto simp: two_leg_cycle_def)
  with f show ?thesis by blast
qed

theorem simulate_cycle_monotone_witness:
  "\<exists>f g. simulate_cycle two_leg_cycle two_pools 1000 = Ok f \<and> simulate_cycle two_leg_cycle two_pools 900 = Ok g
    \<and> final_output g \<le> final_output f"
proof -
  obtain f where f: "simulate_cycle two_leg_cycle two_pools 1000 = Ok f"
    using two_pool_run by blast
  obtain fs where fs: "chained two_pools (legs two_leg_cycle) 1000 (per_leg f) (final_output f)"
    using f simulate_legs_chained [of "legs two_leg_cycle" two_pools 1000 "[]" f]
    by (auto simp: simulate_cycle_def split: if_splits)
  have "within_u64 two_pools g" for g
    by (auto simp: within_u64_def two_pools_def registry_get_two)
  then have "list_all (within_u64 two_pools) (per_leg f)" by (simp add: list_all_iff)
  with simulate_cycle_monotone [OF f, of 900] f show ?thesis by auto
qed

theorem simulate_cycle_frame_witness:
  "simulate_cycle two_leg_cycle (snd (registry_insert two_pools (sample_pool 9 1 1 0 Raydium))) 1000
    = simulate_cycle two_leg_cycle two_pools 1000"
  by (rule simulate_cycle_frame) (simp add: two_leg_cycle_def)

end
