(* ===== verification/Sizing.thy ===== *)
theory Sizing
  imports Simulate Cost
begin

text \<open>
  \<^verbatim>\<open>crates/dl-sim/src/sizing.rs\<close> and \<^verbatim>\<open>net_profit.rs\<close>: the search for the input that
  maximizes the net profit of a cycle, and the net-profit record.
\<close>

datatype optimal_input =
    Profitable (opt_amount: u128) (opt_net: i128)
  | NoTrade (best_negative_net: i128)

definition INV_PHI_NUM :: u128 where
  "INV_PHI_NUM = 618033988"

definition INV_PHI_DEN :: u128 where
  "INV_PHI_DEN = 1000000000"

definition MAX_ITERS :: usize where
  "MAX_ITERS = 64"

definition net_profit_at :: "cycle \<Rightarrow> pool_registry \<Rightarrow> i128 \<Rightarrow> u128 \<Rightarrow> (i128, sim_error) res" where
  "net_profit_at c reg costs input =
    bind_res (simulate_cycle c reg input) (\<lambda>f.
    bind_res (range_p 128 (as_i128 (final_output f) - as_i128 input)) (\<lambda>d.
    range_p 128 (d - costs)))"

text \<open>\<^verbatim>\<open>span * INV_PHI_NUM / INV_PHI_DEN\<close>, with unchecked multiplication.\<close>

definition phi_offset :: "u128 \<Rightarrow> (u128, sim_error) res" where
  "phi_offset span = bind_res (mul_p span INV_PHI_NUM) (\<lambda>p. div_p p INV_PHI_DEN)"

record bracket =
  br_lo :: u128
  br_hi :: u128
  br_m1 :: u128
  br_m2 :: u128
  br_f1 :: i128
  br_f2 :: i128

text \<open>
  The loop over \<^verbatim>\<open>0..MAX_ITERS\<close>, for any objective; \<open>n\<close> is the number of iterations
  left. All additions and subtractions on the bracket are unchecked.
\<close>

fun golden_loop ::
    "(u128 \<Rightarrow> (i128, sim_error) res) \<Rightarrow> nat \<Rightarrow> u128 \<Rightarrow> bracket \<Rightarrow> (bracket, sim_error) res" where
  "golden_loop f 0 tol b = Ok b"
| "golden_loop f (Suc n) tol b =
    bind_res (sub_p (br_hi b) (br_lo b)) (\<lambda>span.
    if span \<le> tol then Ok b
    else if br_f1 b < br_f2 b then
      (let lo = br_m1 b; m1 = br_m2 b; f1 = br_f2 b in
       bind_res (sub_p (br_hi b) lo) (\<lambda>span'.
       bind_res (phi_offset span') (\<lambda>off.
       bind_res (add_p lo off) (\<lambda>m2.
       bind_res (f m2) (\<lambda>f2.
       golden_loop f n tol
         \<lparr>br_lo = lo, br_hi = br_hi b, br_m1 = m1, br_m2 = m2, br_f1 = f1, br_f2 = f2\<rparr>)))))
    else
      (let hi = br_m2 b; m2 = br_m1 b; f2 = br_f1 b in
       bind_res (sub_p hi (br_lo b)) (\<lambda>span'.
       bind_res (phi_offset span') (\<lambda>off.
       bind_res (sub_p hi off) (\<lambda>m1.
       bind_res (f m1) (\<lambda>f1.
       golden_loop f n tol
         \<lparr>br_lo = br_lo b, br_hi = hi, br_m1 = m1, br_m2 = m2, br_f1 = f1, br_f2 = f2\<rparr>))))))"

definition golden_pick ::
    "(u128 \<Rightarrow> (i128, sim_error) res) \<Rightarrow> bracket \<Rightarrow> (optimal_input, sim_error) res" where
  "golden_pick f b =
    bind_res (add_p (br_lo b) (br_hi b)) (\<lambda>s.
    let midpoint = s div 2 in
    bind_res (f midpoint) (\<lambda>f_mid.
    let best0 = (midpoint, f_mid);
        best1 = (if snd best0 < br_f1 b then (br_m1 b, br_f1 b) else best0);
        best2 = (if snd best1 < br_f2 b then (br_m2 b, br_f2 b) else best1)
    in if 0 < snd best2 then Ok (Profitable (fst best2) (snd best2)) else Ok (NoTrade (snd best2))))"

definition golden_search ::
    "(u128 \<Rightarrow> (i128, sim_error) res) \<Rightarrow> u128 \<Rightarrow> (optimal_input, sim_error) res" where
  "golden_search f max_input =
    bind_res (f 0) (\<lambda>n0.
    bind_res (f max_input) (\<lambda>n_max.
    bind_res (f (max_input div 2)) (\<lambda>n_mid.
    if n0 \<le> 0 \<and> n_max \<le> 0 \<and> n_mid \<le> 0 then Ok (NoTrade (max (max n0 n_max) n_mid))
    else
      let tol = max_input div 10000 in
      bind_res (sub_p max_input 0) (\<lambda>span.
      bind_res (phi_offset span) (\<lambda>off.
      bind_res (add_p 0 off) (\<lambda>m1.
      bind_res (sub_p max_input off) (\<lambda>m2.
      bind_res (f m1) (\<lambda>f1.
      bind_res (f m2) (\<lambda>f2.
      bind_res (golden_loop f MAX_ITERS tol
        \<lparr>br_lo = 0, br_hi = max_input, br_m1 = m1, br_m2 = m2, br_f1 = f1, br_f2 = f2\<rparr>)
        (golden_pick f))))))))))"

definition find_optimal_input ::
    "cycle \<Rightarrow> pool_registry \<Rightarrow> cost_model \<Rightarrow> u128 \<Rightarrow> (optimal_input, sim_error) res" where
  "find_optimal_input c reg cost max_input =
    (if max_input = 0 then Ok (NoTrade 0)
     else bind_res (total_cost cost) (\<lambda>b.
       golden_search (net_profit_at c reg (int (unat (total_lamports b)))) max_input))"

section \<open>The net-profit record\<close>

record net_profit_record =
  np_input_amount :: u128
  np_gross_output :: u128
  np_total_costs :: cost_breakdown
  np_net_profit :: i128
  np_net_profit_bps :: i32
  np_profitable :: bool

text \<open>The one division that can fault, \<^verbatim>\<open>i128::MIN / -1\<close>, panics.\<close>

definition sdiv_p :: "nat \<Rightarrow> int \<Rightarrow> int \<Rightarrow> (int, 'e) res" where
  "sdiv_p n a b = (if b = 0 \<or> (a = smin n \<and> b = - 1) then Panic else Ok (a sdiv b))"

definition from_optimal ::
    "optimal_input \<Rightarrow> u128 \<Rightarrow> u128 \<Rightarrow> cost_model \<Rightarrow> (net_profit_record, sim_error) res" where
  "from_optimal optimal input gross_output cost =
    bind_res (total_cost cost) (\<lambda>breakdown.
    bind_res (range_p 128 (as_i128 gross_output - as_i128 input)) (\<lambda>d.
    bind_res (range_p 128 (d - int (unat (total_lamports breakdown)))) (\<lambda>net.
    bind_res
      (if input = 0 then Ok 0
       else bind_res (sdiv_p 128 (clamp_i 128 (net * 10000)) (as_i128 input)) (\<lambda>bps.
         Ok (if smax 32 < bps then smax 32 else if bps < smin 32 then smin 32 else bps)))
      (\<lambda>bps. Ok \<lparr>np_input_amount = input, np_gross_output = gross_output, np_total_costs = breakdown,
         np_net_profit = net, np_net_profit_bps = bps, np_profitable = (0 < net)\<rparr>))))"

section \<open>What a search returns\<close>

lemma phi_offset_le:
  assumes "phi_offset s = Ok off"
  shows "unat off \<le> unat s"
proof -
  obtain p where p: "unat p = unat s * 618033988" "off = p div 1000000000"
    using assms by (auto simp: phi_offset_def bind_res_Ok_iff mul_p_Ok_iff div_p_Ok_iff
        INV_PHI_NUM_def INV_PHI_DEN_def)
  then have "unat off = unat s * 618033988 div 1000000000" by (simp add: unat_div)
  also have "\<dots> \<le> unat s * 1000000000 div 1000000000"
    by (intro div_le_mono mult_le_mono2) simp
  finally show ?thesis by simp
qed

text \<open>The bracket stays below the maximum and its two probes carry their own values.\<close>

definition bracket_ok :: "(u128 \<Rightarrow> (i128, sim_error) res) \<Rightarrow> u128 \<Rightarrow> bracket \<Rightarrow> bool" where
  "bracket_ok f mx b \<longleftrightarrow> br_lo b \<le> mx \<and> br_hi b \<le> mx \<and> br_m1 b \<le> mx \<and> br_m2 b \<le> mx
    \<and> f (br_m1 b) = Ok (br_f1 b) \<and> f (br_m2 b) = Ok (br_f2 b)"

lemma golden_loop_ok:
  "golden_loop f n tol b = Ok b' \<Longrightarrow> bracket_ok f mx b \<Longrightarrow> bracket_ok f mx b'"
proof (induction f n tol b rule: golden_loop.induct)
  case (2 f n tol b)
  obtain span where span: "sub_p (br_hi b) (br_lo b) = (Ok span :: (u128, sim_error) res)"
    using "2.prems"(1) by (auto simp: bind_res_Ok_iff)
  consider (stop) "span \<le> tol" | (up) "\<not> span \<le> tol" "br_f1 b < br_f2 b"
    | (down) "\<not> span \<le> tol" "\<not> br_f1 b < br_f2 b" by blast
  then show ?case
  proof cases
    case stop
    with span 2 show ?thesis by simp
  next
    case up
    with "2.prems"(1) span obtain span' off m2 f2 where
      step: "sub_p (br_hi b) (br_m1 b) = (Ok span' :: (u128, sim_error) res)" "phi_offset span' = Ok off"
        "add_p (br_m1 b) off = (Ok m2 :: (u128, sim_error) res)" "f m2 = Ok f2"
      and rest: "golden_loop f n tol \<lparr>br_lo = br_m1 b, br_hi = br_hi b, br_m1 = br_m2 b, br_m2 = m2,
        br_f1 = br_f2 b, br_f2 = f2\<rparr> = Ok b'"
      by (auto simp: bind_res_Ok_iff Let_def)
    have "m2 \<le> mx"
      using step(1,3) phi_offset_le [OF step(2)] "2.prems"(2)
      by (auto simp: op_p_iffs bracket_ok_def word_le_nat_alt)
    with "2.prems"(2) step(4) have "bracket_ok f mx \<lparr>br_lo = br_m1 b, br_hi = br_hi b, br_m1 = br_m2 b,
        br_m2 = m2, br_f1 = br_f2 b, br_f2 = f2\<rparr>"
      by (simp add: bracket_ok_def)
    with "2.IH"(1) [OF span up(1,2) refl refl refl step(1,2,3,4)] rest show ?thesis by blast
  next
    case down
    with "2.prems"(1) span obtain span' off m1 f1 where
      step: "sub_p (br_m2 b) (br_lo b) = (Ok span' :: (u128, sim_error) res)" "phi_offset span' = Ok off"
        "sub_p (br_m2 b) off = (Ok m1 :: (u128, sim_error) res)" "f m1 = Ok f1"
      and rest: "golden_loop f n tol \<lparr>br_lo = br_lo b, br_hi = br_m2 b, br_m1 = m1, br_m2 = br_m1 b,
        br_f1 = f1, br_f2 = br_f1 b\<rparr> = Ok b'"
      by (auto simp: bind_res_Ok_iff Let_def)
    have "m1 \<le> mx"
      using step(3) "2.prems"(2) by (auto simp: op_p_iffs bracket_ok_def word_le_nat_alt)
    with "2.prems"(2) step(4) have "bracket_ok f mx \<lparr>br_lo = br_lo b, br_hi = br_m2 b, br_m1 = m1,
        br_m2 = br_m1 b, br_f1 = f1, br_f2 = br_f1 b\<rparr>"
      by (simp add: bracket_ok_def)
    with "2.IH"(2) [OF span down(1,2) refl refl refl step(1,2,3,4)] rest show ?thesis by blast
  qed
qed simp

lemma golden_pick_sound:
  assumes "golden_pick f b = Ok r" and "bracket_ok f mx b"
  shows "\<exists>a v. a \<le> mx \<and> f a = Ok v \<and> br_f1 b \<le> v \<and> br_f2 b \<le> v
    \<and> r = (if 0 < v then Profitable a v else NoTrade v)"
proof -
  obtain s v where s: "unat s = unat (br_lo b) + unat (br_hi b)" "f (s div 2) = Ok v"
    using assms(1) by (auto simp: golden_pick_def bind_res_Ok_iff Let_def add_p_Ok_iff)
  have "add_p (br_lo b) (br_hi b) = (Ok s :: (u128, sim_error) res)" using s(1) by (simp add: add_p_Ok_iff)
  then have r: "r = (let best0 = (s div 2, v);
      best1 = (if snd best0 < br_f1 b then (br_m1 b, br_f1 b) else best0);
      best2 = (if snd best1 < br_f2 b then (br_m2 b, br_f2 b) else best1)
    in if 0 < snd best2 then Profitable (fst best2) (snd best2) else NoTrade (snd best2))"
    using assms(1) s(2) by (simp add: golden_pick_def Let_def split: if_splits)
  have "unat (br_lo b) + unat (br_hi b) \<le> 2 * unat mx"
    using assms(2) by (simp add: bracket_ok_def word_le_nat_alt)
  then have "unat (s div 2) \<le> unat mx" by (simp add: unat_div s(1))
  then have mid: "s div 2 \<le> mx" by (simp add: word_le_nat_alt)
  define a where "a = (if br_f2 b > max v (br_f1 b) then br_m2 b else if br_f1 b > v then br_m1 b else s div 2)"
  define w where "w = max (max v (br_f1 b)) (br_f2 b)"
  have "a \<le> mx \<and> f a = Ok w" using assms(2) mid s(2) by (auto simp: a_def w_def bracket_ok_def max_def)
  moreover have "r = (if 0 < w then Profitable a w else NoTrade w)"
    by (auto simp: r a_def w_def Let_def max_def)
  moreover have "br_f1 b \<le> w" "br_f2 b \<le> w" by (simp_all add: w_def)
  ultimately show ?thesis by blast
qed

lemma golden_search_sound:
  assumes "golden_search f mx = Ok r"
  shows "\<exists>a v. a \<le> mx \<and> f a = Ok v \<and> r = (if 0 < v then Profitable a v else NoTrade v)"
proof -
  obtain n0 n_max n_mid where n: "f 0 = Ok n0" "f mx = Ok n_max" "f (mx div 2) = Ok n_mid"
    using assms by (auto simp: golden_search_def bind_res_Ok_iff)
  have half: "mx div 2 \<le> mx" by (simp add: word_le_nat_alt unat_div)
  show ?thesis
  proof (cases "n0 \<le> 0 \<and> n_max \<le> 0 \<and> n_mid \<le> 0")
    case True
    then have "r = NoTrade (max (max n0 n_max) n_mid)" using assms n by (simp add: golden_search_def)
    moreover have "\<exists>a \<le> mx. f a = Ok (max (max n0 n_max) n_mid)"
      using n half word_zero_le [of mx] unfolding max_def by (metis order_refl)
    moreover have "\<not> 0 < max (max n0 n_max) n_mid" using True by (auto simp: max_def)
    ultimately show ?thesis by auto
  next
    case False
    have "sub_p mx 0 = (Ok mx :: (u128, sim_error) res)" by (simp add: sub_p_def)
    with False obtain off m1 m2 f1 f2 b where
      step: "phi_offset mx = Ok off" "add_p 0 off = (Ok m1 :: (u128, sim_error) res)"
        "sub_p mx off = (Ok m2 :: (u128, sim_error) res)" "f m1 = Ok f1" "f m2 = Ok f2"
      and loop: "golden_loop f MAX_ITERS (mx div 10000)
        \<lparr>br_lo = 0, br_hi = mx, br_m1 = m1, br_m2 = m2, br_f1 = f1, br_f2 = f2\<rparr> = Ok b"
      and pick: "golden_pick f b = Ok r"
      using assms n by (auto simp: golden_search_def bind_res_Ok_iff Let_def)
    have "m1 \<le> mx" "m2 \<le> mx"
      using step(2,3) phi_offset_le [OF step(1)] by (auto simp: op_p_iffs word_le_nat_alt)
    with step(4,5) have "bracket_ok f mx
        \<lparr>br_lo = 0, br_hi = mx, br_m1 = m1, br_m2 = m2, br_f1 = f1, br_f2 = f2\<rparr>"
      by (simp add: bracket_ok_def)
    from golden_pick_sound [OF pick golden_loop_ok [OF loop this]] show ?thesis by blast
  qed
qed

text \<open>
  Whatever the search returns is honest: a \<open>Profitable\<close> result names an input within
  the bound whose simulated net profit is exactly the reported one and positive, and a
  \<open>NoTrade\<close> result reports a non-positive net that some probed input within the bound has.
\<close>

theorem find_optimal_input_sound:
  assumes "find_optimal_input c reg cost mx = Ok r" and "mx \<noteq> 0"
  shows "\<exists>b a v. total_cost cost = Ok b \<and> a \<le> mx
    \<and> net_profit_at c reg (int (unat (total_lamports b))) a = Ok v
    \<and> r = (if 0 < v then Profitable a v else NoTrade v)"
proof -
  obtain b where b: "total_cost cost = Ok b"
    "golden_search (net_profit_at c reg (int (unat (total_lamports b)))) mx = Ok r"
    using assms by (auto simp: find_optimal_input_def bind_res_Ok_iff)
  from golden_search_sound [OF b(2)] b(1) show ?thesis by blast
qed

section \<open>Net profit through two constant-product pools\<close>

definition no_cost :: cost_model where
  "no_cost = \<lparr>n_signatures = 0, cu_limit = 0, cu_price_micro_lamports = 0, jito_tip_lamports = 0\<rparr>"

lemma int_unat_less: "unat a < 2 ^ n \<Longrightarrow> int (unat a) < 2 ^ n"
proof -
  assume "unat a < 2 ^ n"
  then have "int (unat a) < int (2 ^ n)" by (simp only: of_nat_less_iff)
  then show ?thesis by (simp only: of_nat_power of_nat_numeral)
qed

lemma net_in_range:
  fixes x y c :: int
  assumes "0 \<le> x" "x < 2 ^ 100" "0 \<le> y" "y < 2 ^ 100" "\<bar>c\<bar> < 2 ^ 100"
  shows "in_range 128 (x - y)" "in_range 128 (x - y - c)" "in_range 128 ((x - y - c) * 10000)"
  using assms by (auto simp: in_range_def smin_def smax_def)

lemma net_profit_at_eq:
  assumes "route_output reg (legs c) a = Ok b" and "length (legs c) \<le> 16"
    and "unat a < 2 ^ 100" and "unat b < 2 ^ 100" and "\<bar>costs\<bar> < 2 ^ 100"
  shows "net_profit_at c reg costs a = Ok (int (unat b) - int (unat a) - costs)"
proof -
  obtain f where f: "simulate_cycle c reg a = Ok f" "final_output f = b"
    using sample_route [OF assms(1,2)] by blast
  note r = net_in_range [OF of_nat_0_le_iff int_unat_less [OF assms(4)]
      of_nat_0_le_iff int_unat_less [OF assms(3)] assms(5)]
  have "unat a < 2 ^ 127" "unat b < 2 ^ 127"
    by (rule less_trans [OF assms(3)], simp, rule less_trans [OF assms(4)], simp)
  then have "as_i128 a = int (unat a)" "as_i128 b = int (unat b)" by (simp_all only: as_i128_small)
  then show ?thesis using r
    by (simp only: net_profit_at_def f range_p_def bind_res.simps if_True)
qed


lemma fill_constant_product_uniform:
  assumes "x \<noteq> 0" and "y \<noteq> 0" and "fee < MAX_FEE_BPS" and "unat x + unat a < 2 ^ 128"
  shows "fill_constant_product x y fee a
    = Ok (of_nat (cp_out (unat x) (unat y) (cp_dx (unat fee) (unat a))))"
proof -
  have "\<not> MAX_FEE_BPS \<le> fee" using assms(3) by simp
  moreover have "unat x + cp_dx (unat fee) (unat a) < 2 ^ 128"
    using assms(4) cp_dx_le [of "unat fee" "unat a"] by linarith
  moreover have "a = 0 \<Longrightarrow> cp_out (unat x) (unat y) (cp_dx (unat fee) (unat a)) = 0"
    by (simp add: cp_dx_def cp_out_def)
  ultimately show ?thesis using assms(1,2) by (simp only: fill_constant_product_spec if_False if_True disj_not1) auto
qed

definition arb_cycle :: cycle where
  "arb_cycle = cycle_through [leg_through 7 BaseToQuote, leg_through 8 BaseToQuote]"

definition arb_pools :: "u64 \<Rightarrow> u64 \<Rightarrow> u64 \<Rightarrow> u64 \<Rightarrow> pool_registry" where
  "arb_pools x1 y1 x2 y2 = registry_of [sample_pool 7 x1 y1 0 Raydium, sample_pool 8 x2 y2 0 Raydium]"

definition arb_net :: "nat \<Rightarrow> nat \<Rightarrow> nat \<Rightarrow> nat \<Rightarrow> nat \<Rightarrow> int" where
  "arb_net x1 y1 x2 y2 a = int (cp_out x2 y2 (cp_out x1 y1 a)) - int a"

lemma net_profit_at_arb:
  assumes "x1 \<noteq> 0" and "y1 \<noteq> 0" and "x2 \<noteq> 0" and "y2 \<noteq> 0" and "unat a < 2 ^ 100"
  shows "net_profit_at arb_cycle (arb_pools x1 y1 x2 y2) 0 a
    = Ok (arb_net (unat x1) (unat y1) (unat x2) (unat y2) (unat a))"
proof -
  have small: "unat x < 2 ^ 64" for x :: u64 using unat_bound [of x] by simp
  have up: "(ucast x :: u128) \<noteq> 0 \<longleftrightarrow> x \<noteq> 0" for x :: u64
    by (simp add: unat_eq_zero [symmetric] unat_ucast_up del: unat_eq_zero)
  define m where "m = cp_out (unat x1) (unat y1) (unat a)"
  define r where "r = cp_out (unat x2) (unat y2) m"
  have mr: "m < 2 ^ 64" "r < 2 ^ 64"
    unfolding m_def r_def using cp_out_le small by (blast intro: le_less_trans)+
  have mu: "unat (of_nat m :: u128) = m" and ru: "unat (of_nat r :: u128) = r"
    using mr by (simp_all add: unat_of_nat_fits less_trans)
  have f1: "fill_constant_product (ucast x1) (ucast y1) 0 a = Ok (of_nat m)"
    using assms small [of x1]
    by (subst fill_constant_product_uniform)
      (simp_all add: up MAX_FEE_BPS_def unat_ucast_up m_def cp_dx_def)
  have f2: "fill_constant_product (ucast x2) (ucast y2) 0 (of_nat m) = Ok (of_nat r)"
    using assms small [of x2] mr
    by (subst fill_constant_product_uniform)
      (simp_all add: up MAX_FEE_BPS_def unat_ucast_up r_def cp_dx_def mu)
  have "route_output (arb_pools x1 y1 x2 y2) (legs arb_cycle) a = Ok (of_nat r)"
    by (simp add: arb_cycle_def arb_pools_def leg_output_curve curve_of_def swap_reserves_def
        registry_get_two f1 f2)
  from net_profit_at_eq [OF this _ assms(5), of 0] mr show ?thesis
    by (simp add: arb_cycle_def ru arb_net_def m_def [symmetric] r_def [symmetric])
qed

lemmas golden_loop_numeral = golden_loop.simps(2) [of f "pred_numeral k" for f k, folded numeral_eq_Suc]

lemmas search_eval = net_profit_at_arb arb_net_def cp_out_def phi_offset_def INV_PHI_NUM_def
  INV_PHI_DEN_def mul_p_def div_p_def sub_p_def add_p_def

lemma no_cost_total: "\<exists>b. total_cost no_cost = Ok b \<and> unat (total_lamports b) = 0"
  using total_cost_cases [of no_cost] by (auto simp: cost_fits_def cost_nat_def no_cost_def)

lemma find_optimal_no_cost:
  assumes "mx \<noteq> 0"
  shows "find_optimal_input c reg no_cost mx = golden_search (net_profit_at c reg 0) mx"
proof -
  obtain b where "total_cost no_cost = Ok b" "unat (total_lamports b) = 0" using no_cost_total by blast
  then show ?thesis using assms by (simp add: find_optimal_input_def del: of_nat_unat unat_eq_zero)
qed

theorem find_optimal_input_sound_witness:
  "find_optimal_input arb_cycle (arb_pools 1000 900 1000 900) no_cost 100 = Ok (NoTrade 0)
    \<and> (\<exists>a \<le> (100 :: u128). net_profit_at arb_cycle (arb_pools 1000 900 1000 900) 0 a = Ok 0)"
proof -
  have run: "find_optimal_input arb_cycle (arb_pools 1000 900 1000 900) no_cost 100 = Ok (NoTrade 0)"
    by (simp add: find_optimal_no_cost golden_search_def search_eval cong: bind_res_weak_cong)
  obtain b0 where b0: "total_cost no_cost = Ok b0" "unat (total_lamports b0) = 0"
    using no_cost_total by blast
  have zero: "total_cost no_cost = Ok b \<Longrightarrow> int (unat (total_lamports b)) = 0" for b
    using b0 by simp
  from find_optimal_input_sound [OF run] obtain b a v where
    "total_cost no_cost = Ok b" "a \<le> (100 :: u128)"
    "net_profit_at arb_cycle (arb_pools 1000 900 1000 900) (int (unat (total_lamports b))) a = Ok v"
    "NoTrade 0 = (if 0 < v then Profitable a v else NoTrade v)" by auto
  then have "a \<le> 100 \<and> net_profit_at arb_cycle (arb_pools 1000 900 1000 900) 0 a = Ok 0"
    using zero by (auto split: if_splits)
  with run show ?thesis by blast
qed

text \<open>
  The search can panic on healthy input: with two pools of reserves 709/716 and
  728/889, no fees and no costs, every simulated net is in order, but the stale probe
  \<open>m1 > m2\<close> moves \<open>lo\<close> past \<open>hi\<close> and the unchecked \<^verbatim>\<open>hi - lo\<close> underflows.
\<close>

theorem find_optimal_input_underflows:
  "find_optimal_input arb_cycle (arb_pools 709 716 728 889) no_cost 17 = Panic
    \<and> net_profit_at arb_cycle (arb_pools 709 716 728 889) 0 0 = Ok 0
    \<and> net_profit_at arb_cycle (arb_pools 709 716 728 889) 0 17 = Ok 2"
proof -
  have "golden_search (net_profit_at arb_cycle (arb_pools 709 716 728 889) 0) 17 = Panic"
    by (simp add: golden_search_def search_eval MAX_ITERS_def golden_loop_numeral
        cong: bind_res_weak_cong)
  then show ?thesis by (simp add: find_optimal_no_cost search_eval)
qed

text \<open>
  The search does not return the best input. Where the net profit grows over the
  whole range it settles for 61.8 percent of the bound (net 530 at 6180, but 773 at the
  bound 10000), and \<open>NoTrade\<close>, documented as unprofitable at every input, is returned
  for a cycle that earns 1134 at 23320, because only three points are tried.
\<close>

theorem find_optimal_input_misses_optimum:
  "find_optimal_input arb_cycle (arb_pools 1000000 1100000 1000000 1000000) no_cost 10000
      = Ok (Profitable 6180 530)
    \<and> net_profit_at arb_cycle (arb_pools 1000000 1100000 1000000 1000000) 0 10000 = Ok 773
    \<and> find_optimal_input arb_cycle (arb_pools 1000000 1100000 1000000 1000000) no_cost 1000000
      = Ok (NoTrade 0)
    \<and> net_profit_at arb_cycle (arb_pools 1000000 1100000 1000000 1000000) 0 23320 = Ok 1134"
proof -
  have "golden_search (net_profit_at arb_cycle (arb_pools 1000000 1100000 1000000 1000000) 0) 10000
      = Ok (Profitable 6180 530)"
    by (simp add: golden_search_def golden_pick_def search_eval MAX_ITERS_def golden_loop_numeral
        cong: bind_res_weak_cong)
  moreover have "golden_search (net_profit_at arb_cycle (arb_pools 1000000 1100000 1000000 1000000) 0) 1000000
      = Ok (NoTrade 0)"
    by (simp add: golden_search_def search_eval cong: bind_res_weak_cong)
  ultimately show ?thesis by (simp add: find_optimal_no_cost search_eval)
qed

section \<open>The net-profit record\<close>

lemma clamp_trunc:
  "(if smax n < x then smax n else if x < smin n then smin n else x) = clamp_i n x"
  by (auto simp: clamp_i_def smin_def smax_def) (smt (verit) zero_less_power)

text \<open>
  For amounts below \<open>2^100\<close> and a cost that fits, the record is exact: its net is
  output minus input minus cost, it is flagged profitable exactly when that is positive,
  and its basis points are the truncated ratio clamped to 32 bits, which never have the
  opposite sign of the net.
\<close>

theorem from_optimal_exact:
  assumes "unat input < 2 ^ 100" and "unat gross < 2 ^ 100" and "cost_fits cost"
  shows "\<exists>r. from_optimal opt input gross cost = Ok r
    \<and> np_net_profit r = int (unat gross) - int (unat input) - int (cost_nat cost)
    \<and> (np_profitable r \<longleftrightarrow> unat input + cost_nat cost < unat gross)
    \<and> np_net_profit_bps r = (if input = 0 then 0
        else clamp_i 32 ((np_net_profit r * 10000) sdiv int (unat input)))
    \<and> (np_profitable r \<longrightarrow> 0 \<le> np_net_profit_bps r)
    \<and> (\<not> np_profitable r \<longrightarrow> np_net_profit_bps r \<le> 0)"
proof -
  obtain b where b: "total_cost cost = Ok b" "unat (total_lamports b) = cost_nat cost"
    using total_cost_cases [of cost] assms(3) by auto
  have c64: "cost_nat cost < 2 ^ 64" using assms(3) by (simp add: cost_fits_def)
  have lt: "int (unat input) < 2 ^ 100" "int (unat gross) < 2 ^ 100" "\<bar>int (cost_nat cost)\<bar> < 2 ^ 100"
    using int_unat_less [OF assms(1)] int_unat_less [OF assms(2)] c64 by (simp_all del: of_nat_unat)
  note rng = net_in_range [OF of_nat_0_le_iff lt(2) of_nat_0_le_iff lt(1) lt(3)]
  define net where "net = int (unat gross) - int (unat input) - int (cost_nat cost)"
  have cast: "as_i128 input = int (unat input)" "as_i128 gross = int (unat gross)"
    by (rule as_i128_small, rule less_trans [OF assms(1)], simp)
      (rule as_i128_small, rule less_trans [OF assms(2)], simp)
  have sat: "clamp_i 128 (net * 10000) = net * 10000"
    unfolding net_def by (rule clamp_i_id [OF rng(3)])
  have div_ok: "sdiv_p 128 (net * 10000) (int (unat input)) = (Ok ((net * 10000) sdiv int (unat input)) :: (int, sim_error) res)"
    if "input \<noteq> 0"
    using that by (simp add: sdiv_p_def unat_eq_zero del: of_nat_unat)
  define bps where "bps = (if input = 0 then 0 else clamp_i 32 ((net * 10000) sdiv int (unat input)))"
  have bps: "(if input = 0 then Ok 0
      else bind_res (sdiv_p 128 (net * 10000) (int (unat input))) (\<lambda>x. Ok (clamp_i 32 x)))
    = (Ok bps :: (i32, sim_error) res)"
    using div_ok by (cases "input = 0") (simp_all add: bps_def del: of_nat_unat)
  have run: "from_optimal opt input gross cost = Ok \<lparr>np_input_amount = input, np_gross_output = gross,
      np_total_costs = b, np_net_profit = net, np_net_profit_bps = bps, np_profitable = (0 < net)\<rparr>"
    using rng
    by (simp only: from_optimal_def b cast range_p_def bind_res.simps if_True clamp_trunc sat
        net_def [symmetric] bps)
  have pos: "0 < int (unat input)" if "input \<noteq> 0"
    using that by (simp add: unat_gt_0 del: of_nat_unat)
  have "0 \<le> bps" if "0 < net"
  proof (cases "input = 0")
    case False
    then have "0 \<le> (net * 10000) sdiv int (unat input)" using that by (intro sdiv_nonneg_iff pos) simp_all
    with False show ?thesis by (simp add: bps_def clamp_i_def smax_def smin_def del: of_nat_unat)
  qed (simp add: bps_def)
  moreover have "bps \<le> 0" if "\<not> 0 < net"
  proof (cases "input = 0")
    case False
    then have "(net * 10000) sdiv int (unat input) \<le> 0" using that by (intro sdiv_nonpos_iff pos) simp_all
    with False show ?thesis by (simp add: bps_def clamp_i_nonpos del: of_nat_unat)
  qed (simp add: bps_def)
  moreover have "0 < net \<longleftrightarrow> unat input + cost_nat cost < unat gross" unfolding net_def by linarith
  ultimately show ?thesis
    unfolding run res.inject ex_simps simp_thms
    by (simp add: bps_def net_def [symmetric] del: of_nat_unat)
qed

theorem from_optimal_exact_witness:
  "\<exists>r. from_optimal (Profitable 1000 90) 1000 1090 no_cost = Ok r \<and> np_net_profit r = 90
    \<and> np_net_profit_bps r = 900 \<and> np_profitable r"
proof -
  have "cost_fits no_cost" "cost_nat no_cost = 0"
    by (simp_all add: cost_fits_def cost_nat_def no_cost_def)
  with from_optimal_exact [of 1000 1090 no_cost "Profitable 1000 90"] show ?thesis
    by (auto simp: sdiv_nonneg clamp_i_def smax_def smin_def)
qed

end
