(* ===== verification/Rng.thy ===== *)
theory Rng
  imports Fixed
begin

text \<open>
  \<^verbatim>\<open>crates/dl-core/src/rng.rs\<close> and \<^verbatim>\<open>crates/dl-core/src/prob.rs\<close>: the SplitMix64
  generator, the bounded draw of the \<^verbatim>\<open>Rng\<close> trait, and the integer probabilities on the
  \<open>10^18\<close> scale. A generator is its \<^verbatim>\<open>next_u64\<close>, a function from its state to a value
  and the next state; the trait's provided methods take it as an argument.
\<close>

record seeded_rng =
  rng_state :: u64

definition seeded_new :: "u64 \<Rightarrow> seeded_rng" where
  "seeded_new seed = \<lparr>rng_state = seed\<rparr>"

definition next_u64 :: "seeded_rng \<Rightarrow> u64 \<times> seeded_rng" where
  "next_u64 r =
    (let st = rng_state r + 0x9E3779B97F4A7C15;
         z0 = st;
         z1 = (z0 XOR drop_bit 30 z0) * 0xBF58476D1CE4E5B9;
         z2 = (z1 XOR drop_bit 27 z1) * 0x94D049BB133111EB
     in (z2 XOR drop_bit 31 z2, r\<lparr>rng_state := st\<rparr>))"

definition next_below :: "('s \<Rightarrow> u64 \<times> 's) \<Rightarrow> u64 \<Rightarrow> 's \<Rightarrow> u64 \<times> 's" where
  "next_below gen bound s =
    (if bound = 0 then (0, s)
     else case gen s of
       (v, s') \<Rightarrow> (let x = (ucast v :: u128) in (ucast (drop_bit 64 (x * ucast bound)), s')))"

definition PROB_SCALE_1E18 :: u128 where
  "PROB_SCALE_1E18 = 1000000000000000000"

definition BPS_PER_UNIT :: u128 where
  "BPS_PER_UNIT = 10000"

definition next_prob :: "('s \<Rightarrow> u64 \<times> 's) \<Rightarrow> 's \<Rightarrow> u128 \<times> 's" where
  "next_prob gen s = (case next_below gen (ucast PROB_SCALE_1E18) s of (v, s') \<Rightarrow> (ucast v, s'))"

definition trial :: "('s \<Rightarrow> u64 \<times> 's) \<Rightarrow> u128 \<Rightarrow> 's \<Rightarrow> bool \<times> 's" where
  "trial gen p s =
    (if PROB_SCALE_1E18 \<le> p then (True, s)
     else if p = 0 then (False, s)
     else case next_prob gen s of (v, s') \<Rightarrow> (v < p, s'))"

text \<open>\<^verbatim>\<open>unwrap_or(0)\<close> on the result of \<open>mul_div_floor\<close>.\<close>

definition mul_prob :: "u128 \<Rightarrow> u128 \<Rightarrow> u128" where
  "mul_prob a b = (case mul_div_floor a b PROB_SCALE_1E18 of Ok q \<Rightarrow> q | Err e \<Rightarrow> 0 | Panic \<Rightarrow> 0)"

definition bps_to_prob :: "u32 \<Rightarrow> u128" where
  "bps_to_prob bps = ucast bps * (PROB_SCALE_1E18 div BPS_PER_UNIT)"

definition prob_ge :: "u128 \<Rightarrow> u128 \<Rightarrow> bool" where
  "prob_ge p threshold \<longleftrightarrow> threshold \<le> p"

section \<open>The generator is a bijection on its state\<close>

lemma shift_fixed_zero:
  fixes z :: u64
  assumes "z = drop_bit k z" and "0 < k"
  shows "z = 0"
proof (rule bit_eqI)
  fix n
  have step: "bit z i \<longleftrightarrow> bit z (i + k)" for i
    by (subst assms(1)) (simp only: bit_drop_bit_eq comp_apply add.commute)
  have iter: "bit z n \<longleftrightarrow> bit z (n + m * k)" for m
  proof (induction m)
    case (Suc m)
    then show ?case using step [of "n + m * k"] by (simp add: algebra_simps)
  qed simp
  have "64 \<le> n + 64 * k" using assms(2) by simp
  then have "\<not> bit z (n + 64 * k)" using bit_word_small [of z 64 "n + 64 * k"] unat_bound [of z] by simp
  then show "bit z n \<longleftrightarrow> bit 0 n" using iter [of 64] by simp
qed

lemma xorshift_inj:
  fixes x y :: u64
  assumes "x XOR drop_bit k x = y XOR drop_bit k y" and "0 < k"
  shows "x = y"
proof -
  have "x XOR y = drop_bit k (x XOR y)"
    using assms(1) by (metis (no_types, lifting) drop_bit_xor bit.xor_left_self xor.assoc xor.commute xor.left_commute)
  then have "x XOR y = 0" using assms(2) by (rule shift_fixed_zero)
  moreover have "x = (x XOR y) XOR y" by (simp add: xor.assoc)
  ultimately show ?thesis by simp
qed

lemma mult_unit_inj:
  fixes x y c d :: u64
  assumes "x * c = y * c" and "c * d = 1"
  shows "x = y"
proof -
  have "x * c * d = y * c * d" by (simp only: assms(1))
  then show ?thesis by (simp only: mult.assoc assms(2) mult_1_right)
qed

lemmas splitmix_inverses =
  mult_unit_inj [where c = "0xBF58476D1CE4E5B9" and d = "0x96DE1B173F119089"]
  mult_unit_inj [where c = "0x94D049BB133111EB" and d = "0x319642B2D24D8EC3"]

lemma next_u64_state_inj:
  assumes "fst (next_u64 r) = fst (next_u64 r')"
  shows "rng_state r = rng_state r'"
proof -
  have inv1: "(0xBF58476D1CE4E5B9 :: u64) * 0x96DE1B173F119089 = 1" by simp
  have inv2: "(0x94D049BB133111EB :: u64) * 0x319642B2D24D8EC3 = 1" by simp
  define z0 where "z0 s = rng_state s + 0x9E3779B97F4A7C15" for s :: seeded_rng
  define z1 where "z1 s = (z0 s XOR drop_bit 30 (z0 s)) * 0xBF58476D1CE4E5B9" for s :: seeded_rng
  define z2 where "z2 s = (z1 s XOR drop_bit 27 (z1 s)) * 0x94D049BB133111EB" for s :: seeded_rng
  have out: "fst (next_u64 s) = z2 s XOR drop_bit 31 (z2 s)" for s
    by (simp only: next_u64_def Let_def fst_conv z0_def z1_def z2_def)
  have "z2 r = z2 r'" by (rule xorshift_inj [where k = 31]) (use assms in \<open>simp_all only: out zero_less_numeral\<close>)
  then have "z1 r XOR drop_bit 27 (z1 r) = z1 r' XOR drop_bit 27 (z1 r')"
    unfolding z2_def by (rule mult_unit_inj [OF _ inv2])
  then have "z1 r = z1 r'" by (rule xorshift_inj) simp
  then have "z0 r XOR drop_bit 30 (z0 r) = z0 r' XOR drop_bit 30 (z0 r')"
    unfolding z1_def by (rule mult_unit_inj [OF _ inv1])
  then have "z0 r = z0 r'" by (rule xorshift_inj) simp
  then show ?thesis by (simp add: z0_def)
qed

fun draws :: "('s \<Rightarrow> 'a \<times> 's) \<Rightarrow> nat \<Rightarrow> 's \<Rightarrow> 'a list" where
  "draws gen 0 s = []"
| "draws gen (Suc n) s = (case gen s of (v, s') \<Rightarrow> v # draws gen n s')"

lemma rng_state_next [simp]:
  "rng_state (snd (next_u64 r)) = rng_state r + 0x9E3779B97F4A7C15"
  by (simp only: next_u64_def Let_def snd_conv) simp

lemma draws_nth:
  "i < n \<Longrightarrow> \<exists>r'. draws next_u64 n r ! i = fst (next_u64 r')
    \<and> rng_state r' = rng_state r + of_nat i * 0x9E3779B97F4A7C15"
proof (induction n arbitrary: r i)
  case (Suc n)
  show ?case
  proof (cases i)
    case 0
    then show ?thesis by (intro exI [of _ r]) (simp add: case_prod_beta)
  next
    case (Suc j)
    then have "j < n" using Suc.prems by simp
    from Suc.IH [OF this, of "snd (next_u64 r)"] Suc show ?thesis
      by (auto simp: case_prod_beta algebra_simps)
  qed
qed simp

lemma length_draws [simp]: "length (draws gen n s) = n"
  by (induction n arbitrary: s) (simp_all add: case_prod_beta)

text \<open>
  The generator repeats no output within its period: any \<open>n \<le> 2^64\<close> successive
  draws from one seed are pairwise different.
\<close>

theorem splitmix_draws_distinct:
  assumes "n \<le> 2 ^ 64"
  shows "distinct (draws next_u64 n (seeded_new seed))"
proof (unfold distinct_conv_nth, intro allI impI)
  fix i j
  assume ij: "i < length (draws next_u64 n (seeded_new seed))"
    "j < length (draws next_u64 n (seeded_new seed))" "i \<noteq> j"
  show "draws next_u64 n (seeded_new seed) ! i \<noteq> draws next_u64 n (seeded_new seed) ! j"
  proof
    assume eq: "draws next_u64 n (seeded_new seed) ! i = draws next_u64 n (seeded_new seed) ! j"
    have "of_nat i * (0x9E3779B97F4A7C15 :: u64) = of_nat j * 0x9E3779B97F4A7C15"
      using draws_nth [of i n "seeded_new seed"] draws_nth [of j n "seeded_new seed"] ij eq
      by (auto dest!: next_u64_state_inj)
    moreover have "(0x9E3779B97F4A7C15 :: u64) * 0xF1DE83E19937733D = 1" by simp
    ultimately have "(of_nat i :: u64) = of_nat j" by (rule mult_unit_inj)
    moreover have "i < 2 ^ LENGTH(64)" "j < 2 ^ LENGTH(64)" using ij assms by simp_all
    ultimately have "i = j" by (metis unat_of_nat_fits)
    with ij(3) show False by simp
  qed
qed

theorem splitmix_draws_distinct_witness: "distinct (draws next_u64 3 (seeded_new 42))"
  by (rule splitmix_draws_distinct) simp

section \<open>Bounded draws\<close>

lemma next_below_value:
  assumes "bound \<noteq> 0"
  shows "unat (fst (next_below gen bound s)) = unat (fst (gen s)) * unat bound div 2 ^ 64"
    and "snd (next_below gen bound s) = snd (gen s)"
proof -
  obtain v s' where gen: "gen s = (v, s')" by (cases "gen s")
  have less: "unat v * unat bound < 2 ^ 64 * 2 ^ 64"
    using unat_bound [of v] unat_bound [of bound] by (intro mult_strict_mono) auto
  have wide: "unat (ucast v * ucast bound :: u128) = unat v * unat bound"
    using less by (subst unat_mul_no_wrap) (simp_all add: unat_ucast_up)
  have "unat (drop_bit 64 (ucast v * ucast bound :: u128)) = unat v * unat bound div 2 ^ 64"
    by (simp only: unat_drop wide)
  moreover have "unat v * unat bound div 2 ^ 64 < 2 ^ LENGTH(64)"
    using less by (simp add: less_mult_imp_div_less)
  ultimately show "unat (fst (next_below gen bound s)) = unat (fst (gen s)) * unat bound div 2 ^ 64"
    using assms by (simp add: next_below_def gen Let_def unsigned_ucast_eq take_bit_nat_eq_self)
  show "snd (next_below gen bound s) = snd (gen s)"
    using assms by (simp add: next_below_def gen Let_def)
qed

lemma next_below_less:
  assumes "bound \<noteq> 0"
  shows "fst (next_below gen bound s) < bound"
proof -
  have "unat (fst (gen s)) * unat bound < 2 ^ 64 * unat bound"
    using unat_bound [of "fst (gen s)"] assms by (simp add: unat_gt_0)
  then show ?thesis
    by (simp add: word_less_nat_alt next_below_value(1) [OF assms] div_less_iff_less_mult mult.commute)
qed

lemma next_below_zero [simp]: "next_below gen 0 s = (0, s)"
  by (simp add: next_below_def)

lemma unat_PROB_SCALE [simp]: "unat PROB_SCALE_1E18 = 10 ^ 18"
  by (simp add: PROB_SCALE_1E18_def)

lemma PROB_SCALE_nonzero [simp]: "PROB_SCALE_1E18 \<noteq> 0"
  by (simp add: PROB_SCALE_1E18_def)

lemma next_prob_value:
  "unat (fst (next_prob gen s)) = unat (fst (gen s)) * 10 ^ 18 div 2 ^ 64"
  "snd (next_prob gen s) = snd (gen s)"
proof -
  have b: "(ucast PROB_SCALE_1E18 :: u64) \<noteq> 0" "unat (ucast PROB_SCALE_1E18 :: u64) = 10 ^ 18"
    by (simp_all add: PROB_SCALE_1E18_def)
  show "unat (fst (next_prob gen s)) = unat (fst (gen s)) * 10 ^ 18 div 2 ^ 64"
    by (simp add: next_prob_def case_prod_beta unat_ucast_up next_below_value(1) [OF b(1)] b(2))
  show "snd (next_prob gen s) = snd (gen s)"
    by (simp add: next_prob_def case_prod_beta next_below_value(2) [OF b(1)])
qed

lemma trial_iff:
  "fst (trial gen p s) \<longleftrightarrow> PROB_SCALE_1E18 \<le> p \<or> unat (fst (gen s)) * 10 ^ 18 < unat p * 2 ^ 64"
proof -
  have "unat (fst (gen s)) * 10 ^ 18 div 2 ^ 64 < unat p
      \<longleftrightarrow> unat (fst (gen s)) * 10 ^ 18 < unat p * 2 ^ 64"
    by (rule div_less_iff_less_mult) simp
  then show ?thesis
    by (auto simp: trial_def case_prod_beta word_less_nat_alt next_prob_value(1) unat_eq_zero)
qed

lemma card_words_below:
  assumes "k \<le> 2 ^ LENGTH('w)"
  shows "card {v :: 'w::len word. unat v < k} = k"
proof -
  have "{v :: 'w word. unat v < k} = of_nat ` {..<k}"
  proof (intro equalityI subsetI)
    fix v :: "'w word"
    assume "v \<in> {v. unat v < k}"
    then have "v = of_nat (unat v)" "unat v \<in> {..<k}" by simp_all
    then show "v \<in> of_nat ` {..<k}" by blast
  next
    fix v :: "'w word"
    assume "v \<in> of_nat ` {..<k}"
    then obtain n where "v = of_nat n" "n < k" by blast
    then show "v \<in> {v. unat v < k}" using assms by (simp add: unat_of_nat_fits)
  qed
  moreover have "inj_on (of_nat :: nat \<Rightarrow> 'w word) {..<k}"
    using assms by (intro inj_onI) (metis lessThan_iff order_less_le_trans unat_of_nat_fits)
  ultimately show ?thesis by (simp add: card_image)
qed

text \<open>
  A Bernoulli trial has exactly the success count its probability asks for: of the
  \<open>2^64\<close> values the generator can return, the trial succeeds on the least integer that
  is at least \<open>p / 10^18 * 2^64\<close> of them, so its bias is below \<open>2^-64\<close>.
\<close>

theorem trial_success_count:
  assumes "p \<le> PROB_SCALE_1E18"
  shows "card {v. fst (trial (\<lambda>s. (v, s)) p s)} = (unat p * 2 ^ 64 + (10 ^ 18 - 1)) div 10 ^ 18"
proof -
  define k where "k = (unat p * 2 ^ 64 + (10 ^ 18 - 1)) div 10 ^ 18"
  have p: "unat p \<le> 10 ^ 18" using assms by (simp add: word_le_nat_alt)
  have k_less: "v < k \<longleftrightarrow> v * 10 ^ 18 < unat p * 2 ^ 64" for v :: nat
    unfolding k_def by (simp add: less_eq_div_iff_mult_less_eq Suc_le_eq [symmetric] algebra_simps)
  have "fst (trial (\<lambda>s. (v, s)) p s) \<longleftrightarrow> unat v < k" for v :: u64
  proof (cases "p = PROB_SCALE_1E18")
    case True
    then show ?thesis using unat_bound [of v] by (simp add: trial_iff k_less)
  next
    case False
    then show ?thesis using assms by (simp add: trial_iff k_less)
  qed
  moreover have "k \<le> 2 ^ LENGTH(64)" using p unfolding k_def by simp
  ultimately have "card {v. fst (trial (\<lambda>s. (v, s)) p s)} = k" by (simp add: card_words_below)
  then show ?thesis by (simp only: k_def)
qed

theorem trial_success_count_witness:
  "card {v. fst (trial (\<lambda>s. (v, s)) (500000000000000000 :: u128) (seeded_new 7))} = 2 ^ 63"
  by (subst trial_success_count) (simp_all add: PROB_SCALE_1E18_def)

section \<open>Products of probabilities\<close>

lemma unat_mul_prob:
  "unat a * unat b div 10 ^ 18 < 2 ^ 128 \<Longrightarrow> unat (mul_prob a b) = unat a * unat b div 10 ^ 18"
  by (simp add: mul_prob_def mul_div_floor_cases unat_of_nat_fits)

lemma mul_prob_le:
  assumes "b \<le> PROB_SCALE_1E18"
  shows "unat (mul_prob a b) = unat a * unat b div 10 ^ 18" and "mul_prob a b \<le> a"
proof -
  have "unat a * unat b div 10 ^ 18 \<le> unat a * 10 ^ 18 div 10 ^ 18"
    using assms by (intro div_le_mono mult_le_mono2) (simp add: word_le_nat_alt)
  then have le: "unat a * unat b div 10 ^ 18 \<le> unat a" by simp
  then show eq: "unat (mul_prob a b) = unat a * unat b div 10 ^ 18"
    using unat_u128 [of a] by (intro unat_mul_prob) linarith
  show "mul_prob a b \<le> a" using le by (simp only: word_le_nat_alt eq)
qed

lemma mul_prob_mono:
  assumes "a \<le> a'" and "b \<le> b'" and "b' \<le> PROB_SCALE_1E18"
  shows "mul_prob a b \<le> mul_prob a' b'"
proof -
  have "b \<le> PROB_SCALE_1E18" using assms by simp
  then show ?thesis using assms
    by (simp only: word_le_nat_alt mul_prob_le(1)) (intro div_le_mono mult_le_mono)
qed

lemma mul_prob_zero [simp]: "mul_prob 0 b = 0" "mul_prob a 0 = 0"
  by (simp_all add: mul_prob_def mul_div_floor_cases)

lemma mul_prob_one [simp]: "mul_prob a PROB_SCALE_1E18 = a"
  by (rule word_unat_eq_iff [THEN iffD2]) (simp add: mul_prob_le(1))

lemma bps_to_prob_value: "unat (bps_to_prob bps) = unat bps * 10 ^ 14"
proof -
  have "unat bps * 10 ^ 14 < 2 ^ 128" using unat_bound [of bps] by simp
  then show ?thesis
    by (simp add: bps_to_prob_def PROB_SCALE_1E18_def BPS_PER_UNIT_def unat_ucast_up unat_mul_no_wrap)
qed

end
