(* ===== verification/Ev.thy ===== *)
theory Ev
  imports Sizing Rng
begin

text \<open>
  \<^verbatim>\<open>crates/dl-sim/src/ev.rs\<close>: the expected value of an opportunity, a net profit cut by
  the probabilities of detecting, winning and landing it, less the cost of failed
  attempts and the tip.
\<close>

definition PPM_ONE :: u32 where
  "PPM_ONE = 1000000"

definition JITO_AUCTION_MS :: u32 where
  "JITO_AUCTION_MS = 200"

definition JITO_TICK_MS :: u32 where
  "JITO_TICK_MS = 50"

section \<open>Probabilities\<close>

datatype prob = Prob (scaled: u128)

instantiation prob :: linorder
begin

definition less_eq_prob :: "prob \<Rightarrow> prob \<Rightarrow> bool" where
  "p \<le> q \<longleftrightarrow> scaled p \<le> scaled q"

definition less_prob :: "prob \<Rightarrow> prob \<Rightarrow> bool" where
  "p < q \<longleftrightarrow> scaled p < scaled q"

instance
  by intro_classes (auto simp: less_eq_prob_def less_prob_def prob.expand)

end

definition prob_ONE :: prob where
  "prob_ONE = Prob PROB_SCALE_1E18"

definition prob_ZERO :: prob where
  "prob_ZERO = Prob 0"

definition from_ppm :: "u32 \<Rightarrow> (prob, sim_error) res" where
  "from_ppm ppm =
    (if PPM_ONE < ppm then Err (ProbOutOfRange ppm)
     else bind_res (mul_p (ucast ppm) (PROB_SCALE_1E18 div ucast PPM_ONE)) (\<lambda>s. Ok (Prob s)))"

definition from_scaled_clamped :: "u128 \<Rightarrow> prob" where
  "from_scaled_clamped s = Prob (min s PROB_SCALE_1E18)"

definition to_ppm :: "prob \<Rightarrow> u32" where
  "to_ppm p = ucast (scaled p div (PROB_SCALE_1E18 div ucast PPM_ONE))"

definition combine :: "prob \<Rightarrow> prob \<Rightarrow> prob" where
  "combine p q = Prob (mul_prob (scaled p) (scaled q))"

text \<open>\<^verbatim>\<open>unsigned_abs\<close> of an \<^verbatim>\<open>i128\<close> and the negation of the cast back, which is unchecked.\<close>

definition apply_to :: "prob \<Rightarrow> i128 \<Rightarrow> (i128, sim_error) res" where
  "apply_to p v =
    (if v = 0 \<or> scaled p = 0 then Ok 0
     else
       let mag = of_nat (nat \<bar>v\<bar>);
           sc = mul_prob mag (scaled p)
       in if v < 0 then range_p 128 (- as_i128 sc) else Ok (as_i128 sc))"

text \<open>\<^verbatim>\<open>unwrap_or\<close> on the \<^verbatim>\<open>Result\<close> of \<^verbatim>\<open>from_ppm\<close>; a panic is not caught.\<close>

primrec unwrap_or :: "('a, 'e) res \<Rightarrow> 'a \<Rightarrow> ('a, 'f) res" where
  "unwrap_or (Ok v) d = Ok v"
| "unwrap_or (Err e) d = Ok d"
| "unwrap_or Panic d = Panic"

section \<open>Winning\<close>

record competition_params =
  base_win_ppm :: u32
  richness_threshold_bps :: i32
  decay_ppm_per_bps :: u32

definition competition_conservative :: competition_params where
  "competition_conservative =
    \<lparr>base_win_ppm = 300000, richness_threshold_bps = 10, decay_ppm_per_bps = 10000\<rparr>"

definition competition_optimistic :: competition_params where
  "competition_optimistic =
    \<lparr>base_win_ppm = PPM_ONE, richness_threshold_bps = smax 32, decay_ppm_per_bps = 0\<rparr>"

definition p_win :: "i32 \<Rightarrow> competition_params \<Rightarrow> (prob, sim_error) res" where
  "p_win bps ps =
    (if bps \<le> richness_threshold_bps ps
     then unwrap_or (from_ppm (min (base_win_ppm ps) PPM_ONE)) prob_ONE
     else bind_res (range_p 32 (bps - richness_threshold_bps ps)) (\<lambda>d.
       let excess = (of_int d :: u64);
           decay = sat_mul_w excess (ucast (decay_ppm_per_bps ps));
           win_ppm = (ucast (sat_sub_w (ucast (base_win_ppm ps)) decay :: u64) :: u32)
       in unwrap_or (from_ppm (min win_ppm PPM_ONE)) prob_ZERO))"

section \<open>Landing\<close>

record latency_budget =
  t_detect_ms :: u32
  t_decide_ms :: u32
  t_build_ms :: u32
  t_network_ms :: u32
  t_auction_ms :: u32

definition total_ms :: "latency_budget \<Rightarrow> u32" where
  "total_ms b = sat_add_w (sat_add_w (sat_add_w (sat_add_w (t_detect_ms b) (t_decide_ms b))
    (t_build_ms b)) (t_network_ms b)) (t_auction_ms b)"

definition latency_conservative :: latency_budget where
  "latency_conservative = \<lparr>t_detect_ms = 10, t_decide_ms = 5, t_build_ms = 5, t_network_ms = 30,
    t_auction_ms = JITO_AUCTION_MS\<rparr>"

definition latency_optimistic :: latency_budget where
  "latency_optimistic = \<lparr>t_detect_ms = 0, t_decide_ms = 0, t_build_ms = 0, t_network_ms = 0,
    t_auction_ms = 0\<rparr>"

record landing_params =
  grace_ms :: u32
  decay_ppm_per_ms :: u32

definition landing_conservative :: landing_params where
  "landing_conservative = \<lparr>grace_ms = JITO_TICK_MS, decay_ppm_per_ms = 2000\<rparr>"

definition landing_optimistic :: landing_params where
  "landing_optimistic = \<lparr>grace_ms = - 1, decay_ppm_per_ms = 0\<rparr>"

definition p_land :: "latency_budget \<Rightarrow> landing_params \<Rightarrow> (prob, sim_error) res" where
  "p_land b ps =
    (let tot = total_ms b in
     if tot \<le> grace_ms ps then Ok prob_ONE
     else bind_res (sub_p tot (grace_ms ps)) (\<lambda>d.
       let over = (ucast d :: u64);
           decay = sat_mul_w over (ucast (decay_ppm_per_ms ps));
           land_ppm = (ucast (sat_sub_w (ucast PPM_ONE) decay :: u64) :: u32)
       in unwrap_or (from_ppm (min land_ppm PPM_ONE)) prob_ZERO))"

section \<open>Failed attempts\<close>

datatype submit_path = Spam | JitoBundle

record failed_cost_model =
  attempts_per_win :: u32
  per_attempt_lamports :: u64
  submit_via :: submit_path

definition failed_conservative_spam :: failed_cost_model where
  "failed_conservative_spam =
    \<lparr>attempts_per_win = 24, per_attempt_lamports = 5000, submit_via = Spam\<rparr>"

definition failed_jito_bundle :: failed_cost_model where
  "failed_jito_bundle = \<lparr>attempts_per_win = 0, per_attempt_lamports = 0, submit_via = JitoBundle\<rparr>"

definition failed_optimistic :: failed_cost_model where
  "failed_optimistic = \<lparr>attempts_per_win = 0, per_attempt_lamports = 0, submit_via = JitoBundle\<rparr>"

definition expected_failed_cost :: "failed_cost_model \<Rightarrow> (u128, sim_error) res" where
  "expected_failed_cost m =
    (case submit_via m of
       JitoBundle \<Rightarrow> Ok 0
     | Spam \<Rightarrow> mul_p (ucast (attempts_per_win m)) (ucast (per_attempt_lamports m)))"

section \<open>The evaluation\<close>

record expected_value =
  e_pnl :: i128
  ev_p_detect :: prob
  ev_p_win :: prob
  ev_p_land :: prob
  ev_failed_cost :: u128
  ev_tip_lamports :: u64

record eval_params =
  ep_p_detect :: prob
  ep_competition :: competition_params
  ep_latency :: latency_budget
  ep_landing :: landing_params
  ep_failed :: failed_cost_model
  ep_tip_lamports :: u64

definition params_optimistic :: eval_params where
  "params_optimistic = \<lparr>ep_p_detect = prob_ONE, ep_competition = competition_optimistic,
    ep_latency = latency_optimistic, ep_landing = landing_optimistic,
    ep_failed = failed_optimistic, ep_tip_lamports = 0\<rparr>"

definition params_conservative :: "(eval_params, sim_error) res" where
  "params_conservative = bind_res (unwrap_or (from_ppm 700000) prob_ONE) (\<lambda>pd.
    Ok \<lparr>ep_p_detect = pd, ep_competition = competition_conservative,
      ep_latency = latency_conservative, ep_landing = landing_conservative,
      ep_failed = failed_conservative_spam, ep_tip_lamports = 0\<rparr>)"

definition params_conservative_with_tip :: "u64 \<Rightarrow> (eval_params, sim_error) res" where
  "params_conservative_with_tip tip = bind_res params_conservative (\<lambda>p. Ok (p\<lparr>ep_tip_lamports := tip\<rparr>))"

record eval_outcome =
  eo_optimistic :: expected_value
  eo_conservative :: expected_value

definition evaluate_one :: "net_profit_record \<Rightarrow> eval_params \<Rightarrow> (expected_value, sim_error) res" where
  "evaluate_one net ps =
    bind_res (p_win (np_net_profit_bps net) (ep_competition ps)) (\<lambda>pw.
    bind_res (p_land (ep_latency ps) (ep_landing ps)) (\<lambda>pl.
    let haircut = combine (combine (ep_p_detect ps) pw) pl in
    bind_res (apply_to haircut (np_net_profit net)) (\<lambda>haircut_pnl.
    bind_res (expected_failed_cost (ep_failed ps)) (\<lambda>failed_cost.
    let after_failed = clamp_i 128 (haircut_pnl - as_i128 failed_cost) in
    bind_res
      (if 0 < ep_tip_lamports ps then
         bind_res (mul_p (ucast (ep_tip_lamports ps)) (scaled haircut)) (\<lambda>t.
           let tip_cost = t div 1000000000000000000
           in Ok (clamp_i 128 (after_failed - as_i128 tip_cost)))
       else Ok after_failed) (\<lambda>after_tip.
    Ok \<lparr>e_pnl = after_tip, ev_p_detect = ep_p_detect ps, ev_p_win = pw, ev_p_land = pl,
        ev_failed_cost = failed_cost, ev_tip_lamports = ep_tip_lamports ps\<rparr>)))))"

definition evaluate ::
    "net_profit_record \<Rightarrow> eval_params \<Rightarrow> eval_params \<Rightarrow> (eval_outcome, sim_error) res" where
  "evaluate net optimistic conservative =
    bind_res (evaluate_one net optimistic) (\<lambda>o'.
    bind_res (evaluate_one net conservative) (\<lambda>c.
    Ok \<lparr>eo_optimistic = o', eo_conservative = c\<rparr>))"

section \<open>Probabilities stay between zero and one\<close>

definition prob_ok :: "prob \<Rightarrow> bool" where
  "prob_ok p \<longleftrightarrow> p \<le> prob_ONE"

lemma prob_ok_iff: "prob_ok p \<longleftrightarrow> unat (scaled p) \<le> 10 ^ 18"
  by (simp add: prob_ok_def less_eq_prob_def prob_ONE_def word_le_nat_alt)

lemma ppm_unit: "unat (PROB_SCALE_1E18 div ucast PPM_ONE) = 10 ^ 12"
  by (simp add: PROB_SCALE_1E18_def PPM_ONE_def unat_div)

lemma from_ppm_Ok:
  assumes "ppm \<le> PPM_ONE"
  shows "\<exists>p. from_ppm ppm = Ok p \<and> unat (scaled p) = unat ppm * 10 ^ 12 \<and> prob_ok p"
proof -
  have le: "unat ppm \<le> 1000000" using assms by (simp add: PPM_ONE_def word_le_nat_alt)
  have up: "unat (ucast ppm :: u128) = unat ppm" by (simp add: unat_ucast_up)
  define s where "s = (ucast ppm :: u128) * (PROB_SCALE_1E18 div ucast PPM_ONE)"
  have fits: "unat ppm * 10 ^ 12 < 2 ^ 128" using le by simp
  then have s: "unat s = unat ppm * 10 ^ 12"
    unfolding s_def by (subst unat_mul_no_wrap) (simp_all only: ppm_unit up, simp)
  have "mul_p (ucast ppm) (PROB_SCALE_1E18 div ucast PPM_ONE) = (Ok s :: (u128, sim_error) res)"
    by (simp only: mul_p_Ok_iff s up ppm_unit)
  then have "from_ppm ppm = Ok (Prob s)" using assms by (simp add: from_ppm_def not_less [symmetric])
  moreover have "prob_ok (Prob s)" using le by (simp add: prob_ok_iff s)
  ultimately show ?thesis using s by auto
qed

lemma unwrap_from_ppm:
  "\<exists>p. unwrap_or (from_ppm (min ppm PPM_ONE)) d = (Ok p :: (prob, 'e) res)
    \<and> unat (scaled p) = min (unat ppm) 1000000 * 10 ^ 12 \<and> prob_ok p"
proof -
  obtain p where p: "from_ppm (min ppm PPM_ONE) = Ok p"
    "unat (scaled p) = unat (min ppm PPM_ONE) * 10 ^ 12" "prob_ok p"
    using from_ppm_Ok [of "min ppm PPM_ONE"] by auto
  have "unat (min ppm PPM_ONE) = min (unat ppm) 1000000"
    by (simp add: min_def word_le_nat_alt PPM_ONE_def)
  with p show ?thesis by simp
qed

lemma combine_le:
  assumes "prob_ok q"
  shows "combine p q \<le> p" "unat (scaled (combine p q)) = unat (scaled p) * unat (scaled q) div 10 ^ 18"
  using assms mul_prob_le [of "scaled q" "scaled p"]
  by (simp_all add: combine_def less_eq_prob_def prob_ok_def prob_ONE_def)

lemma combine_ok: "prob_ok p \<Longrightarrow> prob_ok q \<Longrightarrow> prob_ok (combine p q)"
  using combine_le(1) [of q p] by (auto simp: prob_ok_def)

section \<open>The values on naturals\<close>

definition win_ppm_nat :: "i32 \<Rightarrow> competition_params \<Rightarrow> nat" where
  "win_ppm_nat bps ps = min (unat (base_win_ppm ps)
    - nat (bps - richness_threshold_bps ps) * unat (decay_ppm_per_bps ps)) 1000000"

definition land_ppm_nat :: "latency_budget \<Rightarrow> landing_params \<Rightarrow> nat" where
  "land_ppm_nat b ps = 1000000 - (unat (total_ms b) - unat (grace_ms ps)) * unat (decay_ppm_per_ms ps)"

text \<open>A saturating product taken from a 32-bit value by saturation is the plain difference.\<close>

lemma unat_decayed:
  fixes e :: u64 and d base :: u32
  shows "unat (ucast (sat_sub_w (ucast base) (sat_mul_w e (ucast d)) :: u64) :: u32)
    = unat base - unat e * unat d"
proof -
  have b: "unat base < 2 ^ 32" using unat_bound [of base] by simp
  have up: "unat (ucast base :: u64) = unat base" "unat (ucast d :: u64) = unat d"
    by (simp_all add: unat_ucast_up)
  have v: "unat (sat_sub_w (ucast base) (sat_mul_w e (ucast d)) :: u64) = unat base - unat e * unat d"
    using b by (simp add: unat_sat_sub_w unat_sat_mul_w up min_def)
  moreover have "unat base - unat e * unat d < 2 ^ 32" using b by linarith
  ultimately show ?thesis by (simp add: unsigned_ucast_eq take_bit_nat_eq_self)
qed

lemma p_win_eq:
  assumes "bps - richness_threshold_bps ps \<le> smax 32"
  shows "\<exists>p. p_win bps ps = Ok p \<and> unat (scaled p) = win_ppm_nat bps ps * 10 ^ 12 \<and> prob_ok p"
proof (cases "bps \<le> richness_threshold_bps ps")
  case True
  then show ?thesis
    using unwrap_from_ppm [of "base_win_ppm ps" prob_ONE] by (simp add: p_win_def win_ppm_nat_def)
next
  case False
  define d where "d = bps - richness_threshold_bps ps"
  have d: "0 < d" "d < 2 ^ 31" using False assms by (simp_all add: d_def smax_def)
  then have "range_p 32 d = (Ok d :: (int, sim_error) res)" by (simp add: range_p_def in_range_def smin_def smax_def)
  moreover have "unat (of_int d :: u64) = nat d"
    using d by (simp add: unat_eq_nat_uint uint_word_of_int)
  then have "unat (ucast (sat_sub_w (ucast (base_win_ppm ps))
      (sat_mul_w (of_int d) (ucast (decay_ppm_per_bps ps))) :: u64) :: u32)
      = unat (base_win_ppm ps) - nat d * unat (decay_ppm_per_bps ps)"
    by (simp only: unat_decayed)
  ultimately show ?thesis
    using False unwrap_from_ppm [of "ucast (sat_sub_w (ucast (base_win_ppm ps))
      (sat_mul_w (of_int d) (ucast (decay_ppm_per_bps ps))) :: u64)" prob_ZERO]
    by (simp only: p_win_def win_ppm_nat_def d_def [symmetric] Let_def bind_res.simps if_False)
qed

lemma p_land_eq:
  "\<exists>p. p_land b ps = Ok p \<and> unat (scaled p) = land_ppm_nat b ps * 10 ^ 12 \<and> prob_ok p"
proof (cases "total_ms b \<le> grace_ms ps")
  case True
  then show ?thesis
    by (simp add: p_land_def land_ppm_nat_def prob_ok_def prob_ONE_def word_le_nat_alt)
next
  case False
  define d where "d = total_ms b - grace_ms ps"
  have d: "unat d = unat (total_ms b) - unat (grace_ms ps)"
    unfolding d_def using False by (intro unat_sub_no_wrap) simp
  have "sub_p (total_ms b) (grace_ms ps) = (Ok d :: (u32, sim_error) res)"
    using False by (simp add: sub_p_def d_def)
  moreover have "unat (ucast (sat_sub_w (ucast PPM_ONE)
      (sat_mul_w (ucast d) (ucast (decay_ppm_per_ms ps))) :: u64) :: u32) = land_ppm_nat b ps"
    by (simp only: unat_decayed) (simp add: unat_ucast_up d land_ppm_nat_def PPM_ONE_def)
  moreover have "min (land_ppm_nat b ps) 1000000 = land_ppm_nat b ps" by (simp add: land_ppm_nat_def)
  ultimately show ?thesis
    using False unwrap_from_ppm [of "ucast (sat_sub_w (ucast PPM_ONE)
      (sat_mul_w (ucast d) (ucast (decay_ppm_per_ms ps))) :: u64)" prob_ZERO]
    by (simp only: p_land_def Let_def bind_res.simps if_False)
qed

lemma apply_to_eq:
  assumes "prob_ok p" and "\<bar>v\<bar> < 2 ^ 127"
  shows "apply_to p v = Ok ((v * int (unat (scaled p))) sdiv 10 ^ 18)"
proof (cases "v = 0 \<or> scaled p = 0")
  case False
  define m where "m = nat \<bar>v\<bar>"
  have m: "m < 2 ^ 127" "0 < m" "int m = \<bar>v\<bar>" using assms(2) False by (auto simp: m_def nat_less_iff)
  then have mu: "unat (of_nat m :: u128) = m" by (simp add: unat_of_nat_fits)
  define sc where "sc = mul_prob (of_nat m) (scaled p)"
  have le: "scaled p \<le> PROB_SCALE_1E18" using assms(1) by (simp add: prob_ok_def prob_ONE_def less_eq_prob_def)
  have sc: "unat sc = m * unat (scaled p) div 10 ^ 18" "unat sc \<le> m"
    using mul_prob_le [OF le, of "of_nat m"] by (simp_all only: sc_def mu word_le_nat_alt)
  then have cast: "as_i128 sc = int (m * unat (scaled p) div 10 ^ 18)"
    using m(1) by (simp only: as_i128_small le_less_trans)
  have pos: "int (m * unat (scaled p) div 10 ^ 18) = (\<bar>v\<bar> * int (unat (scaled p))) div 10 ^ 18"
    by (simp only: of_nat_div of_nat_mult of_nat_power of_nat_numeral m(3))
  have rng: "in_range 128 (- as_i128 sc)"
  proof -
    have "int (unat sc) \<le> int m" using sc(2) by (simp only: of_nat_le_iff)
    then have "as_i128 sc \<le> int m" "0 \<le> as_i128 sc" using sc(1) cast by simp_all
    with m(1) show ?thesis by (simp add: in_range_def smin_def smax_def)
  qed
  have ap: "apply_to p v = (if v < 0 then range_p 128 (- as_i128 sc) else Ok (as_i128 sc))"
    using False by (simp only: apply_to_def m_def [symmetric] sc_def [symmetric] Let_def if_False)
  show ?thesis
  proof (cases "v < 0")
    case True
    then have "(v * int (unat (scaled p))) sdiv 10 ^ 18 = - ((\<bar>v\<bar> * int (unat (scaled p))) div 10 ^ 18)"
      by (subst sdiv_nonpos) (simp_all add: mult_nonpos_nonneg del: of_nat_unat)
    with True rng show ?thesis by (simp only: ap range_p_def if_True cast pos)
  next
    case nonneg: False
    then have "(v * int (unat (scaled p))) sdiv 10 ^ 18 = (\<bar>v\<bar> * int (unat (scaled p))) div 10 ^ 18"
      by (subst sdiv_nonneg) (simp_all del: of_nat_unat)
    with nonneg show ?thesis by (simp only: ap if_False cast pos)
  qed
qed (auto simp: apply_to_def signed_divide_int_def)

section \<open>The expected value\<close>

definition haircut_nat :: "i32 \<Rightarrow> eval_params \<Rightarrow> nat" where
  "haircut_nat bps ps =
    (unat (scaled (ep_p_detect ps)) * (win_ppm_nat bps (ep_competition ps) * 10 ^ 12) div 10 ^ 18)
      * (land_ppm_nat (ep_latency ps) (ep_landing ps) * 10 ^ 12) div 10 ^ 18"

definition failed_nat :: "failed_cost_model \<Rightarrow> nat" where
  "failed_nat m = (case submit_via m of JitoBundle \<Rightarrow> 0
    | Spam \<Rightarrow> unat (attempts_per_win m) * unat (per_attempt_lamports m))"

definition pnl_spec :: "net_profit_record \<Rightarrow> eval_params \<Rightarrow> int" where
  "pnl_spec net ps =
    (let h = haircut_nat (np_net_profit_bps net) ps
     in clamp_i 128 (clamp_i 128 ((np_net_profit net * int h) sdiv 10 ^ 18 - int (failed_nat (ep_failed ps)))
          - int (unat (ep_tip_lamports ps) * h div 10 ^ 18)))"

text \<open>What the evaluation needs of its inputs in order not to panic.\<close>

definition eval_ready :: "net_profit_record \<Rightarrow> eval_params \<Rightarrow> bool" where
  "eval_ready net ps \<longleftrightarrow> prob_ok (ep_p_detect ps) \<and> \<bar>np_net_profit net\<bar> < 2 ^ 127
    \<and> np_net_profit_bps net - richness_threshold_bps (ep_competition ps) \<le> smax 32"

lemma expected_failed_cost_eq:
  "\<exists>c. expected_failed_cost m = Ok c \<and> unat c = failed_nat m \<and> as_i128 c = int (failed_nat m)"
proof (cases "submit_via m")
  case Spam
  define c where "c = (ucast (attempts_per_win m) * ucast (per_attempt_lamports m) :: u128)"
  have up: "unat (ucast (attempts_per_win m) :: u128) = unat (attempts_per_win m)"
    "unat (ucast (per_attempt_lamports m) :: u128) = unat (per_attempt_lamports m)"
    by (simp_all add: unat_ucast_up)
  have "unat (attempts_per_win m) * unat (per_attempt_lamports m) < 2 ^ 32 * 2 ^ 64"
    using unat_bound [of "attempts_per_win m"] unat_bound [of "per_attempt_lamports m"]
    by (intro mult_strict_mono) simp_all
  then have lt: "unat (attempts_per_win m) * unat (per_attempt_lamports m) < 2 ^ 96" by simp
  then have c: "unat c = unat (attempts_per_win m) * unat (per_attempt_lamports m)"
    unfolding c_def by (subst unat_mul_no_wrap) (simp_all add: up)
  then have "mul_p (ucast (attempts_per_win m)) (ucast (per_attempt_lamports m)) = (Ok c :: (u128, sim_error) res)"
    by (simp add: mul_p_Ok_iff up)
  moreover have "as_i128 c = int (unat c)"
    using lt by (intro as_i128_small) (simp only: c, simp)
  ultimately show ?thesis
    using Spam by (simp add: expected_failed_cost_def failed_nat_def c del: of_nat_unat)
qed (simp add: expected_failed_cost_def failed_nat_def as_i128_def)

lemma tip_cost_eq:
  fixes tip :: u64
  assumes "unat h \<le> 10 ^ 18"
  shows "\<exists>t. mul_p (ucast tip) h = (Ok t :: (u128, sim_error) res)
    \<and> as_i128 (t div 1000000000000000000) = int (unat tip * unat h div 10 ^ 18)"
proof -
  have up: "unat (ucast tip :: u128) = unat tip" by (simp add: unat_ucast_up)
  have tip: "unat tip < 2 ^ 64" using unat_bound [of tip] by simp
  then have "unat tip * unat h \<le> 2 ^ 64 * 10 ^ 18" using assms by (intro mult_le_mono) simp_all
  then have lt: "unat tip * unat h < 2 ^ 126" by (rule le_less_trans) simp
  define t where "t = (ucast tip :: u128) * h"
  have t: "unat t = unat tip * unat h"
    unfolding t_def using lt by (subst unat_mul_no_wrap) (simp_all add: up)
  have d: "unat (t div 1000000000000000000) = unat tip * unat h div 10 ^ 18" by (simp add: unat_div t)
  have "unat tip * unat h div 10 ^ 18 < 2 ^ 127"
    by (rule le_less_trans [OF div_le_dividend less_trans [OF lt]]) simp
  then have "as_i128 (t div 1000000000000000000) = int (unat tip * unat h div 10 ^ 18)"
    by (metis as_i128_small d)
  moreover have "mul_p (ucast tip) h = (Ok t :: (u128, sim_error) res)" by (simp add: mul_p_Ok_iff t up)
  ultimately show ?thesis by blast
qed

lemma evaluate_one_run:
  assumes "eval_ready net ps"
  shows "\<exists>ev. evaluate_one net ps = Ok ev \<and> e_pnl ev = pnl_spec net ps
    \<and> prob_ok (ev_p_win ev) \<and> prob_ok (ev_p_land ev) \<and> unat (ev_failed_cost ev) = failed_nat (ep_failed ps)"
proof -
  define bps where "bps = np_net_profit_bps net"
  have ok: "prob_ok (ep_p_detect ps)" and mag: "\<bar>np_net_profit net\<bar> < 2 ^ 127"
    and thr: "bps - richness_threshold_bps (ep_competition ps) \<le> smax 32"
    using assms by (simp_all add: eval_ready_def bps_def)
  obtain pw where pw: "p_win bps (ep_competition ps) = Ok pw"
    "unat (scaled pw) = win_ppm_nat bps (ep_competition ps) * 10 ^ 12" "prob_ok pw"
    using p_win_eq [OF thr] by blast
  obtain pl where pl: "p_land (ep_latency ps) (ep_landing ps) = Ok pl"
    "unat (scaled pl) = land_ppm_nat (ep_latency ps) (ep_landing ps) * 10 ^ 12" "prob_ok pl"
    using p_land_eq by blast
  define h where "h = combine (combine (ep_p_detect ps) pw) pl"
  have h: "unat (scaled h) = haircut_nat bps ps" "prob_ok h"
    by (simp_all only: h_def haircut_nat_def combine_le(2) [OF pl(3)] combine_le(2) [OF pw(3)] pw(2) pl(2)
        combine_ok ok pw(3) pl(3))
  obtain c where c: "expected_failed_cost (ep_failed ps) = Ok c" "unat c = failed_nat (ep_failed ps)"
    "as_i128 c = int (failed_nat (ep_failed ps))" using expected_failed_cost_eq by blast
  obtain t where t: "mul_p (ucast (ep_tip_lamports ps)) (scaled h) = (Ok t :: (u128, sim_error) res)"
    "as_i128 (t div 1000000000000000000) = int (unat (ep_tip_lamports ps) * haircut_nat bps ps div 10 ^ 18)"
    using tip_cost_eq [of "scaled h" "ep_tip_lamports ps"] h by (auto simp: prob_ok_iff)
  have no_tip: "\<not> 0 < ep_tip_lamports ps \<Longrightarrow> unat (ep_tip_lamports ps) = 0"
    by (simp add: word_less_nat_alt)
  have "evaluate_one net ps = Ok \<lparr>e_pnl = pnl_spec net ps, ev_p_detect = ep_p_detect ps, ev_p_win = pw,
      ev_p_land = pl, ev_failed_cost = c, ev_tip_lamports = ep_tip_lamports ps\<rparr>"
    using no_tip
    by (cases "0 < ep_tip_lamports ps")
      (simp_all add: evaluate_one_def bps_def [symmetric] pw(1) pl(1) c(1,3) h_def [symmetric] Let_def
        apply_to_eq [OF h(2) mag] h(1) t pnl_spec_def clamp_i_id [OF in_range_clamp] del: of_nat_unat)
  then show ?thesis using pw(3) pl(3) c(2) by simp
qed

lemma haircut_le_one:
  assumes "prob_ok (ep_p_detect ps)"
  shows "haircut_nat bps ps \<le> 10 ^ 18"
proof -
  have w: "win_ppm_nat bps (ep_competition ps) * 10 ^ 12 \<le> 10 ^ 18" by (simp add: win_ppm_nat_def)
  have l: "land_ppm_nat (ep_latency ps) (ep_landing ps) * 10 ^ 12 \<le> 10 ^ 18" by (simp add: land_ppm_nat_def)
  define a where "a = unat (scaled (ep_p_detect ps)) * (win_ppm_nat bps (ep_competition ps) * 10 ^ 12) div 10 ^ 18"
  have "a \<le> 10 ^ 18 * 10 ^ 18 div 10 ^ 18"
    unfolding a_def using assms w by (intro div_le_mono mult_le_mono) (simp_all only: prob_ok_iff)
  then have "a * (land_ppm_nat (ep_latency ps) (ep_landing ps) * 10 ^ 12) div 10 ^ 18 \<le> 10 ^ 18 * 10 ^ 18 div 10 ^ 18"
    using l by (intro div_le_mono mult_le_mono) simp_all
  then show ?thesis by (simp add: haircut_nat_def a_def)
qed

lemma cut_bounds:
  fixes v :: int
  assumes "h \<le> 10 ^ 18"
  shows "0 \<le> v \<Longrightarrow> 0 \<le> (v * int h) sdiv 10 ^ 18 \<and> (v * int h) sdiv 10 ^ 18 \<le> v"
    and "v \<le> 0 \<Longrightarrow> (v * int h) sdiv 10 ^ 18 \<le> 0"
proof -
  assume v: "0 \<le> v"
  have "int h \<le> 10 ^ 18" using assms by simp
  then have "v * int h \<le> v * 10 ^ 18" using v by (rule mult_left_mono)
  then have "(v * int h) sdiv 10 ^ 18 \<le> (v * 10 ^ 18) sdiv 10 ^ 18" by (rule sdiv_mono) simp
  also have "\<dots> = v" using v by (simp add: sdiv_nonneg)
  finally show "0 \<le> (v * int h) sdiv 10 ^ 18 \<and> (v * int h) sdiv 10 ^ 18 \<le> v"
    using v by (simp add: sdiv_nonneg_iff)
next
  assume "v \<le> 0"
  then show "(v * int h) sdiv 10 ^ 18 \<le> 0" by (intro sdiv_nonpos_iff) (simp_all add: mult_nonpos_nonneg)
qed

lemma pnl_spec_le:
  assumes "eval_ready net ps"
  shows "pnl_spec net ps \<le> max 0 (np_net_profit net)"
proof -
  define v where "v = np_net_profit net"
  define h where "h = haircut_nat (np_net_profit_bps net) ps"
  have h: "h \<le> 10 ^ 18" unfolding h_def using assms by (intro haircut_le_one) (simp add: eval_ready_def)
  have "(v * int h) sdiv 10 ^ 18 \<le> max 0 v" using cut_bounds [OF h, of v] by linarith
  moreover have rng: "in_range 128 (max 0 v)"
    using assms by (auto simp: eval_ready_def v_def in_range_def smin_def smax_def)
  ultimately have "clamp_i 128 ((v * int h) sdiv 10 ^ 18 - int (failed_nat (ep_failed ps))) \<le> max 0 v"
    by (subst clamp_i_id [OF rng, symmetric]) (intro clamp_i_mono, linarith)
  then show ?thesis
    by (subst clamp_i_id [OF rng [unfolded v_def], symmetric])
      (simp only: pnl_spec_def Let_def h_def v_def, intro clamp_i_mono, linarith)
qed

lemma optimistic_ready:
  assumes "\<bar>np_net_profit net\<bar> < 2 ^ 127" and "in_range 32 (np_net_profit_bps net)"
  shows "eval_ready net params_optimistic" and "pnl_spec net params_optimistic = np_net_profit net"
proof -
  have bps: "np_net_profit_bps net \<le> 2147483647" using assms(2) by (simp add: in_range_def smax_def)
  then show ready: "eval_ready net params_optimistic"
    using assms(1) by (simp add: eval_ready_def params_optimistic_def competition_optimistic_def
        prob_ok_def smax_def)
  have h: "haircut_nat (np_net_profit_bps net) params_optimistic = 10 ^ 18"
    using bps by (simp add: haircut_nat_def params_optimistic_def win_ppm_nat_def land_ppm_nat_def prob_ONE_def
        competition_optimistic_def landing_optimistic_def latency_optimistic_def PPM_ONE_def smax_def)
  have "in_range 128 (np_net_profit net)" using assms(1) by (auto simp: in_range_def smin_def smax_def)
  moreover have "(v * 10 ^ 18) sdiv 10 ^ 18 = v" for v :: int
    by (cases "0 \<le> v") (simp_all add: sdiv_nonneg sdiv_nonpos)
  ultimately show "pnl_spec net params_optimistic = np_net_profit net"
    by (simp only: pnl_spec_def Let_def h of_nat_power of_nat_numeral)
      (simp add: clamp_i_id params_optimistic_def failed_nat_def failed_optimistic_def)
qed

text \<open>
  The expected value is total and exact on every input whose net fits and whose
  richness difference does not overflow 32 bits: the net profit cut by the product of the
  three probabilities, rounded towards zero, less the failed-attempt cost and the tip
  times that same product; the reported probabilities are at most one.
\<close>

theorem evaluate_one_exact:
  assumes "eval_ready net ps"
  shows "\<exists>ev. evaluate_one net ps = Ok ev \<and> e_pnl ev = pnl_spec net ps
    \<and> prob_ok (ev_p_win ev) \<and> prob_ok (ev_p_land ev) \<and> unat (ev_failed_cost ev) = failed_nat (ep_failed ps)"
  using assms by (rule evaluate_one_run)

definition sample_net :: "int \<Rightarrow> net_profit_record" where
  "sample_net v = \<lparr>np_input_amount = 1000, np_gross_output = 0,
    np_total_costs = \<lparr>cb_base_sig_fee = 0, cb_priority_fee = 0, cb_jito_tip = 0, cb_jito_tip_fee = 0,
      total_lamports = 0\<rparr>, np_net_profit = v, np_net_profit_bps = 5, np_profitable = 0 < v\<rparr>"

definition half_chance :: eval_params where
  "half_chance = params_optimistic\<lparr>ep_p_detect := Prob 500000000000000000, ep_failed := failed_jito_bundle\<rparr>"

lemma half_chance_ready: "\<bar>v\<bar> < 2 ^ 127 \<Longrightarrow> eval_ready (sample_net v) half_chance"
  by (simp add: eval_ready_def sample_net_def half_chance_def params_optimistic_def
      competition_optimistic_def prob_ok_iff smax_def)

lemma half_chance_pnl: "pnl_spec (sample_net v) half_chance
    = clamp_i 128 ((v * 500000000000000000) sdiv 1000000000000000000)"
  by (simp add: pnl_spec_def sample_net_def half_chance_def haircut_nat_def params_optimistic_def
      win_ppm_nat_def land_ppm_nat_def competition_optimistic_def landing_optimistic_def
      latency_optimistic_def PPM_ONE_def smax_def failed_nat_def failed_jito_bundle_def
      clamp_i_id [OF in_range_clamp])

theorem evaluate_one_exact_witness:
  "\<exists>ev. evaluate_one (sample_net 1000) half_chance = Ok ev \<and> e_pnl ev = 500"
  using evaluate_one_exact [OF half_chance_ready [of 1000]]
  by (auto simp: half_chance_pnl sdiv_nonneg clamp_i_def smax_def smin_def)

lemma evaluate_run:
  assumes "eval_ready net ps" and "in_range 32 (np_net_profit_bps net)"
  shows "\<exists>out. evaluate net params_optimistic ps = Ok out
    \<and> e_pnl (eo_optimistic out) = np_net_profit net
    \<and> e_pnl (eo_conservative out) \<le> max 0 (e_pnl (eo_optimistic out))"
proof -
  have "\<bar>np_net_profit net\<bar> < 2 ^ 127" using assms(1) by (simp add: eval_ready_def)
  note opt = optimistic_ready [OF this assms(2)]
  from evaluate_one_run [OF opt(1)] evaluate_one_run [OF assms(1)] obtain ev ev' where
    "evaluate_one net params_optimistic = Ok ev" "e_pnl ev = np_net_profit net"
    "evaluate_one net ps = Ok ev'" "e_pnl ev' = pnl_spec net ps" using opt(2) by auto
  then show ?thesis using pnl_spec_le [OF assms(1)] by (simp add: evaluate_def)
qed

text \<open>
  Against the shipped optimistic assumptions the two bounds are ordered for every
  non-losing opportunity: the optimistic value is the net profit itself and the
  conservative one is at most that; and a cycle that does not profit never has a positive
  conservative value.
\<close>

theorem evaluate_bounds:
  assumes "eval_ready net ps" and "in_range 32 (np_net_profit_bps net)"
  shows "\<exists>out. evaluate net params_optimistic ps = Ok out
    \<and> e_pnl (eo_optimistic out) = np_net_profit net
    \<and> e_pnl (eo_conservative out) \<le> max 0 (e_pnl (eo_optimistic out))"
  using evaluate_run [OF assms] .

theorem evaluate_bounds_witness:
  "\<exists>out. evaluate (sample_net 1000) params_optimistic half_chance = Ok out
    \<and> e_pnl (eo_conservative out) \<le> max 0 (e_pnl (eo_optimistic out)) \<and> e_pnl (eo_optimistic out) = 1000"
  using evaluate_bounds [OF half_chance_ready [of 1000]]
  by (auto simp: sample_net_def in_range_def smin_def smax_def)

text \<open>
  For a losing opportunity the documented order of the bounds fails: with a 50
  percent detection chance on the bundle path, a loss of 1000 is valued at -500 by the
  conservative bound and at -1000 by the optimistic one.
\<close>

theorem evaluate_losing_bounds_cross:
  "\<exists>out. evaluate (sample_net (- 1000)) params_optimistic half_chance = Ok out
    \<and> e_pnl (eo_conservative out) = - 500 \<and> e_pnl (eo_optimistic out) = - 1000"
proof -
  have net: "np_net_profit (sample_net (- 1000)) = - 1000" "np_net_profit_bps (sample_net (- 1000)) = 5"
    by (simp_all add: sample_net_def)
  have "\<bar>np_net_profit (sample_net (- 1000))\<bar> < 2 ^ 127" "in_range 32 (np_net_profit_bps (sample_net (- 1000)))"
    by (simp_all add: net in_range_def smin_def smax_def)
  note opt = optimistic_ready [OF this]
  have "pnl_spec (sample_net (- 1000)) half_chance = - 500"
    by (simp add: half_chance_pnl sdiv_nonpos clamp_i_def smax_def smin_def)
  with evaluate_one_run [OF opt(1)] evaluate_one_run [OF half_chance_ready [of "- 1000"]] opt(2) net
  show ?thesis by (auto simp: evaluate_def)
qed

text \<open>
  The winner's curse and the latency haircut point the right way: a richer
  opportunity is never more likely to be won, and a slower one never more likely to land.
\<close>

theorem win_and_land_antitone:
  assumes "bps \<le> bps'" and "bps' - richness_threshold_bps cp \<le> smax 32" and "total_ms b \<le> total_ms b'"
  shows "\<exists>w w' l l'. p_win bps cp = Ok w \<and> p_win bps' cp = Ok w' \<and> w' \<le> w
    \<and> p_land b lp = Ok l \<and> p_land b' lp = Ok l' \<and> l' \<le> l"
proof -
  have "bps - richness_threshold_bps cp \<le> smax 32" using assms by linarith
  from p_win_eq [OF this] p_win_eq [OF assms(2)] p_land_eq [of b lp] p_land_eq [of b' lp]
  obtain w w' l l' where v: "p_win bps cp = Ok w" "unat (scaled w) = win_ppm_nat bps cp * 10 ^ 12"
    "p_win bps' cp = Ok w'" "unat (scaled w') = win_ppm_nat bps' cp * 10 ^ 12"
    "p_land b lp = Ok l" "unat (scaled l) = land_ppm_nat b lp * 10 ^ 12"
    "p_land b' lp = Ok l'" "unat (scaled l') = land_ppm_nat b' lp * 10 ^ 12" by blast
  have "nat (bps - richness_threshold_bps cp) * unat (decay_ppm_per_bps cp)
      \<le> nat (bps' - richness_threshold_bps cp) * unat (decay_ppm_per_bps cp)"
    using assms(1) by (intro mult_le_mono1) simp
  then have "win_ppm_nat bps' cp \<le> win_ppm_nat bps cp"
    unfolding win_ppm_nat_def by (intro min.mono diff_le_mono2 order_refl)
  then have "w' \<le> w" by (simp add: less_eq_prob_def word_le_nat_alt v)
  moreover have "(unat (total_ms b) - unat (grace_ms lp)) * unat (decay_ppm_per_ms lp)
      \<le> (unat (total_ms b') - unat (grace_ms lp)) * unat (decay_ppm_per_ms lp)"
    using assms(3) by (intro mult_le_mono1 diff_le_mono) (simp add: word_le_nat_alt)
  then have "land_ppm_nat b' lp \<le> land_ppm_nat b lp"
    unfolding land_ppm_nat_def by (rule diff_le_mono2)
  then have "l' \<le> l" by (simp add: less_eq_prob_def word_le_nat_alt v)
  ultimately show ?thesis using v by blast
qed

theorem win_and_land_antitone_witness:
  "\<exists>w w'. p_win 5 competition_conservative = Ok w \<and> p_win 25 competition_conservative = Ok w' \<and> w' \<le> w"
proof -
  have "25 - richness_threshold_bps competition_conservative \<le> smax 32"
    by (simp add: competition_conservative_def smax_def)
  from win_and_land_antitone [OF _ this order_refl, of 5 latency_optimistic landing_optimistic]
  show ?thesis by auto
qed

end
