(* ===== verification/Graph.thy ===== *)
theory Graph
  imports Simulate "HOL-Library.Multiset"
begin

text \<open>
  \<^verbatim>\<open>crates/dl-detect/src/graph.rs\<close>, \<^verbatim>\<open>error.rs\<close>, \<^verbatim>\<open>staleness.rs\<close> and the forward-fill
  helper of \<^verbatim>\<open>cycle.rs\<close>: the price graph, its construction from pools, and the pruning
  of the edges of stale pools.
\<close>

datatype detect_error =
    EmptyGraph
  | UnknownToken u32
  | DetectPoolNotFound pubkey
  | InvalidMath math_error
  | SimulationMismatch u128

primrec detect_from_sim :: "sim_error \<Rightarrow> detect_error" where
  "detect_from_sim (Math e) = InvalidMath e"
| "detect_from_sim (PoolNotFound pk) = DetectPoolNotFound pk"
| "detect_from_sim (ProbOutOfRange n) = SimulationMismatch 0"
| "detect_from_sim ZeroReserve = SimulationMismatch 0"
| "detect_from_sim (FeeTooHigh f) = SimulationMismatch 0"
| "detect_from_sim (CycleTooLong n) = SimulationMismatch 0"

definition simulate_through_pools :: "cycle \<Rightarrow> pool_registry \<Rightarrow> u128 \<Rightarrow> (u128, detect_error) res" where
  "simulate_through_pools c reg input =
    bind_res (map_err detect_from_sim (simulate_cycle c reg input)) (\<lambda>f. Ok (final_output f))"

section \<open>The graph\<close>

definition ONE_1E18 :: u128 where
  "ONE_1E18 = 1000000000000000000"

datatype token_id = TokenId (token_num: u32)

record edge =
  edge_from :: token_id
  edge_to :: token_id
  edge_weight :: i64
  edge_pool :: pubkey
  is_base_to_quote :: bool
  dex_id :: amm_kind

record graph =
  tokens :: "pubkey list"
  token_index :: "u8 list \<rightharpoonup> token_id"
  edges :: "edge list"

definition graph_new :: graph where
  "graph_new = \<lparr>tokens = [], token_index = Map.empty, edges = []\<rparr>"

definition n_tokens :: "graph \<Rightarrow> usize" where
  "n_tokens g = length (tokens g)"

definition n_edges :: "graph \<Rightarrow> usize" where
  "n_edges g = length (edges g)"

definition lookup_token :: "graph \<Rightarrow> u8 list \<Rightarrow> token_id option" where
  "lookup_token g mint = token_index g mint"

definition intern_token :: "graph \<Rightarrow> pubkey \<Rightarrow> token_id \<times> graph" where
  "intern_token g mint =
    (case token_index g (key_bytes mint) of
       Some i \<Rightarrow> (i, g)
     | None \<Rightarrow>
         let i = TokenId (of_nat (length (tokens g)))
         in (i, g\<lparr>token_index := (token_index g)(key_bytes mint \<mapsto> i), tokens := tokens g @ [mint]\<rparr>))"

definition push_edge :: "graph \<Rightarrow> edge \<Rightarrow> graph" where
  "push_edge g e = g\<lparr>edges := edges g @ [e]\<rparr>"

text \<open>\<^verbatim>\<open>debug_assert!(fee_bps <= 10_000)\<close> panics in the profile with assertions.\<close>

definition fee_multiplier_1e18 :: "u16 \<Rightarrow> (u128, detect_error) res" where
  "fee_multiplier_1e18 fee =
    (if 10000 < fee then Panic
     else Ok (sat_sub_w ONE_1E18 (sat_mul_w (ucast fee) 100000000000000)))"

definition effective_rate_1e18 :: "u64 \<Rightarrow> u64 \<Rightarrow> u128 \<Rightarrow> (u128, detect_error) res" where
  "effective_rate_1e18 other_reserve this_reserve fee_mult =
    (if this_reserve = 0 then Err (InvalidMath DivByZero)
     else bind_res (map_err InvalidMath (mul_div_floor (ucast other_reserve) ONE_1E18 (ucast this_reserve)))
       (\<lambda>rate_no_fee. map_err InvalidMath (mul_div_floor rate_no_fee fee_mult ONE_1E18)))"

definition weight_from_rate :: "u128 \<Rightarrow> (i64, detect_error) res" where
  "weight_from_rate rate =
    bind_res (range_p 128 (as_i128 ONE_1E18 - as_i128 rate)) (\<lambda>diff. Ok (clamp_i 64 diff))"

definition add_pool :: "graph \<Rightarrow> pool \<Rightarrow> (graph, detect_error) res" where
  "add_pool g p =
    (case intern_token g (base_mint p) of (base_id, g1) \<Rightarrow>
     case intern_token g1 (quote_mint p) of (quote_id, g2) \<Rightarrow>
     bind_res (fee_multiplier_1e18 (fee_bps p)) (\<lambda>fee_mult.
     bind_res (effective_rate_1e18 (quote_reserve p) (base_reserve p) fee_mult) (\<lambda>rate_b2q.
     bind_res (effective_rate_1e18 (base_reserve p) (quote_reserve p) fee_mult) (\<lambda>rate_q2b.
     bind_res (weight_from_rate rate_b2q) (\<lambda>w1.
     let g3 = push_edge g2 \<lparr>edge_from = base_id, edge_to = quote_id, edge_weight = w1,
           edge_pool = address p, is_base_to_quote = True, dex_id = kind p\<rparr> in
     bind_res (weight_from_rate rate_q2b) (\<lambda>w2.
     Ok (push_edge g3 \<lparr>edge_from = quote_id, edge_to = base_id, edge_weight = w2,
           edge_pool = address p, is_base_to_quote = False, dex_id = kind p\<rparr>)))))))"

fun add_pools :: "graph \<Rightarrow> pool list \<Rightarrow> (graph, detect_error) res" where
  "add_pools g [] = Ok g"
| "add_pools g (p # ps) = bind_res (add_pool g p) (\<lambda>g'. add_pools g' ps)"

definition build_from_pools :: "pool list \<Rightarrow> (graph, detect_error) res" where
  "build_from_pools ps = (if ps = [] then Err EmptyGraph else add_pools graph_new ps)"

section \<open>Stale pools\<close>

definition DEFAULT_MAX_POOL_AGE_SLOTS :: u64 where
  "DEFAULT_MAX_POOL_AGE_SLOTS = 50"

record stale_edge_drop =
  drop_pool :: pubkey
  drop_edge_index :: usize
  drop_last_update_slot :: u64
  drop_age_slots :: u64

record prune_report =
  dropped :: "stale_edge_drop list"
  edges_remaining :: usize
  pools_consulted :: usize

definition n_dropped :: "prune_report \<Rightarrow> usize" where
  "n_dropped r = length (dropped r)"

definition pool_index :: "pool list \<Rightarrow> u8 list \<rightharpoonup> pool" where
  "pool_index ps = map_of (rev (map (\<lambda>p. (key_bytes (address p), p)) ps))"

definition stale_drop :: "pool list \<Rightarrow> u64 \<Rightarrow> u64 \<Rightarrow> usize \<times> edge \<Rightarrow> stale_edge_drop option" where
  "stale_drop ps now max_age = (\<lambda>(i, e).
    (case pool_index ps (key_bytes (edge_pool e)) of
       None \<Rightarrow> None
     | Some p \<Rightarrow>
         let age = sat_sub_w now (last_update_slot p) in
         if max_age < age
         then Some \<lparr>drop_pool = address p, drop_edge_index = i,
           drop_last_update_slot = last_update_slot p, drop_age_slots = age\<rparr>
         else None))"

text \<open>\<^verbatim>\<open>Vec::swap_remove\<close>: the last element takes the place of the removed one.\<close>

definition swap_remove :: "'a list \<Rightarrow> usize \<Rightarrow> ('a list, 'e) res" where
  "swap_remove xs i = (if i < length xs then Ok (butlast (xs[i := last xs])) else Panic)"

fun remove_all :: "edge list \<Rightarrow> usize list \<Rightarrow> (edge list, detect_error) res" where
  "remove_all es [] = Ok es"
| "remove_all es (i # is) = bind_res (swap_remove es i) (\<lambda>es'. remove_all es' is)"

text \<open>
  The counter \<^verbatim>\<open>STALE_EDGES_PRUNED_TOTAL\<close>, an atomic that wraps, is part of the state.
\<close>

definition prune_stale_edges ::
    "graph \<Rightarrow> pool list \<Rightarrow> u64 \<Rightarrow> u64 \<Rightarrow> u64 \<Rightarrow> (prune_report \<times> graph \<times> u64, detect_error) res" where
  "prune_stale_edges g ps now max_age counter =
    (let report = \<lparr>dropped = [], edges_remaining = length (edges g), pools_consulted = length ps\<rparr> in
     if max_age = 0 then Ok (report, g, counter)
     else
       let to_drop = List.map_filter (stale_drop ps now max_age) (enumerate 0 (edges g)) in
       if to_drop = [] then Ok (report, g, counter)
       else bind_res (remove_all (edges g) (map drop_edge_index (rev to_drop))) (\<lambda>es.
         Ok (report\<lparr>dropped := sort_key drop_edge_index to_drop, edges_remaining := length es\<rparr>,
             g\<lparr>edges := es\<rparr>, counter + of_nat (length to_drop))))"

section \<open>Rates and weights\<close>

definition rate_nat :: "nat \<Rightarrow> nat \<Rightarrow> nat \<Rightarrow> nat" where
  "rate_nat other this fee = (other * 10 ^ 18 div this) * (10 ^ 18 - fee * 10 ^ 14) div 10 ^ 18"

lemma unat_ONE_1E18 [simp]: "unat ONE_1E18 = 10 ^ 18"
  by (simp add: ONE_1E18_def)

lemma ONE_1E18_nonzero [simp]: "ONE_1E18 \<noteq> 0"
  by (simp add: ONE_1E18_def)

lemma fee_multiplier_value:
  "fee_multiplier_1e18 fee = Ok m \<Longrightarrow> unat m = 10 ^ 18 - unat fee * 10 ^ 14 \<and> unat fee \<le> 10000"
  using unat_bound [of fee]
  by (auto simp: fee_multiplier_1e18_def unat_sat_sub_w unat_sat_mul_w unat_ucast_up
      word_less_nat_alt word_le_nat_alt not_less split: if_splits)

lemma rate_nat_le: "rate_nat other this fee \<le> other * 10 ^ 18"
proof -
  have "rate_nat other this fee \<le> (other * 10 ^ 18 div this) * 10 ^ 18 div 10 ^ 18"
    unfolding rate_nat_def by (intro div_le_mono mult_le_mono2) simp
  also have "\<dots> \<le> other * 10 ^ 18" by simp
  finally show ?thesis .
qed

lemma rate_u64_bound: "rate_nat (unat (other :: u64)) this fee < 2 ^ 126"
proof -
  have "unat other < 2 ^ 64" using unat_bound [of other] by simp
  then have "unat other * 10 ^ 18 \<le> 2 ^ 64 * 10 ^ 18" by simp
  then have "unat other * 10 ^ 18 < 2 ^ 126" by simp
  then show ?thesis using rate_nat_le le_less_trans by blast
qed

lemma effective_rate_value:
  assumes "unat fm = 10 ^ 18 - fee * 10 ^ 14"
  shows "effective_rate_1e18 other this fm =
    (if this = 0 then Err (InvalidMath DivByZero)
     else Ok (of_nat (rate_nat (unat other) (unat this) fee)))"
proof (cases "this = 0")
  case False
  have up: "unat (ucast other :: u128) = unat other" "unat (ucast this :: u128) = unat this"
    by (simp_all add: unat_ucast_up)
  have nz: "(ucast this :: u128) \<noteq> 0" using False up(2) by (metis unat_0 unat_eq_zero)
  have le: "unat other * 10 ^ 18 div unat this \<le> unat other * 10 ^ 18" by (rule div_le_dividend)
  have "unat other * 10 ^ 18 \<le> 2 ^ 64 * 10 ^ 18" using unat_bound [of other] by simp
  with le have "unat other * 10 ^ 18 div unat this \<le> 2 ^ 64 * 10 ^ 18" by (rule le_trans)
  then have lt: "unat other * 10 ^ 18 div unat this < 2 ^ 128" by (rule le_less_trans) simp
  define r where "r = (of_nat (unat other * 10 ^ 18 div unat this) :: u128)"
  have ru: "unat r = unat other * 10 ^ 18 div unat this"
    unfolding r_def using lt by (intro unat_of_nat_fits) simp
  have "mul_div_floor (ucast other) ONE_1E18 (ucast this) = Ok r"
    unfolding r_def using nz lt by (simp add: mul_div_floor_cases up)
  moreover have "rate_nat (unat other) (unat this) fee < 2 ^ 128"
    using rate_u64_bound [of other "unat this" fee] by (rule less_trans) simp
  then have "mul_div_floor r fm ONE_1E18 = Ok (of_nat (rate_nat (unat other) (unat this) fee))"
    by (simp add: mul_div_floor_cases ru assms rate_nat_def)
  ultimately show ?thesis using False by (simp add: effective_rate_1e18_def)
qed (simp add: effective_rate_1e18_def)

definition weight_spec :: "nat \<Rightarrow> int" where
  "weight_spec rate = clamp_i 64 (10 ^ 18 - int rate)"

lemma weight_from_rate_value:
  assumes "rate < 2 ^ 126"
  shows "weight_from_rate (of_nat rate) = Ok (weight_spec rate)"
proof -
  have "unat (of_nat rate :: u128) = rate" using assms by (intro unat_of_nat_fits) simp
  then have "as_i128 (of_nat rate :: u128) = int rate" using assms as_i128_small [of "of_nat rate"] by simp
  moreover have "as_i128 ONE_1E18 = 10 ^ 18" by (subst as_i128_small) simp_all
  moreover have "in_range 128 (10 ^ 18 - int rate)"
    using assms by (simp add: in_range_def smin_def smax_def)
  ultimately show ?thesis by (simp add: weight_from_rate_def range_p_def weight_spec_def)
qed

lemma weight_spec_sign: "weight_spec r < 0 \<longleftrightarrow> 10 ^ 18 < r" "0 < weight_spec r \<longleftrightarrow> r < 10 ^ 18"
  by (auto simp: weight_spec_def clamp_i_def smin_def smax_def)

section \<open>The built graph\<close>

definition edge_of :: "pubkey list \<Rightarrow> pool \<Rightarrow> bool \<Rightarrow> edge \<Rightarrow> bool" where
  "edge_of toks p b e \<longleftrightarrow>
    (unat (token_num (edge_from e)) < length toks \<and> unat (token_num (edge_to e)) < length toks
     \<and> toks ! unat (token_num (edge_from e)) = (if b then base_mint p else quote_mint p)
     \<and> toks ! unat (token_num (edge_to e)) = (if b then quote_mint p else base_mint p)
     \<and> edge_pool e = address p \<and> is_base_to_quote e = b \<and> dex_id e = kind p
     \<and> edge_weight e = weight_spec (if b
         then rate_nat (unat (quote_reserve p)) (unat (base_reserve p)) (unat (fee_bps p))
         else rate_nat (unat (base_reserve p)) (unat (quote_reserve p)) (unat (fee_bps p))))"

definition graph_wf :: "graph \<Rightarrow> bool" where
  "graph_wf g \<longleftrightarrow> distinct (tokens g) \<and> length (tokens g) \<le> 2 ^ 32
    \<and> (\<forall>k i. token_index g k = Some i \<longleftrightarrow>
        unat (token_num i) < length (tokens g) \<and> key_bytes (tokens g ! unat (token_num i)) = k)
    \<and> (\<forall>e \<in> set (edges g). unat (token_num (edge_from e)) < length (tokens g)
        \<and> unat (token_num (edge_to e)) < length (tokens g))"

lemma edge_of_append: "edge_of toks p b e \<Longrightarrow> edge_of (toks @ new) p b e"
  by (auto simp: edge_of_def nth_append)

lemma graph_wf_new: "graph_wf graph_new"
  by (simp add: graph_wf_def graph_new_def)

lemma graph_wf_index:
  "graph_wf g \<Longrightarrow> token_index g k = Some i \<longleftrightarrow>
    unat (token_num i) < length (tokens g) \<and> key_bytes (tokens g ! unat (token_num i)) = k"
  by (simp add: graph_wf_def)

lemma intern_token_wf:
  assumes "graph_wf g" and "length (tokens g) < 2 ^ 32" and "intern_token g m = (i, g')"
  shows "graph_wf g' \<and> edges g' = edges g
      \<and> (\<exists>new. tokens g' = tokens g @ new \<and> length new \<le> 1 \<and> set new \<subseteq> {m})
      \<and> unat (token_num i) < length (tokens g') \<and> tokens g' ! unat (token_num i) = m"
proof (cases "token_index g (key_bytes m)")
  case (Some j)
  then have "unat (token_num j) < length (tokens g)" "tokens g ! unat (token_num j) = m"
    using assms(1) by (auto simp: graph_wf_def intro: pubkey.expand)
  with Some assms(1,3) show ?thesis
    by (auto simp: intern_token_def)
next
  case None
  define n where "n = length (tokens g)"
  have i: "i = TokenId (of_nat n)" and g': "tokens g' = tokens g @ [m]" "edges g' = edges g"
    "token_index g' = (token_index g)(key_bytes m \<mapsto> i)"
    using None assms(3) by (auto simp: intern_token_def Let_def n_def)
  have iu: "unat (token_num i) = n" using assms(2) by (simp add: i n_def unat_of_nat_fits)
  have fresh: "m \<notin> set (tokens g)"
  proof
    assume "m \<in> set (tokens g)"
    then obtain j where j: "j < n" "tokens g ! j = m" by (auto simp: in_set_conv_nth n_def)
    then have "unat (of_nat j :: u32) = j" using assms(2) by (intro unat_of_nat_fits) (simp add: n_def)
    with j have "token_index g (key_bytes m) = Some (TokenId (of_nat j))"
      by (simp add: graph_wf_index [OF assms(1)] n_def)
    with None show False by simp
  qed
  have index: "token_index g' k = Some j \<longleftrightarrow> unat (token_num j) < length (tokens g')
      \<and> key_bytes (tokens g' ! unat (token_num j)) = k" for k j
  proof (cases "unat (token_num j) = n")
    case True
    then have "j = i" using iu by (metis token_id.expand word_unat_eq_iff)
    moreover have "token_index g k \<noteq> Some i" for k using assms(1) iu by (auto simp: graph_wf_def n_def)
    ultimately show ?thesis using True by (auto simp: g' nth_append n_def)
  next
    case False
    then have "j \<noteq> i" using iu by auto
    moreover have "token_index g (key_bytes m) \<noteq> Some j" using None by simp
    moreover have "token_index g k = Some j \<longleftrightarrow> unat (token_num j) < n
        \<and> key_bytes (tokens g ! unat (token_num j)) = k"
      using assms(1) by (simp add: graph_wf_def n_def)
    ultimately show ?thesis using False fresh
      by (auto simp: g' nth_append n_def less_Suc_eq in_set_conv_nth pubkey.expand)
  qed
  then have "graph_wf g'"
    using assms(1,2) fresh by (fastforce simp: graph_wf_def g' n_def)
  then show ?thesis
    by (simp add: g' iu n_def)
qed

lemma push_edge_wf:
  assumes "graph_wf g" and "unat (token_num (edge_from e)) < length (tokens g)"
    and "unat (token_num (edge_to e)) < length (tokens g)"
  shows "graph_wf (push_edge g e)"
  using assms by (auto simp: graph_wf_def push_edge_def)

lemma push_edge_sel [simp]:
  "tokens (push_edge g e) = tokens g" "edges (push_edge g e) = edges g @ [e]"
  by (simp_all add: push_edge_def)

definition pool_edges :: "pubkey list \<Rightarrow> pool \<Rightarrow> edge list \<Rightarrow> bool" where
  "pool_edges toks p es \<longleftrightarrow> (\<exists>e1 e2. es = [e1, e2] \<and> edge_of toks p True e1 \<and> edge_of toks p False e2)"

lemma pool_edges_append: "pool_edges toks p es \<Longrightarrow> pool_edges (toks @ new) p es"
  by (auto simp: pool_edges_def edge_of_append)

lemma add_pool_wf:
  assumes "graph_wf g" and "length (tokens g) + 2 \<le> 2 ^ 32" and "add_pool g p = Ok g'"
  shows "graph_wf g' \<and> (\<exists>new. tokens g' = tokens g @ new \<and> length new \<le> 2 \<and> set new \<subseteq> {base_mint p, quote_mint p})
    \<and> (\<exists>es. edges g' = edges g @ es \<and> pool_edges (tokens g') p es)
    \<and> {base_mint p, quote_mint p} \<subseteq> set (tokens g') \<and> base_reserve p \<noteq> 0 \<and> quote_reserve p \<noteq> 0"
proof -
  obtain i1 g1 where g1: "intern_token g (base_mint p) = (i1, g1)" by (cases "intern_token g (base_mint p)")
  obtain i2 g2 where g2: "intern_token g1 (quote_mint p) = (i2, g2)" by (cases "intern_token g1 (quote_mint p)")
  from intern_token_wf [OF assms(1) _ g1] assms(2) obtain n1 where
    w1: "graph_wf g1" "edges g1 = edges g" "tokens g1 = tokens g @ n1" "length n1 \<le> 1" "set n1 \<subseteq> {base_mint p}"
      "unat (token_num i1) < length (tokens g1)" "tokens g1 ! unat (token_num i1) = base_mint p" by auto
  have "length (tokens g1) < 2 ^ 32" using w1(3,4) assms(2) by simp
  from intern_token_wf [OF w1(1) this g2] obtain n2 where
    w2: "graph_wf g2" "edges g2 = edges g1" "tokens g2 = tokens g1 @ n2" "length n2 \<le> 1" "set n2 \<subseteq> {quote_mint p}"
      "unat (token_num i2) < length (tokens g2)" "tokens g2 ! unat (token_num i2) = quote_mint p" by auto
  have t1: "unat (token_num i1) < length (tokens g2)" "tokens g2 ! unat (token_num i1) = base_mint p"
    using w1(6,7) by (simp_all add: w2(3) nth_append)
  from assms(3) obtain fm where fm: "fee_multiplier_1e18 (fee_bps p) = Ok fm"
    by (auto simp: add_pool_def g1 g2 bind_res_Ok_iff)
  note fmv = fee_multiplier_value [OF fm, THEN conjunct1]
  let ?r1 = "rate_nat (unat (quote_reserve p)) (unat (base_reserve p)) (unat (fee_bps p))"
  let ?r2 = "rate_nat (unat (base_reserve p)) (unat (quote_reserve p)) (unat (fee_bps p))"
  have nz: "base_reserve p \<noteq> 0" "quote_reserve p \<noteq> 0"
    using assms(3) by (auto simp: add_pool_def g1 g2 fm effective_rate_value [OF fmv] bind_res_Ok_iff split: if_splits)
  define e1 where "e1 = \<lparr>edge_from = i1, edge_to = i2, edge_weight = weight_spec ?r1,
    edge_pool = address p, is_base_to_quote = True, dex_id = kind p\<rparr>"
  define e2 where "e2 = \<lparr>edge_from = i2, edge_to = i1, edge_weight = weight_spec ?r2,
    edge_pool = address p, is_base_to_quote = False, dex_id = kind p\<rparr>"
  have g': "g' = push_edge (push_edge g2 e1) e2"
    using assms(3) nz
    by (simp add: add_pool_def g1 g2 fm effective_rate_value [OF fmv] Let_def e1_def e2_def
        weight_from_rate_value [OF rate_u64_bound])
  have "pool_edges (tokens g') p [e1, e2]"
    using t1 w2(6,7) by (simp add: g' pool_edges_def edge_of_def e1_def e2_def)
  moreover have "graph_wf g'"
    using w2(1,6) t1(1) by (auto simp: g' e1_def e2_def intro!: push_edge_wf)
  moreover have "tokens g' = tokens g @ (n1 @ n2)" "length (n1 @ n2) \<le> 2" "set (n1 @ n2) \<subseteq> {base_mint p, quote_mint p}"
    using w1(3-5) w2(3-5) by (auto simp: g')
  moreover have "{base_mint p, quote_mint p} \<subseteq> set (tokens g')"
    using t1 w2(6,7) nth_mem by (fastforce simp: g')
  moreover have "edges g' = edges g @ [e1, e2]" by (simp add: g' w1(2) w2(2))
  ultimately show ?thesis using nz by blast
qed

lemma add_pools_wf:
  "add_pools g ps = Ok g' \<Longrightarrow> graph_wf g \<Longrightarrow> length (tokens g) + 2 * length ps \<le> 2 ^ 32 \<Longrightarrow>
    graph_wf g' \<and> (\<exists>new. tokens g' = tokens g @ new)
    \<and> set (tokens g') = set (tokens g) \<union> base_mint ` set ps \<union> quote_mint ` set ps
    \<and> (\<exists>es. edges g' = edges g @ concat es \<and> list_all2 (pool_edges (tokens g')) ps es)"
proof (induction g ps rule: add_pools.induct)
  case (2 g p ps)
  from "2.prems"(1) obtain h where h: "add_pool g p = Ok h" "add_pools h ps = Ok g'"
    by (auto simp: bind_res_Ok_iff)
  from add_pool_wf [OF "2.prems"(2) _ h(1)] "2.prems"(3) obtain new es where
    w: "graph_wf h" "tokens h = tokens g @ new" "length new \<le> 2" "set new \<subseteq> {base_mint p, quote_mint p}"
      "edges h = edges g @ es" "pool_edges (tokens h) p es" "{base_mint p, quote_mint p} \<subseteq> set (tokens h)"
    by auto
  from "2.IH" [OF h(1) h(2) w(1)] "2.prems"(3) w(2,3) obtain new' es' where
    r: "graph_wf g'" "tokens g' = tokens h @ new'"
      "set (tokens g') = set (tokens h) \<union> base_mint ` set ps \<union> quote_mint ` set ps"
      "edges g' = edges h @ concat es'" "list_all2 (pool_edges (tokens g')) ps es'" by auto
  have "list_all2 (pool_edges (tokens g')) (p # ps) (es # es')"
    using r(2,5) pool_edges_append [OF w(6)] by simp
  moreover have "edges g' = edges g @ concat (es # es')" by (simp add: r(4) w(5))
  moreover have "set (tokens h) = set (tokens g) \<union> {base_mint p, quote_mint p}"
    using w(2,4,7) by auto
  then have "set (tokens g') = set (tokens g) \<union> base_mint ` set (p # ps) \<union> quote_mint ` set (p # ps)"
    using r(3) by auto
  ultimately show ?case using r(1,2) w(2) by (metis append.assoc)
qed (auto intro: exI [of _ "[]"])

lemma build_from_pools_graph_wf:
  assumes "build_from_pools ps = Ok g" and "2 * length ps \<le> 2 ^ 32"
  shows "graph_wf g"
proof -
  have "add_pools graph_new ps = Ok g" using assms(1) by (simp add: build_from_pools_def split: if_splits)
  from add_pools_wf [OF this graph_wf_new] assms(2) show ?thesis by (simp add: graph_new_def)
qed

text \<open>
  The graph built from pools is well formed and complete: its tokens are the mints of
  the pools, each once, with an index that agrees with their positions, and every pool
  contributes exactly its two directed edges, between its own mints, whose weights are
  one minus the fee-reduced spot rate clamped to 64 bits, negative exactly when the rate exceeds one.
\<close>

theorem build_from_pools_wf:
  assumes "build_from_pools ps = Ok g" and "2 * length ps \<le> 2 ^ 32"
  shows "graph_wf g \<and> set (tokens g) = base_mint ` set ps \<union> quote_mint ` set ps
    \<and> (\<exists>es. edges g = concat es \<and> list_all2 (pool_edges (tokens g)) ps es)
    \<and> n_edges g = 2 * length ps"
proof -
  have "add_pools graph_new ps = Ok g" using assms(1) by (simp add: build_from_pools_def split: if_splits)
  from add_pools_wf [OF this graph_wf_new] assms(2) obtain es where
    r: "graph_wf g" "set (tokens g) = base_mint ` set ps \<union> quote_mint ` set ps"
      "edges g = concat es" "list_all2 (pool_edges (tokens g)) ps es"
    by (auto simp: graph_new_def)
  have "list_all2 (pool_edges toks) qs es \<Longrightarrow> length (concat es) = 2 * length qs" for toks qs es
    by (induction rule: list_all2_induct) (auto simp: pool_edges_def)
  then show ?thesis using r unfolding n_edges_def by metis
qed

lemma pool_edge_sign:
  assumes "edge_of toks p True e"
  shows "edge_weight e < 0 \<longleftrightarrow> 10 ^ 18 < rate_nat (unat (quote_reserve p)) (unat (base_reserve p)) (unat (fee_bps p))"
  using assms by (simp add: edge_of_def weight_spec_sign)

lemma sample_build:
  "build_from_pools [sample_pool 7 1000 2000 30 Raydium] =
    (let t = TokenId 0;
         e1 = \<lparr>edge_from = t, edge_to = t, edge_weight = weight_spec (rate_nat 2000 1000 30), edge_pool = Pubkey [7],
           is_base_to_quote = True, dex_id = RaydiumAmmV4\<rparr>;
         e2 = \<lparr>edge_from = t, edge_to = t, edge_weight = weight_spec (rate_nat 1000 2000 30), edge_pool = Pubkey [7],
           is_base_to_quote = False, dex_id = RaydiumAmmV4\<rparr>
     in Ok \<lparr>tokens = [pubkey_ZERO], token_index = [key_bytes pubkey_ZERO \<mapsto> t], edges = [e1, e2]\<rparr>)"
proof -
  have fm: "fee_multiplier_1e18 30 = Ok 997000000000000000"
    by (simp add: fee_multiplier_1e18_def ONE_1E18_def sat_sub_w_def sat_mul_w_def)
  have fmv: "unat (997000000000000000 :: u128) = 10 ^ 18 - 30 * 10 ^ 14" by simp
  have mints: "base_mint (sample_pool 7 1000 2000 30 Raydium) = pubkey_ZERO"
    "quote_mint (sample_pool 7 1000 2000 30 Raydium) = pubkey_ZERO"
    "kind (sample_pool 7 1000 2000 30 Raydium) = RaydiumAmmV4"
    by (simp_all add: sample_pool_def default_pool_def default_kind_def)
  have b: "rate_nat 2000 1000 30 < 2 ^ 126" "rate_nat 1000 2000 30 < 2 ^ 126" by (simp_all add: rate_nat_def)
  show ?thesis
    by (simp add: build_from_pools_def add_pool_def graph_new_def mints intern_token_def fm Let_def
        effective_rate_value [OF fmv] weight_from_rate_value [OF b(1)] weight_from_rate_value [OF b(2)]
        push_edge_def)
qed

theorem build_from_pools_wf_witness:
  "\<exists>g. build_from_pools [sample_pool 7 1000 2000 30 Raydium] = Ok g \<and> graph_wf g \<and> n_edges g = 2"
proof -
  obtain g where g: "build_from_pools [sample_pool 7 1000 2000 30 Raydium] = Ok g"
    using sample_build by (auto simp: Let_def)
  from build_from_pools_wf [OF this] g show ?thesis by simp
qed

section \<open>Pruning\<close>

lemma swap_remove_eq:
  assumes "i < length xs"
  shows "swap_remove xs i = Ok (butlast (xs[i := last xs]))"
    and "length (butlast (xs[i := last xs])) = length xs - 1"
    and "mset (butlast (xs[i := last xs])) = mset xs - {#xs ! i#}"
    and "j < i \<Longrightarrow> butlast (xs[i := last xs]) ! j = xs ! j"
proof -
  show "swap_remove xs i = Ok (butlast (xs[i := last xs]))" using assms by (simp add: swap_remove_def)
  show "length (butlast (xs[i := last xs])) = length xs - 1" by simp
  show "j < i \<Longrightarrow> butlast (xs[i := last xs]) ! j = xs ! j" using assms by (simp add: nth_butlast)
  have ne: "xs[i := last xs] \<noteq> []" using assms by auto
  have last: "last (xs[i := last xs]) = last xs"
    using assms ne by (auto simp: last_conv_nth nth_list_update)
  have "mset (xs[i := last xs]) = mset (butlast (xs[i := last xs])) + {#last xs#}"
    using ne last by (metis append_butlast_last_id mset.simps mset_append union_mset_add_mset_right add_mset_add_single mset_single_iff_right)
  moreover have "mset (xs[i := last xs]) = add_mset (last xs) (mset xs - {#xs ! i#})"
    using assms by (rule mset_update)
  ultimately show "mset (butlast (xs[i := last xs])) = mset xs - {#xs ! i#}" by simp
qed

lemma remove_all_desc:
  "sorted_wrt (>) is \<Longrightarrow> \<forall>i \<in> set is. i < length es \<Longrightarrow>
    \<exists>es'. remove_all es is = Ok es' \<and> length es' = length es - length is
      \<and> mset es' = mset es - mset (map ((!) es) is)"
proof (induction "is" arbitrary: es)
  case (Cons i "is")
  define fs where "fs = butlast (es[i := last es])"
  have i: "i < length es" using Cons.prems(2) by simp
  note sr = swap_remove_eq [OF i, folded fs_def]
  have below: "\<forall>j \<in> set is. j < i" using Cons.prems(1) by auto
  then have "\<forall>j \<in> set is. j < length fs" using sr(2) i by (auto simp: less_diff_conv)
  with Cons.IH [of fs] Cons.prems(1) obtain es' where
    e: "remove_all fs is = Ok es'" "length es' = length fs - length is"
      "mset es' = mset fs - mset (map ((!) fs) is)" by auto
  have "map ((!) fs) is = map ((!) es) is" using sr(4) below by simp
  then have "mset es' = mset es - {#es ! i#} - mset (map ((!) es) is)"
    using e(3) by (simp only: sr(3))
  also have "\<dots> = mset es - mset (map ((!) es) (i # is))" by (simp add: diff_diff_add)
  finally show ?case using e(1,2) sr(2) by (simp add: sr(1))
qed simp

definition edge_stale :: "pool list \<Rightarrow> u64 \<Rightarrow> u64 \<Rightarrow> edge \<Rightarrow> bool" where
  "edge_stale ps now max_age e \<longleftrightarrow> max_age \<noteq> 0 \<and>
    (\<exists>p. pool_index ps (key_bytes (edge_pool e)) = Some p \<and> unat (last_update_slot p) + unat max_age < unat now)"

lemma stale_drop_iff:
  assumes "max_age \<noteq> 0"
  shows "stale_drop ps now max_age (i, e) = None \<longleftrightarrow> \<not> edge_stale ps now max_age e"
    and "stale_drop ps now max_age (i, e) = Some d \<Longrightarrow> drop_edge_index d = i"
proof -
  have "max_age < sat_sub_w now s \<longleftrightarrow> unat s + unat max_age < unat now" for s
    by (auto simp: word_less_nat_alt unat_sat_sub_w)
  then show "stale_drop ps now max_age (i, e) = None \<longleftrightarrow> \<not> edge_stale ps now max_age e"
    using assms by (auto simp: stale_drop_def edge_stale_def Let_def split: option.splits)
qed (auto simp: stale_drop_def Let_def split: option.splits if_splits)

lemma map_filter_stale:
  assumes "max_age \<noteq> 0"
  shows "map drop_edge_index (List.map_filter (stale_drop ps now max_age) (enumerate k es))
    = map fst (filter (\<lambda>(i, e). edge_stale ps now max_age e) (enumerate k es))"
proof (induction es arbitrary: k)
  case (Cons e es)
  show ?case
    using Cons stale_drop_iff [OF assms, of ps now k e]
    by (cases "stale_drop ps now max_age (k, e)") (auto simp: List.map_filter_simps)
qed (simp add: List.map_filter_simps)

lemma filter_enumerate:
  fixes Q :: "'a \<Rightarrow> bool" and es :: "'a list"
  defines "L k \<equiv> filter (\<lambda>(i, e). Q e) (enumerate k es)"
  shows "sorted_wrt (<) (map fst (L k))" and "\<forall>i \<in> set (map fst (L 0)). i < length es"
    and "map ((!) es) (map fst (L 0)) = filter Q es"
proof -
  have "sorted_wrt (<) (map fst (enumerate k es))" by (simp add: sorted_wrt_upt)
  then show "sorted_wrt (<) (map fst (L k))"
    unfolding L_def sorted_wrt_map by (rule sorted_wrt_filter)
  show "\<forall>i \<in> set (map fst (L 0)). i < length es" by (auto simp: L_def in_set_enumerate_eq)
  have "map ((!) es) (map fst (L 0)) = map snd (L 0)"
    by (auto simp: L_def in_set_enumerate_eq)
  also have "\<dots> = filter Q (map snd (enumerate 0 es))"
    unfolding L_def filter_map by (simp add: comp_def case_prod_unfold)
  finally show "map ((!) es) (map fst (L 0)) = filter Q es" by simp
qed

text \<open>
  Pruning removes exactly the edges of stale pools and never panics: whatever order the
  swapping removal leaves them in, the remaining edges are, as a multiset, the edges whose pool is
  fresh, unknown, or not checked (a threshold of zero), the tokens are untouched, the report
  lists one drop per removed edge in edge order and the counter grows by their number.
\<close>

theorem prune_stale_edges_exact:
  "\<exists>r g' n. prune_stale_edges g ps now max_age counter = Ok (r, g', n)
    \<and> mset (edges g') = mset (filter (\<lambda>e. \<not> edge_stale ps now max_age e) (edges g))
    \<and> tokens g' = tokens g \<and> token_index g' = token_index g
    \<and> n_dropped r + edges_remaining r = length (edges g) \<and> edges_remaining r = length (edges g')
    \<and> map drop_edge_index (dropped r)
        = map fst (filter (\<lambda>(i, e). edge_stale ps now max_age e) (enumerate 0 (edges g)))
    \<and> n = counter + of_nat (n_dropped r)"
proof (cases "max_age = 0")
  case True
  then have "\<not> edge_stale ps now max_age e" for e by (simp add: edge_stale_def)
  moreover have "filter (\<lambda>(i, e). False) xs = []" for xs :: "(nat \<times> edge) list" by (induction xs) auto
  ultimately show ?thesis using True by (simp add: prune_stale_edges_def n_dropped_def)
next
  case False
  define D where "D = List.map_filter (stale_drop ps now max_age) (enumerate 0 (edges g))"
  define ix where "ix = map drop_edge_index D"
  note fe = filter_enumerate [where Q = "edge_stale ps now max_age" and es = "edges g"]
  have ix: "ix = map fst (filter (\<lambda>(i, e). edge_stale ps now max_age e) (enumerate 0 (edges g)))"
    unfolding ix_def D_def by (rule map_filter_stale [OF False])
  have asc: "sorted_wrt (<) ix" unfolding ix by (rule fe(1))
  then have "sorted_wrt (>) (rev ix)" by (simp add: sorted_wrt_rev)
  moreover have "\<forall>i \<in> set (rev ix). i < length (edges g)" unfolding ix set_rev by (rule fe(2))
  ultimately obtain es where es: "remove_all (edges g) (rev ix) = Ok es"
    "length es = length (edges g) - length (rev ix)"
    "mset es = mset (edges g) - mset (map ((!) (edges g)) (rev ix))"
    using remove_all_desc by blast
  have st: "map ((!) (edges g)) ix = filter (edge_stale ps now max_age) (edges g)"
    unfolding ix by (rule fe(3))
  have "mset (map ((!) (edges g)) (rev ix)) = mset (map ((!) (edges g)) ix)" by simp
  also have "\<dots> = filter_mset (edge_stale ps now max_age) (mset (edges g))" by (simp only: st mset_filter)
  finally have "mset es = filter_mset (\<lambda>e. \<not> edge_stale ps now max_age e) (mset (edges g))"
    unfolding es(3) by (metis add_diff_cancel_left' multiset_partition)
  moreover have "length ix \<le> length (edges g)"
    using arg_cong [OF st, of length] length_filter_le [of "edge_stale ps now max_age" "edges g"] by simp
  moreover have "sort_key drop_edge_index D = D"
    using asc by (intro sort_key_id_if_sorted) (simp add: ix_def strict_sorted_iff)
  moreover have "rev ix = map drop_edge_index (rev D)" by (simp add: ix_def rev_map)
  moreover have "D = [] \<Longrightarrow> ix = []" by (simp add: ix_def)
  ultimately show ?thesis
    using False es(1,2) ix
    by (cases "D = []") (auto simp: prune_stale_edges_def Let_def D_def [symmetric] n_dropped_def ix_def)
qed

end
