(* ===== verification/Detector.thy ===== *)
theory Detector
  imports Graph "HOL-Library.List_Lexorder" "HOL-Library.Product_Lexorder"
begin

text \<open>
  \<^verbatim>\<open>crates/dl-detect/src/bellman_ford.rs\<close>: the search for negative-weight cycles, a
  depth-limited depth-first search from every token.
\<close>

definition index_p :: "'a list \<Rightarrow> usize \<Rightarrow> ('a, 'e) res" where
  "index_p xs i = (if i < length xs then Ok (xs ! i) else Panic)"

type_synonym signature = "(u8 list \<times> bool) list"

record dfs_state =
  seen_signatures :: "signature set"
  dfs_out :: "cycle list"

definition leg_of :: "edge \<Rightarrow> leg" where
  "leg_of e = \<lparr>leg_pool = edge_pool e,
    leg_direction = (if is_base_to_quote e then BaseToQuote else QuoteToBase),
    leg_weight = edge_weight e\<rparr>"

definition cycle_sig :: "cycle \<Rightarrow> signature" where
  "cycle_sig c = sort (map (\<lambda>l. (key_bytes (leg_pool l), leg_direction l = BaseToQuote)) (legs c))"

text \<open>The loop that rebuilds the legs of the path; an overflow leaves the loop early.\<close>

fun collect_legs :: "edge list \<Rightarrow> usize list \<Rightarrow> i64 \<Rightarrow> leg list \<Rightarrow> (i64 \<times> leg list, detect_error) res" where
  "collect_legs es [] ws ls = Ok (ws, ls)"
| "collect_legs es (i # is) ws ls =
    bind_res (index_p es i) (\<lambda>e.
      (case checked_i 64 (ws + edge_weight e) of
         None \<Rightarrow> Ok (ws, ls)
       | Some v \<Rightarrow> collect_legs es is v (ls @ [leg_of e])))"

definition close_cycle :: "edge list \<Rightarrow> usize list \<Rightarrow> edge \<Rightarrow> dfs_state \<Rightarrow> (dfs_state, detect_error) res" where
  "close_cycle es path e st =
    bind_res (collect_legs es path 0 []) (\<lambda>(ws0, ls).
      (case checked_i 64 (ws0 + edge_weight e) of
         None \<Rightarrow> Ok st
       | Some ws \<Rightarrow>
           if ws < 0 then
             bind_res (cycle_new (ls @ [leg_of e])) (\<lambda>c.
               let c' = compute_expected_profit_bps c; sg = cycle_sig c'
               in if sg \<in> seen_signatures st then Ok st
                  else Ok (st\<lparr>seen_signatures := insert sg (seen_signatures st),
                              dfs_out := dfs_out st @ [c']\<rparr>))
           else Ok st))"

text \<open>
  \<open>dfs\<close> is the loop over the edges that leave the current token; \<open>is\<close> are the edges
  still to try. It recurses into the next token inside the loop.
\<close>

function dfs :: "edge list \<Rightarrow> usize list list \<Rightarrow> usize \<Rightarrow> u32 \<Rightarrow> usize list \<Rightarrow> i64 \<Rightarrow> usize list \<Rightarrow>
    token_id list \<Rightarrow> dfs_state \<Rightarrow> (dfs_state, detect_error) res" where
  "dfs es adj max_legs start [] w path nodes st = Ok st"
| "dfs es adj max_legs start (i # is) w path nodes st =
    bind_res (index_p es i) (\<lambda>e.
      if token_num (edge_to e) = start \<and> path \<noteq> [] then
        (if max_legs < length path + 1 then dfs es adj max_legs start is w path nodes st
         else (case checked_i 64 (w + edge_weight e) of
             None \<Rightarrow> dfs es adj max_legs start is w path nodes st
           | Some tot \<Rightarrow>
               if tot < 0
               then bind_res (close_cycle es path e st) (\<lambda>st'. dfs es adj max_legs start is w path nodes st')
               else dfs es adj max_legs start is w path nodes st))
      else if edge_to e \<in> set nodes then dfs es adj max_legs start is w path nodes st
      else if max_legs \<le> length path + 1 then dfs es adj max_legs start is w path nodes st
      else (case checked_i 64 (w + edge_weight e) of
          None \<Rightarrow> dfs es adj max_legs start is w path nodes st
        | Some nw \<Rightarrow>
            bind_res (index_p adj (unat (token_num (edge_to e)))) (\<lambda>out.
            bind_res (dfs es adj max_legs start out nw (path @ [i]) (nodes @ [edge_to e]) st) (\<lambda>st'.
            dfs es adj max_legs start is w path nodes st'))))"
  by pat_completeness auto
termination
  by (relation "measures [\<lambda>(es, adj, ml, start, is, w, path, nodes, st). ml - length path,
      \<lambda>(es, adj, ml, start, is, w, path, nodes, st). length is]") auto

fun build_adj :: "(usize \<times> edge) list \<Rightarrow> usize list list \<Rightarrow> (usize list list, detect_error) res" where
  "build_adj [] adj = Ok adj"
| "build_adj ((i, e) # ies) adj =
    bind_res (index_p adj (unat (token_num (edge_from e)))) (\<lambda>out.
      build_adj ies (adj[unat (token_num (edge_from e)) := out @ [i]]))"

fun search_starts :: "edge list \<Rightarrow> usize list list \<Rightarrow> usize \<Rightarrow> usize list \<Rightarrow> dfs_state \<Rightarrow> (dfs_state, detect_error) res" where
  "search_starts es adj max_legs [] st = Ok st"
| "search_starts es adj max_legs (s # ss) st =
    (let start = (of_nat s :: u32) in
     bind_res (index_p adj (unat start)) (\<lambda>out.
     bind_res (dfs es adj max_legs start out 0 [] [TokenId start] st)
       (search_starts es adj max_legs ss)))"

definition find_negative_cycles :: "graph \<Rightarrow> usize \<Rightarrow> (cycle list, detect_error) res" where
  "find_negative_cycles g max_legs =
    (if n_tokens g = 0 \<or> max_legs < 2 then Ok []
     else bind_res (build_adj (enumerate 0 (edges g)) (replicate (n_tokens g) [])) (\<lambda>adj.
       bind_res (search_starts (edges g) adj max_legs [0..<n_tokens g]
         \<lparr>seen_signatures = {}, dfs_out = []\<rparr>) (\<lambda>st. Ok (dfs_out st))))"

section \<open>Walks\<close>

fun walk :: "token_id \<Rightarrow> edge list \<Rightarrow> token_id \<Rightarrow> bool" where
  "walk a [] b \<longleftrightarrow> a = b"
| "walk a (e # es) b \<longleftrightarrow> edge_from e = a \<and> walk (edge_to e) es b"

text \<open>The running sum of the weights of a path, if every partial sum fits 64 bits.\<close>

fun path_sum :: "int \<Rightarrow> edge list \<Rightarrow> int option" where
  "path_sum w [] = Some w"
| "path_sum w (e # es) = Option.bind (checked_i 64 (w + edge_weight e)) (\<lambda>v. path_sum v es)"

lemma walk_append: "walk a (p @ q) c \<longleftrightarrow> (\<exists>b. walk a p b \<and> walk b q c)"
  by (induction p arbitrary: a) auto

lemma path_sum_append: "path_sum w (p @ q) = Option.bind (path_sum w p) (\<lambda>v. path_sum v q)"
  by (induction p arbitrary: w) (auto simp: Option.bind_assoc)

lemma path_sum_value: "path_sum w p = Some v \<Longrightarrow> v = w + sum_list (map edge_weight p)"
  by (induction p arbitrary: w) (fastforce simp: bind_eq_Some_conv checked_i_Some_iff)+

lemma walk_to: "p \<noteq> [] \<Longrightarrow> walk a p b \<Longrightarrow> edge_to (last p) = b"
  by (induction p arbitrary: a) auto

lemma collect_legs_path:
  "\<forall>i \<in> set is. i < length es \<Longrightarrow> path_sum ws (map ((!) es) is) = Some v \<Longrightarrow>
    collect_legs es is ws ls = Ok (v, ls @ map (\<lambda>i. leg_of (es ! i)) is)"
  by (induction "is" arbitrary: ws ls) (auto simp: index_p_def bind_eq_Some_conv)

lemma path_sum_sum_p:
  "path_sum w p = Some v \<Longrightarrow> sum_p 64 w (map (\<lambda>e. leg_weight (leg_of e)) p) = (Ok v :: (int, detect_error) res)"
  by (induction p arbitrary: w)
    (auto simp: bind_eq_Some_conv checked_i_Some_iff range_p_def leg_of_def)

text \<open>A cycle of the graph as the search may report it: a closed simple walk within the leg limit.\<close>

definition simple_cycle :: "edge list \<Rightarrow> usize \<Rightarrow> token_id \<Rightarrow> usize list \<Rightarrow> bool" where
  "simple_cycle es max_legs a is \<longleftrightarrow> (\<forall>i \<in> set is. i < length es)
    \<and> walk a (map ((!) es) is) a \<and> distinct (map (\<lambda>i. edge_from (es ! i)) is)
    \<and> 2 \<le> length is \<and> length is \<le> max_legs"

definition path_sig :: "edge list \<Rightarrow> usize list \<Rightarrow> signature" where
  "path_sig es is = sort (map (\<lambda>i. (key_bytes (edge_pool (es ! i)), is_base_to_quote (es ! i))) is)"

definition reported :: "edge list \<Rightarrow> usize \<Rightarrow> cycle \<Rightarrow> bool" where
  "reported es max_legs c \<longleftrightarrow> (\<exists>a is. simple_cycle es max_legs a is
    \<and> legs c = map (\<lambda>i. leg_of (es ! i)) is
    \<and> weight_sum c = (\<Sum>i\<leftarrow>is. edge_weight (es ! i)) \<and> weight_sum c < 0
    \<and> expected_profit_bps c = compute_profit_bps (weight_sum c) \<and> cycle_seq c = 0)"

definition state_ok :: "edge list \<Rightarrow> usize \<Rightarrow> dfs_state \<Rightarrow> bool" where
  "state_ok es max_legs st \<longleftrightarrow> (\<forall>c \<in> set (dfs_out st). reported es max_legs c)
    \<and> seen_signatures st = cycle_sig ` set (dfs_out st) \<and> distinct (map cycle_sig (dfs_out st))"

lemma leg_of_sel [simp]:
  "leg_pool (leg_of e) = edge_pool e" "leg_weight (leg_of e) = edge_weight e"
  "leg_direction (leg_of e) = BaseToQuote \<longleftrightarrow> is_base_to_quote e"
  by (simp_all add: leg_of_def)

lemma close_cycle_path:
  assumes "simple_cycle es max_legs a (path @ [i])" and "path_sum 0 (map ((!) es) (path @ [i])) = Some v"
    and "v < 0" and "state_ok es max_legs st"
  shows "\<exists>st'. close_cycle es path (es ! i) st = Ok st' \<and> state_ok es max_legs st'
    \<and> seen_signatures st \<subseteq> seen_signatures st' \<and> path_sig es (path @ [i]) \<in> seen_signatures st'"
proof -
  have idx: "\<forall>j \<in> set path. j < length es" using assms(1) by (simp add: simple_cycle_def)
  obtain w where w: "path_sum 0 (map ((!) es) path) = Some w" "checked_i 64 (w + edge_weight (es ! i)) = Some v"
    using assms(2) by (auto simp: path_sum_append bind_eq_Some_conv)
  define ls where "ls = map (\<lambda>i. leg_of (es ! i)) (path @ [i])"
  have col: "collect_legs es path 0 [] = Ok (w, map (\<lambda>i. leg_of (es ! i)) path)"
    using collect_legs_path [OF idx w(1)] by simp
  define c where "c = compute_expected_profit_bps \<lparr>cycle_seq = 0, legs = ls, weight_sum = v, expected_profit_bps = 0\<rparr>"
  have new: "cycle_new ls = (Ok \<lparr>cycle_seq = 0, legs = ls, weight_sum = v, expected_profit_bps = 0\<rparr> :: (cycle, detect_error) res)"
    using path_sum_sum_p [OF assms(2)] by (simp add: cycle_new_def ls_def comp_def)
  have sig: "cycle_sig c = path_sig es (path @ [i])"
    by (simp add: cycle_sig_def path_sig_def c_def compute_expected_profit_bps_def ls_def comp_def)
  have run: "close_cycle es path (es ! i) st = (if cycle_sig c \<in> seen_signatures st then Ok st
      else Ok (st\<lparr>seen_signatures := insert (cycle_sig c) (seen_signatures st), dfs_out := dfs_out st @ [c]\<rparr>))"
    using col w(2) assms(3) new by (simp add: close_cycle_def ls_def c_def Let_def)
  have "v = (\<Sum>i\<leftarrow>path @ [i]. edge_weight (es ! i))"
    using path_sum_value [OF assms(2)] by (simp add: comp_def)
  then have "reported es max_legs c"
    using assms(1,3) unfolding reported_def
    by (intro exI [of _ a] exI [of _ "path @ [i]"]) (simp add: c_def compute_expected_profit_bps_def ls_def)
  with assms(4) run sig show ?thesis by (auto simp: state_ok_def)
qed

section \<open>The search\<close>

definition adj_ok :: "edge list \<Rightarrow> usize list list \<Rightarrow> bool" where
  "adj_ok es adj \<longleftrightarrow>
    (\<forall>e \<in> set es. unat (token_num (edge_from e)) < length adj \<and> unat (token_num (edge_to e)) < length adj)
    \<and> (\<forall>j < length adj. \<forall>i. i \<in> set (adj ! j) \<longleftrightarrow> i < length es \<and> unat (token_num (edge_from (es ! i))) = j)"

lemma adj_okD:
  assumes "adj_ok es adj" and "unat (token_num t) < length adj"
  shows "i \<in> set (adj ! unat (token_num t)) \<longleftrightarrow> i < length es \<and> edge_from (es ! i) = t"
  using assms by (auto simp: adj_ok_def word_unat_eq_iff token_id.expand)

text \<open>The path from the start token that the search is on, with its tokens and its weight.\<close>

definition path_ok :: "edge list \<Rightarrow> token_id \<Rightarrow> token_id \<Rightarrow> i64 \<Rightarrow> usize list \<Rightarrow> token_id list \<Rightarrow> bool" where
  "path_ok es a cur w path nodes \<longleftrightarrow> (\<forall>i \<in> set path. i < length es)
    \<and> walk a (map ((!) es) path) cur \<and> nodes = map (\<lambda>i. edge_from (es ! i)) path @ [cur]
    \<and> distinct nodes \<and> path_sum 0 (map ((!) es) path) = Some w"

lemma path_ok_extend:
  assumes "path_ok es a cur w path nodes" and "i < length es" and "edge_from (es ! i) = cur"
    and "edge_to (es ! i) \<notin> set nodes" and "checked_i 64 (w + edge_weight (es ! i)) = Some v"
  shows "path_ok es a (edge_to (es ! i)) v (path @ [i]) (nodes @ [edge_to (es ! i)])"
  using assms by (auto simp: path_ok_def walk_append path_sum_append)

lemma path_ok_close:
  assumes "path_ok es a cur w path nodes" and "i < length es" and "edge_from (es ! i) = cur"
    and "edge_to (es ! i) = a" and "path \<noteq> []" and "length path + 1 \<le> max_legs"
  shows "simple_cycle es max_legs a (path @ [i])"
proof -
  have "1 \<le> length path" using assms(5) by (cases path) simp_all
  then show ?thesis using assms by (auto simp: path_ok_def simple_cycle_def walk_append)
qed

text \<open>
  \<open>wanted\<close> is what completeness asks of a continuation: from the current path it closes a
  negative simple cycle all of whose partial sums fit.
\<close>

definition wanted :: "edge list \<Rightarrow> usize \<Rightarrow> token_id \<Rightarrow> usize list \<Rightarrow> bool" where
  "wanted es max_legs a is \<longleftrightarrow> simple_cycle es max_legs a is
    \<and> (\<exists>v. path_sum 0 (map ((!) es) is) = Some v \<and> v < 0)"

text \<open>One edge of the loop: the state it leaves, and what it has found by then.\<close>

definition covers :: "edge list \<Rightarrow> usize \<Rightarrow> token_id \<Rightarrow> usize list \<Rightarrow> usize list \<Rightarrow> dfs_state \<Rightarrow> dfs_state \<Rightarrow> bool" where
  "covers es max_legs a path is st st' \<longleftrightarrow> state_ok es max_legs st' \<and> seen_signatures st \<subseteq> seen_signatures st'
    \<and> (\<forall>i ext. i \<in> set is \<longrightarrow> wanted es max_legs a (path @ i # ext)
        \<longrightarrow> path_sig es (path @ i # ext) \<in> seen_signatures st')"

lemma covers_Nil: "state_ok es max_legs st \<Longrightarrow> covers es max_legs a path [] st st"
  by (simp add: covers_def)

lemma covers_Cons:
  "covers es max_legs a path [i] st st1 \<Longrightarrow> covers es max_legs a path is st1 st2 \<Longrightarrow>
    covers es max_legs a path (i # is) st st2"
  by (auto simp: covers_def)

lemma covers_skip:
  assumes "state_ok es max_legs st" and "\<And>ext. \<not> wanted es max_legs a (path @ i # ext)"
  shows "covers es max_legs a path [i] st st"
  using assms by (simp add: covers_def)

text \<open>A continuation that is wanted uses its first edge in one of two ways.\<close>

lemma wanted_first:
  assumes "path_ok es a cur w path nodes" and "wanted es max_legs a (path @ i # ext)"
  shows "checked_i 64 (w + edge_weight (es ! i)) \<noteq> None"
    and "ext = [] \<Longrightarrow> edge_to (es ! i) = a \<and> path \<noteq> [] \<and> length path + 1 \<le> max_legs
      \<and> (\<exists>v. checked_i 64 (w + edge_weight (es ! i)) = Some v \<and> v < 0)"
    and "ext \<noteq> [] \<Longrightarrow> edge_to (es ! i) \<notin> set nodes \<and> length path + 1 < max_legs
      \<and> hd ext < length es \<and> edge_from (es ! hd ext) = edge_to (es ! i)"
proof -
  have sc: "simple_cycle es max_legs a (path @ i # ext)" and ps: "path_sum 0 (map ((!) es) path) = Some w"
    using assms by (auto simp: wanted_def path_ok_def)
  obtain v where v: "path_sum 0 (map ((!) es) (path @ i # ext)) = Some v" "v < 0"
    using assms(2) by (auto simp: wanted_def)
  obtain v1 where v1: "checked_i 64 (w + edge_weight (es ! i)) = Some v1" "path_sum v1 (map ((!) es) ext) = Some v"
    using v(1) ps by (auto simp: path_sum_append bind_eq_Some_conv)
  then show "checked_i 64 (w + edge_weight (es ! i)) \<noteq> None" by simp
  show "edge_to (es ! i) = a \<and> path \<noteq> [] \<and> length path + 1 \<le> max_legs
      \<and> (\<exists>v. checked_i 64 (w + edge_weight (es ! i)) = Some v \<and> v < 0)" if "ext = []"
    using that sc v(2) v1 by (auto simp: simple_cycle_def walk_append)
  show "edge_to (es ! i) \<notin> set nodes \<and> length path + 1 < max_legs
      \<and> hd ext < length es \<and> edge_from (es ! hd ext) = edge_to (es ! i)" if ne: "ext \<noteq> []"
  proof -
    obtain j ext' where ext: "ext = j # ext'" using ne by (cases ext) auto
    have "walk a (map ((!) es) path) cur" and nodes: "nodes = map (\<lambda>i. edge_from (es ! i)) path @ [cur]"
      using assms(1) by (auto simp: path_ok_def)
    moreover have "edge_from (es ! i) = cur"
    proof -
      have "walk a (map ((!) es) path) b \<Longrightarrow> walk a (map ((!) es) path) c \<Longrightarrow> b = c" for b c
        by (induction path arbitrary: a) auto
      with sc \<open>walk a (map ((!) es) path) cur\<close> show ?thesis
        by (auto simp: simple_cycle_def walk_append)
    qed
    ultimately show ?thesis using sc by (auto simp: ext simple_cycle_def walk_append)
  qed
qed

lemma dfs_correct:
  assumes "adj_ok es adj" and "\<forall>i \<in> set is. i < length es \<and> edge_from (es ! i) = cur"
    and "path_ok es a cur w path nodes" and "state_ok es max_legs st"
  shows "\<exists>st'. dfs es adj max_legs (token_num a) is w path nodes st = Ok st'
    \<and> covers es max_legs a path is st st'"
  using assms(2-)
proof (induction "max_legs - length path" arbitrary: cur "is" w path nodes st rule: less_induct)
  case less
  note deeper = less.hyps
  note path = less.prems(2)
  from less.prems(1,3) show ?case
  proof (induction "is" arbitrary: st)
    case Nil
    then show ?case by (auto simp: covers_Nil)
  next
    case (Cons i "is")
    have i: "i < length es" "edge_from (es ! i) = cur" using Cons.prems(1) by auto
    have to_a: "token_num (edge_to (es ! i)) = token_num a \<longleftrightarrow> edge_to (es ! i) = a"
      by (auto intro: token_id.expand)
    let ?w = "\<lambda>ext. wanted es max_legs a (path @ i # ext)"
    note wf = wanted_first [OF path, of max_legs i]
    have then_rest: "\<exists>st'. dfs es adj max_legs (token_num a) is w path nodes st1 = Ok st'
        \<and> covers es max_legs a path (i # is) st st'" if "covers es max_legs a path [i] st st1" for st1
    proof -
      have ok: "state_ok es max_legs st1" using that by (simp add: covers_def)
      have "\<forall>j \<in> set is. j < length es \<and> edge_from (es ! j) = cur" using Cons.prems(1) by simp
      from Cons.IH [OF this ok] covers_Cons [OF that] show ?thesis by blast
    qed
    have skip: "\<exists>st'. dfs es adj max_legs (token_num a) is w path nodes st = Ok st'
        \<and> covers es max_legs a path (i # is) st st'" if "\<And>ext. \<not> ?w ext"
      using then_rest covers_skip [OF Cons.prems(2) that] by blast
    have a_node: "path \<noteq> [] \<Longrightarrow> a \<in> set nodes"
      using path by (cases path) (auto simp: path_ok_def)
    consider (close) "edge_to (es ! i) = a" "path \<noteq> []" "length path + 1 \<le> max_legs"
        "\<exists>v. checked_i 64 (w + edge_weight (es ! i)) = Some v \<and> v < 0"
      | (shut) "edge_to (es ! i) = a" "path \<noteq> []" "\<not> (length path + 1 \<le> max_legs
          \<and> (\<exists>v. checked_i 64 (w + edge_weight (es ! i)) = Some v \<and> v < 0))"
      | (visited) "\<not> (edge_to (es ! i) = a \<and> path \<noteq> [])" "edge_to (es ! i) \<in> set nodes \<or> max_legs \<le> length path + 1
          \<or> checked_i 64 (w + edge_weight (es ! i)) = None"
      | (go) v where "\<not> (edge_to (es ! i) = a \<and> path \<noteq> [])" "edge_to (es ! i) \<notin> set nodes"
          "length path + 1 < max_legs" "checked_i 64 (w + edge_weight (es ! i)) = Some v"
      by (metis not_le option.exhaust)
    then show ?case
    proof cases
      case close
      then obtain v where v: "checked_i 64 (w + edge_weight (es ! i)) = Some v" "v < 0" by blast
      have "simple_cycle es max_legs a (path @ [i])"
        by (rule path_ok_close [OF path i close(1-3)])
      moreover have "path_sum 0 (map ((!) es) (path @ [i])) = Some v"
        using path v(1) by (simp add: path_ok_def path_sum_append)
      ultimately obtain st1 where st1: "close_cycle es path (es ! i) st = Ok st1" "state_ok es max_legs st1"
        "seen_signatures st \<subseteq> seen_signatures st1" "path_sig es (path @ [i]) \<in> seen_signatures st1"
        using close_cycle_path v(2) Cons.prems(2) by blast
      have "?w ext \<Longrightarrow> ext = []" for ext using wf(3) a_node [OF close(2)] close(1) by blast
      then have "covers es max_legs a path [i] st st1" using st1 by (auto simp: covers_def)
      from then_rest [OF this] close v st1(1) i show ?thesis by (simp add: index_p_def)
    next
      case shut
      have "\<not> ?w ext" for ext
        using wf(2) wf(3) a_node [OF shut(2)] shut(1,3) by (cases "ext = []") blast+
      from skip [OF this] shut i show ?thesis
        by (cases "checked_i 64 (w + edge_weight (es ! i))") (auto simp: index_p_def)
    next
      case visited
      have "\<not> ?w ext" for ext
        using wf(1) [of ext] wf(2) [of ext] wf(3) [of ext] visited by (cases "ext = []") auto
      from skip [OF this] visited i to_a show ?thesis by (auto simp: index_p_def)
    next
      case go
      define t where "t = edge_to (es ! i)"
      have tn: "unat (token_num t) < length adj"
        using assms(1) i(1) nth_mem by (fastforce simp: adj_ok_def t_def)
      define out where "out = adj ! unat (token_num t)"
      have out: "j \<in> set out \<longleftrightarrow> j < length es \<and> edge_from (es ! j) = t" for j
        unfolding out_def by (rule adj_okD [OF assms(1) tn])
      have "path_ok es a t v (path @ [i]) (nodes @ [t])"
        unfolding t_def by (rule path_ok_extend [OF path i go(2,4)])
      moreover have "max_legs - length (path @ [i]) < max_legs - length path" using go(3) by simp
      moreover have "\<forall>j \<in> set out. j < length es \<and> edge_from (es ! j) = t" using out by blast
      ultimately obtain st1 where
        st1: "dfs es adj max_legs (token_num a) out v (path @ [i]) (nodes @ [t]) st = Ok st1"
          "covers es max_legs a (path @ [i]) out st st1"
        using deeper Cons.prems(2) by blast
      have "path_sig es (path @ i # ext) \<in> seen_signatures st1" if "?w ext" for ext
      proof -
        have "ext \<noteq> []" using wf(2) [OF that] go(1) by blast
        then obtain j ext' where ext: "ext = j # ext'" by (cases ext) auto
        then have "j \<in> set out" using wf(3) [OF that] out by (simp add: t_def)
        with st1(2) that show ?thesis by (auto simp: covers_def ext)
      qed
      then have "covers es max_legs a path [i] st st1" using st1(2) by (auto simp: covers_def)
      from then_rest [OF this] go st1(1) i to_a tn show ?thesis
        by (auto simp: index_p_def t_def [symmetric] out_def)
    qed
  qed
qed

lemma build_adj_ok:
  "\<forall>(i, e) \<in> set ies. unat (token_num (edge_from e)) < length adj \<Longrightarrow>
    \<exists>adj'. build_adj ies adj = Ok adj' \<and> length adj' = length adj
      \<and> (\<forall>j < length adj. set (adj' ! j) = set (adj ! j)
          \<union> {i. \<exists>e. (i, e) \<in> set ies \<and> unat (token_num (edge_from e)) = j})"
proof (induction ies arbitrary: adj)
  case (Cons ie ies)
  obtain i e where ie: "ie = (i, e)" by (cases ie)
  define k where "k = unat (token_num (edge_from e))"
  have k: "k < length adj" using Cons.prems by (auto simp: ie k_def)
  define adj1 where "adj1 = adj[k := adj ! k @ [i]]"
  have "\<forall>(i, e) \<in> set ies. unat (token_num (edge_from e)) < length adj1"
    using Cons.prems by (auto simp: adj1_def)
  from Cons.IH [OF this] obtain adj' where a: "build_adj ies adj1 = Ok adj'" "length adj' = length adj"
    "\<forall>j < length adj. set (adj' ! j) = set (adj1 ! j)
      \<union> {i. \<exists>e. (i, e) \<in> set ies \<and> unat (token_num (edge_from e)) = j}"
    by (auto simp: adj1_def)
  have "set (adj1 ! j) = set (adj ! j) \<union> (if j = k then {i} else {})" if "j < length adj" for j
    using that by (auto simp: adj1_def nth_list_update)
  with a(3) have "\<forall>j < length adj. set (adj' ! j) = set (adj ! j)
      \<union> {i. \<exists>e. (i, e) \<in> set (ie # ies) \<and> unat (token_num (edge_from e)) = j}"
    by (auto simp: ie k_def split: if_splits)
  moreover have "build_adj (ie # ies) adj = build_adj ies adj1"
    using k by (simp add: ie index_p_def k_def adj1_def)
  ultimately show ?case using a(1,2) by auto
qed simp

lemma adj_of_graph:
  assumes "graph_wf g"
  shows "\<exists>adj. build_adj (enumerate 0 (edges g)) (replicate (n_tokens g) []) = Ok adj
    \<and> length adj = n_tokens g \<and> adj_ok (edges g) adj"
proof -
  have ends: "\<forall>e \<in> set (edges g). unat (token_num (edge_from e)) < n_tokens g
      \<and> unat (token_num (edge_to e)) < n_tokens g"
    using assms by (auto simp: graph_wf_def n_tokens_def)
  have "\<forall>(i, e) \<in> set (enumerate 0 (edges g)).
      unat (token_num (edge_from e)) < length (replicate (n_tokens g) ([] :: usize list))"
    using ends nth_mem by (fastforce simp: in_set_enumerate_eq)
  from build_adj_ok [OF this] obtain adj where a:
    "build_adj (enumerate 0 (edges g)) (replicate (n_tokens g) []) = Ok adj" "length adj = n_tokens g"
    "\<forall>j < n_tokens g. set (adj ! j)
      = {i. \<exists>e. (i, e) \<in> set (enumerate 0 (edges g)) \<and> unat (token_num (edge_from e)) = j}" by auto
  then have "adj_ok (edges g) adj"
    using ends by (auto simp: adj_ok_def in_set_enumerate_eq)
  with a show ?thesis by blast
qed

lemma search_starts_correct:
  assumes "adj_ok es adj" and "\<forall>s \<in> set ss. s < length adj \<and> s < 2 ^ 32" and "state_ok es max_legs st"
  shows "\<exists>st'. search_starts es adj max_legs ss st = Ok st' \<and> state_ok es max_legs st'
    \<and> seen_signatures st \<subseteq> seen_signatures st'
    \<and> (\<forall>s is. s \<in> set ss \<longrightarrow> wanted es max_legs (TokenId (of_nat s)) is
        \<longrightarrow> path_sig es is \<in> seen_signatures st')"
  using assms(2,3)
proof (induction ss arbitrary: st)
  case (Cons s ss)
  define a where "a = TokenId (of_nat s)"
  have su: "unat (token_num a) = s" using Cons.prems(1) by (simp add: a_def unat_of_nat_fits)
  have s: "s < length adj" using Cons.prems(1) by simp
  define out where "out = adj ! s"
  have out: "i \<in> set out \<longleftrightarrow> i < length es \<and> edge_from (es ! i) = a" for i
    using adj_okD [OF assms(1), of a] s su by (simp add: out_def)
  have "path_ok es a a 0 [] [a]" by (simp add: path_ok_def)
  with dfs_correct [OF assms(1) _ this Cons.prems(2), of out] out obtain st1 where
    st1: "dfs es adj max_legs (token_num a) out 0 [] [a] st = Ok st1" "covers es max_legs a [] out st st1" by auto
  have "state_ok es max_legs st1" using st1(2) by (simp add: covers_def)
  from Cons.IH [OF _ this] Cons.prems(1) obtain st2 where
    st2: "search_starts es adj max_legs ss st1 = Ok st2" "state_ok es max_legs st2"
      "seen_signatures st1 \<subseteq> seen_signatures st2"
      "\<forall>s is. s \<in> set ss \<longrightarrow> wanted es max_legs (TokenId (of_nat s)) is \<longrightarrow> path_sig es is \<in> seen_signatures st2"
    by auto
  have "path_sig es is \<in> seen_signatures st1" if wanted: "wanted es max_legs a is" for "is"
  proof -
    obtain i ext where "is": "is = i # ext"
      using wanted by (cases "is") (auto simp: wanted_def simple_cycle_def)
    then have "i \<in> set out" using wanted out by (auto simp: wanted_def simple_cycle_def)
    with st1(2) wanted "is" show ?thesis by (auto simp: covers_def)
  qed
  then have all: "\<forall>s' is. s' \<in> set (s # ss) \<longrightarrow> wanted es max_legs (TokenId (of_nat s')) is
      \<longrightarrow> path_sig es is \<in> seen_signatures st2"
    using st2(3,4) by (auto simp: a_def)
  moreover have "search_starts es adj max_legs (s # ss) st = Ok st2"
    using st1(1) st2(1) s su by (simp add: index_p_def out_def a_def)
  moreover have "seen_signatures st \<subseteq> seen_signatures st2" using st1(2) st2(3) by (auto simp: covers_def)
  ultimately show ?case using st2(2) by blast
qed simp

lemma find_negative_cycles_run:
  assumes "graph_wf g"
  shows "\<exists>st. find_negative_cycles g max_legs = Ok (dfs_out st) \<and> state_ok (edges g) max_legs st
    \<and> (\<forall>a is. wanted (edges g) max_legs a is \<longrightarrow> path_sig (edges g) is \<in> seen_signatures st)"
proof (cases "n_tokens g = 0 \<or> max_legs < 2")
  case True
  then have "\<not> wanted (edges g) max_legs a is" for a "is"
    using assms by (cases "is") (auto simp: wanted_def simple_cycle_def graph_wf_def n_tokens_def)
  with True show ?thesis
    by (intro exI [of _ "\<lparr>seen_signatures = {}, dfs_out = []\<rparr>"])
      (simp add: find_negative_cycles_def state_ok_def)
next
  case False
  obtain adj where adj: "build_adj (enumerate 0 (edges g)) (replicate (n_tokens g) []) = Ok adj"
    "length adj = n_tokens g" "adj_ok (edges g) adj" using adj_of_graph [OF assms] by blast
  have starts: "\<forall>s \<in> set [0..<n_tokens g]. s < length adj \<and> s < 2 ^ 32"
    using assms adj(2) by (auto simp: graph_wf_def n_tokens_def)
  have "state_ok (edges g) max_legs \<lparr>seen_signatures = {}, dfs_out = []\<rparr>" by (simp add: state_ok_def)
  from search_starts_correct [OF adj(3) starts this] obtain st where
    st: "search_starts (edges g) adj max_legs [0..<n_tokens g] \<lparr>seen_signatures = {}, dfs_out = []\<rparr> = Ok st"
      "state_ok (edges g) max_legs st"
      "\<forall>s is. s \<in> set [0..<n_tokens g] \<longrightarrow> wanted (edges g) max_legs (TokenId (of_nat s)) is
        \<longrightarrow> path_sig (edges g) is \<in> seen_signatures st" by auto
  have "path_sig (edges g) is \<in> seen_signatures st" if w: "wanted (edges g) max_legs a is" for a "is"
  proof -
    obtain i ext where "is": "is = i # ext"
      using w by (cases "is") (auto simp: wanted_def simple_cycle_def)
    then have "i < length (edges g)" "edge_from (edges g ! i) = a"
      using w by (auto simp: wanted_def simple_cycle_def)
    then have "unat (token_num a) < n_tokens g" using assms nth_mem by (fastforce simp: graph_wf_def n_tokens_def)
    moreover have "TokenId (of_nat (unat (token_num a))) = a" by (cases a) simp
    ultimately show ?thesis using st(3) w by (metis atLeastLessThan_iff le0 set_upt)
  qed
  moreover have "find_negative_cycles g max_legs = Ok (dfs_out st)"
    using False adj(1) st(1) by (simp add: find_negative_cycles_def)
  ultimately show ?thesis using st(2) by blast
qed

text \<open>
  C2. The detector is total and sound on every well-formed graph: each reported cycle is a closed walk
  along edges of the graph that visits no token twice, has between two and \<open>max_legs\<close> legs,
  a weight sum that is exactly the (negative) sum of its edge weights, and the matching profit in
  basis points; no two reported cycles have the same set of legs.
\<close>

theorem find_negative_cycles_sound:
  assumes "graph_wf g"
  shows "\<exists>cs. find_negative_cycles g max_legs = Ok cs
    \<and> list_all (reported (edges g) max_legs) cs \<and> distinct (map cycle_sig cs)"
  using find_negative_cycles_run [OF assms, of max_legs] by (auto simp: state_ok_def list_all_iff)

text \<open>
  C3. The detector is complete: every closed simple walk of two to \<open>max_legs\<close> edges whose
  weights sum to a negative number, with every partial sum inside 64 bits, is reported, up to the
  rotation and order of its legs.
\<close>

theorem find_negative_cycles_complete:
  assumes "graph_wf g" and "simple_cycle (edges g) max_legs a is"
    and "path_sum 0 (map ((!) (edges g)) is) = Some v" and "v < 0"
  shows "\<exists>cs c. find_negative_cycles g max_legs = Ok cs \<and> c \<in> set cs \<and> cycle_sig c = path_sig (edges g) is"
proof -
  obtain st where st: "find_negative_cycles g max_legs = Ok (dfs_out st)" "state_ok (edges g) max_legs st"
    "\<forall>a is. wanted (edges g) max_legs a is \<longrightarrow> path_sig (edges g) is \<in> seen_signatures st"
    using find_negative_cycles_run [OF assms(1)] by blast
  have "path_sig (edges g) is \<in> seen_signatures st" using st(3) assms(2-4) by (auto simp: wanted_def)
  with st(1,2) show ?thesis by (auto simp: state_ok_def)
qed

section \<open>Sample graphs\<close>

definition mint_pool :: "u8 \<Rightarrow> u8 \<Rightarrow> u8 \<Rightarrow> u64 \<Rightarrow> u64 \<Rightarrow> pool" where
  "mint_pool k b q br qr = (sample_pool k br qr 0 Raydium)
    \<lparr>base_mint := Pubkey [b], quote_mint := Pubkey [q]\<rparr>"

definition rich_pools :: "pool list" where
  "rich_pools = [mint_pool 7 1 2 1000000 20000000, mint_pool 8 2 3 1000000 20000000,
    mint_pool 9 3 1 300000000 1000000]"

definition e6 :: "u32 \<Rightarrow> u32 \<Rightarrow> int \<Rightarrow> u8 \<Rightarrow> bool \<Rightarrow> edge" where
  "e6 a b w k d = \<lparr>edge_from = TokenId a, edge_to = TokenId b, edge_weight = w, edge_pool = Pubkey [k],
     is_base_to_quote = d, dex_id = RaydiumAmmV4\<rparr>"

lemma mint_pool_sel [simp]:
  "address (mint_pool k b q br qr) = Pubkey [k]" "base_reserve (mint_pool k b q br qr) = br"
  "quote_reserve (mint_pool k b q br qr) = qr" "fee_bps (mint_pool k b q br qr) = 0"
  "extras (mint_pool k b q br qr) = Raydium" "kind (mint_pool k b q br qr) = RaydiumAmmV4"
  "base_mint (mint_pool k b q br qr) = Pubkey [b]" "quote_mint (mint_pool k b q br qr) = Pubkey [q]"
  by (simp_all add: mint_pool_def sample_pool_def default_pool_def default_kind_def)

lemma no_fee: "fee_multiplier_1e18 0 = Ok ONE_1E18"
  by (simp add: fee_multiplier_1e18_def sat_sub_w_def sat_mul_w_def)

lemma rate_no_fee: "effective_rate_1e18 other this ONE_1E18 = (if this = 0 then Err (InvalidMath DivByZero)
     else Ok (of_nat (rate_nat (unat other) (unat this) 0)))"
  by (rule effective_rate_value) simp

lemma weight_word: "unat r < 2 ^ 126 \<Longrightarrow> weight_from_rate r = Ok (weight_spec (unat r))"
  using weight_from_rate_value [of "unat r"] by simp

definition rich_graph :: graph where
  "rich_graph = \<lparr>tokens = [Pubkey [1], Pubkey [2], Pubkey [3]],
    token_index = [[1] \<mapsto> TokenId 0, [2] \<mapsto> TokenId 1, [3] \<mapsto> TokenId 2],
    edges = [e6 0 1 (smin 64) 7 True, e6 1 0 950000000000000000 7 False,
      e6 1 2 (smin 64) 8 True, e6 2 1 950000000000000000 8 False,
      e6 2 0 996666666666666667 9 True, e6 0 2 (smin 64) 9 False]\<rparr>"

lemmas build_eval = build_from_pools_def add_pool_def graph_new_def intern_token_def Let_def no_fee
  rate_no_fee weight_word rate_nat_def weight_spec_def clamp_i_def smin_def smax_def push_edge_def e6_def

lemma build_rich: "build_from_pools rich_pools = Ok rich_graph"
  by (simp add: rich_pools_def build_eval rich_graph_def cong: bind_res_weak_cong)

lemmas search_run = find_negative_cycles_def n_tokens_def e6_def index_p_def checked_i_def in_range_def
  smin_def smax_def close_cycle_def cycle_new_def range_p_def leg_of_def cycle_sig_def
  compute_expected_profit_bps_def Let_def n_legs_def less_eq_prod_def less_prod_def

text \<open>
  A profitable cycle can be dropped without a trace: rates above about ten clamp to the
  smallest 64-bit weight, two of them overflow the checked sum, and the search skips the cycle. Three
  fee-free pools with rates 20, 20 and 1/300 turn 1000 into 1304, but no reported cycle trades them in
  that direction, while the losing cycle in the other direction is reported.
\<close>

theorem profitable_cycle_dropped:
  "\<exists>cs f. build_from_pools rich_pools = Ok rich_graph \<and> find_negative_cycles rich_graph 3 = Ok cs
    \<and> map n_legs cs = [2, 3, 2, 2]
    \<and> list_all (\<lambda>c. QuoteToBase \<in> leg_direction ` set (legs c)) cs
    \<and> simulate_cycle (cycle_through [leg_through 7 BaseToQuote, leg_through 8 BaseToQuote,
        leg_through 9 BaseToQuote]) (registry_of rich_pools) 1000 = Ok f \<and> final_output f = 1304"
proof -
  have "\<exists>cs. find_negative_cycles rich_graph 3 = Ok cs \<and> map n_legs cs = [2, 3, 2, 2]
      \<and> list_all (\<lambda>c. QuoteToBase \<in> leg_direction ` set (legs c)) cs"
    by (simp add: rich_graph_def search_run cong: bind_res_weak_cong)
  moreover have "\<exists>f. simulate_cycle (cycle_through [leg_through 7 BaseToQuote, leg_through 8 BaseToQuote,
      leg_through 9 BaseToQuote]) (registry_of rich_pools) 1000 = Ok f \<and> final_output f = 1304"
    by (rule sample_route) (simp_all add: rich_pools_def registry_of_def registry.get_insert
        registry.get_empty leg_output_curve curve_of_def swap_reserves_def fill_constant_product_spec
        MAX_FEE_BPS_def cp_dx_def cp_out_def unat_ucast_up)
  ultimately show ?thesis by (simp add: build_rich)
qed

lemma rich_graph_wf: "graph_wf rich_graph"
  using build_from_pools_graph_wf [OF build_rich] by (simp add: rich_pools_def)

theorem find_negative_cycles_sound_witness:
  "\<exists>cs. find_negative_cycles rich_graph 3 = Ok cs \<and> list_all (reported (edges rich_graph) 3) cs
    \<and> distinct (map cycle_sig cs) \<and> length cs = 4"
proof -
  have "\<exists>cs. find_negative_cycles rich_graph 3 = Ok cs \<and> length cs = 4"
    by (simp add: rich_graph_def search_run cong: bind_res_weak_cong)
  with find_negative_cycles_sound [OF rich_graph_wf, of 3] show ?thesis by auto
qed

theorem find_negative_cycles_complete_witness:
  "\<exists>cs c. find_negative_cycles rich_graph 3 = Ok cs \<and> c \<in> set cs
    \<and> cycle_sig c = path_sig (edges rich_graph) [5, 3, 1]"
proof (rule find_negative_cycles_complete [OF rich_graph_wf])
  show "simple_cycle (edges rich_graph) 3 (TokenId 0) [5, 3, 1]"
    by (simp add: simple_cycle_def rich_graph_def e6_def)
  show "path_sum 0 (map ((!) (edges rich_graph)) [5, 3, 1]) = Some (smin 64 + 1900000000000000000)"
    by (simp add: rich_graph_def e6_def checked_i_def in_range_def smin_def smax_def)
  show "smin 64 + 1900000000000000000 < 0" by (simp add: smin_def)
qed

end
