(* ===== verification/Cap.thy ===== *)
theory Cap
  imports Rust_Prelude
begin

text \<open>
  \<^verbatim>\<open>crates/dl-signer/src/cap.rs\<close>: the daily and per-bundle spending cap of the hot
  wallet, its reset at UTC midnight, its refunds, and its snapshot file. A UTC date is an
  \<open>int\<close> (a day number); the clock's \<^verbatim>\<open>Utc::now().date_naive()\<close> is the argument \<open>today\<close>.
\<close>

definition MAINNET_DAILY_CAP_FLOOR_LAMPORTS :: u64 where
  "MAINNET_DAILY_CAP_FLOOR_LAMPORTS = 500000000"

definition MAINNET_PER_BUNDLE_CAP_FLOOR_LAMPORTS :: u64 where
  "MAINNET_PER_BUNDLE_CAP_FLOOR_LAMPORTS = 50000000"

type_synonym naive_date = int

record cap_config =
  daily_lamports :: u64
  per_bundle_lamports :: u64

definition cap_config_default :: cap_config where
  "cap_config_default = \<lparr>daily_lamports = 5000000000, per_bundle_lamports = 500000000\<rparr>"

definition mainnet_floors :: cap_config where
  "mainnet_floors = \<lparr>daily_lamports = MAINNET_DAILY_CAP_FLOOR_LAMPORTS,
    per_bundle_lamports = MAINNET_PER_BUNDLE_CAP_FLOOR_LAMPORTS\<rparr>"

definition with_mainnet_floor :: "u64 option \<Rightarrow> u64 option \<Rightarrow> cap_config" where
  "with_mainnet_floor daily_override per_bundle_override =
    (let floors = mainnet_floors in
     \<lparr>daily_lamports = (case map_option (\<lambda>v. min v (daily_lamports floors)) daily_override of
          Some v \<Rightarrow> v | None \<Rightarrow> daily_lamports floors),
      per_bundle_lamports = (case map_option (\<lambda>v. min v (per_bundle_lamports floors)) per_bundle_override of
          Some v \<Rightarrow> v | None \<Rightarrow> per_bundle_lamports floors)\<rparr>)"

record cap_state =
  spent_today :: u64
  last_reset :: naive_date
  cap_cfg :: cap_config

datatype cap_error =
    DailyExceeded (attempted: u64) (remaining_lamports: u64)
  | PerBundleExceeded (attempted: u64) (bundle_limit: u64)

definition cap_new :: "naive_date \<Rightarrow> cap_config \<Rightarrow> cap_state" where
  "cap_new today c = \<lparr>spent_today = 0, last_reset = today, cap_cfg = c\<rparr>"

definition reset_if_new_day :: "naive_date \<Rightarrow> cap_state \<Rightarrow> cap_state" where
  "reset_if_new_day today s =
    (if today \<noteq> last_reset s then s\<lparr>spent_today := 0, last_reset := today\<rparr> else s)"

definition try_charge :: "naive_date \<Rightarrow> u64 \<Rightarrow> cap_state \<Rightarrow> (unit, cap_error) res \<times> cap_state" where
  "try_charge today lamports s0 =
    (let s = reset_if_new_day today s0 in
     if per_bundle_lamports (cap_cfg s) < lamports
     then (Err (PerBundleExceeded lamports (per_bundle_lamports (cap_cfg s))), s)
     else
       let left = sat_sub_w (daily_lamports (cap_cfg s)) (spent_today s) in
       if left < lamports then (Err (DailyExceeded lamports left), s)
       else (Ok (), s\<lparr>spent_today := sat_add_w (spent_today s) lamports\<rparr>))"

definition refund :: "u64 \<Rightarrow> cap_state \<Rightarrow> cap_state" where
  "refund lamports s = s\<lparr>spent_today := sat_sub_w (spent_today s) lamports\<rparr>"

definition cap_remaining :: "cap_state \<Rightarrow> u64" where
  "cap_remaining s = sat_sub_w (daily_lamports (cap_cfg s)) (spent_today s)"

section \<open>The snapshot\<close>

record cap_snapshot =
  snap_version :: u32
  snap_spent_today :: u64
  snap_last_reset :: naive_date
  snap_cfg :: cap_config

definition CAP_SNAPSHOT_VERSION :: u32 where
  "CAP_SNAPSHOT_VERSION = 1"

definition snapshot_of :: "cap_state \<Rightarrow> cap_snapshot" where
  "snapshot_of s = \<lparr>snap_version = CAP_SNAPSHOT_VERSION, snap_spent_today = spent_today s,
    snap_last_reset = last_reset s, snap_cfg = cap_cfg s\<rparr>"

definition state_of_snapshot :: "cap_snapshot \<Rightarrow> cap_state" where
  "state_of_snapshot n = \<lparr>spent_today = snap_spent_today n, last_reset = snap_last_reset n,
    cap_cfg = snap_cfg n\<rparr>"

datatype cap_snapshot_error = CapIo | CapBadJson | CapBadVersion u32 | CapAboveSanity u64
  | CapBundleAboveDaily u64 u64

text \<open>
  The JSON encoder and decoder are \<^verbatim>\<open>serde_json\<close>, arguments here. The file system is the
  content of the snapshot file and of its temporary sibling; \<^verbatim>\<open>persist\<close> is the sequence
  of its file operations, which a crash can cut short anywhere.
\<close>

record snapshot_fs =
  fs_target :: "u8 list option"
  fs_tmp :: "u8 list option"

datatype fs_op = CreateTmp | WriteTmp "u8 list" | SyncTmp | RenameTmp

fun fs_step :: "fs_op \<Rightarrow> snapshot_fs \<Rightarrow> snapshot_fs" where
  "fs_step CreateTmp fs = fs\<lparr>fs_tmp := Some []\<rparr>"
| "fs_step (WriteTmp bs) fs = fs\<lparr>fs_tmp := map_option (\<lambda>old. old @ bs) (fs_tmp fs)\<rparr>"
| "fs_step SyncTmp fs = fs"
| "fs_step RenameTmp fs = (case fs_tmp fs of None \<Rightarrow> fs
     | Some bs \<Rightarrow> fs\<lparr>fs_target := Some bs, fs_tmp := None\<rparr>)"

definition persist_ops :: "(cap_snapshot \<Rightarrow> u8 list) \<Rightarrow> cap_state \<Rightarrow> fs_op list" where
  "persist_ops to_json s = [CreateTmp, WriteTmp (to_json (snapshot_of s)), SyncTmp, RenameTmp]"

definition persist :: "(cap_snapshot \<Rightarrow> u8 list) \<Rightarrow> cap_state \<Rightarrow> snapshot_fs \<Rightarrow> snapshot_fs" where
  "persist to_json s fs = fold fs_step (persist_ops to_json s) fs"

definition load_snapshot ::
    "(u8 list \<Rightarrow> cap_snapshot option) \<Rightarrow> snapshot_fs \<Rightarrow> (cap_state, cap_snapshot_error) res" where
  "load_snapshot from_json fs =
    bind_res (ok_or (fs_target fs) CapIo) (\<lambda>bytes.
    bind_res (ok_or (from_json bytes) CapBadJson) (\<lambda>snap.
    if snap_version snap \<noteq> CAP_SNAPSHOT_VERSION then Err (CapBadVersion (snap_version snap))
    else if 1000000000000000 < daily_lamports (snap_cfg snap)
    then Err (CapAboveSanity (daily_lamports (snap_cfg snap)))
    else if daily_lamports (snap_cfg snap) < per_bundle_lamports (snap_cfg snap)
    then Err (CapBundleAboveDaily (per_bundle_lamports (snap_cfg snap)) (daily_lamports (snap_cfg snap)))
    else Ok (state_of_snapshot snap)))"

definition load_or_init ::
    "(cap_snapshot \<Rightarrow> u8 list) \<Rightarrow> (u8 list \<Rightarrow> cap_snapshot option) \<Rightarrow> naive_date \<Rightarrow> cap_config \<Rightarrow>
      snapshot_fs \<Rightarrow> (cap_state, cap_snapshot_error) res \<times> snapshot_fs" where
  "load_or_init to_json from_json today c fs =
    (if fs_target fs \<noteq> None then (load_snapshot from_json fs, fs)
     else let s = cap_new today c in (Ok s, persist to_json s fs))"

section \<open>Charging\<close>

definition cap_ok :: "cap_state \<Rightarrow> bool" where
  "cap_ok s \<longleftrightarrow> spent_today s \<le> daily_lamports (cap_cfg s)"

lemma cap_cfg_reset [simp]: "cap_cfg (reset_if_new_day d s) = cap_cfg s"
  by (simp add: reset_if_new_day_def)

lemma last_reset_reset [simp]: "last_reset (reset_if_new_day d s) = d"
  by (simp add: reset_if_new_day_def)

lemma try_charge_Ok:
  assumes "try_charge d x s = (Ok (), s')"
  shows "unat (spent_today s') = unat (spent_today (reset_if_new_day d s)) + unat x"
    and "last_reset s' = d" and "cap_cfg s' = cap_cfg s"
    and "unat (spent_today s') \<le> unat (daily_lamports (cap_cfg s)) \<or> x = 0"
    and "x \<le> per_bundle_lamports (cap_cfg s)"
proof -
  define r where "r = reset_if_new_day d s"
  have cond: "\<not> per_bundle_lamports (cap_cfg s) < x" "\<not> sat_sub_w (daily_lamports (cap_cfg s)) (spent_today r) < x"
    and s': "s' = r\<lparr>spent_today := sat_add_w (spent_today r) x\<rparr>"
    using assms by (auto simp: try_charge_def r_def [symmetric] Let_def split: if_splits) (auto simp: r_def)
  then have le: "unat x \<le> unat (daily_lamports (cap_cfg s)) - unat (spent_today r)"
    by (simp add: word_less_nat_alt unat_sat_sub_w)
  have "unat (daily_lamports (cap_cfg s)) < 2 ^ 64" using unat_bound [of "daily_lamports (cap_cfg s)"] by simp
  moreover have "unat (spent_today r) < 2 ^ 64" using unat_bound [of "spent_today r"] by simp
  ultimately have sum: "unat (sat_add_w (spent_today r) x) = unat (spent_today r) + unat x"
    using le by (auto simp: unat_sat_add_w)
  then show "unat (spent_today s') = unat (spent_today (reset_if_new_day d s)) + unat x"
    by (simp add: s' r_def)
  show "last_reset s' = d" "cap_cfg s' = cap_cfg s" by (simp_all add: s' r_def)
  show "x \<le> per_bundle_lamports (cap_cfg s)" using cond(1) by simp
  show "unat (spent_today s') \<le> unat (daily_lamports (cap_cfg s)) \<or> x = 0"
    using le sum by (auto simp: s' unat_eq_zero [symmetric] simp del: unat_eq_zero)
qed

lemma try_charge_fail:
  assumes "try_charge d x s = (Err e, s')"
  shows "s' = reset_if_new_day d s"
    and "per_bundle_lamports (cap_cfg s) < x \<or> cap_remaining s' < x"
  using assms by (auto simp: try_charge_def cap_remaining_def Let_def split: if_splits)

lemma try_charge_not_Panic: "fst (try_charge d x s) \<noteq> Panic"
  by (simp add: try_charge_def Let_def)

lemma cap_ok_reset: "cap_ok s \<Longrightarrow> cap_ok (reset_if_new_day d s)"
  by (auto simp: cap_ok_def reset_if_new_day_def)

lemma cap_ok_charge:
  assumes "cap_ok s"
  shows "cap_ok (snd (try_charge d x s))"
proof (cases "fst (try_charge d x s)")
  case (Ok u)
  then have "try_charge d x s = (Ok (), snd (try_charge d x s))" by (metis prod.collapse unit_eq)
  from try_charge_Ok [OF this] cap_ok_reset [OF assms, of d] show ?thesis
    by (auto simp: cap_ok_def word_le_nat_alt)
next
  case (Err e)
  then have "try_charge d x s = (Err e, snd (try_charge d x s))" by (metis prod.collapse)
  from try_charge_fail(1) [OF this] cap_ok_reset [OF assms, of d] show ?thesis by simp
next
  case Panic
  then show ?thesis using try_charge_not_Panic by blast
qed

lemma refund_charge:
  assumes "try_charge d x s = (Ok (), s')"
  shows "refund x s' = reset_if_new_day d s"
proof -
  define r where "r = reset_if_new_day d s"
  have s': "s' = r\<lparr>spent_today := sat_add_w (spent_today r) x\<rparr>"
    using assms by (auto simp: try_charge_def r_def [symmetric] Let_def split: if_splits)
  then have "unat (sat_add_w (spent_today r) x) = unat (spent_today r) + unat x"
    using try_charge_Ok(1) [OF assms] by (simp add: r_def)
  then have "sat_sub_w (sat_add_w (spent_today r) x) x = spent_today r"
    by (simp add: word_unat_eq_iff unat_sat_sub_w)
  then show ?thesis by (simp add: refund_def s' r_def)
qed

section \<open>The interface of a daily cap\<close>

text \<open>The charges that a run of dated requests gets accepted, in order.\<close>

fun accepted :: "('d \<Rightarrow> 'x \<Rightarrow> 's \<Rightarrow> bool \<times> 's) \<Rightarrow> ('d \<times> 'x) list \<Rightarrow> 's \<Rightarrow> ('d \<times> 'x) list" where
  "accepted charge [] s = []"
| "accepted charge ((d, x) # reqs) s =
    (case charge d x s of (ok, s') \<Rightarrow>
      (if ok then [(d, x)] else []) @ accepted charge reqs s')"

definition charged_on :: "('x \<Rightarrow> nat) \<Rightarrow> 'd \<Rightarrow> ('d \<times> 'x) list \<Rightarrow> nat" where
  "charged_on amount d cs = (\<Sum>(d', x)\<leftarrow>cs. if d' = d then amount x else 0)"

locale spending_cap =
  fixes charge :: "'d::linorder \<Rightarrow> 'x \<Rightarrow> 's \<Rightarrow> bool \<times> 's"
    and amount :: "'x \<Rightarrow> nat"
    and spent :: "'s \<Rightarrow> nat"
    and day :: "'s \<Rightarrow> 'd"
    and limit :: "'s \<Rightarrow> nat"
  assumes day_charge: "charge d x s = (ok, s') \<Longrightarrow> day s' = d \<or> \<not> ok \<and> day s' = day s"
    and limit_charge: "charge d x s = (ok, s') \<Longrightarrow> limit s' = limit s"
    and spent_charge: "charge d x s = (ok, s') \<Longrightarrow>
      spent s' = (if day s' = day s then spent s else 0) + (if ok then amount x else 0)"
    and spent_limit: "charge d x s = (ok, s') \<Longrightarrow> spent s \<le> limit s \<Longrightarrow> spent s' \<le> limit s"
begin

lemma accepted_days: "(d, x) \<in> set (accepted charge reqs s) \<Longrightarrow> (d, x) \<in> set reqs"
  by (induction charge reqs s rule: accepted.induct) (auto split: prod.splits if_splits)

lemma charged_before: "\<forall>r \<in> set cs. d < fst r \<Longrightarrow> charged_on amount d cs = 0" for d :: 'd
proof (induction cs)
  case (Cons c cs)
  then show ?case by (cases c) (auto simp: charged_on_def)
qed (simp add: charged_on_def)

lemma charged_within_limit:
  "sorted (map fst reqs) \<Longrightarrow> \<forall>r \<in> set reqs. day s \<le> fst r \<Longrightarrow> spent s \<le> limit s \<Longrightarrow>
    charged_on amount d (accepted charge reqs s) + (if d = day s then spent s else 0) \<le> limit s"
proof (induction reqs arbitrary: s)
  case (Cons r reqs)
  obtain d0 x where r: "r = (d0, x)" by (cases r)
  obtain ok s' where c: "charge d0 x s = (ok, s')" by (cases "charge d0 x s")
  note D = day_charge [OF c] and L = limit_charge [OF c] and S = spent_charge [OF c]
    and B = spent_limit [OF c Cons.prems(3)]
  have later: "\<forall>r \<in> set reqs. d0 \<le> fst r" using Cons.prems(1) by (simp add: r)
  have "day s' \<le> d0" using D Cons.prems(2) by (auto simp: r)
  then have ih: "charged_on amount d (accepted charge reqs s') + (if d = day s' then spent s' else 0) \<le> limit s"
    using Cons.IH [of s'] Cons.prems(1) later L B by (fastforce simp: r)
  have head: "charged_on amount d (accepted charge (r # reqs) s)
      = (if ok \<and> d = d0 then amount x else 0) + charged_on amount d (accepted charge reqs s')"
    by (auto simp: r c charged_on_def)
  consider "day s' = day s" | "day s' \<noteq> day s" "day s' = d0" using D by blast
  then show ?case
  proof cases
    case 1
    then show ?thesis using ih head S D by (auto split: if_splits)
  next
    case 2
    show ?thesis
    proof (cases "d = day s")
      case True
      then have "d < d0" using 2 Cons.prems(2) by (simp add: r order_less_le)
      then have "\<forall>r \<in> set (accepted charge reqs s'). d < fst r"
        using later accepted_days by fastforce
      then show ?thesis using True 2 head Cons.prems(3) by (simp add: charged_before)
    next
      case False
      then show ?thesis using 2 head ih S by (auto split: if_splits)
    qed
  qed
qed (simp add: charged_on_def)

end

definition charge_step :: "naive_date \<Rightarrow> u64 \<Rightarrow> cap_state \<Rightarrow> bool \<times> cap_state" where
  "charge_step d x s = (is_ok (fst (try_charge d x s)), snd (try_charge d x s))"

interpretation cap: spending_cap charge_step unat "\<lambda>s. unat (spent_today s)" last_reset
  "\<lambda>s. unat (daily_lamports (cap_cfg s))"
proof
  fix d x s ok s'
  assume c: "charge_step d x s = (ok, s')"
  have cases: "(ok \<and> try_charge d x s = (Ok (), s')) \<or> (\<exists>e. \<not> ok \<and> try_charge d x s = (Err e, s'))"
    using c try_charge_not_Panic [of d x s]
    by (cases "try_charge d x s"; cases "fst (try_charge d x s)") (auto simp: charge_step_def)
  have day: "last_reset s' = d" using cases try_charge_Ok(2) try_charge_fail(1) by fastforce
  then show "last_reset s' = d \<or> \<not> ok \<and> last_reset s' = last_reset s" ..
  show "unat (daily_lamports (cap_cfg s')) = unat (daily_lamports (cap_cfg s))"
    using cases try_charge_Ok(3) try_charge_fail(1) by fastforce
  have reset: "unat (spent_today (reset_if_new_day d s)) = (if d = last_reset s then unat (spent_today s) else 0)"
    by (simp add: reset_if_new_day_def)
  show "unat (spent_today s') = (if last_reset s' = last_reset s then unat (spent_today s) else 0) + (if ok then unat x else 0)"
    unfolding day using cases try_charge_Ok(1) try_charge_fail(1) reset by fastforce
  assume "unat (spent_today s) \<le> unat (daily_lamports (cap_cfg s))"
  then have "cap_ok (snd (try_charge d x s))" by (intro cap_ok_charge) (simp add: cap_ok_def word_le_nat_alt)
  moreover have "snd (try_charge d x s) = s'" using c by (simp add: charge_step_def)
  moreover have "cap_cfg s' = cap_cfg s" using cases try_charge_Ok(3) try_charge_fail(1) by fastforce
  ultimately show "unat (spent_today s') \<le> unat (daily_lamports (cap_cfg s))"
    by (simp add: cap_ok_def word_le_nat_alt)
qed

text \<open>
  C33. The cap holds over every run: whatever is requested, as long as the clock does not go
  back, the charges accepted on any one day add up to at most the daily limit (with what was already
  spent that day), and no accepted charge exceeds the per-bundle limit.
\<close>

theorem daily_cap_enforced:
  assumes "sorted (map fst reqs)" and "\<forall>r \<in> set reqs. last_reset s \<le> fst r" and "cap_ok s"
  shows "charged_on unat d (accepted charge_step reqs s) + (if d = last_reset s then unat (spent_today s) else 0)
      \<le> unat (daily_lamports (cap_cfg s))
    \<and> list_all (\<lambda>(d, x). x \<le> per_bundle_lamports (cap_cfg s)) (accepted charge_step reqs s)"
proof
  show "charged_on unat d (accepted charge_step reqs s) + (if d = last_reset s then unat (spent_today s) else 0)
      \<le> unat (daily_lamports (cap_cfg s))"
    using cap.charged_within_limit [OF assms(1,2)] assms(3) by (simp add: cap_ok_def word_le_nat_alt)
next
  have "cap_cfg s = c \<Longrightarrow> list_all (\<lambda>(d, x). x \<le> per_bundle_lamports c) (accepted charge_step reqs s)" for c
  proof (induction charge_step reqs s rule: accepted.induct)
    case (2 d x reqs s)
    obtain ok s' where c: "charge_step d x s = (ok, s')" by (cases "charge_step d x s")
    have "ok \<Longrightarrow> try_charge d x s = (Ok (), s')"
      using c by (cases "try_charge d x s"; cases "fst (try_charge d x s)") (auto simp: charge_step_def)
    then have "ok \<Longrightarrow> x \<le> per_bundle_lamports (cap_cfg s)" using try_charge_Ok(5) by blast
    moreover have "cap_cfg s' = cap_cfg s"
    proof (cases "fst (try_charge d x s)")
      case (Ok u)
      then have "try_charge d x s = (Ok (), s')" using c by (auto simp: charge_step_def intro: prod_eqI)
      then show ?thesis by (rule try_charge_Ok(3))
    next
      case (Err e)
      then have "try_charge d x s = (Err e, s')" using c by (auto simp: charge_step_def intro: prod_eqI)
      then show ?thesis using try_charge_fail(1) by fastforce
    qed (use try_charge_not_Panic in blast)
    ultimately show ?case using 2 c by auto
  qed simp
  then show "list_all (\<lambda>(d, x). x \<le> per_bundle_lamports (cap_cfg s)) (accepted charge_step reqs s)" by simp
qed

definition small_cap :: cap_state where
  "small_cap = cap_new 1 \<lparr>daily_lamports = 100, per_bundle_lamports = 60\<rparr>"

theorem daily_cap_enforced_witness:
  "accepted charge_step [(1, 60), (1, 50), (1, 40), (2, 70), (2, 60)] small_cap = [(1, 60), (1, 40), (2, 60)]
    \<and> charged_on unat 1 (accepted charge_step [(1, 60), (1, 50), (1, 40), (2, 70), (2, 60)] small_cap) \<le> 100"
proof -
  have "accepted charge_step [(1, 60), (1, 50), (1, 40), (2, 70), (2, 60)] small_cap = [(1, 60), (1, 40), (2, 60)]"
    by (simp add: small_cap_def cap_new_def charge_step_def try_charge_def reset_if_new_day_def Let_def
        sat_sub_w_def sat_add_w_def)
  moreover have "cap_ok small_cap" "last_reset small_cap = 1" "unat (daily_lamports (cap_cfg small_cap)) = 100"
    "spent_today small_cap = 0"
    by (simp_all add: small_cap_def cap_new_def cap_ok_def)
  ultimately show ?thesis
    using daily_cap_enforced [of "[(1, 60), (1, 50), (1, 40), (2, 70), (2, 60)]" small_cap 1] by simp
qed

text \<open>
  A refund counts against the day it arrives on, not the day of the charge: a bundle
  charged before midnight and refunded after the first charge of the next day lets that day spend
  twice the daily limit.
\<close>

theorem refund_after_midnight_doubles_cap:
  "\<exists>s1 s2 s4. try_charge 1 100 (cap_new 1 \<lparr>daily_lamports = 100, per_bundle_lamports = 100\<rparr>) = (Ok (), s1)
    \<and> try_charge 2 100 s1 = (Ok (), s2) \<and> try_charge 2 100 (refund 100 s2) = (Ok (), s4)
    \<and> daily_lamports (cap_cfg s4) = 100 \<and> spent_today s4 = 100"
  by (simp add: cap_new_def try_charge_def reset_if_new_day_def refund_def Let_def sat_sub_w_def sat_add_w_def)

section \<open>Persistence\<close>

definition cfg_sane :: "cap_config \<Rightarrow> bool" where
  "cfg_sane c \<longleftrightarrow> daily_lamports c \<le> 1000000000000000 \<and> per_bundle_lamports c \<le> daily_lamports c"

lemma persist_eq [simp]: "persist to_json s fs = fs\<lparr>fs_target := Some (to_json (snapshot_of s)), fs_tmp := None\<rparr>"
  by (simp add: persist_def persist_ops_def)

lemma load_persisted:
  assumes "from_json (to_json (snapshot_of s)) = Some (snapshot_of s)" and "cfg_sane (cap_cfg s)"
    and "fs_target fs = Some (to_json (snapshot_of s))"
  shows "load_snapshot from_json fs = Ok s"
  using assms by (simp add: load_snapshot_def ok_or_def snapshot_of_def state_of_snapshot_def
      cfg_sane_def not_less)

lemma take_persist_ops:
  "fs_target (fold fs_step (take k (persist_ops to_json s)) fs)
    = (if 4 \<le> k then Some (to_json (snapshot_of s)) else fs_target fs)"
  by (cases k; cases "k - 1"; cases "k - 2"; cases "k - 3") (simp_all add: persist_ops_def)


definition toy_json :: "cap_snapshot \<Rightarrow> u8 list" where
  "toy_json n = [ucast (snap_spent_today n)]"

definition toy_parse :: "u8 list \<Rightarrow> cap_snapshot option" where
  "toy_parse bs = (case bs of [b] \<Rightarrow>
    Some \<lparr>snap_version = 1, snap_spent_today = ucast b, snap_last_reset = 1, snap_cfg = cap_config_default\<rparr>
    | _ \<Rightarrow> None)"

definition toy_cap :: "u64 \<Rightarrow> cap_state" where
  "toy_cap n = \<lparr>spent_today = n, last_reset = 1, cap_cfg = cap_config_default\<rparr>"

lemma toy_json_inverse:
  "toy_parse (toy_json (snapshot_of (toy_cap 5))) = Some (snapshot_of (toy_cap 5))"
  "toy_parse (toy_json (snapshot_of (toy_cap 0))) = Some (snapshot_of (toy_cap 0))"
  "cfg_sane cap_config_default"
  by (simp_all add: toy_parse_def toy_json_def snapshot_of_def toy_cap_def CAP_SNAPSHOT_VERSION_def
      cfg_sane_def cap_config_default_def)


text \<open>
  The configuration handed to the start-up helper is ignored once a snapshot file exists:
  the limits that were saved win. A wallet whose snapshot was written with the default 5 SOL a day
  keeps that limit when restarted with the mainnet floor of 0.5 SOL a day, ten times the floor.
\<close>

theorem load_or_init_ignores_floor:
  assumes "from_json (to_json (snapshot_of (cap_new d cap_config_default)))
      = Some (snapshot_of (cap_new d cap_config_default))"
    and "load_or_init to_json from_json d cap_config_default \<lparr>fs_target = None, fs_tmp = None\<rparr> = (r1, fs)"
  shows "\<exists>s. load_or_init to_json from_json d' (with_mainnet_floor None None) fs = (Ok s, fs)
    \<and> unat (daily_lamports (cap_cfg s)) = 10 * unat MAINNET_DAILY_CAP_FLOOR_LAMPORTS"
proof -
  have "load_snapshot from_json \<lparr>fs_target = Some (to_json (snapshot_of (cap_new d cap_config_default))),
      fs_tmp = None\<rparr> = Ok (cap_new d cap_config_default)"
    by (rule load_persisted [of from_json to_json, OF assms(1)]) (simp_all add: cap_new_def toy_json_inverse)
  moreover have "fs = \<lparr>fs_target = Some (to_json (snapshot_of (cap_new d cap_config_default))), fs_tmp = None\<rparr>"
    using assms(2) by (simp add: load_or_init_def Let_def)
  moreover have "unat (daily_lamports (cap_cfg (cap_new d cap_config_default)))
      = 10 * unat MAINNET_DAILY_CAP_FLOOR_LAMPORTS"
    by (simp add: cap_new_def cap_config_default_def MAINNET_DAILY_CAP_FLOOR_LAMPORTS_def)
  ultimately show ?thesis by (simp add: load_or_init_def)
qed

theorem load_or_init_ignores_floor_witness:
  "\<exists>s. fst (load_or_init toy_json toy_parse 9 (with_mainnet_floor None None)
      \<lparr>fs_target = Some (toy_json (snapshot_of (cap_new 1 cap_config_default))), fs_tmp = None\<rparr>) = Ok s
    \<and> unat (daily_lamports (cap_cfg s)) = 5000000000"
proof -
  let ?fs = "\<lparr>fs_target = Some (toy_json (snapshot_of (cap_new 1 cap_config_default))), fs_tmp = None\<rparr>"
  have new: "cap_new 1 cap_config_default = toy_cap 0" by (simp add: cap_new_def toy_cap_def)
  have "load_or_init toy_json toy_parse 1 cap_config_default \<lparr>fs_target = None, fs_tmp = None\<rparr>
      = (Ok (toy_cap 0), ?fs)"
    by (simp add: load_or_init_def Let_def new)
  from load_or_init_ignores_floor [OF _ this, of 9] toy_json_inverse(2) show ?thesis
    by (auto simp: new MAINNET_DAILY_CAP_FLOOR_LAMPORTS_def)
qed

end
