(* ===== verification/Executor.thy ===== *)
theory Executor
  imports Pool
begin

text \<open>
  \<^verbatim>\<open>crates/dl-executor/src\<close>: the errors, the kill switch (\<^verbatim>\<open>killswitch.rs\<close>), the tip
  (\<^verbatim>\<open>tip.rs\<close>) and the landing poll (\<^verbatim>\<open>landing.rs\<close>). The presence of the STOP file, the
  answers of the Jito client and the time they take are arguments.
\<close>

datatype kill_reason = StopSentinel | ConsecutiveLosses u32 u32

datatype assembly_fault =
    EmptyTxList
  | NoSwapLegs
  | TooManyLegs nat
  | NoTipLeg
  | TxCount nat nat
  | AssertSlot nat "pubkey option" pubkey
  | Opportunity

datatype tip_fault = TipBps u16 | TipMin u64

text \<open>A message that comes from another library is not kept; a message of the crate is its parts.\<close>

datatype executor_error =
    JupiterQuote
  | JupiterDeserialize
  | JitoSubmit
  | BundleAssembly assembly_fault
  | TipConfig tip_fault
  | Signer
  | SimulateFailed
  | SimulateNegativeNet i64
  | KillSwitchTripped kill_reason
  | LandingPoll

section \<open>Kill switch\<close>

record kill_switch =
  max_consecutive_losses :: u32
  consecutive_losses :: u32

datatype bundle_outcome = BundleLanded | BundleLost | BundlePending

definition killswitch_new :: "u32 \<Rightarrow> kill_switch" where
  "killswitch_new max_losses = \<lparr>max_consecutive_losses = max_losses, consecutive_losses = 0\<rparr>"

definition DEFAULT_MAX_LOSSES :: u32 where
  "DEFAULT_MAX_LOSSES = 3"

definition record_outcome :: "bundle_outcome \<Rightarrow> kill_switch \<Rightarrow> (unit, executor_error) res \<times> kill_switch" where
  "record_outcome outcome ks =
    (case outcome of
       BundleLanded \<Rightarrow> (Ok (), ks\<lparr>consecutive_losses := 0\<rparr>)
     | BundleLost \<Rightarrow>
         (let ks' = ks\<lparr>consecutive_losses := sat_add_w (consecutive_losses ks) 1\<rparr> in
          if max_consecutive_losses ks' \<le> consecutive_losses ks'
          then (Err (KillSwitchTripped (ConsecutiveLosses (consecutive_losses ks') (max_consecutive_losses ks'))), ks')
          else (Ok (), ks'))
     | BundlePending \<Rightarrow> (Ok (), ks))"

definition check_stop_file :: "bool \<Rightarrow> (unit, executor_error) res" where
  "check_stop_file stop_file_present =
    (if stop_file_present then Err (KillSwitchTripped StopSentinel) else Ok ())"

definition killswitch_check :: "bool \<Rightarrow> kill_switch \<Rightarrow> (unit, executor_error) res" where
  "killswitch_check stop_file_present ks =
    bind_res (check_stop_file stop_file_present) (\<lambda>_.
      if max_consecutive_losses ks \<le> consecutive_losses ks
      then Err (KillSwitchTripped (ConsecutiveLosses (consecutive_losses ks) (max_consecutive_losses ks)))
      else Ok ())"

definition killswitch_reset :: "kill_switch \<Rightarrow> kill_switch" where
  "killswitch_reset ks = ks\<lparr>consecutive_losses := 0\<rparr>"

section \<open>Tip\<close>

record tip_config =
  tip_bps :: u16
  tip_min_lamports :: u64

definition tip_config_default :: tip_config where
  "tip_config_default = \<lparr>tip_bps = 50, tip_min_lamports = 10000\<rparr>"

definition tip_lamports :: "i128 \<Rightarrow> tip_config \<Rightarrow> u64" where
  "tip_lamports net_pnl_lamports c =
    (if tip_min_lamports c = 0 then 0
     else if 0 < net_pnl_lamports \<and> 0 < tip_bps c then
       (let raw = sat_mul_w (as_u128 net_pnl_lamports) (ucast (tip_bps c)) div 10000;
            raw_u64 = (ucast (min raw 0xFFFFFFFFFFFFFFFF) :: u64)
        in max raw_u64 (tip_min_lamports c))
     else tip_min_lamports c)"

definition tip_validate_config :: "tip_config \<Rightarrow> (unit, executor_error) res" where
  "tip_validate_config c =
    (if 10000 < tip_bps c then Err (TipConfig (TipBps (tip_bps c)))
     else if 0 < tip_min_lamports c \<and> tip_min_lamports c < 1000 then Err (TipConfig (TipMin (tip_min_lamports c)))
     else Ok ())"

section \<open>Landing poll\<close>

datatype landing_result = Landed u64 | Lost | Pending

record landing_poll_config =
  timeout_ms :: nat
  initial_poll_interval_ms :: nat
  max_poll_interval_ms :: nat

definition poll_config_default :: landing_poll_config where
  "poll_config_default = \<lparr>timeout_ms = 30000, initial_poll_interval_ms = 100, max_poll_interval_ms = 2000\<rparr>"

text \<open>
  \<open>scale\<close> is the multiplication by the \<^verbatim>\<open>f64\<close> backoff factor; \<open>poll k\<close> is the answer to
  the \<open>k\<close>-th call of \<^verbatim>\<open>poll_fn\<close> and \<open>lat k\<close> the milliseconds it takes. \<open>fuel\<close> bounds the number of
  iterations of the \<^verbatim>\<open>loop\<close>; \<open>None\<close> is a loop that has not returned within it.
\<close>

definition next_interval :: "(nat \<Rightarrow> nat) \<Rightarrow> nat \<Rightarrow> nat \<Rightarrow> nat" where
  "next_interval scale current mx = (let nxt = scale current in if mx < nxt then mx else nxt)"

fun poll_loop ::
    "(nat \<Rightarrow> nat) \<Rightarrow> landing_poll_config \<Rightarrow> (nat \<Rightarrow> (landing_result, executor_error) res) \<Rightarrow> (nat \<Rightarrow> nat) \<Rightarrow>
      nat \<Rightarrow> nat \<Rightarrow> nat \<Rightarrow> nat \<Rightarrow> (landing_result, executor_error) res option" where
  "poll_loop scale cfg poll lat 0 k elapsed interval = None"
| "poll_loop scale cfg poll lat (Suc fuel) k elapsed interval =
    (let now = elapsed + lat k in
     case poll k of
       Ok Pending \<Rightarrow>
         if timeout_ms cfg \<le> now then Some (Ok Pending)
         else poll_loop scale cfg poll lat fuel (Suc k) (now + interval)
           (next_interval scale interval (max_poll_interval_ms cfg))
     | r \<Rightarrow> Some r)"

definition poll_bundle_landing ::
    "(nat \<Rightarrow> nat) \<Rightarrow> landing_poll_config \<Rightarrow> (nat \<Rightarrow> (landing_result, executor_error) res) \<Rightarrow> (nat \<Rightarrow> nat) \<Rightarrow>
      nat \<Rightarrow> (landing_result, executor_error) res option" where
  "poll_bundle_landing scale cfg poll lat fuel =
    poll_loop scale cfg poll lat fuel 0 0 (initial_poll_interval_ms cfg)"


section \<open>The circuit breaker\<close>

text \<open>The losses of a run of outcomes since the last landing; a pending bundle does not count.\<close>

fun losses_since_landing :: "bundle_outcome list \<Rightarrow> nat \<Rightarrow> nat" where
  "losses_since_landing [] n = n"
| "losses_since_landing (BundleLanded # os) n = losses_since_landing os 0"
| "losses_since_landing (BundleLost # os) n = losses_since_landing os (Suc n)"
| "losses_since_landing (BundlePending # os) n = losses_since_landing os n"

definition record_all :: "bundle_outcome list \<Rightarrow> kill_switch \<Rightarrow> kill_switch" where
  "record_all os ks = fold (\<lambda>out ks. snd (record_outcome out ks)) os ks"

lemma record_max [simp]:
  "max_consecutive_losses (snd (record_outcome out ks)) = max_consecutive_losses ks"
  by (cases out) (simp_all add: record_outcome_def Let_def)

lemma record_losses:
  "unat (consecutive_losses (snd (record_outcome out ks))) =
    min (losses_since_landing [out] (unat (consecutive_losses ks))) (2 ^ 32 - 1)"
  using unat_bound [of "consecutive_losses ks"]
  by (cases out) (auto simp: record_outcome_def Let_def unat_sat_add_w)

lemma losses_from_bound:
  "b \<le> i \<Longrightarrow> b \<le> j \<Longrightarrow> min (losses_since_landing os i) b = min (losses_since_landing os j) b"
proof (induction os arbitrary: i j)
  case (Cons out os)
  show ?case
    using Cons.prems Cons.IH [of "Suc i" "Suc j"] Cons.IH [of i j]
    by (cases out) simp_all
qed simp

lemma losses_min:
  "min (losses_since_landing os (min n b)) b = min (losses_since_landing os n) b"
proof (cases "n \<le> b")
  case True
  then show ?thesis by simp
next
  case False
  then have "min (losses_since_landing os b) b = min (losses_since_landing os n) b"
    by (intro losses_from_bound) simp_all
  with False show ?thesis by (simp add: min.absorb2)
qed

lemma record_all_max [simp]: "max_consecutive_losses (record_all os ks) = max_consecutive_losses ks"
  by (induction os arbitrary: ks) (simp_all add: record_all_def)

lemma record_all_losses:
  "unat (consecutive_losses (record_all os ks)) =
    min (losses_since_landing os (unat (consecutive_losses ks))) (2 ^ 32 - 1)"
proof (induction os arbitrary: ks)
  case Nil
  then show ?case using unat_bound [of "consecutive_losses ks"] by (simp add: record_all_def)
next
  case (Cons out os)
  let ?n = "unat (consecutive_losses ks)"
  have "unat (consecutive_losses (record_all (out # os) ks)) =
      min (losses_since_landing os (min (losses_since_landing [out] ?n) (2 ^ 32 - 1))) (2 ^ 32 - 1)"
    using Cons.IH [of "snd (record_outcome out ks)"] by (simp only: record_losses) (simp add: record_all_def)
  also have "\<dots> = min (losses_since_landing os (losses_since_landing [out] ?n)) (2 ^ 32 - 1)"
    by (rule losses_min)
  also have "losses_since_landing os (losses_since_landing [out] ?n) = losses_since_landing (out # os) ?n"
    by (cases out) simp_all
  finally show ?case .
qed

lemma killswitch_check_Ok_iff:
  "killswitch_check stop ks = Ok () \<longleftrightarrow> \<not> stop \<and> consecutive_losses ks < max_consecutive_losses ks"
  by (auto simp: killswitch_check_def check_stop_file_def not_le)


section \<open>The tip, exactly\<close>

text \<open>The tip is the stated share of a positive net, at least the configured minimum and
  saturated at \<^verbatim>\<open>u64::MAX\<close>; it is the minimum for a losing cycle, and zero when the minimum
  is zero, however large the net.\<close>

theorem tip_lamports_exact:
  assumes "in_range 128 net"
  shows "unat (tip_lamports net c) =
      (if tip_min_lamports c = 0 then 0
       else max (unat (tip_min_lamports c))
         (min (min (nat net * unat (tip_bps c)) (2 ^ 128 - 1) div 10000) (2 ^ 64 - 1)))"
proof (cases "tip_min_lamports c = 0 \<or> net \<le> 0 \<or> tip_bps c = 0")
  case True
  then show ?thesis
    by (auto simp: tip_lamports_def word_less_nat_alt unat_eq_zero [symmetric] simp del: unat_eq_zero)
next
  case False
  then have pos: "0 < net" and bps: "0 < tip_bps c" and mn: "tip_min_lamports c \<noteq> 0"
    by (auto simp: word_neq_0_conv)
  have net128: "unat (as_u128 net) = nat net"
    using assms pos by (simp add: as_u128_def in_range_def smin_def smax_def unat_eq_nat_uint uint_word_of_int)
  define raw where "raw = sat_mul_w (as_u128 net) (ucast (tip_bps c)) div 10000"
  have raw: "unat raw = min (nat net * unat (tip_bps c)) (2 ^ 128 - 1) div 10000"
    by (simp add: raw_def unat_div unat_sat_mul_w net128 unat_ucast_up)
  have cap: "unat (ucast (min raw 0xFFFFFFFFFFFFFFFF) :: u64) = min (unat raw) (2 ^ 64 - 1)"
  proof -
    have m: "unat (min raw 0xFFFFFFFFFFFFFFFF) = min (unat raw) (2 ^ 64 - 1)"
      by (simp add: min_def word_le_nat_alt)
    then have "unat (min raw 0xFFFFFFFFFFFFFFFF) < 2 ^ 64" by simp
    then have "take_bit LENGTH(64) (unat (min raw 0xFFFFFFFFFFFFFFFF)) = unat (min raw 0xFFFFFFFFFFFFFFFF)"
      by (intro take_bit_nat_eq_self) simp
    then show ?thesis by (simp only: unsigned_ucast_eq m)
  qed
  have "tip_lamports net c = max (ucast (min raw 0xFFFFFFFFFFFFFFFF)) (tip_min_lamports c)"
    using pos bps mn by (simp add: tip_lamports_def Let_def raw_def)
  moreover have "unat (max x y) = max (unat x) (unat y)" for x y :: u64
    by (simp add: max_def word_le_nat_alt)
  ultimately show ?thesis using mn by (simp only: cap raw max.commute if_False)
qed

lemma tip_lamports_exact_witness:
  "unat (tip_lamports 100000000 tip_config_default) = 500000 \<and> in_range 128 (100000000 :: int)"
  using tip_lamports_exact [of 100000000 tip_config_default]
  by (simp add: in_range_def smin_def smax_def tip_config_default_def)

section \<open>The landing poll returns\<close>

definition interval_at :: "(nat \<Rightarrow> nat) \<Rightarrow> nat \<Rightarrow> nat \<Rightarrow> nat \<Rightarrow> nat" where
  "interval_at scale mx start j = ((\<lambda>i. next_interval scale i mx) ^^ j) start"

text \<open>The milliseconds from the start of the poll to its call \<open>n\<close>, and to the answer of it.\<close>

definition poll_started :: "(nat \<Rightarrow> nat) \<Rightarrow> landing_poll_config \<Rightarrow> (nat \<Rightarrow> nat) \<Rightarrow> nat \<Rightarrow> nat" where
  "poll_started scale cfg lat n =
    (\<Sum>j<n. lat j + interval_at scale (max_poll_interval_ms cfg) (initial_poll_interval_ms cfg) j)"

definition poll_answered :: "(nat \<Rightarrow> nat) \<Rightarrow> landing_poll_config \<Rightarrow> (nat \<Rightarrow> nat) \<Rightarrow> nat \<Rightarrow> nat" where
  "poll_answered scale cfg lat n = poll_started scale cfg lat n + lat n"

lemma next_interval_pos:
  "(\<And>x. 1 \<le> x \<Longrightarrow> 1 \<le> scale x) \<Longrightarrow> 1 \<le> mx \<Longrightarrow> 1 \<le> i \<Longrightarrow> 1 \<le> next_interval scale i mx"
  by (simp add: next_interval_def Let_def)

lemma interval_at_pos:
  "(\<And>x. 1 \<le> x \<Longrightarrow> 1 \<le> scale x) \<Longrightarrow> 1 \<le> mx \<Longrightarrow> 1 \<le> i \<Longrightarrow> 1 \<le> interval_at scale mx i j"
proof (induction j)
  case (Suc j)
  then show ?case using next_interval_pos [of scale mx "interval_at scale mx i j"] by (simp add: interval_at_def)
qed (simp add: interval_at_def)

lemma poll_loop_stops:
  "poll k \<noteq> Ok Pending \<or> timeout_ms cfg \<le> e + lat k \<Longrightarrow>
    poll_loop scale cfg poll lat (Suc fuel) k e i = Some (poll k)"
  by (cases "poll k") (auto simp: Let_def split: landing_result.splits)

lemma poll_loop_continues:
  "poll k = Ok Pending \<Longrightarrow> e + lat k < timeout_ms cfg \<Longrightarrow>
    poll_loop scale cfg poll lat (Suc fuel) k e i =
      poll_loop scale cfg poll lat fuel (Suc k) (e + lat k + i) (next_interval scale i (max_poll_interval_ms cfg))"
  by simp

lemma poll_loop_result:
  assumes scale: "\<And>x. 1 \<le> x \<Longrightarrow> 1 \<le> scale x" and mx: "1 \<le> max_poll_interval_ms cfg"
    and init: "1 \<le> initial_poll_interval_ms cfg"
  shows "timeout_ms cfg < poll_started scale cfg lat k + Suc fuel \<Longrightarrow>
    \<exists>n. k \<le> n \<and> n \<le> k + fuel \<and>
      (\<forall>j. k \<le> j \<and> j < n \<longrightarrow> poll j = Ok Pending \<and> poll_answered scale cfg lat j < timeout_ms cfg)
    \<and> (poll n \<noteq> Ok Pending \<or> timeout_ms cfg \<le> poll_answered scale cfg lat n)
    \<and> poll_loop scale cfg poll lat (Suc fuel) k (poll_started scale cfg lat k)
        (interval_at scale (max_poll_interval_ms cfg) (initial_poll_interval_ms cfg) k) = Some (poll n)"
proof (induction fuel arbitrary: k)
  case 0
  then have "timeout_ms cfg \<le> poll_started scale cfg lat k + lat k" by simp
  then show ?case
    by (intro exI [of _ k]) (auto simp: poll_loop_stops poll_answered_def simp del: poll_loop.simps)
next
  case (Suc fuel)
  let ?i = "interval_at scale (max_poll_interval_ms cfg) (initial_poll_interval_ms cfg)"
  show ?case
  proof (cases "poll k \<noteq> Ok Pending \<or> timeout_ms cfg \<le> poll_answered scale cfg lat k")
    case True
    then show ?thesis
      by (intro exI [of _ k]) (auto simp: poll_loop_stops poll_answered_def simp del: poll_loop.simps)
  next
    case False
    have start: "poll_started scale cfg lat k + lat k + ?i k = poll_started scale cfg lat (Suc k)"
      by (simp add: poll_started_def)
    have int: "next_interval scale (?i k) (max_poll_interval_ms cfg) = ?i (Suc k)"
      by (simp add: interval_at_def)
    have step: "poll_loop scale cfg poll lat (Suc (Suc fuel)) k (poll_started scale cfg lat k) (?i k)
        = poll_loop scale cfg poll lat (Suc fuel) (Suc k) (poll_started scale cfg lat (Suc k)) (?i (Suc k))"
      using False poll_loop_continues [of poll k "poll_started scale cfg lat k" lat cfg scale "Suc fuel" "?i k"]
      by (simp only: start int poll_answered_def) (simp add: not_le del: poll_loop.simps)
    have "1 \<le> ?i k" using interval_at_pos [OF scale mx init] by simp
    then have "timeout_ms cfg < poll_started scale cfg lat (Suc k) + Suc fuel"
      using Suc.prems start by linarith
    from Suc.IH [OF this] obtain n where n: "Suc k \<le> n" "n \<le> Suc k + fuel"
      "\<forall>j. Suc k \<le> j \<and> j < n \<longrightarrow> poll j = Ok Pending \<and> poll_answered scale cfg lat j < timeout_ms cfg"
      "poll n \<noteq> Ok Pending \<or> timeout_ms cfg \<le> poll_answered scale cfg lat n"
      "poll_loop scale cfg poll lat (Suc fuel) (Suc k) (poll_started scale cfg lat (Suc k)) (?i (Suc k)) = Some (poll n)"
      by blast
    have "\<forall>j. k \<le> j \<and> j < n \<longrightarrow> poll j = Ok Pending \<and> poll_answered scale cfg lat j < timeout_ms cfg"
      using False n(3) by (metis Suc_leI le_neq_implies_less not_le)
    with n step show ?thesis by (intro exI [of _ n]) (simp del: poll_loop.simps)
  qed
qed

text \<open>C39. The landing poll returns: with intervals of at least a millisecond and a backoff
  that does not shrink one to zero, \<open>timeout_ms + 1\<close> iterations are enough. It returns the first
  answer that is not \<open>Pending\<close> (an error of the client included), or \<open>Pending\<close> once a pending
  answer arrives at or after the timeout; every earlier answer was pending and in time.\<close>

theorem poll_bundle_landing_returns:
  assumes "\<And>x. 1 \<le> x \<Longrightarrow> 1 \<le> scale x" and "1 \<le> max_poll_interval_ms cfg"
    and "1 \<le> initial_poll_interval_ms cfg"
  shows "\<exists>n \<le> timeout_ms cfg.
    poll_bundle_landing scale cfg poll lat (Suc (timeout_ms cfg)) = Some (poll n)
    \<and> (\<forall>j<n. poll j = Ok Pending \<and> poll_answered scale cfg lat j < timeout_ms cfg)
    \<and> (poll n \<noteq> Ok Pending \<or> timeout_ms cfg \<le> poll_answered scale cfg lat n)"
proof -
  have "timeout_ms cfg < poll_started scale cfg lat 0 + Suc (timeout_ms cfg)" by simp
  from poll_loop_result [of scale cfg, OF assms this, of poll]
  show ?thesis
    by (auto simp: poll_bundle_landing_def poll_started_def interval_at_def simp del: poll_loop.simps)
qed

lemma poll_bundle_landing_returns_witness:
  "(\<exists>n \<le> 30000. poll_bundle_landing (\<lambda>i. i * 3 div 2) poll_config_default (\<lambda>k. Ok Pending) (\<lambda>k. 20) 30001
      = Some (Ok Pending) \<and> 30000 \<le> poll_answered (\<lambda>i. i * 3 div 2) poll_config_default (\<lambda>k. 20) n)"
proof -
  have sc: "\<forall>x::nat. x \<ge> 1 \<longrightarrow> 1 \<le> x * 3 div 2" by auto
  have t: "timeout_ms poll_config_default = 30000" "Suc 30000 = 30001"
    by (simp_all add: poll_config_default_def)
  have "\<exists>n \<le> timeout_ms poll_config_default.
      poll_bundle_landing (\<lambda>i. i * 3 div 2) poll_config_default (\<lambda>k. Ok Pending) (\<lambda>k. 20)
        (Suc (timeout_ms poll_config_default)) = Some (Ok Pending)
      \<and> (\<forall>j<n. (Ok Pending :: (landing_result, executor_error) res) = Ok Pending
          \<and> poll_answered (\<lambda>i. i * 3 div 2) poll_config_default (\<lambda>k. 20) j < timeout_ms poll_config_default)
      \<and> ((Ok Pending :: (landing_result, executor_error) res) \<noteq> Ok Pending
          \<or> timeout_ms poll_config_default \<le> poll_answered (\<lambda>i. i * 3 div 2) poll_config_default (\<lambda>k. 20) n)"
    by (rule poll_bundle_landing_returns) (use sc in \<open>simp_all add: poll_config_default_def\<close>)
  then show "\<exists>n \<le> 30000. poll_bundle_landing (\<lambda>i. i * 3 div 2) poll_config_default (\<lambda>k. Ok Pending) (\<lambda>k. 20) 30001
      = Some (Ok Pending) \<and> 30000 \<le> poll_answered (\<lambda>i. i * 3 div 2) poll_config_default (\<lambda>k. 20) n"
    unfolding t by blast
qed

end
