(* ===== verification/Bundle.thy ===== *)
theory Bundle
  imports Executor
begin

text \<open>
  \<^verbatim>\<open>crates/dl-executor/src/simulate.rs\<close>, \<^verbatim>\<open>bundle.rs\<close> and \<^verbatim>\<open>signer_integration.rs\<close>: the simulate
  gate, the bundle builder and the signing of its transactions. The types of \<^verbatim>\<open>solana_sdk\<close> are
  records of the fields the code reads and writes; its message compiler, serializer, key
  derivation and signature are arguments, and so are the answers of the RPC node.
\<close>

section \<open>Transactions\<close>

type_synonym hash = "u8 list"
type_synonym signature = "u8 list"

record compiled_instruction =
  program_id_index :: u8
  ci_accounts :: "u8 list"
  ci_data :: "u8 list"

record message =
  num_required_signatures :: u8
  account_keys :: "pubkey list"
  recent_blockhash :: hash
  instructions :: "compiled_instruction list"

datatype versioned_message = LegacyMsg (msg_of: message) | V0Msg (msg_of: message)

record versioned_transaction =
  signatures :: "signature list"
  tx_message :: versioned_message

record account_meta =
  meta_pubkey :: pubkey
  meta_signer :: bool
  meta_writable :: bool

record instruction =
  program_id :: pubkey
  metas :: "account_meta list"
  ix_data :: "u8 list"

definition first_opt :: "'a list \<Rightarrow> 'a option" where
  "first_opt xs = (case xs of [] \<Rightarrow> None | x # _ \<Rightarrow> Some x)"

definition get_opt :: "'a list \<Rightarrow> usize \<Rightarrow> 'a option" where
  "get_opt xs i = (if i < length xs then Some (xs ! i) else None)"

definition tx_first_program_id :: "versioned_transaction \<Rightarrow> pubkey option" where
  "tx_first_program_id tx =
    (let first_ix = (case tx_message tx of
         LegacyMsg m \<Rightarrow> first_opt (instructions m)
       | V0Msg m \<Rightarrow> first_opt (instructions m)) in
     case first_ix of
       None \<Rightarrow> None
     | Some ix \<Rightarrow>
         let acct_keys = (case tx_message tx of LegacyMsg m \<Rightarrow> account_keys m | V0Msg m \<Rightarrow> account_keys m)
         in get_opt acct_keys (unat (program_id_index ix)))"

definition assert_tx_first_program_id :: "versioned_transaction \<Rightarrow> pubkey option" where
  "assert_tx_first_program_id tx =
    (let first_ix = (case tx_message tx of
         LegacyMsg m \<Rightarrow> first_opt (instructions m)
       | V0Msg m \<Rightarrow> first_opt (instructions m)) in
     case first_ix of
       None \<Rightarrow> None
     | Some ix \<Rightarrow>
         let acct_keys = (case tx_message tx of LegacyMsg m \<Rightarrow> account_keys m | V0Msg m \<Rightarrow> account_keys m)
         in get_opt acct_keys (unat (program_id_index ix)))"

section \<open>Signing\<close>

definition set_blockhash :: "hash \<Rightarrow> versioned_message \<Rightarrow> versioned_message" where
  "set_blockhash h vm = (case vm of
       LegacyMsg m \<Rightarrow> LegacyMsg (m\<lparr>recent_blockhash := h\<rparr>)
     | V0Msg m \<Rightarrow> V0Msg (m\<lparr>recent_blockhash := h\<rparr>))"

definition sign_transactions ::
    "('k \<Rightarrow> u8 list \<Rightarrow> signature) \<Rightarrow> (versioned_message \<Rightarrow> u8 list) \<Rightarrow> 'k \<Rightarrow> hash \<Rightarrow>
      versioned_transaction list \<Rightarrow> versioned_transaction list" where
  "sign_transactions sign_message serialize keypair h txs =
    map (\<lambda>tx. let msg = set_blockhash h (tx_message tx) in
        tx\<lparr>tx_message := msg, signatures := [sign_message keypair (serialize msg)]\<rparr>) txs"

definition keystore_to_keypair :: "(u8 list \<Rightarrow> 'k option) \<Rightarrow> u8 list \<Rightarrow> ('k, executor_error) res" where
  "keystore_to_keypair from_seed secret = ok_or (from_seed secret) Signer"

definition sign_with_keystore ::
    "(u8 list \<Rightarrow> 'k option) \<Rightarrow> ('k \<Rightarrow> u8 list \<Rightarrow> signature) \<Rightarrow> (versioned_message \<Rightarrow> u8 list) \<Rightarrow>
      u8 list \<Rightarrow> hash \<Rightarrow> versioned_transaction list \<Rightarrow> (versioned_transaction list, executor_error) res" where
  "sign_with_keystore from_seed sign_message serialize secret h txs =
    bind_res (keystore_to_keypair from_seed secret)
      (\<lambda>keypair. Ok (sign_transactions sign_message serialize keypair h txs))"

section \<open>Simulate gate\<close>

definition MAX_LOG_CHARS :: usize where
  "MAX_LOG_CHARS = 4096"

record simulation_report =
  net_pnl_lamports :: "i64 option"
  compute_units :: u64
  logs :: "u8 list list"
  all_txs_ok :: bool

datatype simulate_verdict = Positive | NonPositive | VerdictError

text \<open>
  A \<^verbatim>\<open>String\<close> is its UTF-8 bytes; \<^verbatim>\<open>String::truncate\<close> panics when the new length is not
  on a character boundary.
\<close>

definition is_char_boundary :: "u8 list \<Rightarrow> usize \<Rightarrow> bool" where
  "is_char_boundary bs n \<longleftrightarrow> n = 0 \<or> n = length bs
    \<or> (n < length bs \<and> \<not> (0x80 \<le> bs ! n \<and> bs ! n \<le> 0xBF))"

definition string_truncate :: "u8 list \<Rightarrow> usize \<Rightarrow> (u8 list, executor_error) res" where
  "string_truncate bs n =
    (if length bs < n then Ok bs
     else if is_char_boundary bs n then Ok (take n bs) else Panic)"

fun truncate_loop :: "u8 list list \<Rightarrow> usize \<Rightarrow> u8 list list \<Rightarrow> (u8 list list, executor_error) res" where
  "truncate_loop [] budget out = Ok out"
| "truncate_loop (l # ls) budget out =
    (if budget = 0 then Ok out
     else if length l \<le> budget then truncate_loop ls (budget - length l) (out @ [l])
     else bind_res (string_truncate l budget) (\<lambda>l'. truncate_loop ls 0 (out @ [l'])))"

definition truncate_logs :: "u8 list list \<Rightarrow> usize \<Rightarrow> (u8 list list, executor_error) res" where
  "truncate_logs ls max_chars =
    (if sum_list (map length ls) \<le> max_chars then Ok ls else truncate_loop ls max_chars [])"

definition classify :: "simulation_report \<Rightarrow> simulate_verdict" where
  "classify r =
    (if \<not> all_txs_ok r then NonPositive
     else (case net_pnl_lamports r of
         Some pnl \<Rightarrow> if pnl < 0 then NonPositive else Positive
       | None \<Rightarrow> Positive))"

text \<open>The answer of the node to one \<^verbatim>\<open>simulateTransaction\<close>.\<close>

record rpc_simulation =
  rpc_err :: "u8 list option"
  units_consumed :: "u64 option"
  rpc_logs :: "u8 list list option"

fun simulate_txs ::
    "(versioned_transaction \<Rightarrow> rpc_simulation option) \<Rightarrow> pubkey option \<Rightarrow> versioned_transaction list \<Rightarrow>
      u64 \<Rightarrow> u8 list list \<Rightarrow> bool \<Rightarrow> (u64 \<times> u8 list list \<times> bool, executor_error) res" where
  "simulate_txs rpc assert_pid [] cu lg ok = Ok (cu, lg, ok)"
| "simulate_txs rpc assert_pid (tx # txs) cu lg ok =
    (if assert_pid \<noteq> None \<and> tx_first_program_id tx = assert_pid
     then simulate_txs rpc assert_pid txs cu lg ok
     else bind_res (ok_or (rpc tx) SimulateFailed) (\<lambda>r.
       let ok' = (ok \<and> rpc_err r = None);
           lg1 = (case rpc_err r of None \<Rightarrow> lg | Some e \<Rightarrow> lg @ [bytes_of ''simulate err: '' @ e]);
           cu' = sat_add_w cu (case units_consumed r of None \<Rightarrow> 0 | Some u \<Rightarrow> u);
           lg2 = (case rpc_logs r of None \<Rightarrow> lg1 | Some ls \<Rightarrow> lg1 @ take 64 ls)
       in simulate_txs rpc assert_pid txs cu' lg2 ok'))"

definition simulate_bundle ::
    "(versioned_transaction \<Rightarrow> rpc_simulation option) \<Rightarrow> versioned_transaction list \<Rightarrow> pubkey option \<Rightarrow>
      (simulation_report, executor_error) res" where
  "simulate_bundle rpc txs assert_pid =
    (if txs = [] then Err (BundleAssembly EmptyTxList)
     else bind_res (simulate_txs rpc assert_pid txs 0 [] True) (\<lambda>(cu, lg, ok).
       bind_res (truncate_logs lg MAX_LOG_CHARS) (\<lambda>lg'.
       Ok \<lparr>net_pnl_lamports = None, compute_units = cu, logs = lg', all_txs_ok = ok\<rparr>)))"

definition simulate_and_classify ::
    "(versioned_transaction \<Rightarrow> rpc_simulation option) \<Rightarrow> versioned_transaction list \<Rightarrow> pubkey option \<Rightarrow>
      (simulation_report \<times> simulate_verdict, executor_error) res" where
  "simulate_and_classify rpc txs assert_pid =
    bind_res (simulate_bundle rpc txs assert_pid) (\<lambda>r. Ok (r, classify r))"

section \<open>The bundle\<close>

record swap_leg =
  leg_label :: string
  leg_input_mint :: string
  leg_output_mint :: string
  expected_in :: u64
  expected_out :: u64

record tip_leg =
  tl_tip_lamports :: u64
  tl_tip_account :: string

record bundle_data =
  bundle_tip :: tip_leg
  bundle_legs :: "swap_leg list"
  signed_transactions :: "versioned_transaction list"

definition tx_count :: "bundle_data \<Rightarrow> usize" where
  "tx_count b = length (signed_transactions b)"

definition total_tip_lamports :: "bundle_data \<Rightarrow> u64" where
  "total_tip_lamports b = tl_tip_lamports (bundle_tip b)"

record bundle_builder =
  bb_legs :: "swap_leg list"
  bb_tip :: "tip_leg option"
  bb_txs :: "versioned_transaction list"

definition builder_new :: bundle_builder where
  "builder_new = \<lparr>bb_legs = [], bb_tip = None, bb_txs = []\<rparr>"

definition push_swap :: "swap_leg \<Rightarrow> bundle_builder \<Rightarrow> bundle_builder" where
  "push_swap l b = b\<lparr>bb_legs := bb_legs b @ [l]\<rparr>"

definition set_tip :: "tip_leg \<Rightarrow> bundle_builder \<Rightarrow> bundle_builder" where
  "set_tip t b = b\<lparr>bb_tip := Some t\<rparr>"

definition set_signed_transactions :: "versioned_transaction list \<Rightarrow> bundle_builder \<Rightarrow> bundle_builder" where
  "set_signed_transactions txs b = b\<lparr>bb_txs := txs\<rparr>"

definition push_signed_transaction :: "versioned_transaction \<Rightarrow> bundle_builder \<Rightarrow> bundle_builder" where
  "push_signed_transaction tx b = b\<lparr>bb_txs := bb_txs b @ [tx]\<rparr>"

definition builder_len :: "bundle_builder \<Rightarrow> usize" where
  "builder_len b = length (bb_txs b)"

definition builder_is_empty :: "bundle_builder \<Rightarrow> bool" where
  "builder_is_empty b \<longleftrightarrow> bb_txs b = []"

definition builder_build :: "pubkey option \<Rightarrow> bundle_builder \<Rightarrow> (bundle_data, executor_error) res" where
  "builder_build assert_program_id b =
    (if bb_legs b = [] then Err (BundleAssembly NoSwapLegs)
     else if 4 < length (bb_legs b) then Err (BundleAssembly (TooManyLegs (length (bb_legs b))))
     else bind_res (ok_or (bb_tip b) (BundleAssembly NoTipLeg)) (\<lambda>tip.
       let expected_txs = length (bb_legs b) + 2 in
       if bb_txs b \<noteq> [] \<and> length (bb_txs b) \<noteq> expected_txs
       then Err (BundleAssembly (TxCount (length (bb_txs b)) expected_txs))
       else bind_res
         (case assert_program_id of
            Some assert_pid \<Rightarrow>
              if bb_txs b \<noteq> [] then
                (let first_pid = assert_tx_first_program_id (bb_txs b ! length (bb_legs b)) in
                 if first_pid \<noteq> Some assert_pid
                 then Err (BundleAssembly (AssertSlot (length (bb_legs b)) first_pid assert_pid))
                 else Ok ())
              else Ok ()
          | None \<Rightarrow> Ok ())
         (\<lambda>_. Ok \<lparr>bundle_tip = tip, bundle_legs = bb_legs b, signed_transactions = bb_txs b\<rparr>)))"

definition build_bundle_from_signed ::
    "swap_leg list \<Rightarrow> tip_leg \<Rightarrow> versioned_transaction list \<Rightarrow> (bundle_data, executor_error) res" where
  "build_bundle_from_signed ls tip txs =
    builder_build None (set_signed_transactions txs (set_tip tip (fold push_swap ls builder_new)))"

section \<open>Truncated logs\<close>

lemma truncate_loop_Nil_budget: "truncate_loop ls 0 out = Ok out"
  by (cases ls) simp_all

text \<open>The cut at \<open>b\<close> bytes falls strictly inside a character of one of the lines.\<close>

definition cuts_character :: "u8 list list \<Rightarrow> nat \<Rightarrow> bool" where
  "cuts_character ls b \<longleftrightarrow> (\<exists>pre l post. ls = pre @ l # post \<and> length (concat pre) < b
     \<and> b < length (concat pre) + length l \<and> \<not> is_char_boundary l (b - length (concat pre)))"

lemma cuts_character_Cons:
  assumes "cuts_character ls (b - length l)" "length l \<le> b"
  shows "cuts_character (l # ls) b"
proof -
  obtain pre l' post where "ls = pre @ l' # post" "length (concat pre) < b - length l"
    "b - length l < length (concat pre) + length l'"
    "\<not> is_char_boundary l' (b - length l - length (concat pre))"
    using assms(1) unfolding cuts_character_def by blast
  with assms(2) show ?thesis unfolding cuts_character_def
    by (intro exI [of _ "l # pre"] exI [of _ l'] exI [of _ post]) (auto simp: diff_diff_left)
qed

lemma cuts_character_here:
  "0 < b \<Longrightarrow> b < length l \<Longrightarrow> \<not> is_char_boundary l b \<Longrightarrow> cuts_character (l # ls) b"
  unfolding cuts_character_def by (intro exI [of _ "[]"] exI [of _ l] exI [of _ ls]) simp

lemma truncate_loop_Ok: "truncate_loop ls b out = Ok out' \<Longrightarrow> concat out' = concat out @ take b (concat ls)"
proof (induction ls b out rule: truncate_loop.induct)
  case (2 l ls b out)
  consider "b = 0" | "0 < b" "length l \<le> b" | "0 < b" "b < length l" by linarith
  then show ?case
  proof cases
    case 2
    then show ?thesis using "2.prems" "2.IH"(1) by simp
  next
    case 3
    then show ?thesis using "2.prems"
      by (auto simp: bind_res_Ok_iff string_truncate_def truncate_loop_Nil_budget split: if_splits)
  qed (use "2.prems" in simp)
qed simp

lemma truncate_loop_Panic: "truncate_loop ls b out = Panic \<Longrightarrow> cuts_character ls b"
proof (induction ls b out rule: truncate_loop.induct)
  case (2 l ls b out)
  consider "b = 0" | "0 < b" "length l \<le> b" | "0 < b" "b < length l" by linarith
  then show ?case
  proof cases
    case 2
    then show ?thesis using "2.prems" "2.IH"(1) by (intro cuts_character_Cons) simp_all
  next
    case 3
    then show ?thesis using "2.prems"
      by (intro cuts_character_here)
        (auto simp: bind_res_Panic_iff string_truncate_def truncate_loop_Nil_budget split: if_splits)
  qed (use "2.prems" in simp)
qed simp

lemma truncate_loop_not_Err: "truncate_loop ls b out \<noteq> Err e"
  by (induction ls b out rule: truncate_loop.induct)
    (auto simp: bind_res_Err_iff string_truncate_def truncate_loop_Nil_budget split: if_splits)

lemma sum_list_lengths: "sum_list (map length ls) = length (concat ls)"
  by (simp add: length_concat)

text \<open>Truncating the logs keeps exactly the first \<open>max_chars\<close> bytes of them, in order and
  cut only in the last line kept; it can panic only when that cut falls inside a multi-byte
  character of a line, which a log of the node may contain.\<close>

theorem truncate_logs_exact:
  "case truncate_logs ls max_chars of
     Ok out \<Rightarrow> concat out = take max_chars (concat ls)
   | Err e \<Rightarrow> False
   | Panic \<Rightarrow> cuts_character ls max_chars"
  using truncate_loop_Ok [of ls max_chars "[]"] truncate_loop_Panic [of ls max_chars "[]"]
    truncate_loop_not_Err [of ls max_chars "[]"]
  by (cases "truncate_loop ls max_chars []") (auto simp: truncate_logs_def sum_list_lengths)

section \<open>The simulate gate\<close>

text \<open>The transactions that the gate simulates: all but those that call the assert program first.\<close>

definition gated_txs :: "pubkey option \<Rightarrow> versioned_transaction list \<Rightarrow> versioned_transaction list" where
  "gated_txs assert_pid txs =
    filter (\<lambda>tx. \<not> (assert_pid \<noteq> None \<and> tx_first_program_id tx = assert_pid)) txs"

lemma gated_txs_simps [simp]:
  "gated_txs p [] = []"
  "gated_txs p (tx # txs) =
    (if p \<noteq> None \<and> tx_first_program_id tx = p then gated_txs p txs else tx # gated_txs p txs)"
  by (cases p; simp add: gated_txs_def)+

lemma simulate_txs_Ok:
  "simulate_txs rpc p txs cu lg ok = Ok (cu', lg', ok') \<Longrightarrow>
    (\<forall>tx \<in> set (gated_txs p txs). rpc tx \<noteq> None)
    \<and> (ok' \<longleftrightarrow> ok \<and> (\<forall>tx \<in> set (gated_txs p txs). \<exists>r. rpc tx = Some r \<and> rpc_err r = None))"
proof (induction txs arbitrary: cu lg ok)
  case (Cons tx txs)
  show ?case
  proof (cases "p \<noteq> None \<and> tx_first_program_id tx = p")
    case True
    then show ?thesis using Cons.IH [of cu lg ok] Cons.prems by simp
  next
    case False
    then obtain r where r: "rpc tx = Some r" using Cons.prems by (auto simp: bind_res_Ok_iff)
    then show ?thesis using False Cons.prems
      by (simp only: simulate_txs.simps if_False r ok_or_def option.simps bind_res.simps Let_def gated_txs_simps)
        (drule Cons.IH, auto simp: r)
  qed
qed simp

lemma simulate_txs_Err:
  "simulate_txs rpc p txs cu lg ok = Err e \<Longrightarrow>
    e = SimulateFailed \<and> (\<exists>tx \<in> set (gated_txs p txs). rpc tx = None)"
proof (induction txs arbitrary: cu lg ok)
  case (Cons tx txs)
  show ?case
  proof (cases "p \<noteq> None \<and> tx_first_program_id tx = p")
    case True
    then show ?thesis using Cons.IH [of cu lg ok] Cons.prems by simp
  next
    case False
    show ?thesis
    proof (cases "rpc tx")
      case None
      then show ?thesis using Cons.prems False by (auto simp: ok_or_def)
    next
      case (Some r)
      then show ?thesis using False Cons.prems
        by (simp only: simulate_txs.simps if_False ok_or_def option.simps bind_res.simps Let_def gated_txs_simps)
          (drule Cons.IH, simp)
    qed
  qed
qed simp

lemma simulate_txs_not_Panic: "simulate_txs rpc p txs cu lg ok \<noteq> Panic"
  by (induction txs arbitrary: cu lg ok) (auto simp: bind_res_Panic_iff Let_def)

text \<open>The simulate gate lets a bundle pass exactly when the node answered for every
  transaction but the assert ones and none of those answers has an error: a missing answer is
  an error (fail-closed), an error in an answer is \<open>NonPositive\<close>, and a bundle of which every
  transaction is skipped passes without a simulation. It never looks at a profit.\<close>

theorem simulate_gate_exact:
  "case simulate_and_classify rpc txs assert_pid of
     Ok (r, v) \<Rightarrow> txs \<noteq> [] \<and> list_all (\<lambda>tx. rpc tx \<noteq> None) (gated_txs assert_pid txs)
       \<and> net_pnl_lamports r = None
       \<and> v = (if list_all (\<lambda>tx. \<exists>s. rpc tx = Some s \<and> rpc_err s = None) (gated_txs assert_pid txs)
              then Positive else NonPositive)
   | Err e \<Rightarrow> (txs = [] \<and> e = BundleAssembly EmptyTxList)
       \<or> (e = SimulateFailed \<and> list_ex (\<lambda>tx. rpc tx = None) (gated_txs assert_pid txs))
   | Panic \<Rightarrow> \<exists>cu lg ok. simulate_txs rpc assert_pid txs 0 [] True = Ok (cu, lg, ok)
       \<and> truncate_logs lg MAX_LOG_CHARS = Panic"
proof (cases "txs = []")
  case False
  show ?thesis
  proof (cases "simulate_txs rpc assert_pid txs 0 [] True")
    case (Ok x)
    obtain cu lg ok where x: "x = (cu, lg, ok)" by (cases x)
    note spec = simulate_txs_Ok [OF Ok [unfolded x]]
    show ?thesis
    proof (cases "truncate_logs lg MAX_LOG_CHARS")
      case (Err e)
      then show ?thesis using truncate_loop_not_Err [of lg MAX_LOG_CHARS "[]" e]
        by (simp add: truncate_logs_def split: if_splits)
    qed (use False Ok x spec in \<open>auto simp: simulate_and_classify_def simulate_bundle_def classify_def list_all_iff\<close>)
  next
    case (Err e)
    then show ?thesis using False simulate_txs_Err [OF Err]
      by (simp add: simulate_and_classify_def simulate_bundle_def list_ex_iff)
  qed (use simulate_txs_not_Panic in blast)
qed (simp add: simulate_and_classify_def simulate_bundle_def)

section \<open>The builder\<close>

lemma builder_build_Ok_iff:
  "builder_build assert_pid b = Ok bd \<longleftrightarrow>
    bb_legs b \<noteq> [] \<and> length (bb_legs b) \<le> 4
    \<and> (bb_txs b = [] \<or> length (bb_txs b) = length (bb_legs b) + 2
        \<and> (assert_pid = None \<or> assert_tx_first_program_id (bb_txs b ! length (bb_legs b)) = assert_pid))
    \<and> (\<exists>tip. bb_tip b = Some tip
        \<and> bd = \<lparr>bundle_tip = tip, bundle_legs = bb_legs b, signed_transactions = bb_txs b\<rparr>)"
  by (cases "bb_tip b"; cases assert_pid)
    (auto simp: builder_build_def ok_or_def Let_def bind_res_Ok_iff not_less)


end
