(* ===== verification/AssertProgram.thy ===== *)
theory AssertProgram
  imports Bundle
begin

text \<open>
  \<^verbatim>\<open>crates/dl-assert-program/src/lib.rs\<close> (the on-chain guard of a bundle),
  \<^verbatim>\<open>crates/dl-assert-sdk/src/lib.rs\<close> (its client side) and \<^verbatim>\<open>pre_fund_vault_if_needed\<close> of
  \<^verbatim>\<open>crates/dl-app/src/live.rs\<close> (the funding of the vault it reads).
\<close>

section \<open>The on-chain program\<close>

definition ASSERT_INSTRUCTION_DISCRIMINATOR :: u8 where
  "ASSERT_INSTRUCTION_DISCRIMINATOR = 0"

definition ASSERT_INSTRUCTION_DATA_LEN :: usize where
  "ASSERT_INSTRUCTION_DATA_LEN = 9"

definition ERR_NET_PNL_BELOW_THRESHOLD :: u32 where "ERR_NET_PNL_BELOW_THRESHOLD = 1"
definition ERR_INVALID_DISCRIMINATOR :: u32 where "ERR_INVALID_DISCRIMINATOR = 2"
definition ERR_INVALID_DATA_LENGTH :: u32 where "ERR_INVALID_DATA_LENGTH = 3"
definition ERR_INVALID_ACCOUNTS_LENGTH :: u32 where "ERR_INVALID_ACCOUNTS_LENGTH = 4"
definition ERR_VAULT_OVERFLOW :: u32 where "ERR_VAULT_OVERFLOW = 5"

datatype program_error = Custom u32

text \<open>An account as the program sees it: its key, its flags and its balance.\<close>

record account_info =
  ai_key :: pubkey
  ai_is_signer :: bool
  ai_is_writable :: bool
  ai_lamports :: u64

definition process_instruction ::
    "pubkey \<Rightarrow> account_info list \<Rightarrow> u8 list \<Rightarrow> (unit, program_error) res" where
  "process_instruction pid accounts data =
    (if length data \<noteq> ASSERT_INSTRUCTION_DATA_LEN then Err (Custom ERR_INVALID_DATA_LENGTH)
     else if data ! 0 \<noteq> ASSERT_INSTRUCTION_DISCRIMINATOR then Err (Custom ERR_INVALID_DISCRIMINATOR)
     else
       let min_net_pnl_lamports = u64_from_le (take 8 (drop 1 data)) in
       if length accounts \<noteq> 2 then Err (Custom ERR_INVALID_ACCOUNTS_LENGTH)
       else
         let post_balance = ai_lamports (accounts ! 0); pre_snapshot = ai_lamports (accounts ! 1) in
         bind_res (ok_or (checked_i 128 (int (unat post_balance) - int (unat pre_snapshot)))
             (Custom ERR_VAULT_OVERFLOW)) (\<lambda>net_pnl.
           if net_pnl < int (unat min_net_pnl_lamports) then Err (Custom ERR_NET_PNL_BELOW_THRESHOLD)
           else Ok ()))"

section \<open>The client side\<close>

datatype assert_sdk_error = ThresholdNotPositive u64 | ThresholdExceedsCeiling u64

definition assert_min_net_pnl_threshold_reasonable :: "u64 \<Rightarrow> (unit, assert_sdk_error) res" where
  "assert_min_net_pnl_threshold_reasonable min_net_pnl_lamports =
    (if min_net_pnl_lamports = 0 then Err (ThresholdNotPositive 0)
     else if 100000000000 < min_net_pnl_lamports then Err (ThresholdExceedsCeiling min_net_pnl_lamports)
     else Ok ())"

record assert_instruction_data =
  min_net_pnl_lamports :: u64

definition DATA_LEN :: usize where
  "DATA_LEN = 9"

definition assert_to_bytes :: "assert_instruction_data \<Rightarrow> u8 list" where
  "assert_to_bytes d = ASSERT_INSTRUCTION_DISCRIMINATOR # u64_to_le (min_net_pnl_lamports d)"

definition assert_from_bytes :: "u8 list \<Rightarrow> (assert_instruction_data, assert_sdk_error) res" where
  "assert_from_bytes bytes =
    (if length bytes \<noteq> DATA_LEN then Err (ThresholdNotPositive (of_nat (length bytes)))
     else if bytes ! 0 \<noteq> ASSERT_INSTRUCTION_DISCRIMINATOR then Err (ThresholdNotPositive (ucast (bytes ! 0)))
     else Ok \<lparr>min_net_pnl_lamports = u64_from_le (take 8 (drop 1 bytes))\<rparr>)"

definition build_assert_instruction :: "pubkey \<Rightarrow> pubkey \<Rightarrow> pubkey \<Rightarrow> u64 \<Rightarrow> instruction" where
  "build_assert_instruction pid signer vault min_pnl =
    \<lparr>program_id = pid,
     metas = [\<lparr>meta_pubkey = signer, meta_signer = True, meta_writable = True\<rparr>,
              \<lparr>meta_pubkey = vault, meta_signer = False, meta_writable = True\<rparr>],
     ix_data = assert_to_bytes \<lparr>min_net_pnl_lamports = min_pnl\<rparr>\<rparr>"

text \<open>\<^verbatim>\<open>Pubkey::find_program_address\<close> is an argument.\<close>

definition derive_vault_pda ::
    "(u8 list list \<Rightarrow> pubkey \<Rightarrow> pubkey \<times> u8) \<Rightarrow> pubkey \<Rightarrow> pubkey \<Rightarrow> pubkey \<times> u8" where
  "derive_vault_pda find_program_address signer pid =
    find_program_address [bytes_of ''dl-assert-vault'', key_bytes signer] pid"

section \<open>Funding the vault\<close>

datatype vault_funded =
    AlreadyFunded (vault_lamports: u64) (signer_lamports: u64)
  | Funded (funded_lamports: u64)

datatype vault_error = VaultBalance | SignerBalance | VaultBlockhash | VaultSign | VaultSend

text \<open>
  The RPC node is an argument: the two balances, the blockhash, whether signing works, and
  whether the transfer of the given amount is confirmed.
\<close>

definition pre_fund_vault_if_needed ::
    "u64 option \<Rightarrow> u64 option \<Rightarrow> bool \<Rightarrow> bool \<Rightarrow> (u64 \<Rightarrow> bool) \<Rightarrow> (vault_funded, vault_error) res" where
  "pre_fund_vault_if_needed vault_balance signer_balance blockhash_ok sign_ok send_transfer =
    bind_res (ok_or vault_balance VaultBalance) (\<lambda>v.
    bind_res (ok_or signer_balance SignerBalance) (\<lambda>s.
    if s \<le> v then Ok (AlreadyFunded v s)
    else bind_res (sub_p s v) (\<lambda>delta.
      if \<not> blockhash_ok then Err VaultBlockhash
      else if \<not> sign_ok then Err VaultSign
      else if \<not> send_transfer delta then Err VaultSend
      else Ok (Funded delta))))"

section \<open>What the guard checks\<close>

lemma length_assert_to_bytes [simp]: "length (assert_to_bytes d) = 9"
  by (simp add: assert_to_bytes_def)

lemma assert_roundtrip: "assert_from_bytes (assert_to_bytes d) = Ok d"
  by (simp add: assert_from_bytes_def assert_to_bytes_def DATA_LEN_def)

lemma balance_diff_fits: "in_range 128 (int (unat (a :: u64)) - int (unat (b :: u64)))"
  using unat_bound [of a] unat_bound [of b]
  by (auto simp: in_range_def smin_def smax_def simp del: of_nat_unat)

lemma process_instruction_run:
  "process_instruction pid [signer, vault] (assert_to_bytes d) =
    (if unat (ai_lamports signer) < unat (ai_lamports vault) + unat (min_net_pnl_lamports d)
     then Err (Custom ERR_NET_PNL_BELOW_THRESHOLD) else Ok ())"
proof -
  have lt: "(int s - int v < int m) = (s < v + m)" for s v m :: nat by linarith
  show ?thesis
    using balance_diff_fits [of "ai_lamports signer" "ai_lamports vault"]
    by (simp add: process_instruction_def ASSERT_INSTRUCTION_DATA_LEN_def checked_i_def ok_or_def Let_def
        lt del: of_nat_unat) (simp add: assert_to_bytes_def)
qed

text \<open>C40. The instruction the SDK builds is accepted by the on-chain program exactly when the
  signer's balance exceeds the vault's by the threshold; the SDK reads its own bytes back. The
  two accounts' keys and flags play no part: the program checks neither that the first account
  signed nor that the second is the vault derived from it, and its overflow error is unreachable.\<close>

theorem assert_program_exact:
  "(process_instruction pid [signer, vault] (ix_data (build_assert_instruction p k v min_pnl)) = Ok ()
      \<longleftrightarrow> unat (ai_lamports vault) + unat min_pnl \<le> unat (ai_lamports signer))
    \<and> assert_from_bytes (ix_data (build_assert_instruction p k v min_pnl)) = Ok \<lparr>min_net_pnl_lamports = min_pnl\<rparr>
    \<and> process_instruction pid accounts data \<noteq> Err (Custom ERR_VAULT_OVERFLOW)
    \<and> process_instruction pid accounts data \<noteq> Panic"
proof (intro conjI)
  show "process_instruction pid [signer, vault] (ix_data (build_assert_instruction p k v min_pnl)) = Ok ()
      \<longleftrightarrow> unat (ai_lamports vault) + unat min_pnl \<le> unat (ai_lamports signer)"
    by (simp add: build_assert_instruction_def process_instruction_run)
  show "assert_from_bytes (ix_data (build_assert_instruction p k v min_pnl)) = Ok \<lparr>min_net_pnl_lamports = min_pnl\<rparr>"
    by (simp add: build_assert_instruction_def assert_roundtrip)
  have "checked_i 128 (int (unat (a :: u64)) - int (unat (b :: u64))) = Some (int (unat a) - int (unat b))" for a b
    using balance_diff_fits [of a b] by (simp only: checked_i_def if_True)
  then show "process_instruction pid accounts data \<noteq> Err (Custom ERR_VAULT_OVERFLOW)"
    and "process_instruction pid accounts data \<noteq> Panic"
    by (auto simp: process_instruction_def Let_def ok_or_def ERR_NET_PNL_BELOW_THRESHOLD_def
        ERR_INVALID_DISCRIMINATOR_def ERR_INVALID_DATA_LENGTH_def ERR_INVALID_ACCOUNTS_LENGTH_def
        ERR_VAULT_OVERFLOW_def simp del: of_nat_unat)
qed

text \<open>Funding the vault defeats the guard. The transfer takes from the signer what it gives to
  the vault, so afterwards the vault holds the signer's old balance and the signer at most the
  vault's old one: a bundle that earns the threshold is rejected, and only one whose gain
  is at least the transferred amount plus the threshold is accepted.\<close>

theorem pre_fund_defeats_assert:
  assumes funded: "pre_fund_vault_if_needed (Some v0) (Some s0) blockhash_ok sign_ok send_transfer = Ok (Funded delta)"
    and credited: "unat v1 = unat v0 + unat delta"
    and debited: "unat s1 + unat delta \<le> unat s0"
    and gain: "unat s2 = unat s1 + gain"
    and accepted: "process_instruction pid [signer\<lparr>ai_lamports := s2\<rparr>, vault\<lparr>ai_lamports := v1\<rparr>]
      (ix_data (build_assert_instruction p k v min_pnl)) = Ok ()"
  shows "0 < unat delta \<and> unat delta + unat min_pnl \<le> gain"
proof -
  have d: "unat delta = unat s0 - unat v0" "unat v0 < unat s0"
    using funded by (auto simp: pre_fund_vault_if_needed_def ok_or_def bind_res_Ok_iff op_p_iffs
        word_le_nat_alt split: if_splits)
  have "unat v1 + unat min_pnl \<le> unat s2"
    using accepted by (simp add: build_assert_instruction_def process_instruction_run split: if_splits)
  with d credited debited gain show ?thesis by linarith
qed

lemma pre_fund_defeats_assert_witness:
  "\<exists>pid s v. process_instruction pid [s\<lparr>ai_lamports := 1000000000\<rparr>, v\<lparr>ai_lamports := 900000000\<rparr>]
      (ix_data (build_assert_instruction pubkey_ZERO pubkey_ZERO pubkey_ZERO 50000)) = Ok ()
    \<and> pre_fund_vault_if_needed (Some 400000000) (Some 900000000) True True (\<lambda>d. True) = Ok (Funded 500000000)
    \<and> 0 < unat (500000000 :: u64) \<and> unat (500000000 :: u64) + unat (50000 :: u64) \<le> 600000000"
proof -
  have f: "pre_fund_vault_if_needed (Some 400000000) (Some 900000000) True True (\<lambda>d. True) = Ok (Funded 500000000)"
    by (simp add: pre_fund_vault_if_needed_def ok_or_def sub_p_def)
  have a: "process_instruction pid [s\<lparr>ai_lamports := 1000000000\<rparr>, v\<lparr>ai_lamports := 900000000\<rparr>]
      (ix_data (build_assert_instruction pubkey_ZERO pubkey_ZERO pubkey_ZERO 50000)) = Ok ()" for pid s v
    by (simp add: build_assert_instruction_def process_instruction_run)
  from pre_fund_defeats_assert [OF f, of 900000000 400000000 1000000000 600000000, OF _ _ _ a]
  show ?thesis using f a by auto
qed

end
