(* ===== verification/Oracle.thy ===== *)
theory Oracle
  imports Pool
begin

text \<open>
  \<^verbatim>\<open>crates/dl-oracle/src/lib.rs\<close>: a Pyth price, its freshness, and the fetch that rejects a
  stale one. The HTTP client and the clock are arguments; the reader of the client's JSON is
  not modelled.
\<close>

definition MAX_PYTH_AGE_SECS :: u64 where
  "MAX_PYTH_AGE_SECS = 60"

definition hex_digit :: "nat \<Rightarrow> char" where
  "hex_digit n = ''0123456789abcdef'' ! n"

definition hex_encode_lower :: "u8 list \<Rightarrow> string" where
  "hex_encode_lower bytes =
    concat (map (\<lambda>b. [hex_digit (unat (drop_bit 4 b)), hex_digit (unat (b AND 0x0f))]) bytes)"

definition build_price_url :: "string \<Rightarrow> pubkey \<Rightarrow> string" where
  "build_price_url endpoint feed =
    endpoint @ ''/v2/updates/price/latest?ids[]=0x'' @ hex_encode_lower (key_bytes feed) @ ''&parsed=true''"

record price =
  price_mantissa :: i64
  price_expo :: i32
  price_conf :: u64
  publish_time :: i64

datatype pyth_error =
    PythNoFeed
  | StalePrice (stale_publish_time: i64) (stale_now: i64) (stale_age: i64)
  | PythHttp
  | PythParse

definition SKEW_TOLERANCE_SECS :: i64 where
  "SKEW_TOLERANCE_SECS = 120"

text \<open>The negation of the age is unchecked; \<^verbatim>\<open>age as u64\<close> is of a nonnegative age.\<close>

definition is_fresh :: "price \<Rightarrow> u64 \<Rightarrow> i64 \<Rightarrow> (bool, pyth_error) res" where
  "is_fresh p max_age_secs now =
    (let age = clamp_i 64 (now - publish_time p) in
     if age < 0 then bind_res (range_p 64 (- age)) (\<lambda>neg. Ok (neg \<le> SKEW_TOLERANCE_SECS))
     else Ok ((of_int age :: u64) \<le> max_age_secs))"

definition fetch_fresh ::
    "(pubkey \<Rightarrow> (price, pyth_error) res) \<Rightarrow> i64 \<Rightarrow> pubkey \<Rightarrow> u64 \<Rightarrow> (price, pyth_error) res" where
  "fetch_fresh fetch_price now feed max_age_secs =
    bind_res (fetch_price feed) (\<lambda>p.
    bind_res (is_fresh p max_age_secs now) (\<lambda>fresh.
      if \<not> fresh then
        (let age = clamp_i 64 (now - publish_time p) in Err (StalePrice (publish_time p) now age))
      else Ok p))"

lemma is_fresh_value:
  assumes "in_range 64 (publish_time p)" "0 \<le> now" "int (unat max_age) < smax 64"
  shows "is_fresh p max_age now =
    Ok (publish_time p - now \<le> 120 \<and> now - publish_time p \<le> int (unat max_age))"
proof -
  define age where "age = clamp_i 64 (now - publish_time p)"
  have low: "- (2 ^ 63) + 1 \<le> now - publish_time p"
    using assms by (simp add: in_range_def smin_def smax_def)
  show ?thesis
  proof (cases "now - publish_time p < 0")
    case True
    have le_int: "now - publish_time p \<le> int (unat max_age)" using True by linarith
    from True have "age = now - publish_time p"
      using low by (simp add: age_def clamp_i_def smin_def smax_def)
    moreover from this have "range_p 64 (- age) = (Ok (- age) :: (i64, pyth_error) res)"
      using True low by (simp add: range_p_def in_range_def smin_def smax_def)
    ultimately show ?thesis
      using True by (simp add: is_fresh_def age_def [symmetric] SKEW_TOLERANCE_SECS_def le_int del: of_nat_unat)
  next
    case False
    then have nn: "0 \<le> age" by (simp add: age_def clamp_i_def smin_def smax_def)
    have b: "age < 2 ^ 63" by (simp add: age_def clamp_i_def smin_def smax_def)
    have nat_age: "unat (of_int age :: u64) = nat age"
      using nn b by (simp add: unat_eq_nat_uint uint_word_of_int)
    show ?thesis
    proof (cases "now - publish_time p \<le> smax 64")
      case le: True
      then have "age = now - publish_time p" using False by (simp add: age_def clamp_i_def smin_def)
      then show ?thesis
        using False nn nat_age by (simp add: is_fresh_def age_def [symmetric] word_le_nat_alt nat_le_iff del: of_nat_unat)
    next
      case gt: False
      then have "age = smax 64" by (simp add: age_def clamp_i_def smin_def smax_def)
      moreover have "int (unat max_age) < now - publish_time p" using gt assms(3) by linarith
      ultimately show ?thesis
        using False nn nat_age assms(3)
        by (simp add: is_fresh_def age_def [symmetric] word_le_nat_alt nat_le_iff del: of_nat_unat)
    qed
  qed
qed

text \<open>The price gate accepts exactly the prices the client returned that are at most
  \<open>max_age\<close> seconds old and at most 120 seconds ahead of the clock.\<close>

lemma fetch_fresh_Ok_iff:
  assumes "fetch feed = Ok p" "in_range 64 (publish_time p)" "0 \<le> now" "int (unat max_age) < smax 64"
  shows "fetch_fresh fetch now feed max_age = Ok q \<longleftrightarrow>
    q = p \<and> publish_time p - now \<le> 120 \<and> now - publish_time p \<le> int (unat max_age)"
  using assms by (auto simp: fetch_fresh_def is_fresh_value [OF assms(2,3,4)] Let_def simp del: of_nat_unat)

end
