(* ===== verification/Calibration.thy ===== *)
theory Calibration
  imports Ev "HOL-Library.Multiset"
begin

text \<open>
  \<^verbatim>\<open>crates/dl-calibration/src/lib.rs\<close>: the captures of landed bundles, the fit of the three
  probabilities, the reconciliation of captures, and the ranking of niches. The overfit statistics
  (floating point, \<^verbatim>\<open>dl-recon-overfit\<close>) and the JSON files are not modelled. The iteration order of a
  \<^verbatim>\<open>HashMap\<close> is an argument, a function that permutes its keys. Only the fit can return an error; the
  other operations have the error type \<open>unit\<close> and either return or panic.
\<close>

definition MIN_SAMPLES_FOR_FIT :: usize where
  "MIN_SAMPLES_FOR_FIT = 30"

record calibration_capture =
  cc_ts :: i64
  cc_cycle_seq :: u64
  cc_slot :: u64
  cc_input_mint :: string
  cc_output_mint :: string
  cc_input_amount :: u64
  cc_expected_out_per_leg :: "u64 list"
  cc_jito_bundle_id :: string
  cc_realized_pnl :: i64
  cc_won :: bool

record calibration_result =
  cr_p_detect :: prob
  cr_p_win :: prob
  cr_p_land :: prob
  cr_sample_size :: u64
  cr_fitted_at :: i64

definition ratio_to_prob :: "u64 \<Rightarrow> u64 \<Rightarrow> (prob, sim_error) res" where
  "ratio_to_prob num den =
    bind_res (if den = 0 then Ok 500000
      else bind_res (mul_p (ucast num) (1000000 :: u128)) (\<lambda>p.
        Ok (ucast (min (p div ucast den) 1000000) :: u64)))
    (\<lambda>ppm. unwrap_or (from_ppm (ucast ppm)) prob_ONE)"

definition fit :: "i64 \<Rightarrow> calibration_capture list \<Rightarrow> (calibration_result, sim_error) res" where
  "fit now captures =
    (let n = of_nat (length captures) :: u64;
         n_with_realized = of_nat (length (filter (\<lambda>c. cc_realized_pnl c \<noteq> 0) captures)) :: u64;
         n_won = of_nat (length (filter cc_won captures)) :: u64
     in bind_res (add_p n_with_realized 1) (\<lambda>p_detect_num.
        bind_res (add_p n 2) (\<lambda>p_detect_den.
        bind_res (add_p n_won 1) (\<lambda>p_win_num.
        bind_res (add_p n_with_realized 2) (\<lambda>p_win_den.
        bind_res (add_p n_with_realized 1) (\<lambda>p_land_num.
        bind_res (add_p n 2) (\<lambda>p_land_den.
        bind_res (ratio_to_prob p_detect_num p_detect_den) (\<lambda>pd.
        bind_res (ratio_to_prob p_win_num p_win_den) (\<lambda>pw.
        bind_res (ratio_to_prob p_land_num p_land_den) (\<lambda>pl.
        Ok \<lparr>cr_p_detect = pd, cr_p_win = pw, cr_p_land = pl, cr_sample_size = n,
            cr_fitted_at = now\<rparr>))))))))))"

section \<open>Reconciliation\<close>

record reconcile_row =
  rr_cycle_seq :: u64
  rr_slot :: u64
  rr_input_amount :: u64
  rr_predicted_pnl :: i64
  rr_realized_pnl :: i64
  rr_delta :: i64
  rr_won :: bool
  rr_tip_lamports :: u64
  rr_input_mint :: string
  rr_output_mint :: string
  rr_ts :: i64

text \<open>\<^verbatim>\<open>Iterator::max_by_key\<close> keeps the last of the largest elements.\<close>

fun max_by_ts :: "calibration_capture \<Rightarrow> calibration_capture list \<Rightarrow> calibration_capture" where
  "max_by_ts best [] = best"
| "max_by_ts best (c # cs) = max_by_ts (if cc_ts best \<le> cc_ts c then c else best) cs"

text \<open>\<^verbatim>\<open>.map(|o| (*o as i64) - (input as i64)).sum()\<close>, both operations unchecked.\<close>

fun predicted_sum :: "u64 \<Rightarrow> i64 \<Rightarrow> u64 list \<Rightarrow> (i64, unit) res" where
  "predicted_sum input acc [] = Ok acc"
| "predicted_sum input acc (out # outs) =
    bind_res (range_p 64 (sint out - sint input)) (\<lambda>d.
    bind_res (range_p 64 (acc + d)) (\<lambda>acc'. predicted_sum input acc' outs))"

definition row_of :: "u64 \<Rightarrow> calibration_capture \<Rightarrow> (reconcile_row, unit) res" where
  "row_of seq latest =
    bind_res (predicted_sum (cc_input_amount latest) 0 (cc_expected_out_per_leg latest)) (\<lambda>predicted.
    bind_res (range_p 64 (cc_realized_pnl latest - predicted)) (\<lambda>delta.
    Ok \<lparr>rr_cycle_seq = seq, rr_slot = cc_slot latest, rr_input_amount = cc_input_amount latest,
        rr_predicted_pnl = predicted, rr_realized_pnl = cc_realized_pnl latest, rr_delta = delta,
        rr_won = cc_won latest, rr_tip_lamports = of_int (max (cc_realized_pnl latest) 0),
        rr_input_mint = cc_input_mint latest, rr_output_mint = cc_output_mint latest,
        rr_ts = cc_ts latest\<rparr>))"

fun rows_of :: "calibration_capture list \<Rightarrow> u64 list \<Rightarrow> (reconcile_row list, unit) res" where
  "rows_of captures [] = Ok []"
| "rows_of captures (seq # seqs) =
    (case filter (\<lambda>c. cc_cycle_seq c = seq) captures of
       [] \<Rightarrow> rows_of captures seqs
     | c # cs \<Rightarrow> bind_res (row_of seq (max_by_ts c cs)) (\<lambda>row.
         bind_res (rows_of captures seqs) (\<lambda>rows. Ok (row # rows))))"

definition reconcile ::
    "(u64 list \<Rightarrow> u64 list) \<Rightarrow> calibration_capture list \<Rightarrow> (reconcile_row list, unit) res" where
  "reconcile hash_order captures =
    bind_res (rows_of captures (hash_order (remdups (map cc_cycle_seq captures))))
      (\<lambda>rows. Ok (sort_key rr_cycle_seq rows))"

record recon_report =
  rep_rows :: "reconcile_row list"
  rep_total_predicted :: i64
  rep_total_realized :: i64
  rep_total_tip :: u64
  rep_first_seen_slot :: u64
  rep_block_time :: i64

fun sum_u64_p :: "u64 \<Rightarrow> u64 list \<Rightarrow> (u64, unit) res" where
  "sum_u64_p acc [] = Ok acc"
| "sum_u64_p acc (x # xs) = bind_res (add_p acc x) (\<lambda>s. sum_u64_p s xs)"

definition report_from_rows :: "reconcile_row list \<Rightarrow> (recon_report, unit) res" where
  "report_from_rows rows =
    bind_res (sum_p 64 0 (map rr_predicted_pnl rows)) (\<lambda>total_predicted.
    bind_res (sum_p 64 0 (map rr_realized_pnl rows)) (\<lambda>total_realized.
    bind_res (sum_u64_p 0 (map rr_tip_lamports rows)) (\<lambda>total_tip.
    Ok \<lparr>rep_rows = rows, rep_total_predicted = total_predicted, rep_total_realized = total_realized,
        rep_total_tip = total_tip, rep_first_seen_slot = 0, rep_block_time = 0\<rparr>)))"

section \<open>Niches\<close>

datatype dex_kind = DexRaydium | DexOrca | DexMeteora
datatype pool_age = NewPool | YoungPool | MaturePool
datatype time_of_day = Peak | Normal | OffPeak
datatype size_bucket = Small | Medium | Large

record niche_class =
  nc_dex :: dex_kind
  nc_pool_age :: pool_age
  nc_time_of_day :: time_of_day
  nc_input_size :: size_bucket

record niche_rank =
  nr_class :: niche_class
  nr_realized_pnl :: i64
  nr_gas_spent :: i64
  nr_sample_size :: u64
  nr_enabled :: bool

definition starts_with :: "string \<Rightarrow> string \<Rightarrow> bool" where
  "starts_with s prefix \<longleftrightarrow> take (length prefix) s = prefix"

definition niche_classify :: "reconcile_row \<Rightarrow> u64 \<Rightarrow> u64 \<Rightarrow> niche_class" where
  "niche_classify row slot first_seen_slot =
    (let dex = (if starts_with (rr_input_mint row) ''So11111'' then DexOrca
                else if starts_with (rr_input_mint row) ''EPjFWdd5'' then DexRaydium
                else if starts_with (rr_input_mint row) ''Es9vMFrz'' then DexMeteora
                else DexMeteora);
         pool_age = (if sat_sub_w slot first_seen_slot < 216000
                     then (if sat_sub_w slot first_seen_slot < 3600 then NewPool else YoungPool)
                     else MaturePool);
         hour_utc = (rr_ts row sdiv 3600) mod 24;
         time_of_day = (if 12 \<le> hour_utc \<and> hour_utc < 24 then Peak
                        else if (6 \<le> hour_utc \<and> hour_utc < 12) \<or> hour_utc < 6 then Normal
                        else OffPeak);
         input_size = (if rr_input_amount row < 1000000000 then Small
                       else if rr_input_amount row < 10000000000 then Medium else Large)
     in \<lparr>nc_dex = dex, nc_pool_age = pool_age, nc_time_of_day = time_of_day, nc_input_size = input_size\<rparr>)"

text \<open>The map of the running totals, with its keys in the order of their first row.\<close>

type_synonym niche_totals = "(niche_class \<times> (i64 \<times> i64 \<times> u64)) list"

fun niche_add ::
    "niche_class \<Rightarrow> i64 \<Rightarrow> i64 \<Rightarrow> niche_totals \<Rightarrow> (niche_totals, unit) res" where
  "niche_add class pnl gas [] =
    bind_res (range_p 64 (0 + pnl)) (\<lambda>p. bind_res (range_p 64 (0 + gas)) (\<lambda>g. Ok [(class, (p, g, 1))]))"
| "niche_add class pnl gas ((c, (p0, g0, n)) # rest) =
    (if c = class then
       bind_res (range_p 64 (p0 + pnl)) (\<lambda>p. bind_res (range_p 64 (g0 + gas)) (\<lambda>g.
       bind_res (add_p n 1) (\<lambda>n'. Ok ((c, (p, g, n')) # rest))))
     else bind_res (niche_add class pnl gas rest) (\<lambda>rest'. Ok ((c, (p0, g0, n)) # rest')))"

fun niche_rows :: "u64 \<Rightarrow> reconcile_row list \<Rightarrow> niche_totals \<Rightarrow> (niche_totals, unit) res" where
  "niche_rows first_seen [] m = Ok m"
| "niche_rows first_seen (row # rows) m =
    bind_res (niche_add (niche_classify row (rr_slot row) first_seen) (rr_realized_pnl row)
        (sint (max (rr_tip_lamports row) 1)) m)
      (niche_rows first_seen rows)"

fun niche_reports :: "recon_report list \<Rightarrow> niche_totals \<Rightarrow> (niche_totals, unit) res" where
  "niche_reports [] m = Ok m"
| "niche_reports (r # rs) m =
    bind_res (niche_rows (rep_first_seen_slot r) (rep_rows r) m) (niche_reports rs)"

text \<open>
  \<^verbatim>\<open>pnl as f64 / gas as f64 > 0.0\<close> for a positive \<open>gas\<close>: the conversions keep the sign and the
  quotient of two \<^verbatim>\<open>i64\<close> values does not underflow, so it is positive exactly when \<open>pnl\<close> is.
\<close>

definition rank_of :: "niche_class \<times> (i64 \<times> i64 \<times> u64) \<Rightarrow> niche_rank" where
  "rank_of e = (case e of (class, (pnl, gas, n)) \<Rightarrow>
    \<lparr>nr_class = class, nr_realized_pnl = pnl, nr_gas_spent = gas, nr_sample_size = n,
     nr_enabled = (of_nat MIN_SAMPLES_FOR_FIT \<le> n \<and> 0 < gas \<and> 0 < pnl)\<rparr>)"

definition niche_score ::
    "(niche_totals \<Rightarrow> niche_totals) \<Rightarrow> recon_report list \<Rightarrow> (niche_rank list, unit) res" where
  "niche_score hash_order reports =
    bind_res (niche_reports reports []) (\<lambda>m.
      Ok (sort_key (\<lambda>r. - nr_realized_pnl r) (map rank_of (hash_order m))))"

record niche_config =
  enabled_classes :: "niche_class list"
  niche_scores :: "niche_rank list"

definition niches_from_scores :: "niche_rank list \<Rightarrow> niche_config" where
  "niches_from_scores scores =
    \<lparr>enabled_classes = map nr_class (filter nr_enabled scores), niche_scores = scores\<rparr>"

definition is_enabled :: "niche_config \<Rightarrow> niche_class \<Rightarrow> bool" where
  "is_enabled c class \<longleftrightarrow> class \<in> set (enabled_classes c)"

section \<open>The fit\<close>

definition ratio_ppm :: "nat \<Rightarrow> nat \<Rightarrow> nat" where
  "ratio_ppm num den = min (num * 1000000 div den) 1000000"

lemma ratio_to_prob_exact:
  assumes "den \<noteq> 0"
  shows "\<exists>p. ratio_to_prob num den = Ok p \<and> unat (scaled p) = ratio_ppm (unat num) (unat den) * 10 ^ 12"
proof -
  have n: "unat (ucast num :: u128) = unat num" and d: "unat (ucast den :: u128) = unat den"
    by (simp_all add: unat_ucast_up)
  have "unat num * 1000000 < 2 ^ 128" using unat_bound [of num] by simp
  then have mul: "mul_p (ucast num) (1000000 :: u128) = (Ok (ucast num * 1000000) :: (u128, sim_error) res)"
    and prod: "unat (ucast num * (1000000 :: u128)) = unat num * 1000000"
    by (simp_all add: mul_p_def n unat_mul_no_wrap)
  define q where "q = min (ucast num * (1000000 :: u128) div ucast den) 1000000"
  have q: "unat q = ratio_ppm (unat num) (unat den)"
    by (simp add: q_def min_def word_le_nat_alt unat_div prod d ratio_ppm_def)
  have le: "ratio_ppm (unat num) (unat den) \<le> 1000000" by (simp add: ratio_ppm_def)
  define w :: u64 where "w = ucast q"
  define v :: u32 where "v = ucast w"
  have w: "unat w = unat q" using le q by (simp add: w_def unsigned_ucast_eq take_bit_nat_eq_self)
  have v: "unat v = unat q" using le q w by (simp add: v_def unsigned_ucast_eq take_bit_nat_eq_self)
  have "unat v \<le> unat PPM_ONE" using le q v by (simp add: PPM_ONE_def)
  then obtain p where p: "from_ppm v = Ok p" "unat (scaled p) = unat v * 10 ^ 12"
    using from_ppm_Ok [of v] by (auto simp: word_le_nat_alt)
  have "ratio_to_prob num den = Ok p"
    using assms p(1) by (simp add: ratio_to_prob_def mul q_def [symmetric] w_def [symmetric] v_def [symmetric])
  then show ?thesis using p(2) v q by auto
qed

definition realized_count :: "calibration_capture list \<Rightarrow> nat" where
  "realized_count cs = length (filter (\<lambda>c. cc_realized_pnl c \<noteq> 0) cs)"

definition won_count :: "calibration_capture list \<Rightarrow> nat" where
  "won_count cs = length (filter cc_won cs)"

lemma fit_value:
  assumes len: "length cs < 2 ^ 63"
  shows "\<exists>r. fit now cs = Ok r
    \<and> unat (scaled (cr_p_detect r)) = ratio_ppm (realized_count cs + 1) (length cs + 2) * 10 ^ 12
    \<and> unat (scaled (cr_p_win r)) = ratio_ppm (won_count cs + 1) (realized_count cs + 2) * 10 ^ 12
    \<and> cr_p_land r = cr_p_detect r \<and> unat (cr_sample_size r) = length cs \<and> cr_fitted_at r = now"
proof -
  define n where "n = (of_nat (length cs) :: u64)"
  define k where "k = (of_nat (realized_count cs) :: u64)"
  define w where "w = (of_nat (won_count cs) :: u64)"
  have b: "realized_count cs \<le> length cs" "won_count cs \<le> length cs"
    by (simp_all add: realized_count_def won_count_def)
  have n: "unat n = length cs" and k: "unat k = realized_count cs" and w: "unat w = won_count cs"
    using len b by (simp_all add: n_def k_def w_def unat_of_nat_fits)
  have add: "add_p x y = (Ok (x + y) :: (u64, sim_error) res)" "unat (x + y) = unat x + unat y"
    if "unat x < 2 ^ 63" "unat y \<le> 2" for x y :: u64
  proof -
    have "unat x + unat y < 2 ^ 64" using that by simp
    then show "add_p x y = (Ok (x + y) :: (u64, sim_error) res)" "unat (x + y) = unat x + unat y"
      by (simp_all add: add_p_def unat_add_no_wrap)
  qed
  have small: "unat n < 2 ^ 63" "unat k < 2 ^ 63" "unat w < 2 ^ 63" using n k w b len by simp_all
  have one: "unat (1 :: u64) \<le> 2" "unat (2 :: u64) \<le> 2" by simp_all
  note A = add [OF small(1) one(2)] add [OF small(2) one(1)] add [OF small(2) one(2)] add [OF small(3) one(1)]
  have "x \<noteq> 0" if "unat x = m + unat (2 :: u64)" for x :: u64 and m
    using that by auto
  then have nz: "n + 2 \<noteq> 0" "k + 2 \<noteq> 0" using A(2,6) by blast+
  obtain pd where pd: "ratio_to_prob (k + 1) (n + 2) = Ok pd"
    "unat (scaled pd) = ratio_ppm (realized_count cs + 1) (length cs + 2) * 10 ^ 12"
    using ratio_to_prob_exact [OF nz(1), of "k + 1"] A n k by auto
  obtain pw where pw: "ratio_to_prob (w + 1) (k + 2) = Ok pw"
    "unat (scaled pw) = ratio_ppm (won_count cs + 1) (realized_count cs + 2) * 10 ^ 12"
    using ratio_to_prob_exact [OF nz(2), of "w + 1"] A w k by auto
  have "fit now cs = Ok \<lparr>cr_p_detect = pd, cr_p_win = pw, cr_p_land = pd, cr_sample_size = n, cr_fitted_at = now\<rparr>"
    unfolding fit_def Let_def n_def [symmetric] realized_count_def [symmetric] won_count_def [symmetric]
      k_def [symmetric] w_def [symmetric]
    by (simp add: A pd pw)
  then show ?thesis using pd pw n by auto
qed

text \<open>The fit is total and exact: with \<open>k\<close> of \<open>n\<close> captures realized and \<open>w\<close> won, it returns
  \<open>(k + 1) / (n + 2)\<close> for detection, \<open>(w + 1) / (k + 2)\<close> for winning, both floored to parts per
  million and clamped to one, and the same probability for landing as for detection. Without captures all three
  are one half.\<close>

theorem fit_exact:
  assumes "length cs < 2 ^ 63"
  shows "\<exists>r. fit now cs = Ok r
    \<and> unat (scaled (cr_p_detect r)) = ratio_ppm (realized_count cs + 1) (length cs + 2) * 10 ^ 12
    \<and> unat (scaled (cr_p_win r)) = ratio_ppm (won_count cs + 1) (realized_count cs + 2) * 10 ^ 12
    \<and> cr_p_land r = cr_p_detect r \<and> unat (cr_sample_size r) = length cs"
  using fit_value [OF assms, of now] by blast

lemma fit_exact_witness:
  "\<exists>r. fit 0 [] = Ok r \<and> unat (scaled (cr_p_win r)) = 500000 * 10 ^ 12"
  using fit_exact [of "[]" 0] by (auto simp: ratio_ppm_def won_count_def realized_count_def numeral_2_eq_2 [symmetric])

section \<open>The reconciliation\<close>

definition latest_of :: "calibration_capture list \<Rightarrow> u64 \<Rightarrow> calibration_capture \<Rightarrow> bool" where
  "latest_of cs seq c \<longleftrightarrow> c \<in> set cs \<and> cc_cycle_seq c = seq
    \<and> (\<forall>c' \<in> set cs. cc_cycle_seq c' = seq \<longrightarrow> cc_ts c' \<le> cc_ts c)"

lemma max_by_ts_in: "max_by_ts b cs \<in> set (b # cs) \<and> (\<forall>c \<in> set (b # cs). cc_ts c \<le> cc_ts (max_by_ts b cs))"
proof (induction cs arbitrary: b)
  case (Cons c cs)
  show ?case using Cons.IH [of b] Cons.IH [of c] by (auto split: if_splits)
qed simp

lemma row_of_seq: "row_of seq c = Ok r \<Longrightarrow> rr_cycle_seq r = seq"
  by (auto simp: row_of_def bind_res_Ok_iff)

lemma rows_of_Ok:
  "rows_of cs seqs = Ok rows \<Longrightarrow> set seqs \<subseteq> cc_cycle_seq ` set cs \<Longrightarrow>
    map rr_cycle_seq rows = seqs
    \<and> (\<forall>r \<in> set rows. \<exists>c. latest_of cs (rr_cycle_seq r) c \<and> row_of (rr_cycle_seq r) c = Ok r)"
proof (induction seqs arbitrary: rows)
  case (Cons seq seqs)
  then obtain c ds where f: "filter (\<lambda>c. cc_cycle_seq c = seq) cs = c # ds"
    by (cases "filter (\<lambda>c. cc_cycle_seq c = seq) cs") (auto simp: filter_empty_conv)
  then obtain row rest where r: "row_of seq (max_by_ts c ds) = Ok row" "rows_of cs seqs = Ok rest" "rows = row # rest"
    using Cons.prems by (auto simp: bind_res_Ok_iff)
  have "set (c # ds) = {x \<in> set cs. cc_cycle_seq x = seq}" by (simp only: f [symmetric] set_filter)
  then have "latest_of cs seq (max_by_ts c ds)"
    using max_by_ts_in [of c ds] by (auto simp: latest_of_def)
  then show ?case using r row_of_seq [OF r(1)] Cons.IH [OF r(2)] Cons.prems by auto
qed simp

lemma reconcile_rows:
  assumes run: "reconcile hash_order cs = Ok rows" and perm: "\<And>xs. mset (hash_order xs) = mset xs"
  shows "map rr_cycle_seq rows = sorted_list_of_set (cc_cycle_seq ` set cs)"
    and "r \<in> set rows \<Longrightarrow> \<exists>c. latest_of cs (rr_cycle_seq r) c \<and> row_of (rr_cycle_seq r) c = Ok r"
proof -
  let ?seqs = "hash_order (remdups (map cc_cycle_seq cs))"
  have ms: "mset ?seqs = mset (remdups (map cc_cycle_seq cs))" by (rule perm)
  then have set: "set ?seqs = cc_cycle_seq ` set cs" by (metis set_mset_mset set_remdups set_map)
  have dist: "distinct ?seqs" using ms distinct_remdups by (metis mset_eq_imp_distinct_iff)
  obtain rs where rs: "rows_of cs ?seqs = Ok rs" "rows = sort_key rr_cycle_seq rs"
    using run by (auto simp: reconcile_def bind_res_Ok_iff)
  note spec = rows_of_Ok [OF rs(1)] set
  have keys: "map rr_cycle_seq rs = ?seqs" using spec by simp
  show "map rr_cycle_seq rows = sorted_list_of_set (cc_cycle_seq ` set cs)"
  proof (rule sorted_distinct_set_unique)
    show "sorted (map rr_cycle_seq rows)" by (simp add: rs(2))
    have "mset (map rr_cycle_seq rows) = mset (map rr_cycle_seq rs)" by (simp add: rs(2))
    then show "distinct (map rr_cycle_seq rows)" using dist keys by (metis mset_eq_imp_distinct_iff)
    show "set (map rr_cycle_seq rows) = set (sorted_list_of_set (cc_cycle_seq ` set cs))"
      using keys set by (metis rs(2) set_map set_sort sorted_list_of_set.set_sorted_key_list_of_set finite_imageI finite_set)
  qed simp_all
  show "\<exists>c. latest_of cs (rr_cycle_seq r) c \<and> row_of (rr_cycle_seq r) c = Ok r" if "r \<in> set rows"
    using that spec by (simp add: rs(2))
qed

text \<open>Reconciliation returns exactly one row per cycle, in ascending order of its sequence
  number and whatever the iteration order of the map; the row is computed from a capture of that
  cycle with the latest timestamp.\<close>

theorem reconcile_exact:
  assumes "reconcile hash_order cs = Ok rows" and "\<And>xs. mset (hash_order xs) = mset xs"
  shows "map rr_cycle_seq rows = sorted_list_of_set (cc_cycle_seq ` set cs)
    \<and> list_all (\<lambda>r. \<exists>c. latest_of cs (rr_cycle_seq r) c \<and> row_of (rr_cycle_seq r) c = Ok r) rows"
  using reconcile_rows [OF assms] by (auto simp: list_all_iff)

definition sample_capture :: "u64 \<Rightarrow> i64 \<Rightarrow> i64 \<Rightarrow> calibration_capture" where
  "sample_capture seq ts pnl = \<lparr>cc_ts = ts, cc_cycle_seq = seq, cc_slot = 7, cc_input_mint = ''SOL'',
    cc_output_mint = ''USDC'', cc_input_amount = 100, cc_expected_out_per_leg = [110, 90, 105],
    cc_jito_bundle_id = ''b'', cc_realized_pnl = pnl, cc_won = True\<rparr>"

lemma reconcile_exact_witness:
  "\<exists>rows. reconcile rev [sample_capture 2 10 5, sample_capture 1 20 6, sample_capture 2 30 (- 7)] = Ok rows
    \<and> map rr_cycle_seq rows = sorted_list_of_set {2, 1}"
proof -
  let ?cs = "[sample_capture 2 10 5, sample_capture 1 20 6, sample_capture 2 30 (- 7)]"
  obtain rows :: "reconcile_row list" where r: "reconcile rev ?cs = (Ok rows :: (_, unit) res)"
    by (simp add: reconcile_def sample_capture_def row_of_def range_p_def in_range_def smin_def smax_def)
  from reconcile_exact [OF this] have "map rr_cycle_seq rows = sorted_list_of_set (cc_cycle_seq ` set ?cs)" by simp
  moreover have "cc_cycle_seq ` set ?cs = {2, 1}" by (auto simp: sample_capture_def)
  ultimately have "map rr_cycle_seq rows = sorted_list_of_set {2, 1}" by (simp only:)
  then show ?thesis using r by blast
qed

section \<open>The niches\<close>

definition classified :: "recon_report list \<Rightarrow> (niche_class \<times> reconcile_row) list" where
  "classified reports = concat (map (\<lambda>r. map (\<lambda>row.
    (niche_classify row (rr_slot row) (rep_first_seen_slot r), row)) (rep_rows r)) reports)"

definition rows_in :: "niche_class \<Rightarrow> (niche_class \<times> reconcile_row) list \<Rightarrow> reconcile_row list" where
  "rows_in c crs = map snd (filter (\<lambda>(c', row). c' = c) crs)"

definition row_gas :: "reconcile_row \<Rightarrow> int" where
  "row_gas row = sint (max (rr_tip_lamports row) 1)"

definition totals_of :: "niche_totals \<Rightarrow> niche_class \<Rightarrow> int \<times> int \<times> nat" where
  "totals_of m c = (case map_of m c of None \<Rightarrow> (0, 0, 0) | Some (p, g, n) \<Rightarrow> (p, g, unat n))"

lemma niche_add_Ok:
  "niche_add cl pnl gas m = Ok m' \<Longrightarrow>
    totals_of m' c = (case totals_of m c of (p, g, n) \<Rightarrow>
      if c = cl then (p + pnl, g + gas, Suc n) else (p, g, n))
    \<and> fst ` set m' = insert cl (fst ` set m) \<and> (distinct (map fst m) \<longrightarrow> distinct (map fst m'))"
proof (induction cl pnl gas m arbitrary: m' rule: niche_add.induct)
  case (1 cl pnl gas)
  then show ?case by (auto simp: bind_res_Ok_iff range_p_Ok_iff totals_of_def)
next
  case (2 cl pnl gas c0 p0 g0 n rest)
  show ?case
  proof (cases "c0 = cl")
    case True
    then obtain n' where n': "add_p n 1 = (Ok n' :: (u64, unit) res)"
      "m' = (c0, (p0 + pnl, g0 + gas, n')) # rest"
      using "2.prems" by (auto simp: bind_res_Ok_iff range_p_Ok_iff)
    then show ?thesis using True by (auto simp: totals_of_def op_p_iffs)
  next
    case False
    then obtain rest' where rest': "niche_add cl pnl gas rest = Ok rest'" "m' = (c0, (p0, g0, n)) # rest'"
      using "2.prems" by (auto simp: bind_res_Ok_iff)
    note ih = "2.IH" [OF False rest'(1)]
    show ?thesis
    proof (cases "c = c0")
      case True
      then show ?thesis using ih False rest'(2) by (auto simp: totals_of_def)
    next
      case ne: False
      then have "totals_of m' c = totals_of rest' c" "totals_of ((c0, (p0, g0, n)) # rest) c = totals_of rest c"
        by (simp_all add: totals_of_def rest'(2))
      then show ?thesis using ih False rest'(2) by auto
    qed
  qed
qed

definition row_totals :: "reconcile_row list \<Rightarrow> int \<times> int \<times> nat" where
  "row_totals rows = (sum_list (map rr_realized_pnl rows), sum_list (map row_gas rows), length rows)"

definition totals_ok :: "niche_totals \<Rightarrow> (niche_class \<times> reconcile_row) list \<Rightarrow> bool" where
  "totals_ok m crs \<longleftrightarrow> distinct (map fst m) \<and> fst ` set m = fst ` set crs
    \<and> (\<forall>c. totals_of m c = row_totals (rows_in c crs))"

lemma totals_ok_add:
  assumes "totals_ok m crs" "niche_add cl (rr_realized_pnl row) (row_gas row) m = Ok m'"
  shows "totals_ok m' (crs @ [(cl, row)])"
proof -
  have "totals_of m' c = row_totals (rows_in c (crs @ [(cl, row)]))" for c
    using niche_add_Ok [OF assms(2), of c] assms(1)
    by (auto simp: totals_ok_def row_totals_def rows_in_def split: prod.splits)
  then show ?thesis using niche_add_Ok [OF assms(2)] assms(1) by (auto simp: totals_ok_def)
qed

lemma totals_ok_rows:
  "totals_ok m crs \<Longrightarrow> niche_rows fs rows m = Ok m' \<Longrightarrow>
    totals_ok m' (crs @ map (\<lambda>row. (niche_classify row (rr_slot row) fs, row)) rows)"
proof (induction rows arbitrary: m crs)
  case (Cons row rows)
  then obtain m1 where m1: "niche_add (niche_classify row (rr_slot row) fs) (rr_realized_pnl row) (row_gas row) m = Ok m1"
    "niche_rows fs rows m1 = Ok m'"
    by (auto simp: bind_res_Ok_iff row_gas_def)
  show ?case using Cons.IH [OF totals_ok_add [OF Cons.prems(1) m1(1)] m1(2)] by simp
qed simp

lemma totals_ok_reports:
  "totals_ok m crs \<Longrightarrow> niche_reports reports m = Ok m' \<Longrightarrow> totals_ok m' (crs @ classified reports)"
proof (induction reports arbitrary: m crs)
  case (Cons r rs)
  then obtain m1 where m1: "niche_rows (rep_first_seen_slot r) (rep_rows r) m = Ok m1" "niche_reports rs m1 = Ok m'"
    by (auto simp: bind_res_Ok_iff)
  show ?case using Cons.IH [OF totals_ok_rows [OF Cons.prems(1) m1(1)] m1(2)] by (simp add: classified_def)
qed (simp add: classified_def)

lemma niche_enabled_iff:
  assumes run: "niche_score hash_order reports = Ok scores" and perm: "\<And>m. mset (hash_order m) = mset m"
  shows "is_enabled (niches_from_scores scores) c \<longleftrightarrow>
    (case row_totals (rows_in c (classified reports)) of (pnl, gas, n) \<Rightarrow> 30 \<le> n \<and> 0 < gas \<and> 0 < pnl)"
proof -
  obtain m where m: "niche_reports reports [] = Ok m"
    "scores = sort_key (\<lambda>r. - nr_realized_pnl r) (map rank_of (hash_order m))"
    using run by (auto simp: niche_score_def bind_res_Ok_iff)
  have "totals_ok [] []" by (simp add: totals_ok_def totals_of_def row_totals_def rows_in_def)
  from totals_ok_reports [OF this m(1)] have ok: "totals_ok m (classified reports)" by simp
  have "set (hash_order m) = set m" using perm [of m] by (metis set_mset_mset)
  then have ranks: "set scores = rank_of ` set m" by (simp add: m(2))
  have big: "of_nat MIN_SAMPLES_FOR_FIT \<le> n \<longleftrightarrow> 30 \<le> unat n" for n :: u64
    by (simp add: MIN_SAMPLES_FOR_FIT_def word_le_nat_alt)
  have "is_enabled (niches_from_scores scores) c \<longleftrightarrow> (\<exists>e \<in> set m. nr_enabled (rank_of e) \<and> nr_class (rank_of e) = c)"
    by (auto simp: is_enabled_def niches_from_scores_def ranks)
  also have "\<dots> \<longleftrightarrow> (\<exists>p g n. (c, (p, g, n)) \<in> set m \<and> 30 \<le> unat n \<and> 0 < g \<and> 0 < p)"
    by (force simp: rank_of_def big)
  also have "\<dots> \<longleftrightarrow> (case totals_of m c of (pnl, gas, n) \<Rightarrow> 30 \<le> n \<and> 0 < gas \<and> 0 < pnl)"
  proof -
    have "(c, v) \<in> set m \<longleftrightarrow> map_of m c = Some v" for v
      using ok by (simp add: totals_ok_def)
    then show ?thesis by (cases "map_of m c") (auto simp: totals_of_def)
  qed
  also have "totals_of m c = row_totals (rows_in c (classified reports))" using ok by (simp add: totals_ok_def)
  finally show ?thesis .
qed

text \<open>A niche is enabled exactly when at least 30 reconciled cycles fall into it, their tips
  sum to a positive gas and their realized profit sums to more than zero, whatever the iteration order of the
  map and however the cycles are spread over the reports.\<close>

theorem niche_enabled_exactly:
  assumes "niche_score hash_order reports = Ok scores" and "\<And>m. mset (hash_order m) = mset m"
  shows "is_enabled (niches_from_scores scores) c \<longleftrightarrow>
    (case row_totals (rows_in c (classified reports)) of (pnl, gas, n) \<Rightarrow> 30 \<le> n \<and> 0 < gas \<and> 0 < pnl)"
  by (rule niche_enabled_iff [OF assms])

lemma niche_enabled_exactly_witness:
  "niche_score rev [] = (Ok [] :: (_, unit) res)
    \<and> \<not> is_enabled (niches_from_scores []) \<lparr>nc_dex = DexOrca, nc_pool_age = NewPool, nc_time_of_day = Peak, nc_input_size = Small\<rparr>"
proof -
  have run: "niche_score rev [] = (Ok [] :: (_, unit) res)" by (simp add: niche_score_def)
  from niche_enabled_exactly [OF this] run show ?thesis
    by (simp add: classified_def rows_in_def row_totals_def)
qed

lemma classify_never_off_peak: "nc_time_of_day (niche_classify row slot fs) \<noteq> OffPeak"
  by (auto simp: niche_classify_def Let_def)

end
