(* ===== verification/Live.thy ===== *)
theory Live
  imports AssertProgram Cap Oracle Calibration Amount
begin

text \<open>
  \<^verbatim>\<open>crates/dl-app/src/opportunity.rs\<close> and \<^verbatim>\<open>submit_opportunity\<close> of
  \<^verbatim>\<open>crates/dl-app/src/live.rs\<close>: from a detected cycle to a submitted bundle, with every
  safety gate and every exit. The services outside (Jupiter, Jito, the RPC node, Pyth), the
  rate limiter's answer, the STOP file, the date, and the functions of \<^verbatim>\<open>solana_sdk\<close> and \<^verbatim>\<open>bs58\<close>
  are the fields of an environment.
\<close>

section \<open>The environment\<close>

record quote_request =
  qr_input_mint :: string
  qr_output_mint :: string
  qr_amount :: u64
  qr_slippage_bps :: u16

record jito_submit_result =
  js_bundle_id :: string
  js_tip_lamports :: u64

text \<open>
  \<open>env_jupiter i\<close> answers the request of leg \<open>i\<close> with the quoted output and the swap
  transaction; \<open>env_pyth k\<close> and \<open>env_now k\<close> answer the \<open>k\<close>-th price check.
\<close>

record 'k live_env =
  env_base58 :: "pubkey \<Rightarrow> string"
  env_message_new :: "instruction list \<Rightarrow> pubkey option \<Rightarrow> message"
  env_transfer :: "pubkey \<Rightarrow> pubkey \<Rightarrow> u64 \<Rightarrow> instruction"
  env_find_program_address :: "u8 list list \<Rightarrow> pubkey \<Rightarrow> pubkey \<times> u8"
  env_jupiter :: "nat \<Rightarrow> quote_request \<Rightarrow> pubkey \<Rightarrow> (u64 \<times> versioned_transaction, executor_error) res"
  env_rpc :: "versioned_transaction \<Rightarrow> rpc_simulation option"
  env_from_seed :: "u8 list \<Rightarrow> 'k option"
  env_sign_message :: "'k \<Rightarrow> u8 list \<Rightarrow> signature"
  env_serialize :: "versioned_message \<Rightarrow> u8 list"
  env_submit :: "bundle_data \<Rightarrow> (jito_submit_result, executor_error) res"
  env_poll :: "string \<Rightarrow> (landing_result, executor_error) res"
  env_pyth :: "nat \<Rightarrow> pubkey \<Rightarrow> (price, pyth_error) res"
  env_now :: "nat \<Rightarrow> i64"
  env_rate_ok :: bool
  env_stop_file :: bool
  env_today :: naive_date
  env_capture_ts :: i64
  env_capture_ok :: bool

section \<open>Metrics\<close>

record live_metrics =
  bundles_landed :: u64
  bundles_failed :: u64
  wrong_leg_counts :: "usize \<rightharpoonup> u64"
  cycles_evaluated :: u64

definition metrics_new :: live_metrics where
  "metrics_new = \<lparr>bundles_landed = 0, bundles_failed = 0, wrong_leg_counts = Map.empty, cycles_evaluated = 0\<rparr>"

text \<open>The counter is an atomic, which wraps; the \<^verbatim>\<open>+ 1\<close> after it is unchecked.\<close>

definition next_cycle_seq :: "live_metrics \<Rightarrow> (u64, 'e) res \<times> live_metrics" where
  "next_cycle_seq m = (add_p (cycles_evaluated m) 1, m\<lparr>cycles_evaluated := cycles_evaluated m + 1\<rparr>)"

definition wrong_leg_count_total :: "usize \<Rightarrow> live_metrics \<Rightarrow> u64" where
  "wrong_leg_count_total n m = (case wrong_leg_counts m n of None \<Rightarrow> 0 | Some v \<Rightarrow> v)"

definition inc_wrong_leg_count :: "usize \<Rightarrow> live_metrics \<Rightarrow> (live_metrics, 'e) res" where
  "inc_wrong_leg_count n m =
    bind_res (add_p (wrong_leg_count_total n m) 1)
      (\<lambda>v. Ok (m\<lparr>wrong_leg_counts := (wrong_leg_counts m)(n \<mapsto> v)\<rparr>))"

definition inc_landed :: "live_metrics \<Rightarrow> live_metrics" where
  "inc_landed m = m\<lparr>bundles_landed := bundles_landed m + 1\<rparr>"

definition inc_failed :: "live_metrics \<Rightarrow> live_metrics" where
  "inc_failed m = m\<lparr>bundles_failed := bundles_failed m + 1\<rparr>"

section \<open>From a cycle to transactions\<close>

datatype opportunity_error =
    WrongLegCount usize
  | LegPoolNotFound pubkey
  | OppJupiter executor_error
  | OppAssert executor_error
  | OppSimulateRejected
  | OppAssembly executor_error

record resolved_leg =
  rl_leg :: leg
  rl_pool :: pool
  rl_input_mint :: pubkey
  rl_output_mint :: pubkey

fun resolve_loop ::
    "(pubkey \<Rightarrow> pool option) \<Rightarrow> leg list \<Rightarrow> resolved_leg list \<Rightarrow> (resolved_leg list, opportunity_error) res" where
  "resolve_loop pool_lookup [] resolved = Ok resolved"
| "resolve_loop pool_lookup (l # ls) resolved =
    bind_res (ok_or (pool_lookup (leg_pool l)) (LegPoolNotFound (leg_pool l))) (\<lambda>p.
      let mints = (case leg_direction l of
          BaseToQuote \<Rightarrow> (base_mint p, quote_mint p)
        | QuoteToBase \<Rightarrow> (quote_mint p, base_mint p))
      in resolve_loop pool_lookup ls (resolved @
        [\<lparr>rl_leg = l, rl_pool = p, rl_input_mint = fst mints, rl_output_mint = snd mints\<rparr>]))"

definition resolve_cycle_legs ::
    "cycle \<Rightarrow> (pubkey \<Rightarrow> pool option) \<Rightarrow> live_metrics \<Rightarrow>
      (resolved_leg list, opportunity_error) res \<times> live_metrics" where
  "resolve_cycle_legs c pool_lookup m =
    (if length (legs c) \<noteq> 3 then
       (case inc_wrong_leg_count (length (legs c)) m of
          Ok m' \<Rightarrow> (Err (WrongLegCount (length (legs c))), m')
        | Err e \<Rightarrow> (Err e, m)
        | Panic \<Rightarrow> (Panic, m))
     else (resolve_loop pool_lookup (legs c) [], m))"

definition resolve_leg_mints ::
    "cycle \<Rightarrow> (pubkey \<Rightarrow> pool option) \<Rightarrow> (resolved_leg list, opportunity_error) res" where
  "resolve_leg_mints c pool_lookup = fst (resolve_cycle_legs c pool_lookup metrics_new)"

definition default_input_amount_lamports :: "cycle \<Rightarrow> u64" where
  "default_input_amount_lamports c =
    (let bps = (of_int (max (expected_profit_bps c) 0) :: u64);
         scaled = sat_mul_w 100000000 (max bps 1) div 100
     in max 100000000 (min scaled 10000000000))"

definition build_single_instruction_tx ::
    "'k live_env \<Rightarrow> pubkey \<Rightarrow> instruction \<Rightarrow> hash \<Rightarrow> (versioned_transaction, executor_error) res" where
  "build_single_instruction_tx env fee_payer ix blockhash =
    (let msg = (env_message_new env [ix] (Some fee_payer))\<lparr>recent_blockhash := blockhash\<rparr>;
         v0_msg = LegacyMsg msg;
         n_sigs = unat (num_required_signatures msg)
     in Ok \<lparr>signatures = replicate n_sigs (replicate 64 0), tx_message = v0_msg\<rparr>)"

record unsigned_bundle =
  ub_transactions :: "versioned_transaction list"
  ub_legs :: "swap_leg list"

fun build_swaps ::
    "'k live_env \<Rightarrow> pubkey \<Rightarrow> u64 \<Rightarrow> nat \<Rightarrow> resolved_leg list \<Rightarrow> versioned_transaction list \<Rightarrow> swap_leg list \<Rightarrow>
      (versioned_transaction list \<times> swap_leg list, opportunity_error) res" where
  "build_swaps env signer input_amount i [] swap_txs leg_metas = Ok (swap_txs, leg_metas)"
| "build_swaps env signer input_amount i (r # rs) swap_txs leg_metas =
    (let req = \<lparr>qr_input_mint = env_base58 env (rl_input_mint r), qr_output_mint = env_base58 env (rl_output_mint r),
           qr_amount = input_amount, qr_slippage_bps = 50\<rparr>
     in bind_res (map_err OppJupiter (env_jupiter env i req signer)) (\<lambda>(predicted_out, swap_tx).
        build_swaps env signer input_amount (Suc i) rs (swap_txs @ [swap_tx])
          (leg_metas @ [\<lparr>leg_label = ''leg-'' @ dec_string i,
             leg_input_mint = env_base58 env (rl_input_mint r), leg_output_mint = env_base58 env (rl_output_mint r),
             expected_in = input_amount, expected_out = predicted_out\<rparr>])))"

definition build_unsigned_bundle ::
    "'k live_env \<Rightarrow> cycle \<Rightarrow> (pubkey \<Rightarrow> pool option) \<Rightarrow> pubkey \<Rightarrow> u64 \<Rightarrow> u64 \<Rightarrow> pubkey \<Rightarrow> pubkey \<Rightarrow> hash \<Rightarrow>
      live_metrics \<Rightarrow> (unsigned_bundle, opportunity_error) res \<times> live_metrics" where
  "build_unsigned_bundle env c pool_lookup assert_pid min_pnl tip tip_account signer blockhash m =
    (case resolve_cycle_legs c pool_lookup m of (resolved_r, m') \<Rightarrow>
      (bind_res resolved_r (\<lambda>resolved.
         let input_amount = default_input_amount_lamports c in
         bind_res (build_swaps env signer input_amount 0 resolved [] []) (\<lambda>(swap_txs, leg_metas).
         let vault = fst (derive_vault_pda (env_find_program_address env) signer assert_pid);
             assert_ix = build_assert_instruction assert_pid signer vault min_pnl
         in bind_res (map_err OppAssert (build_single_instruction_tx env signer assert_ix blockhash)) (\<lambda>assert_tx.
         let tip_ix = env_transfer env signer tip_account tip in
         bind_res (map_err OppAssembly (build_single_instruction_tx env signer tip_ix blockhash)) (\<lambda>tip_tx.
         Ok \<lparr>ub_transactions = swap_txs @ [assert_tx] @ [tip_tx], ub_legs = leg_metas\<rparr>)))), m'))"

section \<open>Submitting an opportunity\<close>

record live_config =
  lc_assert_program_id :: pubkey
  lc_tip_config :: tip_config
  lc_simulate :: bool
  lc_tip_account :: pubkey
  lc_recent_blockhash :: hash
  lc_pyth :: bool
  lc_pyth_feeds :: "pubkey \<rightharpoonup> pubkey"
  lc_pyth_max_age_secs :: u64
  lc_niche_config :: "niche_config option"

datatype not_submitted =
    ThresholdUnreasonable
  | NSResolve opportunity_error
  | NSNiche niche_class
  | NSPythNoFeed pubkey
  | NSPyth pyth_error
  | NSCap cap_error
  | NSRateLimit
  | NSKillSwitch
  | NSBuild opportunity_error
  | NSSign executor_error
  | NSBundle executor_error
  | NSSubmit executor_error
  | NSPoll executor_error

datatype rejection = SimulateRpc executor_error | SimulateVerdict simulate_verdict bool

datatype opportunity_outcome =
    OLanded (landed_slot: u64) (landed_pnl: i64)
  | OLost
  | ORejected rejection
  | NotSubmitted not_submitted

record live_state =
  ls_cap :: cap_state
  ls_kill :: kill_switch
  ls_metrics :: live_metrics
  ls_captures :: "calibration_capture list"

definition dex_kind_from_mint :: "string \<Rightarrow> dex_kind" where
  "dex_kind_from_mint mint =
    (if starts_with mint ''So11111'' then DexOrca
     else if starts_with mint ''EPjFWdd5'' then DexRaydium
     else if starts_with mint ''Es9vMFrz'' then DexMeteora
     else DexMeteora)"

definition input_size_bucket :: "u64 \<Rightarrow> size_bucket" where
  "input_size_bucket amount =
    (if amount < 1000000000 then Small else if amount < 10000000000 then Medium else Large)"

definition niche_gate ::
    "'k live_env \<Rightarrow> live_config \<Rightarrow> resolved_leg option \<Rightarrow> u64 \<Rightarrow> not_submitted option" where
  "niche_gate env cfg first_leg input_amount =
    (case (lc_niche_config cfg, first_leg) of
       (Some niche_cfg, Some first) \<Rightarrow>
         (let cl = \<lparr>nc_dex = dex_kind_from_mint (env_base58 env (rl_input_mint first)),
              nc_pool_age = MaturePool, nc_time_of_day = Normal, nc_input_size = input_size_bucket input_amount\<rparr>
          in if \<not> is_enabled niche_cfg cl then Some (NSNiche cl) else None)
     | _ \<Rightarrow> None)"

fun pyth_checks :: "'k live_env \<Rightarrow> live_config \<Rightarrow> nat \<Rightarrow> pubkey list \<Rightarrow> (not_submitted option, unit) res" where
  "pyth_checks env cfg k [] = Ok None"
| "pyth_checks env cfg k (mint # mints) =
    (case lc_pyth_feeds cfg mint of
       None \<Rightarrow> Ok (Some (NSPythNoFeed mint))
     | Some feed \<Rightarrow>
         (case fetch_fresh (env_pyth env k) (env_now env k) feed (lc_pyth_max_age_secs cfg) of
            Err e \<Rightarrow> Ok (Some (NSPyth e))
          | Panic \<Rightarrow> Panic
          | Ok p \<Rightarrow> pyth_checks env cfg (Suc k) mints))"

definition pyth_gate :: "'k live_env \<Rightarrow> live_config \<Rightarrow> resolved_leg list \<Rightarrow> (not_submitted option, unit) res" where
  "pyth_gate env cfg resolved =
    (if lc_pyth cfg
     then pyth_checks env cfg 0 (concat (map (\<lambda>r. [rl_input_mint r, rl_output_mint r]) resolved))
     else Ok None)"

definition capture_of ::
    "'k live_env \<Rightarrow> cycle \<Rightarrow> u64 \<Rightarrow> jito_submit_result \<Rightarrow> bool \<Rightarrow> i64 \<Rightarrow> string \<Rightarrow> string \<Rightarrow> u64 \<Rightarrow> u64 list \<Rightarrow>
      calibration_capture" where
  "capture_of env c slot jr won realized input_mint output_mint input_amount expected_outs =
    \<lparr>cc_ts = env_capture_ts env, cc_cycle_seq = cycle_seq c, cc_slot = slot, cc_input_mint = input_mint,
     cc_output_mint = output_mint, cc_input_amount = input_amount, cc_expected_out_per_leg = expected_outs,
     cc_jito_bundle_id = js_bundle_id jr, cc_realized_pnl = realized, cc_won = won\<rparr>"

definition persist_calibration_capture ::
    "'k live_env \<Rightarrow> calibration_capture \<Rightarrow> calibration_capture list \<Rightarrow> calibration_capture list" where
  "persist_calibration_capture env c log = (if env_capture_ok env then log @ [c] else log)"

text \<open>Giving the charge of the tip back, on the exits before the bundle is out.\<close>

definition refunded :: "u64 \<Rightarrow> live_state \<Rightarrow> live_state" where
  "refunded tip s = s\<lparr>ls_cap := refund tip (ls_cap s)\<rparr>"

definition failed_once :: "live_state \<Rightarrow> live_state" where
  "failed_once s = s\<lparr>ls_metrics := inc_failed (ls_metrics s)\<rparr>"

text \<open>After a submission: what the poll says decides the kill switch, the counters and the log.\<close>

definition after_submit ::
    "'k live_env \<Rightarrow> cycle \<Rightarrow> jito_submit_result \<Rightarrow> string \<Rightarrow> string \<Rightarrow> u64 \<Rightarrow> u64 list \<Rightarrow> live_state \<Rightarrow>
      (opportunity_outcome, unit) res \<times> live_state" where
  "after_submit env c jr input_mint output_mint input_amount expected_outs s =
    (case env_poll env (js_bundle_id jr) of
       Ok (Landed slot) \<Rightarrow>
         (Ok (OLanded slot 0),
          s\<lparr>ls_metrics := inc_landed (ls_metrics s),
            ls_kill := snd (record_outcome BundleLanded (ls_kill s)),
            ls_captures := persist_calibration_capture env
              (capture_of env c slot jr True (sint (js_tip_lamports jr)) input_mint output_mint input_amount
                expected_outs) (ls_captures s)\<rparr>)
     | Ok _ \<Rightarrow>
         (Ok OLost, (failed_once s)\<lparr>ls_kill := snd (record_outcome BundleLost (ls_kill s))\<rparr>)
     | Err e \<Rightarrow>
         (Ok (NotSubmitted (NSPoll e)),
          (failed_once s)\<lparr>ls_kill := snd (record_outcome BundleLost (ls_kill s))\<rparr>)
     | Panic \<Rightarrow> (Panic, s))"

text \<open>The simulate gate, when an RPC is configured.\<close>

definition live_simulate_gate ::
    "'k live_env \<Rightarrow> live_config \<Rightarrow> versioned_transaction list \<Rightarrow> (rejection option, unit) res" where
  "live_simulate_gate env cfg txs =
    (if lc_simulate cfg then
       (case simulate_and_classify (env_rpc env) txs (Some (lc_assert_program_id cfg)) of
          Ok (report, verdict) \<Rightarrow>
            (if verdict = NonPositive \<or> verdict = VerdictError
             then Ok (Some (SimulateVerdict verdict (all_txs_ok report))) else Ok None)
        | Err e \<Rightarrow> Ok (Some (SimulateRpc e))
        | Panic \<Rightarrow> Panic)
     else Ok None)"

text \<open>The part behind the gates, with the tip already charged to the cap.\<close>

definition send_charged ::
    "'k live_env \<Rightarrow> live_config \<Rightarrow> u8 list \<Rightarrow> pubkey \<Rightarrow> (pubkey \<Rightarrow> pool option) \<Rightarrow> cycle \<Rightarrow> u64 \<Rightarrow> u64 \<Rightarrow>
      string \<Rightarrow> string \<Rightarrow> live_state \<Rightarrow> (opportunity_outcome, unit) res \<times> live_state" where
  "send_charged env cfg secret signer pool_lookup c min_pnl tip input_mint output_mint s =
    (if \<not> env_rate_ok env then (Ok (NotSubmitted NSRateLimit), refunded tip s)
     else if killswitch_check (env_stop_file env) (ls_kill s) \<noteq> Ok () then
       (Ok (NotSubmitted NSKillSwitch), refunded tip s)
     else (case build_unsigned_bundle env c pool_lookup (lc_assert_program_id cfg) min_pnl tip
         (lc_tip_account cfg) signer (lc_recent_blockhash cfg) (ls_metrics s) of
       (Panic, m') \<Rightarrow> (Panic, s\<lparr>ls_metrics := m'\<rparr>)
     | (Err e, m') \<Rightarrow> (Ok (NotSubmitted (NSBuild e)), failed_once (refunded tip (s\<lparr>ls_metrics := m'\<rparr>)))
     | (Ok output, m') \<Rightarrow>
         let s1 = s\<lparr>ls_metrics := m'\<rparr> in
         (case live_simulate_gate env cfg (ub_transactions output) of
            Panic \<Rightarrow> (Panic, s1)
          | Err e \<Rightarrow> (Err e, s1)
          | Ok (Some rej) \<Rightarrow> (Ok (ORejected rej), refunded tip s1)
          | Ok None \<Rightarrow>
              (case sign_with_keystore (env_from_seed env) (env_sign_message env) (env_serialize env) secret
                  (lc_recent_blockhash cfg) (ub_transactions output) of
                 Panic \<Rightarrow> (Panic, s1)
               | Err e \<Rightarrow> (Ok (NotSubmitted (NSSign e)), refunded tip s1)
               | Ok txs \<Rightarrow>
                   (case builder_build (Some (lc_assert_program_id cfg))
                       (set_signed_transactions txs
                         (set_tip \<lparr>tl_tip_lamports = tip, tl_tip_account = env_base58 env (lc_tip_account cfg)\<rparr>
                           (fold push_swap (ub_legs output) builder_new))) of
                      Panic \<Rightarrow> (Panic, s1)
                    | Err e \<Rightarrow> (Ok (NotSubmitted (NSBundle e)), refunded tip s1)
                    | Ok b \<Rightarrow>
                        (case env_submit env b of
                           Panic \<Rightarrow> (Panic, s1)
                         | Err e \<Rightarrow> (Ok (NotSubmitted (NSSubmit e)), failed_once (refunded tip s1))
                         | Ok jr \<Rightarrow>
                             after_submit env c jr input_mint output_mint
                               (default_input_amount_lamports c) (map expected_out (ub_legs output)) s1))))))"

definition MIN_NET_PNL_LAMPORTS :: u64 where
  "MIN_NET_PNL_LAMPORTS = 50000"

definition submit_opportunity ::
    "'k live_env \<Rightarrow> live_config \<Rightarrow> u8 list \<Rightarrow> pubkey \<Rightarrow> (pubkey \<Rightarrow> pool option) \<Rightarrow> cycle \<Rightarrow> live_state \<Rightarrow>
      (opportunity_outcome, unit) res \<times> live_state" where
  "submit_opportunity env cfg secret signer pool_lookup cycle0 s0 =
    (case next_cycle_seq (ls_metrics s0) of
       (Panic, m) \<Rightarrow> (Panic, s0\<lparr>ls_metrics := m\<rparr>)
     | (Err e, m) \<Rightarrow> (Err e, s0\<lparr>ls_metrics := m\<rparr>)
     | (Ok seq, m) \<Rightarrow>
         let s = s0\<lparr>ls_metrics := m\<rparr>; c = cycle0\<lparr>cycle_seq := seq\<rparr> in
         if assert_min_net_pnl_threshold_reasonable MIN_NET_PNL_LAMPORTS \<noteq> Ok ()
         then (Ok (NotSubmitted ThresholdUnreasonable), s)
         else
           let input_amount = default_input_amount_lamports c;
               tip = tip_lamports (int (unat input_amount)) (lc_tip_config cfg) in
           (case resolve_leg_mints c pool_lookup of
              Panic \<Rightarrow> (Panic, s)
            | Err e \<Rightarrow> (Ok (NotSubmitted (NSResolve e)), s)
            | Ok resolved \<Rightarrow>
                let first_leg = first_opt resolved;
                    mints = (case first_leg of
                        Some r \<Rightarrow> (env_base58 env (rl_input_mint r), env_base58 env (rl_output_mint r))
                      | None \<Rightarrow> (''unknown'', ''unknown'')) in
                (case niche_gate env cfg first_leg input_amount of
                   Some why \<Rightarrow> (Ok (NotSubmitted why), s)
                 | None \<Rightarrow>
                     (case pyth_gate env cfg resolved of
                        Panic \<Rightarrow> (Panic, s)
                      | Err e \<Rightarrow> (Err e, s)
                      | Ok (Some why) \<Rightarrow> (Ok (NotSubmitted why), s)
                      | Ok None \<Rightarrow>
                          (case try_charge (env_today env) tip (ls_cap s) of
                             (Ok _, cap') \<Rightarrow>
                               send_charged env cfg secret signer pool_lookup c MIN_NET_PNL_LAMPORTS tip
                                 (fst mints) (snd mints) (s\<lparr>ls_cap := cap'\<rparr>)
                           | (Err e, cap') \<Rightarrow>
                               (Ok (NotSubmitted (NSCap e)), failed_once (s\<lparr>ls_cap := cap'\<rparr>))
                           | (Panic, cap') \<Rightarrow> (Panic, s\<lparr>ls_cap := cap'\<rparr>))))))"

end
