(* ===== verification/Live_Safety.thy ===== *)
theory Live_Safety
  imports Live
begin

text \<open>
  What \<open>submit_opportunity\<close> guarantees: the accounting of the tip on every exit, the daily
  cap over whole runs, the checks that precede a submission, and what the calibration sees of it.
\<close>

section \<open>What happens to the charge\<close>

fun exit_before_charge :: "opportunity_outcome \<Rightarrow> bool" where
  "exit_before_charge (NotSubmitted ThresholdUnreasonable) = True"
| "exit_before_charge (NotSubmitted (NSResolve e)) = True"
| "exit_before_charge (NotSubmitted (NSNiche c)) = True"
| "exit_before_charge (NotSubmitted (NSPythNoFeed m)) = True"
| "exit_before_charge (NotSubmitted (NSPyth e)) = True"
| "exit_before_charge out = False"

text \<open>The outcomes of a bundle that Jito accepted: the tip stays charged.\<close>

fun bundle_sent :: "opportunity_outcome \<Rightarrow> bool" where
  "bundle_sent (OLanded slot pnl) = True"
| "bundle_sent OLost = True"
| "bundle_sent (NotSubmitted (NSPoll e)) = True"
| "bundle_sent out = False"

definition submit_tip :: "live_config \<Rightarrow> cycle \<Rightarrow> u64" where
  "submit_tip cfg c = tip_lamports (int (unat (default_input_amount_lamports c))) (lc_tip_config cfg)"

lemma cap_refunded [simp]:
  "ls_cap (refunded t s) = refund t (ls_cap s)" "ls_kill (refunded t s) = ls_kill s"
  "ls_captures (refunded t s) = ls_captures s" "ls_metrics (refunded t s) = ls_metrics s"
  "ls_cap (failed_once s) = ls_cap s" "ls_kill (failed_once s) = ls_kill s"
  "ls_captures (failed_once s) = ls_captures s"
  by (simp_all add: refunded_def failed_once_def)

lemma default_input_seq [simp]: "default_input_amount_lamports (c\<lparr>cycle_seq := q\<rparr>) = default_input_amount_lamports c"
  by (simp add: default_input_amount_lamports_def)

lemma after_submit_cases:
  "after_submit env c jr a b x es s = (r, s') \<Longrightarrow> ls_cap s' = ls_cap s
    \<and> (case r of Ok out \<Rightarrow> bundle_sent out \<and> \<not> exit_before_charge out | Err e \<Rightarrow> False | Panic \<Rightarrow> True)"
  by (auto simp: after_submit_def split: res.splits landing_result.splits)

lemma live_simulate_gate_not_Err: "live_simulate_gate env cfg txs \<noteq> Err e"
  by (auto simp: live_simulate_gate_def split: res.splits if_splits)

lemma send_charged_cases:
  "send_charged env cfg secret signer lookup c mp tip a b s = (r, s') \<Longrightarrow>
    (case r of
       Ok out \<Rightarrow> \<not> exit_before_charge out \<and> ls_cap s' = (if bundle_sent out then ls_cap s else refund tip (ls_cap s))
     | Err e \<Rightarrow> False
     | Panic \<Rightarrow> ls_cap s' = ls_cap s)"
  unfolding send_charged_def Let_def
  by (auto simp: live_simulate_gate_not_Err split: if_splits prod.splits res.splits option.splits
      dest!: after_submit_cases)


text \<open>Every way through the handler, with its effect on the cap.\<close>

lemma submit_cases:
  assumes "submit_opportunity env cfg secret signer lookup c s0 = (r, s')"
  shows "(ls_cap s' = ls_cap s0 \<and> ls_kill s' = ls_kill s0 \<and> ls_captures s' = ls_captures s0
      \<and> (case r of Ok out \<Rightarrow> exit_before_charge out | Err e \<Rightarrow> False | Panic \<Rightarrow> True))
    \<or> (\<exists>e. r = Ok (NotSubmitted (NSCap e)) \<and> ls_kill s' = ls_kill s0 \<and> ls_captures s' = ls_captures s0
        \<and> try_charge (env_today env) (submit_tip cfg c) (ls_cap s0) = (Err e, ls_cap s'))
    \<or> (\<exists>cap' s1 c1 a b. try_charge (env_today env) (submit_tip cfg c) (ls_cap s0) = (Ok (), cap')
        \<and> ls_cap s1 = cap' \<and> ls_kill s1 = ls_kill s0 \<and> ls_captures s1 = ls_captures s0
        \<and> c1 = c\<lparr>cycle_seq := cycle_seq c1\<rparr>
        \<and> send_charged env cfg secret signer lookup c1 MIN_NET_PNL_LAMPORTS (submit_tip cfg c) a b s1 = (r, s'))"
proof -
  have tip: "tip_lamports (int (unat (default_input_amount_lamports c))) (lc_tip_config cfg) = submit_tip cfg c"
    by (simp add: submit_tip_def)
  have pyth: "pyth_checks env cfg k ms \<noteq> Err e" for k ms e
    by (induction env cfg k ms rule: pyth_checks.induct) (auto split: option.splits res.splits)
  then have pg: "pyth_gate env cfg rs \<noteq> Err e" for rs e by (simp add: pyth_gate_def)
  have pw: "pyth_checks env cfg k ms = Ok (Some why) \<Longrightarrow> exit_before_charge (NotSubmitted why)" for k ms why
    by (induction env cfg k ms rule: pyth_checks.induct) (auto split: option.splits res.splits)
  then have pgw: "pyth_gate env cfg rs = Ok (Some why) \<Longrightarrow> exit_before_charge (NotSubmitted why)" for rs why
    by (auto simp: pyth_gate_def split: if_splits)
  have ng: "niche_gate env cfg f x = Some why \<Longrightarrow> exit_before_charge (NotSubmitted why)" for f x why
    by (auto simp: niche_gate_def Let_def split: option.splits if_splits)
  obtain q m where n: "next_cycle_seq (ls_metrics s0) = (q :: (u64, unit) res, m)" by fastforce
  show ?thesis
  proof (cases q)
    case (Ok sq)
    define s where "s = s0\<lparr>ls_metrics := m\<rparr>"
    define c1 where "c1 = c\<lparr>cycle_seq := sq\<rparr>"
    have fields: "ls_cap s = ls_cap s0" "ls_kill s = ls_kill s0" "ls_captures s = ls_captures s0"
      by (simp_all add: s_def)
    have thr: "assert_min_net_pnl_threshold_reasonable MIN_NET_PNL_LAMPORTS = Ok ()"
      by (simp add: assert_min_net_pnl_threshold_reasonable_def MIN_NET_PNL_LAMPORTS_def)
    have c1: "default_input_amount_lamports c1 = default_input_amount_lamports c" by (simp add: c1_def)
    note run = assms [unfolded submit_opportunity_def n prod.case Ok res.case Let_def thr
        c1_def [symmetric] s_def [symmetric] c1 tip]
    show ?thesis
    proof (cases "resolve_leg_mints c1 lookup")
      case (Ok rs)
      show ?thesis
      proof (cases "niche_gate env cfg (first_opt rs) (default_input_amount_lamports c)")
        case None
        show ?thesis
        proof (cases "pyth_gate env cfg rs")
          case ok: (Ok w)
          show ?thesis
          proof (cases w)
            case None
            obtain t cap' where t: "try_charge (env_today env) (submit_tip cfg c) (ls_cap s0) = (t, cap')"
              by fastforce
            show ?thesis
            proof (cases t)
              case t_ok: (Ok u)
              define s1 where "s1 = s\<lparr>ls_cap := cap'\<rparr>"
              have "\<exists>a b. send_charged env cfg secret signer lookup c1 MIN_NET_PNL_LAMPORTS (submit_tip cfg c) a b s1 = (r, s')"
                using run \<open>resolve_leg_mints c1 lookup = Ok rs\<close> ok None t t_ok fields
                  \<open>niche_gate env cfg (first_opt rs) (default_input_amount_lamports c) = None\<close>
                by (simp add: s1_def) blast
              moreover have "c1 = c\<lparr>cycle_seq := cycle_seq c1\<rparr>" by (simp add: c1_def)
              moreover have "ls_cap s1 = cap'" "ls_kill s1 = ls_kill s0" "ls_captures s1 = ls_captures s0"
                by (simp_all add: s1_def fields)
              moreover have "try_charge (env_today env) (submit_tip cfg c) (ls_cap s0) = (Ok (), cap')"
                using t t_ok by simp
              ultimately show ?thesis by blast
            next
              case (Err e)
              then show ?thesis using run Ok ok None t fields
                  \<open>niche_gate env cfg (first_opt rs) (default_input_amount_lamports c) = None\<close>
                by auto
            next
              case Panic
              then show ?thesis using try_charge_not_Panic [of "env_today env" "submit_tip cfg c" "ls_cap s0"] t by simp
            qed
          qed (use run Ok ok fields None pgw in auto)
        qed (use run Ok fields None pg in auto)
      qed (use run Ok fields ng in auto)
    qed (use run fields in auto)
  qed (use assms n in \<open>auto simp: submit_opportunity_def next_cycle_seq_def\<close>)
qed


text \<open>C5. The handler accounts for the tip on every exit: an exit before the charge leaves the cap
  alone; a refused charge only resets it for a new day; every exit between the charge and the
  submission gives the tip back exactly, so that the cap is that of the day without it; and a bundle that Jito accepted keeps
  the charge whether it landed, was lost or could not be polled.\<close>

theorem submit_accounts_exactly:
  assumes "submit_opportunity env cfg secret signer lookup c s0 = (Ok out, s')"
  shows "ls_cap s' =
    (if exit_before_charge out then ls_cap s0
     else if bundle_sent out then snd (try_charge (env_today env) (submit_tip cfg c) (ls_cap s0))
     else reset_if_new_day (env_today env) (ls_cap s0))
    \<and> (bundle_sent out \<longrightarrow> fst (try_charge (env_today env) (submit_tip cfg c) (ls_cap s0)) = Ok ())"
  using submit_cases [OF assms]
proof (elim disjE exE conjE)
  assume "case Ok out of Ok out \<Rightarrow> exit_before_charge out | Err e \<Rightarrow> False | Panic \<Rightarrow> True" "ls_cap s' = ls_cap s0"
  then show ?thesis by (cases out rule: exit_before_charge.cases) simp_all
next
  fix e
  assume "Ok out = Ok (NotSubmitted (NSCap e))"
    and t: "try_charge (env_today env) (submit_tip cfg c) (ls_cap s0) = (Err e, ls_cap s')"
  then show ?thesis using try_charge_fail(1) [OF t] by simp
next
  fix cap' s1 c1 a b
  assume t: "try_charge (env_today env) (submit_tip cfg c) (ls_cap s0) = (Ok (), cap')" and cap: "ls_cap s1 = cap'"
    and send: "send_charged env cfg secret signer lookup c1 MIN_NET_PNL_LAMPORTS (submit_tip cfg c) a b s1 = (Ok out, s')"
  from send_charged_cases [OF send] show ?thesis using t cap refund_charge [OF t] by simp
qed

section \<open>The daily cap of the pipeline\<close>

record 'k live_request =
  lq_env :: "'k live_env"
  lq_cfg :: live_config
  lq_secret :: "u8 list"
  lq_signer :: pubkey
  lq_lookup :: "pubkey \<Rightarrow> pool option"
  lq_cycle :: cycle

definition request_tip :: "'k live_request \<Rightarrow> nat" where
  "request_tip q = unat (submit_tip (lq_cfg q) (lq_cycle q))"

text \<open>One call of the handler on day \<open>d\<close>. A call that panics behind the charge keeps it.\<close>

definition live_step :: "naive_date \<Rightarrow> 'k live_request \<Rightarrow> live_state \<Rightarrow> bool \<times> live_state" where
  "live_step d q s =
    (case submit_opportunity ((lq_env q)\<lparr>env_today := d\<rparr>) (lq_cfg q) (lq_secret q) (lq_signer q) (lq_lookup q)
        (lq_cycle q) s of (r, s') \<Rightarrow>
      ((case r of Ok out \<Rightarrow> bundle_sent out
        | _ \<Rightarrow> try_charge d (submit_tip (lq_cfg q) (lq_cycle q)) (ls_cap s) = (Ok (), ls_cap s')), s'))"

lemma live_step_cases:
  assumes "live_step d q s = (ok, s')"
  shows "(ok \<and> try_charge d (submit_tip (lq_cfg q) (lq_cycle q)) (ls_cap s) = (Ok (), ls_cap s'))
    \<or> (\<not> ok \<and> (ls_cap s' = ls_cap s \<or> ls_cap s' = reset_if_new_day d (ls_cap s)))"
proof -
  let ?env = "(lq_env q)\<lparr>env_today := d\<rparr>"
  obtain r where run: "submit_opportunity ?env (lq_cfg q) (lq_secret q) (lq_signer q) (lq_lookup q) (lq_cycle q) s = (r, s')"
    and ok: "ok = (case r of Ok out \<Rightarrow> bundle_sent out
        | _ \<Rightarrow> try_charge d (submit_tip (lq_cfg q) (lq_cycle q)) (ls_cap s) = (Ok (), ls_cap s'))"
    using assms by (auto simp: live_step_def split: prod.splits)
  show ?thesis using submit_cases [OF run]
  proof (elim disjE exE conjE)
    assume "case r of Ok out \<Rightarrow> exit_before_charge out | Err e \<Rightarrow> False | Panic \<Rightarrow> True" "ls_cap s' = ls_cap s"
    then show ?thesis using ok
      by (cases r) (auto elim: exit_before_charge.elims)
  next
    fix e
    assume "r = Ok (NotSubmitted (NSCap e))"
      and t: "try_charge (env_today ?env) (submit_tip (lq_cfg q) (lq_cycle q)) (ls_cap s) = (Err e, ls_cap s')"
    then show ?thesis using ok try_charge_fail(1) [OF t] by simp
  next
    fix cap' s1 c1 a b
    assume t: "try_charge (env_today ?env) (submit_tip (lq_cfg q) (lq_cycle q)) (ls_cap s) = (Ok (), cap')"
      and cap: "ls_cap s1 = cap'"
      and send: "send_charged ?env (lq_cfg q) (lq_secret q) (lq_signer q) (lq_lookup q) c1 MIN_NET_PNL_LAMPORTS
        (submit_tip (lq_cfg q) (lq_cycle q)) a b s1 = (r, s')"
    from send_charged_cases [OF send] show ?thesis
      using t cap ok refund_charge [OF t] by (cases r) auto
  qed
qed

interpretation live_cap: spending_cap live_step request_tip "\<lambda>s. unat (spent_today (ls_cap s))"
  "\<lambda>s. last_reset (ls_cap s)" "\<lambda>s. unat (daily_lamports (cap_cfg (ls_cap s)))"
proof
  fix d s ok s' and q :: "'a live_request"
  assume "live_step d q s = (ok, s')"
  note c = live_step_cases [OF this]
  let ?t = "submit_tip (lq_cfg q) (lq_cycle q)"
  have charged: "ok \<Longrightarrow> try_charge d ?t (ls_cap s) = (Ok (), ls_cap s')" using c by blast
  show day: "last_reset (ls_cap s') = d \<or> \<not> ok \<and> last_reset (ls_cap s') = last_reset (ls_cap s)"
    using c try_charge_Ok(2) [OF charged] by auto
  show "unat (daily_lamports (cap_cfg (ls_cap s'))) = unat (daily_lamports (cap_cfg (ls_cap s)))"
    using c try_charge_Ok(3) [OF charged] by auto
  show "unat (spent_today (ls_cap s')) = (if last_reset (ls_cap s') = last_reset (ls_cap s)
      then unat (spent_today (ls_cap s)) else 0) + (if ok then request_tip q else 0)"
    using c try_charge_Ok(1,2) [OF charged] by (auto simp: reset_if_new_day_def request_tip_def split: if_splits)
  assume "unat (spent_today (ls_cap s)) \<le> unat (daily_lamports (cap_cfg (ls_cap s)))"
  then have "cap_ok (ls_cap s)" by (simp add: cap_ok_def word_le_nat_alt)
  then have "cap_ok (ls_cap s')" using c cap_ok_charge [of "ls_cap s" d ?t] cap_ok_reset by fastforce
  then show "unat (spent_today (ls_cap s')) \<le> unat (daily_lamports (cap_cfg (ls_cap s)))"
    using \<open>unat (daily_lamports (cap_cfg (ls_cap s'))) = _\<close> by (simp add: cap_ok_def word_le_nat_alt)
qed

text \<open>C6. The wallet's limit holds for the whole pipeline: over any run of opportunities, with any
  answers of the services and any mix of exits, the tips of the bundles sent on one day
  add up to at most the daily cap, as long as the calendar does not go back.\<close>

theorem pipeline_within_daily_cap:
  assumes "sorted (map fst reqs)" and "\<forall>r \<in> set reqs. last_reset (ls_cap s) \<le> fst r" and "cap_ok (ls_cap s)"
  shows "charged_on request_tip d (accepted live_step reqs s) \<le> unat (daily_lamports (cap_cfg (ls_cap s)))"
  using live_cap.charged_within_limit [OF assms(1,2), of d] assms(3)
  by (simp add: cap_ok_def word_le_nat_alt)

section \<open>What is sent\<close>

lemma resolve_loop_length:
  "resolve_loop lookup ls acc = Ok rs \<Longrightarrow> length rs = length acc + length ls"
proof (induction ls arbitrary: acc)
  case (Cons l ls)
  then show ?case by (auto simp: bind_res_Ok_iff Let_def dest!: Cons.IH)
qed simp

lemma build_swaps_Ok:
  "build_swaps env signer x i rs txs ms = Ok (txs', ms') \<Longrightarrow>
    length txs' = length txs + length rs \<and> length ms' = length ms + length rs
    \<and> (list_all (\<lambda>l. expected_in l = x) ms \<longrightarrow> list_all (\<lambda>l. expected_in l = x) ms')"
  by (induction env signer x i rs txs ms rule: build_swaps.induct)
    (fastforce simp: bind_res_Ok_iff Let_def)+

lemma build_unsigned_Ok:
  assumes "build_unsigned_bundle env c lookup pid mp tip ta signer bh m = (Ok out, m')"
  shows "length (ub_transactions out) = 5" "length (ub_legs out) = 3" "length (legs c) = 3"
    "list_all (\<lambda>l. expected_in l = default_input_amount_lamports c) (ub_legs out)"
proof -
  obtain rs txs ms atx ttx where rs: "resolve_cycle_legs c lookup m = (Ok rs, m')"
    and sw: "build_swaps env signer (default_input_amount_lamports c) 0 rs [] [] = Ok (txs, ms)"
    and out: "out = \<lparr>ub_transactions = txs @ [atx] @ [ttx], ub_legs = ms\<rparr>"
    using assms by (auto simp: build_unsigned_bundle_def Let_def bind_res_Ok_iff split: prod.splits)
  have "length (legs c) = 3" "length rs = 3"
    using rs resolve_loop_length [of lookup "legs c" "[]" rs]
    by (auto simp: resolve_cycle_legs_def split: if_splits res.splits)
  then show "length (ub_transactions out) = 5" "length (ub_legs out) = 3" "length (legs c) = 3"
    "list_all (\<lambda>l. expected_in l = default_input_amount_lamports c) (ub_legs out)"
    using build_swaps_Ok [OF sw] by (simp_all add: out)
qed

lemma fold_push_swap [simp]:
  "bb_legs (fold push_swap ls b) = bb_legs b @ ls" "bb_txs (fold push_swap ls b) = bb_txs b"
  "bb_tip (fold push_swap ls b) = bb_tip b"
  by (induction ls arbitrary: b) (simp_all add: push_swap_def)

text \<open>What holds of every bundle handed to Jito.\<close>

definition sent_ok :: "'k live_env \<Rightarrow> live_config \<Rightarrow> cycle \<Rightarrow> u64 \<Rightarrow> live_state \<Rightarrow> bundle_data \<Rightarrow> bool" where
  "sent_ok env cfg c tip s bd \<longleftrightarrow>
    env_rate_ok env \<and> killswitch_check (env_stop_file env) (ls_kill s) = Ok ()
    \<and> tx_count bd = 5 \<and> length (bundle_legs bd) = 3 \<and> length (legs c) = 3 \<and> total_tip_lamports bd = tip
    \<and> assert_tx_first_program_id (signed_transactions bd ! 3) = Some (lc_assert_program_id cfg)
    \<and> list_all (\<lambda>tx. length (signatures tx) = 1) (signed_transactions bd)
    \<and> list_all (\<lambda>l. expected_in l = default_input_amount_lamports c) (bundle_legs bd)"

lemma sign_with_keystore_Ok:
  assumes "sign_with_keystore fs sg sr secret h txs = Ok txs'"
  shows "length txs' = length txs" "list_all (\<lambda>tx. length (signatures tx) = 1) txs'"
  using assms by (auto simp: sign_with_keystore_def sign_transactions_def bind_res_Ok_iff Let_def list_all_iff)

lemma send_charged_sent:
  assumes "send_charged env cfg secret signer lookup c mp tip a b s = (Ok out, s')" "bundle_sent out"
  shows "\<exists>bd jr txs. env_submit env bd = Ok jr \<and> sent_ok env cfg c tip s bd
    \<and> live_simulate_gate env cfg txs = Ok None
    \<and> sign_with_keystore (env_from_seed env) (env_sign_message env) (env_serialize env) secret
        (lc_recent_blockhash cfg) txs = Ok (signed_transactions bd)
    \<and> (case out of OLanded slot pnl \<Rightarrow> env_poll env (js_bundle_id jr) = Ok (Landed slot) \<and> pnl = 0
        | OLost \<Rightarrow> env_poll env (js_bundle_id jr) \<in> {Ok Lost, Ok Pending}
        | NotSubmitted why \<Rightarrow> (\<exists>e. why = NSPoll e \<and> env_poll env (js_bundle_id jr) = Err e)
        | ORejected rej \<Rightarrow> False)"
proof -
  from assms obtain ub m' txs bd jr where
    rate: "env_rate_ok env" and ks: "killswitch_check (env_stop_file env) (ls_kill s) = Ok ()"
    and ub: "build_unsigned_bundle env c lookup (lc_assert_program_id cfg) mp tip (lc_tip_account cfg) signer
      (lc_recent_blockhash cfg) (ls_metrics s) = (Ok ub, m')"
    and gate: "live_simulate_gate env cfg (ub_transactions ub) = Ok None"
    and sign: "sign_with_keystore (env_from_seed env) (env_sign_message env) (env_serialize env) secret
      (lc_recent_blockhash cfg) (ub_transactions ub) = Ok txs"
    and bd: "builder_build (Some (lc_assert_program_id cfg)) (set_signed_transactions txs
      (set_tip \<lparr>tl_tip_lamports = tip, tl_tip_account = env_base58 env (lc_tip_account cfg)\<rparr>
        (fold push_swap (ub_legs ub) builder_new))) = Ok bd"
    and sub: "env_submit env bd = Ok jr"
    and after: "after_submit env c jr a b (default_input_amount_lamports c) (map expected_out (ub_legs ub))
      (s\<lparr>ls_metrics := m'\<rparr>) = (Ok out, s')"
    unfolding send_charged_def Let_def
    by (auto split: if_splits prod.splits res.splits option.splits)
  note U = build_unsigned_Ok [OF ub] and S = sign_with_keystore_Ok [OF sign]
  have b: "bundle_legs bd = ub_legs ub" "signed_transactions bd = txs" "tl_tip_lamports (bundle_tip bd) = tip"
    "assert_tx_first_program_id (txs ! 3) = Some (lc_assert_program_id cfg)"
    using bd U S by (auto simp: builder_build_Ok_iff set_signed_transactions_def set_tip_def builder_new_def)
  have "sent_ok env cfg c tip s bd"
    using rate ks b U S by (simp add: sent_ok_def tx_count_def total_tip_lamports_def)
  moreover have "case out of OLanded slot pnl \<Rightarrow> env_poll env (js_bundle_id jr) = Ok (Landed slot) \<and> pnl = 0
        | OLost \<Rightarrow> env_poll env (js_bundle_id jr) \<in> {Ok Lost, Ok Pending}
        | NotSubmitted why \<Rightarrow> (\<exists>e. why = NSPoll e \<and> env_poll env (js_bundle_id jr) = Err e)
        | ORejected rej \<Rightarrow> False"
    using after by (auto simp: after_submit_def split: res.splits landing_result.splits)
  ultimately show ?thesis using sub gate sign b by blast
qed



section \<open>What the calibration sees\<close>

lemma send_charged_captures:
  assumes "send_charged env cfg secret signer lookup c mp tip a b s = (r, s')"
  shows "ls_captures s' = ls_captures s \<or> (\<exists>cap. ls_captures s' = ls_captures s @ [cap] \<and> cc_won cap)"
proof -
  have "after_submit env c jr a b x es s1 = (r, s') \<Longrightarrow>
      ls_captures s' = ls_captures s1 \<or> (\<exists>cap. ls_captures s' = ls_captures s1 @ [cap] \<and> cc_won cap)" for jr x es s1
    by (auto simp: after_submit_def persist_calibration_capture_def capture_of_def split: res.splits landing_result.splits if_splits)
  from this [of _ _ _ "s\<lparr>ls_metrics := _\<rparr>"] show ?thesis using assms unfolding send_charged_def Let_def
    by (auto split: if_splits prod.splits res.splits option.splits)
qed

definition live_run :: "(naive_date \<times> 'k live_request) list \<Rightarrow> live_state \<Rightarrow> live_state" where
  "live_run reqs s = fold (\<lambda>(d, q) s. snd (live_step d q s)) reqs s"

lemma live_step_captures:
  "ls_captures (snd (live_step d q s)) = ls_captures s
    \<or> (\<exists>cap. ls_captures (snd (live_step d q s)) = ls_captures s @ [cap] \<and> cc_won cap)"
proof -
  obtain r s' where run: "submit_opportunity ((lq_env q)\<lparr>env_today := d\<rparr>) (lq_cfg q) (lq_secret q) (lq_signer q) (lq_lookup q)
      (lq_cycle q) s = (r, s')" by fastforce
  then have s': "snd (live_step d q s) = s'" by (simp add: live_step_def)
  show ?thesis unfolding s' using submit_cases [OF run] send_charged_captures by fastforce
qed

lemma live_run_all_won:
  "list_all cc_won (ls_captures s) \<Longrightarrow> list_all cc_won (ls_captures (live_run reqs s))"
proof (induction reqs arbitrary: s)
  case (Cons x reqs)
  obtain d q where x: "x = (d, q)" by fastforce
  have "list_all cc_won (ls_captures (snd (live_step d q s)))" using live_step_captures [of d q s] Cons.prems by auto
  then show ?case using Cons.IH by (simp add: live_run_def x)
qed (simp add: live_run_def)

text \<open>The calibration never sees a loss: the pipeline logs a capture only for a landed bundle and
  always as won, so however many bundles were lost, the win probability fitted from its own log of
  \<open>n\<close> captures is at least \<open>(n + 1) / (n + 2)\<close>.\<close>

theorem calibration_never_sees_losses:
  assumes "ls_captures s = []" and "length (ls_captures (live_run reqs s)) = n" and "n < 2 ^ 63"
  shows "\<exists>r. fit now (ls_captures (live_run reqs s)) = Ok r
    \<and> ratio_ppm (n + 1) (n + 2) * 10 ^ 12 \<le> unat (scaled (cr_p_win r))"
proof -
  let ?cs = "ls_captures (live_run reqs s)"
  have "list_all cc_won ?cs" using live_run_all_won [of s reqs] assms(1) by simp
  then have won: "won_count ?cs = n" using assms(2) by (simp add: won_count_def list_all_iff filter_True)
  have k: "realized_count ?cs \<le> n" using assms(2) by (auto simp: realized_count_def)
  have "(n + 1) * 1000000 div (n + 2) \<le> (n + 1) * 1000000 div (realized_count ?cs + 2)"
    using k by (intro div_le_mono2) simp_all
  then have "ratio_ppm (n + 1) (n + 2) \<le> ratio_ppm (n + 1) (realized_count ?cs + 2)"
    unfolding ratio_ppm_def by (intro min.mono) simp_all
  then show ?thesis using fit_value [of ?cs now] assms(2,3) won by auto
qed

section \<open>A sample run\<close>

definition sample_env :: "bool \<Rightarrow> unit live_env" where
  "sample_env rate_ok = \<lparr>env_base58 = (\<lambda>k. ''mint''),
    env_message_new = (\<lambda>ixs payer. \<lparr>num_required_signatures = 1, account_keys = map program_id ixs,
      recent_blockhash = [], instructions = [\<lparr>program_id_index = 0, ci_accounts = [], ci_data = []\<rparr>]\<rparr>),
    env_transfer = (\<lambda>a b l. \<lparr>program_id = pubkey_ZERO, metas = [], ix_data = []\<rparr>),
    env_find_program_address = (\<lambda>seeds p. (pubkey_ZERO, 255)),
    env_jupiter = (\<lambda>i req s. Ok (2, \<lparr>signatures = [],
      tx_message = LegacyMsg \<lparr>num_required_signatures = 1, account_keys = [], recent_blockhash = [], instructions = []\<rparr>\<rparr>)),
    env_rpc = (\<lambda>tx. None), env_from_seed = (\<lambda>s. Some ()), env_sign_message = (\<lambda>k m. []),
    env_serialize = (\<lambda>m. []), env_submit = (\<lambda>b. Ok \<lparr>js_bundle_id = ''b'', js_tip_lamports = total_tip_lamports b\<rparr>),
    env_poll = (\<lambda>i. Ok (Landed 9)), env_pyth = (\<lambda>k f. Err PythNoFeed), env_now = (\<lambda>k. 0),
    env_rate_ok = rate_ok, env_stop_file = False, env_today = 1, env_capture_ts = 0, env_capture_ok = True\<rparr>"

definition sample_cfg :: live_config where
  "sample_cfg = \<lparr>lc_assert_program_id = Pubkey [7], lc_tip_config = tip_config_default, lc_simulate = False,
    lc_tip_account = pubkey_ZERO, lc_recent_blockhash = [1], lc_pyth = False, lc_pyth_feeds = Map.empty,
    lc_pyth_max_age_secs = 60, lc_niche_config = None\<rparr>"

definition sample_live_cycle :: cycle where
  "sample_live_cycle = \<lparr>cycle_seq = 0, legs = replicate 3 \<lparr>leg_pool = pubkey_ZERO, leg_direction = BaseToQuote, leg_weight = - 1\<rparr>,
    weight_sum = - 3, expected_profit_bps = 0\<rparr>"

definition sample_state :: live_state where
  "sample_state = \<lparr>ls_cap = cap_new 1 cap_config_default, ls_kill = killswitch_new 3, ls_metrics = metrics_new, ls_captures = []\<rparr>"

lemma sample_resolved:
  "resolve_loop (\<lambda>k. Some default_pool) (legs sample_live_cycle) [] = Ok (replicate 3
    \<lparr>rl_leg = \<lparr>leg_pool = pubkey_ZERO, leg_direction = BaseToQuote, leg_weight = - 1\<rparr>, rl_pool = default_pool,
     rl_input_mint = pubkey_ZERO, rl_output_mint = pubkey_ZERO\<rparr>)"
  by (simp add: sample_live_cycle_def ok_or_def default_pool_def numeral_3_eq_3)

lemma sample_legs: "length (legs sample_live_cycle) = 3"
  by (simp add: sample_live_cycle_def)

lemma sample_input: "default_input_amount_lamports sample_live_cycle = 100000000"
  by (simp add: default_input_amount_lamports_def sample_live_cycle_def sat_mul_w_def Let_def)

lemma sample_tip: "submit_tip sample_cfg sample_live_cycle = 500000"
  by (simp add: submit_tip_def sample_input sample_cfg_def tip_config_default_def tip_lamports_def as_u128_def
      sat_mul_w_def Let_def)

lemma sample_charge:
  "try_charge 1 500000 (ls_cap sample_state) = (Ok (), (ls_cap sample_state)\<lparr>spent_today := 500000\<rparr>)"
  by (simp add: try_charge_def sample_state_def cap_new_def cap_config_default_def reset_if_new_day_def
      sat_sub_w_def sat_add_w_def Let_def)

definition sample_tx :: "pubkey list \<Rightarrow> versioned_transaction" where
  "sample_tx keys = \<lparr>signatures = [[]], tx_message = LegacyMsg \<lparr>num_required_signatures = 1, account_keys = keys,
    recent_blockhash = [1], instructions = (if keys = [] then []
      else [\<lparr>program_id_index = 0, ci_accounts = [], ci_data = []\<rparr>])\<rparr>\<rparr>"

definition sample_txs :: "versioned_transaction list" where
  "sample_txs = [sample_tx [], sample_tx [], sample_tx [], sample_tx [Pubkey [7]], sample_tx [pubkey_ZERO]]"

lemma sample_live_build:
  "\<exists>ub. build_unsigned_bundle (sample_env rate_ok) (sample_live_cycle\<lparr>cycle_seq := 1\<rparr>) (\<lambda>k. Some default_pool) (Pubkey [7]) mp
      500000 pubkey_ZERO pubkey_ZERO [1] m = (Ok ub, m)
    \<and> length (ub_legs ub) = 3
    \<and> sign_with_keystore (env_from_seed (sample_env rate_ok)) (env_sign_message (sample_env rate_ok))
        (env_serialize (sample_env rate_ok)) [] [1] (ub_transactions ub) = Ok sample_txs"
  by (simp add: build_unsigned_bundle_def resolve_cycle_legs_def sample_resolved sample_env_def Let_def numeral_3_eq_3
      build_single_instruction_tx_def build_assert_instruction_def derive_vault_pda_def sign_with_keystore_def
      keystore_to_keypair_def ok_or_def sign_transactions_def set_blockhash_def sample_txs_def sample_tx_def
      sample_legs cong: bind_res_weak_cong)

lemma sample_builder:
  assumes "length ls = 3"
  shows "builder_build (Some (Pubkey [7])) (set_signed_transactions sample_txs (set_tip t (fold push_swap ls builder_new)))
    = Ok \<lparr>bundle_tip = t, bundle_legs = ls, signed_transactions = sample_txs\<rparr>"
  using assms by (auto simp: builder_build_Ok_iff set_signed_transactions_def set_tip_def builder_new_def sample_txs_def
      assert_tx_first_program_id_def sample_tx_def first_opt_def get_opt_def)

lemma sample_run:
  "\<exists>s'. submit_opportunity (sample_env rate_ok) sample_cfg [] pubkey_ZERO (\<lambda>k. Some default_pool) sample_live_cycle sample_state
    = (Ok (if rate_ok then OLanded 9 0 else NotSubmitted NSRateLimit), s')"
proof -
  let ?c = "sample_live_cycle\<lparr>cycle_seq := 1\<rparr>"
  have seq: "next_cycle_seq (ls_metrics sample_state) = (Ok 1, metrics_new\<lparr>cycles_evaluated := 1\<rparr>)"
    by (simp add: next_cycle_seq_def sample_state_def metrics_new_def add_p_def)
  have thr: "assert_min_net_pnl_threshold_reasonable MIN_NET_PNL_LAMPORTS = Ok ()"
    by (simp add: assert_min_net_pnl_threshold_reasonable_def MIN_NET_PNL_LAMPORTS_def)
  have res: "\<exists>rs. resolve_leg_mints ?c (\<lambda>k. Some default_pool) = Ok rs"
    by (simp add: resolve_leg_mints_def resolve_cycle_legs_def sample_resolved sample_legs)
  then obtain rs where rs: "resolve_leg_mints ?c (\<lambda>k. Some default_pool) = Ok rs" ..
  have gates: "niche_gate (sample_env rate_ok) sample_cfg f x = None" "pyth_gate (sample_env rate_ok) sample_cfg rs = Ok None" for f x
    by (simp_all add: niche_gate_def pyth_gate_def sample_cfg_def)
  have tip: "tip_lamports (int (unat (100000000 :: u64))) (lc_tip_config sample_cfg) = 500000"
    using sample_tip by (simp only: submit_tip_def sample_input)
  define s1 where "s1 = (sample_state\<lparr>ls_metrics := metrics_new\<lparr>cycles_evaluated := 1\<rparr>\<rparr>)
    \<lparr>ls_cap := (ls_cap sample_state)\<lparr>spent_today := 500000\<rparr>\<rparr>"
  have today: "env_today (sample_env rate_ok) = 1" "env_rate_ok (sample_env rate_ok) = rate_ok" "\<not> env_stop_file (sample_env rate_ok)"
    by (simp_all add: sample_env_def)
  have "\<exists>a b. submit_opportunity (sample_env rate_ok) sample_cfg [] pubkey_ZERO (\<lambda>k. Some default_pool) sample_live_cycle sample_state
      = send_charged (sample_env rate_ok) sample_cfg [] pubkey_ZERO (\<lambda>k. Some default_pool) ?c MIN_NET_PNL_LAMPORTS 500000 a b s1"
    unfolding submit_opportunity_def seq prod.case res.case Let_def thr default_input_seq sample_input tip rs gates option.case
      today
    by (simp add: sample_charge s1_def) blast
  moreover have "\<exists>s'. send_charged (sample_env rate_ok) sample_cfg [] pubkey_ZERO (\<lambda>k. Some default_pool) ?c MIN_NET_PNL_LAMPORTS
      500000 a b s1 = (Ok (if rate_ok then OLanded 9 0 else NotSubmitted NSRateLimit), s')" for a b
  proof (cases rate_ok)
    case True
    have kill: "killswitch_check False (ls_kill s1) = Ok ()"
      by (simp add: killswitch_check_def check_stop_file_def s1_def sample_state_def killswitch_new_def)
    obtain ub where ub: "build_unsigned_bundle (sample_env rate_ok) ?c (\<lambda>k. Some default_pool) (Pubkey [7])
        MIN_NET_PNL_LAMPORTS 500000 pubkey_ZERO pubkey_ZERO [1] (ls_metrics s1) = (Ok ub, ls_metrics s1)"
      "length (ub_legs ub) = 3"
      "sign_with_keystore (env_from_seed (sample_env rate_ok)) (env_sign_message (sample_env rate_ok))
        (env_serialize (sample_env rate_ok)) [] [1] (ub_transactions ub) = Ok sample_txs"
      using sample_live_build [of rate_ok MIN_NET_PNL_LAMPORTS "ls_metrics s1"] by auto
    have env: "env_submit (sample_env rate_ok) = (\<lambda>b. Ok \<lparr>js_bundle_id = ''b'', js_tip_lamports = total_tip_lamports b\<rparr>)"
      "env_poll (sample_env rate_ok) = (\<lambda>i. Ok (Landed 9))"
      by (simp_all add: sample_env_def)
    have cfg: "lc_assert_program_id sample_cfg = Pubkey [7]" "lc_tip_account sample_cfg = pubkey_ZERO"
      "lc_recent_blockhash sample_cfg = [1]" "\<not> lc_simulate sample_cfg" by (simp_all add: sample_cfg_def)
    show ?thesis
      using True today kill ub cfg env
      by (simp add: send_charged_def live_simulate_gate_def sample_builder after_submit_def)
  next
    case False
    then show ?thesis using today by (simp add: send_charged_def)
  qed
  ultimately show ?thesis by metis
qed

lemma submit_accounts_exactly_witness:
  "\<exists>s'. submit_opportunity (sample_env False) sample_cfg [] pubkey_ZERO (\<lambda>k. Some default_pool) sample_live_cycle sample_state
      = (Ok (NotSubmitted NSRateLimit), s')
    \<and> ls_cap s' = reset_if_new_day 1 (ls_cap sample_state)"
proof -
  obtain s' where r: "submit_opportunity (sample_env False) sample_cfg [] pubkey_ZERO (\<lambda>k. Some default_pool) sample_live_cycle sample_state
      = (Ok (NotSubmitted NSRateLimit), s')"
    using sample_run [of False] by auto
  from submit_accounts_exactly [OF r] have "ls_cap s' = reset_if_new_day 1 (ls_cap sample_state)"
    by (simp add: sample_env_def)
  with r show ?thesis by blast
qed



definition sample_request :: "unit live_request" where
  "sample_request = \<lparr>lq_env = sample_env True, lq_cfg = sample_cfg, lq_secret = [], lq_signer = pubkey_ZERO,
    lq_lookup = (\<lambda>k. Some default_pool), lq_cycle = sample_live_cycle\<rparr>"

lemma pipeline_within_daily_cap_witness:
  "charged_on request_tip 1 (accepted live_step [(1, sample_request)] sample_state) = 500000
    \<and> charged_on request_tip 1 (accepted live_step [(1, sample_request)] sample_state) \<le> 5000000000"
proof
  have env: "(sample_env True)\<lparr>env_today := 1\<rparr> = sample_env True" by (simp add: sample_env_def)
  obtain s' where r: "submit_opportunity (sample_env True) sample_cfg [] pubkey_ZERO (\<lambda>k. Some default_pool) sample_live_cycle sample_state
      = (Ok (OLanded 9 0), s')"
    using sample_run [of True] by auto
  then have "live_step 1 sample_request sample_state = (True, s')"
    by (simp add: live_step_def sample_request_def env)
  then show "charged_on request_tip 1 (accepted live_step [(1, sample_request)] sample_state) = 500000"
    by (simp add: charged_on_def request_tip_def sample_request_def sample_tip)
  have "cap_ok (ls_cap sample_state)" "last_reset (ls_cap sample_state) = 1"
    "unat (daily_lamports (cap_cfg (ls_cap sample_state))) = 5000000000"
    by (simp_all add: sample_state_def cap_new_def cap_ok_def cap_config_default_def)
  then show "charged_on request_tip 1 (accepted live_step [(1, sample_request)] sample_state) \<le> 5000000000"
    using pipeline_within_daily_cap [of "[(1, sample_request)]" sample_state 1] by simp
qed


lemma calibration_never_sees_losses_witness:
  "\<exists>n r. length (ls_captures (live_run [(1, sample_request)] sample_state)) = n
    \<and> fit 0 (ls_captures (live_run [(1, sample_request)] sample_state)) = Ok r \<and> 500000 * 10 ^ 12 \<le> unat (scaled (cr_p_win r))"
proof -
  let ?cs = "ls_captures (live_run [(1, sample_request)] sample_state)"
  have "length ?cs \<le> 1"
    using live_step_captures [of 1 sample_request sample_state] by (auto simp: live_run_def sample_state_def)
  moreover have "ls_captures sample_state = []" by (simp add: sample_state_def)
  ultimately obtain r where "fit 0 ?cs = Ok r"
    "ratio_ppm (length ?cs + 1) (length ?cs + 2) * 10 ^ 12 \<le> unat (scaled (cr_p_win r))"
    using calibration_never_sees_losses [of sample_state "[(1, sample_request)]" "length ?cs" 0] by auto
  moreover have "500000 \<le> ratio_ppm (length ?cs + 1) (length ?cs + 2)"
    using \<open>length ?cs \<le> 1\<close> by (cases "length ?cs") (auto simp: ratio_ppm_def numeral_2_eq_2 [symmetric])
  ultimately show ?thesis by (intro exI [of _ "length ?cs"] exI [of _ r]) simp
qed

end
