(* ===== verification/Framing.thy ===== *)
theory Framing
  imports Rust_Prelude "HOL-Library.Sublist"
begin

text \<open>
  Byte streams. \<^verbatim>\<open>std::io::Read\<close> and \<^verbatim>\<open>std::io::Write\<close> as the two file formats of the repository
  use them (\<^verbatim>\<open>crates/dl-ledger\<close> and the capture files of \<^verbatim>\<open>crates/dl-feed\<close>), and what the formats share: a
  frame is a length in four little-endian bytes and a payload of that length. \<open>frames_of\<close> is the
  abstract reading of a byte string; the locale \<open>record_stream\<close> is the contract of a reader of such
  a file.
\<close>

section \<open>Readers and writers\<close>

datatype io_error = UnexpectedEof | IoFault | NoSpace

text \<open>
  A source is the list of what its next system calls return: a chunk of bytes or a fault. A
  call that asks for fewer bytes than the chunk has leaves the rest for the next call; the end of
  the list is the end of the file.
\<close>

datatype io_event = Chunk "u8 list" | Fault

type_synonym source = "io_event list"

fun read_once :: "nat \<Rightarrow> source \<Rightarrow> (u8 list, io_error) res \<times> source" where
  "read_once n [] = (Ok [], [])"
| "read_once n (Fault # s) = (Err IoFault, s)"
| "read_once n (Chunk c # s) = (Ok (take n c), if n < length c then Chunk (drop n c) # s else s)"

text \<open>\<^verbatim>\<open>Read::read_exact\<close>: read again until the buffer is full.\<close>

function read_exact :: "nat \<Rightarrow> source \<Rightarrow> (u8 list, io_error) res \<times> source" where
  "read_exact n s =
    (if n = 0 then (Ok [], s)
     else (case read_once n s of
       (Ok bs, s') \<Rightarrow>
         (if bs = [] then (Err UnexpectedEof, s')
          else (case read_exact (n - length bs) s' of (r, s'') \<Rightarrow> (bind_res r (\<lambda>rest. Ok (bs @ rest)), s'')))
     | (Err e, s') \<Rightarrow> (Err e, s')
     | (Panic, s') \<Rightarrow> (Panic, s')))"
  by pat_completeness auto
termination by (relation "measure fst") auto

declare read_exact.simps [simp del]

text \<open>A sink with room for a number of bytes: \<^verbatim>\<open>Write::write_all\<close> writes what fits.\<close>

record sink =
  sk_bytes :: "u8 list"
  sk_room :: nat

definition write_all :: "u8 list \<Rightarrow> sink \<Rightarrow> (unit, io_error) res \<times> sink" where
  "write_all bs k =
    (if length bs \<le> sk_room k
     then (Ok (), k\<lparr>sk_bytes := sk_bytes k @ bs, sk_room := sk_room k - length bs\<rparr>)
     else (Err NoSpace, k\<lparr>sk_bytes := sk_bytes k @ take (sk_room k) bs, sk_room := 0\<rparr>))"

definition u32_to_le :: "u32 \<Rightarrow> u8 list" where
  "u32_to_le w = le_bytes 4 (unat w)"

definition u32_from_le :: "u8 list \<Rightarrow> u32" where
  "u32_from_le bs = of_nat (le_nat bs)"

lemma length_u32_to_le [simp]: "length (u32_to_le w) = 4"
  by (simp add: u32_to_le_def)

lemma u32_le_roundtrip [simp]: "u32_from_le (u32_to_le w) = w"
proof -
  have "unat w < 256 ^ 4" using unat_bound [of w] by simp
  then show ?thesis by (simp add: u32_from_le_def u32_to_le_def le_nat_le_bytes)
qed

section \<open>Reading a source without faults\<close>

fun flat :: "source \<Rightarrow> u8 list" where
  "flat [] = []"
| "flat (Chunk c # s) = c @ flat s"
| "flat (Fault # s) = flat s"

text \<open>No call fails, and no call returns zero bytes before the end.\<close>

definition sound :: "source \<Rightarrow> bool" where
  "sound s \<longleftrightarrow> list_all (\<lambda>e. case e of Chunk c \<Rightarrow> c \<noteq> [] | Fault \<Rightarrow> False) s"

lemma sound_simps [simp]:
  "sound []" "sound (Chunk c # s) \<longleftrightarrow> c \<noteq> [] \<and> sound s" "\<not> sound (Fault # s)"
  by (simp_all add: sound_def)

primrec source_size :: "source \<Rightarrow> nat" where
  "source_size [] = 0"
| "source_size (e # s) = (case e of Chunk c \<Rightarrow> Suc (length c) | Fault \<Rightarrow> 1) + source_size s"

lemma read_once_size:
  "read_once n s = (r, s') \<Longrightarrow> source_size s' + (case r of Ok bs \<Rightarrow> length bs | _ \<Rightarrow> 0) \<le> source_size s"
  by (cases "(n, s)" rule: read_once.cases) (auto split: if_splits)

lemma read_once_less:
  "read_once n s = (Ok bs, s') \<Longrightarrow> bs \<noteq> [] \<Longrightarrow> source_size s' < source_size s"
  using read_once_size [of n s "Ok bs" s'] by (cases bs) auto

lemma read_once_sound:
  assumes "sound s"
  shows "\<exists>bs s'. read_once n s = (Ok bs, s') \<and> sound s' \<and> flat s = bs @ flat s' \<and> length bs \<le> n
    \<and> (bs = [] \<longrightarrow> n = 0 \<or> s = [])"
  using assms by (cases "(n, s)" rule: read_once.cases) auto

lemma flat_sound_empty: "sound s \<Longrightarrow> flat s = [] \<longleftrightarrow> s = []"
  by (cases s rule: flat.cases) auto

lemma read_exact_size: "read_exact n s = (r, s') \<Longrightarrow> source_size s' \<le> source_size s"
proof (induction n s arbitrary: r s' rule: read_exact.induct)
  case (1 n s)
  show ?case
  proof (cases "n = 0")
    case False
    obtain r1 s1 where ro: "read_once n s = (r1, s1)" by fastforce
    have le: "source_size s1 \<le> source_size s" using read_once_size [OF ro] by simp
    show ?thesis
    proof (cases "\<exists>bs. r1 = Ok bs \<and> bs \<noteq> []")
      case True
      then obtain bs where bs: "r1 = Ok bs" "bs \<noteq> []" by blast
      obtain r2 s2 where re: "read_exact (n - length bs) s1 = (r2, s2)" by fastforce
      show ?thesis
        using "1.IH" [OF False ro [symmetric] bs re] "1.prems" False ro bs re le
        by (subst (asm) read_exact.simps) auto
    next
      case F: False
      show ?thesis
        using "1.prems" False ro le F by (subst (asm) read_exact.simps) (auto split: res.splits if_splits)
    qed
  qed (use 1 in \<open>simp add: read_exact.simps\<close>)
qed

lemma read_exact_sound:
  "sound s \<Longrightarrow> \<exists>s'. sound s' \<and>
    (if n \<le> length (flat s) then read_exact n s = (Ok (take n (flat s)), s') \<and> flat s' = drop n (flat s)
     else read_exact n s = (Err UnexpectedEof, s'))"
proof (induction n s rule: read_exact.induct)
  case (1 n s)
  show ?case
  proof (cases "n = 0")
    case True
    then show ?thesis using 1 by (subst read_exact.simps) auto
  next
    case False
    obtain bs s1 where ro: "read_once n s = (Ok bs, s1)" "sound s1" "flat s = bs @ flat s1" "length bs \<le> n"
      "bs = [] \<longrightarrow> s = []"
      using read_once_sound [OF "1.prems", of n] False by blast
    show ?thesis
    proof (cases "bs = []")
      case True
      then show ?thesis using ro False by (intro exI [of _ s1]) (subst read_exact.simps, auto)
    next
      case bs: False
      obtain s2 where s2: "sound s2" "if n - length bs \<le> length (flat s1)
          then read_exact (n - length bs) s1 = (Ok (take (n - length bs) (flat s1)), s2)
            \<and> flat s2 = drop (n - length bs) (flat s1)
          else read_exact (n - length bs) s1 = (Err UnexpectedEof, s2)"
        using "1.IH" [OF False ro(1) [symmetric] refl bs ro(2)] by blast
      have "read_exact n s = (case read_exact (n - length bs) s1 of (r, s2) \<Rightarrow> (bind_res r (\<lambda>rest. Ok (bs @ rest)), s2))"
        by (subst read_exact.simps) (simp add: ro(1) False bs)
      then show ?thesis
        using s2 ro(3,4) by (intro exI [of _ s2]) (auto split: if_splits)
    qed
  qed
qed

text \<open>What a \<^verbatim>\<open>&[u8]\<close> returns: everything that is left.\<close>

definition slice :: "u8 list \<Rightarrow> source" where
  "slice bs = (if bs = [] then [] else [Chunk bs])"

lemma read_once_slice [simp]: "read_once (Suc n) (slice bs) = (Ok (take (Suc n) bs), slice (drop (Suc n) bs))"
  by (simp add: slice_def)

lemma read_exact_slice:
  "read_exact n (slice bs) =
    (if n \<le> length bs then (Ok (take n bs), slice (drop n bs)) else (Err UnexpectedEof, []))"
proof (cases n)
  case (Suc m)
  show ?thesis
  proof (cases "n \<le> length bs")
    case True
    then show ?thesis
      by (subst read_exact.simps) (auto simp: Suc read_exact.simps [of 0])
  next
    case False
    have nil: "read_exact k [] = (Err UnexpectedEof, [])" if "0 < k" for k
      using that by (subst read_exact.simps) simp
    show ?thesis
      using False by (subst read_exact.simps) (auto simp: Suc nil slice_def)
  qed
qed (simp add: read_exact.simps)

text \<open>A source that returns at most \<open>Suc k\<close> bytes at a time.\<close>

fun chop :: "nat \<Rightarrow> u8 list \<Rightarrow> source" where
  "chop k [] = []"
| "chop k (b # bs) = Chunk (take (Suc k) (b # bs)) # chop k (drop k bs)"

lemma sound_chop [simp]: "sound (chop k bs)"
  by (induction k bs rule: chop.induct) simp_all

lemma flat_chop [simp]: "flat (chop k bs) = bs"
  by (induction k bs rule: chop.induct) simp_all

lemma sound_slice [simp]: "sound (slice bs)"
  by (simp add: slice_def)

lemma flat_slice [simp]: "flat (slice bs) = bs"
  by (simp add: slice_def)

section \<open>Frames\<close>

definition frame :: "u8 list \<Rightarrow> u8 list" where
  "frame payload = u32_to_le (of_nat (length payload)) @ payload"

datatype 'a frame_step = NoFrame | CutFrame | BadFrame | Frame 'a "u8 list"

definition take_frame :: "(u8 list \<Rightarrow> 'a option) \<Rightarrow> u8 list \<Rightarrow> 'a frame_step" where
  "take_frame de bs =
    (if bs = [] then NoFrame
     else if length bs < 4 then CutFrame
     else let len = unat (u32_from_le (take 4 bs)) in
       if length bs < 4 + len then CutFrame
       else (case de (take len (drop 4 bs)) of None \<Rightarrow> BadFrame | Some x \<Rightarrow> Frame x (drop (4 + len) bs)))"

datatype frame_end = CleanEnd | CutEnd | BadEnd

function frames_of :: "(u8 list \<Rightarrow> 'a option) \<Rightarrow> u8 list \<Rightarrow> 'a list \<times> frame_end" where
  "frames_of de bs =
    (case take_frame de bs of
       NoFrame \<Rightarrow> ([], CleanEnd)
     | CutFrame \<Rightarrow> ([], CutEnd)
     | BadFrame \<Rightarrow> ([], BadEnd)
     | Frame x rest \<Rightarrow> (case frames_of de rest of (xs, e) \<Rightarrow> (x # xs, e)))"
  by pat_completeness auto
termination
  by (relation "measure (\<lambda>(de, bs). length bs)")
    (auto simp: take_frame_def Let_def split: if_splits option.splits)

declare frames_of.simps [simp del]

lemma take_frame_shorter: "take_frame de bs = Frame x rest \<Longrightarrow> length rest + 4 \<le> length bs"
  by (auto simp: take_frame_def Let_def split: if_splits option.splits)

lemma frame_length: "length payload < 2 ^ 32 \<Longrightarrow> unat (u32_from_le (take 4 (frame payload @ rest))) = length payload"
  by (simp add: frame_def unat_of_nat_fits)

lemma take_frame_frame:
  assumes "length payload < 2 ^ 32"
  shows "take_frame de (frame payload @ rest) = (case de payload of None \<Rightarrow> BadFrame | Some x \<Rightarrow> Frame x rest)"
proof -
  let ?bs = "frame payload @ rest"
  have len: "length ?bs = 4 + length payload + length rest"
    and d: "drop 4 ?bs = payload @ rest" "drop (4 + length payload) ?bs = rest"
    by (simp_all add: frame_def)
  have "?bs \<noteq> []" using len by (metis add_is_0 list.size(3) zero_neq_numeral)
  then show ?thesis
    unfolding take_frame_def Let_def frame_length [OF assms, of rest] d len by (simp del: append_is_Nil_conv)
qed

lemma take_frame_cut:
  assumes "length payload < 2 ^ 32" and "strict_prefix p (frame payload)" and "p \<noteq> []"
  shows "take_frame de p = CutFrame"
proof -
  obtain q where q: "frame payload = p @ q" "q \<noteq> []" using assms(2) by (auto simp: strict_prefix_def prefix_def)
  have len: "length p + length q = 4 + length payload"
    using arg_cong [OF q(1), of length] by (simp add: frame_def)
  have short: "length p < 4 + length payload" using len q(2) by (cases q) simp_all
  show ?thesis
  proof (cases "length p < 4")
    case False
    then have "take 4 p = take 4 (frame payload @ [])" by (simp add: q(1))
    then have "unat (u32_from_le (take 4 p)) = length payload" using frame_length [OF assms(1), of "[]"] by simp
    then show ?thesis using False short assms(3) by (simp add: take_frame_def Let_def)
  qed (use assms(3) in \<open>simp add: take_frame_def\<close>)
qed

section \<open>The contract of a reader of records\<close>

text \<open>
  What a record was written as is read back in front of anything; a proper prefix of a written
  record reads as nothing. The bound is on the length of what is read.
\<close>

locale record_stream =
  fixes valid :: "'a \<Rightarrow> bool"
    and written :: "'a \<Rightarrow> u8 list"
    and parse :: "u8 list \<Rightarrow> 'a list \<times> 'e"
    and clean cut :: 'e
    and limit :: nat
  assumes parse_nil: "parse [] = ([], clean)"
    and parse_written: "valid x \<Longrightarrow> length (written x @ rest) < limit \<Longrightarrow>
      parse (written x @ rest) = (x # fst (parse rest), snd (parse rest))"
    and parse_cut: "valid x \<Longrightarrow> length p < limit \<Longrightarrow> strict_prefix p (written x) \<Longrightarrow> p \<noteq> [] \<Longrightarrow>
      parse p = ([], cut)"
begin

abbreviation contents :: "'a list \<Rightarrow> u8 list" where
  "contents xs \<equiv> concat (map written xs)"

lemma parse_file: "list_all valid xs \<Longrightarrow> length (contents xs) < limit \<Longrightarrow> parse (contents xs) = (xs, clean)"
proof (induction xs)
  case (Cons x xs)
  then show ?case using parse_written [of x "contents xs"] by simp
qed (simp add: parse_nil)

lemma contents_take_mono: "m \<le> n \<Longrightarrow> length (contents (take m xs)) \<le> length (contents (take n xs))"
  by (auto simp: le_iff_add take_add)

text \<open>The number of complete records in the first \<open>room\<close> bytes is unique.\<close>

lemma complete_unique:
  assumes "length (contents (take m xs)) \<le> room" "m < length xs \<Longrightarrow> room < length (contents (take (Suc m) xs))"
    and "length (contents (take n xs)) \<le> room" "n < length xs \<Longrightarrow> room < length (contents (take (Suc n) xs))"
    and "m \<le> length xs" "n \<le> length xs"
  shows "m = n"
proof -
  have "\<not> i < j" if "length (contents (take j xs)) \<le> room" "i < length xs \<Longrightarrow> room < length (contents (take (Suc i) xs))"
    "j \<le> length xs" for i j
    using contents_take_mono [of "Suc i" j xs] that by fastforce
  then show ?thesis using assms by (meson linorder_neqE_nat)
qed

text \<open>A file cut anywhere reads as the records that are complete in it, and the reader can tell a
  cut inside a record from one between two records.\<close>

lemma parse_prefix:
  "list_all valid xs \<Longrightarrow> prefix p (contents xs) \<Longrightarrow> length p < limit \<Longrightarrow>
    \<exists>k \<le> length xs. fst (parse p) = take k xs \<and> prefix (contents (take k xs)) p
      \<and> (k < length xs \<longrightarrow> length p < length (contents (take (Suc k) xs)))
      \<and> snd (parse p) = (if p = contents (take k xs) then clean else cut)"
proof (induction xs arbitrary: p)
  case Nil
  then show ?case by (simp add: parse_nil)
next
  case (Cons x xs)
  show ?case
  proof (cases "prefix (written x) p")
    case True
    then obtain q where q: "p = written x @ q" by (auto simp: prefix_def)
    have pq: "prefix q (contents xs)" using Cons.prems(2) by (simp add: q)
    obtain k where k: "k \<le> length xs" "fst (parse q) = take k xs" "prefix (contents (take k xs)) q"
      "k < length xs \<longrightarrow> length q < length (contents (take (Suc k) xs))"
      "snd (parse q) = (if q = contents (take k xs) then clean else cut)"
      using Cons.IH [OF _ pq] Cons.prems q by auto
    have "parse p = (x # fst (parse q), snd (parse q))"
      using parse_written [of x q] Cons.prems q by simp
    then show ?thesis using k by (intro exI [of _ "Suc k"]) (simp add: q)
  next
    case False
    have "strict_prefix p (written x)"
      using Cons.prems(2) False by (metis concat.simps(2) list.simps(9) prefix_append prefix_order.le_less
          prefix_same_cases append_prefixD prefixI)
    moreover from this have "length p < length (written x)" by (rule prefix_length_less)
    ultimately show ?thesis
      using parse_cut [of x p] parse_nil Cons.prems by (intro exI [of _ 0]) (cases "p = []"; simp)
  qed
qed

end

text \<open>A codec is right about a record when it decodes what it encodes, within a size limit.\<close>

definition codec_ok :: "('a \<Rightarrow> u8 list option) \<Rightarrow> (u8 list \<Rightarrow> 'a option) \<Rightarrow> nat \<Rightarrow> 'a \<Rightarrow> bool" where
  "codec_ok ser de max_len x \<longleftrightarrow> (\<exists>bs. ser x = Some bs \<and> de bs = Some x \<and> length bs \<le> max_len)"

definition written_as :: "('a \<Rightarrow> u8 list option) \<Rightarrow> 'a \<Rightarrow> u8 list" where
  "written_as ser x = (case ser x of Some bs \<Rightarrow> frame bs | None \<Rightarrow> [])"

lemma frames_of_Nil [simp]: "frames_of de [] = ([], CleanEnd)"
  by (simp add: frames_of.simps take_frame_def)

lemma codec_okD:
  assumes "codec_ok ser de m x" and "m < 2 ^ 32"
  shows "\<exists>bs. ser x = Some bs \<and> de bs = Some x \<and> length bs \<le> m \<and> length bs < 2 ^ 32 \<and> written_as ser x = frame bs"
  using assms by (fastforce simp: codec_ok_def written_as_def)

lemma frames_of_written:
  assumes "codec_ok ser de m x" and "m < 2 ^ 32"
  shows "frames_of de (written_as ser x @ rest) = (x # fst (frames_of de rest), snd (frames_of de rest))"
proof -
  obtain bs where bs: "de bs = Some x" "length bs < 2 ^ 32" "written_as ser x = frame bs"
    using codec_okD [OF assms] by blast
  show ?thesis
    by (subst frames_of.simps) (simp add: bs(1,3) take_frame_frame [OF bs(2)] split: prod.split)
qed

lemma frames_of_cut:
  assumes "codec_ok ser de m x" and "m < 2 ^ 32" and "strict_prefix p (written_as ser x)" and "p \<noteq> []"
  shows "frames_of de p = ([], CutEnd)"
proof -
  obtain bs where bs: "length bs < 2 ^ 32" "written_as ser x = frame bs"
    using codec_okD [OF assms(1,2)] by blast
  have "take_frame de p = CutFrame" using take_frame_cut [OF bs(1)] assms(3,4) bs(2) by simp
  then show ?thesis by (simp add: frames_of.simps)
qed

end
