(* ===== verification/Ledger.thy ===== *)
theory Ledger
  imports Ev Rng Framing
begin

text \<open>
  \<^verbatim>\<open>crates/dl-ledger\<close>: the hash that names a cycle (\<^verbatim>\<open>hash.rs\<close>), the entry and its decision
  (\<^verbatim>\<open>entry.rs\<close>), the file writer and reader (\<^verbatim>\<open>writer.rs\<close>, \<^verbatim>\<open>reader.rs\<close>, \<^verbatim>\<open>format.rs\<close>) and the summary
  (\<^verbatim>\<open>summary.rs\<close>). \<^verbatim>\<open>bincode\<close> is a pair of functions given as arguments.
\<close>

section \<open>The hash of a cycle\<close>

definition FNV_OFFSET :: u64 where
  "FNV_OFFSET = 0xcbf29ce484222325"

definition FNV_PRIME :: u64 where
  "FNV_PRIME = 0x00000100000001b3"

definition fnv_mix :: "u64 \<Rightarrow> u8 \<Rightarrow> u64" where
  "fnv_mix h byte = (h XOR ucast byte) * FNV_PRIME"

definition direction_byte :: "direction \<Rightarrow> u8" where
  "direction_byte d = (case d of BaseToQuote \<Rightarrow> 0 | QuoteToBase \<Rightarrow> 1)"

definition fnv_leg :: "u64 \<Rightarrow> leg \<Rightarrow> u64" where
  "fnv_leg h l = fnv_mix (fold (\<lambda>byte h. fnv_mix h byte) (key_bytes (leg_pool l)) h) (direction_byte (leg_direction l))"

definition ledger_hash_ZERO :: u64 where
  "ledger_hash_ZERO = 0"

definition ledger_hash :: "cycle \<Rightarrow> u64" where
  "ledger_hash c = fold (\<lambda>l h. fnv_leg h l) (legs c) FNV_OFFSET"

section \<open>Entries\<close>

datatype decision = WouldTrade | WouldNotTrade

definition decision_from_ev :: "expected_value \<Rightarrow> decision" where
  "decision_from_ev conservative = (if 0 < e_pnl conservative then WouldTrade else WouldNotTrade)"

record ledger_entry =
  le_seq :: u64
  le_entry_id :: u64
  le_cycle_hash :: u64
  le_net :: net_profit_record
  le_optimistic :: expected_value
  le_conservative :: expected_value
  le_decision :: decision
  le_tip_lamports :: u64

definition from_evaluated :: "cycle \<Rightarrow> net_profit_record \<Rightarrow> eval_outcome \<Rightarrow> u64 \<Rightarrow> ledger_entry" where
  "from_evaluated c net out seq =
    \<lparr>le_seq = seq, le_entry_id = seq, le_cycle_hash = ledger_hash c, le_net = net,
     le_optimistic = eo_optimistic out, le_conservative = eo_conservative out,
     le_decision = decision_from_ev (eo_conservative out), le_tip_lamports = 0\<rparr>"

definition from_evaluated_with_tip ::
    "cycle \<Rightarrow> net_profit_record \<Rightarrow> eval_outcome \<Rightarrow> u64 \<Rightarrow> u64 \<Rightarrow> ledger_entry" where
  "from_evaluated_with_tip c net out seq tip = (from_evaluated c net out seq)\<lparr>le_tip_lamports := tip\<rparr>"

section \<open>The file\<close>

datatype ledger_error =
    LedgerIo io_error
  | LedgerBadMagic
  | LedgerSchemaMismatch u32 u32
  | LedgerTruncated
  | LedgerBincode
  | LedgerMath

definition LEDGER_MAGIC :: "u8 list" where
  "LEDGER_MAGIC = bytes_of ''DLD-LDG1''"

definition LEDGER_SCHEMA_VERSION :: u32 where
  "LEDGER_SCHEMA_VERSION = 3"

definition MAX_ENTRY_BYTES :: nat where
  "MAX_ENTRY_BYTES = 16 * 1024 * 1024"

record ledger_writer =
  lw_sink :: sink
  lw_frames_written :: u64

text \<open>\<^verbatim>\<open>new\<close> takes the sink; the sink is returned too, for what a failed write left in it.\<close>

definition ledger_writer_new :: "sink \<Rightarrow> (ledger_writer, ledger_error) res \<times> sink" where
  "ledger_writer_new k0 =
    (case write_all LEDGER_MAGIC k0 of (r1, k1) \<Rightarrow>
       (case map_err LedgerIo r1 of
          Ok _ \<Rightarrow> (case write_all (u32_to_le LEDGER_SCHEMA_VERSION) k1 of (r2, k2) \<Rightarrow>
            (bind_res (map_err LedgerIo r2) (\<lambda>_. Ok \<lparr>lw_sink = k2, lw_frames_written = 0\<rparr>), k2))
        | Err e \<Rightarrow> (Err e, k1)
        | Panic \<Rightarrow> (Panic, k1)))"

definition write_entry ::
    "(ledger_entry \<Rightarrow> u8 list option) \<Rightarrow> ledger_entry \<Rightarrow> ledger_writer \<Rightarrow> (unit, ledger_error) res \<times> ledger_writer" where
  "write_entry ser e w =
    (case ser e of
       None \<Rightarrow> (Err LedgerBincode, w)
     | Some bytes \<Rightarrow>
         if MAX_ENTRY_BYTES < length bytes then (Err LedgerTruncated, w)
         else (case write_all (u32_to_le (of_nat (length bytes))) (lw_sink w) of
             (Ok _, k1) \<Rightarrow> (case write_all bytes k1 of
                 (Ok _, k2) \<Rightarrow> (case add_p (lw_frames_written w) 1 of
                     Ok n \<Rightarrow> (Ok (), w\<lparr>lw_sink := k2, lw_frames_written := n\<rparr>)
                   | Err e \<Rightarrow> (Err e, w\<lparr>lw_sink := k2\<rparr>)
                   | Panic \<Rightarrow> (Panic, w\<lparr>lw_sink := k2\<rparr>))
               | (Err e, k2) \<Rightarrow> (Err (LedgerIo e), w\<lparr>lw_sink := k2\<rparr>)
               | (Panic, k2) \<Rightarrow> (Panic, w\<lparr>lw_sink := k2\<rparr>))
           | (Err e, k1) \<Rightarrow> (Err (LedgerIo e), w\<lparr>lw_sink := k1\<rparr>)
           | (Panic, k1) \<Rightarrow> (Panic, w\<lparr>lw_sink := k1\<rparr>)))"

record ledger_reader =
  lr_source :: source
  lr_entries_read :: u64

definition ledger_open :: "source \<Rightarrow> (ledger_reader, ledger_error) res" where
  "ledger_open s0 =
    (case read_exact 8 s0 of (r1, s1) \<Rightarrow> bind_res (map_err LedgerIo r1) (\<lambda>magic.
       if magic \<noteq> LEDGER_MAGIC then Err LedgerBadMagic
       else (case read_exact 4 s1 of (r2, s2) \<Rightarrow> bind_res (map_err LedgerIo r2) (\<lambda>schema_bytes.
         let file_schema = u32_from_le schema_bytes in
         if file_schema \<noteq> LEDGER_SCHEMA_VERSION
         then Err (LedgerSchemaMismatch file_schema LEDGER_SCHEMA_VERSION)
         else Ok \<lparr>lr_source = s2, lr_entries_read = 0\<rparr>))))"

text \<open>The length prefix is read with one call, the payload with \<^verbatim>\<open>read_exact\<close>.\<close>

definition read_entry ::
    "(u8 list \<Rightarrow> ledger_entry option) \<Rightarrow> ledger_reader \<Rightarrow> (ledger_entry option, ledger_error) res \<times> ledger_reader" where
  "read_entry de r =
    (case read_once 4 (lr_source r) of
       (Ok len_bytes, s1) \<Rightarrow>
         (let r1 = r\<lparr>lr_source := s1\<rparr> in
          if length len_bytes = 0 then (Ok None, r1)
          else if length len_bytes < 4 then (Err LedgerTruncated, r1)
          else (case read_exact (unat (u32_from_le len_bytes)) s1 of
              (Ok payload, s2) \<Rightarrow>
                (let r2 = r\<lparr>lr_source := s2\<rparr> in
                 case de payload of
                   None \<Rightarrow> (Err LedgerBincode, r2)
                 | Some e \<Rightarrow> (case add_p (lr_entries_read r) 1 of
                       Ok n \<Rightarrow> (Ok (Some e), r2\<lparr>lr_entries_read := n\<rparr>)
                     | Err e \<Rightarrow> (Err e, r2)
                     | Panic \<Rightarrow> (Panic, r2)))
            | (Err _, s2) \<Rightarrow> (Err LedgerTruncated, r\<lparr>lr_source := s2\<rparr>)
            | (Panic, s2) \<Rightarrow> (Panic, r\<lparr>lr_source := s2\<rparr>)))
     | (Err e, s1) \<Rightarrow> (Err (LedgerIo e), r\<lparr>lr_source := s1\<rparr>)
     | (Panic, s1) \<Rightarrow> (Panic, r\<lparr>lr_source := s1\<rparr>))"

lemma read_once_length: "read_once n s = (Ok bs, s') \<Longrightarrow> length bs = 4 \<Longrightarrow> source_size s' < source_size s"
  by (rule read_once_less) auto

lemma read_entry_size:
  "read_entry de r = (Ok (Some e), r') \<Longrightarrow> source_size (lr_source r') < source_size (lr_source r)"
  unfolding read_entry_def Let_def
  by (auto split: prod.splits res.splits if_splits option.splits
      dest!: read_once_less read_exact_size intro: le_less_trans)

text \<open>The loop of a caller: read until there is no entry, and stop at the first error.\<close>

function ledger_read_all ::
    "(u8 list \<Rightarrow> ledger_entry option) \<Rightarrow> ledger_reader \<Rightarrow> ledger_entry list \<times> (unit, ledger_error) res" where
  "ledger_read_all de r =
    (case read_entry de r of
       (Ok (Some e), r') \<Rightarrow> (case ledger_read_all de r' of (es, end_r) \<Rightarrow> (e # es, end_r))
     | (Ok None, r') \<Rightarrow> ([], Ok ())
     | (Err e, r') \<Rightarrow> ([], Err e)
     | (Panic, r') \<Rightarrow> ([], Panic))"
  by pat_completeness auto
termination
  by (relation "measure (\<lambda>(de, r). source_size (lr_source r))") (auto dest: read_entry_size [OF sym])

declare ledger_read_all.simps [simp del]

definition ledger_load ::
    "(u8 list \<Rightarrow> ledger_entry option) \<Rightarrow> source \<Rightarrow> (ledger_entry list \<times> (unit, ledger_error) res, ledger_error) res" where
  "ledger_load de s = bind_res (ledger_open s) (\<lambda>r. Ok (ledger_read_all de r))"

fun write_entries ::
    "(ledger_entry \<Rightarrow> u8 list option) \<Rightarrow> ledger_entry list \<Rightarrow> ledger_writer \<Rightarrow> (unit, ledger_error) res \<times> ledger_writer" where
  "write_entries ser [] w = (Ok (), w)"
| "write_entries ser (e # es) w =
    (case write_entry ser e w of
       (Ok _, w') \<Rightarrow> write_entries ser es w'
     | (Err e, w') \<Rightarrow> (Err e, w')
     | (Panic, w') \<Rightarrow> (Panic, w'))"

definition ledger_session ::
    "(ledger_entry \<Rightarrow> u8 list option) \<Rightarrow> ledger_entry list \<Rightarrow> nat \<Rightarrow> (unit, ledger_error) res \<times> u8 list" where
  "ledger_session ser es room =
    (case ledger_writer_new \<lparr>sk_bytes = [], sk_room = room\<rparr> of
       (Ok w, k) \<Rightarrow> (case write_entries ser es w of (r, w') \<Rightarrow> (r, sk_bytes (lw_sink w')))
     | (Err e, k) \<Rightarrow> (Err e, sk_bytes k)
     | (Panic, k) \<Rightarrow> (Panic, sk_bytes k))"

section \<open>The summary\<close>

record ledger_summary =
  ls_total :: u64
  ls_would_trade :: u64
  ls_would_not_trade :: u64
  ls_sum_optimistic :: i128
  ls_sum_conservative :: i128
  ls_sum_p_land :: u128
  ls_median :: i128
  ls_p95 :: i128

text \<open>\<^verbatim>\<open>select_nth_unstable(k)\<close> leaves at \<open>k\<close> what sorting would put there, and permutes the rest.\<close>

definition percentiles_signed :: "i128 list \<Rightarrow> i128 \<times> i128" where
  "percentiles_signed xs =
    (if xs = [] then (0, 0)
     else let n = length xs in
       if n = 1 then (xs ! 0, xs ! 0)
       else let median_idx = n div 2; p95_idx = min (n * 95 div 100) (n - 1)
            in (sort xs ! median_idx, sort xs ! p95_idx))"

fun summary_loop ::
    "ledger_entry list \<Rightarrow> u64 \<Rightarrow> i128 \<Rightarrow> i128 \<Rightarrow> u128 \<Rightarrow> i128 list \<Rightarrow>
      (u64 \<times> i128 \<times> i128 \<times> u128 \<times> i128 list, ledger_error) res" where
  "summary_loop [] wt so sc sp ps = Ok (wt, so, sc, sp, ps)"
| "summary_loop (e # es) wt so sc sp ps =
    bind_res (if le_decision e = WouldTrade then ok_or (checked_add_w wt 1) LedgerMath else Ok wt) (\<lambda>wt'.
    bind_res (ok_or (checked_i 128 (so + e_pnl (le_optimistic e))) LedgerMath) (\<lambda>so'.
    bind_res (ok_or (checked_i 128 (sc + e_pnl (le_conservative e))) LedgerMath) (\<lambda>sc'.
    bind_res (ok_or (checked_add_w sp (scaled (ev_p_land (le_conservative e)))) LedgerMath) (\<lambda>sp'.
    summary_loop es wt' so' sc' sp' (ps @ [e_pnl (le_conservative e)])))))"

definition summary_from_entries :: "ledger_entry list \<Rightarrow> (ledger_summary, ledger_error) res" where
  "summary_from_entries entries =
    (let total = of_nat (length entries) :: u64 in
     bind_res (summary_loop entries 0 0 0 0 []) (\<lambda>(would_trade, sum_opt, sum_con, sum_p_land, e_pnls).
     let (median, p95) = percentiles_signed e_pnls in
     bind_res (sub_p total would_trade) (\<lambda>would_not_trade.
     Ok \<lparr>ls_total = total, ls_would_trade = would_trade, ls_would_not_trade = would_not_trade,
         ls_sum_optimistic = sum_opt, ls_sum_conservative = sum_con, ls_sum_p_land = sum_p_land,
         ls_median = median, ls_p95 = p95\<rparr>)))"

section \<open>The hash separates\<close>

lemma fnv_mix_inj: "fnv_mix h b = fnv_mix h' b \<Longrightarrow> h = h'"
proof -
  assume "fnv_mix h b = fnv_mix h' b"
  then have "h XOR ucast b = h' XOR ucast b"
    unfolding fnv_mix_def FNV_PRIME_def by (rule mult_unit_inj [where d = "0xce965057aff6957b"]) simp
  then have "(h XOR ucast b) XOR ucast b = (h' XOR ucast b) XOR ucast b" by simp
  then show ?thesis by (simp add: xor.assoc)
qed

lemma fnv_mix_byte: "fnv_mix h b = fnv_mix h b' \<Longrightarrow> b = b'"
proof -
  assume "fnv_mix h b = fnv_mix h b'"
  then have "h XOR ucast b = h XOR (ucast b' :: u64)"
    unfolding fnv_mix_def FNV_PRIME_def by (rule mult_unit_inj [where d = "0xce965057aff6957b"]) simp
  then have "h XOR (h XOR ucast b) = h XOR (h XOR (ucast b' :: u64))" by simp
  then have eq: "(ucast b :: u64) = ucast b'" by (simp add: xor.assoc [symmetric])
  have "unat (ucast b :: u64) = unat b" "unat (ucast b' :: u64) = unat b'" by (simp_all add: unat_ucast_up)
  then show ?thesis using eq by (metis word_unat_eq_iff)
qed

definition cycle_bytes :: "leg list \<Rightarrow> u8 list" where
  "cycle_bytes ls = concat (map (\<lambda>l. key_bytes (leg_pool l) @ [direction_byte (leg_direction l)]) ls)"

abbreviation fnv :: "u8 list \<Rightarrow> u64 \<Rightarrow> u64" where
  "fnv bs h \<equiv> fold (\<lambda>b h. fnv_mix h b) bs h"

lemma ledger_hash_bytes: "ledger_hash c = fnv (cycle_bytes (legs c)) FNV_OFFSET"
proof -
  have "fold (\<lambda>l h. fnv_leg h l) ls h = fnv (cycle_bytes ls) h" for ls h
    by (induction ls arbitrary: h) (simp_all add: cycle_bytes_def fnv_leg_def)
  then show ?thesis by (simp add: ledger_hash_def)
qed

lemma fnv_inj: "fnv bs h = fnv bs h' \<Longrightarrow> h = h'"
  by (induction bs arbitrary: h h') (auto dest: fnv_mix_inj)

lemma fnv_separates: "b \<noteq> b' \<Longrightarrow> fnv (xs @ b # ys) h \<noteq> fnv (xs @ b' # ys) h"
  by (auto dest!: fnv_inj fnv_mix_byte)

lemma fnv_update: "j < length bs \<Longrightarrow> b \<noteq> bs ! j \<Longrightarrow> fnv (xs @ bs[j := b] @ ys) h \<noteq> fnv (xs @ bs @ ys) h"
proof -
  assume j: "j < length bs" "b \<noteq> bs ! j"
  let ?a = "take j bs" and ?z = "drop (Suc j) bs"
  have "xs @ bs[j := b] @ ys = (xs @ ?a) @ b # (?z @ ys)"
    by (simp add: upd_conv_take_nth_drop [OF j(1)])
  moreover have "xs @ bs @ ys = (xs @ ?a) @ bs ! j # (?z @ ys)"
    by (subst id_take_nth_drop [OF j(1)]) simp
  ultimately show ?thesis using fnv_separates [OF j(2), of "xs @ ?a" "?z @ ys" h] by metis
qed

definition one_change :: "leg \<Rightarrow> leg \<Rightarrow> bool" where
  "one_change l l' \<longleftrightarrow>
    (leg_pool l' = leg_pool l \<and> leg_direction l' \<noteq> leg_direction l)
    \<or> (leg_direction l' = leg_direction l
       \<and> (\<exists>j b. j < length (key_bytes (leg_pool l)) \<and> b \<noteq> key_bytes (leg_pool l) ! j
           \<and> key_bytes (leg_pool l') = (key_bytes (leg_pool l))[j := b]))"

text \<open>The hash tells a cycle from every cycle that differs from it in the direction of one leg
  or in one byte of one pool address, and does not depend on the weights.\<close>

theorem ledger_hash_separates:
  assumes "i < length (legs c)" and "one_change (legs c ! i) l"
  shows "ledger_hash (c\<lparr>legs := (legs c)[i := l]\<rparr>) \<noteq> ledger_hash c"
proof -
  define l0 where "l0 = legs c ! i"
  define bs where "bs = (\<lambda>l :: leg. key_bytes (leg_pool l) @ [direction_byte (leg_direction l)])"
  define xs ys where "xs = cycle_bytes (take i (legs c))" and "ys = cycle_bytes (drop (Suc i) (legs c))"
  have old: "cycle_bytes (legs c) = xs @ bs l0 @ ys"
    by (subst id_take_nth_drop [OF assms(1)]) (simp add: cycle_bytes_def xs_def ys_def bs_def l0_def)
  have new: "cycle_bytes ((legs c)[i := l]) = xs @ bs l @ ys"
    by (simp add: upd_conv_take_nth_drop [OF assms(1)] cycle_bytes_def xs_def ys_def bs_def)
  obtain j b where "j < length (bs l0)" "b \<noteq> bs l0 ! j" "bs l = (bs l0)[j := b]"
  proof (cases "leg_pool l = leg_pool l0 \<and> leg_direction l \<noteq> leg_direction l0")
    case True
    then have "direction_byte (leg_direction l) \<noteq> direction_byte (leg_direction l0)"
      by (auto simp: direction_byte_def split: direction.splits)
    then show ?thesis
      using True by (intro that [of "length (key_bytes (leg_pool l0))" "direction_byte (leg_direction l)"])
        (simp_all add: bs_def)
  next
    case False
    then obtain j b where "leg_direction l = leg_direction l0" "j < length (key_bytes (leg_pool l0))"
      "b \<noteq> key_bytes (leg_pool l0) ! j" "key_bytes (leg_pool l) = (key_bytes (leg_pool l0))[j := b]"
      using assms(2) by (auto simp: one_change_def l0_def)
    then show ?thesis by (intro that [of j b]) (simp_all add: bs_def nth_append list_update_append)
  qed
  then show ?thesis using fnv_update [of j "bs l0" b xs ys FNV_OFFSET] by (simp add: ledger_hash_bytes old new)
qed

section \<open>Files\<close>

primrec end_of :: "frame_end \<Rightarrow> (unit, ledger_error) res" where
  "end_of CleanEnd = Ok ()"
| "end_of CutEnd = Err LedgerTruncated"
| "end_of BadEnd = Err LedgerBincode"

lemma read_entry_slice:
  assumes "lr_source r = slice bs" and "unat (lr_entries_read r) + 1 < 2 ^ 64"
  shows "case take_frame de bs of
      NoFrame \<Rightarrow> (\<exists>r'. read_entry de r = (Ok None, r'))
    | CutFrame \<Rightarrow> (\<exists>r'. read_entry de r = (Err LedgerTruncated, r'))
    | BadFrame \<Rightarrow> (\<exists>r'. read_entry de r = (Err LedgerBincode, r'))
    | Frame e rest \<Rightarrow> (\<exists>r'. read_entry de r = (Ok (Some e), r') \<and> lr_source r' = slice rest
        \<and> unat (lr_entries_read r') = unat (lr_entries_read r) + 1)"
proof -
  let ?n = "lr_entries_read r"
  have four: "read_once 4 (slice bs) = (Ok (take 4 bs), slice (drop 4 bs))"
    using read_once_slice [of 3 bs] by (simp add: numeral_eq_Suc)
  have add: "add_p ?n 1 = (Ok (?n + 1) :: (_, ledger_error) res)" "unat (?n + 1) = unat ?n + 1"
    using assms(2) by (simp_all add: add_p_def unat_add_no_wrap)
  then have add': "unat (1 + ?n) = unat ?n + 1" by (simp only: add.commute [of 1])
  define len where "len = unat (u32_from_le (take 4 bs))"
  consider "bs = []" | "bs \<noteq> []" "length bs < 4" | "4 \<le> length bs" "length bs < 4 + len"
    | "4 + len \<le> length bs" "de (take len (drop 4 bs)) = None"
    | e where "4 + len \<le> length bs" "de (take len (drop 4 bs)) = Some e"
    by fastforce
  then show ?thesis
  proof cases
    case 1
    then show ?thesis using four by (simp add: take_frame_def read_entry_def assms(1))
  next
    case 2
    then show ?thesis by (simp add: take_frame_def read_entry_def assms(1) four)
  next
    case 3
    then have "bs \<noteq> []" "length (take 4 bs) = 4" "\<not> len \<le> length bs - 4" by auto
    then show ?thesis using 3
      by (simp add: take_frame_def read_entry_def assms(1) four Let_def len_def [symmetric] read_exact_slice)
  next
    case 4
    then have "bs \<noteq> []" "length (take 4 bs) = 4" by auto
    then show ?thesis using 4
      by (simp add: take_frame_def read_entry_def assms(1) four Let_def len_def [symmetric] read_exact_slice)
  next
    case 5
    then have "bs \<noteq> []" "length (take 4 bs) = 4" "len \<le> length bs - 4" by auto
    then show ?thesis using 5
      by (simp add: take_frame_def read_entry_def assms(1) four Let_def len_def [symmetric] read_exact_slice add add' add.commute [of 4 len])
  qed
qed

text \<open>On a byte string the reader computes the abstract reading.\<close>

lemma read_all_slice:
  "lr_source r = slice bs \<Longrightarrow> unat (lr_entries_read r) + length bs < 2 ^ 64 - 1 \<Longrightarrow>
    ledger_read_all de r = (fst (frames_of de bs), end_of (snd (frames_of de bs)))"
proof (induction de bs arbitrary: r rule: frames_of.induct)
  case (1 de bs)
  note step = read_entry_slice [of r bs de]
  show ?case
  proof (cases "take_frame de bs")
    case (Frame e rest)
    then obtain r' where r': "read_entry de r = (Ok (Some e), r')" "lr_source r' = slice rest"
      "unat (lr_entries_read r') = unat (lr_entries_read r) + 1" using step 1 by auto
    have "unat (lr_entries_read r') + length rest < 2 ^ 64 - 1"
      using take_frame_shorter [OF Frame] r'(3) "1.prems"(2) by simp
    from "1.IH" [OF Frame r'(2) this] show ?thesis
      by (subst ledger_read_all.simps, subst (1 2) frames_of.simps) (simp add: r'(1) Frame split: prod.split)
  qed (use step 1 in \<open>auto simp: ledger_read_all.simps [of de r] frames_of.simps [of de bs]\<close>)
qed

definition ledger_parse :: "(u8 list \<Rightarrow> ledger_entry option) \<Rightarrow> u8 list \<Rightarrow> ledger_entry list \<times> (unit, ledger_error) res" where
  "ledger_parse de bs = ledger_read_all de \<lparr>lr_source = slice bs, lr_entries_read = 0\<rparr>"

lemma ledger_parse_frames:
  "length bs < 2 ^ 64 - 1 \<Longrightarrow> ledger_parse de bs = (fst (frames_of de bs), end_of (snd (frames_of de bs)))"
  unfolding ledger_parse_def by (rule read_all_slice) simp_all

lemma max_entry_bytes: "MAX_ENTRY_BYTES < 2 ^ 32"
  by (simp add: MAX_ENTRY_BYTES_def)

interpretation ledger: record_stream "codec_ok ser de MAX_ENTRY_BYTES" "written_as ser" "ledger_parse de"
  "Ok ()" "Err LedgerTruncated" "2 ^ 64 - 1"
  for ser de
proof
  show "ledger_parse de [] = ([], Ok ())" by (simp add: ledger_parse_frames)
next
  fix x rest assume "codec_ok ser de MAX_ENTRY_BYTES x" "length (written_as ser x @ rest) < 2 ^ 64 - 1"
  then show "ledger_parse de (written_as ser x @ rest) = (x # fst (ledger_parse de rest), snd (ledger_parse de rest))"
    by (simp add: ledger_parse_frames frames_of_written [OF _ max_entry_bytes])
next
  fix x p assume "codec_ok ser de MAX_ENTRY_BYTES x" "length p < 2 ^ 64 - 1" "strict_prefix p (written_as ser x)" "p \<noteq> []"
  then show "ledger_parse de p = ([], Err LedgerTruncated)"
    by (simp add: ledger_parse_frames frames_of_cut [OF _ max_entry_bytes])
qed

definition ledger_header :: "u8 list" where
  "ledger_header = LEDGER_MAGIC @ u32_to_le LEDGER_SCHEMA_VERSION"

lemma length_magic [simp]: "length LEDGER_MAGIC = 8"
  by (simp add: LEDGER_MAGIC_def bytes_of_def)

lemma length_header [simp]: "length ledger_header = 12"
  by (simp add: ledger_header_def)

lemma ledger_load_slice: "ledger_load de (slice (ledger_header @ bs)) = Ok (ledger_parse de bs)"
  by (simp add: ledger_load_def ledger_open_def read_exact_slice ledger_header_def ledger_parse_def)

lemma ledger_load_cut_header:
  assumes "n < 12"
  shows "ledger_load de (slice (take n ledger_header)) = Err (LedgerIo UnexpectedEof)"
proof -
  define xs where "xs = take n ledger_header"
  have len: "length xs = n" using assms by (simp add: xs_def)
  show ?thesis
  proof (cases "n < 8")
    case True
    then show ?thesis by (simp add: ledger_load_def ledger_open_def read_exact_slice len flip: xs_def)
  next
    case False
    then have "take 8 xs = LEDGER_MAGIC" "\<not> 4 \<le> n - 8" using assms by (simp_all add: xs_def ledger_header_def)
    then show ?thesis
      using False assms by (simp add: ledger_load_def ledger_open_def read_exact_slice len flip: xs_def)
  qed
qed

text \<open>Whatever happens, a write leaves in the sink the part that fits.\<close>

lemma write_all_take:
  "write_all bs k = (if length bs \<le> sk_room k then Ok () else Err NoSpace,
    k\<lparr>sk_bytes := sk_bytes k @ take (sk_room k) bs, sk_room := sk_room k - length bs\<rparr>)"
  by (simp add: write_all_def)

lemma write_entries_run:
  "list_all (codec_ok ser de MAX_ENTRY_BYTES) es \<Longrightarrow> unat (lw_frames_written w) + length es < 2 ^ 64 \<Longrightarrow>
    \<exists>w'. write_entries ser es w =
      (if length (ledger.contents ser es) \<le> sk_room (lw_sink w) then Ok () else Err (LedgerIo NoSpace), w')
    \<and> sk_bytes (lw_sink w') = sk_bytes (lw_sink w) @ take (sk_room (lw_sink w)) (ledger.contents ser es)"
proof (induction es arbitrary: w)
  case (Cons e es)
  obtain bs where bs: "ser e = Some bs" "length bs \<le> MAX_ENTRY_BYTES" "written_as ser e = frame bs"
    using codec_okD [OF _ max_entry_bytes, of ser de e] Cons.prems(1) by auto
  define room where "room = sk_room (lw_sink w)"
  define lb where "lb = u32_to_le (of_nat (length bs))"
  have lb: "length lb = 4" by (simp add: lb_def)
  have n: "add_p (lw_frames_written w) 1 = (Ok (lw_frames_written w + 1) :: (_, ledger_error) res)"
    "unat (lw_frames_written w + 1) = unat (lw_frames_written w) + 1"
    using Cons.prems(2) by (simp_all add: add_p_def unat_add_no_wrap)
  show ?case
  proof (cases "length (frame bs) \<le> room")
    case True
    then have fits: "4 \<le> room" "length bs \<le> room - 4" by (simp_all add: frame_def)
    define k' where "k' = \<lparr>sk_bytes = sk_bytes (lw_sink w) @ frame bs, sk_room = room - length (frame bs)\<rparr>"
    define w' where "w' = \<lparr>lw_sink = k', lw_frames_written = lw_frames_written w + 1\<rparr>"
    have we: "write_entry ser e w = (Ok (), w')"
      using fits bs(2) by (simp add: write_entry_def bs(1) write_all_take n lb_def [symmetric] lb room_def [symmetric]
          w'_def k'_def frame_def)
    have "unat (lw_frames_written w') + length es < 2 ^ 64" using Cons.prems(2) n by (simp add: w'_def)
    then show ?thesis
      using Cons.IH [of w'] Cons.prems(1) True
      by (auto simp: we w'_def k'_def bs(3) room_def [symmetric] split: if_splits)
  next
    case False
    then have "\<not> 4 \<le> room \<or> \<not> length bs \<le> room - 4" by (auto simp: frame_def)
    then have "\<exists>w'. write_entry ser e w = (Err (LedgerIo NoSpace), w')
        \<and> sk_bytes (lw_sink w') = sk_bytes (lw_sink w) @ take room (frame bs)"
      using bs(2) by (auto simp: write_entry_def bs(1) write_all_take n lb_def [symmetric] lb room_def [symmetric] frame_def)
    then show ?thesis using False by (auto simp: bs(3) room_def [symmetric])
  qed
qed simp

lemma ledger_session_run:
  assumes "list_all (codec_ok ser de MAX_ENTRY_BYTES) es" and "length es < 2 ^ 64"
  shows "ledger_session ser es room =
    (if length (ledger_header @ ledger.contents ser es) \<le> room then Ok () else Err (LedgerIo NoSpace),
     take room (ledger_header @ ledger.contents ser es))"
proof -
  define lb where "lb = u32_to_le LEDGER_SCHEMA_VERSION"
  have lb: "length lb = 4" by (simp add: lb_def)
  show ?thesis
  proof (cases "12 \<le> room")
    case True
    define w where "w = \<lparr>lw_sink = \<lparr>sk_bytes = ledger_header, sk_room = room - 12\<rparr>, lw_frames_written = 0\<rparr>"
    have new: "ledger_writer_new \<lparr>sk_bytes = [], sk_room = room\<rparr> = (Ok w, lw_sink w)"
      using True by (simp add: ledger_writer_new_def write_all_take w_def ledger_header_def lb_def [symmetric] lb)
    have "unat (lw_frames_written w) + length es < 2 ^ 64" using assms(2) by (simp add: w_def)
    from write_entries_run [OF assms(1) this] show ?thesis
      using True by (auto simp: ledger_session_def new w_def)
  next
    case False
    then show ?thesis
      by (auto simp: ledger_session_def ledger_writer_new_def write_all_take ledger_header_def lb_def [symmetric] lb)
  qed
qed

section \<open>Properties\<close>


definition sample_entry :: "u64 \<Rightarrow> i128 \<Rightarrow> ledger_entry" where
  "sample_entry seq pnl =
    (let ev = \<lparr>e_pnl = pnl, ev_p_detect = prob_ONE, ev_p_win = prob_ONE, ev_p_land = prob_ONE,
           ev_failed_cost = 0, ev_tip_lamports = 0\<rparr>
     in from_evaluated \<lparr>cycle_seq = 0, legs = [], weight_sum = 0, expected_profit_bps = 0\<rparr> (sample_net pnl) \<lparr>eo_optimistic = ev, eo_conservative = ev\<rparr> seq)"

definition sample_ser :: "ledger_entry \<Rightarrow> u8 list option" where
  "sample_ser e = Some (u64_to_le (le_seq e))"

definition sample_de :: "u8 list \<Rightarrow> ledger_entry option" where
  "sample_de bs = Some (sample_entry (u64_from_le bs) 5)"

lemma sample_entry_sel [simp]:
  "le_decision (sample_entry seq pnl) = (if 0 < pnl then WouldTrade else WouldNotTrade)"
  "e_pnl (le_optimistic (sample_entry seq pnl)) = pnl" "e_pnl (le_conservative (sample_entry seq pnl)) = pnl"
  "ev_p_land (le_conservative (sample_entry seq pnl)) = prob_ONE"
  by (simp_all add: sample_entry_def from_evaluated_def decision_from_ev_def Let_def)

lemma sample_codec: "codec_ok sample_ser sample_de MAX_ENTRY_BYTES (sample_entry seq 5)"
  by (simp add: codec_ok_def sample_ser_def sample_de_def MAX_ENTRY_BYTES_def sample_entry_def from_evaluated_def Let_def)


text \<open>The reader takes the length of a frame with a single call, which may return less than four
  bytes before the end of the file: a correct file whose bytes arrive in two chunks that divide a
  length prefix is reported as truncated at that entry.\<close>

theorem ledger_short_read:
  fixes j :: nat
  assumes "codec_ok ser de MAX_ENTRY_BYTES e" and "0 < j" and "j < 4"
  shows "\<exists>s. sound s \<and> flat s = ledger_header @ written_as ser e
    \<and> ledger_load de (slice (flat s)) = Ok ([e], Ok ()) \<and> ledger_load de s = Ok ([], Err LedgerTruncated)"
proof -
  define body where "body = written_as ser e"
  define s where "s = [Chunk (ledger_header @ take j body), Chunk (drop j body)]"
  obtain bs where bs: "length bs \<le> MAX_ENTRY_BYTES" "body = frame bs"
    using codec_okD [OF assms(1) max_entry_bytes] by (auto simp: body_def)
  have len: "4 \<le> length body" "length body < 2 ^ 64 - 1" using bs by (auto simp: frame_def MAX_ENTRY_BYTES_def)
  have ex: "read_exact n (Chunk c # rest) = (Ok (take n c), Chunk (drop n c) # rest)" if "n < length c" for n c rest
    using that by (cases "n = 0") (subst read_exact.simps; auto simp: read_exact.simps [of 0])+
  have pos: "0 < length (take j body)" "length (take j body) = j" using len(1) assms(2,3) by simp_all
  have "ledger_open s = Ok \<lparr>lr_source = Chunk (take j body) # [Chunk (drop j body)], lr_entries_read = 0\<rparr>"
    using pos by (simp add: ledger_open_def s_def ex ledger_header_def)
  moreover have "ledger_read_all de \<lparr>lr_source = Chunk (take j body) # [Chunk (drop j body)], lr_entries_read = 0\<rparr>
      = ([], Err LedgerTruncated)"
    using pos assms(2,3) len(1) by (subst ledger_read_all.simps) (auto simp: read_entry_def Let_def)
  ultimately have "ledger_load de s = Ok ([], Err LedgerTruncated)" by (simp add: ledger_load_def)
  moreover have "ledger_load de (slice (ledger_header @ body)) = Ok ([e], Ok ())"
    using ledger.parse_file [of ser de "[e]"] assms(1) len(2) by (simp add: ledger_load_slice body_def)
  ultimately show ?thesis
    using len(1) assms(2,3) by (intro exI [of _ s]) (auto simp: s_def body_def [symmetric])
qed

lemma ledger_short_read_witness:
  "\<exists>s. sound s \<and> ledger_load sample_de (slice (flat s)) = Ok ([sample_entry 7 5], Ok ())
    \<and> ledger_load sample_de s = Ok ([], Err LedgerTruncated)"
  using ledger_short_read [OF sample_codec [of 7], of 2] by auto

text \<open>An entry marked for trading is sound: if its conservative value comes from the evaluation of
  a net profit against the shipped optimistic parameters, the net profit itself is positive, at least the conservative
  value, and recorded as the optimistic one.\<close>

theorem would_trade_is_profitable:
  assumes "eval_ready net ps" and "in_range 32 (np_net_profit_bps net)"
    and "evaluate net params_optimistic ps = Ok out"
    and "le_decision (from_evaluated_with_tip c net out seq tip) = WouldTrade"
  shows "0 < np_net_profit net \<and> e_pnl (le_optimistic (from_evaluated_with_tip c net out seq tip)) = np_net_profit net
    \<and> 0 < e_pnl (le_conservative (from_evaluated_with_tip c net out seq tip))
    \<and> e_pnl (le_conservative (from_evaluated_with_tip c net out seq tip)) \<le> np_net_profit net"
  using evaluate_run [OF assms(1,2)] assms(3,4)
  by (auto simp: from_evaluated_with_tip_def from_evaluated_def decision_from_ev_def split: if_splits)

lemma would_trade_is_profitable_witness:
  "\<exists>out. evaluate (sample_net 1000) params_optimistic half_chance = Ok out
    \<and> 0 < e_pnl (eo_conservative out) \<and> e_pnl (eo_conservative out) \<le> 1000"
proof -
  have rng: "in_range 32 (np_net_profit_bps (sample_net 1000))"
    by (simp add: sample_net_def in_range_def smin_def smax_def)
  have ready: "eval_ready (sample_net 1000) half_chance" by (rule half_chance_ready) simp
  obtain out where out: "evaluate (sample_net 1000) params_optimistic half_chance = Ok out"
    using evaluate_run [OF ready rng] by blast
  then have "evaluate_one (sample_net 1000) half_chance = Ok (eo_conservative out)"
    by (auto simp: evaluate_def bind_res_Ok_iff)
  then have "e_pnl (eo_conservative out) = 500"
    using evaluate_one_run [OF ready]
    by (simp add: half_chance_pnl sdiv_nonneg clamp_i_def smax_def smin_def)
  then have trade: "le_decision (from_evaluated_with_tip undefined (sample_net 1000) out 0 0) = WouldTrade"
    by (simp add: from_evaluated_with_tip_def from_evaluated_def decision_from_ev_def)
  from would_trade_is_profitable [OF ready rng out trade]
  show ?thesis using out by (auto simp: from_evaluated_with_tip_def from_evaluated_def sample_net_def)
qed

section \<open>The summary is exact\<close>

fun sums_fit :: "nat \<Rightarrow> int \<Rightarrow> int list \<Rightarrow> bool" where
  "sums_fit w a [] \<longleftrightarrow> True"
| "sums_fit w a (x # xs) \<longleftrightarrow> in_range w (a + x) \<and> sums_fit w (a + x) xs"

abbreviation opt_pnls :: "ledger_entry list \<Rightarrow> int list" where
  "opt_pnls es \<equiv> map (\<lambda>e. e_pnl (le_optimistic e)) es"

abbreviation con_pnls :: "ledger_entry list \<Rightarrow> int list" where
  "con_pnls es \<equiv> map (\<lambda>e. e_pnl (le_conservative e)) es"

abbreviation p_lands :: "ledger_entry list \<Rightarrow> nat list" where
  "p_lands es \<equiv> map (\<lambda>e. unat (scaled (ev_p_land (le_conservative e)))) es"

definition trades :: "ledger_entry list \<Rightarrow> nat" where
  "trades es = length (filter (\<lambda>e. le_decision e = WouldTrade) es)"

lemma summary_loop_run:
  "unat wt + length es < 2 ^ 64 \<Longrightarrow>
    summary_loop es wt so sc sp ps =
      (if sums_fit 128 so (opt_pnls es) \<and> sums_fit 128 sc (con_pnls es) \<and> unat sp + sum_list (p_lands es) < 2 ^ 128
       then Ok (wt + of_nat (trades es), so + sum_list (opt_pnls es), sc + sum_list (con_pnls es),
         sp + of_nat (sum_list (p_lands es)), ps @ con_pnls es)
       else Err LedgerMath)"
proof (induction es arbitrary: wt so sc sp ps)
  case Nil
  then show ?case using unat_bound [of sp] by (simp add: trades_def)
next
  case (Cons e es)
  define wt' where "wt' = (if le_decision e = WouldTrade then wt + 1 else wt)"
  have one: "unat (wt + 1) = unat wt + 1" using Cons.prems by (simp add: unat_add_no_wrap)
  have wt: "(if le_decision e = WouldTrade then ok_or (checked_add_w wt 1) LedgerMath else Ok wt) = Ok wt'"
    using Cons.prems one by (auto simp: wt'_def ok_or_def checked_add_w_def)
  have prem: "unat wt' + length es < 2 ^ 64" using Cons.prems one by (auto simp: wt'_def)
  have count: "wt + of_nat (trades (e # es)) = wt' + of_nat (trades es)" by (simp add: wt'_def trades_def)
  show ?case
  proof (cases "unat sp + unat (scaled (ev_p_land (le_conservative e))) < 2 ^ 128")
    case True
    then show ?thesis
      unfolding summary_loop.simps wt bind_res.simps
      by (simp add: Cons.IH [OF prem] count checked_i_def ok_or_def checked_add_w_def unat_add_no_wrap add.assoc)
  next
    case False
    then show ?thesis
      unfolding summary_loop.simps wt bind_res.simps
      by (auto simp: checked_i_def ok_or_def checked_add_w_def)
  qed
qed

text \<open>The summary of a ledger is exact or an error: it fails exactly when a partial sum of the
  optimistic or the conservative values leaves 128 signed bits or the sum of the landing probabilities leaves
  128 bits; otherwise every field is the count, the sum or the element of the sorted values that its
  name says, and the percentiles of no entries are zero.\<close>

theorem ledger_summary_exact:
  assumes "length es < 2 ^ 64"
  shows "summary_from_entries es =
    (if sums_fit 128 0 (opt_pnls es) \<and> sums_fit 128 0 (con_pnls es) \<and> sum_list (p_lands es) < 2 ^ 128
     then Ok \<lparr>ls_total = of_nat (length es), ls_would_trade = of_nat (trades es),
       ls_would_not_trade = of_nat (length es - trades es),
       ls_sum_optimistic = sum_list (opt_pnls es), ls_sum_conservative = sum_list (con_pnls es),
       ls_sum_p_land = of_nat (sum_list (p_lands es)),
       ls_median = (if es = [] then 0 else sort (con_pnls es) ! (length es div 2)),
       ls_p95 = (if es = [] then 0 else sort (con_pnls es) ! min (length es * 95 div 100) (length es - 1))\<rparr>
     else Err LedgerMath)"
proof -
  have loop: "summary_loop es 0 0 0 0 [] =
      (if sums_fit 128 0 (opt_pnls es) \<and> sums_fit 128 0 (con_pnls es) \<and> sum_list (p_lands es) < 2 ^ 128
       then Ok (of_nat (trades es), sum_list (opt_pnls es), sum_list (con_pnls es),
         of_nat (sum_list (p_lands es)), con_pnls es)
       else Err LedgerMath)"
    using summary_loop_run [of 0 es 0 0 0 "[]"] assms by simp
  have le: "trades es \<le> length es" by (simp add: trades_def)
  then have "unat (of_nat (length es) :: u64) = length es" "unat (of_nat (trades es) :: u64) = trades es"
    using assms by (simp_all add: unat_of_nat_fits)
  then have sub: "sub_p (of_nat (length es) :: u64) (of_nat (trades es)) = (Ok (of_nat (length es - trades es)) :: (_, ledger_error) res)"
    using le by (simp add: sub_p_def word_le_nat_alt of_nat_diff)
  have pct: "percentiles_signed (con_pnls es) = (if es = [] then (0, 0)
      else (sort (con_pnls es) ! (length es div 2), sort (con_pnls es) ! min (length es * 95 div 100) (length es - 1)))"
    by (cases es) (auto simp: percentiles_signed_def Let_def)
  show ?thesis
    unfolding summary_from_entries_def Let_def loop
    by (simp add: sub pct)
qed

lemma ledger_summary_exact_witness:
  "\<exists>s. summary_from_entries [sample_entry 1 5, sample_entry 2 (- 9), sample_entry 3 7] = Ok s
    \<and> ls_would_trade s = 2 \<and> ls_would_not_trade s = 1 \<and> ls_sum_conservative s = 3 \<and> ls_median s = 5"
proof -
  let ?es = "[sample_entry 1 5, sample_entry 2 (- 9), sample_entry 3 7]"
  have "unat (scaled prob_ONE) = 10 ^ 18" by (simp add: prob_ONE_def PROB_SCALE_1E18_def)
  then have fit: "sums_fit 128 0 (opt_pnls ?es)" "sums_fit 128 0 (con_pnls ?es)" "sum_list (p_lands ?es) < 2 ^ 128"
    by (simp_all add: in_range_def smin_def smax_def)
  have "trades ?es = 2" "sum_list (con_pnls ?es) = 3" "sort (con_pnls ?es) ! (length ?es div 2) = 5"
    by (simp_all add: trades_def)
  then show ?thesis
    using ledger_summary_exact [of ?es] fit by (simp del: list.map sum_list.Cons)
qed

lemma ledger_hash_separates_witness:
  "\<exists>c c'. length (legs c) = 2 \<and> map leg_pool (legs c') = map leg_pool (legs c) \<and> ledger_hash c' \<noteq> ledger_hash c"
proof -
  define l where "l = (\<lambda>d. \<lparr>leg_pool = pubkey_ZERO, leg_direction = d, leg_weight = 0\<rparr>)"
  define c where "c = \<lparr>cycle_seq = 0, legs = [l BaseToQuote, l BaseToQuote], weight_sum = 0, expected_profit_bps = 0\<rparr>"
  have "one_change (legs c ! 1) (l QuoteToBase)" by (simp add: one_change_def c_def l_def)
  then have "ledger_hash (c\<lparr>legs := (legs c)[1 := l QuoteToBase]\<rparr>) \<noteq> ledger_hash c"
    by (intro ledger_hash_separates) (simp_all add: c_def)
  then show ?thesis
    by (intro exI [of _ c] exI [of _ "c\<lparr>legs := (legs c)[1 := l QuoteToBase]\<rparr>"]) (simp add: c_def l_def)
qed

end
