(* ===== verification/Feed.thy ===== *)
theory Feed
  imports Rust_Prelude "HOL-Library.List_Lexorder"
begin

text \<open>
  The policies of the market-data feed, \<^verbatim>\<open>crates/dl-feed\<close>: reconnect backoff and storm detection
  (\<^verbatim>\<open>reconnect.rs\<close>), the staleness guard (\<^verbatim>\<open>staleness.rs\<close>) and the registry of subscriptions
  (\<^verbatim>\<open>registry.rs\<close>). A \<^verbatim>\<open>Duration\<close> is its number of nanoseconds; a \<^verbatim>\<open>BTreeMap\<close> is its
  association list in key order.
\<close>

section \<open>Backoff\<close>

record reconnect_policy =
  rp_base :: nat
  rp_cap :: nat
  rp_jitter_bps :: u64
  rp_storm_threshold :: u64
  rp_storm_window :: u64
  rp_max_attempts :: "u64 option"

definition reconnect_default :: reconnect_policy where
  "reconnect_default = \<lparr>rp_base = 100 * 10 ^ 6, rp_cap = 30 * 10 ^ 9, rp_jitter_bps = 1000,
    rp_storm_threshold = 5, rp_storm_window = 150, rp_max_attempts = None\<rparr>"

definition next_backoff :: "reconnect_policy \<Rightarrow> u64 \<Rightarrow> i64 option \<Rightarrow> (nat, unit) res" where
  "next_backoff p attempt jitter_seed =
    (let factor = push_bit (unat (min attempt 63)) (1 :: u64);
         nanos_base = (of_nat (rp_base p) :: u64);
         nanos_raw = sat_mul_w nanos_base factor;
         nanos_capped = min nanos_raw (of_nat (rp_cap p))
     in if rp_jitter_bps p = 0 then Ok (unat nanos_capped)
        else
          let bps = sint (rp_jitter_bps p) in
          bind_res (range_p 64 (- bps)) (\<lambda>lo.
          if bps < lo then Panic
          else
            let seed = max lo (min (case jitter_seed of None \<Rightarrow> 0 | Some s \<Rightarrow> s) bps);
                scale_num = clamp_i 64 (10000 + seed);
                nanos_i = (int (unat nanos_capped) * scale_num) sdiv 10000;
                nanos_capped_i = int (rp_cap p)
            in Ok (if nanos_i < 0 then 0
                   else if nanos_capped_i < nanos_i then unat (of_nat (rp_cap p) :: u64)
                   else unat (of_int nanos_i :: u64))))"

definition is_exhausted :: "reconnect_policy \<Rightarrow> u64 \<Rightarrow> bool" where
  "is_exhausted p attempt = (case rp_max_attempts p of None \<Rightarrow> False | Some m \<Rightarrow> m \<le> attempt)"

section \<open>Storms\<close>

record storm_detector =
  sd_threshold :: u64
  sd_window :: u64
  sd_attempts :: "u64 list"
  sd_storm_count :: u64

definition storm_new :: "u64 \<Rightarrow> u64 \<Rightarrow> storm_detector" where
  "storm_new threshold window = \<lparr>sd_threshold = threshold, sd_window = window, sd_attempts = [], sd_storm_count = 0\<rparr>"

definition is_storm :: "storm_detector \<Rightarrow> bool" where
  "is_storm d \<longleftrightarrow> 0 < sd_threshold d \<and> sd_threshold d < of_nat (length (sd_attempts d))"

definition record_attempt :: "u64 \<Rightarrow> storm_detector \<Rightarrow> (bool, unit) res \<times> storm_detector" where
  "record_attempt slot d =
    (let kept = (if 0 < sd_window d
           then filter (\<lambda>s. sat_sub_w slot (sd_window d) < s) (sd_attempts d) else sd_attempts d);
         d1 = d\<lparr>sd_attempts := kept @ [slot]\<rparr>
     in if 0 < sd_threshold d1 \<and> sd_threshold d1 < of_nat (length (sd_attempts d1))
        then (case add_p (sd_storm_count d1) 1 of
            Ok n \<Rightarrow> (Ok True, d1\<lparr>sd_storm_count := n\<rparr>)
          | Err e \<Rightarrow> (Err e, d1)
          | Panic \<Rightarrow> (Panic, d1))
        else (Ok False, d1))"

section \<open>Subscriptions\<close>

type_synonym key = "u8 list"

text \<open>A \<^verbatim>\<open>BTreeSet\<close> of keys, in order.\<close>

definition registry_add :: "key \<Rightarrow> key list \<Rightarrow> key list" where
  "registry_add k subs = (if k \<in> set subs then subs else insort k subs)"

section \<open>Staleness\<close>

record staleness_guard =
  sg_max_staleness_slots :: u64
  sg_last_seen :: "(key \<times> u64) list"
  sg_now_slot :: u64
  sg_tripped :: bool
  sg_tripped_for :: "key option"
  sg_tripped_at_slot :: u64
  sg_tripped_staleness :: u64
  sg_trip_count :: u64

definition guard_new :: "u64 \<Rightarrow> staleness_guard" where
  "guard_new max_staleness = \<lparr>sg_max_staleness_slots = max_staleness, sg_last_seen = [], sg_now_slot = 0,
    sg_tripped = False, sg_tripped_for = None, sg_tripped_at_slot = 0, sg_tripped_staleness = 0, sg_trip_count = 0\<rparr>"

fun btree_insert :: "key \<Rightarrow> u64 \<Rightarrow> (key \<times> u64) list \<Rightarrow> (key \<times> u64) list" where
  "btree_insert k v [] = [(k, v)]"
| "btree_insert k v ((k', v') # m) =
    (if k < k' then (k, v) # (k', v') # m
     else if k = k' then (k, v) # m
     else (k', v') # btree_insert k v m)"

definition guard_register :: "key \<Rightarrow> staleness_guard \<Rightarrow> staleness_guard" where
  "guard_register k g =
    (if map_of (sg_last_seen g) k = None then g\<lparr>sg_last_seen := btree_insert k 0 (sg_last_seen g)\<rparr> else g)"

text \<open>The oldest of the entries that are too old, the first in key order among equals.\<close>

fun worst_stale :: "u64 \<Rightarrow> u64 \<Rightarrow> (key \<times> u64) list \<Rightarrow> (key \<times> u64) option \<Rightarrow> (key \<times> u64) option" where
  "worst_stale now max_age [] worst = worst"
| "worst_stale now max_age ((pk, last_seen_slot) # m) worst =
    (if last_seen_slot = 0 then worst_stale now max_age m worst
     else
       let age = sat_sub_w now last_seen_slot in
       if max_age < age then
         (case worst of
            Some (_, w_last) \<Rightarrow>
              if w_last \<le> last_seen_slot then worst_stale now max_age m worst
              else worst_stale now max_age m (Some (pk, last_seen_slot))
          | None \<Rightarrow> worst_stale now max_age m (Some (pk, last_seen_slot)))
       else worst_stale now max_age m worst)"

definition trip :: "key \<Rightarrow> u64 \<Rightarrow> staleness_guard \<Rightarrow> (staleness_guard, unit) res" where
  "trip k staleness g =
    bind_res (add_p (sg_trip_count g) 1) (\<lambda>n.
      Ok (g\<lparr>sg_tripped := True, sg_tripped_for := Some k, sg_tripped_at_slot := sg_now_slot g,
        sg_tripped_staleness := staleness, sg_trip_count := n\<rparr>))"

definition check_inner :: "staleness_guard \<Rightarrow> (bool \<times> staleness_guard, unit) res" where
  "check_inner g =
    (if sg_tripped g then Ok (False, g)
     else if sg_max_staleness_slots g = 0 then Ok (False, g)
     else if sg_now_slot g = 0 then Ok (False, g)
     else (case worst_stale (sg_now_slot g) (sg_max_staleness_slots g) (sg_last_seen g) None of
         Some (pk, last_seen_slot) \<Rightarrow>
           bind_res (trip pk (sat_sub_w (sg_now_slot g) last_seen_slot) g) (\<lambda>g'. Ok (True, g'))
       | None \<Rightarrow> Ok (False, g)))"

definition guard_update :: "key \<Rightarrow> u64 \<Rightarrow> staleness_guard \<Rightarrow> (bool \<times> staleness_guard, unit) res" where
  "guard_update k slot g =
    (if sg_tripped g then Ok (False, g)
     else
       let g1 = (if sg_now_slot g < slot then g\<lparr>sg_now_slot := slot\<rparr> else g)
       in check_inner (g1\<lparr>sg_last_seen := btree_insert k slot (sg_last_seen g1)\<rparr>))"

definition notify_slot_advance :: "u64 \<Rightarrow> staleness_guard \<Rightarrow> (bool \<times> staleness_guard, unit) res" where
  "notify_slot_advance slot g =
    (if sg_tripped g then Ok (False, g)
     else check_inner (if sg_now_slot g < slot then g\<lparr>sg_now_slot := slot\<rparr> else g))"

datatype staleness_result = Fresh | Stale key u64 u64

definition check_at :: "u64 \<Rightarrow> staleness_guard \<Rightarrow> staleness_result" where
  "check_at now g =
    (if sg_max_staleness_slots g = 0 \<or> now = 0 then Fresh
     else (case worst_stale now (sg_max_staleness_slots g) (sg_last_seen g) None of
         Some (pk, last_seen_slot) \<Rightarrow> Stale pk last_seen_slot (sat_sub_w now last_seen_slot)
       | None \<Rightarrow> Fresh))"

section \<open>Backoff is bounded and exact\<close>

definition backoff_nat :: "nat \<Rightarrow> nat \<Rightarrow> nat \<Rightarrow> nat" where
  "backoff_nat b c attempt = min (b * 2 ^ min attempt 63) c"

text \<open>A policy as documented: durations of less than 584 years and a jitter of at most 100 percent.\<close>

definition policy_ok :: "reconnect_policy \<Rightarrow> bool" where
  "policy_ok p \<longleftrightarrow> rp_base p < 2 ^ 64 \<and> rp_cap p < 2 ^ 64 \<and> unat (rp_jitter_bps p) \<le> 10000"

definition jitter_of :: "reconnect_policy \<Rightarrow> i64 option \<Rightarrow> int" where
  "jitter_of p js = (let b = int (unat (rp_jitter_bps p)) in max (- b) (min (case js of None \<Rightarrow> 0 | Some s \<Rightarrow> s) b))"

lemma unat_min_word: "unat (min a b) = min (unat a) (unat b)" for a b :: "'w::len word"
  by (simp add: min_def word_le_nat_alt)

lemma unat_two_power: "k < 64 \<Longrightarrow> unat (2 ^ k :: u64) = 2 ^ k"
proof -
  assume "k < 64"
  then have "(2 :: nat) ^ k < 2 ^ 64" by (intro power_strict_increasing) simp_all
  then show ?thesis by (simp add: unat_power_no_wrap)
qed

lemma next_backoff_run:
  assumes "policy_ok p"
  shows "\<exists>d. next_backoff p attempt js = Ok d
    \<and> int d = min (int (backoff_nat (rp_base p) (rp_cap p) (unat attempt)) * (10000 + jitter_of p js) div 10000) (int (rp_cap p))"
proof -
  define b where "b = int (unat (rp_jitter_bps p))"
  define n where "n = min (sat_mul_w (of_nat (rp_base p) :: u64) (push_bit (unat (min attempt 63)) 1)) (of_nat (rp_cap p))"
  define j where "j = jitter_of p js"
  have fits: "unat (of_nat (rp_base p) :: u64) = rp_base p" "unat (of_nat (rp_cap p) :: u64) = rp_cap p"
    and cap: "rp_cap p < 2 ^ 64" and jit: "unat (rp_jitter_bps p) \<le> 10000"
    using assms by (simp_all add: policy_ok_def unat_of_nat_fits)
  have b: "0 \<le> b" "b \<le> 10000" using jit by (simp_all add: b_def del: of_nat_unat)
  have n: "unat n = backoff_nat (rp_base p) (rp_cap p) (unat attempt)"
    using cap by (simp add: n_def unat_min_word unat_sat_mul_w fits unat_two_power backoff_nat_def min.assoc [symmetric])
  have s: "sint (rp_jitter_bps p) = b"
  proof -
    have "uint (rp_jitter_bps p) < 2 ^ 63" using b by (simp add: b_def)
    moreover have "- (2 ^ 63) \<le> uint (rp_jitter_bps p)" by (rule order_trans [of _ 0]) simp_all
    ultimately show ?thesis by (simp add: b_def sint_uint signed_take_bit_int_eq_self_iff)
  qed
  have j: "- b \<le> j" "j \<le> b" "max (- b) (min (case js of None \<Rightarrow> 0 | Some s \<Rightarrow> s) b) = j"
    using b by (auto simp: j_def jitter_of_def Let_def b_def)
  have lo: "range_p 64 (- b) = (Ok (- b) :: (_, unit) res)" "clamp_i 64 (10000 + j) = 10000 + j"
    using b j by (auto simp: range_p_def in_range_def smin_def smax_def clamp_i_def)
  define v where "v = int (unat n) * (10000 + j)"
  have v: "0 \<le> v" using b j by (simp add: v_def)
  then have q: "v sdiv 10000 = v div 10000" "0 \<le> v div 10000" by (simp_all add: sdiv_nonneg)
  have "unat n \<le> rp_cap p" by (simp add: n backoff_nat_def)
  then have un: "uint n \<le> int (rp_cap p)" by (metis of_nat_unat zle_int)
  show ?thesis
  proof (cases "rp_jitter_bps p = 0")
    case True
    then have "b = 0" by (simp add: b_def)
    then have "j = 0" using j by simp
    then have "v div 10000 = int (unat n)" by (simp add: v_def)
    then show ?thesis
      using True un
      unfolding next_backoff_def Let_def n_def [symmetric] n [symmetric] v_def [symmetric] j_def [symmetric] by simp
  next
    case False
    define d where "d = (if int (rp_cap p) < v div 10000 then rp_cap p else unat (of_int (v div 10000) :: u64))"
    have "int d = min (v div 10000) (int (rp_cap p))"
    proof (cases "int (rp_cap p) < v div 10000")
      case False
      moreover have "int (rp_cap p) < 2 ^ 64" using cap by simp
      ultimately have "v div 10000 < 2 ^ 64" by linarith
      then have "unat (of_int (v div 10000) :: u64) = nat (v div 10000)"
        using q(2) by (simp add: unat_eq_nat_uint uint_word_of_int take_bit_int_eq_self)
      then show ?thesis using False q(2) by (simp add: d_def)
    qed (simp add: d_def)
    moreover have "next_backoff p attempt js = Ok d"
      using False q b unfolding next_backoff_def Let_def n_def [symmetric] s
      by (simp add: lo j(3) v_def [symmetric] fits d_def del: of_nat_unat)
    ultimately show ?thesis unfolding n [symmetric] v_def j_def by blast
  qed
qed

text \<open>The backoff doubles from the base up to the cap, and the jitter moves it by at most its
  share: for a policy in its documented ranges the result is \<open>min (base * 2 ^ attempt) cap\<close> scaled by
  \<open>(10000 + seed) / 10000\<close>, the seed clamped to the jitter, floored to a nanosecond and capped again. In particular it
  returns, it is never above the cap, and without jitter it does not decrease from one attempt to the next.\<close>

theorem next_backoff_exact:
  assumes "policy_ok p"
  shows "\<exists>d. next_backoff p attempt js = Ok d \<and> d \<le> rp_cap p
    \<and> int d = min (int (min (rp_base p * 2 ^ min (unat attempt) 63) (rp_cap p)) * (10000 + jitter_of p js) div 10000)
        (int (rp_cap p))"
  using next_backoff_run [OF assms, of attempt js] by (auto simp: backoff_nat_def)

lemma next_backoff_exact_witness:
  "\<exists>d. next_backoff reconnect_default 3 (Some 500) = Ok d \<and> d = 840 * 10 ^ 6"
proof -
  have "policy_ok reconnect_default" by (simp add: policy_ok_def reconnect_default_def)
  from next_backoff_exact [OF this, of 3 "Some 500"] show ?thesis
    by (auto simp: reconnect_default_def jitter_of_def)
qed

section \<open>Storms are counted over the window\<close>

fun record_attempts :: "u64 list \<Rightarrow> storm_detector \<Rightarrow> storm_detector" where
  "record_attempts [] d = d"
| "record_attempts (s # ss) d = record_attempts ss (snd (record_attempt s d))"

lemma record_attempts_snoc: "record_attempts (ss @ [s]) d = snd (record_attempt s (record_attempts ss d))"
  by (induction ss arbitrary: d) simp_all

lemma record_attempt_frame:
  "sd_threshold (snd (record_attempt s d)) = sd_threshold d" "sd_window (snd (record_attempt s d)) = sd_window d"
  "sd_attempts (snd (record_attempt s d)) =
    (if 0 < sd_window d then filter (\<lambda>x. sat_sub_w s (sd_window d) < x) (sd_attempts d) else sd_attempts d) @ [s]"
  by (simp_all add: record_attempt_def Let_def split: res.split)

lemma storm_count_step:
  "unat (sd_storm_count d) + 1 < 2 ^ 64 \<Longrightarrow> unat (sd_storm_count (snd (record_attempt s d))) \<le> unat (sd_storm_count d) + 1"
  by (auto simp: record_attempt_def Let_def add_p_def unat_add_no_wrap split: res.split)

lemma sat_sub_mono: "a \<le> b \<Longrightarrow> sat_sub_w a w \<le> sat_sub_w b w"
  by (simp add: word_le_nat_alt unat_sat_sub_w)

lemma record_attempts_state:
  assumes "sorted ss" and "length ss < 2 ^ 64" and "0 < w"
  shows "sd_threshold (record_attempts ss (storm_new th w)) = th \<and> sd_window (record_attempts ss (storm_new th w)) = w
    \<and> unat (sd_storm_count (record_attempts ss (storm_new th w))) \<le> length ss
    \<and> (\<forall>s. (\<forall>x \<in> set ss. x \<le> s) \<longrightarrow>
        filter (\<lambda>x. sat_sub_w s w < x) (sd_attempts (record_attempts ss (storm_new th w)))
          = filter (\<lambda>x. sat_sub_w s w < x) ss)"
  using assms(1,2)
proof (induction ss rule: rev_induct)
  case Nil
  then show ?case by (simp add: storm_new_def)
next
  case (snoc t ss)
  let ?d = "record_attempts ss (storm_new th w)"
  have ih: "sd_threshold ?d = th" "sd_window ?d = w" "unat (sd_storm_count ?d) \<le> length ss"
    "\<And>s. (\<And>x. x \<in> set ss \<Longrightarrow> x \<le> s) \<Longrightarrow>
      filter (\<lambda>x. sat_sub_w s w < x) (sd_attempts ?d) = filter (\<lambda>x. sat_sub_w s w < x) ss"
    using snoc by (simp_all add: sorted_append)
  have "unat (sd_storm_count (snd (record_attempt t ?d))) \<le> unat (sd_storm_count ?d) + 1"
    by (rule storm_count_step) (use ih(3) snoc.prems(2) in simp)
  moreover have "filter (\<lambda>x. sat_sub_w s w < x) (sd_attempts (snd (record_attempt t ?d)))
      = filter (\<lambda>x. sat_sub_w s w < x) (ss @ [t])" if s: "\<forall>x \<in> set (ss @ [t]). x \<le> s" for s
  proof -
    have "sat_sub_w t w \<le> sat_sub_w s w" using s by (simp add: sat_sub_mono)
    then have "sat_sub_w t w < x" if "sat_sub_w s w < x" for x using that by simp
    then have "filter (\<lambda>x. sat_sub_w s w < x) (filter (\<lambda>x. sat_sub_w t w < x) (sd_attempts ?d))
        = filter (\<lambda>x. sat_sub_w s w < x) (sd_attempts ?d)"
      unfolding filter_filter by (intro filter_cong) auto
    then show ?thesis using ih(4) s assms(3) by (simp add: record_attempt_frame ih(2))
  qed
  ultimately show ?case
    using ih(1-3) by (simp add: record_attempts_snoc record_attempt_frame)
qed

text \<open>An attempt is reported as a storm exactly when it and the attempts of the last \<open>window\<close> slots
  are more than the threshold, however many attempts came before, as long as slots do not go
  back.\<close>

theorem storm_detected_exactly:
  assumes "sorted (ss @ [s])" and "length ss + 1 < 2 ^ 64" and "0 < w"
  shows "fst (record_attempt s (record_attempts ss (storm_new th w))) =
    Ok (th \<noteq> 0 \<and> unat th < length (filter (\<lambda>x. sat_sub_w s w < x) ss) + 1)"
proof -
  let ?d = "record_attempts ss (storm_new th w)"
  have st: "sd_threshold ?d = th" "sd_window ?d = w" "unat (sd_storm_count ?d) \<le> length ss"
    "filter (\<lambda>x. sat_sub_w s w < x) (sd_attempts ?d) = filter (\<lambda>x. sat_sub_w s w < x) ss"
    using record_attempts_state [of ss w th] assms by (simp_all add: sorted_append)
  define n where "n = length (filter (\<lambda>x. sat_sub_w s w < x) ss) + 1"
  have "n < 2 ^ 64" using assms(2) le_less_trans [OF length_filter_le] by (simp add: n_def)
  then have n: "unat (of_nat n :: u64) = n" by (simp add: unat_of_nat_fits)
  have add: "add_p (sd_storm_count ?d) 1 = (Ok (sd_storm_count ?d + 1) :: (_, unit) res)"
    using st(3) assms(2) by (simp add: add_p_def)
  have len: "length (filter (\<lambda>x. sat_sub_w s w < x) ss @ [s]) = n" by (simp add: n_def)
  have "fst (record_attempt s ?d) = Ok (0 < th \<and> th < of_nat n)"
    unfolding record_attempt_def Let_def using assms(3) by (simp add: st add len del: length_append)
  then show ?thesis using n unfolding n_def [symmetric] by (auto simp: word_less_nat_alt unat_gt_0)
qed

lemma storm_detected_exactly_witness:
  "fst (record_attempt 210 (record_attempts [10, 100, 200] (storm_new 2 150))) = Ok True
    \<and> fst (record_attempt 400 (record_attempts [10, 100, 200] (storm_new 2 150))) = Ok False"
  using storm_detected_exactly [of "[10, 100, 200]" 210 150 2] storm_detected_exactly [of "[10, 100, 200]" 400 150 2]
  by (simp add: sat_sub_w_def)

section \<open>The guard halts exactly on a stale pool\<close>

datatype guard_event = Register key | Updated key u64 | SlotSeen u64

primrec guard_step :: "guard_event \<Rightarrow> staleness_guard \<Rightarrow> (bool \<times> staleness_guard, unit) res" where
  "guard_step (Register k) g = Ok (False, guard_register k g)"
| "guard_step (Updated k slot) g = guard_update k slot g"
| "guard_step (SlotSeen slot) g = notify_slot_advance slot g"

fun guard_run :: "guard_event list \<Rightarrow> staleness_guard \<Rightarrow> (staleness_guard, unit) res" where
  "guard_run [] g = Ok g"
| "guard_run (e # es) g = bind_res (guard_step e g) (\<lambda>(tripped, g'). guard_run es g')"

text \<open>The history of a run: when each account was last updated, and the latest slot.\<close>

fun latest :: "guard_event list \<Rightarrow> (key \<rightharpoonup> u64) \<Rightarrow> (key \<rightharpoonup> u64)" where
  "latest [] m = m"
| "latest (Updated k slot # es) m = latest es (m(k \<mapsto> slot))"
| "latest (_ # es) m = latest es m"

fun clock_after :: "guard_event list \<Rightarrow> u64 \<Rightarrow> u64" where
  "clock_after [] now = now"
| "clock_after (Register k # es) now = clock_after es now"
| "clock_after (Updated k slot # es) now = clock_after es (max now slot)"
| "clock_after (SlotSeen slot # es) now = clock_after es (max now slot)"

definition stale_at :: "u64 \<Rightarrow> u64 \<Rightarrow> (key \<rightharpoonup> u64) \<Rightarrow> bool" where
  "stale_at max_age now seen \<longleftrightarrow> max_age \<noteq> 0 \<and> now \<noteq> 0
    \<and> (\<exists>k s. seen k = Some s \<and> s \<noteq> 0 \<and> max_age < sat_sub_w now s)"

definition goes_stale :: "u64 \<Rightarrow> guard_event list \<Rightarrow> bool" where
  "goes_stale max_age es \<longleftrightarrow>
    list_ex (\<lambda>n. stale_at max_age (clock_after (take n es) 0) (latest (take n es) Map.empty)) [0..<Suc (length es)]"

definition worst_ok :: "u64 \<Rightarrow> u64 \<Rightarrow> (key \<times> u64) list \<Rightarrow> (key \<times> u64) option \<Rightarrow> (key \<times> u64) option \<Rightarrow> bool" where
  "worst_ok now m xs w r \<longleftrightarrow> (case r of
      None \<Rightarrow> w = None \<and> (\<forall>k s. (k, s) \<in> set xs \<longrightarrow> s = 0 \<or> \<not> m < sat_sub_w now s)
    | Some (k, s) \<Rightarrow> (w = Some (k, s) \<or> ((k, s) \<in> set xs \<and> s \<noteq> 0 \<and> m < sat_sub_w now s))
        \<and> (\<forall>k' s'. w = Some (k', s') \<longrightarrow> s \<le> s')
        \<and> (\<forall>k' s'. (k', s') \<in> set xs \<longrightarrow> s' \<noteq> 0 \<longrightarrow> m < sat_sub_w now s' \<longrightarrow> s \<le> s'))"

lemma worst_stale_spec: "worst_ok now m xs w (worst_stale now m xs w)"
proof (induction xs arbitrary: w)
  case Nil
  then show ?case by (auto simp: worst_ok_def split: option.splits)
next
  case (Cons e xs)
  obtain pk s where e: "e = (pk, s)" by fastforce
  have step: "worst_stale now m (e # xs) w = worst_stale now m xs
      (if s = 0 \<or> \<not> m < sat_sub_w now s then w
       else case w of Some (k0, s0) \<Rightarrow> (if s0 \<le> s then w else Some (pk, s)) | None \<Rightarrow> Some (pk, s))"
    by (auto simp: e Let_def split: option.split)
  define w' where "w' = (if s = 0 \<or> \<not> m < sat_sub_w now s then w
       else case w of Some (k0, s0) \<Rightarrow> (if s0 \<le> s then w else Some (pk, s)) | None \<Rightarrow> Some (pk, s))"
  have ih: "worst_ok now m xs w' (worst_stale now m xs w')" by (rule Cons.IH)
  have w': "w' = w \<and> (s = 0 \<or> \<not> m < sat_sub_w now s)
    \<or> s \<noteq> 0 \<and> m < sat_sub_w now s \<and> (w' = Some (pk, s) \<and> (\<forall>k0 s0. w = Some (k0, s0) \<longrightarrow> s \<le> s0)
        \<or> w' = w \<and> (\<exists>k0 s0. w = Some (k0, s0) \<and> s0 \<le> s))"
    by (auto simp: w'_def split: option.splits)
  show ?case
  proof (cases "worst_stale now m xs w'")
    case None
    then show ?thesis using ih w' by (auto simp: worst_ok_def step w'_def [symmetric] e)
  next
    case (Some r)
    obtain k t where r: "r = (k, t)" by fastforce
    have res: "worst_stale now m (e # xs) w = Some (k, t)" using Some by (simp only: step w'_def [symmetric] r)
    have "(w' = Some (k, t) \<or> ((k, t) \<in> set xs \<and> t \<noteq> 0 \<and> m < sat_sub_w now t))
        \<and> (\<forall>k' s'. w' = Some (k', s') \<longrightarrow> t \<le> s')
        \<and> (\<forall>k' s'. (k', s') \<in> set xs \<longrightarrow> s' \<noteq> 0 \<longrightarrow> m < sat_sub_w now s' \<longrightarrow> t \<le> s')"
      using ih unfolding worst_ok_def Some r by simp
    then have ih: "w' = Some (k, t) \<or> (k, t) \<in> set xs \<and> t \<noteq> 0 \<and> m < sat_sub_w now t"
      "\<And>k' s'. w' = Some (k', s') \<Longrightarrow> t \<le> s'"
      "\<And>k' s'. (k', s') \<in> set xs \<Longrightarrow> s' \<noteq> 0 \<Longrightarrow> m < sat_sub_w now s' \<Longrightarrow> t \<le> s'"
      by blast+
    consider "w' = w" "s = 0 \<or> \<not> m < sat_sub_w now s"
      | "s \<noteq> 0" "m < sat_sub_w now s" "w' = Some (pk, s)" "\<And>k0 s0. w = Some (k0, s0) \<Longrightarrow> s \<le> s0"
      | k0 s0 where "w' = w" "w = Some (k0, s0)" "s0 \<le> s"
      using w' by blast
    then show ?thesis
    proof cases
      case 1
      then show ?thesis using ih unfolding res worst_ok_def by (auto simp: e)
    next
      case 2
      have "t \<le> s" using ih(2) 2(3) by blast
      then show ?thesis using ih 2 order_trans [OF \<open>t \<le> s\<close>] unfolding res worst_ok_def by (auto simp: e)
    next
      case 3
      have "t \<le> s" using ih(2) 3 order_trans by blast
      then show ?thesis using ih 3(1) unfolding res worst_ok_def by (auto simp: e)
    qed
  qed
qed

definition keys_ok :: "(key \<times> u64) list \<Rightarrow> bool" where
  "keys_ok m \<longleftrightarrow> sorted_wrt (<) (map fst m)"

lemma set_btree_insert: "set (map fst (btree_insert k v m)) = insert k (set (map fst m))"
  by (induction k v m rule: btree_insert.induct) auto

lemma btree_insert_ok: "keys_ok m \<Longrightarrow> keys_ok (btree_insert k v m)"
proof (induction k v m rule: btree_insert.induct)
  case (2 k v k' v' m)
  have "set (map fst (btree_insert k v m)) = insert k (set (map fst m))" by (rule set_btree_insert)
  then show ?case using 2 by (fastforce simp: keys_ok_def)
qed (simp add: keys_ok_def)

lemma btree_insert_map: "keys_ok m \<Longrightarrow> map_of (btree_insert k v m) = (map_of m)(k \<mapsto> v)"
proof (induction k v m rule: btree_insert.induct)
  case (2 k v k' v' m)
  then show ?case by (auto simp: keys_ok_def fun_eq_iff dest: order.asym)
qed simp

lemma keys_ok_member: "keys_ok m \<Longrightarrow> (k, s) \<in> set m \<longleftrightarrow> map_of m k = Some s"
proof -
  assume "keys_ok m"
  then have "distinct (map fst m)" by (simp add: keys_ok_def strict_sorted_iff)
  then show ?thesis by (metis map_of_eq_Some_iff)
qed

definition guard_ok :: "guard_event list \<Rightarrow> u64 \<Rightarrow> staleness_guard \<Rightarrow> bool" where
  "guard_ok es m g \<longleftrightarrow> keys_ok (sg_last_seen g) \<and> sg_max_staleness_slots g = m \<and> sg_trip_count g = 0
    \<and> \<not> sg_tripped g \<and> sg_now_slot g = clock_after es 0
    \<and> (\<forall>k s. s \<noteq> 0 \<longrightarrow> map_of (sg_last_seen g) k = Some s \<longleftrightarrow> latest es Map.empty k = Some s)"

lemma latest_append: "latest (es @ es') m = latest es' (latest es m)"
proof (induction es arbitrary: m)
  case (Cons e es)
  then show ?case by (cases e) (simp_all del: fun_upd_apply)
qed simp

lemma clock_append: "clock_after (es @ es') now = clock_after es' (clock_after es now)"
proof (induction es arbitrary: now)
  case (Cons e es)
  then show ?case by (cases e) simp_all
qed simp

lemma check_inner_exact:
  assumes "guard_ok es m g"
  shows "\<exists>g'. check_inner g = Ok (stale_at m (clock_after es 0) (latest es Map.empty), g')
    \<and> (if stale_at m (clock_after es 0) (latest es Map.empty) then sg_tripped g' else g' = g)"
proof -
  let ?now = "clock_after es 0" and ?seen = "latest es Map.empty"
  have g: "keys_ok (sg_last_seen g)" "sg_max_staleness_slots g = m" "sg_trip_count g = 0" "\<not> sg_tripped g"
    "sg_now_slot g = ?now" "\<And>k s. s \<noteq> 0 \<Longrightarrow> (k, s) \<in> set (sg_last_seen g) \<longleftrightarrow> ?seen k = Some s"
    using assms by (auto simp: guard_ok_def keys_ok_member)
  define r where "r = worst_stale ?now m (sg_last_seen g) None"
  have w: "worst_ok ?now m (sg_last_seen g) None r" unfolding r_def by (rule worst_stale_spec)
  show ?thesis
  proof (cases "m = 0 \<or> ?now = 0")
    case True
    then show ?thesis using g by (auto simp: check_inner_def stale_at_def)
  next
    case False
    show ?thesis
    proof (cases r)
      case None
      then have "\<not> stale_at m ?now ?seen" using w g(6) by (auto simp: worst_ok_def stale_at_def)
      then show ?thesis using False None g by (simp add: check_inner_def r_def [symmetric])
    next
      case (Some e)
      obtain k s where e: "e = (k, s)" by fastforce
      then have "(k, s) \<in> set (sg_last_seen g)" "s \<noteq> 0" "m < sat_sub_w ?now s"
        using w Some by (auto simp: worst_ok_def)
      then have "stale_at m ?now ?seen" using False g(6) by (auto simp: stale_at_def)
      then show ?thesis
        using False Some e g by (simp add: check_inner_def r_def [symmetric] trip_def add_p_def)
    qed
  qed
qed

lemma guard_step_exact:
  assumes "guard_ok es m g"
  shows "\<exists>b g'. guard_step e g = Ok (b, g')
    \<and> (if (case e of Register k \<Rightarrow> False | _ \<Rightarrow> stale_at m (clock_after (es @ [e]) 0) (latest (es @ [e]) Map.empty))
       then sg_tripped g' else guard_ok (es @ [e]) m g')"
proof -
  have g: "keys_ok (sg_last_seen g)" "\<not> sg_tripped g" "sg_now_slot g = clock_after es 0"
    using assms by (auto simp: guard_ok_def)
  show ?thesis
  proof (cases e)
    case (Register k)
    have "latest es Map.empty k \<noteq> Some s" if "map_of (sg_last_seen g) k = None" "s \<noteq> 0" for s
      using assms that unfolding guard_ok_def by (metis option.distinct(1))
    then have "guard_ok (es @ [e]) m (guard_register k g)"
      using assms g by (auto simp: guard_ok_def guard_register_def Register latest_append clock_append
          btree_insert_ok btree_insert_map)
    then show ?thesis by (auto simp: Register)
  next
    case (Updated k slot)
    define g1 where "g1 = (if sg_now_slot g < slot then g\<lparr>sg_now_slot := slot\<rparr> else g)"
    define g2 where "g2 = g1\<lparr>sg_last_seen := btree_insert k slot (sg_last_seen g1)\<rparr>"
    have "guard_ok (es @ [e]) m g2"
      using assms g by (auto simp: guard_ok_def g2_def g1_def Updated latest_append clock_append
          btree_insert_ok btree_insert_map max_def not_less)
    from check_inner_exact [OF this] have "\<exists>b g'. check_inner g2 = Ok (b, g')
        \<and> (if stale_at m (clock_after (es @ [e]) 0) (latest (es @ [e]) Map.empty) then sg_tripped g' else g' = g2)"
      by blast
    then show ?thesis
      using g(2) \<open>guard_ok (es @ [e]) m g2\<close>
      by (auto simp: Updated guard_update_def Let_def g1_def [symmetric] g2_def [symmetric] split: if_splits)
  next
    case (SlotSeen slot)
    define g1 where "g1 = (if sg_now_slot g < slot then g\<lparr>sg_now_slot := slot\<rparr> else g)"
    have "guard_ok (es @ [e]) m g1"
      using assms g by (auto simp: guard_ok_def g1_def SlotSeen latest_append clock_append max_def not_less)
    from check_inner_exact [OF this] have "\<exists>b g'. check_inner g1 = Ok (b, g')
        \<and> (if stale_at m (clock_after (es @ [e]) 0) (latest (es @ [e]) Map.empty) then sg_tripped g' else g' = g1)"
      by blast
    then show ?thesis
      using g(2) \<open>guard_ok (es @ [e]) m g1\<close>
      by (auto simp: SlotSeen notify_slot_advance_def g1_def [symmetric] split: if_splits)
  qed
qed

lemma guard_step_sticky: "sg_tripped g \<Longrightarrow> \<exists>g'. guard_step e g = Ok (False, g') \<and> sg_tripped g'
    \<and> sg_tripped_for g' = sg_tripped_for g \<and> sg_trip_count g' = sg_trip_count g"
  by (cases e) (auto simp: guard_update_def notify_slot_advance_def guard_register_def)

lemma guard_run_sticky: "sg_tripped g \<Longrightarrow> \<exists>g'. guard_run es g = Ok g' \<and> sg_tripped g'"
proof (induction es arbitrary: g)
  case (Cons e es)
  then show ?case using guard_step_sticky [OF Cons.prems, of e] by auto
qed simp

lemma register_not_stale:
  assumes "\<not> stale_at m (clock_after es 0) (latest es Map.empty)"
  shows "\<not> stale_at m (clock_after (es @ [Register k]) 0) (latest (es @ [Register k]) Map.empty)"
  using assms by (simp add: latest_append clock_append)

lemma guard_run_exact:
  "guard_ok es0 m g \<Longrightarrow> \<not> stale_at m (clock_after es0 0) (latest es0 Map.empty) \<Longrightarrow>
    \<exists>g'. guard_run es g = Ok g' \<and> (sg_tripped g' \<longleftrightarrow>
      (\<exists>n \<le> length es. stale_at m (clock_after (es0 @ take n es) 0) (latest (es0 @ take n es) Map.empty)))"
proof (induction es arbitrary: es0 g)
  case Nil
  then show ?case by (auto simp: guard_ok_def)
next
  case (Cons e es)
  let ?stale = "\<lambda>es. stale_at m (clock_after es 0) (latest es Map.empty)"
  obtain b g1 where st: "guard_step e g = Ok (b, g1)"
    "if (case e of Register k \<Rightarrow> False | _ \<Rightarrow> ?stale (es0 @ [e])) then sg_tripped g1 else guard_ok (es0 @ [e]) m g1"
    using guard_step_exact [OF Cons.prems(1), of e] by blast
  have split: "(\<exists>n \<le> length (e # es). ?stale (es0 @ take n (e # es)))
      \<longleftrightarrow> (\<exists>n \<le> length es. ?stale ((es0 @ [e]) @ take n es))" (is "?L \<longleftrightarrow> ?R")
  proof
    assume ?L
    then obtain n where n: "n \<le> length (e # es)" "?stale (es0 @ take n (e # es))" by blast
    then obtain k where "n = Suc k" using Cons.prems(2) by (cases n) auto
    then show ?R using n by (intro exI [of _ k]) simp
  next
    assume ?R
    then obtain n where "n \<le> length es" "?stale ((es0 @ [e]) @ take n es)" by blast
    then show ?L by (intro exI [of _ "Suc n"]) simp
  qed
  show ?case
  proof (cases "?stale (es0 @ [e])")
    case True
    then have "sg_tripped g1" using st(2) register_not_stale [OF Cons.prems(2)] by (cases e) auto
    then obtain g' where "guard_run es g1 = Ok g'" "sg_tripped g'" using guard_run_sticky by blast
    moreover have "\<exists>n \<le> length es. ?stale ((es0 @ [e]) @ take n es)" using True by (intro exI [of _ 0]) simp
    ultimately show ?thesis using st(1) unfolding split by simp
  next
    case False
    then have "guard_ok (es0 @ [e]) m g1" using st(2) by (cases e) auto
    from Cons.IH [OF this False] show ?thesis unfolding split by (simp add: st(1))
  qed
qed

lemma goes_stale_iff:
  "goes_stale m es \<longleftrightarrow> (\<exists>n \<le> length es. stale_at m (clock_after (take n es) 0) (latest (take n es) Map.empty))"
  by (auto simp: goes_stale_def list_ex_iff less_Suc_eq_le simp del: upt_Suc)

text \<open>C11. The guard halts the feed exactly when a pool goes stale. Over any run of registrations, updates
  and slots, no step panics, and the guard is tripped at the end exactly when after some of the events an account
  that has been updated at a slot other than 0 was last updated more than the maximum before the latest slot; it stays tripped
  after that. Accounts that were never updated do not count, so a feed whose accounts are
  all silent is never halted.\<close>

theorem guard_halts_exactly:
  "\<exists>g. guard_run es (guard_new m) = Ok g \<and> (sg_tripped g \<longleftrightarrow> goes_stale m es)"
proof -
  have "guard_ok [] m (guard_new m)" by (simp add: guard_ok_def guard_new_def keys_ok_def)
  moreover have "\<not> stale_at m (clock_after [] 0) (latest [] Map.empty)" by (simp add: stale_at_def)
  ultimately show ?thesis
    using guard_run_exact [of "[]" m "guard_new m" es] by (simp add: goes_stale_iff)
qed

lemma silent_pools_never_halt:
  assumes "list_all (\<lambda>e. case e of Updated k slot \<Rightarrow> False | _ \<Rightarrow> True) es"
  shows "\<exists>g. guard_run es (guard_new m) = Ok g \<and> \<not> sg_tripped g"
proof -
  have "latest es' Map.empty = Map.empty"
    if "list_all (\<lambda>e. case e of Updated k slot \<Rightarrow> False | _ \<Rightarrow> True) es'" for es'
    using that by (induction es') (auto split: guard_event.splits)
  moreover have "list_all (\<lambda>e. case e of Updated k slot \<Rightarrow> False | _ \<Rightarrow> True) (take n es)" for n
    using assms by (auto simp: list_all_iff dest: in_set_takeD)
  ultimately have "\<not> stale_at m (clock_after (take n es) 0) (latest (take n es) Map.empty)" for n
    by (simp add: stale_at_def)
  moreover have "guard_ok [] m (guard_new m)" by (simp add: guard_ok_def guard_new_def keys_ok_def)
  ultimately show ?thesis
    using guard_run_exact [of "[]" m "guard_new m" es] by (auto simp: stale_at_def)
qed

end
