(* ===== verification/Capture.thy ===== *)
theory Capture
  imports Framing Clock
begin

text \<open>
  The feed events of \<^verbatim>\<open>crates/dl-core/src/feed.rs\<close>, the capture files of
  \<^verbatim>\<open>crates/dl-feed/src/capture.rs\<close> and the recording tee of \<^verbatim>\<open>crates/dl-feed/src/capturing.rs\<close>.
\<close>

section \<open>Feeds\<close>

datatype pool_extras_wire =
    WireRaydium
  | WireWhirlpool (ws_sqrt_price: u128)
  | WireDlmm (ws_bin_step: u16) (ws_active_id: i32) (ws_bin_amount_x: "u64 list") (ws_bin_amount_y: "u64 list")
      (ws_bin_price: "u128 list")

datatype feed_event =
    SlotEvent slot
  | AccountUpdate slot "u8 list" "u8 list"
  | PoolEvent slot u8 "u8 list" "u8 list" "u8 list" u16 u64 u64 pool_extras_wire slot
  | StalePoolHalt slot "u8 list" u64

primrec event_slot :: "feed_event \<Rightarrow> slot" where
  "event_slot (SlotEvent s) = s"
| "event_slot (AccountUpdate s pk d) = s"
| "event_slot (PoolEvent s amm pk bm qm fee br qr ex last_update) = s"
| "event_slot (StalePoolHalt last_seen pk st) = last_seen"

record scripted_feed =
  sf_events :: "feed_event list"
  sf_cursor :: nat

definition scripted_new :: "feed_event list \<Rightarrow> scripted_feed" where
  "scripted_new events = \<lparr>sf_events = events, sf_cursor = 0\<rparr>"

definition scripted_remaining :: "scripted_feed \<Rightarrow> nat" where
  "scripted_remaining f = length (sf_events f) - sf_cursor f"

definition scripted_next :: "scripted_feed \<Rightarrow> feed_event option \<times> scripted_feed" where
  "scripted_next f =
    (if sf_cursor f < length (sf_events f)
     then (Some (sf_events f ! sf_cursor f), f\<lparr>sf_cursor := sf_cursor f + 1\<rparr>) else (None, f))"

section \<open>Writing a capture\<close>

datatype feed_error =
    FeedIo io_error
  | FeedBincode
  | FeedSchemaMismatch u32 u32
  | FeedTruncated u64
  | FeedBadMagic

definition CAPTURE_MAGIC :: "u8 list" where
  "CAPTURE_MAGIC = bytes_of ''DLF-CAP1''"

definition CAPTURE_SCHEMA_VERSION :: u32 where
  "CAPTURE_SCHEMA_VERSION = 1"

record capture_writer =
  cw_sink :: sink
  cw_frames_written :: u64

definition capture_writer_new :: "sink \<Rightarrow> (capture_writer, feed_error) res \<times> sink" where
  "capture_writer_new k0 =
    (case write_all CAPTURE_MAGIC k0 of (r1, k1) \<Rightarrow>
       (case map_err FeedIo r1 of
          Ok _ \<Rightarrow> (case write_all (u32_to_le CAPTURE_SCHEMA_VERSION) k1 of (r2, k2) \<Rightarrow>
            (bind_res (map_err FeedIo r2) (\<lambda>_. Ok \<lparr>cw_sink = k2, cw_frames_written = 0\<rparr>), k2))
        | Err e \<Rightarrow> (Err e, k1)
        | Panic \<Rightarrow> (Panic, k1)))"

definition write_event ::
    "(feed_event \<Rightarrow> u8 list option) \<Rightarrow> feed_event \<Rightarrow> capture_writer \<Rightarrow> (unit, feed_error) res \<times> capture_writer" where
  "write_event ser ev w =
    (case ser ev of
       None \<Rightarrow> (Err FeedBincode, w)
     | Some payload \<Rightarrow>
         if 2 ^ 32 \<le> length payload then (Err (FeedTruncated (cw_frames_written w)), w)
         else (case write_all (u32_to_le (of_nat (length payload))) (cw_sink w) of
             (Ok _, k1) \<Rightarrow> (case write_all payload k1 of
                 (Ok _, k2) \<Rightarrow> (case add_p (cw_frames_written w) 1 of
                     Ok n \<Rightarrow> (Ok (), w\<lparr>cw_sink := k2, cw_frames_written := n\<rparr>)
                   | Err e \<Rightarrow> (Err e, w\<lparr>cw_sink := k2\<rparr>)
                   | Panic \<Rightarrow> (Panic, w\<lparr>cw_sink := k2\<rparr>))
               | (Err e, k2) \<Rightarrow> (Err (FeedIo e), w\<lparr>cw_sink := k2\<rparr>)
               | (Panic, k2) \<Rightarrow> (Panic, w\<lparr>cw_sink := k2\<rparr>))
           | (Err e, k1) \<Rightarrow> (Err (FeedIo e), w\<lparr>cw_sink := k1\<rparr>)
           | (Panic, k1) \<Rightarrow> (Panic, w\<lparr>cw_sink := k1\<rparr>)))"

section \<open>Replaying a capture\<close>

record captured_feed =
  cf_source :: source
  cf_pending :: "u8 list"
  cf_exhausted :: bool
  cf_events_returned :: u64

definition capture_open :: "source \<Rightarrow> (captured_feed, feed_error) res" where
  "capture_open s0 =
    (case read_exact 8 s0 of (r1, s1) \<Rightarrow> bind_res (map_err FeedIo r1) (\<lambda>magic.
       if magic \<noteq> CAPTURE_MAGIC then Err FeedBadMagic
       else (case read_exact 4 s1 of (r2, s2) \<Rightarrow> bind_res (map_err FeedIo r2) (\<lambda>schema_bytes.
         let file_schema = u32_from_le schema_bytes in
         if file_schema \<noteq> CAPTURE_SCHEMA_VERSION
         then Err (FeedSchemaMismatch file_schema CAPTURE_SCHEMA_VERSION)
         else Ok \<lparr>cf_source = s2, cf_pending = [], cf_exhausted = False, cf_events_returned = 0\<rparr>))))"

text \<open>The loop of \<^verbatim>\<open>next_event\<close>: take a complete frame from the buffer, or read up to 4096 more bytes.\<close>

function next_event_loop ::
    "(u8 list \<Rightarrow> feed_event option) \<Rightarrow> captured_feed \<Rightarrow> (feed_event option, unit) res \<times> captured_feed" where
  "next_event_loop de f =
    (let pending = cf_pending f; len = unat (u32_from_le (take 4 pending)) in
     if 4 \<le> length pending \<and> 4 + len \<le> length pending then
       (let payload = drop 4 (take (4 + len) pending); f1 = f\<lparr>cf_pending := drop (4 + len) pending\<rparr> in
        case de payload of
          Some ev \<Rightarrow> (case add_p (cf_events_returned f1) 1 of
              Ok n \<Rightarrow> (Ok (Some ev), f1\<lparr>cf_events_returned := n\<rparr>)
            | Err e \<Rightarrow> (Err e, f1)
            | Panic \<Rightarrow> (Panic, f1))
        | None \<Rightarrow> (Ok None, f1\<lparr>cf_exhausted := True\<rparr>))
     else (case read_once 4096 (cf_source f) of
         (Ok chunk, s1) \<Rightarrow>
           (if chunk = [] then (Ok None, f\<lparr>cf_source := s1, cf_exhausted := True\<rparr>)
            else next_event_loop de (f\<lparr>cf_source := s1, cf_pending := pending @ chunk\<rparr>))
       | (Err e, s1) \<Rightarrow> (Ok None, f\<lparr>cf_source := s1, cf_exhausted := True\<rparr>)
       | (Panic, s1) \<Rightarrow> (Panic, f\<lparr>cf_source := s1\<rparr>)))"
  by pat_completeness auto
termination
  by (relation "measure (\<lambda>(de, f). source_size (cf_source f))") (auto dest: read_once_less [OF sym])

declare next_event_loop.simps [simp del]

definition captured_next ::
    "(u8 list \<Rightarrow> feed_event option) \<Rightarrow> captured_feed \<Rightarrow> (feed_event option, unit) res \<times> captured_feed" where
  "captured_next de f = (if cf_exhausted f then (Ok None, f) else next_event_loop de f)"

definition feed_bytes :: "captured_feed \<Rightarrow> nat" where
  "feed_bytes f = length (cf_pending f) + source_size (cf_source f)"

lemma next_event_loop_bytes:
  "next_event_loop de f = (r, f') \<Longrightarrow>
    feed_bytes f' \<le> feed_bytes f \<and> (\<forall>ev. r = Ok (Some ev) \<longrightarrow> feed_bytes f' < feed_bytes f)"
proof (induction de f arbitrary: r f' rule: next_event_loop.induct)
  case (1 de f)
  define len where "len = unat (u32_from_le (take 4 (cf_pending f)))"
  show ?case
  proof (cases "4 \<le> length (cf_pending f) \<and> 4 + len \<le> length (cf_pending f)")
    case True
    then show ?thesis
      using "1.prems" by (subst (asm) next_event_loop.simps)
        (auto simp: Let_def len_def [symmetric] feed_bytes_def split: option.splits res.splits)
  next
    case False
    obtain c s1 where ro: "read_once 4096 (cf_source f) = (c, s1)" by fastforce
    note size = read_once_size [OF ro]
    show ?thesis
    proof (cases "\<exists>bs. c = Ok bs \<and> bs \<noteq> []")
      case True
      then obtain bs where bs: "c = Ok bs" "bs \<noteq> []" by blast
      let ?f = "f\<lparr>cf_source := s1, cf_pending := cf_pending f @ bs\<rparr>"
      have "next_event_loop de ?f = (r, f')"
        using "1.prems" False ro bs by (subst (asm) next_event_loop.simps) (auto simp: Let_def len_def)
      moreover have "feed_bytes ?f \<le> feed_bytes f" using size bs by (simp add: feed_bytes_def)
      ultimately show ?thesis
        using "1.IH" [OF refl refl _ ro [symmetric] bs] False by (force simp: len_def)
    next
      case F: False
      then show ?thesis
        using "1.prems" False ro size by (subst (asm) next_event_loop.simps)
          (auto simp: Let_def len_def feed_bytes_def split: res.splits if_splits)
    qed
  qed
qed

text \<open>A consumer pulls events until there is none.\<close>

function capture_replay ::
    "(u8 list \<Rightarrow> feed_event option) \<Rightarrow> captured_feed \<Rightarrow> feed_event list \<times> (unit, unit) res" where
  "capture_replay de f =
    (case captured_next de f of
       (Ok (Some ev), f') \<Rightarrow> (case capture_replay de f' of (evs, r) \<Rightarrow> (ev # evs, r))
     | (Ok None, f') \<Rightarrow> ([], Ok ())
     | (Err e, f') \<Rightarrow> ([], Err e)
     | (Panic, f') \<Rightarrow> ([], Panic))"
  by pat_completeness auto
termination
  by (relation "measure (\<lambda>(de, f). feed_bytes f)")
    (auto simp: captured_next_def split: if_splits dest!: next_event_loop_bytes [OF sym])

declare capture_replay.simps [simp del]

section \<open>The tee\<close>

record 'f capturing_feed =
  tee_inner :: 'f
  tee_writer :: capture_writer
  tee_write_failures :: u64

definition capturing_new :: "'f \<Rightarrow> sink \<Rightarrow> ('f capturing_feed, feed_error) res" where
  "capturing_new inner k =
    bind_res (fst (capture_writer_new k)) (\<lambda>w.
      Ok \<lparr>tee_inner = inner, tee_writer = w, tee_write_failures = 0\<rparr>)"

definition capturing_next ::
    "('f \<Rightarrow> feed_event option \<times> 'f) \<Rightarrow> (feed_event \<Rightarrow> u8 list option) \<Rightarrow> 'f capturing_feed \<Rightarrow>
      (feed_event option, unit) res \<times> 'f capturing_feed" where
  "capturing_next inner_next ser t =
    (case inner_next (tee_inner t) of
       (None, inner') \<Rightarrow> (Ok None, t\<lparr>tee_inner := inner'\<rparr>)
     | (Some ev, inner') \<Rightarrow>
         (case write_event ser ev (tee_writer t) of
            (Ok _, w) \<Rightarrow> (Ok (Some ev), t\<lparr>tee_inner := inner', tee_writer := w\<rparr>)
          | (Err e, w) \<Rightarrow> (case add_p (tee_write_failures t) 1 of
                Ok n \<Rightarrow> (Ok (Some ev), t\<lparr>tee_inner := inner', tee_writer := w, tee_write_failures := n\<rparr>)
              | Err e' \<Rightarrow> (Err e', t\<lparr>tee_inner := inner', tee_writer := w\<rparr>)
              | Panic \<Rightarrow> (Panic, t\<lparr>tee_inner := inner', tee_writer := w\<rparr>))
          | (Panic, w) \<Rightarrow> (Panic, t\<lparr>tee_inner := inner', tee_writer := w\<rparr>)))"

fun tee_pull ::
    "('f \<Rightarrow> feed_event option \<times> 'f) \<Rightarrow> (feed_event \<Rightarrow> u8 list option) \<Rightarrow> nat \<Rightarrow> 'f capturing_feed \<Rightarrow>
      feed_event option list \<times> 'f capturing_feed" where
  "tee_pull inner_next ser 0 t = ([], t)"
| "tee_pull inner_next ser (Suc n) t =
    (case capturing_next inner_next ser t of
       (Ok ev, t') \<Rightarrow> (case tee_pull inner_next ser n t' of (evs, t'') \<Rightarrow> (ev # evs, t''))
     | (_, t') \<Rightarrow> ([], t'))"

section \<open>The reader refines the abstract reading\<close>

lemma next_event_loop_sound:
  "sound (cf_source f) \<Longrightarrow> unat (cf_events_returned f) + 1 < 2 ^ 64 \<Longrightarrow>
    (case take_frame de (cf_pending f @ flat (cf_source f)) of
       Frame ev rest \<Rightarrow> (\<exists>f'. next_event_loop de f = (Ok (Some ev), f') \<and> sound (cf_source f')
         \<and> cf_pending f' @ flat (cf_source f') = rest \<and> cf_exhausted f' = cf_exhausted f
         \<and> unat (cf_events_returned f') = unat (cf_events_returned f) + 1)
     | _ \<Rightarrow> (\<exists>f'. next_event_loop de f = (Ok None, f')))"
proof (induction de f rule: next_event_loop.induct)
  case (1 de f)
  let ?p = "cf_pending f" and ?n = "cf_events_returned f"
  define len where "len = unat (u32_from_le (take 4 ?p))"
  have add: "add_p ?n 1 = (Ok (?n + 1) :: (_, unit) res)" "unat (?n + 1) = unat ?n + 1"
    using "1.prems"(2) by (simp_all add: add_p_def unat_add_no_wrap)
  then have add': "unat (1 + ?n) = unat ?n + 1" by (simp only: add.commute [of 1])
  show ?case
  proof (cases "4 \<le> length ?p \<and> 4 + len \<le> length ?p")
    case True
    define payload where "payload = take len (drop 4 ?p)"
    have pay: "drop 4 (take (4 + len) ?p) = payload" by (simp add: payload_def drop_take)
    have ne: "?p \<noteq> []" using True by auto
    have dr: "drop (4 + len) (?p @ q) = drop (4 + len) ?p @ q" "drop 4 (?p @ q) = drop 4 ?p @ q"
      "take len (drop 4 ?p @ q) = take len (drop 4 ?p)" for q :: "u8 list" using True by simp_all
    have tf: "take_frame de (?p @ flat (cf_source f)) =
        (case de payload of None \<Rightarrow> BadFrame | Some ev \<Rightarrow> Frame ev (drop (4 + len) ?p @ flat (cf_source f)))"
      using True ne by (simp add: take_frame_def Let_def len_def [symmetric] payload_def dr del: drop_append split: option.split)
    show ?thesis
    proof (cases "de payload")
      case None
      then show ?thesis
        unfolding tf by (subst next_event_loop.simps) (simp add: Let_def len_def [symmetric] True pay)
    next
      case (Some ev)
      then show ?thesis
        unfolding tf using "1.prems"
        by (subst next_event_loop.simps) (simp add: Let_def len_def [symmetric] True pay add add')
    qed
  next
    case False
    obtain bs s1 where ro: "read_once 4096 (cf_source f) = (Ok bs, s1)" "sound s1"
      "flat (cf_source f) = bs @ flat s1" "bs = [] \<longrightarrow> cf_source f = []"
      using read_once_sound [OF "1.prems"(1), of 4096] by auto
    show ?thesis
    proof (cases "bs = []")
      case True
      then have src: "cf_source f = []" using ro(4) by simp
      have "next_event_loop de f = (Ok None, f\<lparr>cf_source := [], cf_exhausted := True\<rparr>)"
        using False by (subst next_event_loop.simps) (auto simp: Let_def len_def src)
      moreover have "take_frame de ?p \<in> {NoFrame, CutFrame}"
        using False by (auto simp: take_frame_def Let_def len_def)
      ultimately show ?thesis by (auto simp: src)
    next
      case bs: False
      let ?f = "f\<lparr>cf_source := s1, cf_pending := ?p @ bs\<rparr>"
      have "next_event_loop de f = next_event_loop de ?f"
        using False ro(1) bs by (subst next_event_loop.simps) (auto simp: Let_def len_def)
      then show ?thesis
        using "1.IH" [OF refl refl _ ro(1) [symmetric] refl bs] False ro(2,3) "1.prems"(2) by (simp add: len_def split: frame_step.splits)
    qed
  qed
qed

lemma capture_replay_frames:
  "sound (cf_source f) \<Longrightarrow> \<not> cf_exhausted f \<Longrightarrow>
    unat (cf_events_returned f) + length (cf_pending f @ flat (cf_source f)) < 2 ^ 64 - 1 \<Longrightarrow>
    bs = cf_pending f @ flat (cf_source f) \<Longrightarrow> capture_replay de f = (fst (frames_of de bs), Ok ())"
proof (induction de bs arbitrary: f rule: frames_of.induct)
  case (1 de bs)
  have ex: "captured_next de f = next_event_loop de f" using "1.prems"(2) by (simp add: captured_next_def)
  have "unat (cf_events_returned f) + 1 < 2 ^ 64" using "1.prems"(3) by linarith
  note step = next_event_loop_sound [OF "1.prems"(1) this, of de, folded "1.prems"(4)]
  show ?case
  proof (cases "take_frame de bs")
    case (Frame ev rest)
    then obtain f' where f': "next_event_loop de f = (Ok (Some ev), f')" "sound (cf_source f')"
      "rest = cf_pending f' @ flat (cf_source f')" "\<not> cf_exhausted f'"
      "unat (cf_events_returned f') = unat (cf_events_returned f) + 1" using step "1.prems"(2) by auto
    have "unat (cf_events_returned f') + length (cf_pending f' @ flat (cf_source f')) < 2 ^ 64 - 1"
      using take_frame_shorter [OF Frame] "1.prems"(3) unfolding f'(3,5) "1.prems"(4) by linarith
    from "1.IH" [OF Frame f'(2,4) this f'(3)] show ?thesis
      by (subst capture_replay.simps, subst frames_of.simps) (simp add: ex f'(1) Frame split: prod.split)
  qed (use step in \<open>auto simp: capture_replay.simps [of de f] frames_of.simps [of de bs] ex\<close>)
qed

definition capture_load ::
    "(u8 list \<Rightarrow> feed_event option) \<Rightarrow> source \<Rightarrow> (feed_event list \<times> (unit, unit) res, feed_error) res" where
  "capture_load de s = bind_res (capture_open s) (\<lambda>f. Ok (capture_replay de f))"

definition capture_header :: "u8 list" where
  "capture_header = CAPTURE_MAGIC @ u32_to_le CAPTURE_SCHEMA_VERSION"

lemma length_capture_magic [simp]: "length CAPTURE_MAGIC = 8"
  by (simp add: CAPTURE_MAGIC_def bytes_of_def)

lemma length_capture_header [simp]: "length capture_header = 12"
  by (simp add: capture_header_def)

lemma capture_load_frames:
  assumes "sound s" and "flat s = capture_header @ body" and "length body < 2 ^ 64 - 1"
  shows "capture_load de s = Ok (fst (frames_of de body), Ok ())"
proof -
  have "8 \<le> length (flat s)" by (simp add: assms(2))
  then obtain s1 where s1: "sound s1" "read_exact 8 s = (Ok (take 8 (flat s)), s1)" "flat s1 = drop 8 (flat s)"
    using read_exact_sound [OF assms(1), of 8] by auto
  have "take 8 (flat s) = CAPTURE_MAGIC" "flat s1 = u32_to_le CAPTURE_SCHEMA_VERSION @ body"
    unfolding s1(3) assms(2) capture_header_def by simp_all
  note s1 = s1(1) s1(2) [unfolded this(1)] this(2)
  have "4 \<le> length (flat s1)" by (simp add: s1(3))
  then obtain s2 where s2: "sound s2" "read_exact 4 s1 = (Ok (take 4 (flat s1)), s2)" "flat s2 = drop 4 (flat s1)"
    using read_exact_sound [OF s1(1), of 4] by auto
  have s2': "take 4 (flat s1) = u32_to_le CAPTURE_SCHEMA_VERSION" "flat s2 = body"
    unfolding s2(3) s1(3) by simp_all
  define f0 where "f0 = \<lparr>cf_source = s2, cf_pending = [], cf_exhausted = False, cf_events_returned = 0\<rparr>"
  have "capture_open s = Ok f0"
    using s2(2) s2'(1) by (simp add: capture_open_def s1(2) f0_def)
  moreover have "capture_replay de f0 = (fst (frames_of de body), Ok ())"
    by (rule capture_replay_frames) (use assms(3) in \<open>simp_all add: f0_def s2(1) s2'(2)\<close>)
  ultimately show ?thesis by (simp add: capture_load_def)
qed

section \<open>Properties\<close>

text \<open>The contract of a reader of records, for a file that arrives in pieces of any size.\<close>

definition capture_parse :: "nat \<Rightarrow> (u8 list \<Rightarrow> feed_event option) \<Rightarrow> u8 list \<Rightarrow> feed_event list \<times> (unit, unit) res" where
  "capture_parse k de bs = capture_replay de
    \<lparr>cf_source = chop k bs, cf_pending = [], cf_exhausted = False, cf_events_returned = 0\<rparr>"

lemma capture_parse_frames:
  "length bs < 2 ^ 64 - 1 \<Longrightarrow> capture_parse k de bs = (fst (frames_of de bs), Ok ())"
  unfolding capture_parse_def by (rule capture_replay_frames) simp_all

lemma max_payload: "(2 ^ 32 - 1 :: nat) < 2 ^ 32"
  by simp

interpretation capture: record_stream "codec_ok ser de (2 ^ 32 - 1)" "written_as ser" "capture_parse k de"
  "Ok ()" "Ok ()" "2 ^ 64 - 1"
  for ser de k
proof
  show "capture_parse k de [] = ([], Ok ())" by (simp add: capture_parse_frames)
next
  fix x rest assume "codec_ok ser de (2 ^ 32 - 1) x" "length (written_as ser x @ rest) < 2 ^ 64 - 1"
  then show "capture_parse k de (written_as ser x @ rest) = (x # fst (capture_parse k de rest), snd (capture_parse k de rest))"
    by (simp add: capture_parse_frames frames_of_written [OF _ max_payload])
next
  fix x p assume "codec_ok ser de (2 ^ 32 - 1) x" "length p < 2 ^ 64 - 1" "strict_prefix p (written_as ser x)" "p \<noteq> []"
  then show "capture_parse k de p = ([], Ok ())"
    by (simp add: capture_parse_frames frames_of_cut [OF _ max_payload])
qed

lemma write_event_run:
  assumes "codec_ok ser de (2 ^ 32 - 1) ev" and "unat (cw_frames_written w) + 1 < 2 ^ 64"
  shows "\<exists>w'. write_event ser ev w =
      (if length (written_as ser ev) \<le> sk_room (cw_sink w) then Ok () else Err (FeedIo NoSpace), w')
    \<and> cw_sink w' = \<lparr>sk_bytes = sk_bytes (cw_sink w) @ take (sk_room (cw_sink w)) (written_as ser ev),
        sk_room = sk_room (cw_sink w) - length (written_as ser ev)\<rparr>
    \<and> unat (cw_frames_written w') = unat (cw_frames_written w)
        + (if length (written_as ser ev) \<le> sk_room (cw_sink w) then 1 else 0)"
proof -
  obtain bs where bs: "ser ev = Some bs" "length bs < 2 ^ 32" "written_as ser ev = frame bs"
    using codec_okD [OF assms(1) max_payload] by blast
  define lb where "lb = u32_to_le (of_nat (length bs))"
  have lb: "length lb = 4" by (simp add: lb_def)
  let ?n = "cw_frames_written w" and ?room = "sk_room (cw_sink w)"
  have n: "add_p ?n 1 = (Ok (?n + 1) :: (_, feed_error) res)" "unat (?n + 1) = unat ?n + 1"
    using assms(2) by (simp_all add: add_p_def unat_add_no_wrap)
  then have n': "unat (1 + ?n) = unat ?n + 1" by (simp only: add.commute [of 1])
  have wa: "write_all b k = (if length b \<le> sk_room k then Ok () else Err NoSpace,
      \<lparr>sk_bytes = sk_bytes k @ take (sk_room k) b, sk_room = sk_room k - length b\<rparr>)" for b k
    by (simp add: write_all_def)
  consider "4 + length bs \<le> ?room" | "4 \<le> ?room" "?room < 4 + length bs" | "?room < 4" by linarith
  then show ?thesis
    by cases (use bs(2) in \<open>auto simp: write_event_def bs(1) wa n n' bs(3) frame_def lb_def [symmetric] lb\<close>)
qed

lemma tee_step:
  assumes "codec_ok ser de (2 ^ 32 - 1) ev" and "inner_next (tee_inner t) = (Some ev, inner')"
    and "unat (cw_frames_written (tee_writer t)) + 1 < 2 ^ 64" and "unat (tee_write_failures t) + 1 < 2 ^ 64"
  defines "room \<equiv> sk_room (cw_sink (tee_writer t))" and "fr \<equiv> written_as ser ev"
  shows "\<exists>t'. capturing_next inner_next ser t = (Ok (Some ev), t') \<and> tee_inner t' = inner'
    \<and> cw_sink (tee_writer t') = \<lparr>sk_bytes = sk_bytes (cw_sink (tee_writer t)) @ take room fr, sk_room = room - length fr\<rparr>
    \<and> unat (cw_frames_written (tee_writer t')) = unat (cw_frames_written (tee_writer t)) + (if length fr \<le> room then 1 else 0)
    \<and> unat (tee_write_failures t') = unat (tee_write_failures t) + (if length fr \<le> room then 0 else 1)"
proof -
  let ?m = "tee_write_failures t"
  have m: "add_p ?m 1 = (Ok (?m + 1) :: (_, unit) res)" "unat (?m + 1) = unat ?m + 1"
    using assms(4) by (simp_all add: add_p_def unat_add_no_wrap)
  then have m': "unat (1 + ?m) = unat ?m + 1" by (simp only: add.commute [of 1])
  obtain w' where w': "write_event ser ev (tee_writer t) =
      (if length fr \<le> room then Ok () else Err (FeedIo NoSpace), w')"
    "cw_sink w' = \<lparr>sk_bytes = sk_bytes (cw_sink (tee_writer t)) @ take room fr, sk_room = room - length fr\<rparr>"
    "unat (cw_frames_written w') = unat (cw_frames_written (tee_writer t)) + (if length fr \<le> room then 1 else 0)"
    using write_event_run [OF assms(1,3)] unfolding room_def fr_def by blast
  show ?thesis
    using w' by (auto simp: capturing_next_def assms(2) m m')
qed

lemma tee_pull_run:
  "list_all (codec_ok ser de (2 ^ 32 - 1)) evs \<Longrightarrow>
    sf_cursor (tee_inner t) \<le> length (sf_events (tee_inner t)) \<Longrightarrow>
    evs = drop (sf_cursor (tee_inner t)) (sf_events (tee_inner t)) \<Longrightarrow>
    unat (cw_frames_written (tee_writer t)) + length evs < 2 ^ 64 \<Longrightarrow>
    unat (tee_write_failures t) + length evs < 2 ^ 64 \<Longrightarrow>
    \<exists>t' k. tee_pull scripted_next ser (length evs) t = (map Some evs, t') \<and> k \<le> length evs
      \<and> sk_bytes (cw_sink (tee_writer t')) = sk_bytes (cw_sink (tee_writer t))
          @ take (sk_room (cw_sink (tee_writer t))) (capture.contents ser evs)
      \<and> unat (cw_frames_written (tee_writer t')) = unat (cw_frames_written (tee_writer t)) + k
      \<and> unat (tee_write_failures t') = unat (tee_write_failures t) + (length evs - k)
      \<and> length (capture.contents ser (take k evs)) \<le> sk_room (cw_sink (tee_writer t))
      \<and> (k < length evs \<longrightarrow> sk_room (cw_sink (tee_writer t)) < length (capture.contents ser (take (Suc k) evs)))"
proof (induction evs arbitrary: t)
  case (Cons ev evs)
  let ?c = "sf_cursor (tee_inner t)" and ?room = "sk_room (cw_sink (tee_writer t))"
  have "?c < length (sf_events (tee_inner t))" using Cons.prems(2,3) by (cases "?c = length (sf_events (tee_inner t))") auto
  then have inner: "scripted_next (tee_inner t) = (Some ev, (tee_inner t)\<lparr>sf_cursor := ?c + 1\<rparr>)"
    and rest: "evs = drop (?c + 1) (sf_events (tee_inner t))"
    using Cons.prems(3) by (simp_all add: scripted_next_def Cons_nth_drop_Suc [symmetric])
  have pos: "4 \<le> length (written_as ser ev)"
    using codec_okD [OF _ max_payload, of ser de ev] Cons.prems(1) by (auto simp: frame_def)
  have ok: "codec_ok ser de (2 ^ 32 - 1) ev" "list_all (codec_ok ser de (2 ^ 32 - 1)) evs"
    and b: "unat (cw_frames_written (tee_writer t)) + 1 < 2 ^ 64" "unat (tee_write_failures t) + 1 < 2 ^ 64"
    using Cons.prems(1,4,5) by simp_all
  obtain t1 where t1: "capturing_next scripted_next ser t = (Ok (Some ev), t1)"
    "tee_inner t1 = (tee_inner t)\<lparr>sf_cursor := ?c + 1\<rparr>"
    "cw_sink (tee_writer t1) = \<lparr>sk_bytes = sk_bytes (cw_sink (tee_writer t)) @ take ?room (written_as ser ev),
      sk_room = ?room - length (written_as ser ev)\<rparr>"
    "unat (cw_frames_written (tee_writer t1)) = unat (cw_frames_written (tee_writer t))
      + (if length (written_as ser ev) \<le> ?room then 1 else 0)"
    "unat (tee_write_failures t1) = unat (tee_write_failures t) + (if length (written_as ser ev) \<le> ?room then 0 else 1)"
    using tee_step [where inner_next = scripted_next, OF ok(1) inner b] by blast
  have ih: "sf_cursor (tee_inner t1) \<le> length (sf_events (tee_inner t1))"
    "evs = drop (sf_cursor (tee_inner t1)) (sf_events (tee_inner t1))"
    using \<open>?c < _\<close> rest by (simp_all add: t1(2))
  have ih2: "unat (cw_frames_written (tee_writer t1)) + length evs < 2 ^ 64"
    "unat (tee_write_failures t1) + length evs < 2 ^ 64"
    using Cons.prems(4,5) by (simp_all add: t1(4,5))
  obtain t2 k where t2: "tee_pull scripted_next ser (length evs) t1 = (map Some evs, t2)" "k \<le> length evs"
    "sk_bytes (cw_sink (tee_writer t2)) = sk_bytes (cw_sink (tee_writer t1))
      @ take (sk_room (cw_sink (tee_writer t1))) (capture.contents ser evs)"
    "unat (cw_frames_written (tee_writer t2)) = unat (cw_frames_written (tee_writer t1)) + k"
    "unat (tee_write_failures t2) = unat (tee_write_failures t1) + (length evs - k)"
    "length (capture.contents ser (take k evs)) \<le> sk_room (cw_sink (tee_writer t1))"
    "k < length evs \<longrightarrow> sk_room (cw_sink (tee_writer t1)) < length (capture.contents ser (take (Suc k) evs))"
    using Cons.IH [OF ok(2) ih ih2] by blast
  have pull: "tee_pull scripted_next ser (length (ev # evs)) t = (map Some (ev # evs), t2)"
    by (simp add: t1(1) t2(1))
  show ?case
  proof (cases "length (written_as ser ev) \<le> ?room")
    case True
    then show ?thesis
      by (intro exI [of _ t2] exI [of _ "Suc k"] conjI pull)
        (use t1(3-) t2(2-) in \<open>auto simp: less_diff_conv\<close>)
  next
    case False
    have k: "k = 0"
    proof (cases k)
      case (Suc j)
      then obtain e es where "evs = e # es" using t2(2) by (cases evs) auto
      then have "4 \<le> length (capture.contents ser (take k evs))"
        using codec_okD [OF _ max_payload, of ser de e] Cons.prems(1) Suc by (auto simp: frame_def)
      moreover have "sk_room (cw_sink (tee_writer t1)) = 0" using False by (simp add: t1(3))
      ultimately show ?thesis using t2(6) by linarith
    qed
    show ?thesis
      by (intro exI [of _ t2] exI [of _ 0] conjI pull) (use t1(3-) t2(2-) False k in auto)
  qed
qed simp


definition sample_event_ser :: "feed_event \<Rightarrow> u8 list option" where
  "sample_event_ser ev = (case ev of SlotEvent s \<Rightarrow> Some (u64_to_le s) | _ \<Rightarrow> None)"

definition sample_event_de :: "u8 list \<Rightarrow> feed_event option" where
  "sample_event_de bs = Some (SlotEvent (u64_from_le bs))"


end
