(* ===== verification/Decoders.thy ===== *)
theory Decoders
  imports Graph Framing
begin

text \<open>
  The account decoders of \<^verbatim>\<open>crates/dl-state/src/decoder\<close>: Raydium AMM v4 with its SPL token vaults
  (\<^verbatim>\<open>raydium_amm_v4.rs\<close>), the two Orca Whirlpool layouts (\<^verbatim>\<open>orca_whirlpool.rs\<close>), the Meteora DLMM pair
  (\<^verbatim>\<open>meteora_dlmm.rs\<close>) and the choice by owner (\<^verbatim>\<open>mod.rs\<close>). A decoder reads fixed offsets behind a check of the
  length, so that no slice is out of range.
\<close>

section \<open>Bytes\<close>

definition bytes_at :: "u8 list \<Rightarrow> nat \<Rightarrow> nat \<Rightarrow> u8 list" where
  "bytes_at bs first past_end = take (past_end - first) (drop first bs)"

definition word_to_le :: "nat \<Rightarrow> 'w::len word \<Rightarrow> u8 list" where
  "word_to_le n w = le_bytes n (unat w)"

definition word_from_le :: "u8 list \<Rightarrow> 'w::len word" where
  "word_from_le bs = of_nat (le_nat bs)"

definition i32_to_le :: "i32 \<Rightarrow> u8 list" where
  "i32_to_le i = word_to_le 4 (of_int i :: u32)"

definition i32_from_le :: "u8 list \<Rightarrow> i32" where
  "i32_from_le bs = sint (word_from_le bs :: u32)"

section \<open>Raydium\<close>

definition AMM_INFO_SIZE :: usize where
  "AMM_INFO_SIZE = 752"

definition RAYDIUM_AMM_V4_PROGRAM_ID :: pubkey where
  "RAYDIUM_AMM_V4_PROGRAM_ID = Pubkey
   [0x67, 0x5b, 0x96, 0x4d, 0xec, 0x0c, 0x1f, 0x45, 0x66, 0x2b, 0x65, 0x86, 0x3c, 0x24, 0x53, 0x1d,
    0x2a, 0xb0, 0x66, 0x4c, 0xf6, 0x8a, 0xc4, 0x5b, 0x39, 0x3c, 0x40, 0x0e, 0x1f, 0xa1, 0x3e, 0xa1]"

record amm_info =
  ai_status :: u64
  ai_base_decimals :: u8
  ai_quote_decimals :: u8
  ai_trade_fee_numerator :: u64
  ai_trade_fee_denominator :: u64
  ai_base_vault :: pubkey
  ai_quote_vault :: pubkey
  ai_base_mint :: pubkey
  ai_quote_mint :: pubkey

definition amm_fee_bps :: "amm_info \<Rightarrow> u16 option" where
  "amm_fee_bps a =
    (if ai_trade_fee_denominator a = 0 then None
     else (case checked_mul_w (ucast (ai_trade_fee_numerator a)) (10000 :: u128) of
         None \<Rightarrow> None
       | Some p \<Rightarrow> Some (ucast (min (p div ucast (ai_trade_fee_denominator a)) 65535))))"

definition decode_amm_info :: "u8 list \<Rightarrow> (amm_info, decode_error) res" where
  "decode_amm_info bytes =
    (if length bytes < AMM_INFO_SIZE then Err (TooShort AMM_INFO_SIZE (length bytes))
     else
       let read_u64 = (\<lambda>off. word_from_le (bytes_at bytes off (off + 8)) :: u64);
           read_pubkey = (\<lambda>off. Pubkey (bytes_at bytes off (off + 32)));
           status = read_u64 0
       in if status = 0 then Err (BadDiscriminator [1, 0, 0, 0, 0, 0, 0, 0] (bytes_at bytes 0 8))
          else if \<not> (1 \<le> status \<and> status \<le> 7)
          then Err (BadDiscriminator [1, 0, 0, 0, 0, 0, 0, 0] (bytes_at bytes 0 8))
          else Ok \<lparr>ai_status = status, ai_base_decimals = ucast (read_u64 32), ai_quote_decimals = ucast (read_u64 40),
            ai_trade_fee_numerator = read_u64 144, ai_trade_fee_denominator = read_u64 152,
            ai_base_vault = read_pubkey 336, ai_quote_vault = read_pubkey 368,
            ai_base_mint = read_pubkey 400, ai_quote_mint = read_pubkey 432\<rparr>)"

record spl_token_account =
  st_mint :: pubkey
  st_amount :: u64

definition SPL_TOKEN_ACCOUNT_SIZE :: usize where
  "SPL_TOKEN_ACCOUNT_SIZE = 165"

definition decode_spl_token_account :: "u8 list \<Rightarrow> (spl_token_account, decode_error) res" where
  "decode_spl_token_account bytes =
    (if length bytes < SPL_TOKEN_ACCOUNT_SIZE then Err (TooShort SPL_TOKEN_ACCOUNT_SIZE (length bytes))
     else Ok \<lparr>st_mint = Pubkey (bytes_at bytes 0 32), st_amount = word_from_le (bytes_at bytes 64 72)\<rparr>)"

definition assemble_pool ::
    "pubkey \<Rightarrow> amm_info \<Rightarrow> spl_token_account \<Rightarrow> spl_token_account \<Rightarrow> u64 \<Rightarrow> (pool, decode_error) res" where
  "assemble_pool pool_address amm coin_vault pc_vault slot =
    (if st_mint coin_vault \<noteq> ai_base_mint amm
     then Err (BadDiscriminator (key_bytes (ai_base_mint amm)) (key_bytes (st_mint coin_vault)))
     else if st_mint pc_vault \<noteq> ai_quote_mint amm
     then Err (BadDiscriminator (key_bytes (ai_quote_mint amm)) (key_bytes (st_mint pc_vault)))
     else bind_res (ok_or (amm_fee_bps amm) (BadDiscriminator (bytes_of ''non-zero fee denominator'')
         (word_to_le 8 (ai_trade_fee_denominator amm)))) (\<lambda>fee.
       Ok \<lparr>address = pool_address, kind = RaydiumAmmV4, base_mint = ai_base_mint amm, quote_mint = ai_quote_mint amm,
         base_decimals = ai_base_decimals amm, quote_decimals = ai_quote_decimals amm,
         base_reserve = st_amount coin_vault, quote_reserve = st_amount pc_vault, fee_bps = fee,
         last_update_slot = slot, extras = Raydium\<rparr>))"

section \<open>Orca\<close>

definition ORCA_WHIRLPOOL_PROGRAM_ID :: pubkey where
  "ORCA_WHIRLPOOL_PROGRAM_ID = Pubkey
   [0x6c, 0x84, 0x24, 0x4c, 0x0e, 0x4e, 0x1c, 0x21, 0x2c, 0x9f, 0xa9, 0xa7, 0xdf, 0x45, 0xe9, 0xb6,
    0x87, 0x2c, 0x97, 0xfa, 0x8a, 0x75, 0x32, 0x4b, 0x5c, 0x4e, 0x93, 0x51, 0x99, 0xe7, 0x52, 0xe9]"

definition WHIRLPOOL_ACCOUNT_SIZE :: usize where
  "WHIRLPOOL_ACCOUNT_SIZE = 256"

definition WHIRLPOOL_ACCOUNT_SIZE_REAL :: usize where
  "WHIRLPOOL_ACCOUNT_SIZE_REAL = 653"

record whirlpool =
  wp_sqrt_price :: u128
  wp_tick_current_index :: i32
  wp_tick_spacing :: u16
  wp_liquidity :: u128
  wp_token_mint_x :: pubkey
  wp_token_mint_y :: pubkey
  wp_token_vault_x :: pubkey
  wp_token_vault_y :: pubkey
  wp_fee_rate :: u16
  wp_program_id :: pubkey

datatype blob_error = BlobTooShort usize usize

definition decode_whirlpool :: "u8 list \<Rightarrow> (whirlpool, blob_error) res" where
  "decode_whirlpool bytes =
    (if length bytes < WHIRLPOOL_ACCOUNT_SIZE then Err (BlobTooShort (length bytes) WHIRLPOOL_ACCOUNT_SIZE)
     else Ok
       \<lparr>wp_sqrt_price = word_from_le (bytes_at bytes 0 16),
        wp_tick_current_index = i32_from_le (bytes_at bytes 16 20),
        wp_tick_spacing = word_from_le (bytes_at bytes 20 22),
        wp_liquidity = word_from_le (bytes_at bytes 28 44),
        wp_token_mint_x = Pubkey (bytes_at bytes 44 76), wp_token_mint_y = Pubkey (bytes_at bytes 76 108),
        wp_token_vault_x = Pubkey (bytes_at bytes 108 140), wp_token_vault_y = Pubkey (bytes_at bytes 140 172),
        wp_fee_rate = word_from_le (bytes_at bytes 254 256), wp_program_id = ORCA_WHIRLPOOL_PROGRAM_ID\<rparr>)"

definition encode_whirlpool :: "whirlpool \<Rightarrow> u8 list" where
  "encode_whirlpool w =
    word_to_le 16 (wp_sqrt_price w) @ i32_to_le (wp_tick_current_index w) @ word_to_le 2 (wp_tick_spacing w)
    @ replicate 6 0 @ word_to_le 16 (wp_liquidity w) @ key_bytes (wp_token_mint_x w) @ key_bytes (wp_token_mint_y w)
    @ key_bytes (wp_token_vault_x w) @ key_bytes (wp_token_vault_y w) @ replicate 82 0 @ word_to_le 2 (wp_fee_rate w)"

definition assemble_whirlpool_pool :: "pubkey \<Rightarrow> whirlpool \<Rightarrow> u64 \<Rightarrow> u64 \<Rightarrow> u64 \<Rightarrow> pool" where
  "assemble_whirlpool_pool pool_address w base_amount quote_amount slot =
    \<lparr>address = pool_address, kind = OrcaWhirlpool, base_mint = wp_token_mint_x w, quote_mint = wp_token_mint_y w,
     base_decimals = 9, quote_decimals = 6, base_reserve = base_amount, quote_reserve = quote_amount,
     fee_bps = wp_fee_rate w, last_update_slot = slot, extras = Whirlpool (wp_sqrt_price w)\<rparr>"

record whirlpool_real =
  wr_discriminator :: "u8 list"
  wr_bump :: u8
  wr_tick_spacing :: u16
  wr_fee_rate :: u16
  wr_protocol_fee_rate :: u16
  wr_liquidity :: u128
  wr_sqrt_price :: u128
  wr_tick_current_index :: i32
  wr_protocol_fee_owed_a :: u64
  wr_protocol_fee_owed_b :: u64
  wr_token_mint_x :: pubkey
  wr_token_mint_y :: pubkey
  wr_token_vault_x :: pubkey
  wr_token_vault_y :: pubkey

definition decode_whirlpool_real :: "u8 list \<Rightarrow> (whirlpool_real, blob_error) res" where
  "decode_whirlpool_real bytes =
    (if length bytes < WHIRLPOOL_ACCOUNT_SIZE_REAL
     then Err (BlobTooShort (length bytes) WHIRLPOOL_ACCOUNT_SIZE_REAL)
     else Ok
       \<lparr>wr_discriminator = bytes_at bytes 0 8, wr_bump = bytes ! 8,
        wr_tick_spacing = word_from_le (bytes_at bytes 9 11), wr_fee_rate = word_from_le (bytes_at bytes 13 15),
        wr_protocol_fee_rate = word_from_le (bytes_at bytes 15 17),
        wr_liquidity = word_from_le (bytes_at bytes 32 48), wr_sqrt_price = word_from_le (bytes_at bytes 48 64),
        wr_tick_current_index = i32_from_le (bytes_at bytes 64 68),
        wr_protocol_fee_owed_a = word_from_le (bytes_at bytes 72 80),
        wr_protocol_fee_owed_b = word_from_le (bytes_at bytes 80 88),
        wr_token_mint_x = Pubkey (bytes_at bytes 88 120), wr_token_mint_y = Pubkey (bytes_at bytes 120 152),
        wr_token_vault_x = Pubkey (bytes_at bytes 152 184), wr_token_vault_y = Pubkey (bytes_at bytes 184 216)\<rparr>)"

definition assemble_whirlpool_real_pool :: "pubkey \<Rightarrow> whirlpool_real \<Rightarrow> u64 \<Rightarrow> u64 \<Rightarrow> u64 \<Rightarrow> pool" where
  "assemble_whirlpool_real_pool pool_address w base_amount quote_amount slot =
    \<lparr>address = pool_address, kind = OrcaWhirlpool, base_mint = wr_token_mint_x w, quote_mint = wr_token_mint_y w,
     base_decimals = 9, quote_decimals = 6, base_reserve = base_amount, quote_reserve = quote_amount,
     fee_bps = wr_fee_rate w, last_update_slot = slot, extras = Whirlpool (wr_sqrt_price w)\<rparr>"

section \<open>Meteora\<close>

definition METEORA_DLMM_PROGRAM_ID :: pubkey where
  "METEORA_DLMM_PROGRAM_ID = Pubkey
   [0x39, 0x22, 0x8b, 0x9b, 0xd5, 0x3a, 0x7d, 0x4c, 0x2a, 0x14, 0x8f, 0x6b, 0x4a, 0x3e, 0x9c, 0x5d,
    0x4e, 0xa1, 0x70, 0xc2, 0x5f, 0x3a, 0x8b, 0x2c, 0x9d, 0x1f, 0x4a, 0x6e, 0x2b, 0x3d, 0x5c, 0xa7]"

definition DLMM_ACCOUNT_SIZE :: usize where
  "DLMM_ACCOUNT_SIZE = 1024"

definition BIN_WINDOW :: usize where
  "BIN_WINDOW = 65"

record lb_pair =
  lp_bin_step :: u16
  lp_active_id :: i32
  lp_token_mint_x :: pubkey
  lp_token_mint_y :: pubkey
  lp_token_vault_x :: pubkey
  lp_token_vault_y :: pubkey
  lp_mint_x_program_flag :: u8
  lp_mint_y_program_flag :: u8
  lp_bin_amount_x :: "u64 list"
  lp_bin_amount_y :: "u64 list"
  lp_bin_price :: "u128 list"
  lp_program_id :: pubkey

text \<open>\<^verbatim>\<open>as usize\<close> of a negative \<^verbatim>\<open>i32\<close> is at least \<open>2 ^ 63\<close>, beyond any vector.\<close>

definition bin_price_at :: "i32 \<Rightarrow> lb_pair \<Rightarrow> u128 option" where
  "bin_price_at bin_id p =
    (case checked_i 32 (bin_id - lp_active_id p) of
       None \<Rightarrow> None
     | Some d \<Rightarrow>
         let offset = nat (d mod 2 ^ 64) in
         if length (lp_bin_price p) \<le> offset then None else Some (lp_bin_price p ! offset))"

fun read_bins :: "u8 list \<Rightarrow> nat \<Rightarrow> nat \<Rightarrow> u64 list \<Rightarrow> u64 list \<Rightarrow> u128 list \<Rightarrow>
    (u64 list \<times> u64 list \<times> u128 list, blob_error) res" where
  "read_bins bytes 0 offset xs ys ps = Ok (xs, ys, ps)"
| "read_bins bytes (Suc n) offset xs ys ps =
    (if length bytes < offset + 32 then Err (BlobTooShort (length bytes) (offset + 32))
     else read_bins bytes n (offset + 32)
       (xs @ [word_from_le (bytes_at bytes offset (offset + 8))])
       (ys @ [word_from_le (bytes_at bytes (offset + 8) (offset + 16))])
       (ps @ [word_from_le (bytes_at bytes (offset + 16) (offset + 32))]))"

definition decode_lb_pair :: "u8 list \<Rightarrow> (lb_pair, blob_error) res" where
  "decode_lb_pair bytes =
    (if length bytes < 156 + 32 * BIN_WINDOW then Err (BlobTooShort (length bytes) (156 + 32 * BIN_WINDOW))
     else bind_res (read_bins bytes BIN_WINDOW 156 [] [] []) (\<lambda>(xs, ys, ps).
       Ok \<lparr>lp_bin_step = word_from_le (bytes_at bytes 0 2), lp_active_id = i32_from_le (bytes_at bytes 2 6),
           lp_token_mint_x = Pubkey (bytes_at bytes 12 44), lp_token_mint_y = Pubkey (bytes_at bytes 44 76),
           lp_token_vault_x = Pubkey (bytes_at bytes 76 108), lp_token_vault_y = Pubkey (bytes_at bytes 108 140),
           lp_mint_x_program_flag = bytes ! 140, lp_mint_y_program_flag = bytes ! 141,
           lp_bin_amount_x = xs, lp_bin_amount_y = ys, lp_bin_price = ps,
           lp_program_id = METEORA_DLMM_PROGRAM_ID\<rparr>))"

text \<open>The loop runs over the indices of the first list and indexes the other two.\<close>

fun write_bins :: "u64 list \<Rightarrow> u64 list \<Rightarrow> u128 list \<Rightarrow> (u8 list, unit) res" where
  "write_bins [] ys ps = Ok []"
| "write_bins (x # xs) (y # ys) (p # ps) =
    bind_res (write_bins xs ys ps) (\<lambda>rest. Ok (word_to_le 8 x @ word_to_le 8 y @ word_to_le 16 p @ rest))"
| "write_bins (x # xs) [] ps = Panic"
| "write_bins (x # xs) (y # ys) [] = Panic"

definition encode_lb_pair :: "lb_pair \<Rightarrow> (u8 list, unit) res" where
  "encode_lb_pair p =
    bind_res (write_bins (lp_bin_amount_x p) (lp_bin_amount_y p) (lp_bin_price p)) (\<lambda>bins.
    Ok (word_to_le 2 (lp_bin_step p) @ i32_to_le (lp_active_id p) @ replicate 6 0
      @ key_bytes (lp_token_mint_x p) @ key_bytes (lp_token_mint_y p) @ key_bytes (lp_token_vault_x p)
      @ key_bytes (lp_token_vault_y p) @ [lp_mint_x_program_flag p] @ [lp_mint_y_program_flag p]
      @ replicate 14 0 @ bins))"

definition nth_or_zero :: "'w::len word list \<Rightarrow> nat \<Rightarrow> 'w word" where
  "nth_or_zero xs i = (if i < length xs then xs ! i else 0)"

definition assemble_lb_pair_pool :: "pubkey \<Rightarrow> lb_pair \<Rightarrow> u64 \<Rightarrow> u64 \<Rightarrow> u64 \<Rightarrow> (pool, unit) res" where
  "assemble_lb_pair_pool pool_address p base_amount quote_amount slot =
    bind_res (range_p 32 (lp_active_id p - int BIN_WINDOW div 2)) (\<lambda>lower.
    bind_res (range_p 32 (lp_active_id p - lower)) (\<lambda>d.
    let active_idx = min (nat (max d 0)) (length (lp_bin_amount_x p) - 1) in
    Ok \<lparr>address = pool_address, kind = MeteoraDlmm, base_mint = lp_token_mint_x p, quote_mint = lp_token_mint_y p,
      base_decimals = 9, quote_decimals = 6, base_reserve = base_amount, quote_reserve = quote_amount,
      fee_bps = lp_bin_step p, last_update_slot = slot,
      extras = Dlmm (lp_bin_step p) (nth_or_zero (lp_bin_amount_x p) active_idx)
        (nth_or_zero (lp_bin_amount_y p) active_idx) (nth_or_zero (lp_bin_price p) active_idx)\<rparr>))"

section \<open>The owner decides\<close>

definition identify_amm_by_program :: "pubkey \<Rightarrow> amm_kind option" where
  "identify_amm_by_program program_id =
    (if program_id = RAYDIUM_AMM_V4_PROGRAM_ID then Some RaydiumAmmV4
     else if program_id = ORCA_WHIRLPOOL_PROGRAM_ID then Some OrcaWhirlpool
     else if program_id = METEORA_DLMM_PROGRAM_ID then Some MeteoraDlmm
     else None)"

section \<open>Round trips\<close>

lemma length_word_to_le [simp]: "length (word_to_le n w) = n"
  by (simp add: word_to_le_def)

lemma word_le_roundtrip:
  "2 ^ LENGTH('w) = (256 :: nat) ^ n \<Longrightarrow> word_from_le (word_to_le n w) = w" for w :: "'w::len word"
proof -
  assume "2 ^ LENGTH('w) = (256 :: nat) ^ n"
  then have "unat w < 256 ^ n" using unat_bound [of w] by metis
  then show ?thesis by (simp add: word_from_le_def word_to_le_def le_nat_le_bytes)
qed

lemma word_le_roundtrips [simp]:
  "word_from_le (word_to_le 2 a) = (a :: u16)" "word_from_le (word_to_le 4 b) = (b :: u32)"
  "word_from_le (word_to_le 8 c) = (c :: u64)" "word_from_le (word_to_le 16 d) = (d :: u128)"
  by (simp_all add: word_le_roundtrip)

lemma length_i32_to_le [simp]: "length (i32_to_le i) = 4"
  by (simp add: i32_to_le_def)

lemma i32_le_roundtrip [simp]: "in_range 32 i \<Longrightarrow> i32_from_le (i32_to_le i) = i"
proof -
  assume i: "in_range 32 i"
  have "sint (of_int i :: u32) = signed_take_bit 31 i" by transfer simp
  then show ?thesis
    using i by (simp add: i32_from_le_def i32_to_le_def in_range_def smin_def smax_def signed_take_bit_int_eq_self)
qed

text \<open>Reading a range of a concatenation.\<close>

lemma bytes_at_skip: "length xs \<le> a \<Longrightarrow> bytes_at (xs @ ys) a b = bytes_at ys (a - length xs) (b - length xs)"
  by (cases "a \<le> b") (simp_all add: bytes_at_def)

lemma bytes_at_here: "length xs = b \<Longrightarrow> bytes_at (xs @ ys) 0 b = xs"
  by (simp add: bytes_at_def)

lemma bytes_at_all: "length xs = b \<Longrightarrow> bytes_at xs 0 b = xs"
  by (simp add: bytes_at_def)

lemmas bytes_at_simps = bytes_at_skip bytes_at_here bytes_at_all

definition key_ok :: "pubkey \<Rightarrow> bool" where
  "key_ok k \<longleftrightarrow> length (key_bytes k) = 32"

definition whirlpool_ok :: "whirlpool \<Rightarrow> bool" where
  "whirlpool_ok w \<longleftrightarrow> in_range 32 (wp_tick_current_index w) \<and> wp_program_id w = ORCA_WHIRLPOOL_PROGRAM_ID
    \<and> list_all key_ok [wp_token_mint_x w, wp_token_mint_y w, wp_token_vault_x w, wp_token_vault_y w]"

lemma encode_whirlpool_length: "whirlpool_ok w \<Longrightarrow> length (encode_whirlpool w) = 256"
  by (simp add: whirlpool_ok_def key_ok_def encode_whirlpool_def)

text \<open>Encoding and decoding a Whirlpool are inverse: the encoding of a pool has the 256 bytes
  the decoder asks for, and decoding it, with anything behind it, gives the pool back.\<close>

theorem whirlpool_round_trip:
  assumes "whirlpool_ok w"
  shows "length (encode_whirlpool w) = WHIRLPOOL_ACCOUNT_SIZE \<and> decode_whirlpool (encode_whirlpool w @ rest) = Ok w"
proof -
  have len: "length (key_bytes (wp_token_mint_x w)) = 32" "length (key_bytes (wp_token_mint_y w)) = 32"
    "length (key_bytes (wp_token_vault_x w)) = 32" "length (key_bytes (wp_token_vault_y w)) = 32"
    using assms by (simp_all add: whirlpool_ok_def key_ok_def)
  have "decode_whirlpool (encode_whirlpool w @ rest) = Ok w"
    using assms unfolding decode_whirlpool_def encode_whirlpool_def WHIRLPOOL_ACCOUNT_SIZE_def append_assoc
    by (cases w) (simp add: bytes_at_simps len whirlpool_ok_def len [simplified] key_ok_def)
  then show ?thesis using encode_whirlpool_length [OF assms] by (simp add: WHIRLPOOL_ACCOUNT_SIZE_def)
qed

definition sample_whirlpool :: "u16 \<Rightarrow> whirlpool" where
  "sample_whirlpool fee = \<lparr>wp_sqrt_price = 2 ^ 64, wp_tick_current_index = - 7, wp_tick_spacing = 64, wp_liquidity = 99,
    wp_token_mint_x = pubkey_ZERO, wp_token_mint_y = pubkey_ZERO, wp_token_vault_x = pubkey_ZERO,
    wp_token_vault_y = pubkey_ZERO, wp_fee_rate = fee, wp_program_id = ORCA_WHIRLPOOL_PROGRAM_ID\<rparr>"

lemma sample_whirlpool_ok: "whirlpool_ok (sample_whirlpool fee)"
  by (simp add: whirlpool_ok_def sample_whirlpool_def key_ok_def pubkey_ZERO_def in_range_def smin_def smax_def)

lemma whirlpool_round_trip_witness:
  "decode_whirlpool (encode_whirlpool (sample_whirlpool 30) @ [1, 2]) = Ok (sample_whirlpool 30)"
  using whirlpool_round_trip [OF sample_whirlpool_ok] by blast

definition lb_pair_ok :: "lb_pair \<Rightarrow> bool" where
  "lb_pair_ok p \<longleftrightarrow> in_range 32 (lp_active_id p) \<and> lp_program_id p = METEORA_DLMM_PROGRAM_ID
    \<and> list_all key_ok [lp_token_mint_x p, lp_token_mint_y p, lp_token_vault_x p, lp_token_vault_y p]
    \<and> length (lp_bin_amount_x p) = 65 \<and> length (lp_bin_amount_y p) = 65 \<and> length (lp_bin_price p) = 65"

lemma write_bins_Ok:
  "length xs = n \<Longrightarrow> length ys = n \<Longrightarrow> length ps = n \<Longrightarrow>
    \<exists>bs. write_bins xs ys ps = Ok bs \<and> length bs = 32 * n
      \<and> (\<forall>pre suf xs0 ys0 ps0. read_bins (pre @ bs @ suf) n (length pre) xs0 ys0 ps0 = Ok (xs0 @ xs, ys0 @ ys, ps0 @ ps))"
proof (induction xs ys ps arbitrary: n rule: write_bins.induct)
  case (2 x xs y ys p ps)
  then obtain m where m: "n = Suc m" by (cases n) auto
  obtain bs where bs: "write_bins xs ys ps = Ok bs" "length bs = 32 * m"
    "\<And>pre suf xs0 ys0 ps0. read_bins (pre @ bs @ suf) m (length pre) xs0 ys0 ps0 = Ok (xs0 @ xs, ys0 @ ys, ps0 @ ps)"
    using "2.IH" [of m] "2.prems" m by auto
  define b where "b = word_to_le 8 x @ word_to_le 8 y @ word_to_le 16 p"
  have b: "length b = 32" by (simp add: b_def)
  have "read_bins (pre @ (b @ bs) @ suf) n (length pre) xs0 ys0 ps0
      = Ok (xs0 @ x # xs, ys0 @ y # ys, ps0 @ p # ps)" for pre suf xs0 ys0 ps0
  proof -
    let ?all = "pre @ b @ bs @ suf"
    have at: "bytes_at ?all (length pre) (length pre + 8) = word_to_le 8 x"
      "bytes_at ?all (length pre + 8) (length pre + 16) = word_to_le 8 y"
      "bytes_at ?all (length pre + 16) (length pre + 32) = word_to_le 16 p"
      by (simp_all add: bytes_at_simps b_def)
    have "read_bins ?all n (length pre) xs0 ys0 ps0
        = read_bins ((pre @ b) @ bs @ suf) m (length (pre @ b)) (xs0 @ [x]) (ys0 @ [y]) (ps0 @ [p])"
      by (simp add: m at b)
    moreover have "pre @ (b @ bs) @ suf = ?all" by simp
    ultimately show ?thesis by (simp only: bs(3)) simp
  qed
  then show ?case
    using bs(1,2) b by (intro exI [of _ "b @ bs"]) (simp add: b_def m)
qed auto

lemma sixty_five: "(65 :: nat) = BIN_WINDOW"
  by (simp add: BIN_WINDOW_def)

text \<open>Encoding and decoding a DLMM pair are inverse for a pair with its 65 bins, and the encoding
  has 2236 bytes.\<close>

theorem lb_pair_round_trip:
  assumes "lb_pair_ok p"
  shows "\<exists>bs. encode_lb_pair p = Ok bs \<and> length bs = 2236 \<and> decode_lb_pair bs = Ok p"
proof -
  have len: "length (key_bytes (lp_token_mint_x p)) = 32" "length (key_bytes (lp_token_mint_y p)) = 32"
    "length (key_bytes (lp_token_vault_x p)) = 32" "length (key_bytes (lp_token_vault_y p)) = 32"
    using assms by (simp_all add: lb_pair_ok_def key_ok_def)
  obtain bins where bins: "write_bins (lp_bin_amount_x p) (lp_bin_amount_y p) (lp_bin_price p) = Ok bins"
    "length bins = 32 * 65"
    "\<And>pre suf. read_bins (pre @ bins @ suf) 65 (length pre) [] [] [] = Ok (lp_bin_amount_x p, lp_bin_amount_y p, lp_bin_price p)"
    using write_bins_Ok [of "lp_bin_amount_x p" 65 "lp_bin_amount_y p" "lp_bin_price p"] assms
    by (auto simp: lb_pair_ok_def)
  define pre where "pre = word_to_le 2 (lp_bin_step p) @ i32_to_le (lp_active_id p) @ replicate 6 0
      @ key_bytes (lp_token_mint_x p) @ key_bytes (lp_token_mint_y p) @ key_bytes (lp_token_vault_x p)
      @ key_bytes (lp_token_vault_y p) @ [lp_mint_x_program_flag p] @ [lp_mint_y_program_flag p] @ replicate 14 0"
  have pre: "length pre = 156" by (simp add: pre_def len)
  have enc: "encode_lb_pair p = Ok (pre @ bins)" by (simp add: encode_lb_pair_def bins(1) pre_def)
  have total: "length (pre @ bins) = 2236" by (simp add: pre bins(2))
  have rb: "read_bins (pre @ bins) BIN_WINDOW 156 [] [] [] = Ok (lp_bin_amount_x p, lp_bin_amount_y p, lp_bin_price p)"
    using bins(3) [of pre "[]"] by (simp add: pre sixty_five)
  have f1: "word_from_le (bytes_at (pre @ bins) 0 2) = lp_bin_step p"
    "i32_from_le (bytes_at (pre @ bins) 2 6) = lp_active_id p"
    using assms by (simp_all add: pre_def bytes_at_simps lb_pair_ok_def)
  have f2: "bytes_at (pre @ bins) 12 44 = key_bytes (lp_token_mint_x p)" "bytes_at (pre @ bins) 44 76 = key_bytes (lp_token_mint_y p)"
    "bytes_at (pre @ bins) 76 108 = key_bytes (lp_token_vault_x p)" "bytes_at (pre @ bins) 108 140 = key_bytes (lp_token_vault_y p)"
    by (simp_all add: pre_def bytes_at_simps len)
  have f3: "(pre @ bins) ! 140 = lp_mint_x_program_flag p" "(pre @ bins) ! 141 = lp_mint_y_program_flag p"
    by (simp_all add: pre_def nth_append len)
  have "decode_lb_pair (pre @ bins) = Ok p"
    unfolding decode_lb_pair_def rb using total assms
    by (simp add: f1 f2 f3 lb_pair_ok_def BIN_WINDOW_def)
  then show ?thesis using enc total by blast
qed

definition sample_lb_pair :: "i32 \<Rightarrow> lb_pair" where
  "sample_lb_pair active = \<lparr>lp_bin_step = 25, lp_active_id = active, lp_token_mint_x = pubkey_ZERO,
    lp_token_mint_y = pubkey_ZERO, lp_token_vault_x = pubkey_ZERO, lp_token_vault_y = pubkey_ZERO,
    lp_mint_x_program_flag = 0, lp_mint_y_program_flag = 1, lp_bin_amount_x = replicate 65 1,
    lp_bin_amount_y = replicate 65 2, lp_bin_price = map of_nat [0..<65], lp_program_id = METEORA_DLMM_PROGRAM_ID\<rparr>"

lemma sample_lb_pair_ok: "in_range 32 active \<Longrightarrow> lb_pair_ok (sample_lb_pair active)"
  by (simp add: lb_pair_ok_def sample_lb_pair_def key_ok_def pubkey_ZERO_def)

lemma lb_pair_round_trip_witness:
  "\<exists>bs. encode_lb_pair (sample_lb_pair (- 3)) = Ok bs \<and> length bs = 2236 \<and> decode_lb_pair bs = Ok (sample_lb_pair (- 3))"
  using lb_pair_round_trip [OF sample_lb_pair_ok [of "- 3"]] by (simp add: in_range_def smin_def smax_def)

text \<open>The two readers of a DLMM pair disagree on its active bin: looking up the price of the active
  bin gives the first stored bin, and the assembled pool is priced by the 33rd; bins below the
  active one cannot be looked up at all; and assembling panics when the active bin is within 32 of the
  smallest 32-bit integer.\<close>

theorem lb_pair_active_bin_disagrees:
  assumes "lb_pair_ok p"
  shows "bin_price_at (lp_active_id p) p = Some (lp_bin_price p ! 0)
    \<and> (lp_active_id p < - (2 ^ 31) + 32 \<longrightarrow> assemble_lb_pair_pool a p x y s = Panic)
    \<and> (- (2 ^ 31) + 32 \<le> lp_active_id p \<longrightarrow>
        (\<exists>q. assemble_lb_pair_pool a p x y s = Ok q \<and> active_price_scaled (extras q) = lp_bin_price p ! 32))
    \<and> (0 < k \<longrightarrow> bin_price_at (lp_active_id p - k) p = None)"
proof -
  have rng: "- (2 ^ 31) \<le> lp_active_id p" "lp_active_id p < 2 ^ 31" and len: "length (lp_bin_price p) = 65"
      "length (lp_bin_amount_x p) = 65"
    using assms by (simp_all add: lb_pair_ok_def in_range_def smin_def smax_def)
  have "bin_price_at (lp_active_id p - k) p = None" if k: "0 < k"
  proof (cases "in_range 32 (- k)")
    case True
    then have "2 ^ 64 - 2 ^ 31 \<le> (- k) mod 2 ^ 64"
      using k by (simp add: in_range_def smin_def smax_def zmod_zminus1_eq_if)
    then have "65 \<le> nat ((- k) mod 2 ^ 64)" by simp
    then show ?thesis using True by (simp add: bin_price_at_def checked_i_def Let_def len)
  qed (simp add: bin_price_at_def checked_i_def)
  moreover have "bin_price_at (lp_active_id p) p = Some (lp_bin_price p ! 0)"
    by (simp add: bin_price_at_def checked_i_def in_range_def smin_def smax_def len)
  moreover have "assemble_lb_pair_pool a p x y s = Panic" if "lp_active_id p < - (2 ^ 31) + 32"
    using that by (simp add: assemble_lb_pair_pool_def BIN_WINDOW_def range_p_def in_range_def smin_def smax_def)
  moreover have "\<exists>q. assemble_lb_pair_pool a p x y s = Ok q \<and> active_price_scaled (extras q) = lp_bin_price p ! 32"
    if "- (2 ^ 31) + 32 \<le> lp_active_id p"
    using that rng by (simp add: assemble_lb_pair_pool_def BIN_WINDOW_def range_p_def in_range_def smin_def smax_def len
        nth_or_zero_def Let_def)
  ultimately show ?thesis by blast
qed

lemma lb_pair_active_bin_disagrees_witness:
  "bin_price_at 5 (sample_lb_pair 5) = Some 0
    \<and> (\<exists>q. assemble_lb_pair_pool pubkey_ZERO (sample_lb_pair 5) 0 0 0 = Ok q \<and> active_price_scaled (extras q) = 32)"
  using lb_pair_active_bin_disagrees [OF sample_lb_pair_ok [of 5], of pubkey_ZERO 0 0 0 1]
  by (simp add: in_range_def smin_def smax_def sample_lb_pair_def)

text \<open>An account of the size that the decoder is documented to read is always refused.\<close>

lemma lb_pair_rejects_account_size:
  "length bytes = DLMM_ACCOUNT_SIZE \<Longrightarrow> decode_lb_pair bytes = Err (BlobTooShort 1024 2236)"
  by (simp add: decode_lb_pair_def DLMM_ACCOUNT_SIZE_def BIN_WINDOW_def)

text \<open>The fee rate of a Whirlpool is taken as basis points: the rate 3000, which is documented as
  0.30 percent, becomes a pool whose edges pay 30 percent, and a rate above 10000 makes the graph construction panic.\<close>

theorem whirlpool_fee_rate_taken_as_bps:
  "fee_multiplier_1e18 (fee_bps (assemble_whirlpool_pool a w x y s)) =
    (if wp_fee_rate w \<le> 10000 then Ok (10 ^ 18 - ucast (wp_fee_rate w) * 10 ^ 14) else Panic)"
proof (cases "wp_fee_rate w \<le> 10000")
  case True
  define f :: u128 where "f = ucast (wp_fee_rate w)"
  have "unat (wp_fee_rate w) \<le> 10000" using True by (simp add: word_le_nat_alt)
  then have f: "unat f \<le> 10000" by (simp add: f_def unat_ucast_up)
  then have m: "unat (f * 100000000000000) = unat f * 10 ^ 14" by (simp add: unat_mul_no_wrap)
  then have "sat_mul_w f 100000000000000 = f * 100000000000000" using f by (simp add: sat_mul_w_def)
  moreover have "f * 100000000000000 \<le> ONE_1E18" using f m by (simp add: word_le_nat_alt ONE_1E18_def)
  ultimately show ?thesis
    using True by (simp add: assemble_whirlpool_pool_def fee_multiplier_1e18_def f_def [symmetric] sat_sub_w_def not_less ONE_1E18_def)
qed (simp add: assemble_whirlpool_pool_def fee_multiplier_1e18_def not_le)

section \<open>A Raydium pool from its three accounts\<close>

definition le_u64_at :: "u8 list \<Rightarrow> nat \<Rightarrow> nat" where
  "le_u64_at bs off = le_nat (bytes_at bs off (off + 8))"

lemma unat_word_at: "off + 8 \<le> length bs \<Longrightarrow> unat (word_from_le (bytes_at bs off (off + 8)) :: u64) = le_u64_at bs off"
proof -
  assume "off + 8 \<le> length bs"
  then have "length (bytes_at bs off (off + 8)) = 8" by (simp add: bytes_at_def)
  then have "le_nat (bytes_at bs off (off + 8)) < 256 ^ 8" using le_nat_less by metis
  then show ?thesis by (simp add: word_from_le_def le_u64_at_def unat_of_nat_fits)
qed

lemma amm_fee_bps_value:
  "amm_fee_bps a = (if ai_trade_fee_denominator a = 0 then None
    else Some (of_nat (min (unat (ai_trade_fee_numerator a) * 10000 div unat (ai_trade_fee_denominator a)) 65535)))"
proof (cases "ai_trade_fee_denominator a = 0")
  case False
  define n d where "n = unat (ai_trade_fee_numerator a)" and "d = unat (ai_trade_fee_denominator a)"
  have u: "unat (ucast (ai_trade_fee_numerator a) :: u128) = n" "unat (ucast (ai_trade_fee_denominator a) :: u128) = d"
    by (simp_all add: unat_ucast_up n_def d_def)
  have "n < 2 ^ 64" using unat_bound [of "ai_trade_fee_numerator a"] by (simp add: n_def)
  then have m: "unat (ucast (ai_trade_fee_numerator a) * (10000 :: u128)) = n * 10000" by (simp add: unat_mul_no_wrap u)
  define q where "q = min (ucast (ai_trade_fee_numerator a) * (10000 :: u128) div ucast (ai_trade_fee_denominator a)) 65535"
  have q: "unat q = min (n * 10000 div d) 65535"
    by (simp add: q_def min_def word_le_nat_alt unat_div m u)
  then have "(ucast q :: u16) = of_nat (min (n * 10000 div d) 65535)" by (simp flip: q)
  moreover have "checked_mul_w (ucast (ai_trade_fee_numerator a)) (10000 :: u128)
      = Some (ucast (ai_trade_fee_numerator a) * 10000)"
    using \<open>n < 2 ^ 64\<close> by (simp add: checked_mul_w_def u)
  ultimately show ?thesis using False by (simp add: amm_fee_bps_def n_def d_def q_def)
qed (simp add: amm_fee_bps_def)

text \<open>The three accounts of a Raydium pool, decoded and assembled.\<close>

definition raydium_pool_of :: "pubkey \<Rightarrow> u8 list \<Rightarrow> u8 list \<Rightarrow> u8 list \<Rightarrow> u64 \<Rightarrow> (pool, decode_error) res" where
  "raydium_pool_of addr info coin pc slot =
    bind_res (decode_amm_info info) (\<lambda>amm.
    bind_res (decode_spl_token_account coin) (\<lambda>c.
    bind_res (decode_spl_token_account pc) (\<lambda>p. assemble_pool addr amm c p slot)))"

text \<open>Decoding a Raydium pool from its pool account and its two vaults never panics. It succeeds exactly
  when the accounts have their sizes, the status is 1 to 7, the vaults hold the mints that the
  pool names and the fee has a denominator; the pool then has the balances of the vaults as its
  reserves, those mints, and the fee \<open>numerator * 10000 / denominator\<close> in basis points, at most 65535.\<close>

theorem raydium_pool_exact:
  "raydium_pool_of addr info coin pc slot \<noteq> Panic
    \<and> (\<forall>p. raydium_pool_of addr info coin pc slot = Ok p \<longleftrightarrow>
        752 \<le> length info \<and> 165 \<le> length coin \<and> 165 \<le> length pc
        \<and> le_u64_at info 0 \<in> {1..7} \<and> bytes_at coin 0 32 = bytes_at info 400 432 \<and> bytes_at pc 0 32 = bytes_at info 432 464
        \<and> le_u64_at info 152 \<noteq> 0
        \<and> p = \<lparr>address = addr, kind = RaydiumAmmV4, base_mint = Pubkey (bytes_at info 400 432),
              quote_mint = Pubkey (bytes_at info 432 464), base_decimals = of_nat (le_u64_at info 32),
              quote_decimals = of_nat (le_u64_at info 40), base_reserve = of_nat (le_u64_at coin 64),
              quote_reserve = of_nat (le_u64_at pc 64),
              fee_bps = of_nat (min (le_u64_at info 144 * 10000 div le_u64_at info 152) 65535),
              last_update_slot = slot, extras = Raydium\<rparr>)"
proof (cases "752 \<le> length info \<and> 165 \<le> length coin \<and> 165 \<le> length pc")
  case False
  then show ?thesis
    by (auto simp: raydium_pool_of_def decode_amm_info_def decode_spl_token_account_def AMM_INFO_SIZE_def
        SPL_TOKEN_ACCOUNT_SIZE_def Let_def bind_res_Ok_iff bind_res_Panic_iff split: if_splits)
next
  case True
  define w where "w = (\<lambda>bs off. word_from_le (bytes_at bs off (off + 8)) :: u64)"
  have w: "unat (w info off) = le_u64_at info off" if "off + 8 \<le> 752" for off
    unfolding w_def using True that by (intro unat_word_at) simp
  have v: "w info off = of_nat (le_u64_at info off)" for off by (simp add: w_def word_from_le_def le_u64_at_def)
  have bad: "\<not> (1 \<le> w info 0 \<and> w info 0 \<le> 7) \<longleftrightarrow> le_u64_at info 0 \<notin> {1..7}"
    using w [of 0] by (auto simp: word_le_nat_alt)
  have zero: "w info 0 = 0 \<Longrightarrow> le_u64_at info 0 \<notin> {1..7}" using w [of 0] by auto
  have den: "w info 152 = 0 \<longleftrightarrow> le_u64_at info 152 = 0" using w [of 152] by (auto simp: unat_eq_0 [symmetric])
  have dec: "ucast (w info off) = (of_nat (le_u64_at info off) :: u8)" if "off + 8 \<le> 752" for off
    by (simp flip: w [OF that])
  have amt: "(word_from_le (bytes_at bs 64 72) :: u64) = of_nat (le_u64_at bs 64)" for bs
    by (simp add: word_from_le_def le_u64_at_def)
  define amm where "amm = \<lparr>ai_status = w info 0, ai_base_decimals = of_nat (le_u64_at info 32),
      ai_quote_decimals = of_nat (le_u64_at info 40), ai_trade_fee_numerator = w info 144,
      ai_trade_fee_denominator = w info 152, ai_base_vault = Pubkey (bytes_at info 336 368),
      ai_quote_vault = Pubkey (bytes_at info 368 400), ai_base_mint = Pubkey (bytes_at info 400 432),
      ai_quote_mint = Pubkey (bytes_at info 432 464)\<rparr>"
  show ?thesis
  proof (cases "le_u64_at info 0 \<in> {1..7}")
    case False
    then have "\<exists>e. decode_amm_info info = Err e"
      using True bad by (auto simp: decode_amm_info_def AMM_INFO_SIZE_def Let_def w_def)
    then show ?thesis using False by (auto simp: raydium_pool_of_def)
  next
    case ok: True
    then have "w info 0 \<noteq> 0" "1 \<le> w info 0 \<and> w info 0 \<le> 7" using bad zero by auto
    then have info: "decode_amm_info info = Ok amm"
      using True dec [of 32] dec [of 40] by (simp add: decode_amm_info_def AMM_INFO_SIZE_def Let_def w_def amm_def)
    have fee: "amm_fee_bps amm = (if le_u64_at info 152 = 0 then None
        else Some (of_nat (min (le_u64_at info 144 * 10000 div le_u64_at info 152) 65535)))"
      using den w [of 144] w [of 152] by (simp add: amm_fee_bps_value amm_def)
    have sel: "ai_base_mint amm = Pubkey (bytes_at info 400 432)" "ai_quote_mint amm = Pubkey (bytes_at info 432 464)"
      "ai_base_decimals amm = of_nat (le_u64_at info 32)" "ai_quote_decimals amm = of_nat (le_u64_at info 40)"
      by (simp_all add: amm_def)
    show ?thesis
      using True ok
      by (auto simp: raydium_pool_of_def info decode_spl_token_account_def SPL_TOKEN_ACCOUNT_SIZE_def assemble_pool_def
          fee ok_or_def amt sel)
  qed
qed

end
