(* ===== verification/WsFeed.thy ===== *)
theory WsFeed
  imports Capture Decoders
begin

text \<open>
  \<^verbatim>\<open>crates/dl-feed/src/ws_feed.rs\<close>, the JSON-RPC subscription protocol of the live feed, and
  \<^verbatim>\<open>whirlpool.rs\<close>, the decoding of Whirlpool updates. A JSON text is parsed by a function given as an
  argument; its value is the tree below. The table of waiting callers is one global of the
  process, shared by the tasks of all feeds; a caller is a number.
\<close>

section \<open>JSON values\<close>

datatype json =
    JNull
  | JBool bool
  | JInt int
  | JFloat
  | JStr string
  | JArr "json list"
  | JObj "(string \<times> json) list"

fun json_get :: "string \<Rightarrow> json \<Rightarrow> json option" where
  "json_get k (JObj m) = map_of m k"
| "json_get k _ = None"

fun as_u64 :: "json \<Rightarrow> u64 option" where
  "as_u64 (JInt i) = (if 0 \<le> i \<and> i < 2 ^ 64 then Some (of_int i) else None)"
| "as_u64 _ = None"

fun as_i64 :: "json \<Rightarrow> i64 option" where
  "as_i64 (JInt i) = (if in_range 64 i then Some i else None)"
| "as_i64 _ = None"

fun as_str :: "json \<Rightarrow> string option" where
  "as_str (JStr s) = Some s"
| "as_str _ = None"

text \<open>\<^verbatim>\<open>Value::pointer\<close>; the one index the code uses is 0.\<close>

fun json_step :: "string \<Rightarrow> json \<Rightarrow> json option" where
  "json_step tok (JObj m) = map_of m tok"
| "json_step tok (JArr xs) = (if tok = ''0'' then (case xs of [] \<Rightarrow> None | x # _ \<Rightarrow> Some x) else None)"
| "json_step tok _ = None"

fun json_pointer :: "string list \<Rightarrow> json \<Rightarrow> json option" where
  "json_pointer [] v = Some v"
| "json_pointer (tok # toks) v = Option.bind (json_step tok v) (json_pointer toks)"

section \<open>Base64\<close>

datatype b64_char = B64Value nat | B64Pad | B64Bad

definition b64_char :: "u8 \<Rightarrow> b64_char" where
  "b64_char b =
    (if 65 \<le> b \<and> b \<le> 90 then B64Value (unat (b - 65))
     else if 97 \<le> b \<and> b \<le> 122 then B64Value (unat (b - 97 + 26))
     else if 48 \<le> b \<and> b \<le> 57 then B64Value (unat (b - 48 + 52))
     else if b = 43 then B64Value 62
     else if b = 47 then B64Value 63
     else if b = 61 then B64Pad
     else B64Bad)"

fun b64_loop :: "u8 list \<Rightarrow> u32 \<Rightarrow> nat \<Rightarrow> u8 list \<Rightarrow> u8 list option" where
  "b64_loop [] acc bits out = Some out"
| "b64_loop (b # bs) acc bits out =
    (case b64_char b of
       B64Pad \<Rightarrow> b64_loop bs acc bits out
     | B64Bad \<Rightarrow> None
     | B64Value v \<Rightarrow>
         let acc1 = push_bit 6 acc OR of_nat v; bits1 = bits + 6 in
         if 8 \<le> bits1
         then b64_loop bs acc1 (bits1 - 8) (out @ [ucast (drop_bit (bits1 - 8) acc1 AND 0xFF)])
         else b64_loop bs acc1 bits1 out)"

definition base64_decode :: "u8 list \<Rightarrow> u8 list option" where
  "base64_decode s = b64_loop s 0 0 []"

section \<open>The task\<close>

datatype sub_kind = SubAccount "u8 list" | SubProgram "u8 list" | SubSlots

datatype ws_error =
    WsSendFailed
  | WsRpc i64 string
  | WsMissingResult
  | WsInvalidJson
  | WsNoParams
  | WsNoSubscription

record ws_task =
  wt_next_id :: u64
  wt_pending :: "u64 \<rightharpoonup> sub_kind"
  wt_subs :: "u64 \<rightharpoonup> sub_kind"
  wt_events :: "feed_event list"
  wt_running :: bool

definition ws_task_new :: ws_task where
  "ws_task_new = \<lparr>wt_next_id = 0, wt_pending = Map.empty, wt_subs = Map.empty, wt_events = [], wt_running = True\<rparr>"

record reply_table =
  rt_waiting :: "u64 \<rightharpoonup> nat"
  rt_answers :: "(nat \<times> (u64, ws_error) res) list"

definition reply_table_new :: reply_table where
  "reply_table_new = \<lparr>rt_waiting = Map.empty, rt_answers = []\<rparr>"

definition answer :: "nat option \<Rightarrow> (u64, ws_error) res \<Rightarrow> reply_table \<Rightarrow> reply_table" where
  "answer reply r t = (case reply of None \<Rightarrow> t | Some c \<Rightarrow> t\<lparr>rt_answers := rt_answers t @ [(c, r)]\<rparr>)"

text \<open>A subscribe command from a caller; the three commands differ in the kind they record. The
  insertion drops the sender that waited under the same number.\<close>

definition ws_command :: "bool \<Rightarrow> sub_kind \<Rightarrow> nat \<Rightarrow> ws_task \<Rightarrow> reply_table \<Rightarrow> (ws_task \<times> reply_table, unit) res" where
  "ws_command send_ok sk caller w t =
    bind_res (add_p (wt_next_id w) 1) (\<lambda>next'.
    let rid = wt_next_id w; w1 = w\<lparr>wt_next_id := next', wt_pending := (wt_pending w)(rid \<mapsto> sk)\<rparr> in
    if send_ok then Ok (w1, t\<lparr>rt_waiting := (rt_waiting t)(rid \<mapsto> caller)\<rparr>)
    else Ok (w1\<lparr>wt_pending := (wt_pending w1)(rid := None), wt_running := False\<rparr>,
             answer (Some caller) (Err WsSendFailed) t))"

definition handle_response :: "u64 \<Rightarrow> json \<Rightarrow> ws_task \<Rightarrow> reply_table \<Rightarrow> ws_task \<times> reply_table" where
  "handle_response rid value w t0 =
    (let reply = rt_waiting t0 rid; t = t0\<lparr>rt_waiting := (rt_waiting t0)(rid := None)\<rparr> in
     case json_get ''error'' value of
       Some error \<Rightarrow>
         let message = (case Option.bind (json_get ''message'' error) as_str of Some s \<Rightarrow> s | None \<Rightarrow> ''(no message)'');
             code = (case Option.bind (json_get ''code'' error) as_i64 of Some c \<Rightarrow> c | None \<Rightarrow> 0)
         in (w\<lparr>wt_pending := (wt_pending w)(rid := None)\<rparr>, answer reply (Err (WsRpc code message)) t)
     | None \<Rightarrow>
         (case Option.bind (json_get ''result'' value) as_u64 of
            None \<Rightarrow> (w\<lparr>wt_pending := (wt_pending w)(rid := None)\<rparr>, answer reply (Err WsMissingResult) t)
          | Some sub_id \<Rightarrow>
              let w1 = (case wt_pending w rid of
                  Some k \<Rightarrow> w\<lparr>wt_pending := (wt_pending w)(rid := None), wt_subs := (wt_subs w)(sub_id \<mapsto> k)\<rparr>
                | None \<Rightarrow> w)
              in (w1, answer reply (Ok sub_id) t)))"

definition handle_notification :: "json \<Rightarrow> ws_task \<Rightarrow> (ws_task, ws_error) res" where
  "handle_notification value w =
    (let method = (case Option.bind (json_get ''method'' value) as_str of Some s \<Rightarrow> s | None \<Rightarrow> '''') in
     bind_res (ok_or (json_get ''params'' value) WsNoParams) (\<lambda>params.
     bind_res (ok_or (Option.bind (json_get ''subscription'' params) as_u64) WsNoSubscription) (\<lambda>sub_id.
     case wt_subs w sub_id of
       None \<Rightarrow> Ok w
     | Some sk \<Rightarrow>
         let result = (case json_get ''result'' params of Some r \<Rightarrow> r | None \<Rightarrow> JNull) in
         (case (method = ''accountNotification'', method = ''slotNotification'', sk) of
            (True, _, SubAccount pubkey) \<Rightarrow>
              let slot = (case Option.bind (json_pointer [''context'', ''slot''] result) as_u64 of Some s \<Rightarrow> s | None \<Rightarrow> 0);
                  data_b64 = (case Option.bind (json_pointer [''value'', ''data'', ''0''] result) as_str of
                    Some s \<Rightarrow> s | None \<Rightarrow> '''');
                  data = (case base64_decode (bytes_of data_b64) of Some d \<Rightarrow> d | None \<Rightarrow> [])
              in Ok (w\<lparr>wt_events := wt_events w @ [AccountUpdate slot pubkey data]\<rparr>)
          | (_, True, SubSlots) \<Rightarrow>
              let slot = (case Option.bind (json_get ''slot'' result) as_u64 of Some s \<Rightarrow> s | None \<Rightarrow> 0)
              in Ok (w\<lparr>wt_events := wt_events w @ [SlotEvent slot]\<rparr>)
          | _ \<Rightarrow> Ok w))))"

definition handle_text ::
    "(string \<Rightarrow> json option) \<Rightarrow> string \<Rightarrow> ws_task \<Rightarrow> reply_table \<Rightarrow> (unit, ws_error) res \<times> ws_task \<times> reply_table" where
  "handle_text parse text w t =
    (case parse text of
       None \<Rightarrow> (Err WsInvalidJson, w, t)
     | Some value \<Rightarrow>
         if json_get ''method'' value \<noteq> None
         then (case handle_notification value w of
             Ok w' \<Rightarrow> (Ok (), w', t)
           | Err e \<Rightarrow> (Err e, w, t)
           | Panic \<Rightarrow> (Panic, w, t))
         else (case Option.bind (json_get ''id'' value) as_u64 of
             Some rid \<Rightarrow> (case handle_response rid value w t of (w', t') \<Rightarrow> (Ok (), w', t'))
           | None \<Rightarrow> (Ok (), w, t)))"

text \<open>What the task's loop selects: a command, the end of the commands, or what the socket has.\<close>

datatype ws_input =
    Command sub_kind nat bool
  | CommandsClosed
  | TextMessage string
  | PingMessage bool
  | CloseMessage
  | OtherMessage
  | ReadError
  | StreamEnded

definition ws_step ::
    "(string \<Rightarrow> json option) \<Rightarrow> ws_input \<Rightarrow> ws_task \<times> reply_table \<Rightarrow> (ws_task \<times> reply_table, unit) res" where
  "ws_step parse inp s =
    (case s of (w, t) \<Rightarrow>
      if \<not> wt_running w then Ok (w, t)
      else (case inp of
          Command sk caller send_ok \<Rightarrow> ws_command send_ok sk caller w t
        | TextMessage text \<Rightarrow> (case handle_text parse text w t of
              (Panic, w', t') \<Rightarrow> Panic
            | (_, w', t') \<Rightarrow> Ok (w', t'))
        | PingMessage pong_ok \<Rightarrow> Ok (w\<lparr>wt_running := pong_ok\<rparr>, t)
        | OtherMessage \<Rightarrow> Ok (w, t)
        | _ \<Rightarrow> Ok (w\<lparr>wt_running := False\<rparr>, t)))"

text \<open>The caller's side of the event channel.\<close>

datatype channel_read = Received feed_event | ChannelTimeout | Disconnected

definition ws_next_event :: "channel_read \<Rightarrow> bool \<Rightarrow> feed_event option \<times> bool" where
  "ws_next_event r exhausted =
    (if exhausted then (None, True)
     else (case r of
         Received ev \<Rightarrow> (Some ev, False)
       | ChannelTimeout \<Rightarrow> (None, False)
       | Disconnected \<Rightarrow> (None, True)))"

section \<open>Whirlpool updates\<close>

definition AMM_TAG_ORCA_WHIRLPOOL :: u8 where
  "AMM_TAG_ORCA_WHIRLPOOL = 1"

datatype whirlpool_decode_outcome = Decoded feed_event | NotAWhirlpool | DecodeFailed

definition decode_account_update :: "u8 list \<Rightarrow> u64 \<Rightarrow> u8 list \<Rightarrow> whirlpool_decode_outcome" where
  "decode_account_update pk slot data =
    (if length data \<noteq> WHIRLPOOL_ACCOUNT_SIZE then NotAWhirlpool
     else (case decode_whirlpool data of
         Ok w \<Rightarrow> Decoded (PoolEvent slot AMM_TAG_ORCA_WHIRLPOOL pk (key_bytes (wp_token_mint_x w))
           (key_bytes (wp_token_mint_y w)) (wp_fee_rate w) 0 0 (WireWhirlpool (wp_sqrt_price w)) slot)
       | _ \<Rightarrow> DecodeFailed))"

definition is_whirlpool_program :: "u8 list \<Rightarrow> bool" where
  "is_whirlpool_program program_id \<longleftrightarrow> program_id = key_bytes ORCA_WHIRLPOOL_PROGRAM_ID"

section \<open>Base64 against its definition\<close>

definition b64_digit :: "nat \<Rightarrow> u8" where
  "b64_digit v =
    (if v < 26 then of_nat (65 + v) else if v < 52 then of_nat (71 + v) else if v < 62 then of_nat (v - 4)
     else if v = 62 then 43 else 47)"

fun b64_encode :: "u8 list \<Rightarrow> u8 list" where
  "b64_encode [] = []"
| "b64_encode [a] = [b64_digit (unat a div 4), b64_digit (unat a mod 4 * 16), 61, 61]"
| "b64_encode [a, b] =
    [b64_digit (unat a div 4), b64_digit (unat a mod 4 * 16 + unat b div 16), b64_digit (unat b mod 16 * 4), 61]"
| "b64_encode (a # b # c # r) =
    [b64_digit (unat a div 4), b64_digit (unat a mod 4 * 16 + unat b div 16),
     b64_digit (unat b mod 16 * 4 + unat c div 64), b64_digit (unat c mod 64)] @ b64_encode r"

lemma b64_char_digit:
  assumes "v < 64"
  shows "b64_char (b64_digit v) = B64Value v"
proof -
  have "\<forall>v\<in>set [0..<64]. b64_char (b64_digit v) = B64Value v"
    by code_simp
  then show ?thesis
    using assms by auto
qed

lemma b64_char_pad: "b64_char 61 = B64Pad"
  by (simp add: b64_char_def)

lemma u8_small: "unat (a :: u8) < 256"
  using unsigned_less [of a, where ?'a = nat] by simp

lemma acc_push:
  fixes acc :: u32
  assumes "v < 64"
  shows "unat (push_bit 6 acc OR of_nat v) = (unat acc * 64 + v) mod 2 ^ 32"
proof -
  have v: "unat (of_nat v :: u32) = v"
    using assms by (simp add: unat_of_nat)
  have "push_bit 6 acc AND of_nat v = (0 :: u32)"
  proof (rule bit_eqI)
    fix n
    show "bit (push_bit 6 acc AND of_nat v :: u32) n = bit (0 :: u32) n"
    proof (cases "n < 6")
      case False
      have "(of_nat v :: u32) = take_bit 6 (of_nat v)"
        using assms v by (simp add: take_bit_eq_mod word_unat_eq_iff unat_mod)
      then show ?thesis
        using False by (metis bit_0_eq bit_and_iff bit_take_bit_iff bot_apply bot_bool_def)
    qed (simp add: bit_and_iff bit_push_bit_iff)
  qed
  then have "push_bit 6 acc OR of_nat v = push_bit 6 acc + of_nat v"
    by (simp add: disjunctive_add_eq_or)
  moreover have "push_bit 6 acc = acc * 64"
    by (simp add: push_bit_eq_mult)
  ultimately show ?thesis
    by (simp add: unat_word_ariths v mod_simps)
qed

lemma b64_value_short:
  assumes "v < 64" and "bits < 2"
  shows "\<exists>acc1. b64_loop (b64_digit v # bs) acc bits out = b64_loop bs acc1 (bits + 6) out
    \<and> unat acc1 = (unat acc * 64 + v) mod 2 ^ 32"
  using assms acc_push [OF assms(1), of acc] by (auto simp: b64_char_digit Let_def)

lemma mod_32_low: "k \<le> 32 \<Longrightarrow> x mod 2 ^ 32 mod 2 ^ k = x mod (2 ^ k :: nat)"
  by (rule mod_mod_cancel) (rule le_imp_power_dvd)

lemma shifted_mod:
  assumes "v < 64"
  shows "(x * 64 + v) mod 2 ^ (k + 6) = x mod 2 ^ k * 64 + (v :: nat)"
proof -
  have "x mod 2 ^ k * 64 + v < 2 ^ (k + 6)"
    using assms mult_le_mono1 [of "Suc (x mod 2 ^ k)" "2 ^ k" 64] by (simp add: power_add Suc_le_eq)
  moreover have "(x * 64) mod 2 ^ (k + 6) = x mod 2 ^ k * 64"
    using mult_mod_right [of x "2 ^ k" 64] by (simp add: power_add mult.commute)
  ultimately show ?thesis
    by (metis mod_add_left_eq mod_less)
qed

lemma b64_value_full:
  assumes v: "v < 64" and b: "2 \<le> bits" "bits \<le> 8"
  shows "\<exists>acc1. b64_loop (b64_digit v # bs) acc bits out
      = b64_loop bs acc1 (bits - 2) (out @ [of_nat ((unat acc mod 2 ^ bits * 64 + v) div 2 ^ (bits - 2))])
    \<and> unat acc1 = (unat acc * 64 + v) mod 2 ^ 32"
proof -
  let ?A = "push_bit 6 acc OR of_nat v :: u32" and ?k = "bits - 2"
  have k: "?k + 8 = bits + 6"
    using b by simp
  have "(ucast (drop_bit ?k ?A AND 0xFF) :: u8) = of_nat (unat (drop_bit ?k ?A AND 0xFF))"
    by simp
  also have "unat (drop_bit ?k ?A AND 0xFF) = unat ?A div 2 ^ ?k mod 2 ^ 8"
  proof -
    have "drop_bit ?k ?A AND 0xFF = take_bit 8 (drop_bit ?k ?A)"
      by (simp only: take_bit_eq_mask mask_eq_exp_minus_1) simp
    then show ?thesis
      by (simp only: unsigned_take_bit_eq unat_drop_bit_eq) (simp only: take_bit_eq_mod drop_bit_eq_div)
  qed
  also have "\<dots> = unat ?A mod 2 ^ (bits + 6) div 2 ^ ?k"
    by (simp only: div_exp_mod_exp_eq k [symmetric])
  also have "unat ?A mod 2 ^ (bits + 6) = (unat acc * 64 + v) mod 2 ^ (bits + 6)"
  proof -
    have "(2 :: nat) ^ (bits + 6) dvd 2 ^ 32"
      using b by (intro le_imp_power_dvd) simp
    then show ?thesis
      by (simp only: acc_push [OF v] mod_mod_cancel)
  qed
  also have "\<dots> = unat acc mod 2 ^ bits * 64 + v"
    by (rule shifted_mod [OF v])
  finally show ?thesis
  proof (intro exI [of _ ?A] conjI)
    assume out: "ucast (drop_bit ?k ?A AND 0xFF) = (of_nat ((unat acc mod 2 ^ bits * 64 + v) div 2 ^ ?k) :: u8)"
    have k: "8 \<le> bits + 6" "bits + 6 - 8 = ?k"
      using b by simp_all
    show "b64_loop (b64_digit v # bs) acc bits out
        = b64_loop bs ?A ?k (out @ [of_nat ((unat acc mod 2 ^ bits * 64 + v) div 2 ^ ?k)])"
      by (simp only: b64_loop.simps b64_char_digit [OF v] b64_char.case Let_def k if_True out)
  qed (rule acc_push [OF v])
qed

text \<open>A group of four digits starts and ends with no pending bits.\<close>

declare b64_loop.simps(2) [simp del]

lemma b64_pads: "b64_loop [61, 61] acc bits out = Some out" "b64_loop [61] acc bits out = Some out"
  by (simp_all add: b64_char_pad b64_loop.simps)

lemma b64_two:
  assumes "v0 < 64" "v1 < 64"
  shows "\<exists>acc2. b64_loop (b64_digit v0 # b64_digit v1 # bs) acc 0 out
      = b64_loop bs acc2 4 (out @ [of_nat (v0 * 4 + v1 div 16)])
    \<and> unat acc2 mod 16 = v1 mod 16"
proof -
  obtain a1 where a1: "b64_loop (b64_digit v0 # b64_digit v1 # bs) acc 0 out = b64_loop (b64_digit v1 # bs) a1 6 out"
      "unat a1 = (unat acc * 64 + v0) mod 2 ^ 32"
    using b64_value_short [OF assms(1), of 0 "b64_digit v1 # bs" acc out] by auto
  have r1: "unat a1 mod 2 ^ 6 = v0"
    using shifted_mod [OF assms(1), of "unat acc" 0] mod_32_low [of 6] a1(2) by simp
  obtain a2 where a2: "b64_loop (b64_digit v1 # bs) a1 6 out = b64_loop bs a2 4 (out @ [of_nat ((v0 * 64 + v1) div 2 ^ 4)])"
      "unat a2 = (unat a1 * 64 + v1) mod 2 ^ 32"
    using b64_value_full [OF assms(2), of 6 bs a1 out] unfolding r1 by auto
  have "unat a2 mod 16 = (unat a1 * 64 + v1) mod 16"
    using mod_32_low [of 4] a2(2) by simp
  also have "\<dots> = v1 mod 16"
    using mod_mult_self3 [of "unat a1 * 4" 16 v1] by (simp only: mult.assoc) simp
  finally have "unat a2 mod 16 = v1 mod 16" .
  moreover have "(v0 * 64 + v1) div 2 ^ 4 = v0 * 4 + v1 div 16"
    by simp
  ultimately show ?thesis
    using a1(1) a2(1) by metis
qed

lemma b64_third:
  assumes "v2 < 64"
  shows "\<exists>acc3. b64_loop (b64_digit v2 # bs) acc 4 out
      = b64_loop bs acc3 2 (out @ [of_nat (unat acc mod 16 * 16 + v2 div 4)])
    \<and> unat acc3 mod 4 = v2 mod 4"
proof -
  obtain a where a: "b64_loop (b64_digit v2 # bs) acc 4 out
      = b64_loop bs a 2 (out @ [of_nat ((unat acc mod 2 ^ 4 * 64 + v2) div 2 ^ 2)])" "unat a = (unat acc * 64 + v2) mod 2 ^ 32"
    using b64_value_full [OF assms, of 4 bs acc out] by auto
  have "unat a mod 4 = (unat acc * 64 + v2) mod 4"
    using mod_32_low [of 2] a(2) by simp
  also have "\<dots> = v2 mod 4"
    using mod_mult_self3 [of "unat acc * 16" 4 v2] by (simp only: mult.assoc) simp
  finally have "unat a mod 4 = v2 mod 4" .
  moreover have "(unat acc mod 2 ^ 4 * 64 + v2) div 2 ^ 2 = unat acc mod 16 * 16 + v2 div 4"
    by simp
  ultimately show ?thesis
    using a(1) by metis
qed

lemma b64_fourth:
  assumes "v3 < 64"
  shows "\<exists>acc4. b64_loop (b64_digit v3 # bs) acc 2 out = b64_loop bs acc4 0 (out @ [of_nat (unat acc mod 4 * 64 + v3)])"
  using b64_value_full [OF assms, of 2 bs acc out] by auto

lemma byte_parts:
  "of_nat (unat a div 4 * 4 + unat a mod 4) = (a :: u8)"
  "of_nat (unat a div 16 * 16 + unat a mod 16) = (a :: u8)"
  "of_nat (unat a div 64 * 64 + unat a mod 64) = (a :: u8)"
  by (simp_all only: div_mult_mod_eq of_nat_unat ucast_id)

lemma b64_loop_encode: "b64_loop (b64_encode bs) acc 0 out = Some (out @ bs)"
proof (induction bs arbitrary: acc out rule: b64_encode.induct)
  case (2 a)
  have v: "unat a div 4 < 64" "unat a mod 4 * 16 < 64"
    using u8_small [of a] by auto
  then show ?case
    using b64_two [OF v, of "[61, 61]" acc out] byte_parts(1) [of a] by (auto simp del: of_nat_add of_nat_mult simp: b64_pads)
next
  case (3 a b)
  have v: "unat a div 4 < 64" "unat a mod 4 * 16 + unat b div 16 < 64" "unat b mod 16 * 4 < 64"
    using u8_small [of a] u8_small [of b] by auto
  have e: "(unat a mod 4 * 16 + unat b div 16) div 16 = unat a mod 4"
    "(unat a mod 4 * 16 + unat b div 16) mod 16 = unat b div 16"
    using u8_small [of b] by (auto simp: div_add1_eq mod_add_eq [symmetric])
  obtain a2 where 2: "b64_loop (b64_encode [a, b]) acc 0 out = b64_loop [b64_digit (unat b mod 16 * 4), 61] a2 4 (out @ [a])"
      "unat a2 mod 16 = unat b div 16"
    using b64_two [OF v(1,2), of "[b64_digit (unat b mod 16 * 4), 61]" acc out] unfolding e byte_parts by auto
  have q: "unat b mod 16 * 4 div 4 = unat b mod 16"
    by simp
  show ?case
    using b64_third [OF v(3), of "[61]" a2 "out @ [a]"] unfolding 2 q byte_parts b64_pads by auto
next
  case (4 a b c r)
  have v: "unat a div 4 < 64" "unat a mod 4 * 16 + unat b div 16 < 64"
      "unat b mod 16 * 4 + unat c div 64 < 64" "unat c mod 64 < 64"
    using u8_small [of a] u8_small [of b] u8_small [of c] by auto
  have e: "(unat a mod 4 * 16 + unat b div 16) div 16 = unat a mod 4"
    "(unat a mod 4 * 16 + unat b div 16) mod 16 = unat b div 16"
    "(unat b mod 16 * 4 + unat c div 64) div 4 = unat b mod 16"
    "(unat b mod 16 * 4 + unat c div 64) mod 4 = unat c div 64"
    using u8_small [of b] u8_small [of c] by (auto simp: div_add1_eq mod_add_eq [symmetric])
  obtain a2 where 2: "b64_loop (b64_encode (a # b # c # r)) acc 0 out
      = b64_loop (b64_digit (unat b mod 16 * 4 + unat c div 64) # b64_digit (unat c mod 64) # b64_encode r) a2 4 (out @ [a])"
      "unat a2 mod 16 = unat b div 16"
    using b64_two [OF v(1,2), of _ acc out] unfolding e byte_parts by auto
  obtain a3 where 3: "b64_loop (b64_digit (unat b mod 16 * 4 + unat c div 64) # b64_digit (unat c mod 64) # b64_encode r) a2 4 (out @ [a])
      = b64_loop (b64_digit (unat c mod 64) # b64_encode r) a3 2 ((out @ [a]) @ [b])" "unat a3 mod 4 = unat c div 64"
    using b64_third [OF v(3), of _ a2 "out @ [a]"] unfolding e 2(2) byte_parts by auto
  show ?case
    using b64_fourth [OF v(4), of "b64_encode r" a3 "(out @ [a]) @ [b]"] 4
    unfolding 2(1) 3(1) unfolding 3(2) byte_parts by auto
qed (simp)

text \<open>The decoder inverts the standard encoding.\<close>

lemma base64_round_trip: "base64_decode (b64_encode bs) = Some bs"
  by (simp add: base64_decode_def b64_loop_encode)

section \<open>Runs of a feed\<close>

fun ws_run :: "(string \<Rightarrow> json option) \<Rightarrow> ws_input list \<Rightarrow> ws_task \<times> reply_table \<Rightarrow> (ws_task \<times> reply_table, unit) res" where
  "ws_run parse [] s = Ok s"
| "ws_run parse (i # ins) s = bind_res (ws_step parse i s) (ws_run parse ins)"

fun commanded :: "ws_input list \<Rightarrow> sub_kind set" where
  "commanded [] = {}"
| "commanded (Command sk c ok # ins) = insert sk (commanded ins)"
| "commanded (i # ins) = commanded ins"

primrec event_kind :: "feed_event \<Rightarrow> sub_kind option" where
  "event_kind (SlotEvent s) = Some SubSlots"
| "event_kind (AccountUpdate s pk d) = Some (SubAccount pk)"
| "event_kind (PoolEvent a b c d e f g h i j) = None"
| "event_kind (StalePoolHalt a b c) = None"

text \<open>What the task holds and what it sent came from the commands \<open>K\<close>.\<close>

definition ws_within :: "sub_kind set \<Rightarrow> ws_task \<Rightarrow> bool" where
  "ws_within K w \<longleftrightarrow> ran (wt_pending w) \<subseteq> K \<and> ran (wt_subs w) \<subseteq> K \<and> event_kind ` set (wt_events w) \<subseteq> Some ` K"

lemma ws_within_new: "ws_within K ws_task_new"
  by (simp add: ws_within_def ws_task_new_def)

lemma ws_within_mono: "ws_within K w \<Longrightarrow> K \<subseteq> K' \<Longrightarrow> ws_within K' w"
  unfolding ws_within_def by blast

lemma ran_clearD: "x \<in> ran (m(k := None)) \<Longrightarrow> x \<in> ran m"
  by (auto simp: ran_def split: if_splits)

lemma ran_updD: "x \<in> ran (m(k \<mapsto> y)) \<Longrightarrow> x = y \<or> x \<in> ran m"
  by (auto simp: ran_def split: if_splits)

lemma ws_command_within:
  assumes "ws_command ok sk c w t = Ok (w', t')" and "ws_within K w" and "sk \<in> K"
  shows "ws_within K w'"
  using assms unfolding ws_command_def ws_within_def
  by (cases "add_p (wt_next_id w) 1 :: (u64, unit) res") (auto simp: Let_def dest!: ran_clearD ran_updD split: if_splits)

lemma handle_response_within:
  assumes "handle_response rid v w t = (w', t')" and "ws_within K w"
  shows "ws_within K w'"
proof -
  have "wt_pending w rid = Some k \<Longrightarrow> k \<in> K" for k
    using assms(2) by (auto simp: ws_within_def intro: ranI)
  then show ?thesis
    using assms unfolding handle_response_def ws_within_def
    by (auto simp: Let_def split: option.splits dest!: ran_clearD ran_updD)
qed

lemma handle_notification_cases:
  assumes "handle_notification v w = Ok w'"
  obtains "w' = w"
  | i sk ev where "wt_subs w i = Some sk" "event_kind ev = Some sk" "w' = w\<lparr>wt_events := wt_events w @ [ev]\<rparr>"
proof -
  from assms obtain params sub_id where n: "Option.bind (json_get ''subscription'' params) as_u64 = Some sub_id"
      "json_get ''params'' v = Some params"
    unfolding handle_notification_def Let_def bind_res_Ok_iff ok_or_Ok_iff by blast
  show thesis
  proof (cases "wt_subs w sub_id")
    case None
    then show thesis
      using assms that(1) by (simp add: handle_notification_def n Let_def ok_or_def)
  next
    case (Some sk)
    let ?m = "case Option.bind (json_get ''method'' v) as_str of Some s \<Rightarrow> s | None \<Rightarrow> ''''"
    show thesis
      using assms that(1) that(2) [OF Some]
      by (cases sk; cases "?m = ''accountNotification''"; cases "?m = ''slotNotification''")
        (simp_all add: handle_notification_def n Some Let_def ok_or_def, (metis event_kind.simps)+)
  qed
qed

lemma handle_notification_within:
  assumes "handle_notification v w = Ok w'" and "ws_within K w"
  shows "ws_within K w'"
  using assms(1)
proof (cases rule: handle_notification_cases)
  case (2 i sk ev)
  then have "sk \<in> K"
    using assms(2) by (auto simp: ws_within_def intro: ranI)
  then show ?thesis
    using 2 assms(2) by (auto simp: ws_within_def)
qed (use assms(2) in simp)

lemma ws_step_within:
  assumes "ws_step parse i (w, t) = Ok (w', t')" and "ws_within K w" and "commanded [i] \<subseteq> K"
  shows "ws_within K w'"
proof (cases "wt_running w")
  case True
  show ?thesis
  proof (cases i)
    case (Command sk c ok)
    then show ?thesis
      using assms True by (auto simp: ws_step_def intro: ws_command_within)
  next
    case (TextMessage msg)
    then have "handle_text parse msg w t = (r, w', t') \<Longrightarrow> ws_within K w'" for r
      using assms(2) unfolding handle_text_def
      by (auto split: option.splits if_splits res.splits prod.splits
          intro: handle_notification_within handle_response_within)
    then show ?thesis
      using assms(1) TextMessage True by (auto simp: ws_step_def split: prod.splits res.splits)
  qed (insert assms True, auto simp: ws_step_def ws_within_def)
next
  case False
  then show ?thesis
    using assms by (simp add: ws_step_def)
qed

lemma commanded_Cons: "commanded (i # ins) = commanded [i] \<union> commanded ins"
  by (cases i) auto

lemma ws_run_within:
  assumes "ws_run parse ins (w, t) = Ok (w', t')" and "ws_within K w"
  shows "ws_within (K \<union> commanded ins) w'"
  using assms
proof (induction ins arbitrary: w t K)
  case (Cons i ins)
  from Cons.prems(1) obtain w1 t1 where 1: "ws_step parse i (w, t) = Ok (w1, t1)" "ws_run parse ins (w1, t1) = Ok (w', t')"
    by (auto simp: bind_res_Ok_iff)
  have "ws_within (K \<union> commanded [i]) w1"
    using ws_step_within [OF 1(1) ws_within_mono [OF Cons.prems(2)]] by blast
  from Cons.IH [OF 1(2) this] show ?case
    by (simp only: commanded_Cons [of i ins] Un_assoc)
qed simp

text \<open>A feed delivers only what was commanded: every event a run from the start sends down the
  channel is an update of an account for which an account subscription was commanded in that run,
  or a slot event after a slot subscription was commanded, whatever the socket delivered.\<close>

lemma only_commanded_subscriptions_deliver:
  assumes "ws_run parse ins (ws_task_new, t) = Ok (w, t')" and "ev \<in> set (wt_events w)"
  shows "\<exists>sk\<in>commanded ins. event_kind ev = Some sk"
  using ws_run_within [OF assms(1) ws_within_new, of "{}"] assms(2) by (auto simp: ws_within_def)

section \<open>A subscription from the command to the event\<close>

definition subscribed_reply :: "u64 \<Rightarrow> u64 \<Rightarrow> json" where
  "subscribed_reply rid sub = JObj [(''jsonrpc'', JStr ''2.0''), (''result'', JInt (uint sub)), (''id'', JInt (uint rid))]"

definition account_note :: "u64 \<Rightarrow> u64 \<Rightarrow> string \<Rightarrow> json" where
  "account_note sub slt data =
    JObj [(''jsonrpc'', JStr ''2.0''), (''method'', JStr ''accountNotification''),
      (''params'', JObj [(''subscription'', JInt (uint sub)),
        (''result'', JObj [(''context'', JObj [(''slot'', JInt (uint slt))]),
           (''value'', JObj [(''data'', JArr [JStr data, JStr ''base64''])])])])]"

lemma as_u64_uint [simp]: "as_u64 (JInt (uint x)) = Some x"
  using unsigned_less [of x, where ?'a = int] by simp

lemma handle_text_reply:
  assumes "parse text = Some (subscribed_reply rid sub)" and "wt_pending w rid = Some sk"
  shows "handle_text parse text w t =
    (Ok (), w\<lparr>wt_pending := (wt_pending w)(rid := None), wt_subs := (wt_subs w)(sub \<mapsto> sk)\<rparr>,
     answer (rt_waiting t rid) (Ok sub) (t\<lparr>rt_waiting := (rt_waiting t)(rid := None)\<rparr>))"
  by (simp add: handle_text_def assms subscribed_reply_def handle_response_def Let_def del: as_u64.simps)

lemma handle_text_account:
  assumes "parse text = Some (account_note sub slt s)" and "wt_subs w sub = Some (SubAccount pk)"
    and "bytes_of s = b64_encode d"
  shows "handle_text parse text w t = (Ok (), w\<lparr>wt_events := wt_events w @ [AccountUpdate slt pk d]\<rparr>, t)"
proof -
  have "base64_decode (b64_encode d) = Some d"
    by (simp add: base64_decode_def b64_loop_encode)
  then show ?thesis
    by (simp add: handle_text_def assms account_note_def handle_notification_def Let_def ok_or_def del: as_u64.simps)
qed



definition sample_parse :: "string \<Rightarrow> json option" where
  "sample_parse s =
    (if s = ''reply'' then Some (subscribed_reply 0 7)
     else if s = ''note'' then Some (account_note 7 99 ''AQID'')
     else None)"

lemma sample_bytes: "bytes_of ''AQID'' = b64_encode [1, 2, 3]"
  by code_simp


lemma only_commanded_subscriptions_deliver_witness:
  "event_kind (AccountUpdate 99 [4] [1, 2, 3]) \<in> Some ` commanded [Command (SubAccount [4]) 3 True, TextMessage ''reply'', TextMessage ''note'']"
proof -
  have "base64_decode (b64_encode [1, 2, 3]) = Some [1, 2, 3]"
    unfolding base64_decode_def b64_loop_encode by simp
  then obtain w t where "ws_run sample_parse [Command (SubAccount [4]) 3 True, TextMessage ''reply'', TextMessage ''note'']
      (ws_task_new, reply_table_new) = Ok (w, t)" "AccountUpdate 99 [4] [1, 2, 3] \<in> set (wt_events w)"
    by (auto simp: ws_step_def ws_task_new_def reply_table_new_def ws_command_def add_p_def Let_def sample_parse_def
        handle_text_reply [where parse = sample_parse and rid = 0 and sub = 7]
        handle_text_account [where parse = sample_parse and sub = 7 and slt = 99 and s = "''AQID''", OF _ _ sample_bytes])
  then show ?thesis
    using only_commanded_subscriptions_deliver by (metis image_eqI)
qed

text \<open>Two feeds and their one reply table: each step is a step of one of the tasks.\<close>

fun ws_pair_step ::
    "(string \<Rightarrow> json option) \<Rightarrow> bool \<times> ws_input \<Rightarrow> ws_task \<times> ws_task \<times> reply_table \<Rightarrow> (ws_task \<times> ws_task \<times> reply_table, unit) res" where
  "ws_pair_step parse (True, i) (a, b, t) = bind_res (ws_step parse i (a, t)) (\<lambda>(a', t'). Ok (a', b, t'))"
| "ws_pair_step parse (False, i) (a, b, t) = bind_res (ws_step parse i (b, t)) (\<lambda>(b', t'). Ok (a, b', t'))"

fun ws_pair_run ::
    "(string \<Rightarrow> json option) \<Rightarrow> (bool \<times> ws_input) list \<Rightarrow> ws_task \<times> ws_task \<times> reply_table \<Rightarrow> (ws_task \<times> ws_task \<times> reply_table, unit) res" where
  "ws_pair_run parse [] s = Ok s"
| "ws_pair_run parse (i # ins) s = bind_res (ws_pair_step parse i s) (ws_pair_run parse ins)"

text \<open>The table of waiting callers is shared by all feeds of the process while every feed numbers its
  requests from zero: when two new feeds subscribe, the first feed's confirmation is handed to the
  second feed's caller, and the second feed's own confirmation reaches nobody.\<close>

lemma shared_reply_table_crosses_feeds:
  assumes "parse reply_a = Some (subscribed_reply 0 sub_a)" and "parse reply_b = Some (subscribed_reply 0 sub_b)"
  obtains a b t where
    "ws_pair_run parse [(True, Command sk_a caller_a True), (False, Command sk_b caller_b True),
        (True, TextMessage reply_a), (False, TextMessage reply_b)] (ws_task_new, ws_task_new, reply_table_new)
      = Ok (a, b, t)"
    and "rt_answers t = [(caller_b, Ok sub_a)]" and "rt_waiting t = Map.empty"
    and "wt_subs a sub_a = Some sk_a" and "wt_subs b sub_b = Some sk_b"
  by (rule that, simp add: ws_step_def ws_task_new_def reply_table_new_def ws_command_def add_p_def Let_def
      handle_text_reply [where parse = parse, OF assms(1)] handle_text_reply [where parse = parse, OF assms(2)] answer_def)
    simp_all

lemma shared_reply_table_crosses_feeds_witness:
  "\<exists>a b t. ws_pair_run (\<lambda>s. if s = ''a'' then Some (subscribed_reply 0 7) else Some (subscribed_reply 0 8))
      [(True, Command SubSlots 1 True), (False, Command SubSlots 2 True), (True, TextMessage ''a''), (False, TextMessage ''b'')]
      (ws_task_new, ws_task_new, reply_table_new) = Ok (a, b, t)
    \<and> rt_answers t = [(2, Ok 7)]"
  by (rule shared_reply_table_crosses_feeds
      [where parse = "\<lambda>s. if s = ''a'' then Some (subscribed_reply 0 7) else Some (subscribed_reply 0 8)"
        and reply_a = "''a''" and reply_b = "''b''" and sub_a = 7 and sub_b = 8
        and sk_a = SubSlots and sk_b = SubSlots and caller_a = 1 and caller_b = 2]) auto

text \<open>The decoder of Whirlpool updates never reports a failed decoding: an account of the right
  length always decodes, so an update is either an event or not a Whirlpool.\<close>

lemma decode_account_update_never_fails: "decode_account_update pk slt data \<noteq> DecodeFailed"
  by (auto simp: decode_account_update_def decode_whirlpool_def split: res.splits)

end
