(* ===== verification/Streaming.thy ===== *)
theory Streaming
  imports Detector Capture Decoders
begin

text \<open>
  \<^verbatim>\<open>crates/dl-stream\<close>: the incremental price graph and the detector over it (\<^verbatim>\<open>detector.rs\<close>), the
  latency histogram (\<^verbatim>\<open>latency.rs\<close>) and the loop that drives them (\<^verbatim>\<open>pipeline.rs\<close>). Functions that
  \<^verbatim>\<open>detector.rs\<close> duplicates from \<^verbatim>\<open>dl-detect\<close> have the prefix \<open>stream_\<close>.
\<close>

section \<open>Rates and weights\<close>

definition stream_fee_multiplier_1e18 :: "u16 \<Rightarrow> u128" where
  "stream_fee_multiplier_1e18 fee =
    (if 10000 \<le> fee then 0 else sat_mul_w (10000 - ucast fee) ONE_1E18 div 10000)"

definition stream_effective_rate_1e18 :: "u64 \<Rightarrow> u64 \<Rightarrow> u16 \<Rightarrow> (u128, detect_error) res" where
  "stream_effective_rate_1e18 in_reserve out_reserve fee =
    (if out_reserve = 0 then Ok 0
     else (case mul_div_floor (ucast in_reserve) (stream_fee_multiplier_1e18 fee) (ucast out_reserve) of
         Ok v \<Rightarrow> Ok v
       | Err _ \<Rightarrow> Ok 0
       | Panic \<Rightarrow> Panic))"

definition stream_weight_from_rate :: "u128 \<Rightarrow> i64" where
  "stream_weight_from_rate rate =
    (if rate = 0 then smax 64
     else - clamp_i 64 (int (bit_length (unat rate)) * (1000000000000000000 sdiv 32)))"

section \<open>The streaming graph\<close>

text \<open>The first eight bytes of a key as a number.\<close>

definition pool_key :: "pubkey \<Rightarrow> u64" where
  "pool_key pk = u64_from_le (take 8 (key_bytes pk))"

record streaming_graph =
  sg_graph :: graph
  pool_to_edges :: "u64 \<rightharpoonup> usize list"

fun index_edges :: "(usize \<times> edge) list \<Rightarrow> (u64 \<rightharpoonup> usize list) \<Rightarrow> (u64 \<rightharpoonup> usize list)" where
  "index_edges [] m = m"
| "index_edges ((i, e) # ies) m =
    (let k = pool_key (edge_pool e); is = (case m k of Some is \<Rightarrow> is | None \<Rightarrow> [])
     in index_edges ies (m(k \<mapsto> is @ [i])))"

definition streaming_new :: "pool list \<Rightarrow> (streaming_graph, detect_error) res" where
  "streaming_new pools =
    bind_res (build_from_pools pools) (\<lambda>g.
      Ok \<lparr>sg_graph = g, pool_to_edges = index_edges (enumerate 0 (edges g)) Map.empty\<rparr>)"

definition reweighted :: "pool \<Rightarrow> edge \<Rightarrow> (edge, detect_error) res" where
  "reweighted p e =
    (case (if is_base_to_quote e then (base_reserve p, quote_reserve p) else (quote_reserve p, base_reserve p)) of
       (in_reserve, out_reserve) \<Rightarrow>
         bind_res (stream_effective_rate_1e18 in_reserve out_reserve (fee_bps p)) (\<lambda>rate.
           Ok (e\<lparr>edge_weight := stream_weight_from_rate rate\<rparr>)))"

fun reweigh_all :: "pool \<Rightarrow> usize list \<Rightarrow> edge list \<Rightarrow> (edge list, detect_error) res" where
  "reweigh_all p [] es = Ok es"
| "reweigh_all p (i # is) es =
    bind_res (index_p es i) (\<lambda>e. bind_res (reweighted p e) (\<lambda>e'. reweigh_all p is (es[i := e'])))"

definition update_pool :: "pool \<Rightarrow> streaming_graph \<Rightarrow> (bool \<times> streaming_graph, detect_error) res" where
  "update_pool p s =
    (case pool_to_edges s (pool_key (address p)) of
       None \<Rightarrow> Ok (False, s)
     | Some is \<Rightarrow> bind_res (reweigh_all p is (edges (sg_graph s))) (\<lambda>es.
         Ok (True, s\<lparr>sg_graph := (sg_graph s)\<lparr>edges := es\<rparr>\<rparr>)))"

definition streaming_add_pool :: "pool \<Rightarrow> streaming_graph \<Rightarrow> (bool \<times> streaming_graph, detect_error) res" where
  "streaming_add_pool p s =
    (let k = pool_key (address p) in
     if pool_to_edges s k \<noteq> None then Ok (False, s)
     else (case build_from_pools [p] of
         Panic \<Rightarrow> Panic
       | Err _ \<Rightarrow> Ok (False, s)
       | Ok single \<Rightarrow>
           let n = length (edges (sg_graph s)) in
           Ok (True, \<lparr>sg_graph = (sg_graph s)\<lparr>edges := edges (sg_graph s) @ edges single\<rparr>,
                pool_to_edges = (pool_to_edges s)(k \<mapsto> [n ..< n + length (edges single)])\<rparr>)))"

definition streaming_detect :: "streaming_graph \<Rightarrow> (cycle list, detect_error) res" where
  "streaming_detect s = find_negative_cycles (sg_graph s) 4"

definition edges_for :: "pubkey \<Rightarrow> streaming_graph \<Rightarrow> nat" where
  "edges_for pk s = (case pool_to_edges s (pool_key pk) of Some is \<Rightarrow> length is | None \<Rightarrow> 0)"

definition on_pool_update :: "pool \<Rightarrow> streaming_graph \<Rightarrow> (cycle list \<times> streaming_graph, detect_error) res" where
  "on_pool_update p s =
    bind_res (update_pool p s) (\<lambda>(known, s1).
    bind_res (if known then Ok s1
              else bind_res (streaming_add_pool p s1) (\<lambda>(_, s2).
                   bind_res (update_pool p s2) (\<lambda>(_, s3). Ok s3))) (\<lambda>s'.
    bind_res (streaming_detect s') (\<lambda>cs. Ok (cs, s'))))"

section \<open>The latency histogram\<close>

definition BUCKETS :: "u64 list" where
  "BUCKETS = [1, 2, 4, 8, 16, 32, 64, 128, 256, 512, 1024, - 1]"

record latency_histogram =
  lh_buckets :: "u64 list"
  lh_count :: u64
  lh_sum_ms :: u64

definition histogram_new :: latency_histogram where
  "histogram_new = \<lparr>lh_buckets = replicate (length BUCKETS) 0, lh_count = 0, lh_sum_ms = 0\<rparr>"

fun bucket_position :: "u64 \<Rightarrow> u64 list \<Rightarrow> nat option" where
  "bucket_position ms [] = None"
| "bucket_position ms (b # bs) = (if ms \<le> b then Some 0 else map_option Suc (bucket_position ms bs))"

text \<open>The elapsed time is a number of milliseconds; the atomics wrap.\<close>

definition histogram_record :: "nat \<Rightarrow> latency_histogram \<Rightarrow> latency_histogram" where
  "histogram_record elapsed h =
    (let ms = (of_nat (min elapsed (2 ^ 64 - 1)) :: u64);
         idx = (case bucket_position ms BUCKETS of Some i \<Rightarrow> i | None \<Rightarrow> length BUCKETS - 1)
     in \<lparr>lh_buckets = (lh_buckets h)[idx := lh_buckets h ! idx + 1],
         lh_count = lh_count h + 1, lh_sum_ms = lh_sum_ms h + ms\<rparr>)"

record latency_snapshot =
  p50_ms :: u64
  p95_ms :: u64
  p99_ms :: u64
  ls_count :: u64
  ls_sum_ms :: u64
  mean_ms :: u64
  ls_buckets :: "u64 list"

fun percentile_scan ::
    "(u64 \<times> u64) list \<Rightarrow> u64 \<Rightarrow> u64 \<times> u64 \<times> u64 \<Rightarrow> u64 \<times> u64 \<times> u64 \<Rightarrow> u64 \<times> u64 \<times> u64" where
  "percentile_scan [] cumulative targets ps = ps"
| "percentile_scan ((b, c) # bcs) cumulative (t50, t95, t99) (p50, p95, p99) =
    (let cum = sat_add_w cumulative c
     in percentile_scan bcs cum (t50, t95, t99)
          (if p50 = 0 \<and> t50 \<le> cum then b else p50,
           if p95 = 0 \<and> t95 \<le> cum then b else p95,
           if p99 = 0 \<and> t99 \<le> cum then b else p99))"

definition histogram_snapshot :: "latency_histogram \<Rightarrow> (latency_snapshot, unit) res" where
  "histogram_snapshot h =
    (let count = lh_count h; mean = (if 0 < count then lh_sum_ms h div count else 0) in
     bind_res (if count = 0 then Ok (0, 0, 0)
       else bind_res (mul_p count 95) (\<lambda>c95. bind_res (mul_p count 99) (\<lambda>c99.
         Ok (percentile_scan (zip BUCKETS (lh_buckets h)) 0 (count div 2, c95 div 100, c99 div 100) (0, 0, 0)))))
       (\<lambda>(p50, p95, p99).
         Ok \<lparr>p50_ms = p50, p95_ms = p95, p99_ms = p99, ls_count = count, ls_sum_ms = lh_sum_ms h,
             mean_ms = mean, ls_buckets = lh_buckets h\<rparr>))"

definition meets_budget :: "latency_snapshot \<Rightarrow> bool" where
  "meets_budget s \<longleftrightarrow> ls_count s = 0 \<or> p99_ms s < 80"

section \<open>The loop\<close>

record run_config =
  shutdown_after_n_cycles :: u64
  shutdown_after :: "nat option"

datatype pipeline_exit = CycleLimit | TimeLimit | FeedExhausted | GracefulShutdown

text \<open>
  What one iteration sees: the elapsed time, the shutdown signal, the feed's answer and the time the
  identification takes. The run on a list of such observations ends with an exit, or is still running.
\<close>

record tick =
  tk_elapsed :: nat
  tk_signal :: bool
  tk_event :: "feed_event option"
  tk_took :: nat

fun stream_run :: "run_config \<Rightarrow> tick list \<Rightarrow> u64 \<Rightarrow> latency_histogram \<Rightarrow>
    (pipeline_exit option \<times> u64 \<times> latency_histogram)" where
  "stream_run cfg [] cycles h = (None, cycles, h)"
| "stream_run cfg (t # ts) cycles h =
    (if (case shutdown_after cfg of Some deadline \<Rightarrow> deadline \<le> tk_elapsed t | None \<Rightarrow> False)
     then (Some TimeLimit, cycles, h)
     else if 0 < shutdown_after_n_cycles cfg \<and> shutdown_after_n_cycles cfg \<le> cycles then (Some CycleLimit, cycles, h)
     else if tk_signal t then (Some GracefulShutdown, cycles, h)
     else (case tk_event t of
         None \<Rightarrow> (Some FeedExhausted, cycles, h)
       | Some (AccountUpdate _ _ data) \<Rightarrow>
           if length data < 32 then stream_run cfg ts cycles h
           else if identify_amm_by_program (Pubkey (take 32 data)) = None then stream_run cfg ts cycles h
           else stream_run cfg ts cycles (histogram_record (tk_took t) h)
       | Some _ \<Rightarrow> stream_run cfg ts cycles h))"

section \<open>The duplicated weights\<close>

definition stream_rate_nat :: "nat \<Rightarrow> nat \<Rightarrow> nat \<Rightarrow> nat" where
  "stream_rate_nat in_reserve out_reserve fee =
    (if out_reserve = 0 then 0 else in_reserve * (10 ^ 18 - fee * 10 ^ 14) div out_reserve)"

definition stream_weight_spec :: "nat \<Rightarrow> int" where
  "stream_weight_spec rate = (if rate = 0 then smax 64 else - (int (bit_length rate) * 31250000000000000))"

lemma stream_fee_multiplier_value: "unat (stream_fee_multiplier_1e18 fee) = 10 ^ 18 - unat fee * 10 ^ 14"
proof (cases "10000 \<le> fee")
  case True
  then show ?thesis
    by (simp add: stream_fee_multiplier_1e18_def word_le_nat_alt)
next
  case False
  then have f: "unat fee < 10000"
    by (simp add: word_le_nat_alt)
  then have d: "unat (10000 - ucast fee :: u128) = 10000 - unat fee"
    by (simp add: unat_sub_no_wrap unat_ucast_up word_le_nat_alt)
  have "(10000 - unat fee) * 10 ^ 18 \<le> 10000 * 10 ^ 18"
    by simp
  then have "unat (sat_mul_w (10000 - ucast fee) ONE_1E18) = (10000 - unat fee) * 10 ^ 18"
    by (simp add: unat_sat_mul_w d)
  then have "unat (stream_fee_multiplier_1e18 fee) = (10000 - unat fee) * 10 ^ 18 div 10000"
    using False by (simp add: stream_fee_multiplier_1e18_def unat_div)
  also have "\<dots> = (10000 - unat fee) * 10 ^ 14"
    by simp
  finally show ?thesis
    by (simp add: diff_mult_distrib)
qed

lemma stream_rate_bound: "stream_rate_nat (unat (a :: u64)) b fee < 2 ^ 128"
proof -
  have "unat a * (10 ^ 18 - fee * 10 ^ 14) div b \<le> unat a * (10 ^ 18 - fee * 10 ^ 14)"
    by (rule div_le_dividend)
  also have "\<dots> \<le> 2 ^ 64 * 10 ^ 18"
    using unat_bound [of a] by (intro mult_le_mono) auto
  also have "\<dots> < 2 ^ 128"
    by simp
  finally show ?thesis
    by (simp add: stream_rate_nat_def)
qed

lemma stream_effective_rate_value:
  "stream_effective_rate_1e18 a b fee = Ok (of_nat (stream_rate_nat (unat a) (unat b) (unat fee)))"
proof (cases "b = 0")
  case False
  then have nz: "(ucast b :: u128) \<noteq> 0" "unat b \<noteq> 0"
    by (auto simp: unat_eq_zero simp flip: unat_0_iff simp add: unat_ucast_up)
  have "unat a * (10 ^ 18 - unat fee * 10 ^ 14) div unat b < 2 ^ 128"
    using stream_rate_bound [of a "unat b" "unat fee"] nz by (simp add: stream_rate_nat_def)
  then show ?thesis
    using False nz
    by (simp add: stream_effective_rate_1e18_def stream_rate_nat_def mul_div_floor_cases unat_ucast_up
        stream_fee_multiplier_value)
qed (simp add: stream_effective_rate_1e18_def stream_rate_nat_def)

lemma stream_weight_value:
  assumes "rate < 2 ^ 128"
  shows "stream_weight_from_rate (of_nat rate) = stream_weight_spec rate"
proof -
  have r: "unat (of_nat rate :: u128) = rate"
    using assms by (intro unat_of_nat_fits) simp
  have "(of_nat rate :: u128) = 0 \<longleftrightarrow> rate = 0"
    using r by (metis unat_0 unat_eq_zero of_nat_0)
  moreover have "int (bit_length rate) \<le> 128"
    using iffD2 [OF bit_length_le_iff assms] by simp
  ultimately show ?thesis
    by (simp add: stream_weight_from_rate_def stream_weight_spec_def r clamp_i_def smin_def smax_def signed_divide_int_def)
qed

lemma stream_weight_negative:
  assumes "0 < rate" "rate < 2 ^ 128"
  shows "stream_weight_spec rate < 0" "- 4000000000000000000 \<le> stream_weight_spec rate"
proof -
  have "1 \<le> int (bit_length rate)" "int (bit_length rate) \<le> 128"
    using bit_length_pos [OF assms(1)] iffD2 [OF bit_length_le_iff assms(2)] by simp_all
  then show "stream_weight_spec rate < 0" "- 4000000000000000000 \<le> stream_weight_spec rate"
    using assms(1) by (simp_all add: stream_weight_spec_def)
qed

text \<open>The weight an update gives an edge of the pool.\<close>

definition edge_weight_after :: "pool \<Rightarrow> bool \<Rightarrow> int" where
  "edge_weight_after p b = stream_weight_spec
    (if b then stream_rate_nat (unat (base_reserve p)) (unat (quote_reserve p)) (unat (fee_bps p))
     else stream_rate_nat (unat (quote_reserve p)) (unat (base_reserve p)) (unat (fee_bps p)))"

definition reweight :: "pool \<Rightarrow> edge \<Rightarrow> edge" where
  "reweight p e = e\<lparr>edge_weight := edge_weight_after p (is_base_to_quote e)\<rparr>"

lemma reweighted_eq: "reweighted p e = Ok (reweight p e)"
  by (simp add: reweighted_def reweight_def edge_weight_after_def stream_effective_rate_value
      stream_weight_value [OF stream_rate_bound])

lemma reweight_sel [simp]:
  "edge_from (reweight p e) = edge_from e" "edge_to (reweight p e) = edge_to e"
  "edge_pool (reweight p e) = edge_pool e" "is_base_to_quote (reweight p e) = is_base_to_quote e"
  "edge_weight (reweight p e) = edge_weight_after p (is_base_to_quote e)"
  by (simp_all add: reweight_def)

lemma reweigh_all_value:
  assumes "distinct is" and "\<forall>i\<in>set is. i < length es"
  shows "reweigh_all p is es = Ok (map (\<lambda>i. if i \<in> set is then reweight p (es ! i) else es ! i) [0..<length es])"
  using assms
proof (induction "is" arbitrary: es)
  case Nil
  then show ?case
    by (simp add: map_nth)
next
  case (Cons i "is")
  then have "reweigh_all p (i # is) es = reweigh_all p is (es[i := reweight p (es ! i)])"
    by (simp add: index_p_def reweighted_eq)
  also have "\<dots> = Ok (map (\<lambda>j. if j \<in> set is then reweight p (es[i := reweight p (es ! i)] ! j)
      else es[i := reweight p (es ! i)] ! j) [0..<length es])"
    using Cons by simp
  also have "map (\<lambda>j. if j \<in> set is then reweight p (es[i := reweight p (es ! i)] ! j)
      else es[i := reweight p (es ! i)] ! j) [0..<length es]
    = map (\<lambda>j. if j \<in> set (i # is) then reweight p (es ! j) else es ! j) [0..<length es]"
    using Cons.prems by (auto simp: nth_list_update)
  finally show ?case .
qed

section \<open>The index of the edges\<close>

definition positions :: "edge list \<Rightarrow> u64 \<Rightarrow> usize list" where
  "positions es k = filter (\<lambda>i. pool_key (edge_pool (es ! i)) = k) [0..<length es]"

definition index_ok :: "streaming_graph \<Rightarrow> bool" where
  "index_ok s \<longleftrightarrow> (\<forall>k. pool_to_edges s k =
    (if positions (edges (sg_graph s)) k = [] then None else Some (positions (edges (sg_graph s)) k)))"

lemma index_edges_apply:
  "index_edges ies m k =
    (let added = map fst (filter (\<lambda>(i, e). pool_key (edge_pool e) = k) ies)
     in if added = [] then m k else Some ((case m k of Some is \<Rightarrow> is | None \<Rightarrow> []) @ added))"
proof (induction ies arbitrary: m)
  case (Cons ie ies)
  obtain i e where ie: "ie = (i, e)"
    by (cases ie)
  show ?case
    by (simp only: ie index_edges.simps Let_def Cons.IH) (auto split: option.splits)
qed simp

lemma positions_enumerate:
  "map fst (filter (\<lambda>(i, e). pool_key (edge_pool e) = k) (enumerate 0 es)) = positions es k"
proof -
  have "enumerate 0 es = map (\<lambda>i. (i, es ! i)) [0..<length es]"
    by (rule nth_equalityI) (simp_all add: nth_enumerate_eq)
  then show ?thesis
    by (simp add: positions_def filter_map comp_def)
qed

lemma positions_empty: "positions es k = [] \<longleftrightarrow> (\<forall>e\<in>set es. pool_key (edge_pool e) \<noteq> k)"
  by (auto simp: positions_def filter_empty_conv all_set_conv_all_nth)

lemma index_ok_new:
  assumes "streaming_new ps = Ok s"
  shows "index_ok s"
  using assms by (auto simp: streaming_new_def bind_res_Ok_iff index_ok_def index_edges_apply positions_enumerate Let_def)

lemma positions_map:
  "\<forall>e\<in>set es. pool_key (edge_pool (f e)) = pool_key (edge_pool e) \<Longrightarrow> positions (map f es) k = positions es k"
  unfolding positions_def by (auto intro!: filter_cong)

section \<open>Operations on a reachable graph\<close>

inductive streaming_reachable :: "streaming_graph \<Rightarrow> bool" where
  reach_new: "streaming_new ps = Ok s \<Longrightarrow> streaming_reachable s"
| reach_update: "streaming_reachable s \<Longrightarrow> update_pool p s = Ok (b, s') \<Longrightarrow> streaming_reachable s'"
| reach_add: "streaming_reachable s \<Longrightarrow> streaming_add_pool p s = Ok (b, s') \<Longrightarrow> streaming_reachable s'"

definition same_key :: "pool \<Rightarrow> edge \<Rightarrow> bool" where
  "same_key p e \<longleftrightarrow> pool_key (edge_pool e) = pool_key (address p)"

definition updated_edges :: "pool \<Rightarrow> edge list \<Rightarrow> edge list" where
  "updated_edges p = map (\<lambda>e. if same_key p e then reweight p e else e)"

lemma update_pool_value:
  assumes "index_ok s"
  shows "update_pool p s =
    (if \<exists>e\<in>set (edges (sg_graph s)). same_key p e
     then Ok (True, s\<lparr>sg_graph := (sg_graph s)\<lparr>edges := updated_edges p (edges (sg_graph s))\<rparr>\<rparr>)
     else Ok (False, s))"
proof -
  let ?es = "edges (sg_graph s)" and ?k = "pool_key (address p)"
  have idx: "pool_to_edges s ?k = (if positions ?es ?k = [] then None else Some (positions ?es ?k))"
    using assms by (simp add: index_ok_def)
  have "distinct (positions ?es ?k)" "\<forall>i\<in>set (positions ?es ?k). i < length ?es"
    by (auto simp: positions_def)
  from reweigh_all_value [OF this]
  have "reweigh_all p (positions ?es ?k) ?es = Ok (map (\<lambda>i. if same_key p (?es ! i) then reweight p (?es ! i) else ?es ! i) [0..<length ?es])"
    by (simp add: positions_def same_key_def cong: map_cong)
  also have "map (\<lambda>i. if same_key p (?es ! i) then reweight p (?es ! i) else ?es ! i) [0..<length ?es] = updated_edges p ?es"
    unfolding updated_edges_def by (rule nth_equalityI) simp_all
  finally show ?thesis
    using positions_empty [of ?es ?k] by (auto simp: update_pool_def idx same_key_def)
qed

lemma intern_token_new:
  "intern_token graph_new m = (TokenId 0, \<lparr>tokens = [m], token_index = [key_bytes m \<mapsto> TokenId 0], edges = []\<rparr>)"
  by (simp add: intern_token_def graph_new_def Let_def)

lemma intern_token_second:
  "intern_token \<lparr>tokens = [m], token_index = [key_bytes m \<mapsto> TokenId 0], edges = []\<rparr> n =
    (if key_bytes n = key_bytes m then (TokenId 0, \<lparr>tokens = [m], token_index = [key_bytes m \<mapsto> TokenId 0], edges = []\<rparr>)
     else (TokenId 1, \<lparr>tokens = [m, n], token_index = [key_bytes m \<mapsto> TokenId 0, key_bytes n \<mapsto> TokenId 1], edges = []\<rparr>))"
  by (simp add: intern_token_def Let_def)

text \<open>The graph of one pool: its tokens are numbered from zero.\<close>

lemma single_pool_graph:
  assumes "build_from_pools [p] = Ok g" and "base_mint p \<noteq> quote_mint p"
  obtains w1 w2 where "tokens g = [base_mint p, quote_mint p]"
    and "edges g = [\<lparr>edge_from = TokenId 0, edge_to = TokenId 1, edge_weight = w1, edge_pool = address p,
        is_base_to_quote = True, dex_id = kind p\<rparr>,
      \<lparr>edge_from = TokenId 1, edge_to = TokenId 0, edge_weight = w2, edge_pool = address p,
        is_base_to_quote = False, dex_id = kind p\<rparr>]"
proof -
  have "key_bytes (quote_mint p) \<noteq> key_bytes (base_mint p)"
    using assms(2) by (metis pubkey.expand)
  then show thesis
    using assms(1) that
    by (auto simp: build_from_pools_def add_pool_def intern_token_new intern_token_second bind_res_Ok_iff Let_def push_edge_def)
qed

lemma single_pool_keys:
  assumes "build_from_pools [p] = Ok g"
  shows "edges g \<noteq> [] \<and> (\<forall>e\<in>set (edges g). edge_pool e = address p)"
  using assms
  by (auto simp: build_from_pools_def add_pool_def bind_res_Ok_iff Let_def push_edge_def intern_token_new intern_token_second
      split: prod.splits if_splits)

lemma index_ok_update:
  assumes "index_ok s" and "update_pool p s = Ok (b, s')"
  shows "index_ok s'"
proof -
  have "positions (updated_edges p es) k = positions es k" for es k
    unfolding updated_edges_def by (rule positions_map) simp
  then show ?thesis
    using assms by (auto simp: update_pool_value index_ok_def split: if_splits)
qed

lemma index_ok_add:
  assumes "index_ok s" and "streaming_add_pool p s = Ok (b, s')"
  shows "index_ok s'"
proof (cases "pool_to_edges s (pool_key (address p)) = None \<and> (\<exists>g. build_from_pools [p] = Ok g)")
  case False
  then have "s' = s"
    using assms(2) by (auto simp: streaming_add_pool_def Let_def split: res.splits if_splits)
  then show ?thesis
    using assms(1) by simp
next
  case True
  then obtain g where g: "build_from_pools [p] = Ok g" and new: "pool_to_edges s (pool_key (address p)) = None"
    by blast
  let ?es = "edges (sg_graph s)" and ?k = "pool_key (address p)"
  have none: "positions ?es ?k = []"
    using assms(1) new by (auto simp: index_ok_def split: if_splits)
  have shift: "filter (\<lambda>i. pool_key (edge_pool ((?es @ edges g) ! i)) = k) [length ?es ..< length ?es + length (edges g)]
      = (if k = ?k then [length ?es ..< length ?es + length (edges g)] else [])" for k
    using single_pool_keys [OF g]
    by (auto simp: nth_append filter_id_conv filter_empty_conv)
  have "positions (?es @ edges g) k = positions ?es k @ (if k = ?k then [length ?es ..< length ?es + length (edges g)] else [])" for k
    unfolding positions_def length_append upt_add_eq_append [OF le0] filter_append shift
    by (auto simp: nth_append intro!: filter_cong)
  moreover have "s' = \<lparr>sg_graph = (sg_graph s)\<lparr>edges := ?es @ edges g\<rparr>,
      pool_to_edges = (pool_to_edges s)(?k \<mapsto> [length ?es ..< length ?es + length (edges g)])\<rparr>"
    using assms(2) new g by (simp add: streaming_add_pool_def Let_def)
  moreover have "edges g \<noteq> []"
    using single_pool_keys [OF g] by simp
  ultimately show ?thesis
    using assms(1) none by (auto simp: index_ok_def)
qed

lemma reachable_index_ok: "streaming_reachable s \<Longrightarrow> index_ok s"
  by (induction rule: streaming_reachable.induct) (auto intro: index_ok_new index_ok_update index_ok_add)

text \<open>Updating a pool of a reachable graph never fails: it re-weighs exactly the edges whose pool
  shares the first eight bytes of its address, and changes no other edge, no token and no index;
  an unknown pool changes nothing.\<close>

theorem update_pool_exact:
  assumes "streaming_reachable s"
  shows "update_pool p s =
    (if \<exists>e\<in>set (edges (sg_graph s)). same_key p e
     then Ok (True, s\<lparr>sg_graph := (sg_graph s)\<lparr>edges := updated_edges p (edges (sg_graph s))\<rparr>\<rparr>)
     else Ok (False, s))"
  using update_pool_value [OF reachable_index_ok [OF assms]] .

text \<open>A pool that joins a running graph is wired to the wrong tokens: its edges carry the token
  numbers of a graph of its own, so they join the first two tokens of the graph, whatever its mints are,
  and its mints are not added.\<close>

theorem add_pool_misplaces_edges:
  assumes "streaming_add_pool p s = Ok (True, s')" and "base_mint p \<noteq> quote_mint p"
  obtains e1 e2 where "edges (sg_graph s') = edges (sg_graph s) @ [e1, e2]"
    and "edge_pool e1 = address p" and "edge_from e1 = TokenId 0" and "edge_to e1 = TokenId 1"
    and "edge_pool e2 = address p" and "edge_from e2 = TokenId 1" and "edge_to e2 = TokenId 0"
    and "tokens (sg_graph s') = tokens (sg_graph s)"
proof -
  from assms(1) obtain g where g: "build_from_pools [p] = Ok g"
      "s' = \<lparr>sg_graph = (sg_graph s)\<lparr>edges := edges (sg_graph s) @ edges g\<rparr>,
        pool_to_edges = (pool_to_edges s)(pool_key (address p) \<mapsto> [length (edges (sg_graph s)) ..< length (edges (sg_graph s)) + length (edges g)])\<rparr>"
    by (auto simp: streaming_add_pool_def Let_def split: res.splits if_splits)
  obtain w1 w2 where w: "edges g = [\<lparr>edge_from = TokenId 0, edge_to = TokenId 1, edge_weight = w1,
        edge_pool = address p, is_base_to_quote = True, dex_id = kind p\<rparr>,
      \<lparr>edge_from = TokenId 1, edge_to = TokenId 0, edge_weight = w2, edge_pool = address p,
        is_base_to_quote = False, dex_id = kind p\<rparr>]"
    using single_pool_graph [OF g(1) assms(2)] by metis
  show thesis
    by (rule that [of "edges g ! 0" "edges g ! 1"]) (simp_all add: g(2) w)
qed

section \<open>An update invents an opportunity\<close>

lemma updated_graph_wf:
  assumes "graph_wf g"
  shows "graph_wf (g\<lparr>edges := updated_edges p (edges g)\<rparr>)"
  using assms by (auto simp: graph_wf_def updated_edges_def)

lemma new_graph_edges:
  assumes "streaming_new ps = Ok s" and "2 * length ps \<le> 2 ^ 32" and "q \<in> set ps"
  obtains i j where "graph_wf (sg_graph s)"
    and "i < length (edges (sg_graph s))" and "j < length (edges (sg_graph s))"
    and "edge_of (tokens (sg_graph s)) q True (edges (sg_graph s) ! i)"
    and "edge_of (tokens (sg_graph s)) q False (edges (sg_graph s) ! j)"
proof -
  let ?g = "sg_graph s"
  have b: "build_from_pools ps = Ok ?g"
    using assms(1) by (auto simp: streaming_new_def bind_res_Ok_iff)
  then have "add_pools graph_new ps = Ok ?g"
    by (simp add: build_from_pools_def split: if_splits)
  from add_pools_wf [OF this graph_wf_new] assms(2) obtain ess where
    ess: "edges ?g = concat ess" "list_all2 (pool_edges (tokens ?g)) ps ess"
    by (auto simp: graph_new_def)
  from assms(3) obtain n where "n < length ps" "ps ! n = q"
    by (auto simp: in_set_conv_nth)
  then have "pool_edges (tokens ?g) q (ess ! n)" "ess ! n \<in> set ess"
    using ess(2) by (auto simp: list_all2_conv_all_nth)
  then obtain e1 e2 where "e1 \<in> set (edges ?g)" "edge_of (tokens ?g) q True e1"
      "e2 \<in> set (edges ?g)" "edge_of (tokens ?g) q False e2"
    unfolding ess(1) pool_edges_def by fastforce
  then show thesis
    using that build_from_pools_graph_wf [OF b assms(2)] by (metis in_set_conv_nth)
qed

text \<open>One update of a known pool makes the detector report a round trip through that pool alone as
  a profitable cycle, whatever the other pools are: the duplicated weight is negative for every nonzero
  rate.\<close>

theorem update_fabricates_arbitrage:
  assumes "streaming_new ps = Ok s" and "2 * length ps \<le> 2 ^ 32"
    and "q \<in> set ps" and "base_mint q \<noteq> quote_mint q" and "address p = address q"
    and "0 < stream_rate_nat (unat (base_reserve p)) (unat (quote_reserve p)) (unat (fee_bps p))"
    and "0 < stream_rate_nat (unat (quote_reserve p)) (unat (base_reserve p)) (unat (fee_bps p))"
  shows "\<exists>cs s' c. on_pool_update p s = Ok (cs, s') \<and> c \<in> set cs \<and> weight_sum c < 0
    \<and> length (legs c) = 2 \<and> (\<forall>l\<in>set (legs c). leg_pool l = address p)"
proof -
  obtain i j where wf: "graph_wf (sg_graph s)"
    and i: "i < length (edges (sg_graph s))" "edge_of (tokens (sg_graph s)) q True (edges (sg_graph s) ! i)"
    and j: "j < length (edges (sg_graph s))" "edge_of (tokens (sg_graph s)) q False (edges (sg_graph s) ! j)"
    using new_graph_edges [OF assms(1-3)] by blast
  let ?g = "(sg_graph s)\<lparr>edges := updated_edges p (edges (sg_graph s))\<rparr>" and ?es = "updated_edges p (edges (sg_graph s))"
  let ?u = "s\<lparr>sg_graph := ?g\<rparr>"
  have ij: "?es ! i = reweight p (edges (sg_graph s) ! i)" "?es ! j = reweight p (edges (sg_graph s) ! j)"
    "length ?es = length (edges (sg_graph s))"
    using i j assms(5) by (simp_all add: updated_edges_def same_key_def edge_of_def)
  have "\<exists>e\<in>set (edges (sg_graph s)). same_key p e"
    using i assms(5) by (intro bexI [of _ "edges (sg_graph s) ! i"]) (auto simp: same_key_def edge_of_def)
  then have up: "update_pool p s = Ok (True, ?u)"
    by (simp add: update_pool_value [OF index_ok_new [OF assms(1)]])
  define w1 w2 where "w1 = edge_weight_after p True" and "w2 = edge_weight_after p False"
  have w: "w1 < 0" "- 4000000000000000000 \<le> w1" "w2 < 0" "- 4000000000000000000 \<le> w2"
    using stream_weight_negative [OF assms(6) stream_rate_bound] stream_weight_negative [OF assms(7) stream_rate_bound]
    by (simp_all add: w1_def w2_def edge_weight_after_def)
  have ew: "edge_weight (?es ! i) = w1" "edge_weight (?es ! j) = w2"
    using i(2) j(2) by (simp_all add: ij w1_def w2_def edge_of_def)
  have token_eq: "x = y" if "unat (token_num x) < length (tokens (sg_graph s))" "unat (token_num y) < length (tokens (sg_graph s))"
      "tokens (sg_graph s) ! unat (token_num x) = tokens (sg_graph s) ! unat (token_num y)" for x y
    using that wf by (intro token_id.expand) (simp add: graph_wf_def nth_eq_iff_index_eq word_unat_eq_iff)
  have same: "edge_to (?es ! i) = edge_from (?es ! j)" "edge_to (?es ! j) = edge_from (?es ! i)"
    using i(2) j(2) by (auto simp: ij edge_of_def intro!: token_eq)
  have diff: "edge_from (?es ! i) \<noteq> edge_from (?es ! j)"
    using i(2) j(2) assms(4) by (auto simp: ij edge_of_def)
  have simple: "simple_cycle ?es 4 (edge_from (?es ! i)) [i, j]"
    using i(1) j(1) same diff by (simp add: simple_cycle_def ij(3))
  moreover have "path_sum 0 (map ((!) ?es) [i, j]) = Some (w1 + w2)"
    using w by (simp add: ew checked_i_def in_range_def smin_def smax_def)
  ultimately have wanted: "wanted ?es 4 (edge_from (?es ! i)) [i, j]"
    using w by (auto simp: wanted_def)
  obtain st where st: "find_negative_cycles ?g 4 = Ok (dfs_out st)" "state_ok ?es 4 st"
      "path_sig ?es [i, j] \<in> seen_signatures st"
    using find_negative_cycles_run [OF updated_graph_wf [OF wf], of p 4] wanted by auto
  then obtain c where c: "c \<in> set (dfs_out st)" "cycle_sig c = path_sig ?es [i, j]" "weight_sum c < 0"
    by (auto simp: state_ok_def reported_def list_all_iff)
  let ?key = "key_bytes (address p)" and ?f = "\<lambda>l :: leg. (key_bytes (leg_pool l), leg_direction l = BaseToQuote)"
  have "path_sig ?es [i, j] = sort [(?key, True), (?key, False)]"
    using i(2) j(2) assms(5) by (simp add: path_sig_def ij edge_of_def)
  with c(2) [unfolded cycle_sig_def] have "sort (map ?f (legs c)) = sort [(?key, True), (?key, False)]"
    by (rule trans)
  from arg_cong [OF this, of mset] have m: "mset (map ?f (legs c)) = mset [(?key, True), (?key, False)]"
    by (simp only: mset_sort)
  have "length (legs c) = 2"
    using arg_cong [OF m, of size] by simp
  moreover have "\<forall>l\<in>set (legs c). key_bytes (leg_pool l) = ?key"
    using mset_eq_setD [OF m] by auto
  ultimately have "length (legs c) = 2 \<and> (\<forall>l\<in>set (legs c). leg_pool l = address p)"
    by (metis pubkey.expand)
  moreover have "on_pool_update p s = Ok (dfs_out st, ?u)"
    by (simp add: on_pool_update_def up streaming_detect_def st(1))
  ultimately show ?thesis
    using c by blast
qed

section \<open>The histogram against its samples\<close>

definition record_all_samples :: "nat list \<Rightarrow> latency_histogram" where
  "record_all_samples es = fold histogram_record es histogram_new"

definition as_ms :: "nat \<Rightarrow> nat" where
  "as_ms e = min e (2 ^ 64 - 1)"

definition at_most :: "nat list \<Rightarrow> u64 \<Rightarrow> nat" where
  "at_most es b = length (filter (\<lambda>e. as_ms e \<le> unat b) es)"

lemma at_most_mono: "b \<le> c \<Longrightarrow> at_most es b \<le> at_most es c"
  by (induction es) (auto simp: at_most_def word_le_nat_alt)

lemma at_most_snoc: "at_most (es @ [e]) b = at_most es b + (if as_ms e \<le> unat b then 1 else 0)"
  by (simp add: at_most_def)

lemma at_most_le: "at_most es b \<le> length es"
  by (simp add: at_most_def)

fun cumulated :: "nat \<Rightarrow> u64 list \<Rightarrow> nat list" where
  "cumulated c [] = []"
| "cumulated c (x # xs) = (c + unat x) # cumulated (c + unat x) xs"

lemma length_cumulated [simp]: "length (cumulated c xs) = length xs"
  by (induction c xs rule: cumulated.induct) auto

lemma cumulated_shift: "cumulated (Suc c) xs = map Suc (cumulated c xs)"
  by (induction c xs rule: cumulated.induct) auto

lemma cumulated_increment:
  assumes "i < length xs" and "unat (xs ! i) + 1 < 2 ^ 64"
  shows "cumulated c (xs[i := xs ! i + 1]) = take i (cumulated c xs) @ map Suc (drop i (cumulated c xs))"
  using assms
proof (induction c xs arbitrary: i rule: cumulated.induct)
  case (2 c x xs)
  show ?case
  proof (cases i)
    case 0
    then have "unat (x + 1) = Suc (unat x)"
      using 2 by (simp add: unat_add_no_wrap)
    then show ?thesis
      by (simp add: 0 cumulated_shift)
  qed (use 2 in auto)
qed simp

lemma bucket_count:
  assumes "sorted bs" and "bucket_position m bs = Some i"
  shows "map (\<lambda>b. g b + (if m \<le> b then 1 else 0)) bs = take i (map g bs) @ map Suc (drop i (map g bs))"
  using assms
proof (induction m bs arbitrary: i rule: bucket_position.induct)
  case (2 m b bs)
  show ?case
  proof (cases "m \<le> b")
    case True
    then show ?thesis
      using 2 by auto
  qed (use 2 in auto)
qed simp

lemma bucket_position_some: "m \<le> last bs \<Longrightarrow> bs \<noteq> [] \<Longrightarrow> \<exists>i. bucket_position m bs = Some i \<and> i < length bs"
  by (induction m bs rule: bucket_position.induct) (fastforce split: if_splits)+

lemma BUCKETS_sorted: "sorted BUCKETS" "last BUCKETS = - 1" "BUCKETS \<noteq> []" "0 \<notin> set BUCKETS"
  by (simp_all add: BUCKETS_def)

lemma unat_as_ms: "unat (of_nat (as_ms e) :: u64) = as_ms e"
  by (intro unat_of_nat_fits) (simp add: as_ms_def)

definition histogram_of :: "nat list \<Rightarrow> latency_histogram \<Rightarrow> bool" where
  "histogram_of es h \<longleftrightarrow> cumulated 0 (lh_buckets h) = map (at_most es) BUCKETS \<and> unat (lh_count h) = length es
    \<and> (\<forall>c\<in>set (lh_buckets h). unat c \<le> length es)"

lemma histogram_of_record:
  assumes "histogram_of es h" and "length es + 1 < 2 ^ 64"
  shows "histogram_of (es @ [e]) (histogram_record e h)"
proof -
  let ?m = "of_nat (as_ms e) :: u64"
  obtain i where i: "bucket_position ?m BUCKETS = Some i" "i < length BUCKETS"
    using bucket_position_some [of ?m BUCKETS] BUCKETS_sorted by auto
  have l: "length (lh_buckets h) = length BUCKETS"
    using assms(1) by (metis histogram_of_def length_cumulated length_map)
  then have c: "unat (lh_buckets h ! i) \<le> length es"
    using assms(1) i(2) by (simp add: histogram_of_def)
  have h': "histogram_record e h = \<lparr>lh_buckets = (lh_buckets h)[i := lh_buckets h ! i + 1], lh_count = lh_count h + 1,
      lh_sum_ms = lh_sum_ms h + ?m\<rparr>"
    by (simp only: histogram_record_def as_ms_def [symmetric] i(1) Let_def option.case)
  have "cumulated 0 ((lh_buckets h)[i := lh_buckets h ! i + 1])
      = take i (map (at_most es) BUCKETS) @ map Suc (drop i (map (at_most es) BUCKETS))"
    using cumulated_increment [of i "lh_buckets h" 0] i(2) l c assms by (simp add: histogram_of_def)
  also have "\<dots> = map (\<lambda>b. at_most es b + (if ?m \<le> b then 1 else 0)) BUCKETS"
    using bucket_count [OF BUCKETS_sorted(1) i(1), of "at_most es"] by simp
  also have "\<dots> = map (at_most (es @ [e])) BUCKETS"
    by (simp add: at_most_snoc word_le_nat_alt unat_as_ms)
  finally have "cumulated 0 (lh_buckets (histogram_record e h)) = map (at_most (es @ [e])) BUCKETS"
    by (simp add: h')
  moreover have "unat (lh_count (histogram_record e h)) = length (es @ [e])"
    using assms by (simp add: h' histogram_of_def unat_add_no_wrap)
  moreover have "unat (lh_buckets h ! i + 1) \<le> length es + 1"
    using c assms(2) by (simp add: unat_add_no_wrap)
  then have "\<forall>x\<in>set (lh_buckets (histogram_record e h)). unat x \<le> length (es @ [e])"
    using assms(1) set_update_subset_insert [of "lh_buckets h" i "lh_buckets h ! i + 1"]
    by (fastforce simp: h' histogram_of_def)
  ultimately show ?thesis
    by (simp add: histogram_of_def)
qed

lemma histogram_of_all:
  assumes "length es < 2 ^ 64"
  shows "histogram_of es (record_all_samples es)"
  using assms
proof (induction es rule: rev_induct)
  case Nil
  then show ?case
    by (simp add: record_all_samples_def histogram_new_def histogram_of_def BUCKETS_def at_most_def)
next
  case (snoc e es)
  then show ?case
    using histogram_of_record [of es "record_all_samples es" e] by (simp add: record_all_samples_def)
qed

fun scan_one :: "(u64 \<times> u64) list \<Rightarrow> u64 \<Rightarrow> u64 \<Rightarrow> u64 \<Rightarrow> u64" where
  "scan_one [] cumulative t p = p"
| "scan_one ((b, c) # bcs) cumulative t p =
    scan_one bcs (sat_add_w cumulative c) t (if p = 0 \<and> t \<le> sat_add_w cumulative c then b else p)"

lemma percentile_scan_split:
  "percentile_scan bcs cum (t50, t95, t99) (p50, p95, p99) = (scan_one bcs cum t50 p50, scan_one bcs cum t95 p95, scan_one bcs cum t99 p99)"
  by (induction bcs arbitrary: cum p50 p95 p99) (auto simp: Let_def)

lemma scan_one_found: "p \<noteq> 0 \<Longrightarrow> scan_one bcs cum t p = p"
  by (induction bcs cum t p rule: scan_one.induct) auto

lemma scan_one_find:
  assumes "length bs = length cs" and "0 \<notin> set bs" and "\<forall>k\<in>set (cumulated (unat cum) cs). k < 2 ^ 64"
  shows "scan_one (zip bs cs) cum t 0 = (case find (\<lambda>(b, k). unat t \<le> k) (zip bs (cumulated (unat cum) cs)) of
    Some (b, _) \<Rightarrow> b | None \<Rightarrow> 0)"
  using assms
proof (induction bs cs arbitrary: cum rule: list_induct2)
  case (Cons b bs c cs)
  have s: "unat (sat_add_w cum c) = unat cum + unat c"
    using Cons.prems by (simp add: unat_sat_add_w)
  show ?case
  proof (cases "unat t \<le> unat cum + unat c")
    case True
    then show ?thesis
      using Cons.prems s by (simp add: word_le_nat_alt scan_one_found)
  next
    case False
    have "scan_one (zip bs cs) (sat_add_w cum c) t 0 = (case find (\<lambda>(b, k). unat t \<le> k) (zip bs (cumulated (unat cum + unat c) cs)) of
        Some (b, _) \<Rightarrow> b | None \<Rightarrow> 0)"
      using Cons.IH [of "sat_add_w cum c"] Cons.prems by (simp add: s)
    then show ?thesis
      using False by (simp add: word_le_nat_alt s)
  qed
qed simp

lemma find_zip_map: "find (\<lambda>(b, k). P b k) (zip bs (map g bs)) = map_option (\<lambda>b. (b, g b)) (find (\<lambda>b. P b (g b)) bs)"
  by (induction bs) auto

text \<open>A percentile is the first bucket bound that enough samples do not exceed.\<close>

definition percentile_bound :: "nat list \<Rightarrow> nat \<Rightarrow> u64" where
  "percentile_bound es t = (case find (\<lambda>b. t \<le> at_most es b) BUCKETS of Some b \<Rightarrow> b | None \<Rightarrow> 0)"

lemma histogram_scan:
  assumes "histogram_of es h" and "length es < 2 ^ 64"
  shows "scan_one (zip BUCKETS (lh_buckets h)) 0 t 0 = percentile_bound es (unat t)"
proof -
  have c: "cumulated 0 (lh_buckets h) = map (at_most es) BUCKETS"
    using assms(1) by (simp add: histogram_of_def)
  have l: "length BUCKETS = length (lh_buckets h)"
    using c by (metis length_cumulated length_map)
  have "\<forall>k\<in>set (cumulated (unat 0) (lh_buckets h)). k < 2 ^ 64"
    using assms(2) at_most_le [of es] by (auto simp: c intro: le_less_trans)
  from scan_one_find [OF l BUCKETS_sorted(4), OF this, of t] show ?thesis
    by (simp add: c find_zip_map percentile_bound_def split: option.splits)
qed

lemma histogram_snapshot_value:
  assumes "length es * 99 < 2 ^ 64"
  obtains s where "histogram_snapshot (record_all_samples es) = Ok s" and "unat (ls_count s) = length es"
    and "p50_ms s = (if es = [] then 0 else percentile_bound es (length es div 2))"
    and "p95_ms s = (if es = [] then 0 else percentile_bound es (length es * 95 div 100))"
    and "p99_ms s = (if es = [] then 0 else percentile_bound es (length es * 99 div 100))"
proof -
  let ?h = "record_all_samples es"
  have lt: "length es < 2 ^ 64"
    using assms by simp
  note h = histogram_of_all [OF lt]
  have n: "unat (lh_count ?h) = length es"
    using h by (simp add: histogram_of_def)
  have z: "lh_count ?h = 0 \<longleftrightarrow> es = []"
    using n by (metis length_0_conv unat_0 unat_eq_zero)
  have m: "mul_p (lh_count ?h) 95 = (Ok (lh_count ?h * 95) :: (u64, unit) res)"
      "mul_p (lh_count ?h) 99 = (Ok (lh_count ?h * 99) :: (u64, unit) res)"
    using assms by (simp_all add: mul_p_def n)
  have u: "unat (lh_count ?h * 95 div 100) = length es * 95 div 100" "unat (lh_count ?h * 99 div 100) = length es * 99 div 100"
      "unat (lh_count ?h div 2) = length es div 2"
    using assms by (simp_all add: unat_div unat_word_ariths n)
  let ?f = "\<lambda>t. if es = [] then 0 else percentile_bound es t"
  let ?s = "\<lparr>p50_ms = ?f (length es div 2), p95_ms = ?f (length es * 95 div 100), p99_ms = ?f (length es * 99 div 100),
      ls_count = lh_count ?h, ls_sum_ms = lh_sum_ms ?h,
      mean_ms = (if 0 < lh_count ?h then lh_sum_ms ?h div lh_count ?h else 0), ls_buckets = lh_buckets ?h\<rparr>"
  have "histogram_snapshot ?h = Ok ?s"
  proof (cases "es = []")
    case True
    then have "lh_count ?h = 0"
      using z by simp
    then show ?thesis
      using True by (simp only: histogram_snapshot_def Let_def if_True bind_res.simps prod.case refl)
  next
    case False
    then have "lh_count ?h \<noteq> 0"
      using z by simp
    then show ?thesis
      using False
      by (simp only: histogram_snapshot_def Let_def if_False m bind_res.simps percentile_scan_split
          histogram_scan [OF h lt] u prod.case)
  qed
  then show thesis
    by (rule that) (simp_all add: n)
qed

text \<open>C32. The p99 budget in terms of the samples: it is met exactly when the rounded-down 99 percent of
  the samples took at most 64 ms. A single sample meets it however slow it was.\<close>

theorem meets_budget_exact:
  assumes "length es * 99 < 2 ^ 64"
  obtains s where "histogram_snapshot (record_all_samples es) = Ok s"
    and "meets_budget s \<longleftrightarrow> length es * 99 div 100 \<le> length (filter (\<lambda>e. e \<le> 64) es)"
proof -
  obtain s where s: "histogram_snapshot (record_all_samples es) = Ok s" "unat (ls_count s) = length es"
    "p99_ms s = (if es = [] then 0 else percentile_bound es (length es * 99 div 100))"
    using histogram_snapshot_value [OF assms] by blast
  have c: "ls_count s = 0 \<longleftrightarrow> es = []"
    using s(2) by (metis length_0_conv unat_0 unat_eq_zero)
  have q: "at_most es 64 = length (filter (\<lambda>e. e \<le> 64) es)"
    by (simp add: at_most_def as_ms_def min_le_iff_disj)
  have mono: "t \<le> at_most es b \<Longrightarrow> b \<le> 64 \<Longrightarrow> t \<le> at_most es 64" for t b
    using at_most_mono [of b 64 es] by simp
  have bound: "percentile_bound es t < 80 \<longleftrightarrow> t \<le> at_most es 64" if "t \<le> length es" for t
  proof -
    have "unat (- 1 :: u64) = 2 ^ 64 - 1"
      by (simp add: unsigned_minus_1_eq_mask mask_eq_exp_minus_1)
    then have all: "at_most es (- 1) = length es"
      unfolding at_most_def as_ms_def by (metis (no_types, lifting) filter_True min.cobounded2)
    show ?thesis
      using that mono [of t 1] mono [of t 2] mono [of t 4] mono [of t 8] mono [of t 16] mono [of t 32]
      by (auto simp: percentile_bound_def BUCKETS_def all)
  qed
  show thesis
    by (rule that [OF s(1)]) (use bound [of "length es * 99 div 100"] c in \<open>auto simp: meets_budget_def s(3) q\<close>)
qed

theorem meets_budget_exact_witness:
  "\<exists>s. histogram_snapshot (record_all_samples [5000]) = Ok s \<and> meets_budget s"
  by (rule meets_budget_exact [of "[5000]"]) auto

section \<open>The loop\<close>

definition exit_of :: "run_config \<Rightarrow> tick \<Rightarrow> pipeline_exit option" where
  "exit_of cfg t =
    (if (case shutdown_after cfg of Some deadline \<Rightarrow> deadline \<le> tk_elapsed t | None \<Rightarrow> False) then Some TimeLimit
     else if tk_signal t then Some GracefulShutdown
     else if tk_event t = None then Some FeedExhausted
     else None)"

definition recognised :: "tick \<Rightarrow> bool" where
  "recognised t = (case tk_event t of
      Some (AccountUpdate _ _ data) \<Rightarrow> 32 \<le> length data \<and> identify_amm_by_program (Pubkey (take 32 data)) \<noteq> None
    | _ \<Rightarrow> False)"

text \<open>The loop runs to the first observation with the deadline, the signal or an empty feed, and times
  the recognised account updates before it. The configured number of cycles never ends it: no cycle is
  counted, because the detector is never called.\<close>

theorem stream_run_exact:
  "stream_run cfg ts 0 h =
    (case dropWhile (\<lambda>t. exit_of cfg t = None) ts of [] \<Rightarrow> None | t # _ \<Rightarrow> exit_of cfg t, 0,
     fold histogram_record (map tk_took (filter recognised (takeWhile (\<lambda>t. exit_of cfg t = None) ts))) h)"
proof (induction ts arbitrary: h)
  case (Cons t ts)
  show ?case
  proof (cases "exit_of cfg t")
    case None
    then have run: "stream_run cfg (t # ts) 0 h = stream_run cfg ts 0 (if recognised t then histogram_record (tk_took t) h else h)"
      by (auto simp: exit_of_def recognised_def split: option.splits feed_event.splits if_splits)
    show ?thesis
      unfolding run Cons.IH by (simp add: None)
  next
    case (Some x)
    then show ?thesis
      by (auto simp: exit_of_def split: option.splits if_splits)
  qed
qed simp

section \<open>A running graph\<close>

definition rich_stream :: streaming_graph where
  "rich_stream = \<lparr>sg_graph = rich_graph, pool_to_edges = index_edges (enumerate 0 (edges rich_graph)) Map.empty\<rparr>"

lemma rich_stream_new: "streaming_new rich_pools = Ok rich_stream"
  by (simp add: streaming_new_def build_rich rich_stream_def)

lemma pool_key_byte: "pool_key (Pubkey [k]) = ucast k"
  by (simp add: pool_key_def u64_from_le_def)

theorem update_pool_exact_witness:
  "update_pool (mint_pool 99 1 2 5 5) rich_stream = Ok (False, rich_stream)"
proof -
  have "\<not> (\<exists>e\<in>set (edges (sg_graph rich_stream)). same_key (mint_pool 99 1 2 5 5) e)"
    by (simp add: rich_stream_def rich_graph_def e6_def same_key_def pool_key_byte)
  then show ?thesis
    using update_pool_exact [OF reach_new [OF rich_stream_new], of "mint_pool 99 1 2 5 5"] by simp
qed

lemma build_new_mints: "\<exists>g. build_from_pools [mint_pool 11 5 6 1000 1000] = Ok g"
  by (simp add: build_eval cong: bind_res_weak_cong)

theorem add_pool_misplaces_edges_witness:
  "\<exists>s' e1 e2. streaming_add_pool (mint_pool 11 5 6 1000 1000) rich_stream = Ok (True, s')
    \<and> edges (sg_graph s') = edges rich_graph @ [e1, e2] \<and> edge_pool e1 = Pubkey [11]
    \<and> tokens (sg_graph s') ! unat (token_num (edge_from e1)) = Pubkey [1] \<and> Pubkey [5] \<notin> set (tokens (sg_graph s'))"
proof -
  have "pool_to_edges rich_stream (pool_key (Pubkey [11])) = None"
    by (simp add: rich_stream_def index_edges_apply rich_graph_def e6_def pool_key_byte Let_def)
  then obtain s' where s': "streaming_add_pool (mint_pool 11 5 6 1000 1000) rich_stream = Ok (True, s')"
    using build_new_mints by (auto simp: streaming_add_pool_def Let_def)
  show ?thesis
  proof (rule add_pool_misplaces_edges [OF s'])
    show "base_mint (mint_pool 11 5 6 1000 1000) \<noteq> quote_mint (mint_pool 11 5 6 1000 1000)"
      by simp
    show ?thesis if "edges (sg_graph s') = edges (sg_graph rich_stream) @ [e1, e2]"
      "edge_pool e1 = address (mint_pool 11 5 6 1000 1000)" "edge_from e1 = TokenId 0"
      "tokens (sg_graph s') = tokens (sg_graph rich_stream)" for e1 e2
      by (rule exI [of _ s'], rule exI [of _ e1], rule exI [of _ e2])
        (simp add: that s', simp add: rich_stream_def rich_graph_def)
  qed
qed

theorem update_fabricates_arbitrage_witness:
  "\<exists>cs s' c. on_pool_update (mint_pool 7 1 2 1000 1000) rich_stream = Ok (cs, s') \<and> c \<in> set cs \<and> weight_sum c < 0
    \<and> length (legs c) = 2 \<and> (\<forall>l\<in>set (legs c). leg_pool l = Pubkey [7])"
  using update_fabricates_arbitrage [OF rich_stream_new, of "mint_pool 7 1 2 1000000 20000000" "mint_pool 7 1 2 1000 1000"]
  by (simp add: rich_pools_def stream_rate_nat_def)

end
