(* ===== verification/Recon.thy ===== *)
theory Recon
  imports Detector Ledger Capture Decoders
begin

text \<open>
  \<^verbatim>\<open>crates/dl-recon\<close>: the replay of pools or of a capture through graph, search, sizing, simulation and
  evaluation into ledger entries (\<^verbatim>\<open>pipeline.rs\<close>), the numbered invariants (\<^verbatim>\<open>invariants.rs\<close>) and the
  reconciliation of a ledger file (\<^verbatim>\<open>reconcile.rs\<close>). \<^verbatim>\<open>bincode\<close> and the order in which a \<^verbatim>\<open>HashMap\<close>
  iterates are arguments.
\<close>

section \<open>Data\<close>

datatype recon_error =
    ReconLedger ledger_error
  | ReconCapture feed_error
  | UnknownAccountSize usize
  | ReconDecode decode_error
  | ReconDetect detect_error
  | ReconSim sim_error

record replay_params =
  rq_cost :: cost_model
  rq_optimistic :: eval_params
  rq_conservative :: eval_params
  rq_max_input :: u128
  rq_max_cycle_legs :: usize

definition replay_default :: "(replay_params, recon_error) res" where
  "replay_default = bind_res (map_err ReconSim params_conservative) (\<lambda>conservative.
    Ok \<lparr>rq_cost = default_busy, rq_optimistic = params_optimistic, rq_conservative = conservative,
      rq_max_input = 1000000000, rq_max_cycle_legs = 4\<rparr>)"

record cycle_record =
  cr_seq :: u64
  cr_cycle :: cycle
  cr_net :: net_profit_record
  cr_outcome :: eval_outcome
  cr_decision :: decision
  cr_entry :: ledger_entry

definition cycle_record_build :: "u64 \<Rightarrow> cycle \<Rightarrow> net_profit_record \<Rightarrow> eval_outcome \<Rightarrow> cycle_record" where
  "cycle_record_build seq c net out =
    \<lparr>cr_seq = seq, cr_cycle = c, cr_net = net, cr_outcome = out,
     cr_decision = decision_from_ev (eo_conservative out), cr_entry = from_evaluated c net out seq\<rparr>"

record divergence =
  dv_seq :: u64
  dv_original_decision :: decision
  dv_re_decision :: decision
  dv_original_e_pnl :: i128
  dv_re_e_pnl :: i128
  dv_delta_e_pnl :: i128

record replay_report =
  rr_params :: replay_params
  rr_cycle_records :: "cycle_record list"
  rr_summary :: ledger_summary
  rr_divergences :: "divergence list"
  rr_report_hash :: u64
  rr_feed_events_consumed :: u64
  rr_total_tip_lamports :: u64

definition report_would_trade :: "replay_report \<Rightarrow> u64" where
  "report_would_trade r = of_nat (length (filter (\<lambda>rec. cr_decision rec = WouldTrade) (rr_cycle_records r)))"

definition report_would_not_trade :: "replay_report \<Rightarrow> u64" where
  "report_would_not_trade r = of_nat (length (filter (\<lambda>rec. cr_decision rec = WouldNotTrade) (rr_cycle_records r)))"

section \<open>One cycle\<close>

definition build_net_profit ::
    "cycle \<Rightarrow> pool_registry \<Rightarrow> optimal_input \<Rightarrow> cost_model \<Rightarrow> u128 \<Rightarrow> (net_profit_record, recon_error) res" where
  "build_net_profit c reg sizing cost max_input =
    (let input = (case sizing of Profitable amount _ \<Rightarrow> amount | NoTrade _ \<Rightarrow> max_input div 2) in
     bind_res (map_err ReconSim (simulate_cycle c reg input)) (\<lambda>f.
     map_err ReconSim (from_optimal sizing input (final_output f) cost)))"

definition evaluate_cycle :: "cycle \<Rightarrow> pool_registry \<Rightarrow> replay_params \<Rightarrow> u64 \<Rightarrow> (cycle_record, recon_error) res" where
  "evaluate_cycle c reg params seq =
    bind_res (map_err ReconSim (find_optimal_input c reg (rq_cost params) (rq_max_input params))) (\<lambda>sizing.
    bind_res (build_net_profit c reg sizing (rq_cost params) (rq_max_input params)) (\<lambda>net.
    bind_res (map_err ReconSim (evaluate net (rq_optimistic params) (rq_conservative params))) (\<lambda>out.
    Ok (cycle_record_build seq c net out))))"

section \<open>The hash of a report\<close>

fun hash_records :: "(ledger_entry \<Rightarrow> u8 list option) \<Rightarrow> cycle_record list \<Rightarrow> u64 \<Rightarrow> (u64, recon_error) res" where
  "hash_records ser [] h = Ok h"
| "hash_records ser (rec # recs) h =
    (case ser (cr_entry rec) of
       None \<Rightarrow> Panic
     | Some bytes \<Rightarrow> hash_records ser recs (fnv bytes (fnv (u64_to_le (cr_seq rec)) h)))"

definition recompute_hash :: "(ledger_entry \<Rightarrow> u8 list option) \<Rightarrow> cycle_record list \<Rightarrow> (u64, recon_error) res" where
  "recompute_hash ser recs = hash_records ser recs FNV_OFFSET"

section \<open>Replaying pools\<close>

fun evaluate_all :: "pool_registry \<Rightarrow> replay_params \<Rightarrow> (nat \<times> cycle) list \<Rightarrow> (cycle_record list, recon_error) res" where
  "evaluate_all reg params [] = Ok []"
| "evaluate_all reg params ((idx, c) # cs) =
    bind_res (evaluate_cycle c reg params (of_nat idx)) (\<lambda>rec.
    bind_res (evaluate_all reg params cs) (\<lambda>recs. Ok (rec # recs)))"

definition replay_pools_to_ledger ::
    "(ledger_entry \<Rightarrow> u8 list option) \<Rightarrow> (pool_registry \<Rightarrow> pool list) \<Rightarrow> pool list \<Rightarrow> replay_params \<Rightarrow>
      (replay_report, recon_error) res" where
  "replay_pools_to_ledger ser iter pools params =
    (let registry = registry_of pools;
         pool_slice = sort_key (\<lambda>p. key_bytes (address p)) (iter registry)
     in (case build_from_pools pool_slice of
          Panic \<Rightarrow> Panic
        | Err EmptyGraph \<Rightarrow>
            bind_res (map_err ReconLedger (summary_from_entries [])) (\<lambda>summary.
            Ok \<lparr>rr_params = params, rr_cycle_records = [], rr_summary = summary, rr_divergences = [],
                rr_report_hash = FNV_OFFSET, rr_feed_events_consumed = 0, rr_total_tip_lamports = 0\<rparr>)
        | Err e \<Rightarrow> Err (ReconDetect e)
        | Ok g \<Rightarrow>
            bind_res (map_err ReconDetect (find_negative_cycles g (rq_max_cycle_legs params))) (\<lambda>cycles.
            bind_res (evaluate_all registry params (enumerate 0 cycles)) (\<lambda>records.
            bind_res (map_err ReconLedger (summary_from_entries (map cr_entry records))) (\<lambda>summary.
            bind_res (hash_records ser records FNV_OFFSET) (\<lambda>report_hash.
            let total_tip = fold (\<lambda>r t. sat_add_w t (le_tip_lamports (cr_entry r))) records 0 in
            Ok \<lparr>rr_params = params, rr_cycle_records = records, rr_summary = summary, rr_divergences = [],
                rr_report_hash = report_hash, rr_feed_events_consumed = 0, rr_total_tip_lamports = total_tip\<rparr>))))))"

section \<open>Replaying a capture\<close>

text \<open>A \<^verbatim>\<open>BTreeMap\<close> as its association list in key order.\<close>

fun btree_put :: "'k::linorder \<Rightarrow> 'v \<Rightarrow> ('k \<times> 'v) list \<Rightarrow> ('k \<times> 'v) list" where
  "btree_put k v [] = [(k, v)]"
| "btree_put k v ((k', v') # m) =
    (if k < k' then (k, v) # (k', v') # m
     else if k = k' then (k, v) # m
     else (k', v') # btree_put k v m)"

type_synonym amm_cache = "(u8 list \<times> amm_info) list"
type_synonym vault_cache = "(u8 list \<times> spl_token_account) list"

definition xor_address :: "amm_info \<Rightarrow> pubkey" where
  "xor_address info = Pubkey (map2 (XOR) (key_bytes (ai_base_vault info)) (key_bytes (ai_quote_vault info)))"

fun assemble_ready :: "u8 list list \<Rightarrow> amm_cache \<Rightarrow> vault_cache \<Rightarrow> pool list \<Rightarrow> (amm_cache \<times> pool list, recon_error) res" where
  "assemble_ready [] amms vaults pools = Ok (amms, pools)"
| "assemble_ready (key # keys) amms vaults pools =
    (case map_of amms key of
       None \<Rightarrow> assemble_ready keys amms vaults pools
     | Some info \<Rightarrow>
         (case (map_of vaults (key_bytes (ai_base_vault info)), map_of vaults (key_bytes (ai_quote_vault info))) of
            (Some coin, Some pc) \<Rightarrow>
              bind_res (map_err ReconDecode (assemble_pool (xor_address info) info coin pc (ai_status info))) (\<lambda>p.
              assemble_ready keys (filter (\<lambda>(k, _). k \<noteq> key) amms) vaults (pools @ [p]))
          | _ \<Rightarrow> Panic))"

definition ready_keys :: "amm_cache \<Rightarrow> vault_cache \<Rightarrow> u8 list list" where
  "ready_keys amms vaults = map fst (filter (\<lambda>(k, info).
    map_of vaults (key_bytes (ai_base_vault info)) \<noteq> None \<and> map_of vaults (key_bytes (ai_quote_vault info)) \<noteq> None) amms)"

definition cache_account :: "u8 list \<Rightarrow> amm_cache \<Rightarrow> vault_cache \<Rightarrow> (amm_cache \<times> vault_cache, recon_error) res" where
  "cache_account data amms vaults =
    (if length data = AMM_INFO_SIZE then
       bind_res (map_err ReconDecode (decode_amm_info data)) (\<lambda>info.
       Ok (btree_put (key_bytes (ai_base_vault info)) info amms, vaults))
     else if length data = SPL_TOKEN_ACCOUNT_SIZE then
       bind_res (map_err ReconDecode (decode_spl_token_account data)) (\<lambda>acc.
       Ok (amms, btree_put (key_bytes (st_mint acc)) acc vaults))
     else Err (UnknownAccountSize (length data)))"

fun pools_loop :: "feed_event list \<Rightarrow> u64 \<Rightarrow> amm_cache \<Rightarrow> vault_cache \<Rightarrow> pool list \<Rightarrow> (pool list \<times> u64, recon_error) res" where
  "pools_loop [] consumed amms vaults pools = Ok (pools, consumed)"
| "pools_loop (ev # evs) consumed amms vaults pools =
    bind_res (add_p consumed 1) (\<lambda>consumed'.
    (case ev of
       AccountUpdate _ _ data \<Rightarrow>
         bind_res (cache_account data amms vaults) (\<lambda>(amms1, vaults1).
         bind_res (assemble_ready (ready_keys amms1 vaults1) amms1 vaults1 pools) (\<lambda>(amms2, pools2).
         pools_loop evs consumed' amms2 vaults1 pools2))
     | _ \<Rightarrow> pools_loop evs consumed' amms vaults pools))"

definition pools_from_feed :: "feed_event list \<Rightarrow> (pool list \<times> u64, recon_error) res" where
  "pools_from_feed evs = pools_loop evs 0 [] [] []"

definition replay_capture_to_ledger ::
    "(ledger_entry \<Rightarrow> u8 list option) \<Rightarrow> (u8 list \<Rightarrow> feed_event option) \<Rightarrow> (pool_registry \<Rightarrow> pool list) \<Rightarrow>
      source \<Rightarrow> replay_params \<Rightarrow> (replay_report, recon_error) res" where
  "replay_capture_to_ledger ser de iter capture params =
    bind_res (map_err ReconCapture (capture_open capture)) (\<lambda>feed.
    let (evs, end_r) = capture_replay de feed in
    bind_res (pools_from_feed evs) (\<lambda>(pools, _).
    case end_r of
      Ok _ \<Rightarrow> bind_res (replay_pools_to_ledger ser iter pools params) (\<lambda>report.
        Ok (report\<lparr>rr_feed_events_consumed := of_nat (length pools)\<rparr>))
    | _ \<Rightarrow> Panic))"

section \<open>Reconciling a ledger file\<close>

record recon_row =
  rw_seq :: u64
  rw_cycle_hash :: u64
  rw_predicted_lamports :: i128
  rw_realized_lamports :: i128
  rw_delta_lamports :: i128
  rw_decision :: decision
  rw_tip_lamports :: u64

record recon_state =
  rs_rows :: "recon_row list"
  rs_source_hash :: u64
  rs_predicted :: i128
  rs_realized :: i128
  rs_tip :: u64
  rs_n_traded :: u64
  rs_n_not_traded :: u64

definition recon_start :: recon_state where
  "recon_start = \<lparr>rs_rows = [], rs_source_hash = FNV_OFFSET, rs_predicted = 0, rs_realized = 0, rs_tip = 0,
    rs_n_traded = 0, rs_n_not_traded = 0\<rparr>"

definition row_of_entry :: "ledger_entry \<Rightarrow> recon_row" where
  "row_of_entry e =
    (let predicted = e_pnl (le_optimistic e); realized = e_pnl (le_conservative e) in
     \<lparr>rw_seq = le_seq e, rw_cycle_hash = le_cycle_hash e, rw_predicted_lamports = predicted,
      rw_realized_lamports = realized, rw_delta_lamports = clamp_i 128 (predicted - realized),
      rw_decision = le_decision e, rw_tip_lamports = le_tip_lamports e\<rparr>)"

definition recon_step :: "ledger_entry \<Rightarrow> recon_state \<Rightarrow> recon_state" where
  "recon_step e s =
    \<lparr>rs_rows = rs_rows s @ [row_of_entry e],
     rs_source_hash = fnv (u64_to_le (le_cycle_hash e)) (fnv (u64_to_le (le_seq e)) (rs_source_hash s)),
     rs_predicted = clamp_i 128 (rs_predicted s + e_pnl (le_optimistic e)),
     rs_realized = clamp_i 128 (rs_realized s + e_pnl (le_conservative e)),
     rs_tip = sat_add_w (rs_tip s) (le_tip_lamports e),
     rs_n_traded = (if le_decision e = WouldTrade then sat_add_w (rs_n_traded s) 1 else rs_n_traded s),
     rs_n_not_traded = (if le_decision e = WouldNotTrade then sat_add_w (rs_n_not_traded s) 1 else rs_n_not_traded s)\<rparr>"

function recon_loop :: "(u8 list \<Rightarrow> ledger_entry option) \<Rightarrow> ledger_reader \<Rightarrow> recon_state \<Rightarrow> (recon_state, recon_error) res" where
  "recon_loop de r s =
    (case read_entry de r of
       (Ok (Some e), r') \<Rightarrow> recon_loop de r' (recon_step e s)
     | (Ok None, r') \<Rightarrow> Ok s
     | (Err e, r') \<Rightarrow> Err (ReconLedger e)
     | (Panic, r') \<Rightarrow> Panic)"
  by pat_completeness auto
termination
  by (relation "measure (\<lambda>(de, r, s). source_size (lr_source r))") (auto dest: read_entry_size [OF sym])

declare recon_loop.simps [simp del]

record reconciliation_report =
  rc_source_label :: string
  rc_rows :: "recon_row list"
  rc_total_predicted :: i128
  rc_total_realized :: i128
  rc_total_delta :: i128
  rc_total_tip :: u64
  rc_n_traded :: u64
  rc_n_not_traded :: u64
  rc_source_ledger_hash :: u64
  rc_report_hash :: u64

fun hash_rows :: "(recon_row \<Rightarrow> u8 list option) \<Rightarrow> recon_row list \<Rightarrow> u64 \<Rightarrow> (u64, recon_error) res" where
  "hash_rows ser_row [] h = Ok h"
| "hash_rows ser_row (row # rows) h = (case ser_row row of None \<Rightarrow> Panic | Some bytes \<Rightarrow> hash_rows ser_row rows (fnv bytes h))"

definition reconcile_ledger ::
    "(recon_row \<Rightarrow> u8 list option) \<Rightarrow> (u8 list \<Rightarrow> ledger_entry option) \<Rightarrow> source \<Rightarrow> string \<Rightarrow>
      (reconciliation_report, recon_error) res" where
  "reconcile_ledger ser_row de src label =
    bind_res (map_err ReconLedger (ledger_open src)) (\<lambda>reader.
    bind_res (recon_loop de reader recon_start) (\<lambda>s.
    bind_res (hash_rows ser_row (rs_rows s) FNV_OFFSET) (\<lambda>report_hash.
    Ok \<lparr>rc_source_label = label, rc_rows = rs_rows s, rc_total_predicted = rs_predicted s,
        rc_total_realized = rs_realized s, rc_total_delta = clamp_i 128 (rs_predicted s - rs_realized s),
        rc_total_tip = rs_tip s, rc_n_traded = rs_n_traded s, rc_n_not_traded = rs_n_not_traded s,
        rc_source_ledger_hash = rs_source_hash s, rc_report_hash = report_hash\<rparr>)))"

section \<open>The numbered invariants\<close>

datatype invariant_failure =
    HashDiverged u64 u64
  | ReportsDiffer
  | ReplayFailed recon_error
  | UnexpectedDivergences nat
  | HashDrift u64 u64

definition check_i1_determinism ::
    "(replay_report, recon_error) res \<Rightarrow> (replay_report, recon_error) res \<Rightarrow> (unit, invariant_failure) res" where
  "check_i1_determinism run_a run_b =
    bind_res (map_err ReplayFailed run_a) (\<lambda>a.
    bind_res (map_err ReplayFailed run_b) (\<lambda>b.
    if rr_report_hash a \<noteq> rr_report_hash b then Err (HashDiverged (rr_report_hash a) (rr_report_hash b))
    else if a \<noteq> b then Err ReportsDiffer else Ok ()))"

definition check_i4_no_silent_skips :: "replay_report \<Rightarrow> (unit, invariant_failure) res" where
  "check_i4_no_silent_skips report =
    (if rr_divergences report \<noteq> [] then Err (UnexpectedDivergences (length (rr_divergences report))) else Ok ())"

definition check_i6_hash_match :: "(ledger_entry \<Rightarrow> u8 list option) \<Rightarrow> replay_report \<Rightarrow> (unit, invariant_failure) res" where
  "check_i6_hash_match ser report =
    bind_res (map_err ReplayFailed (recompute_hash ser (rr_cycle_records report))) (\<lambda>computed.
    if computed \<noteq> rr_report_hash report then Err (HashDrift (rr_report_hash report) computed) else Ok ())"

section \<open>A replay is determined by its pools\<close>

text \<open>What any \<^verbatim>\<open>HashMap\<close> guarantees of its iterator: every pool once, in some order.\<close>

definition iterates :: "(pool_registry \<Rightarrow> pool list) \<Rightarrow> pool_registry \<Rightarrow> bool" where
  "iterates iter reg \<longleftrightarrow> distinct (iter reg) \<and> set (iter reg) = ran (by_address reg)"

definition keyed :: "pool_registry \<Rightarrow> bool" where
  "keyed reg \<longleftrightarrow> (\<forall>k p. by_address reg k = Some p \<longrightarrow> key_bytes (address p) = k)"

lemma keyed_insert: "keyed reg \<Longrightarrow> keyed (snd (registry_insert reg p))"
  by (simp add: keyed_def registry_insert_def)

lemma keyed_registry_of: "keyed (registry_of ps)"
proof -
  have "keyed reg \<Longrightarrow> keyed (fold (\<lambda>p r. snd (registry_insert r p)) ps reg)" for reg
    by (induction ps arbitrary: reg) (simp_all add: keyed_insert)
  moreover have "keyed registry_new"
    by (simp add: keyed_def registry_new_def)
  ultimately show ?thesis
    by (simp add: registry_of_def)
qed

lemma sorted_slice_unique:
  assumes "keyed reg" and "iterates iter reg" and "iterates iter' reg"
  shows "sort_key (\<lambda>p. key_bytes (address p)) (iter reg) = sort_key (\<lambda>p. key_bytes (address p)) (iter' reg)"
proof (rule sort_key_inj_key_eq)
  show "mset (iter reg) = mset (sort_key (\<lambda>p. key_bytes (address p)) (iter' reg))"
    using assms(2,3) by (simp add: iterates_def set_eq_iff_mset_eq_distinct [symmetric])
  show "inj_on (\<lambda>p. key_bytes (address p)) (set (iter reg))"
    using assms(1,2) by (auto simp: iterates_def keyed_def inj_on_def ran_def)
qed simp

text \<open>The report of a replay depends on the registered pools only: not on the order in which the
  pools were given, nor on the order in which the hash map iterates. So two runs pass the determinism
  check whenever they return.\<close>

theorem replay_deterministic:
  assumes "registry_of pools = registry_of pools'"
    and "iterates iter (registry_of pools)" and "iterates iter' (registry_of pools)"
  shows "replay_pools_to_ledger ser iter pools params = replay_pools_to_ledger ser iter' pools' params
    \<and> (replay_pools_to_ledger ser iter pools params = Ok report \<longrightarrow>
      check_i1_determinism (replay_pools_to_ledger ser iter pools params) (replay_pools_to_ledger ser iter' pools' params) = Ok ())"
proof -
  have "replay_pools_to_ledger ser iter pools params = replay_pools_to_ledger ser iter' pools' params"
    using sorted_slice_unique [OF keyed_registry_of assms(2,3)] assms(1) by (simp add: replay_pools_to_ledger_def)
  then show ?thesis
    by (simp add: check_i1_determinism_def)
qed

section \<open>What a report holds\<close>

lemma evaluate_all_length: "evaluate_all reg params ics = Ok recs \<Longrightarrow> length recs = length ics"
  by (induction reg params ics arbitrary: recs rule: evaluate_all.induct) (auto simp: bind_res_Ok_iff)

lemma evaluate_all_nth:
  "evaluate_all reg params ics = Ok recs \<Longrightarrow> i < length ics \<Longrightarrow>
    evaluate_cycle (snd (ics ! i)) reg params (of_nat (fst (ics ! i))) = Ok (recs ! i)"
proof (induction ics arbitrary: recs i)
  case (Cons ic ics)
  obtain idx c where ic: "ic = (idx, c)"
    by (cases ic)
  from Cons.prems(1) obtain rec rest where r: "evaluate_cycle c reg params (of_nat idx) = Ok rec"
      "evaluate_all reg params ics = Ok rest" "recs = rec # rest"
    by (auto simp: ic bind_res_Ok_iff)
  show ?case
    using Cons.IH [OF r(2)] Cons.prems(2) r(1) by (cases i) (simp_all add: ic r(3))
qed simp

lemma sizing_within:
  assumes "find_optimal_input c reg cost mx = Ok sizing"
  shows "(case sizing of Profitable amount _ \<Rightarrow> amount | NoTrade _ \<Rightarrow> mx div 2) \<le> mx"
proof -
  have half: "mx div 2 \<le> mx"
    by (simp add: word_le_nat_alt unat_div)
  show ?thesis
  proof (cases "mx = 0")
    case True
    then show ?thesis
      using assms by (auto simp: find_optimal_input_def)
  next
    case False
    then obtain a v where "a \<le> mx" "sizing = (if 0 < v then Profitable a v else NoTrade v)"
      using assms golden_search_sound by (fastforce simp: find_optimal_input_def bind_res_Ok_iff)
    then show ?thesis
      using half by simp
  qed
qed

lemma evaluate_cycle_record:
  assumes "evaluate_cycle c reg params seq = Ok rec"
  obtains sizing f where "cr_seq rec = seq" and "cr_cycle rec = c"
    and "cr_decision rec = decision_from_ev (eo_conservative (cr_outcome rec))"
    and "cr_entry rec = from_evaluated c (cr_net rec) (cr_outcome rec) seq"
    and "evaluate (cr_net rec) (rq_optimistic params) (rq_conservative params) = Ok (cr_outcome rec)"
    and "simulate_cycle c reg (np_input_amount (cr_net rec)) = Ok f"
    and "from_optimal sizing (np_input_amount (cr_net rec)) (final_output f) (rq_cost params) = Ok (cr_net rec)"
    and "np_input_amount (cr_net rec) \<le> rq_max_input params"
proof -
  from assms obtain sizing net out where s: "find_optimal_input c reg (rq_cost params) (rq_max_input params) = Ok sizing"
    "build_net_profit c reg sizing (rq_cost params) (rq_max_input params) = Ok net"
    "evaluate net (rq_optimistic params) (rq_conservative params) = Ok out"
    "rec = cycle_record_build seq c net out"
    by (auto simp: evaluate_cycle_def bind_res_Ok_iff )
  define input where "input = (case sizing of Profitable amount _ \<Rightarrow> amount | NoTrade _ \<Rightarrow> rq_max_input params div 2)"
  from s(2) obtain f where f: "simulate_cycle c reg input = Ok f"
    "from_optimal sizing input (final_output f) (rq_cost params) = Ok net"
    by (auto simp: build_net_profit_def input_def [symmetric] Let_def bind_res_Ok_iff )
  then have "np_input_amount net = input"
    by (auto simp: from_optimal_def bind_res_Ok_iff)
  then show thesis
    using that [of f sizing] f s(3,4) sizing_within [OF s(1)] by (simp add: cycle_record_build_def input_def)
qed
lemma replay_run:
  assumes "replay_pools_to_ledger ser iter pools params = Ok report"
  obtains cycles where "rr_params report = params" and "rr_divergences report = []"
    and "summary_from_entries (map cr_entry (rr_cycle_records report)) = Ok (rr_summary report)"
    and "recompute_hash ser (rr_cycle_records report) = Ok (rr_report_hash report)"
    and "evaluate_all (registry_of pools) params (enumerate 0 cycles) = Ok (rr_cycle_records report)"
    and "rr_total_tip_lamports report = fold (\<lambda>r t. sat_add_w t (le_tip_lamports (cr_entry r))) (rr_cycle_records report) 0"
    and "case build_from_pools (sort_key (\<lambda>p. key_bytes (address p)) (iter (registry_of pools))) of
      Ok g \<Rightarrow> find_negative_cycles g (rq_max_cycle_legs params) = Ok cycles
    | Err e \<Rightarrow> e = EmptyGraph \<and> cycles = [] | Panic \<Rightarrow> False"
proof (cases "build_from_pools (sort_key (\<lambda>p. key_bytes (address p)) (iter (registry_of pools)))")
  case (Ok g)
  with assms show thesis
    by (auto simp: replay_pools_to_ledger_def Let_def bind_res_Ok_iff recompute_hash_def intro: that)
next
  case (Err e)
  with assms that [of "[]"] show thesis
    by (cases e) (auto simp: replay_pools_to_ledger_def Let_def bind_res_Ok_iff recompute_hash_def)
qed (use assms in \<open>simp add: replay_pools_to_ledger_def\<close>)

lemma evaluate_all_records:
  assumes "evaluate_all reg params (enumerate 0 cycles) = Ok recs"
  shows "map cr_cycle recs = cycles"
    and "i < length recs \<Longrightarrow> evaluate_cycle (cycles ! i) reg params (of_nat i) = Ok (recs ! i)"
proof -
  have len: "length recs = length cycles"
    using evaluate_all_length [OF assms] by simp
  have nth: "evaluate_cycle (cycles ! i) reg params (of_nat i) = Ok (recs ! i)" if "i < length recs" for i
    using evaluate_all_nth [OF assms, of i] that len by (simp add: nth_enumerate_eq)
  then show "i < length recs \<Longrightarrow> evaluate_cycle (cycles ! i) reg params (of_nat i) = Ok (recs ! i)" .
  show "map cr_cycle recs = cycles"
    by (rule nth_equalityI) (use len nth in \<open>auto elim: evaluate_cycle_record\<close>)
qed

lemma no_tips: "list_all (\<lambda>r. le_tip_lamports (cr_entry r) = 0) recs \<Longrightarrow>
    fold (\<lambda>r t. sat_add_w t (le_tip_lamports (cr_entry r))) recs 0 = 0"
  by (induction recs) (simp_all add: sat_add_w_def)

text \<open>C14. A replay that returns reports every cycle the search found, in order, each evaluated on the
  registered pools under its own position, nothing skipped: its summary is the summary of exactly those
  entries, it passes the numbered checks for silent skips and for the hash, and its total tip is
  zero, whatever tip the parameters charge.\<close>

theorem replay_report_exact:
  assumes "replay_pools_to_ledger ser iter pools params = Ok report"
  shows "(case build_from_pools (sort_key (\<lambda>p. key_bytes (address p)) (iter (registry_of pools))) of
        Ok g \<Rightarrow> find_negative_cycles g (rq_max_cycle_legs params) = Ok (map cr_cycle (rr_cycle_records report))
      | Err e \<Rightarrow> e = EmptyGraph \<and> rr_cycle_records report = [] | Panic \<Rightarrow> False)
    \<and> (\<forall>i < length (rr_cycle_records report).
        evaluate_cycle (cr_cycle (rr_cycle_records report ! i)) (registry_of pools) params (of_nat i)
          = Ok (rr_cycle_records report ! i) \<and> cr_seq (rr_cycle_records report ! i) = of_nat i)
    \<and> summary_from_entries (map cr_entry (rr_cycle_records report)) = Ok (rr_summary report)
    \<and> check_i4_no_silent_skips report = Ok () \<and> check_i6_hash_match ser report = Ok ()
    \<and> rr_total_tip_lamports report = 0"
proof -
  from assms obtain cycles where r: "rr_divergences report = []"
    "summary_from_entries (map cr_entry (rr_cycle_records report)) = Ok (rr_summary report)"
    "recompute_hash ser (rr_cycle_records report) = Ok (rr_report_hash report)"
    "evaluate_all (registry_of pools) params (enumerate 0 cycles) = Ok (rr_cycle_records report)"
    "rr_total_tip_lamports report = fold (\<lambda>r t. sat_add_w t (le_tip_lamports (cr_entry r))) (rr_cycle_records report) 0"
    "case build_from_pools (sort_key (\<lambda>p. key_bytes (address p)) (iter (registry_of pools))) of
      Ok g \<Rightarrow> find_negative_cycles g (rq_max_cycle_legs params) = Ok cycles
    | Err e \<Rightarrow> e = EmptyGraph \<and> cycles = [] | Panic \<Rightarrow> False"
    by (rule replay_run)
  note cycles = evaluate_all_records [OF r(4)]
  have nth: "evaluate_cycle (cr_cycle (rr_cycle_records report ! i)) (registry_of pools) params (of_nat i)
      = Ok (rr_cycle_records report ! i)" if "i < length (rr_cycle_records report)" for i
    using cycles(2) [OF that] that by (simp flip: cycles(1))
  have tip: "le_tip_lamports (cr_entry (rr_cycle_records report ! i)) = 0"
    and sq: "cr_seq (rr_cycle_records report ! i) = of_nat i" if "i < length (rr_cycle_records report)" for i
    using nth [OF that] by (auto elim!: evaluate_cycle_record simp: from_evaluated_def)
  then have "rr_total_tip_lamports report = 0"
    unfolding r(5) by (intro no_tips) (simp add: list_all_length)
  moreover have "rr_cycle_records report = []" if "cycles = []"
    using that cycles(1) by simp
  ultimately show ?thesis
    using r(1,2,3,6) nth sq cycles(1)
    by (auto simp: check_i4_no_silent_skips_def check_i6_hash_match_def split: res.splits)
qed
lemma as_i128_le: "as_i128 a \<le> int (unat a)"
  by (simp add: as_i128_def sint_uint signed_take_bit_int_less_eq_self_iff order_trans [OF _ uint_ge_0])

lemma from_optimal_pays:
  assumes "from_optimal sizing input gross cost = Ok net" and "unat input < 2 ^ 127" and "0 < np_net_profit net"
  shows "\<exists>b. total_cost cost = Ok b
    \<and> np_net_profit net \<le> int (unat gross) - int (unat input) - int (unat (total_lamports b))"
proof -
  obtain b where b: "total_cost cost = Ok b"
    "np_net_profit net = as_i128 gross - as_i128 input - int (unat (total_lamports b))"
    using assms(1) by (auto simp: from_optimal_def bind_res_Ok_iff range_p_Ok_iff)
  then show ?thesis
    using as_i128_le [of gross] as_i128_small [OF assms(2)] by (intro exI [of _ b]) simp
qed

lemma evaluate_conservative: "evaluate net po pc = Ok out \<Longrightarrow> evaluate_one net pc = Ok (eo_conservative out)"
  by (cases "evaluate_one net po"; cases "evaluate_one net pc") (auto simp: evaluate_def)

text \<open>C16. No decision of a replay to trade loses: where a record says \<open>WouldTrade\<close> and its net is one the
  evaluation is exact on, simulating its cycle on the registered pools at its own input, which the bound
  allows, returns at least that input, the modelled cost and the recorded conservative value.\<close>

theorem replay_trades_pay:
  assumes run: "replay_pools_to_ledger ser iter pools params = Ok report"
    and rec: "rec \<in> set (rr_cycle_records report)" "cr_decision rec = WouldTrade"
    and ready: "eval_ready (cr_net rec) (rq_conservative params)" and bound: "unat (rq_max_input params) < 2 ^ 127"
  shows "\<exists>f b. simulate_cycle (cr_cycle rec) (registry_of pools) (np_input_amount (cr_net rec)) = Ok f
    \<and> total_cost (rq_cost params) = Ok b \<and> np_input_amount (cr_net rec) \<le> rq_max_input params
    \<and> 0 < e_pnl (le_conservative (cr_entry rec))
    \<and> int (unat (np_input_amount (cr_net rec))) + int (unat (total_lamports b)) + e_pnl (le_conservative (cr_entry rec))
        \<le> int (unat (final_output f))"
proof -
  obtain cycles where all: "evaluate_all (registry_of pools) params (enumerate 0 cycles) = Ok (rr_cycle_records report)"
    using run by (rule replay_run)
  obtain i where i: "i < length (rr_cycle_records report)" "rec = rr_cycle_records report ! i"
    using rec(1) by (auto simp: in_set_conv_nth)
  from evaluate_all_records(2) [OF all i(1)] obtain sizing f where r: "cr_cycle rec = cycles ! i"
    "cr_decision rec = decision_from_ev (eo_conservative (cr_outcome rec))"
    "cr_entry rec = from_evaluated (cycles ! i) (cr_net rec) (cr_outcome rec) (of_nat i)"
    "evaluate (cr_net rec) (rq_optimistic params) (rq_conservative params) = Ok (cr_outcome rec)"
    "simulate_cycle (cycles ! i) (registry_of pools) (np_input_amount (cr_net rec)) = Ok f"
    "from_optimal sizing (np_input_amount (cr_net rec)) (final_output f) (rq_cost params) = Ok (cr_net rec)"
    "np_input_amount (cr_net rec) \<le> rq_max_input params"
    unfolding i(2) [symmetric] by (rule evaluate_cycle_record)
  define pnl where "pnl = e_pnl (le_conservative (cr_entry rec))"
  have pos: "0 < pnl"
    using rec(2) by (simp add: r(2,3) pnl_def from_evaluated_def decision_from_ev_def split: if_splits)
  have "evaluate_one (cr_net rec) (rq_conservative params) = Ok (eo_conservative (cr_outcome rec))"
    using r(4) by (rule evaluate_conservative)
  then have "pnl = pnl_spec (cr_net rec) (rq_conservative params)"
    using evaluate_one_run [OF ready] by (simp add: r(3) pnl_def from_evaluated_def)
  then have net: "pnl \<le> np_net_profit (cr_net rec)"
    using pnl_spec_le [OF ready] pos by simp
  have "unat (np_input_amount (cr_net rec)) < 2 ^ 127"
    using r(7) bound by (simp add: word_le_nat_alt)
  from from_optimal_pays [OF r(6) this] pos net obtain b where "total_cost (rq_cost params) = Ok b"
    "pnl \<le> int (unat (final_output f)) - int (unat (np_input_amount (cr_net rec))) - int (unat (total_lamports b))"
    by fastforce
  then show ?thesis
    using r(1,5,7) pos by (intro exI [of _ f] exI [of _ b]) (simp add: pnl_def del: of_nat_unat)
qed
definition two_pools :: "pool list" where
  "two_pools = [mint_pool 7 1 2 1000 5000, mint_pool 8 2 1 1000 1000]"

definition two_graph :: graph where
  "two_graph = \<lparr>tokens = [Pubkey [1], Pubkey [2]], token_index = [[1] \<mapsto> TokenId 0, [2] \<mapsto> TokenId 1],
    edges = [e6 0 1 (- 4000000000000000000) 7 True, e6 1 0 800000000000000000 7 False, e6 1 0 0 8 True, e6 0 1 0 8 False]\<rparr>"

lemma build_two: "build_from_pools two_pools = Ok two_graph"
  by (simp add: two_pools_def build_eval two_graph_def cong: bind_res_weak_cong)
definition fair_params :: "u128 \<Rightarrow> replay_params" where
  "fair_params mx = \<lparr>rq_cost = no_cost, rq_optimistic = params_optimistic, rq_conservative = params_optimistic,
    rq_max_input = mx, rq_max_cycle_legs = 2\<rparr>"

lemma evaluate_cycle_fair:
  assumes find: "find_optimal_input c reg no_cost mx = Ok sizing"
    and input: "input = (case sizing of Profitable amount _ \<Rightarrow> amount | NoTrade _ \<Rightarrow> mx div 2)"
    and route: "route_output reg (legs c) input = Ok b" "length (legs c) \<le> 16" "unat input < 2 ^ 100" "unat b < 2 ^ 100"
  shows "\<exists>rec. evaluate_cycle c reg (fair_params mx) seq = Ok rec \<and> eval_ready (cr_net rec) params_optimistic
    \<and> e_pnl (le_optimistic (cr_entry rec)) = int (unat b) - int (unat input)
    \<and> e_pnl (le_conservative (cr_entry rec)) = int (unat b) - int (unat input)
    \<and> prob_ok (ev_p_land (le_conservative (cr_entry rec)))
    \<and> cr_decision rec = (if unat input < unat b then WouldTrade else WouldNotTrade)"
proof -
  obtain f where f: "simulate_cycle c reg input = Ok f" "final_output f = b"
    using sample_route [OF route(1,2)] by blast
  have "cost_fits no_cost" "cost_nat no_cost = 0"
    by (simp_all add: cost_fits_def cost_nat_def no_cost_def)
  with from_optimal_exact [OF route(3,4), of no_cost sizing] obtain net where net:
    "from_optimal sizing input b no_cost = Ok net" "np_net_profit net = int (unat b) - int (unat input)"
    by auto
  have bps: "in_range 32 (np_net_profit_bps net)"
    using net(1) by (auto simp: from_optimal_def bind_res_Ok_iff in_range_def smin_def smax_def split: if_splits)
  have "\<bar>np_net_profit net\<bar> < 2 ^ 127"
    using int_unat_less [OF route(3)] int_unat_less [OF route(4)] by (simp add: net(2) abs_less_iff del: of_nat_unat)
  note opt = optimistic_ready [OF this bps]
  obtain ev where ev: "evaluate_one net params_optimistic = Ok ev" "e_pnl ev = np_net_profit net" "prob_ok (ev_p_land ev)"
    using evaluate_one_run [OF opt(1)] opt(2) by auto
  have build: "build_net_profit c reg sizing no_cost mx = Ok net"
    by (simp add: build_net_profit_def input [symmetric] f net(1))
  define rec where "rec = cycle_record_build seq c net \<lparr>eo_optimistic = ev, eo_conservative = ev\<rparr>"
  have "evaluate_cycle c reg (fair_params mx) seq = Ok rec"
    by (simp add: evaluate_cycle_def fair_params_def find build evaluate_def ev(1) rec_def)
  then show ?thesis
    using opt(1) ev(2,3) net(2)
    by (intro exI [of _ rec])
      (auto simp: rec_def cycle_record_build_def from_evaluated_def decision_from_ev_def simp del: of_nat_unat)
qed

lemma replay_two:
  "\<exists>report rec. replay_pools_to_ledger sample_ser (\<lambda>_. two_pools) two_pools (fair_params 2) = Ok report
    \<and> length (rr_cycle_records report) = 2 \<and> rr_cycle_records report ! 1 = rec \<and> cr_decision rec = WouldTrade
    \<and> eval_ready (cr_net rec) params_optimistic \<and> e_pnl (le_conservative (cr_entry rec)) = 2"
proof -
  let ?reg = "registry_of two_pools"
  obtain c1 c2 where cs: "find_negative_cycles two_graph 2 = Ok [c1, c2]"
    "\<exists>w w'. legs c1 = [(leg_through 7 BaseToQuote)\<lparr>leg_weight := w\<rparr>, (leg_through 7 QuoteToBase)\<lparr>leg_weight := w'\<rparr>]"
    "\<exists>w w'. legs c2 = [(leg_through 7 BaseToQuote)\<lparr>leg_weight := w\<rparr>, (leg_through 8 BaseToQuote)\<lparr>leg_weight := w'\<rparr>]"
    by (simp add: two_graph_def search_run leg_through_def cong: bind_res_weak_cong)
  have r1: "route_output ?reg (legs c1) 0 = Ok 0" "route_output ?reg (legs c1) 1 = Ok 0" "route_output ?reg (legs c1) 2 = Ok 1"
    using cs(2) by (auto simp: two_pools_def sample_eval)
  have r2: "route_output ?reg (legs c2) 0 = Ok 0" "route_output ?reg (legs c2) 1 = Ok 3" "route_output ?reg (legs c2) 2 = Ok 8"
    using cs(3) by (auto simp: two_pools_def sample_eval)
  have len: "length (legs c1) \<le> 16" "length (legs c2) \<le> 16"
    using cs(2,3) by auto
  have n1: "net_profit_at c1 ?reg 0 0 = Ok 0" "net_profit_at c1 ?reg 0 1 = Ok (- 1)" "net_profit_at c1 ?reg 0 2 = Ok (- 1)"
    using net_profit_at_eq [OF r1(1) len(1)] net_profit_at_eq [OF r1(2) len(1)] net_profit_at_eq [OF r1(3) len(1)] by simp_all
  have n2: "net_profit_at c2 ?reg 0 0 = Ok 0" "net_profit_at c2 ?reg 0 1 = Ok 2" "net_profit_at c2 ?reg 0 2 = Ok 6"
    using net_profit_at_eq [OF r2(1) len(2)] net_profit_at_eq [OF r2(2) len(2)] net_profit_at_eq [OF r2(3) len(2)] by simp_all
  have find: "find_optimal_input c1 ?reg no_cost 2 = Ok (NoTrade 0)"
    "find_optimal_input c2 ?reg no_cost 2 = Ok (Profitable 1 2)"
    by (simp_all add: find_optimal_no_cost golden_search_def golden_pick_def n1 n2 phi_offset_def INV_PHI_NUM_def
        INV_PHI_DEN_def mul_p_def div_p_def sub_p_def add_p_def MAX_ITERS_def golden_loop_numeral cong: bind_res_weak_cong)
  obtain rec1 where rec1: "evaluate_cycle c1 ?reg (fair_params 2) 0 = Ok rec1" "e_pnl (le_optimistic (cr_entry rec1)) = - 1"
    "e_pnl (le_conservative (cr_entry rec1)) = - 1" "prob_ok (ev_p_land (le_conservative (cr_entry rec1)))"
    using evaluate_cycle_fair [OF find(1) refl, of 0 0] r1(2) len(1) by auto
  obtain rec2 where rec2: "evaluate_cycle c2 ?reg (fair_params 2) 1 = Ok rec2" "e_pnl (le_optimistic (cr_entry rec2)) = 2"
    "e_pnl (le_conservative (cr_entry rec2)) = 2" "prob_ok (ev_p_land (le_conservative (cr_entry rec2)))"
    "eval_ready (cr_net rec2) params_optimistic" "cr_decision rec2 = WouldTrade"
    using evaluate_cycle_fair [OF find(2) refl, of 3 1] r2(2) len(2) by auto
  have "\<exists>s. summary_from_entries [cr_entry rec1, cr_entry rec2] = Ok s"
    using rec1(4) rec2(4)
    by (subst ledger_summary_exact) (simp_all add: rec1(2,3) rec2(2,3) in_range_def smin_def smax_def prob_ok_iff)
  moreover have "evaluate_all ?reg (fair_params 2) (enumerate 0 [c1, c2]) = Ok [rec1, rec2]"
    by (simp add: rec1(1) rec2(1))
  moreover have "\<exists>h. hash_records sample_ser [rec1, rec2] FNV_OFFSET = Ok h"
    by (simp add: sample_ser_def)
  moreover have "sort_key (\<lambda>p. key_bytes (address p)) two_pools = two_pools"
    by (simp add: two_pools_def mint_pool_def sample_pool_def)
  moreover have "rq_max_cycle_legs (fair_params 2) = 2"
    by (simp add: fair_params_def)
  ultimately show ?thesis
    using rec2(3,5,6) by (auto simp: replay_pools_to_ledger_def build_two cs(1) Let_def)
qed

lemma replay_deterministic_witness:
  "\<exists>report. replay_pools_to_ledger sample_ser (\<lambda>_. two_pools) two_pools (fair_params 2) = Ok report
    \<and> replay_pools_to_ledger sample_ser (\<lambda>_. rev two_pools) (rev two_pools) (fair_params 2) = Ok report"
proof -
  have same: "registry_of two_pools = registry_of (rev two_pools)"
    by (simp add: two_pools_def mint_pool_def sample_pool_def registry_of_def registry_insert_def registry_new_def fun_eq_iff)
  obtain p q where pq: "two_pools = [p, q]" "key_bytes (address p) = [7]" "key_bytes (address q) = [8]"
    by (simp add: two_pools_def mint_pool_def sample_pool_def)
  then have "p \<noteq> q"
    by auto
  moreover have "ran (by_address (registry_of two_pools)) = {q, p}"
    by (simp add: pq registry_of_def registry_insert_def registry_new_def)
  ultimately have "iterates (\<lambda>_. two_pools) (registry_of two_pools)" "iterates (\<lambda>_. rev two_pools) (registry_of two_pools)"
    by (auto simp: iterates_def pq(1))
  from replay_deterministic [OF same this, of sample_ser "fair_params 2"] show ?thesis
    using replay_two by metis
qed

lemma replay_report_exact_witness:
  "\<exists>report. replay_pools_to_ledger sample_ser (\<lambda>_. two_pools) two_pools (fair_params 2) = Ok report
    \<and> check_i6_hash_match sample_ser report = Ok () \<and> cr_seq (rr_cycle_records report ! 1) = 1"
proof -
  obtain report where run: "replay_pools_to_ledger sample_ser (\<lambda>_. two_pools) two_pools (fair_params 2) = Ok report"
    "length (rr_cycle_records report) = 2"
    using replay_two by blast
  from replay_report_exact [OF run(1)] have "check_i6_hash_match sample_ser report = Ok ()"
    "cr_seq (rr_cycle_records report ! 1) = of_nat 1"
    using run(2) by auto
  then show ?thesis
    using run(1) by auto
qed

lemma replay_trades_pay_witness:
  "\<exists>report rec f. replay_pools_to_ledger sample_ser (\<lambda>_. two_pools) two_pools (fair_params 2) = Ok report
    \<and> rec \<in> set (rr_cycle_records report)
    \<and> simulate_cycle (cr_cycle rec) (registry_of two_pools) (np_input_amount (cr_net rec)) = Ok f
    \<and> int (unat (np_input_amount (cr_net rec))) + 2 \<le> int (unat (final_output f))"
proof -
  obtain report rec where run: "replay_pools_to_ledger sample_ser (\<lambda>_. two_pools) two_pools (fair_params 2) = Ok report"
    and len: "length (rr_cycle_records report) = 2" "rr_cycle_records report ! 1 = rec"
    and rec: "cr_decision rec = WouldTrade" "eval_ready (cr_net rec) params_optimistic" "e_pnl (le_conservative (cr_entry rec)) = 2"
    using replay_two by blast
  have mem: "rec \<in> set (rr_cycle_records report)"
    using len nth_mem [of 1 "rr_cycle_records report"] by simp
  have "eval_ready (cr_net rec) (rq_conservative (fair_params 2))" "unat (rq_max_input (fair_params 2)) < 2 ^ 127"
    using rec(2) by (simp_all add: fair_params_def)
  from replay_trades_pay [OF run mem rec(1) this] rec(3) obtain f b where
    "simulate_cycle (cr_cycle rec) (registry_of two_pools) (np_input_amount (cr_net rec)) = Ok f"
    "int (unat (np_input_amount (cr_net rec))) + int (unat (b :: u64)) + 2 \<le> int (unat (final_output f))"
    by auto
  moreover have "int (unat (np_input_amount (cr_net rec))) + 2 \<le> int (unat (final_output f))"
    using calculation(2) of_nat_0_le_iff [of "unat b"] by linarith
  ultimately show ?thesis
    using run mem by blast
qed
section \<open>A reconciliation is exact\<close>

lemma recon_loop_read_all:
  "recon_loop de r s = (case ledger_read_all de r of
      (es, Ok _) \<Rightarrow> Ok (fold recon_step es s) | (es, Err e) \<Rightarrow> Err (ReconLedger e) | (es, Panic) \<Rightarrow> Panic)"
proof (induction de r s rule: recon_loop.induct)
  case (1 de r s)
  show ?case
  proof (cases "\<exists>e r'. read_entry de r = (Ok (Some e), r')")
    case True
    then obtain e r' where step: "read_entry de r = (Ok (Some e), r')"
      by blast
    show ?thesis
      using "1.IH" [OF step [symmetric] refl refl]
      by (subst recon_loop.simps, subst ledger_read_all.simps) (simp add: step split: prod.split res.split)
  qed (subst recon_loop.simps, subst ledger_read_all.simps, auto split: prod.split res.split option.split)
qed

lemma recon_fold_rows: "rs_rows (fold recon_step es s) = rs_rows s @ map row_of_entry es"
  by (induction es arbitrary: s) (simp_all add: recon_step_def)

lemma recon_fold_sums:
  "sums_fit 128 (rs_predicted s) (opt_pnls es) \<Longrightarrow> rs_predicted (fold recon_step es s) = rs_predicted s + sum_list (opt_pnls es)"
  "sums_fit 128 (rs_realized s) (con_pnls es) \<Longrightarrow> rs_realized (fold recon_step es s) = rs_realized s + sum_list (con_pnls es)"
  by (induction es arbitrary: s) (simp_all add: recon_step_def clamp_i_id)

lemma recon_fold_tip:
  "unat (rs_tip (fold recon_step es s)) = min (unat (rs_tip s) + sum_list (map (\<lambda>e. unat (le_tip_lamports e)) es)) (2 ^ 64 - 1)"
proof (induction es arbitrary: s)
  case Nil
  then show ?case using unat_bound [of "rs_tip s"] by simp
next
  case (Cons e es)
  show ?case
    by (simp add: Cons.IH) (simp add: recon_step_def unat_sat_add_w min_def)
qed

lemma sat_count: "unat n + Suc k < 2 ^ 64 \<Longrightarrow> sat_add_w n 1 = n + 1 \<and> unat (n + 1) = unat n + 1" for n :: u64
  by (simp add: sat_add_w_def unat_add_no_wrap)

lemma recon_fold_traded:
  "unat (rs_n_traded s) + length es < 2 ^ 64 \<Longrightarrow>
    rs_n_traded (fold recon_step es s) = rs_n_traded s + of_nat (trades es)"
proof (induction es arbitrary: s)
  case (Cons e es)
  then have "unat (rs_n_traded (recon_step e s)) + length es < 2 ^ 64"
    using sat_count [of "rs_n_traded s" "length es"] by (simp add: recon_step_def)
  from Cons.IH [OF this] show ?case
    using sat_count [of "rs_n_traded s" "length es"] Cons.prems by (simp add: recon_step_def trades_def)
qed (simp add: trades_def)

lemma recon_fold_not_traded:
  "unat (rs_n_not_traded s) + length es < 2 ^ 64 \<Longrightarrow>
    rs_n_not_traded (fold recon_step es s) = rs_n_not_traded s + of_nat (length es - trades es)"
proof (induction es arbitrary: s)
  case (Cons e es)
  then have "unat (rs_n_not_traded (recon_step e s)) + length es < 2 ^ 64"
    using sat_count [of "rs_n_not_traded s" "length es"] by (simp add: recon_step_def)
  moreover have "trades es \<le> length es"
    by (simp add: trades_def)
  moreover have "le_decision e = WouldTrade \<or> le_decision e = WouldNotTrade"
    using decision.exhaust by blast
  ultimately show ?case
    using sat_count [of "rs_n_not_traded s" "length es"] Cons.prems Cons.IH [of "recon_step e s"]
    by (auto simp: recon_step_def trades_def Suc_diff_le)
qed (simp add: trades_def)

lemma hash_rows_total: "\<forall>row. ser_row row \<noteq> None \<Longrightarrow> \<exists>h'. hash_rows ser_row rows h = Ok h'"
  by (induction rows arbitrary: h) (force split: option.split)+
lemma sums_fit_take: "sums_fit w a xs \<Longrightarrow> sums_fit w a (take n xs)"
  by (induction w a xs arbitrary: n rule: sums_fit.induct) (auto simp: take_Cons split: nat.split)

text \<open>The report a list of entries calls for.\<close>

definition reports_entries :: "reconciliation_report \<Rightarrow> ledger_entry list \<Rightarrow> bool" where
  "reports_entries report es \<longleftrightarrow> rc_rows report = map row_of_entry es
    \<and> rc_total_predicted report = sum_list (opt_pnls es) \<and> rc_total_realized report = sum_list (con_pnls es)
    \<and> rc_total_delta report = clamp_i 128 (sum_list (opt_pnls es) - sum_list (con_pnls es))
    \<and> unat (rc_total_tip report) = min (sum_list (map (\<lambda>e. unat (le_tip_lamports e)) es)) (2 ^ 64 - 1)
    \<and> rc_n_traded report = of_nat (trades es) \<and> rc_n_not_traded report = of_nat (length es - trades es)"

lemma reconcile_parsed:
  assumes "ledger_parse de p = (es, Ok ())" and "length es < 2 ^ 64" and "\<forall>row. ser_row row \<noteq> None"
    and "sums_fit 128 0 (opt_pnls es)" and "sums_fit 128 0 (con_pnls es)"
  shows "\<exists>report. reconcile_ledger ser_row de (slice (ledger_header @ p)) label = Ok report \<and> reports_entries report es"
proof -
  define s where "s = fold recon_step es recon_start"
  obtain reader where reader: "ledger_open (slice (ledger_header @ p)) = Ok reader" "ledger_read_all de reader = (es, Ok ())"
    using ledger_load_slice [of de p] assms(1) by (auto simp: ledger_load_def bind_res_Ok_iff)
  then have loop: "recon_loop de reader recon_start = Ok s"
    by (simp add: recon_loop_read_all s_def)
  obtain h where h: "hash_rows ser_row (rs_rows s) FNV_OFFSET = Ok h"
    using hash_rows_total [OF assms(3)] by blast
  have "rs_rows s = map row_of_entry es" "rs_predicted s = sum_list (opt_pnls es)" "rs_realized s = sum_list (con_pnls es)"
    "unat (rs_tip s) = min (sum_list (map (\<lambda>e. unat (le_tip_lamports e)) es)) (2 ^ 64 - 1)"
    "rs_n_traded s = of_nat (trades es)" "rs_n_not_traded s = of_nat (length es - trades es)"
    using assms(2,4,5) unfolding s_def
    by (simp_all add: recon_fold_rows recon_fold_sums recon_fold_tip recon_fold_traded recon_fold_not_traded recon_start_def)
  note fields = this
  show ?thesis
    unfolding reconcile_ledger_def reader(1) map_err.simps bind_res.simps loop h res.inject ex_simps simp_thms
    by (simp only: reports_entries_def fields reconciliation_report.simps)
qed

lemma reconcile_cut:
  assumes "ledger_parse de p = (es, Err LedgerTruncated)"
  shows "reconcile_ledger ser_row de (slice (ledger_header @ p)) label = Err (ReconLedger LedgerTruncated)"
proof -
  obtain reader where "ledger_open (slice (ledger_header @ p)) = Ok reader" "ledger_read_all de reader = (es, Err LedgerTruncated)"
    using ledger_load_slice [of de p] assms by (auto simp: ledger_load_def bind_res_Ok_iff)
  then show ?thesis
    by (simp add: reconcile_ledger_def recon_loop_read_all)
qed

text \<open>C17. A reconciliation is exact on every file a writer leaves, however full the disk was: unless the
  file ends inside an entry, which refuses the whole of it, the report has one row per complete entry, in
  order, the totals are the sums of the optimistic and conservative values, the tips add up, and every entry
  is counted as traded or as not traded.\<close>

theorem reconcile_file_exact:
  assumes codec: "list_all (codec_ok ser de MAX_ENTRY_BYTES) es"
    and size: "length es < 2 ^ 64" "length (ledger.contents ser es) < 2 ^ 64 - 1"
    and run: "ledger_session ser es room = (r, out_file)" "12 \<le> room"
    and rows: "\<forall>row. ser_row row \<noteq> None"
    and fits: "sums_fit 128 0 (opt_pnls es)" "sums_fit 128 0 (con_pnls es)"
  shows "\<exists>n \<le> length es. (r = Ok () \<longrightarrow> n = length es)
    \<and> (if out_file = ledger_header @ ledger.contents ser (take n es)
       then \<exists>report. reconcile_ledger ser_row de (slice out_file) label = Ok report \<and> reports_entries report (take n es)
       else reconcile_ledger ser_row de (slice out_file) label = Err (ReconLedger LedgerTruncated))"
proof -
  let ?body = "ledger.contents ser es"
  define p where "p = take (room - 12) ?body"
  have out: "out_file = ledger_header @ p" and r: "r = Ok () \<Longrightarrow> p = ?body"
    using ledger_session_run [OF codec size(1), of room] run by (auto simp: p_def split: if_splits)
  have pre: "prefix p ?body" "length p < 2 ^ 64 - 1"
    using size(2) by (auto simp: p_def take_is_prefix)
  obtain n where n: "n \<le> length es" "ledger_parse de p = (take n es, if p = ledger.contents ser (take n es) then Ok () else Err LedgerTruncated)"
    using ledger.parse_prefix [OF codec pre] by (auto simp: prod_eq_iff)
  have len: "length (take n es) < 2 ^ 64"
    using size(1) by simp
  have "take n es = es" if "r = Ok ()"
    using ledger.parse_file [OF codec size(2)] n(2) r [OF that] by simp
  then have "r = Ok () \<longrightarrow> n = length es"
    using n(1) by (metis length_take min.absorb2)
  moreover have "if p = ledger.contents ser (take n es)
      then \<exists>report. reconcile_ledger ser_row de (slice (ledger_header @ p)) label = Ok report \<and> reports_entries report (take n es)
      else reconcile_ledger ser_row de (slice (ledger_header @ p)) label = Err (ReconLedger LedgerTruncated)"
  proof (cases "p = ledger.contents ser (take n es)")
    case True
    with n(2) have parsed: "ledger_parse de p = (take n es, Ok ())"
      by simp
    have "sums_fit 128 0 (opt_pnls (take n es))" "sums_fit 128 0 (con_pnls (take n es))"
      using sums_fit_take [OF fits(1), of n] sums_fit_take [OF fits(2), of n] by (simp_all only: take_map)
    from reconcile_parsed [OF parsed len rows this] show ?thesis
      by (simp only: if_P [OF True])
  next
    case False
    with n(2) have "ledger_parse de p = (take n es, Err LedgerTruncated)"
      by simp
    from reconcile_cut [OF this] show ?thesis
      by (simp only: if_not_P [OF False])
  qed
  ultimately show ?thesis
    using n(1) unfolding out same_append_eq by blast
qed

lemma reconcile_file_exact_witness:
  "\<exists>out_file report. ledger_session sample_ser [sample_entry 1 5, sample_entry 2 5] 100 = (Ok (), out_file)
    \<and> reconcile_ledger (\<lambda>_. Some []) sample_de (slice out_file) ''day'' = Ok report
    \<and> rc_total_predicted report = 10 \<and> rc_n_traded report = 2 \<and> rc_total_delta report = 0"
proof -
  let ?es = "[sample_entry 1 5, sample_entry 2 5]"
  have codec: "list_all (codec_ok sample_ser sample_de MAX_ENTRY_BYTES) ?es"
    by (simp add: sample_codec)
  have len: "length (ledger.contents sample_ser ?es) = 24"
    by (simp add: written_as_def sample_ser_def frame_def)
  obtain out_file where run: "ledger_session sample_ser ?es 100 = (Ok (), out_file)"
    "out_file = ledger_header @ ledger.contents sample_ser ?es"
    using ledger_session_run [OF codec, of 100] len by simp
  have size: "length ?es < 2 ^ 64" "length (ledger.contents sample_ser ?es) < 2 ^ 64 - 1"
    by (simp, simp only: len, simp)
  have fits: "sums_fit 128 0 (opt_pnls ?es)" "sums_fit 128 0 (con_pnls ?es)"
    by (simp_all add: in_range_def smin_def smax_def)
  have "\<exists>report. reconcile_ledger (\<lambda>_. Some []) sample_de (slice out_file) ''day'' = Ok report \<and> reports_entries report ?es"
    using reconcile_file_exact [OF codec size run(1) _ _ fits, of "\<lambda>_. Some []" "''day''"] run(2) by auto
  then show ?thesis
    using run(1) by (auto simp: reports_entries_def trades_def clamp_i_def smin_def smax_def)
qed
section \<open>Replaying a capture\<close>

lemma map_of_btree_put: "map_of (btree_put k v m) = (map_of m)(k \<mapsto> v)"
  by (induction k v m rule: btree_put.induct) auto

lemma set_btree_put: "set (btree_put k v m) \<subseteq> insert (k, v) (set m)"
  by (induction k v m rule: btree_put.induct) auto

text \<open>\<open>M\<close> tells the mints from the vaults: the accounts of a capture are pool states whose base vault
  is not a mint, and token accounts, which the cache stores under their mint.\<close>

definition tells_apart :: "pubkey set \<Rightarrow> feed_event \<Rightarrow> bool" where
  "tells_apart M ev \<longleftrightarrow> (case ev of
     AccountUpdate _ _ data \<Rightarrow>
       (length data = AMM_INFO_SIZE \<and> (\<exists>info. decode_amm_info data = Ok info \<and> ai_base_vault info \<notin> M))
       \<or> (length data = SPL_TOKEN_ACCOUNT_SIZE \<and> (\<exists>acc. decode_spl_token_account data = Ok acc \<and> st_mint acc \<in> M))
   | _ \<Rightarrow> True)"

definition caches_apart :: "pubkey set \<Rightarrow> amm_cache \<Rightarrow> vault_cache \<Rightarrow> bool" where
  "caches_apart M amms vaults \<longleftrightarrow> (\<forall>k info. (k, info) \<in> set amms \<longrightarrow> ai_base_vault info \<notin> M)
    \<and> (\<forall>k acc. map_of vaults k = Some acc \<longrightarrow> Pubkey k \<in> M)"

lemma cache_account_apart:
  assumes "tells_apart M (AccountUpdate s pk data)" and "caches_apart M amms vaults"
  shows "\<exists>amms' vaults'. cache_account data amms vaults = Ok (amms', vaults') \<and> caches_apart M amms' vaults'"
proof -
  consider (amm) info where "length data = AMM_INFO_SIZE" "decode_amm_info data = Ok info" "ai_base_vault info \<notin> M"
    | (token) acc where "length data = SPL_TOKEN_ACCOUNT_SIZE" "decode_spl_token_account data = Ok acc" "st_mint acc \<in> M"
    using assms(1) by (auto simp: tells_apart_def)
  then show ?thesis
  proof cases
    case amm
    then show ?thesis
      using assms(2) set_btree_put [of "key_bytes (ai_base_vault info)" info amms]
      by (auto simp: cache_account_def caches_apart_def)
  next
    case token
    then show ?thesis
      using assms(2)
      by (auto simp: cache_account_def caches_apart_def map_of_btree_put AMM_INFO_SIZE_def SPL_TOKEN_ACCOUNT_SIZE_def)
  qed
qed

lemma ready_keys_apart: "caches_apart M amms vaults \<Longrightarrow> ready_keys amms vaults = []"
  unfolding caches_apart_def ready_keys_def
  by (auto simp: filter_empty_conv)

lemma pools_loop_apart:
  "list_all (tells_apart M) evs \<Longrightarrow> caches_apart M amms vaults \<Longrightarrow> unat n + length evs < 2 ^ 64 \<Longrightarrow>
    pools_loop evs n amms vaults pools = Ok (pools, n + of_nat (length evs))"
proof (induction evs arbitrary: n amms vaults)
  case (Cons ev evs)
  have add: "add_p n 1 = (Ok (n + 1) :: (_, recon_error) res)" "unat (n + 1) = unat n + 1"
    using Cons.prems(3) by (simp_all add: add_p_def unat_add_no_wrap)
  have room: "unat (n + 1) + length evs < 2 ^ 64"
    using Cons.prems(3) add(2) by simp
  show ?case
  proof (cases ev)
    case (AccountUpdate s pk data)
    obtain amms' vaults' where c: "cache_account data amms vaults = Ok (amms', vaults')" "caches_apart M amms' vaults'"
      using cache_account_apart [of M s pk data amms vaults] Cons.prems(1,2) by (auto simp: AccountUpdate)
    show ?thesis
      using Cons.IH [OF _ c(2) room] Cons.prems(1)
      by (simp add: AccountUpdate add(1) c(1) ready_keys_apart [OF c(2)])
  qed (use Cons.IH [OF _ Cons.prems(2) room] Cons.prems(1) in \<open>simp_all add: add(1)\<close>)
qed simp

lemma replay_no_pools:
  assumes "iterates iter (registry_of [])"
  shows "\<exists>report. replay_pools_to_ledger ser iter [] params = Ok report \<and> rr_cycle_records report = []"
proof -
  have "iter (registry_of []) = []"
    using assms by (simp add: iterates_def registry_of_def registry_new_def)
  then show ?thesis
    by (simp add: replay_pools_to_ledger_def build_from_pools_def ledger_summary_exact)
qed

text \<open>The replay of a capture assembles no pool. The vault cache is filled under the mint of a token
  account and searched under the address of a vault, so on every capture whose vaults are not mints, however
  many pool states and vault accounts it holds, no pool is put together: the replay succeeds with a report
  of no cycles that claims to have consumed no events.\<close>

theorem capture_replay_assembles_nothing:
  assumes "capture_load de src = Ok (evs, Ok ())" and "list_all (tells_apart M) evs" and "length evs < 2 ^ 64"
    and "iterates iter (registry_of [])"
  shows "pools_from_feed evs = Ok ([], of_nat (length evs))
    \<and> (\<exists>report. replay_capture_to_ledger ser de iter src params = Ok report
      \<and> rr_cycle_records report = [] \<and> rr_feed_events_consumed report = 0)"
proof -
  have pools: "pools_from_feed evs = Ok ([], of_nat (length evs))"
    unfolding pools_from_feed_def using pools_loop_apart [OF assms(2), of "[]" "[]" 0 "[]"] assms(3)
    by (simp add: caches_apart_def)
  obtain feed where feed: "capture_open src = Ok feed" "capture_replay de feed = (evs, Ok ())"
    using assms(1) by (auto simp: capture_load_def bind_res_Ok_iff)
  obtain report where report: "replay_pools_to_ledger ser iter [] params = Ok report" "rr_cycle_records report = []"
    using replay_no_pools [OF assms(4)] by blast
  have "replay_capture_to_ledger ser de iter src params = Ok (report\<lparr>rr_feed_events_consumed := 0\<rparr>)"
    by (simp add: replay_capture_to_ledger_def feed pools report(1))
  then show ?thesis
    using pools report(2) by simp
qed
definition amm_blob :: "u8 list" where
  "amm_blob = 6 # replicate 335 0 @ replicate 32 1 @ replicate 384 0"

definition amm_event :: feed_event where
  "amm_event = AccountUpdate 1 [7] amm_blob"

definition vault_event :: feed_event where
  "vault_event = AccountUpdate 1 (replicate 32 1) (replicate 165 0)"

definition blob_ser :: "feed_event \<Rightarrow> u8 list option" where
  "blob_ser ev = Some [if ev = amm_event then 1 else 2]"

definition blob_de :: "u8 list \<Rightarrow> feed_event option" where
  "blob_de bs = Some (if bs = [1] then amm_event else vault_event)"

lemma amm_blob_decodes: "\<exists>info. decode_amm_info amm_blob = Ok info \<and> ai_base_vault info = Pubkey (replicate 32 1)"
proof -
  have "bytes_at amm_blob 0 (0 + 8) = 6 # replicate 7 0" "bytes_at amm_blob 336 (336 + 32) = replicate 32 1"
    by (simp_all add: bytes_at_def amm_blob_def numeral_eq_Suc)
  moreover have "replicate 7 (0 :: u8) = [0, 0, 0, 0, 0, 0, 0]"
    by (simp add: numeral_eq_Suc)
  then have "word_from_le (6 # replicate 7 0) = (6 :: u64)"
    by (simp add: word_from_le_def)
  ultimately show ?thesis
    by (simp add: decode_amm_info_def AMM_INFO_SIZE_def amm_blob_def Let_def)
qed

lemma capture_replay_assembles_nothing_witness:
  "\<exists>report. replay_capture_to_ledger sample_ser blob_de (\<lambda>_. [])
      (slice (capture_header @ capture.contents blob_ser [amm_event, vault_event])) (fair_params 2) = Ok report
    \<and> rr_cycle_records report = [] \<and> rr_feed_events_consumed report = 0"
proof -
  let ?evs = "[amm_event, vault_event]"
  have "amm_event \<noteq> vault_event"
    by (simp add: amm_event_def vault_event_def numeral_eq_Suc)
  then have codec: "list_all (codec_ok blob_ser blob_de (2 ^ 32 - 1)) ?evs"
    by (simp add: codec_ok_def blob_ser_def blob_de_def)
  have len: "length (capture.contents blob_ser ?evs) < 2 ^ 64 - 1"
    by (simp add: written_as_def blob_ser_def frame_def)
  have "fst (frames_of blob_de (capture.contents blob_ser ?evs)) = ?evs"
    using capture.parse_file [OF codec len, of 0] capture_parse_frames [OF len, of 0 blob_de] by (simp only: prod.inject)
  then have load: "capture_load blob_de (slice (capture_header @ capture.contents blob_ser ?evs)) = Ok (?evs, Ok ())"
    using capture_load_frames [OF sound_slice flat_slice len, of blob_de] by simp
  have "list_all (tells_apart {Pubkey (replicate 32 0)}) ?evs"
    using amm_blob_decodes
    by (auto simp: tells_apart_def amm_event_def vault_event_def AMM_INFO_SIZE_def SPL_TOKEN_ACCOUNT_SIZE_def
        decode_spl_token_account_def bytes_at_def amm_blob_def)
  moreover have "iterates (\<lambda>_. []) (registry_of [])"
    by (simp add: iterates_def registry_of_def registry_new_def)
  ultimately show ?thesis
    using capture_replay_assembles_nothing [OF load] by simp
qed

end
