(* ===== verification/Wallet.thy ===== *)
theory Wallet
  imports Rust_Prelude
begin

text \<open>
  \<^verbatim>\<open>crates/dl-paper/src/lib.rs\<close>: the persistent wallet of the paper trader. The wall clock, the JSON
  codec and the two file operations of a save are arguments; a path is the list of its components.
\<close>

section \<open>Data\<close>

definition DEFAULT_STARTING_BALANCE_LAMPORTS :: u64 where
  "DEFAULT_STARTING_BALANCE_LAMPORTS = 10000000000"

datatype paper_side = SideBaseToQuote | SideQuoteToBase

record trade =
  td_id :: u64
  td_ts_unix_ms :: i64
  td_pair :: string
  td_side :: paper_side
  td_input_lamports :: u64
  td_output_lamports :: u64
  td_profit_lamports :: i64
  td_tip_lamports :: u64
  td_balance_after_lamports :: u64
  td_cycle_hash_hex :: string

record paper_wallet =
  pw_balance_lamports :: u64
  pw_starting_balance_lamports :: u64
  pw_trades :: "trade list"
  pw_updated_at_unix_ms :: i64

record trade_fill =
  tf_pair :: string
  tf_side :: paper_side
  tf_input_lamports :: u64
  tf_output_lamports :: u64
  tf_profit_lamports :: i64
  tf_tip_lamports :: u64
  tf_cycle_hash_hex :: string

record wallet_stats =
  ws_current_balance_lamports :: u64
  ws_starting_balance_lamports :: u64
  ws_total_trades :: u64
  ws_wins :: u64
  ws_losses :: u64
  ws_total_pnl_lamports :: i64
  ws_max_drawdown_lamports :: u64
  ws_peak_balance_lamports :: u64

datatype path_part = RootDir | CurDir | ParentDir | Normal string

datatype paper_error =
    PaperIo
  | PaperParse
  | PaperSerialize
  | InsufficientFunds u64 u64
  | PathRejected "path_part list"
  | AtomicWriteFailed

section \<open>Operations\<close>

definition wallet_new :: "i64 \<Rightarrow> u64 \<Rightarrow> paper_wallet" where
  "wallet_new ts starting =
    \<lparr>pw_balance_lamports = starting, pw_starting_balance_lamports = starting, pw_trades = [], pw_updated_at_unix_ms = ts\<rparr>"

definition validate_path :: "path_part list \<Rightarrow> (unit, paper_error) res" where
  "validate_path parts = (if ParentDir \<in> set parts then Err (PathRejected parts) else Ok ())"

text \<open>What the disk holds under the wallet's path and under its temporary sibling.\<close>

record wallet_disk =
  wd_file :: "u8 list option"
  wd_tmp :: "u8 list option"

definition wallet_load :: "(u8 list \<Rightarrow> paper_wallet option) \<Rightarrow> wallet_disk \<Rightarrow> (paper_wallet, paper_error) res" where
  "wallet_load from_json d = bind_res (ok_or (wd_file d) PaperIo) (\<lambda>bytes. ok_or (from_json bytes) PaperParse)"

text \<open>A save writes the sibling, which can fail after writing any part, and renames it.\<close>

definition wallet_save ::
    "(paper_wallet \<Rightarrow> u8 list option) \<Rightarrow> path_part list \<Rightarrow> nat option \<Rightarrow> bool \<Rightarrow> paper_wallet \<Rightarrow> wallet_disk \<Rightarrow>
      (unit, paper_error) res \<times> wallet_disk" where
  "wallet_save to_json path write_stops rename_ok w d =
    (case validate_path path of
       Err e \<Rightarrow> (Err e, d)
     | Panic \<Rightarrow> (Panic, d)
     | Ok _ \<Rightarrow> (case to_json w of
         None \<Rightarrow> (Err PaperSerialize, d)
       | Some bytes \<Rightarrow> (case write_stops of
           Some n \<Rightarrow> (Err PaperIo, d\<lparr>wd_tmp := Some (take n bytes)\<rparr>)
         | None \<Rightarrow>
             (let d1 = d\<lparr>wd_tmp := Some bytes\<rparr> in
              if rename_ok then (Ok (), \<lparr>wd_file = wd_tmp d1, wd_tmp = None\<rparr>)
              else (Err AtomicWriteFailed, d1)))))"

text \<open>\<^verbatim>\<open>unsigned_abs\<close> of a 64-bit integer.\<close>

definition unsigned_abs :: "i64 \<Rightarrow> u64" where
  "unsigned_abs v = of_nat (nat \<bar>v\<bar>)"

text \<open>The two saturating branches of \<^verbatim>\<open>execute\<close> and \<^verbatim>\<open>stats\<close>.\<close>

definition apply_profit :: "i64 \<Rightarrow> u64 \<Rightarrow> u64" where
  "apply_profit profit balance =
    (if 0 \<le> profit then sat_add_w balance (of_int profit) else sat_sub_w balance (unsigned_abs profit))"

definition wallet_execute :: "i64 \<Rightarrow> trade_fill \<Rightarrow> paper_wallet \<Rightarrow> (u64, paper_error) res \<times> paper_wallet" where
  "wallet_execute ts fill w =
    (if tf_profit_lamports fill < 0 \<and> pw_balance_lamports w < unsigned_abs (tf_profit_lamports fill)
     then (Err (InsufficientFunds (unsigned_abs (tf_profit_lamports fill)) (pw_balance_lamports w)), w)
     else
       let new_id = of_nat (length (pw_trades w));
           balance_after = apply_profit (tf_profit_lamports fill) (pw_balance_lamports w)
       in (Ok new_id,
           w\<lparr>pw_trades := pw_trades w @ [\<lparr>td_id = new_id, td_ts_unix_ms = ts, td_pair = tf_pair fill,
               td_side = tf_side fill, td_input_lamports = tf_input_lamports fill,
               td_output_lamports = tf_output_lamports fill, td_profit_lamports = tf_profit_lamports fill,
               td_tip_lamports = tf_tip_lamports fill, td_balance_after_lamports = balance_after,
               td_cycle_hash_hex = tf_cycle_hash_hex fill\<rparr>],
             pw_balance_lamports := balance_after, pw_updated_at_unix_ms := ts\<rparr>))"

record stats_acc =
  sa_wins :: u64
  sa_losses :: u64
  sa_total_pnl :: i64
  sa_peak :: u64
  sa_max_dd :: u64
  sa_running :: u64

definition stats_step :: "trade \<Rightarrow> stats_acc \<Rightarrow> (stats_acc, paper_error) res" where
  "stats_step t a =
    bind_res (if 0 < td_profit_lamports t then add_p (sa_wins a) 1 else Ok (sa_wins a)) (\<lambda>wins.
    bind_res (if td_profit_lamports t < 0 then add_p (sa_losses a) 1 else Ok (sa_losses a)) (\<lambda>losses.
    let total_pnl = clamp_i 64 (sa_total_pnl a + td_profit_lamports t);
        running = apply_profit (td_profit_lamports t) (sa_running a);
        peak = (if sa_peak a < running then running else sa_peak a);
        dd = sat_sub_w peak running;
        max_dd = (if sa_max_dd a < dd then dd else sa_max_dd a)
    in Ok \<lparr>sa_wins = wins, sa_losses = losses, sa_total_pnl = total_pnl, sa_peak = peak, sa_max_dd = max_dd,
           sa_running = running\<rparr>))"

fun stats_loop :: "trade list \<Rightarrow> stats_acc \<Rightarrow> (stats_acc, paper_error) res" where
  "stats_loop [] a = Ok a"
| "stats_loop (t # ts) a = bind_res (stats_step t a) (stats_loop ts)"

definition wallet_stats_of :: "paper_wallet \<Rightarrow> (wallet_stats, paper_error) res" where
  "wallet_stats_of w =
    bind_res (stats_loop (pw_trades w) \<lparr>sa_wins = 0, sa_losses = 0, sa_total_pnl = 0,
        sa_peak = pw_starting_balance_lamports w, sa_max_dd = 0, sa_running = pw_starting_balance_lamports w\<rparr>) (\<lambda>a.
    Ok \<lparr>ws_current_balance_lamports = pw_balance_lamports w,
        ws_starting_balance_lamports = pw_starting_balance_lamports w,
        ws_total_trades = of_nat (length (pw_trades w)), ws_wins = sa_wins a, ws_losses = sa_losses a,
        ws_total_pnl_lamports = sa_total_pnl a, ws_max_drawdown_lamports = sa_max_dd a,
        ws_peak_balance_lamports = sa_peak a\<rparr>)"

section \<open>The wallet's invariant\<close>

text \<open>The balances a wallet went through: the starting one and the one after each trade.\<close>

definition balances :: "paper_wallet \<Rightarrow> u64 list" where
  "balances w = pw_starting_balance_lamports w # map td_balance_after_lamports (pw_trades w)"

text \<open>Every trade is numbered by its position, was affordable, and moved the balance by its profit, exactly
  or to the largest number there is.\<close>

fun book_ok :: "nat \<Rightarrow> u64 \<Rightarrow> trade list \<Rightarrow> u64 \<Rightarrow> bool" where
  "book_ok n b [] b' \<longleftrightarrow> b = b'"
| "book_ok n b (t # ts) b' \<longleftrightarrow> td_id t = of_nat n
    \<and> int (unat (td_balance_after_lamports t)) = min (int (unat b) + td_profit_lamports t) (2 ^ 64 - 1)
    \<and> book_ok (Suc n) (td_balance_after_lamports t) ts b'"

definition wallet_ok :: "paper_wallet \<Rightarrow> bool" where
  "wallet_ok w \<longleftrightarrow> book_ok 0 (pw_starting_balance_lamports w) (pw_trades w) (pw_balance_lamports w)
    \<and> list_all (\<lambda>t. in_range 64 (td_profit_lamports t)) (pw_trades w)"

inductive wallet_reachable :: "u64 \<Rightarrow> paper_wallet \<Rightarrow> bool" for starting :: u64 where
  fresh: "wallet_reachable starting (wallet_new ts starting)"
| executed: "wallet_reachable starting w \<Longrightarrow> in_range 64 (tf_profit_lamports fill) \<Longrightarrow>
    wallet_reachable starting (snd (wallet_execute ts fill w))"

lemma unat_unsigned_abs:
  assumes "in_range 64 v"
  shows "unat (unsigned_abs v) = nat \<bar>v\<bar>"
proof -
  have "nat \<bar>v\<bar> < 2 ^ 64"
    using assms by (auto simp: in_range_def smin_def smax_def nat_less_iff)
  then show ?thesis
    unfolding unsigned_abs_def by (intro unat_of_nat_fits) simp
qed

text \<open>Applying a profit that the balance can bear is exact up to saturation, and never negative.\<close>

lemma apply_profit_exact:
  assumes "in_range 64 v" and "v < 0 \<Longrightarrow> unsigned_abs v \<le> b"
  shows "int (unat (apply_profit v b)) = min (int (unat b) + v) (2 ^ 64 - 1)"
proof (cases "0 \<le> v")
  case True
  then have "unat (of_int v :: u64) = nat v"
    using assms(1) by (simp add: in_range_def smax_def unsigned_of_int take_bit_int_eq_self)
  then show ?thesis
    using True by (simp add: apply_profit_def unat_sat_add_w of_nat_min del: of_nat_unat)
next
  case False
  then have "nat (- v) \<le> unat b"
    using assms unat_unsigned_abs [OF assms(1)] by (simp add: word_le_nat_alt)
  then show ?thesis
    using False unat_bound [of b] unat_unsigned_abs [OF assms(1)]
    by (simp add: apply_profit_def unat_sat_sub_w of_nat_diff del: of_nat_unat)
qed

lemma book_ok_snoc:
  "book_ok n b (ts @ [t]) b' \<longleftrightarrow> (\<exists>c. book_ok n b ts c \<and> td_id t = of_nat (n + length ts)
    \<and> int (unat (td_balance_after_lamports t)) = min (int (unat c) + td_profit_lamports t) (2 ^ 64 - 1)
    \<and> td_balance_after_lamports t = b')"
  by (induction ts arbitrary: n b) auto
lemma wallet_execute_cases:
  assumes "in_range 64 (tf_profit_lamports fill)"
  shows "if int (unat (pw_balance_lamports w)) + tf_profit_lamports fill < 0
    then wallet_execute ts fill w
      = (Err (InsufficientFunds (unsigned_abs (tf_profit_lamports fill)) (pw_balance_lamports w)), w)
    else \<exists>t. wallet_execute ts fill w = (Ok (of_nat (length (pw_trades w))),
        w\<lparr>pw_trades := pw_trades w @ [t], pw_balance_lamports := td_balance_after_lamports t, pw_updated_at_unix_ms := ts\<rparr>)
      \<and> td_id t = of_nat (length (pw_trades w)) \<and> td_profit_lamports t = tf_profit_lamports fill
      \<and> int (unat (td_balance_after_lamports t))
          = min (int (unat (pw_balance_lamports w)) + tf_profit_lamports fill) (2 ^ 64 - 1)"
proof -
  define v where "v = tf_profit_lamports fill"
  define b where "b = pw_balance_lamports w"
  have abs: "unat (unsigned_abs v) = nat \<bar>v\<bar>"
    using assms by (simp add: v_def unat_unsigned_abs)
  have short: "int (unat b) + v < 0 \<longleftrightarrow> v < 0 \<and> b < unsigned_abs v"
    using abs by (auto simp: word_less_nat_alt simp del: of_nat_unat)
  show ?thesis
  proof (cases "int (unat b) + v < 0")
    case True
    then show ?thesis
      using short by (simp add: wallet_execute_def v_def b_def del: of_nat_unat)
  next
    case False
    then have "v < 0 \<Longrightarrow> unsigned_abs v \<le> b"
      using short by auto
    then have "int (unat (apply_profit v b)) = min (int (unat b) + v) (2 ^ 64 - 1)"
      using assms by (intro apply_profit_exact) (simp_all add: v_def)
    moreover define t where "t = \<lparr>td_id = of_nat (length (pw_trades w)), td_ts_unix_ms = ts, td_pair = tf_pair fill,
      td_side = tf_side fill, td_input_lamports = tf_input_lamports fill,
      td_output_lamports = tf_output_lamports fill, td_profit_lamports = v,
      td_tip_lamports = tf_tip_lamports fill, td_balance_after_lamports = apply_profit v b,
      td_cycle_hash_hex = tf_cycle_hash_hex fill\<rparr>"
    moreover have "\<not> (v < 0 \<and> b < unsigned_abs v)"
      using False short by blast
    ultimately show ?thesis
      using False unfolding v_def [symmetric] b_def [symmetric] if_not_P [OF False]
      by (intro exI [of _ t]) (simp add: wallet_execute_def v_def [symmetric] b_def [symmetric] Let_def del: of_nat_unat)
  qed
qed

lemma wallet_execute_ok:
  assumes "wallet_ok w" and "in_range 64 (tf_profit_lamports fill)"
  shows "wallet_ok (snd (wallet_execute ts fill w))"
    and "pw_starting_balance_lamports (snd (wallet_execute ts fill w)) = pw_starting_balance_lamports w"
  using wallet_execute_cases [OF assms(2), of w ts] assms
  by (auto simp: wallet_ok_def book_ok_snoc split: if_splits simp del: of_nat_unat)

lemma wallet_reachable_ok: "wallet_reachable starting w \<Longrightarrow> wallet_ok w \<and> pw_starting_balance_lamports w = starting"
proof (induction rule: wallet_reachable.induct)
  case (fresh ts)
  then show ?case
    by (simp add: wallet_ok_def wallet_new_def)
next
  case (executed w fill ts)
  then show ?case
    using wallet_execute_ok [of w fill ts] by simp
qed

text \<open>Without saturation the books add up.\<close>

lemma book_ok_sum:
  "book_ok n b ts b' \<Longrightarrow> \<forall>k. int (unat b) + sum_list (map td_profit_lamports (take k ts)) < 2 ^ 64 \<Longrightarrow>
    int (unat b') = int (unat b) + sum_list (map td_profit_lamports ts)"
proof (induction n b ts b' rule: book_ok.induct)
  case (2 n b t ts b')
  have "int (unat b) + td_profit_lamports t < 2 ^ 64"
    using "2.prems"(2) [rule_format, of 1] by simp
  then have t: "int (unat (td_balance_after_lamports t)) = int (unat b) + td_profit_lamports t"
    using "2.prems"(1) by (simp del: of_nat_unat)
  have "int (unat (td_balance_after_lamports t)) + sum_list (map td_profit_lamports (take k ts)) < 2 ^ 64" for k
    using "2.prems"(2) [rule_format, of "Suc k"] unfolding t by (simp add: add.assoc del: of_nat_unat)
  then show ?case
    using "2.IH" "2.prems"(1) t by (simp del: of_nat_unat)
qed simp

text \<open>C30. The wallet keeps its books. A fill is refused exactly when its loss exceeds the balance, and then nothing
  changes; otherwise the trade gets the next number and the balance moves by exactly the profit, capped at
  the largest 64-bit number. So the balance of every reachable wallet is its starting balance plus all recorded
  profits, as long as no cap was reached on the way.\<close>

theorem wallet_books_balance:
  assumes "wallet_reachable starting w" and "in_range 64 (tf_profit_lamports fill)"
    and "wallet_execute ts fill w = (r, w')"
  shows "(if int (unat (pw_balance_lamports w)) + tf_profit_lamports fill < 0
      then r = Err (InsufficientFunds (unsigned_abs (tf_profit_lamports fill)) (pw_balance_lamports w)) \<and> w' = w
      else r = Ok (of_nat (length (pw_trades w))) \<and> length (pw_trades w') = Suc (length (pw_trades w))
        \<and> int (unat (pw_balance_lamports w'))
            = min (int (unat (pw_balance_lamports w)) + tf_profit_lamports fill) (2 ^ 64 - 1))
    \<and> wallet_ok w'
    \<and> ((\<forall>k. int (unat starting) + sum_list (map td_profit_lamports (take k (pw_trades w'))) < 2 ^ 64) \<longrightarrow>
        int (unat (pw_balance_lamports w')) = int (unat starting) + sum_list (map td_profit_lamports (pw_trades w')))"
proof -
  have w: "wallet_ok w" "pw_starting_balance_lamports w = starting"
    using wallet_reachable_ok [OF assms(1)] by simp_all
  have w': "wallet_ok w'" "pw_starting_balance_lamports w' = starting"
    using wallet_execute_ok [OF w(1) assms(2), of ts] assms(3) w(2) by simp_all
  then have "book_ok 0 starting (pw_trades w') (pw_balance_lamports w')"
    by (simp add: wallet_ok_def)
  from book_ok_sum [OF this] show ?thesis
    using wallet_execute_cases [OF assms(2), of w ts] assms(3) w'(1)
    by (auto split: if_splits simp del: of_nat_unat)
qed
section \<open>The statistics\<close>

text \<open>The largest fall from an earlier balance to a later one.\<close>

definition is_drawdown :: "u64 list \<Rightarrow> nat \<Rightarrow> bool" where
  "is_drawdown bs d \<longleftrightarrow>
    (\<forall>i j. i \<le> j \<longrightarrow> j < length bs \<longrightarrow> unat (bs ! i) - unat (bs ! j) \<le> d)
    \<and> (\<exists>i j. i \<le> j \<and> j < length bs \<and> d = unat (bs ! i) - unat (bs ! j))"

definition is_peak :: "u64 list \<Rightarrow> u64 \<Rightarrow> bool" where
  "is_peak bs p \<longleftrightarrow> p \<in> set bs \<and> (\<forall>b \<in> set bs. b \<le> p)"

definition profits :: "trade list \<Rightarrow> int list" where
  "profits ts = map td_profit_lamports ts"

lemma is_peak_snoc: "is_peak bs p \<Longrightarrow> is_peak (bs @ [r]) (if p < r then r else p)"
  by (auto simp: is_peak_def)

lemma is_drawdown_snoc:
  assumes "is_drawdown bs d" and "is_peak bs p"
  shows "is_drawdown (bs @ [r]) (max d (unat (if p < r then r else p) - unat r))"
proof -
  have below: "unat ((bs @ [r]) ! i) \<le> unat (if p < r then r else p)" if "i < length (bs @ [r])" for i
    using is_peak_snoc [OF assms(2), of r] nth_mem [OF that] unfolding is_peak_def word_le_nat_alt by blast
  obtain k where k: "k < length (bs @ [r])" "(bs @ [r]) ! k = (if p < r then r else p)"
    using is_peak_snoc [OF assms(2), of r] unfolding is_peak_def in_set_conv_nth by blast
  have old: "(bs @ [r]) ! i = bs ! i" if "i < length bs" for i
    using that by (simp add: nth_append)
  obtain i j where ij: "i \<le> j" "j < length bs" "d = unat (bs ! i) - unat (bs ! j)"
    using assms(1) by (auto simp: is_drawdown_def)
  show ?thesis
    unfolding is_drawdown_def
  proof (intro conjI allI impI)
    fix i j assume le: "i \<le> j" "j < length (bs @ [r])"
    show "unat ((bs @ [r]) ! i) - unat ((bs @ [r]) ! j) \<le> max d (unat (if p < r then r else p) - unat r)"
    proof (cases "j < length bs")
      case True
      then show ?thesis
        using assms(1) le old by (simp add: is_drawdown_def le_max_iff_disj)
    next
      case False
      then have "(bs @ [r]) ! j = r"
        using le(2) by (simp add: nth_append)
      then show ?thesis
        using below [of i] le by (simp add: le_max_iff_disj diff_le_mono del: if_split)
    qed
  next
    show "\<exists>i j. i \<le> j \<and> j < length (bs @ [r])
      \<and> max d (unat (if p < r then r else p) - unat r) = unat ((bs @ [r]) ! i) - unat ((bs @ [r]) ! j)"
    proof (cases "unat (if p < r then r else p) - unat r \<le> d")
      case True
      then show ?thesis
        using ij old by (intro exI [of _ i] exI [of _ j]) (simp add: max_absorb1 del: if_split)
    next
      case False
      then show ?thesis
        using k by (intro exI [of _ k] exI [of _ "length bs"]) (simp add: max_absorb2 del: if_split)
    qed
  qed
qed

definition stats_start :: "u64 \<Rightarrow> stats_acc" where
  "stats_start b = \<lparr>sa_wins = 0, sa_losses = 0, sa_total_pnl = 0, sa_peak = b, sa_max_dd = 0, sa_running = b\<rparr>"

definition stats_inv :: "u64 \<Rightarrow> trade list \<Rightarrow> stats_acc \<Rightarrow> bool" where
  "stats_inv b ts a \<longleftrightarrow>
    (let bs = b # map td_balance_after_lamports ts in
     sa_running a = last bs \<and> is_peak bs (sa_peak a) \<and> is_drawdown bs (unat (sa_max_dd a)))
    \<and> unat (sa_wins a) = length (filter (\<lambda>v. 0 < v) (profits ts))
    \<and> unat (sa_losses a) = length (filter (\<lambda>v. v < 0) (profits ts))
    \<and> sa_total_pnl a = foldl (\<lambda>s v. clamp_i 64 (s + v)) 0 (profits ts)"

lemma stats_loop_append:
  "stats_loop (ts @ us) a = bind_res (stats_loop ts a) (stats_loop us)"
proof (induction ts arbitrary: a)
  case (Cons t ts)
  then show ?case
    by (cases "stats_step t a") simp_all
qed simp

lemma stats_step_inv:
  assumes inv: "stats_inv b ts a" and len: "length ts + 1 < 2 ^ 64" and rng: "in_range 64 (td_profit_lamports t)"
    and run: "td_balance_after_lamports t = apply_profit (td_profit_lamports t) (sa_running a)"
  shows "\<exists>a'. stats_step t a = Ok a' \<and> stats_inv b (ts @ [t]) a'"
proof -
  define bs where "bs = b # map td_balance_after_lamports ts"
  define r where "r = td_balance_after_lamports t"
  define v where "v = td_profit_lamports t"
  define wins where "wins = (if 0 < v then sa_wins a + 1 else sa_wins a)"
  define losses where "losses = (if v < 0 then sa_losses a + 1 else sa_losses a)"
  have small: "unat (sa_wins a) \<le> length ts" "unat (sa_losses a) \<le> length ts"
    using inv length_filter_le [of "\<lambda>v. 0 < v" "profits ts"] length_filter_le [of "\<lambda>v. v < 0" "profits ts"]
    by (simp_all add: stats_inv_def profits_def del: length_filter_le)
  then have inc: "unat (sa_wins a + 1) = unat (sa_wins a) + 1" "unat (sa_losses a + 1) = unat (sa_losses a) + 1"
    using len by (simp_all add: unat_add_no_wrap)
  then have add: "add_p (sa_wins a) 1 = (Ok (sa_wins a + 1) :: (_, paper_error) res)"
    "add_p (sa_losses a) 1 = (Ok (sa_losses a + 1) :: (_, paper_error) res)"
    using small len by (simp_all add: add_p_def)
  define peak where "peak = (if sa_peak a < r then r else sa_peak a)"
  define dd where "dd = sat_sub_w peak r"
  define max_dd where "max_dd = (if sa_max_dd a < dd then dd else sa_max_dd a)"
  define a' where "a' = \<lparr>sa_wins = wins, sa_losses = losses, sa_total_pnl = clamp_i 64 (sa_total_pnl a + v),
    sa_peak = peak, sa_max_dd = max_dd, sa_running = r\<rparr>"
  have counts: "(if 0 < v then add_p (sa_wins a) 1 else Ok (sa_wins a)) = (Ok wins :: (_, paper_error) res)"
    "(if v < 0 then add_p (sa_losses a) 1 else Ok (sa_losses a)) = (Ok losses :: (_, paper_error) res)"
    by (simp_all add: add wins_def losses_def)
  have run': "apply_profit v (sa_running a) = r"
    by (simp add: run v_def r_def)
  have step: "stats_step t a = Ok a'"
    by (simp only: stats_step_def v_def [symmetric] counts bind_res.simps Let_def run' peak_def [symmetric]
        dd_def [symmetric] max_dd_def [symmetric] a'_def)
  have "is_peak (bs @ [r]) peak"
    using inv is_peak_snoc [of bs "sa_peak a" r] by (simp add: stats_inv_def bs_def [symmetric] peak_def)
  moreover have "unat max_dd = max (unat (sa_max_dd a)) (unat peak - unat r)"
    by (auto simp: max_dd_def dd_def unat_sat_sub_w word_less_nat_alt max_def)
  then have "is_drawdown (bs @ [r]) (unat max_dd)"
    using inv is_drawdown_snoc [of bs "unat (sa_max_dd a)" "sa_peak a" r]
    by (simp add: stats_inv_def bs_def [symmetric] peak_def)
  moreover have bs': "b # map td_balance_after_lamports (ts @ [t]) = bs @ [r]"
    by (simp add: bs_def r_def)
  ultimately have "sa_running a' = last (b # map td_balance_after_lamports (ts @ [t]))"
    "is_peak (b # map td_balance_after_lamports (ts @ [t])) (sa_peak a')"
    "is_drawdown (b # map td_balance_after_lamports (ts @ [t])) (unat (sa_max_dd a'))"
    unfolding bs' by (simp_all add: a'_def)
  moreover have "unat wins = length (filter (\<lambda>v. 0 < v) (profits (ts @ [t])))"
    "unat losses = length (filter (\<lambda>v. v < 0) (profits (ts @ [t])))"
    "clamp_i 64 (sa_total_pnl a + v) = foldl (\<lambda>s v. clamp_i 64 (s + v)) 0 (profits (ts @ [t]))"
    using inv inc by (simp_all add: stats_inv_def profits_def wins_def losses_def v_def)
  ultimately have "stats_inv b (ts @ [t]) a'"
    unfolding stats_inv_def Let_def by (simp only: a'_def stats_acc.simps simp_thms)
  with step show ?thesis
    by blast
qed

lemma book_ok_last: "book_ok n b ts c \<Longrightarrow> c = last (b # map td_balance_after_lamports ts)"
  by (induction n b ts c rule: book_ok.induct) auto

lemma book_ok_apply:
  "book_ok n b (ts @ [t]) b' \<Longrightarrow> in_range 64 (td_profit_lamports t) \<Longrightarrow>
    td_balance_after_lamports t = apply_profit (td_profit_lamports t) (last (b # map td_balance_after_lamports ts))"
proof -
  assume ok: "book_ok n b (ts @ [t]) b'" and rng: "in_range 64 (td_profit_lamports t)"
  then obtain c where c: "book_ok n b ts c"
    "int (unat (td_balance_after_lamports t)) = min (int (unat c) + td_profit_lamports t) (2 ^ 64 - 1)"
    by (auto simp: book_ok_snoc simp del: of_nat_unat)
  have "td_profit_lamports t < 0 \<Longrightarrow> unsigned_abs (td_profit_lamports t) \<le> c"
    using c(2) unat_unsigned_abs [OF rng] of_nat_0_le_iff [of "unat (td_balance_after_lamports t)"]
    by (simp add: word_le_nat_alt nat_le_iff del: of_nat_unat of_nat_0_le_iff)
  from apply_profit_exact [OF rng this] have "unat (apply_profit (td_profit_lamports t) c) = unat (td_balance_after_lamports t)"
    using c(2) by (simp only: of_nat_eq_iff [symmetric, where ?'a = int])
  then have "td_balance_after_lamports t = apply_profit (td_profit_lamports t) c"
    by (simp add: word_unat_eq_iff)
  then show ?thesis
    by (simp only: book_ok_last [OF c(1), symmetric])
qed

lemma stats_loop_inv:
  "book_ok 0 b ts b' \<Longrightarrow> list_all (\<lambda>t. in_range 64 (td_profit_lamports t)) ts \<Longrightarrow> length ts < 2 ^ 64 \<Longrightarrow>
    \<exists>a. stats_loop ts (stats_start b) = Ok a \<and> stats_inv b ts a"
proof (induction ts arbitrary: b' rule: rev_induct)
  case Nil
  then show ?case
    by (auto simp: stats_start_def stats_inv_def is_peak_def is_drawdown_def profits_def)
next
  case (snoc t ts)
  then obtain c where "book_ok 0 b ts c"
    by (auto simp: book_ok_snoc)
  then obtain a where a: "stats_loop ts (stats_start b) = Ok a" "stats_inv b ts a"
    using snoc.IH snoc.prems(2,3) by auto
  have run: "td_balance_after_lamports t = apply_profit (td_profit_lamports t) (sa_running a)"
    using book_ok_apply [OF snoc.prems(1)] snoc.prems(2) a(2) by (simp add: stats_inv_def Let_def)
  have len: "length ts + 1 < 2 ^ 64" and rng: "in_range 64 (td_profit_lamports t)"
    using snoc.prems(2,3) by simp_all
  from stats_step_inv [OF a(2) len rng run] show ?case
    by (auto simp: stats_loop_append a(1))
qed

text \<open>The statistics of every reachable wallet are what their names say, measured on the balances the wallet
  went through: the peak is the largest of them, the maximum drawdown is the largest fall from an
  earlier balance to a later one, and wins and losses count the trades by the sign of their profit.\<close>

theorem wallet_stats_exact:
  assumes "wallet_reachable starting w" and "length (pw_trades w) < 2 ^ 64"
  shows "\<exists>s. wallet_stats_of w = Ok s
    \<and> ws_current_balance_lamports s = last (balances w) \<and> ws_starting_balance_lamports s = starting
    \<and> unat (ws_total_trades s) = length (pw_trades w)
    \<and> unat (ws_wins s) = length (filter (\<lambda>v. 0 < v) (profits (pw_trades w)))
    \<and> unat (ws_losses s) = length (filter (\<lambda>v. v < 0) (profits (pw_trades w)))
    \<and> ws_total_pnl_lamports s = foldl (\<lambda>s v. clamp_i 64 (s + v)) 0 (profits (pw_trades w))
    \<and> is_peak (balances w) (ws_peak_balance_lamports s)
    \<and> is_drawdown (balances w) (unat (ws_max_drawdown_lamports s))"
proof -
  have w: "wallet_ok w" "pw_starting_balance_lamports w = starting"
    using wallet_reachable_ok [OF assms(1)] by simp_all
  then have ok: "book_ok 0 starting (pw_trades w) (pw_balance_lamports w)"
    "list_all (\<lambda>t. in_range 64 (td_profit_lamports t)) (pw_trades w)"
    by (simp_all add: wallet_ok_def)
  obtain a where a: "stats_loop (pw_trades w) (stats_start starting) = Ok a" "stats_inv starting (pw_trades w) a"
    using stats_loop_inv [OF ok assms(2)] by blast
  have "pw_balance_lamports w = last (balances w)"
    using book_ok_last [OF ok(1)] by (simp add: balances_def w(2))
  moreover have "unat (of_nat (length (pw_trades w)) :: u64) = length (pw_trades w)"
    using assms(2) by (simp add: unat_of_nat_fits)
  ultimately show ?thesis
    using a by (simp add: wallet_stats_of_def w(2) stats_start_def stats_inv_def balances_def Let_def)
qed

definition sample_fill :: "i64 \<Rightarrow> trade_fill" where
  "sample_fill v = \<lparr>tf_pair = ''SOL/USDC'', tf_side = SideBaseToQuote, tf_input_lamports = 1000000,
    tf_output_lamports = 1010000, tf_profit_lamports = v, tf_tip_lamports = 10000, tf_cycle_hash_hex = ''abcd''\<rparr>"

definition sample_wallet :: paper_wallet where
  "sample_wallet = snd (wallet_execute 3 (sample_fill 20) (snd (wallet_execute 2 (sample_fill (- 50))
    (snd (wallet_execute 1 (sample_fill 100) (wallet_new 0 100))))))"

lemma sample_wallet_reachable: "wallet_reachable 100 sample_wallet"
  unfolding sample_wallet_def
  by (intro wallet_reachable.intros) (simp_all add: sample_fill_def in_range_def smin_def smax_def)

lemmas wallet_eval = wallet_execute_def wallet_new_def sample_fill_def apply_profit_def unsigned_abs_def Let_def
  sat_add_w_def sat_sub_w_def

lemma sample_wallet_balance: "pw_balance_lamports sample_wallet = 170" "length (pw_trades sample_wallet) = 3"
  "profits (pw_trades sample_wallet) = [100, - 50, 20]"
  by (simp_all add: sample_wallet_def wallet_eval profits_def)

lemma wallet_books_balance_witness:
  "\<exists>r w'. wallet_execute 4 (sample_fill (- 171)) sample_wallet = (r, w') \<and> r = Err (InsufficientFunds 171 170) \<and> w' = sample_wallet"
proof -
  have rng: "in_range 64 (tf_profit_lamports (sample_fill (- 171)))"
    by (simp add: sample_fill_def in_range_def smin_def smax_def)
  obtain r w' where run: "wallet_execute 4 (sample_fill (- 171)) sample_wallet = (r, w')"
    by fastforce
  from wallet_books_balance [OF sample_wallet_reachable rng run] run show ?thesis
    by (simp add: sample_wallet_balance sample_fill_def unsigned_abs_def)
qed

lemma wallet_stats_exact_witness:
  "\<exists>s. wallet_stats_of sample_wallet = Ok s \<and> unat (ws_wins s) = 2 \<and> unat (ws_losses s) = 1
    \<and> ws_total_pnl_lamports s = 70"
proof -
  have "length (pw_trades sample_wallet) < 2 ^ 64"
    by (simp add: sample_wallet_balance)
  from wallet_stats_exact [OF sample_wallet_reachable this] show ?thesis
    by (auto simp: sample_wallet_balance clamp_i_def smin_def smax_def)
qed

end
