(* ===== verification/PaperTrader.thy ===== *)
theory PaperTrader
  imports Streaming Ledger Sizing Wallet
begin

text \<open>
  The live paper trader of \<^verbatim>\<open>crates/dl-app/src/main.rs\<close> (\<^verbatim>\<open>run_live_paper\<close>): one account update after
  another is decoded, tracked, fed to the streaming detector, and every cycle found is sized, simulated,
  evaluated and, where it would trade, booked in the paper wallet. What the code asks of the world while it
  handles one event is a record; the order in which a \<^verbatim>\<open>HashMap\<close> iterates, the JSON codec and the debug
  form of a cycle are arguments.
\<close>

section \<open>State\<close>

text \<open>A tracked pool with its base and quote vault.\<close>

type_synonym tracked = "pool \<times> pubkey \<times> pubkey"
type_synonym tracked_map = "u8 list \<rightharpoonup> tracked"

record jsonl_row =
  jr_pool_address :: string
  jr_dex :: string
  jr_base_mint :: string
  jr_quote_mint :: string
  jr_gross_bps :: i64
  jr_fee_bps :: nat
  jr_detected_at :: i64

record trader =
  tr_raydium :: tracked_map
  tr_orca :: tracked_map
  tr_meteora :: tracked_map
  tr_subscribed :: "u8 list set"
  tr_detector :: streaming_graph
  tr_wallet :: paper_wallet
  tr_disk :: wallet_disk
  tr_jsonl :: "jsonl_row list"
  tr_rng :: u64
  tr_events :: u64
  tr_pools_seen :: u64
  tr_vault_updates :: u64
  tr_cycles_evaluated :: u64
  tr_trades_written :: u64

record trader_cfg =
  tc_optimistic :: eval_params
  tc_conservative :: eval_params
  tc_cost :: cost_model
  tc_max_input :: u128
  tc_realistic :: bool
  tc_path :: "path_part list"

text \<open>The libraries: iteration order, serializer and parser of the wallet, debug form of a cycle.\<close>

record trader_lib =
  tl_iter :: "tracked_map \<Rightarrow> (u8 list \<times> tracked) list"
  tl_to_json :: "paper_wallet \<Rightarrow> u8 list option"
  tl_show_cycle :: "cycle \<Rightarrow> string"

text \<open>The world during one event; what can happen again within the event is indexed by the number of trades.\<close>

record trader_env =
  te_subscribe_ok :: "u8 list \<Rightarrow> bool"
  te_now :: "nat \<Rightarrow> i64"
  te_write_stops :: "nat \<Rightarrow> nat option"
  te_rename_ok :: "nat \<Rightarrow> bool"
  te_append_ok :: "nat \<Rightarrow> bool"

section \<open>Booking the cycles of a detection\<close>

definition won_simulated :: "u64 \<Rightarrow> bool \<times> u64" where
  "won_simulated s =
    (let x1 = s XOR push_bit 13 s; x2 = x1 XOR drop_bit 7 x1; x3 = x2 XOR push_bit 17 x2
     in (x3 mod 100 < 30, x3))"

definition format_cycle_pair :: "cycle \<Rightarrow> string" where
  "format_cycle_pair c =
    (if legs c = [] then ''empty''
     else concat (map (\<lambda>(i, l). (if 0 < i then ''-'' else '''')
       @ (case leg_direction l of BaseToQuote \<Rightarrow> ''btq'' | QuoteToBase \<Rightarrow> ''qtb'')) (enumerate 0 (legs c))))"

definition append_cycle_jsonl :: "trader_lib \<Rightarrow> trader_env \<Rightarrow> nat \<Rightarrow> cycle \<Rightarrow> trade_fill \<Rightarrow> trader \<Rightarrow> trader" where
  "append_cycle_jsonl lib env k c f t =
    (let mint = (if legs c = [] then '''' else ''unknown'');
         input = tf_input_lamports f; output = tf_output_lamports f;
         gross_bps = (if input < output
           then signed_take_bit 63 (uint (ucast (output - input) * 10000 div max (ucast input) (1 :: u128))) else 0)
     in if te_append_ok env k
        then t\<lparr>tr_jsonl := tr_jsonl t @ [\<lparr>jr_pool_address = tf_cycle_hash_hex f, jr_dex = ''raydium'',
          jr_base_mint = mint, jr_quote_mint = mint, jr_gross_bps = gross_bps, jr_fee_bps = 30,
          jr_detected_at = te_now env k\<rparr>]\<rparr>
        else t)"

text \<open>Sizing, simulation and costs of one cycle; \<open>None\<close> where the code logs an error and goes on.\<close>

definition price_cycle :: "trader_cfg \<Rightarrow> pool_registry \<Rightarrow> cycle \<Rightarrow> ((u128 \<times> u128 \<times> net_profit_record) option, unit) res" where
  "price_cycle cfg reg c =
    (case find_optimal_input c reg (tc_cost cfg) (tc_max_input cfg) of
       Panic \<Rightarrow> Panic
     | Err _ \<Rightarrow> Ok None
     | Ok sizing \<Rightarrow>
         (let input = (case sizing of Profitable amount _ \<Rightarrow> amount | NoTrade _ \<Rightarrow> tc_max_input cfg div 2) in
          case simulate_cycle c reg input of
            Panic \<Rightarrow> Panic
          | Err _ \<Rightarrow> Ok None
          | Ok cycle_fill \<Rightarrow>
              (case from_optimal sizing input (final_output cycle_fill) (tc_cost cfg) of
                 Panic \<Rightarrow> Panic
               | Err _ \<Rightarrow> Ok None
               | Ok net \<Rightarrow> Ok (Some (input, final_output cycle_fill, net)))))"

definition to_lamports :: "u128 \<Rightarrow> u64" where
  "to_lamports v = (if 18446744073709551615 < v then 18446744073709551615 else ucast v)"

definition fill_of_cycle :: "trader_lib \<Rightarrow> trader_cfg \<Rightarrow> cycle \<Rightarrow> u128 \<Rightarrow> u128 \<Rightarrow> eval_outcome \<Rightarrow> trade_fill" where
  "fill_of_cycle lib cfg c input gross out =
    \<lparr>tf_pair = format_cycle_pair c, tf_side = SideBaseToQuote, tf_input_lamports = to_lamports input,
     tf_output_lamports = to_lamports gross, tf_profit_lamports = signed_take_bit 63 (e_pnl (eo_conservative out)),
     tf_tip_lamports = jito_tip_lamports (tc_cost cfg), tf_cycle_hash_hex = tl_show_cycle lib c\<rparr>"

text \<open>In the realistic mode a lost draw turns the fill into the loss of the tip.\<close>

definition settle :: "trader_cfg \<Rightarrow> trade_fill \<Rightarrow> u64 \<Rightarrow> (trade_fill \<times> u64, unit) res" where
  "settle cfg f rng =
    (if tc_realistic cfg then
       (case won_simulated rng of (won, rng') \<Rightarrow>
          if won then Ok (f, rng')
          else bind_res (range_p 64 (- sint (tf_tip_lamports f))) (\<lambda>loss.
            Ok (f\<lparr>tf_output_lamports := tf_input_lamports f, tf_profit_lamports := loss\<rparr>, rng')))
     else Ok (f, rng))"

text \<open>The body of the loop over the cycles: whether it goes on with the next one, and the trader.\<close>

definition book_cycle ::
    "trader_lib \<Rightarrow> trader_cfg \<Rightarrow> trader_env \<Rightarrow> pool_registry \<Rightarrow> cycle \<Rightarrow> trader \<Rightarrow> (bool \<times> trader, unit) res" where
  "book_cycle lib cfg env reg c t =
    bind_res (price_cycle cfg reg c) (\<lambda>priced.
    (case priced of
       None \<Rightarrow> Ok (True, t)
     | Some (input, gross, net) \<Rightarrow>
         (case evaluate net (tc_optimistic cfg) (tc_conservative cfg) of
            Ok out \<Rightarrow>
              if decision_from_ev (eo_conservative out) \<noteq> WouldTrade then Ok (True, t)
              else
                bind_res (add_p (tr_cycles_evaluated t) 1) (\<lambda>n.
                bind_res (settle cfg (fill_of_cycle lib cfg c input gross out) (tr_rng t)) (\<lambda>(trade, rng).
                let k = length (pw_trades (tr_wallet t)); t1 = t\<lparr>tr_cycles_evaluated := n, tr_rng := rng\<rparr> in
                (case wallet_execute (te_now env k) trade (tr_wallet t) of
                   (Ok _, w) \<Rightarrow>
                     bind_res (add_p (tr_trades_written t) 1) (\<lambda>m.
                     let t2 = t1\<lparr>tr_wallet := w, tr_trades_written := m\<rparr> in
                     (case wallet_save (tl_to_json lib) (tc_path cfg) (te_write_stops env k) (te_rename_ok env k) w (tr_disk t) of
                        (Ok _, d) \<Rightarrow> Ok (True, append_cycle_jsonl lib env k c trade (t2\<lparr>tr_disk := d\<rparr>))
                      | (Err _, d) \<Rightarrow> Ok (False, t2\<lparr>tr_disk := d\<rparr>)
                      | (Panic, d) \<Rightarrow> Panic))
                 | (Err _, w) \<Rightarrow> Ok (False, t1\<lparr>tr_wallet := w\<rparr>)
                 | (Panic, w) \<Rightarrow> Panic)))
          | _ \<Rightarrow> Panic)))"

fun write_cycles ::
    "trader_lib \<Rightarrow> trader_cfg \<Rightarrow> trader_env \<Rightarrow> pool_registry \<Rightarrow> cycle list \<Rightarrow> trader \<Rightarrow> (trader, unit) res" where
  "write_cycles lib cfg env reg [] t = Ok t"
| "write_cycles lib cfg env reg (c # cs) t =
    bind_res (book_cycle lib cfg env reg c t) (\<lambda>(goes_on, t').
      if goes_on then write_cycles lib cfg env reg cs t' else Ok t')"

section \<open>Handling an account update\<close>

definition snapshot_all_pools :: "trader_lib \<Rightarrow> trader \<Rightarrow> pool list" where
  "snapshot_all_pools lib t = map (\<lambda>(_, p, _, _). p)
    (tl_iter lib (tr_raydium t) @ tl_iter lib (tr_orca t) @ tl_iter lib (tr_meteora t))"

text \<open>Detection on the update of one pool, and the booking of what it finds on the pools as tracked.\<close>

definition detect_and_write :: "trader_lib \<Rightarrow> trader_cfg \<Rightarrow> trader_env \<Rightarrow> pool \<Rightarrow> trader \<Rightarrow> (trader, unit) res" where
  "detect_and_write lib cfg env p t =
    (case on_pool_update p (tr_detector t) of
       Ok (cycles, detector) \<Rightarrow>
         bind_res (add_p (tr_cycles_evaluated t) (of_nat (length cycles))) (\<lambda>n.
         write_cycles lib cfg env (registry_of (snapshot_all_pools lib t)) cycles
           (t\<lparr>tr_detector := detector, tr_cycles_evaluated := n\<rparr>))
     | _ \<Rightarrow> Panic)"

definition subscribe_vault :: "trader_env \<Rightarrow> pubkey \<Rightarrow> trader \<Rightarrow> trader" where
  "subscribe_vault env v t =
    (if key_bytes v \<notin> tr_subscribed t \<and> te_subscribe_ok env (key_bytes v)
     then t\<lparr>tr_subscribed := insert (key_bytes v) (tr_subscribed t)\<rparr> else t)"

definition seen_pool :: "u8 list \<Rightarrow> amm_kind \<Rightarrow> pubkey \<Rightarrow> pubkey \<Rightarrow> u8 \<Rightarrow> u8 \<Rightarrow> u16 \<Rightarrow> pool" where
  "seen_pool pk knd base quote bd qd fee =
    default_pool\<lparr>address := Pubkey pk, kind := knd, base_mint := base, quote_mint := quote,
      base_decimals := bd, quote_decimals := qd, base_reserve := 0, quote_reserve := 0, fee_bps := fee,
      last_update_slot := 0\<rparr>"

text \<open>The simplified view of a mainnet Whirlpool.\<close>

definition simplified_whirlpool :: "whirlpool_real \<Rightarrow> whirlpool" where
  "simplified_whirlpool w =
    \<lparr>wp_sqrt_price = wr_sqrt_price w, wp_tick_current_index = wr_tick_current_index w,
     wp_tick_spacing = wr_tick_spacing w, wp_liquidity = wr_liquidity w, wp_token_mint_x = wr_token_mint_x w,
     wp_token_mint_y = wr_token_mint_y w, wp_token_vault_x = wr_token_vault_x w,
     wp_token_vault_y = wr_token_vault_y w, wp_fee_rate = wr_fee_rate w, wp_program_id = ORCA_WHIRLPOOL_PROGRAM_ID\<rparr>"

definition whirl_of :: "u8 list \<Rightarrow> whirlpool option" where
  "whirl_of data =
    (if length data = 256 then (case decode_whirlpool data of Ok w \<Rightarrow> Some w | _ \<Rightarrow> None)
     else if 234 \<le> length data \<and> length data \<le> 256 then None
     else (case decode_whirlpool_real data of Ok w \<Rightarrow> Some (simplified_whirlpool w) | _ \<Rightarrow> None))"

definition orca_update ::
    "trader_lib \<Rightarrow> trader_cfg \<Rightarrow> trader_env \<Rightarrow> u8 list \<Rightarrow> whirlpool \<Rightarrow> trader \<Rightarrow> (trader, unit) res" where
  "orca_update lib cfg env pk w t =
    (let t1 = subscribe_vault env (wp_token_vault_y w) (subscribe_vault env (wp_token_vault_x w) t);
         p = seen_pool pk OrcaWhirlpool (wp_token_mint_x w) (wp_token_mint_y w) 9 6 (wp_fee_rate w)
     in bind_res (add_p (tr_pools_seen t1) 1) (\<lambda>n.
        detect_and_write lib cfg env p
          (t1\<lparr>tr_pools_seen := n, tr_orca := (tr_orca t1)(pk \<mapsto> (p, wp_token_vault_x w, wp_token_vault_y w))\<rparr>)))"

definition meteora_update ::
    "trader_lib \<Rightarrow> trader_cfg \<Rightarrow> trader_env \<Rightarrow> u8 list \<Rightarrow> lb_pair \<Rightarrow> trader \<Rightarrow> (trader, unit) res" where
  "meteora_update lib cfg env pk lp t =
    (let t1 = subscribe_vault env (lp_token_vault_y lp) (subscribe_vault env (lp_token_vault_x lp) t);
         p = seen_pool pk MeteoraDlmm (lp_token_mint_x lp) (lp_token_mint_y lp) 9 6 (lp_bin_step lp)
     in bind_res (add_p (tr_pools_seen t1) 1) (\<lambda>n.
        detect_and_write lib cfg env p
          (t1\<lparr>tr_pools_seen := n, tr_meteora := (tr_meteora t1)(pk \<mapsto> (p, lp_token_vault_x lp, lp_token_vault_y lp))\<rparr>)))"

definition raydium_update ::
    "trader_lib \<Rightarrow> trader_cfg \<Rightarrow> trader_env \<Rightarrow> u8 list \<Rightarrow> amm_info \<Rightarrow> trader \<Rightarrow> (trader, unit) res" where
  "raydium_update lib cfg env pk amm t =
    (let t1 = subscribe_vault env (ai_quote_vault amm) (subscribe_vault env (ai_base_vault amm) t);
         p = seen_pool pk RaydiumAmmV4 (ai_base_mint amm) (ai_quote_mint amm) (ai_base_decimals amm)
           (ai_quote_decimals amm) (case amm_fee_bps amm of Some f \<Rightarrow> f | None \<Rightarrow> 30)
     in bind_res (add_p (tr_pools_seen t1) 1) (\<lambda>n.
        detect_and_write lib cfg env p
          (t1\<lparr>tr_pools_seen := n, tr_raydium := (tr_raydium t1)(pk \<mapsto> (p, ai_base_vault amm, ai_quote_vault amm))\<rparr>)))"
datatype dex_kind = DexRaydium | DexOrca | DexMeteora

primrec tracked_of :: "dex_kind \<Rightarrow> trader \<Rightarrow> tracked_map" where
  "tracked_of DexRaydium t = tr_raydium t"
| "tracked_of DexOrca t = tr_orca t"
| "tracked_of DexMeteora t = tr_meteora t"

primrec put_tracked :: "dex_kind \<Rightarrow> u8 list \<Rightarrow> tracked \<Rightarrow> trader \<Rightarrow> trader" where
  "put_tracked DexRaydium k v t = t\<lparr>tr_raydium := (tr_raydium t)(k \<mapsto> v)\<rparr>"
| "put_tracked DexOrca k v t = t\<lparr>tr_orca := (tr_orca t)(k \<mapsto> v)\<rparr>"
| "put_tracked DexMeteora k v t = t\<lparr>tr_meteora := (tr_meteora t)(k \<mapsto> v)\<rparr>"

text \<open>The first pool, in the order the map iterates, that has the account as a vault; whether as the base one.\<close>

fun parent_of :: "u8 list \<Rightarrow> (u8 list \<times> tracked) list \<Rightarrow> (u8 list \<times> bool) option" where
  "parent_of pk [] = None"
| "parent_of pk ((k, _, bv, qv) # m) =
    (if key_bytes bv = pk then Some (k, True)
     else if key_bytes qv = pk then Some (k, False)
     else parent_of pk m)"

definition find_parent :: "trader_lib \<Rightarrow> u8 list \<Rightarrow> trader \<Rightarrow> (u8 list \<times> bool \<times> dex_kind) option" where
  "find_parent lib pk t =
    (case parent_of pk (tl_iter lib (tr_raydium t)) of
       Some (k, is_base) \<Rightarrow> Some (k, is_base, DexRaydium)
     | None \<Rightarrow> (case parent_of pk (tl_iter lib (tr_orca t)) of
         Some (k, is_base) \<Rightarrow> Some (k, is_base, DexOrca)
       | None \<Rightarrow> (case parent_of pk (tl_iter lib (tr_meteora t)) of
           Some (k, is_base) \<Rightarrow> Some (k, is_base, DexMeteora)
         | None \<Rightarrow> None)))"

definition with_reserve :: "bool \<Rightarrow> u64 \<Rightarrow> pool \<Rightarrow> pool" where
  "with_reserve is_base amount p = (if is_base then p\<lparr>base_reserve := amount\<rparr> else p\<lparr>quote_reserve := amount\<rparr>)"

text \<open>The new pool is detected on, and what is found is booked, before it is put back into its map.\<close>

definition vault_update ::
    "trader_lib \<Rightarrow> trader_cfg \<Rightarrow> trader_env \<Rightarrow> u8 list \<Rightarrow> spl_token_account \<Rightarrow> trader \<Rightarrow> (trader, unit) res" where
  "vault_update lib cfg env pk spl t =
    bind_res (add_p (tr_vault_updates t) 1) (\<lambda>n.
    let t1 = t\<lparr>tr_vault_updates := n\<rparr> in
    (case find_parent lib pk t1 of
       None \<Rightarrow> Ok t1
     | Some (parent, is_base, dex) \<Rightarrow>
         (case tracked_of dex t1 parent of
            None \<Rightarrow> Ok t1
          | Some (p0, bv, qv) \<Rightarrow>
              (let p = with_reserve is_base (st_amount spl) p0 in
               bind_res (if 0 < base_reserve p \<and> 0 < quote_reserve p then detect_and_write lib cfg env p t1 else Ok t1)
                 (\<lambda>t2. Ok (put_tracked dex parent (p, bv, qv) t2))))))"

definition decode_pool_update :: "u8 list \<Rightarrow> u8 list \<Rightarrow> (pool option, unit) res" where
  "decode_pool_update pk data =
    (if length data = 752 then
       (case decode_amm_info data of
          Ok amm \<Rightarrow> Ok (Some (seen_pool pk RaydiumAmmV4 (ai_base_mint amm) (ai_quote_mint amm) (ai_base_decimals amm)
            (ai_quote_decimals amm) (case amm_fee_bps amm of Some f \<Rightarrow> f | None \<Rightarrow> 30)))
        | Err _ \<Rightarrow> Ok None
        | Panic \<Rightarrow> Panic)
     else if length data = 653 then
       (case decode_whirlpool data of
          Ok w \<Rightarrow> Ok (Some (seen_pool pk OrcaWhirlpool (wp_token_mint_x w) (wp_token_mint_y w) 0 0 30))
        | Err _ \<Rightarrow> Ok None
        | Panic \<Rightarrow> Panic)
     else
       (case decode_lb_pair data of
          Ok lp \<Rightarrow> Ok (Some (seen_pool pk MeteoraDlmm (lp_token_mint_x lp) (lp_token_mint_y lp) 0 0
            (min (lp_bin_step lp) 65535)))
        | Err _ \<Rightarrow> Ok None
        | Panic \<Rightarrow> Panic))"

text \<open>The decoders are tried in this order; an update that the first four do not take is decoded once more.\<close>

definition handle_account ::
    "trader_lib \<Rightarrow> trader_cfg \<Rightarrow> trader_env \<Rightarrow> u8 list \<Rightarrow> u8 list \<Rightarrow> trader \<Rightarrow> (trader, unit) res" where
  "handle_account lib cfg env pk data t0 =
    bind_res (add_p (tr_events t0) 1) (\<lambda>n.
    let t = t0\<lparr>tr_events := n\<rparr> in
    (case whirl_of data of
       Some w \<Rightarrow> orca_update lib cfg env pk w t
     | None \<Rightarrow>
         (case (156 + 32 * BIN_WINDOW \<le> length data, decode_lb_pair data) of
            (True, Ok lp) \<Rightarrow> meteora_update lib cfg env pk lp t
          | (True, Panic) \<Rightarrow> Panic
          | _ \<Rightarrow>
              (case (length data = 752, decode_amm_info data) of
                 (True, Ok amm) \<Rightarrow> raydium_update lib cfg env pk amm t
               | _ \<Rightarrow>
                   (case (SPL_TOKEN_ACCOUNT_SIZE \<le> length data, decode_spl_token_account data) of
                      (True, Ok spl) \<Rightarrow> vault_update lib cfg env pk spl t
                    | _ \<Rightarrow>
                        bind_res (decode_pool_update pk data) (\<lambda>seen.
                        (case seen of
                           None \<Rightarrow> Ok t
                         | Some p \<Rightarrow> bind_res (add_p (tr_pools_seen t) 1) (\<lambda>m.
                             detect_and_write lib cfg env p (t\<lparr>tr_pools_seen := m\<rparr>)))))))))"

section \<open>The loop\<close>

record trader_tick =
  tt_elapsed :: nat
  tt_event :: "feed_event option"
  tt_env :: trader_env

text \<open>The run over a list of observations: the trader and whether the deadline has stopped it.\<close>

fun paper_run :: "trader_lib \<Rightarrow> trader_cfg \<Rightarrow> nat \<Rightarrow> trader_tick list \<Rightarrow> trader \<Rightarrow> (trader \<times> bool, unit) res" where
  "paper_run lib cfg deadline [] t = Ok (t, False)"
| "paper_run lib cfg deadline (k # ks) t =
    (if deadline \<le> tt_elapsed k then Ok (t, True)
     else (case tt_event k of
         Some (AccountUpdate _ pk data) \<Rightarrow>
           bind_res (handle_account lib cfg (tt_env k) pk data t) (paper_run lib cfg deadline ks)
       | _ \<Rightarrow> paper_run lib cfg deadline ks t))"

definition placeholder_pool :: pool where
  "placeholder_pool = default_pool\<lparr>address := Pubkey (replicate 32 0xFE), kind := RaydiumAmmV4,
    base_mint := Pubkey (replicate 32 1), quote_mint := Pubkey (replicate 32 2), base_decimals := 6,
    quote_decimals := 9, base_reserve := 1000000000, quote_reserve := 1000000000, fee_bps := 30,
    last_update_slot := 0\<rparr>"

definition start_detector :: "(streaming_graph, unit) res" where
  "start_detector =
    (case streaming_new [] of
       Ok s \<Rightarrow> Ok s
     | Panic \<Rightarrow> Panic
     | Err _ \<Rightarrow> (case streaming_new [placeholder_pool] of Ok s \<Rightarrow> Ok s | _ \<Rightarrow> Panic))"

definition start_wallet :: "(u8 list \<Rightarrow> paper_wallet option) \<Rightarrow> i64 \<Rightarrow> wallet_disk \<Rightarrow> paper_wallet" where
  "start_wallet from_json ts d =
    (if wd_file d \<noteq> None then
       (case wallet_load from_json d of Ok w \<Rightarrow> w | _ \<Rightarrow> wallet_new ts 10000000000)
     else wallet_new ts 10000000000)"

definition start_cfg :: "bool \<Rightarrow> path_part list \<Rightarrow> (trader_cfg, sim_error) res" where
  "start_cfg realistic path = bind_res params_conservative (\<lambda>conservative.
    Ok \<lparr>tc_optimistic = params_optimistic, tc_conservative = conservative, tc_cost = default_busy,
        tc_max_input = 1000000000, tc_realistic = realistic, tc_path = path\<rparr>)"

definition trader_start ::
    "(u8 list \<Rightarrow> paper_wallet option) \<Rightarrow> i64 \<Rightarrow> u64 \<Rightarrow> wallet_disk \<Rightarrow> (trader, unit) res" where
  "trader_start from_json ts seed d = bind_res start_detector (\<lambda>detector.
    Ok \<lparr>tr_raydium = Map.empty, tr_orca = Map.empty, tr_meteora = Map.empty, tr_subscribed = {},
        tr_detector = detector, tr_wallet = start_wallet from_json ts d, tr_disk = d, tr_jsonl = [], tr_rng = seed,
        tr_events = 0, tr_pools_seen = 0, tr_vault_updates = 0, tr_cycles_evaluated = 0, tr_trades_written = 0\<rparr>)"

end
