(* ===== verification/PaperTrader_Safety.thy ===== *)
theory PaperTrader_Safety
  imports PaperTrader
begin

text \<open>
  What the live paper trader (\<^verbatim>\<open>run_live_paper\<close>) guarantees, and what it gets wrong: the books of every
  run, the exchange it takes every pool for, the reserves it prices on, and the graph it searches.
\<close>

section \<open>What a booking keeps\<close>

text \<open>Bookings change the wallet, its file, the log, the draw and two counters.\<close>

definition same_tracking :: "trader \<Rightarrow> trader \<Rightarrow> bool" where
  "same_tracking t t' \<longleftrightarrow> tr_raydium t' = tr_raydium t \<and> tr_orca t' = tr_orca t \<and> tr_meteora t' = tr_meteora t
    \<and> tr_subscribed t' = tr_subscribed t \<and> tr_detector t' = tr_detector t \<and> tr_events t' = tr_events t
    \<and> tr_pools_seen t' = tr_pools_seen t \<and> tr_vault_updates t' = tr_vault_updates t"

text \<open>A booked trade is one of the cycles, priced on the given pools with a positive conservative value, and books
  that value or, in the realistic mode, the loss of the tip.\<close>

definition sound_trade :: "trader_cfg \<Rightarrow> pool_registry \<Rightarrow> cycle list \<Rightarrow> trade \<Rightarrow> bool" where
  "sound_trade cfg reg cs x \<longleftrightarrow> (\<exists>c input gross net out. c \<in> set cs
    \<and> price_cycle cfg reg c = Ok (Some (input, gross, net))
    \<and> evaluate net (tc_optimistic cfg) (tc_conservative cfg) = Ok out \<and> 0 < e_pnl (eo_conservative out)
    \<and> (td_profit_lamports x = signed_take_bit 63 (e_pnl (eo_conservative out))
       \<or> tc_realistic cfg \<and> td_profit_lamports x = - sint (jito_tip_lamports (tc_cost cfg))))"

lemma settle_profit:
  assumes "settle cfg f rng = Ok (g, rng')" and "in_range 64 (tf_profit_lamports f)"
  shows "in_range 64 (tf_profit_lamports g)
    \<and> (tf_profit_lamports g = tf_profit_lamports f
       \<or> tc_realistic cfg \<and> tf_profit_lamports g = - sint (tf_tip_lamports f))"
  using assms by (auto simp: settle_def bind_res_Ok_iff range_p_Ok_iff split: if_splits prod.splits)

lemma in_range_signed: "in_range 64 (signed_take_bit 63 (v :: int))"
  using signed_take_bit_int_greater_eq_minus_exp [of 63 v] signed_take_bit_int_less_exp [of 63 v]
  by (simp add: in_range_def smin_def smax_def)

lemma append_jsonl_keeps [simp]:
  "tr_wallet (append_cycle_jsonl lib env k c f t) = tr_wallet t" "tr_disk (append_cycle_jsonl lib env k c f t) = tr_disk t"
  "tr_trades_written (append_cycle_jsonl lib env k c f t) = tr_trades_written t"
  "same_tracking t0 (append_cycle_jsonl lib env k c f t) \<longleftrightarrow> same_tracking t0 t"
  by (simp_all add: append_cycle_jsonl_def same_tracking_def Let_def)

text \<open>What one booked cycle does before the rest of the list is looked at.\<close>

definition one_booked :: "trader_cfg \<Rightarrow> pool_registry \<Rightarrow> cycle list \<Rightarrow> trader \<Rightarrow> trader \<Rightarrow> trade list \<Rightarrow> bool" where
  "one_booked cfg reg cs t t' new \<longleftrightarrow> pw_trades (tr_wallet t') = pw_trades (tr_wallet t) @ new
    \<and> list_all (sound_trade cfg reg cs) new \<and> same_tracking t t'
    \<and> unat (tr_trades_written t') = unat (tr_trades_written t) + length new
    \<and> (wallet_ok (tr_wallet t) \<longrightarrow> wallet_ok (tr_wallet t'))
    \<and> pw_starting_balance_lamports (tr_wallet t') = pw_starting_balance_lamports (tr_wallet t)"

lemma one_booked_refl: "one_booked cfg reg cs t t []"
  by (simp add: one_booked_def same_tracking_def)

lemma one_booked_trans:
  "one_booked cfg reg cs t t1 xs \<Longrightarrow> one_booked cfg reg cs t1 t2 ys \<Longrightarrow> one_booked cfg reg cs t t2 (xs @ ys)"
  by (simp add: one_booked_def same_tracking_def)

lemma one_booked_mono: "one_booked cfg reg cs t t' new \<Longrightarrow> set cs \<subseteq> set ds \<Longrightarrow> one_booked cfg reg ds t t' new"
  by (fastforce simp: one_booked_def sound_trade_def list_all_iff)

lemma one_booked_nothing: "tr_wallet t' = tr_wallet t \<Longrightarrow> tr_trades_written t' = tr_trades_written t \<Longrightarrow> same_tracking t t' \<Longrightarrow>
    \<exists>new. one_booked cfg reg cs t t' new"
  by (intro exI [of _ "[]"]) (simp add: one_booked_def)

lemma one_booked_trade:
  assumes "price_cycle cfg reg c = Ok (Some (input, gross, net))"
    and "evaluate net (tc_optimistic cfg) (tc_conservative cfg) = Ok out"
    and "decision_from_ev (eo_conservative out) = WouldTrade"
    and "settle cfg (fill_of_cycle lib cfg c input gross out) rng = Ok (f, rng')"
    and "wallet_execute ts f (tr_wallet t) = (Ok new_id, w)" and "add_p (tr_trades_written t) 1 = (Ok m :: (u64, unit) res)"
    and "tr_wallet t' = w" and "tr_trades_written t' = m" and "same_tracking t t'"
  shows "\<exists>new. one_booked cfg reg [c] t t' new"
proof -
  have pos: "0 < e_pnl (eo_conservative out)"
    using assms(3) by (simp add: decision_from_ev_def split: if_splits)
  have "in_range 64 (tf_profit_lamports (fill_of_cycle lib cfg c input gross out))"
    by (simp add: fill_of_cycle_def in_range_signed)
  note f = settle_profit [OF assms(4) this]
  have keep: "wallet_ok (tr_wallet t) \<longrightarrow> wallet_ok w" "pw_starting_balance_lamports w = pw_starting_balance_lamports (tr_wallet t)"
    using wallet_execute_ok [of "tr_wallet t" f ts] wallet_execute_cases [of f "tr_wallet t" ts] f assms(5)
    by (auto split: if_splits)
  obtain x where x: "pw_trades w = pw_trades (tr_wallet t) @ [x]" "td_profit_lamports x = tf_profit_lamports f"
    using wallet_execute_cases [of f "tr_wallet t" ts] f assms(5) by (auto split: if_splits)
  then have "sound_trade cfg reg [c] x"
    using assms(1,2) pos f unfolding sound_trade_def
    by (intro exI [of _ c] exI [of _ input] exI [of _ gross] exI [of _ net] exI [of _ out])
      (auto simp: fill_of_cycle_def)
  moreover have "unat m = unat (tr_trades_written t) + 1"
    using assms(6) by (simp add: add_p_Ok_iff)
  ultimately show ?thesis
    using x keep assms(7-9) by (intro exI [of _ "[x]"]) (simp add: one_booked_def)
qed

lemma execute_refused: "wallet_execute ts f w = (Err e, w') \<Longrightarrow> w' = w"
  by (auto simp: wallet_execute_def Let_def split: if_splits)

lemma book_cycle_booked:
  assumes "book_cycle lib cfg env reg c t = Ok (goes_on, t')"
  shows "\<exists>new. one_booked cfg reg [c] t t' new"
proof (cases "t' = t")
  case False
  define k where "k = length (pw_trades (tr_wallet t))"
  from assms obtain maybe where maybe: "price_cycle cfg reg c = Ok maybe"
    by (auto simp: book_cycle_def bind_res_Ok_iff)
  with assms False obtain input gross net where p: "price_cycle cfg reg c = Ok (Some (input, gross, net))"
    by (cases maybe) (auto simp: book_cycle_def)
  with assms obtain out where out: "evaluate net (tc_optimistic cfg) (tc_conservative cfg) = Ok out"
    by (cases "evaluate net (tc_optimistic cfg) (tc_conservative cfg)") (auto simp: book_cycle_def)
  with assms False p have trade: "decision_from_ev (eo_conservative out) = WouldTrade"
    by (auto simp: book_cycle_def split: if_splits)
  note priced = p out trade
  with assms obtain n f rng' where
    n: "add_p (tr_cycles_evaluated t) 1 = (Ok n :: (u64, unit) res)" and
    f: "settle cfg (fill_of_cycle lib cfg c input gross out) (tr_rng t) = Ok (f, rng')"
    by (auto simp: book_cycle_def bind_res_Ok_iff)
  obtain r w where ex: "wallet_execute (te_now env k) f (tr_wallet t) = (r, w)"
    by fastforce
  note run = assms [unfolded book_cycle_def priced bind_res.simps option.case prod.case res.case n f Let_def
      k_def [symmetric] ex]
  show ?thesis
  proof (cases r)
    case (Ok new_id)
    with run obtain m where m: "add_p (tr_trades_written t) 1 = (Ok m :: (u64, unit) res)"
      by (auto simp: bind_res_Ok_iff)
    have "tr_wallet t' = w \<and> tr_trades_written t' = m \<and> same_tracking t t'"
      using run Ok m by (auto simp: same_tracking_def append_cycle_jsonl_def Let_def split: prod.splits res.splits if_splits)
    then show ?thesis
      using one_booked_trade [OF priced f ex [unfolded Ok] m] by blast
  next
    case (Err e)
    then show ?thesis
      using run execute_refused [OF ex [unfolded Err]]
      by (intro one_booked_nothing) (auto simp: same_tracking_def split: if_splits)
  qed (use run in \<open>simp split: if_splits\<close>)
qed (use one_booked_refl in blast)

lemma write_cycles_booked:
  "write_cycles lib cfg env reg cs t = Ok t' \<Longrightarrow> \<exists>new. one_booked cfg reg cs t t' new"
proof (induction cs arbitrary: t)
  case Nil
  then have "t' = t"
    by simp
  then show ?case
    using one_booked_refl by blast
next
  case (Cons c cs)
  then obtain goes_on t1 where step: "book_cycle lib cfg env reg c t = Ok (goes_on, t1)"
    and rest: "(if goes_on then write_cycles lib cfg env reg cs t1 else Ok t1) = Ok t'"
    by (auto simp: bind_res_Ok_iff)
  have wider: "one_booked cfg reg [c] u u' new \<Longrightarrow> one_booked cfg reg (c # cs) u u' new"
    "one_booked cfg reg cs u u' new \<Longrightarrow> one_booked cfg reg (c # cs) u u' new" for u u' new
    by (erule one_booked_mono, force)+
  from book_cycle_booked [OF step] obtain xs where xs: "one_booked cfg reg (c # cs) t t1 xs"
    using wider(1) by blast
  show ?case
  proof (cases goes_on)
    case True
    with rest Cons.IH [of t1] obtain ys where "one_booked cfg reg (c # cs) t1 t' ys"
      using wider(2) by auto
    with xs show ?thesis
      using one_booked_trans by blast
  qed (use rest xs in auto)
qed
section \<open>What an account update does\<close>

text \<open>The effect of a detection: the maps stay, and what is booked was priced on the pools of \<open>reg\<close>.\<close>

definition booked_on :: "trader_cfg \<Rightarrow> pool_registry \<Rightarrow> trader \<Rightarrow> trader \<Rightarrow> bool" where
  "booked_on cfg reg t t' \<longleftrightarrow> (\<exists>cs new. pw_trades (tr_wallet t') = pw_trades (tr_wallet t) @ new
      \<and> list_all (sound_trade cfg reg cs) new
      \<and> unat (tr_trades_written t') = unat (tr_trades_written t) + length new)
    \<and> (wallet_ok (tr_wallet t) \<longrightarrow> wallet_ok (tr_wallet t'))
    \<and> pw_starting_balance_lamports (tr_wallet t') = pw_starting_balance_lamports (tr_wallet t)"

definition same_maps :: "trader \<Rightarrow> trader \<Rightarrow> bool" where
  "same_maps t t' \<longleftrightarrow> (\<forall>dex. tracked_of dex t' = tracked_of dex t)"

lemma same_maps_iff: "same_maps t t' \<longleftrightarrow> tr_raydium t' = tr_raydium t \<and> tr_orca t' = tr_orca t \<and> tr_meteora t' = tr_meteora t"
proof
  assume same: "same_maps t t'"
  show "tr_raydium t' = tr_raydium t \<and> tr_orca t' = tr_orca t \<and> tr_meteora t' = tr_meteora t"
    using same [unfolded same_maps_def, rule_format, of DexRaydium] same [unfolded same_maps_def, rule_format, of DexOrca]
      same [unfolded same_maps_def, rule_format, of DexMeteora] by simp
next
  assume same: "tr_raydium t' = tr_raydium t \<and> tr_orca t' = tr_orca t \<and> tr_meteora t' = tr_meteora t"
  show "same_maps t t'"
    unfolding same_maps_def
  proof
    fix dex show "tracked_of dex t' = tracked_of dex t"
      using same by (cases dex) simp_all
  qed
qed

lemma booked_on_same_wallet: "tr_wallet t' = tr_wallet t \<Longrightarrow> tr_trades_written t' = tr_trades_written t \<Longrightarrow> booked_on cfg reg t t'"
  by (simp add: booked_on_def exI [of _ "[]"])

lemma detect_booked:
  assumes "detect_and_write lib cfg env p t = Ok t'"
  shows "booked_on cfg (registry_of (snapshot_all_pools lib t)) t t' \<and> same_maps t t'"
proof -
  define reg where "reg = registry_of (snapshot_all_pools lib t)"
  from assms obtain cs det n where run: "write_cycles lib cfg env reg cs (t\<lparr>tr_detector := det, tr_cycles_evaluated := n\<rparr>) = Ok t'"
    by (auto simp: detect_and_write_def bind_res_Ok_iff reg_def split: res.splits)
  from write_cycles_booked [OF this] show ?thesis
    unfolding reg_def [symmetric] one_booked_def booked_on_def same_maps_iff same_tracking_def by auto
qed

lemma subscribe_keeps [simp]:
  "tr_wallet (subscribe_vault env v t) = tr_wallet t" "tr_trades_written (subscribe_vault env v t) = tr_trades_written t"
  "tr_raydium (subscribe_vault env v t) = tr_raydium t" "tr_orca (subscribe_vault env v t) = tr_orca t"
  "tr_meteora (subscribe_vault env v t) = tr_meteora t" "tr_pools_seen (subscribe_vault env v t) = tr_pools_seen t"
  by (simp_all add: subscribe_vault_def)

lemma snapshot_cong:
  "tr_raydium t' = tr_raydium t \<Longrightarrow> tr_orca t' = tr_orca t \<Longrightarrow> tr_meteora t' = tr_meteora t \<Longrightarrow>
    snapshot_all_pools lib t' = snapshot_all_pools lib t"
  by (simp add: snapshot_all_pools_def)

text \<open>A decoded Whirlpool is tracked first and then detected on, with itself among the pools.\<close>

lemma orca_update_result:
  assumes "orca_update lib cfg env pk w t = Ok t'"
  shows "tr_orca t' = (tr_orca t)(pk \<mapsto> (seen_pool pk OrcaWhirlpool (wp_token_mint_x w) (wp_token_mint_y w) 9 6
      (wp_fee_rate w), wp_token_vault_x w, wp_token_vault_y w))
    \<and> tr_raydium t' = tr_raydium t \<and> tr_meteora t' = tr_meteora t \<and> (\<exists>reg. booked_on cfg reg t t')"
proof -
  from assms obtain t1 p where run: "detect_and_write lib cfg env p t1 = Ok t'"
    and t1: "tr_orca t1 = (tr_orca t)(pk \<mapsto> (seen_pool pk OrcaWhirlpool (wp_token_mint_x w) (wp_token_mint_y w) 9 6
      (wp_fee_rate w), wp_token_vault_x w, wp_token_vault_y w))"
    "tr_raydium t1 = tr_raydium t" "tr_meteora t1 = tr_meteora t" "tr_wallet t1 = tr_wallet t"
    "tr_trades_written t1 = tr_trades_written t"
    by (auto simp: orca_update_def Let_def bind_res_Ok_iff)
  from detect_booked [OF run] show ?thesis
    using t1 by (auto simp: same_maps_iff booked_on_def)
qed

lemma vault_update_result:
  assumes "vault_update lib cfg env pk spl t = Ok t'"
  shows "(find_parent lib pk t = None \<and> same_maps t t' \<and> (\<exists>reg. booked_on cfg reg t t'))
    \<or> (\<exists>parent is_base dex. find_parent lib pk t = Some (parent, is_base, dex)
      \<and> (case tracked_of dex t parent of
           None \<Rightarrow> same_maps t t' \<and> (\<exists>reg. booked_on cfg reg t t')
         | Some (p0, vs) \<Rightarrow>
             booked_on cfg (registry_of (snapshot_all_pools lib t)) t t'
             \<and> tracked_of dex t' = (tracked_of dex t)(parent \<mapsto> (with_reserve is_base (st_amount spl) p0, vs))
             \<and> (\<forall>d. d \<noteq> dex \<longrightarrow> tracked_of d t' = tracked_of d t)))"
proof -
  from assms obtain n where n: "(let t1 = t\<lparr>tr_vault_updates := n\<rparr> in
    (case find_parent lib pk t1 of
       None \<Rightarrow> Ok t1
     | Some (parent, is_base, dex) \<Rightarrow>
         (case tracked_of dex t1 parent of
            None \<Rightarrow> Ok t1
          | Some (p0, bv, qv) \<Rightarrow>
              (let p = with_reserve is_base (st_amount spl) p0 in
               bind_res (if 0 < base_reserve p \<and> 0 < quote_reserve p then detect_and_write lib cfg env p t1 else Ok t1)
                 (\<lambda>t2. Ok (put_tracked dex parent (p, bv, qv) t2)))))) = Ok t'"
    by (auto simp: vault_update_def bind_res_Ok_iff)
  define t1 where "t1 = t\<lparr>tr_vault_updates := n\<rparr>"
  have f: "tr_raydium t1 = tr_raydium t" "tr_orca t1 = tr_orca t" "tr_meteora t1 = tr_meteora t"
    "tr_wallet t1 = tr_wallet t" "tr_trades_written t1 = tr_trades_written t"
    by (simp_all add: t1_def)
  have dexes: "tracked_of dex t1 = tracked_of dex t" for dex
    by (cases dex) (simp_all add: f)
  have t1: "find_parent lib pk t1 = find_parent lib pk t" "tracked_of dex t1 = tracked_of dex t"
    "snapshot_all_pools lib t1 = snapshot_all_pools lib t" "booked_on cfg reg t1 u = booked_on cfg reg t u" for dex reg u
    unfolding find_parent_def snapshot_all_pools_def booked_on_def f dexes by simp_all
  note run = n [folded t1_def, unfolded Let_def t1]
  have id: "same_maps t t1" "booked_on cfg reg t t1" for reg
    by (simp_all add: same_maps_iff t1_def booked_on_same_wallet)
  show ?thesis
  proof (cases "find_parent lib pk t")
    case None
    then show ?thesis
      using run id by (auto simp: t1_def)
  next
    case (Some found)
    obtain parent is_base dex where found: "found = (parent, is_base, dex)"
      by (cases found)
    show ?thesis
    proof (cases "tracked_of dex t parent")
      case None
      then show ?thesis
        using run id Some by (auto simp: t1_def [symmetric] found)
    next
      case at: (Some entry)
      obtain p0 bv qv where entry: "entry = (p0, bv, qv)"
        by (cases entry)
      define p where "p = with_reserve is_base (st_amount spl) p0"
      from run [unfolded Some found at entry option.case prod.case p_def [symmetric]] obtain t2 where t2: "(if 0 < base_reserve p \<and> 0 < quote_reserve p then detect_and_write lib cfg env p t1 else Ok t1) = Ok t2"
        "t' = put_tracked dex parent (p, bv, qv) t2"
        by (force simp: bind_res_Ok_iff)
      have two: "booked_on cfg (registry_of (snapshot_all_pools lib t)) t t2 \<and> same_maps t t2"
      proof (cases "0 < base_reserve p \<and> 0 < quote_reserve p")
        case True
        with t2(1) have "detect_and_write lib cfg env p t1 = Ok t2"
          by simp
        from detect_booked [OF this] id(1) show ?thesis
          unfolding t1 by (simp add: same_maps_def)
      next
        case False
        with t2(1) have "t2 = t1"
          by simp
        then show ?thesis
          using id by simp
      qed
      then have "booked_on cfg (registry_of (snapshot_all_pools lib t)) t t'"
        by (cases dex) (simp_all add: t2(2) booked_on_def)
      moreover have "tracked_of dex t' = (tracked_of dex t)(parent \<mapsto> (p, bv, qv))"
        using two by (cases dex) (simp_all add: t2(2) same_maps_iff)
      moreover have "tracked_of d t' = tracked_of d t" if "d \<noteq> dex" for d
        using two that by (cases dex; cases d) (simp_all add: t2(2) same_maps_iff)
      ultimately show ?thesis
        by (simp add: Some found at entry p_def)
    qed
  qed
qed
lemma whirl_of_long: "653 \<le> length data \<Longrightarrow> \<exists>w. whirl_of data = Some w
    \<and> wp_token_mint_x w = Pubkey (bytes_at data 88 120) \<and> wp_token_mint_y w = Pubkey (bytes_at data 120 152)
    \<and> wp_token_vault_x w = Pubkey (bytes_at data 152 184) \<and> wp_token_vault_y w = Pubkey (bytes_at data 184 216)"
  by (simp add: whirl_of_def decode_whirlpool_real_def WHIRLPOOL_ACCOUNT_SIZE_REAL_def simplified_whirlpool_def)

lemma whirl_of_short: "length data < 653 \<Longrightarrow> length data \<noteq> 256 \<Longrightarrow> whirl_of data = None"
  by (simp add: whirl_of_def decode_whirlpool_real_def WHIRLPOOL_ACCOUNT_SIZE_REAL_def)

text \<open>The dispatch by length that the order of the decoders comes to.\<close>

lemma handle_account_dispatch:
  assumes "handle_account lib cfg env pk data t0 = Ok t'"
  obtains t where "tr_raydium t = tr_raydium t0" and "tr_orca t = tr_orca t0" and "tr_meteora t = tr_meteora t0"
    and "tr_wallet t = tr_wallet t0" and "tr_trades_written t = tr_trades_written t0" and "tr_detector t = tr_detector t0"
    and "tr_jsonl t = tr_jsonl t0"
    and "if 653 \<le> length data \<or> length data = 256 then \<exists>w. whirl_of data = Some w \<and> orca_update lib cfg env pk w t = Ok t'
      else if SPL_TOKEN_ACCOUNT_SIZE \<le> length data
      then \<exists>spl. decode_spl_token_account data = Ok spl \<and> vault_update lib cfg env pk spl t = Ok t'
      else t' = t"
proof -
  from assms obtain n where n: "add_p (tr_events t0) 1 = (Ok n :: (u64, unit) res)"
    by (auto simp: handle_account_def bind_res_Ok_iff)
  define t where "t = t0\<lparr>tr_events := n\<rparr>"
  note run = assms [unfolded handle_account_def n bind_res.simps Let_def, folded t_def]
  have t: "tr_raydium t = tr_raydium t0" "tr_orca t = tr_orca t0" "tr_meteora t = tr_meteora t0" "tr_wallet t = tr_wallet t0"
    "tr_trades_written t = tr_trades_written t0" "tr_detector t = tr_detector t0" "tr_jsonl t = tr_jsonl t0"
    by (simp_all add: t_def)
  consider (long) "653 \<le> length data" | (old) "length data = 256"
    | (vault) "length data < 653" "length data \<noteq> 256" "SPL_TOKEN_ACCOUNT_SIZE \<le> length data"
    | (tiny) "length data < SPL_TOKEN_ACCOUNT_SIZE"
    by linarith
  then show thesis
  proof cases
    case long
    with whirl_of_long [OF long] run show ?thesis
      by (intro that [OF t]) auto
  next
    case old
    then have "\<exists>w. whirl_of data = Some w"
      by (simp add: whirl_of_def decode_whirlpool_def WHIRLPOOL_ACCOUNT_SIZE_def)
    with old run show ?thesis
      by (intro that [OF t]) auto
  next
    case vault
    moreover from this have "\<exists>spl. decode_spl_token_account data = Ok spl"
      by (simp add: decode_spl_token_account_def)
    ultimately show ?thesis
      using run whirl_of_short [OF vault(1,2)] by (intro that [OF t]) (auto simp: BIN_WINDOW_def)
  next
    case tiny
    then have "whirl_of data = None" "decode_pool_update pk data = Ok None"
      by (simp_all add: whirl_of_short SPL_TOKEN_ACCOUNT_SIZE_def decode_pool_update_def decode_lb_pair_def BIN_WINDOW_def)
    then show ?thesis
      using run tiny by (intro that [OF t]) (auto simp: BIN_WINDOW_def SPL_TOKEN_ACCOUNT_SIZE_def)
  qed
qed

section \<open>Reachable traders\<close>

text \<open>What a \<^verbatim>\<open>HashMap\<close> guarantees of its iterator.\<close>

definition iter_ok :: "trader_lib \<Rightarrow> bool" where
  "iter_ok lib \<longleftrightarrow> (\<forall>m. finite (dom m) \<longrightarrow> map_of (tl_iter lib m) = m \<and> distinct (map fst (tl_iter lib m)))"

inductive trader_reachable :: "trader_lib \<Rightarrow> trader_cfg \<Rightarrow> (u8 list \<Rightarrow> paper_wallet option) \<Rightarrow> trader \<Rightarrow> bool"
  for lib cfg from_json where
  started: "trader_start from_json ts seed d = Ok t \<Longrightarrow> trader_reachable lib cfg from_json t"
| handled: "trader_reachable lib cfg from_json t \<Longrightarrow> handle_account lib cfg env pk data t = Ok t' \<Longrightarrow>
    trader_reachable lib cfg from_json t'"

definition orca_only :: "trader \<Rightarrow> bool" where
  "orca_only t \<longleftrightarrow> tr_raydium t = Map.empty \<and> tr_meteora t = Map.empty \<and> finite (dom (tr_orca t))
    \<and> (\<forall>k p vs. tr_orca t k = Some (p, vs) \<longrightarrow> key_bytes (address p) = k \<and> kind p = OrcaWhirlpool \<and> extras p = default_extras)"

lemma orca_onlyD:
  "orca_only t \<Longrightarrow> tr_orca t k = Some (p, vs) \<Longrightarrow> key_bytes (address p) = k \<and> kind p = OrcaWhirlpool \<and> extras p = default_extras"
  unfolding orca_only_def by blast

lemma iter_empty: "iter_ok lib \<Longrightarrow> tl_iter lib Map.empty = []"
  unfolding iter_ok_def by (metis dom_empty finite.emptyI map_of_eq_empty_iff)

lemma find_parent_orca:
  assumes "iter_ok lib" and "orca_only t" and "find_parent lib pk t = Some (parent, is_base, dex)"
  shows "dex = DexOrca \<and> parent_of pk (tl_iter lib (tr_orca t)) = Some (parent, is_base)"
  using assms(2,3) by (auto simp: find_parent_def orca_only_def iter_empty [OF assms(1)] split: option.splits)

lemma with_reserve_keeps [simp]:
  "address (with_reserve b a p) = address p" "kind (with_reserve b a p) = kind p" "extras (with_reserve b a p) = extras p"
  by (simp_all add: with_reserve_def)

lemma seen_pool_sel [simp]:
  "address (seen_pool pk knd b q bd qd fee) = Pubkey pk" "kind (seen_pool pk knd b q bd qd fee) = knd"
  "extras (seen_pool pk knd b q bd qd fee) = default_extras" "base_mint (seen_pool pk knd b q bd qd fee) = b"
  "quote_mint (seen_pool pk knd b q bd qd fee) = q"
  by (simp_all add: seen_pool_def default_pool_def)

lemma orca_only_put: "orca_only t \<Longrightarrow> tr_raydium t' = tr_raydium t \<Longrightarrow> tr_meteora t' = tr_meteora t \<Longrightarrow>
    tr_orca t' = (tr_orca t)(k \<mapsto> (p, vs)) \<Longrightarrow> key_bytes (address p) = k \<Longrightarrow> kind p = OrcaWhirlpool \<Longrightarrow> extras p = default_extras \<Longrightarrow>
    orca_only t'"
  by (auto simp: orca_only_def)

lemma orca_only_cong: "orca_only t \<Longrightarrow> same_maps t t' \<Longrightarrow> orca_only t'"
  by (simp add: orca_only_def same_maps_iff)

lemma vault_update_orca_only:
  assumes "iter_ok lib" and "orca_only t" and run: "vault_update lib cfg env pk spl t = Ok t'"
  shows "orca_only t'"
proof (cases "find_parent lib pk t")
  case None
  then show ?thesis
    using vault_update_result [OF run] orca_only_cong [OF assms(2)] by auto
next
  case (Some found)
  then obtain parent is_base where found: "find_parent lib pk t = Some (parent, is_base, DexOrca)"
    using find_parent_orca [OF assms(1,2)] by (cases found) blast
  show ?thesis
  proof (cases "tr_orca t parent")
    case None
    then show ?thesis
      using vault_update_result [OF run] orca_only_cong [OF assms(2)] by (simp add: found)
  next
    case (Some entry)
    obtain p0 vs where "tr_orca t parent = Some (p0, vs)"
      using Some by (cases entry) auto
    with vault_update_result [OF run] found have
      put: "tr_orca t' = (tr_orca t)(parent \<mapsto> (with_reserve is_base (st_amount spl) p0, vs))"
      and rest: "\<forall>d. d \<noteq> DexOrca \<longrightarrow> tracked_of d t' = tracked_of d t"
      by simp_all
    have same: "tr_raydium t' = tr_raydium t" "tr_meteora t' = tr_meteora t"
      using rest [rule_format, of DexRaydium] rest [rule_format, of DexMeteora] by simp_all
    have "key_bytes (address p0) = parent \<and> kind p0 = OrcaWhirlpool \<and> extras p0 = default_extras"
      using orca_onlyD [OF assms(2) \<open>tr_orca t parent = Some (p0, vs)\<close>] .
    then show ?thesis
      by (intro orca_only_put [OF assms(2) same put]) simp_all
  qed
qed

lemma handle_account_orca_only:
  assumes "iter_ok lib" and "orca_only t0" and "handle_account lib cfg env pk data t0 = Ok t'"
  shows "orca_only t'"
proof -
  from assms(3) obtain t where t: "tr_raydium t = tr_raydium t0" "tr_orca t = tr_orca t0" "tr_meteora t = tr_meteora t0"
    and run: "if 653 \<le> length data \<or> length data = 256 then \<exists>w. whirl_of data = Some w \<and> orca_update lib cfg env pk w t = Ok t'
      else if SPL_TOKEN_ACCOUNT_SIZE \<le> length data
      then \<exists>spl. decode_spl_token_account data = Ok spl \<and> vault_update lib cfg env pk spl t = Ok t'
      else t' = t"
    by (rule handle_account_dispatch)
  have ok: "orca_only t"
    using assms(2) t by (simp add: orca_only_def)
  show ?thesis
  proof (cases "653 \<le> length data \<or> length data = 256")
    case True
    with run obtain w where "orca_update lib cfg env pk w t = Ok t'"
      by auto
    note r = orca_update_result [OF this]
    then have "tr_raydium t' = tr_raydium t" "tr_meteora t' = tr_meteora t"
      by simp_all
    from orca_only_put [OF ok this conjunct1 [OF r]] show ?thesis
      by simp
  next
    case False
    then show ?thesis
      using run ok vault_update_orca_only [OF assms(1) ok] by (auto split: if_splits)
  qed
qed

lemma reachable_orca_only: "trader_reachable lib cfg from_json t \<Longrightarrow> iter_ok lib \<Longrightarrow> orca_only t"
proof (induction rule: trader_reachable.induct)
  case (started ts seed d t)
  then show ?case
    by (auto simp: trader_start_def orca_only_def bind_res_Ok_iff)
qed (rule handle_account_orca_only)

lemma vault_update_booked: "vault_update lib cfg env pk spl t = Ok t' \<Longrightarrow> \<exists>reg. booked_on cfg reg t t'"
  by (drule vault_update_result) (auto split: option.splits)

lemma handle_account_booked:
  assumes "handle_account lib cfg env pk data t0 = Ok t'"
  shows "\<exists>reg. booked_on cfg reg t0 t'"
proof -
  from assms obtain t where t: "tr_wallet t = tr_wallet t0" "tr_trades_written t = tr_trades_written t0"
    and run: "if 653 \<le> length data \<or> length data = 256 then \<exists>w. whirl_of data = Some w \<and> orca_update lib cfg env pk w t = Ok t'
      else if SPL_TOKEN_ACCOUNT_SIZE \<le> length data
      then \<exists>spl. decode_spl_token_account data = Ok spl \<and> vault_update lib cfg env pk spl t = Ok t'
      else t' = t"
    by (rule handle_account_dispatch)
  have "\<exists>reg. booked_on cfg reg t t'"
    using run orca_update_result vault_update_booked booked_on_same_wallet [OF refl refl] by (metis (no_types, lifting))
  then show ?thesis
    unfolding booked_on_def t .
qed

text \<open>The live paper trader knows one exchange only. A Whirlpool is recognised by its length alone, and by
  any length from 653 bytes on, before the other decoders are asked; so every Raydium pool (752 bytes) and
  every Meteora pool (2236 bytes and more) is tracked as an Orca pool, with mints and vaults read from where
  a Whirlpool would have them, and on every run no Raydium or Meteora pool is ever tracked.\<close>

theorem live_trader_only_orca:
  assumes "trader_reachable lib cfg from_json t" and "iter_ok lib"
    and "handle_account lib cfg env pk data t = Ok t'"
  shows "tr_raydium t' = Map.empty \<and> tr_meteora t' = Map.empty
    \<and> (653 \<le> length data \<longrightarrow> (\<exists>p. tr_orca t' pk = Some (p, Pubkey (bytes_at data 152 184), Pubkey (bytes_at data 184 216))
        \<and> kind p = OrcaWhirlpool \<and> base_mint p = Pubkey (bytes_at data 88 120) \<and> quote_mint p = Pubkey (bytes_at data 120 152)))"
proof -
  have "orca_only t'"
    using handle_account_orca_only [OF assms(2) reachable_orca_only [OF assms(1,2)] assms(3)] .
  moreover have "\<exists>p. tr_orca t' pk = Some (p, Pubkey (bytes_at data 152 184), Pubkey (bytes_at data 184 216))
        \<and> kind p = OrcaWhirlpool \<and> base_mint p = Pubkey (bytes_at data 88 120) \<and> quote_mint p = Pubkey (bytes_at data 120 152)"
    if long: "653 \<le> length data"
  proof -
    from assms(3) obtain u where "if 653 \<le> length data \<or> length data = 256
      then \<exists>w. whirl_of data = Some w \<and> orca_update lib cfg env pk w u = Ok t'
      else if SPL_TOKEN_ACCOUNT_SIZE \<le> length data
      then \<exists>spl. decode_spl_token_account data = Ok spl \<and> vault_update lib cfg env pk spl u = Ok t'
      else t' = u"
      by (rule handle_account_dispatch)
    with long whirl_of_long [OF long] obtain w where w: "orca_update lib cfg env pk w u = Ok t'"
      "wp_token_mint_x w = Pubkey (bytes_at data 88 120)" "wp_token_mint_y w = Pubkey (bytes_at data 120 152)"
      "wp_token_vault_x w = Pubkey (bytes_at data 152 184)" "wp_token_vault_y w = Pubkey (bytes_at data 184 216)"
      by auto
    from orca_update_result [OF w(1)] show ?thesis
      by (simp add: w(2-))
  qed
  ultimately show ?thesis
    by (simp add: orca_only_def)
qed

text \<open>The books of a run that started with a new wallet.\<close>

definition fresh_books :: "trader_cfg \<Rightarrow> trader \<Rightarrow> bool" where
  "fresh_books cfg t \<longleftrightarrow> wallet_ok (tr_wallet t) \<and> pw_starting_balance_lamports (tr_wallet t) = 10000000000
    \<and> unat (tr_trades_written t) = length (pw_trades (tr_wallet t))
    \<and> (\<forall>x\<in>set (pw_trades (tr_wallet t)). \<exists>reg cs. sound_trade cfg reg cs x)"

lemma handle_account_books:
  assumes "handle_account lib cfg env pk data t = Ok t'" and "fresh_books cfg t"
  shows "fresh_books cfg t'"
proof -
  from handle_account_booked [OF assms(1)] obtain reg cs new where
    "pw_trades (tr_wallet t') = pw_trades (tr_wallet t) @ new" "list_all (sound_trade cfg reg cs) new"
    "unat (tr_trades_written t') = unat (tr_trades_written t) + length new"
    "wallet_ok (tr_wallet t) \<longrightarrow> wallet_ok (tr_wallet t')"
    "pw_starting_balance_lamports (tr_wallet t') = pw_starting_balance_lamports (tr_wallet t)"
    by (auto simp: booked_on_def)
  then show ?thesis
    using assms(2) by (auto simp: fresh_books_def list_all_iff)
qed

lemma paper_run_keeps_books:
  "paper_run lib cfg deadline ks t = Ok (t', stopped) \<Longrightarrow> fresh_books cfg t \<Longrightarrow> fresh_books cfg t'"
proof (induction ks arbitrary: t)
  case (Cons k ks)
  show ?case
  proof (cases "deadline \<le> tt_elapsed k \<or> (\<nexists>s pk data. tt_event k = Some (AccountUpdate s pk data))")
    case True
    then show ?thesis
      using Cons by (auto split: if_splits option.splits feed_event.splits)
  next
    case False
    then obtain s pk data where "tt_event k = Some (AccountUpdate s pk data)" "\<not> deadline \<le> tt_elapsed k"
      by auto
    with Cons.prems(1) obtain u where "handle_account lib cfg (tt_env k) pk data t = Ok u"
      "paper_run lib cfg deadline ks u = Ok (t', stopped)"
      by (auto simp: bind_res_Ok_iff)
    then show ?thesis
      using Cons.IH handle_account_books Cons.prems(2) by blast
  qed
qed simp


lemma parent_of_mem: "parent_of pk m = Some (k, is_base) \<Longrightarrow> \<exists>v. (k, v) \<in> set m"
  by (induction pk m rule: parent_of.induct) (auto split: if_splits)

lemma registry_of_last:
  "distinct (map (\<lambda>p. key_bytes (address p)) ps) \<Longrightarrow> p \<in> set ps \<Longrightarrow>
    registry_get (registry_of ps) (key_bytes (address p)) = Some p"
proof (induction ps rule: rev_induct)
  case (snoc q ps)
  then show ?case
    by (auto simp: registry_of_def registry.get_insert split: if_splits dest: rev_image_eqI [OF _ sym])
qed simp

text \<open>A vault update books at yesterday's reserves. The detector sees the pool with its new reserve, but the pool
  is put back only after the booking, so the registry every trade of this update is priced on still holds the
  pool as it was before.\<close>

theorem vault_update_books_old_reserves:
  assumes "trader_reachable lib cfg from_json t" and "iter_ok lib"
    and "handle_account lib cfg env pk data t = Ok t'"
    and "SPL_TOKEN_ACCOUNT_SIZE \<le> length data" and "length data < 653" and "length data \<noteq> 256"
    and "parent_of pk (tl_iter lib (tr_orca t)) = Some (parent, is_base)"
  shows "\<exists>p0 vs reg. tr_orca t parent = Some (p0, vs)
    \<and> tr_orca t' parent = Some (with_reserve is_base (word_from_le (bytes_at data 64 72)) p0, vs)
    \<and> registry_get reg parent = Some p0 \<and> booked_on cfg reg t t'"
proof -
  from assms(3) obtain u where u: "tr_raydium u = tr_raydium t" "tr_orca u = tr_orca t" "tr_meteora u = tr_meteora t"
    "tr_wallet u = tr_wallet t" "tr_trades_written u = tr_trades_written t"
    and "if 653 \<le> length data \<or> length data = 256 then \<exists>w. whirl_of data = Some w \<and> orca_update lib cfg env pk w u = Ok t'
      else if SPL_TOKEN_ACCOUNT_SIZE \<le> length data
      then \<exists>spl. decode_spl_token_account data = Ok spl \<and> vault_update lib cfg env pk spl u = Ok t'
      else t' = u"
    by (rule handle_account_dispatch)
  with assms(4-6) obtain spl where spl: "decode_spl_token_account data = Ok spl"
    and run: "vault_update lib cfg env pk spl u = Ok t'"
    by auto
  have amount: "st_amount spl = word_from_le (bytes_at data 64 72)"
    using spl by (auto simp: decode_spl_token_account_def split: if_splits)
  have ok: "orca_only t" "orca_only u"
    using reachable_orca_only [OF assms(1,2)] u by (simp_all add: orca_only_def)
  then have m: "map_of (tl_iter lib (tr_orca t)) = tr_orca t" "distinct (map fst (tl_iter lib (tr_orca t)))"
    using assms(2) by (simp_all add: orca_only_def iter_ok_def)
  obtain p0 vs where p0: "tr_orca t parent = Some (p0, vs)" "(parent, p0, vs) \<in> set (tl_iter lib (tr_orca t))"
    using parent_of_mem [OF assms(7)] map_of_is_SomeI [OF m(2)] m(1) by fastforce
  have find: "find_parent lib pk u = Some (parent, is_base, DexOrca)"
    using ok(2) assms(7) by (simp add: find_parent_def orca_only_def iter_empty [OF assms(2)] u(2))
  have snap: "snapshot_all_pools lib u = map (\<lambda>(_, p, _, _). p) (tl_iter lib (tr_orca t))"
    using ok(2) by (simp add: snapshot_all_pools_def orca_only_def iter_empty [OF assms(2)] u(2))
  have key: "key_bytes (address p) = k" if "(k, p, bv, qv) \<in> set (tl_iter lib (tr_orca t))" for k p bv qv
    using orca_onlyD [OF ok(1)] map_of_is_SomeI [OF m(2) that] m(1) by simp
  then have "map (\<lambda>p. key_bytes (address p)) (snapshot_all_pools lib u) = map fst (tl_iter lib (tr_orca t))"
    unfolding snap by (auto simp: comp_def)
  then have "distinct (map (\<lambda>p. key_bytes (address p)) (snapshot_all_pools lib u))"
    using m(2) by simp
  moreover have "p0 \<in> set (snapshot_all_pools lib u)"
    unfolding snap using p0(2) by force
  ultimately have "registry_get (registry_of (snapshot_all_pools lib u)) (key_bytes (address p0)) = Some p0"
    by (rule registry_of_last)
  moreover have "key_bytes (address p0) = parent"
    using orca_onlyD [OF ok(1) p0(1)] by simp
  moreover have "booked_on cfg (registry_of (snapshot_all_pools lib u)) u t'"
    "tr_orca t' = (tr_orca u)(parent \<mapsto> (with_reserve is_base (st_amount spl) p0, vs))"
    using vault_update_result [OF run] p0(1) by (simp_all add: find u(2))
  ultimately show ?thesis
    using p0(1) amount u by (intro exI [of _ p0] exI [of _ vs] exI [of _ "registry_of (snapshot_all_pools lib u)"])
      (simp add: booked_on_def)
qed

section \<open>The live price graph\<close>

text \<open>The tokens of the placeholder, and every edge between the first two tokens.\<close>

definition two_token_graph :: "streaming_graph \<Rightarrow> bool" where
  "two_token_graph s \<longleftrightarrow> tokens (sg_graph s) = [base_mint placeholder_pool, quote_mint placeholder_pool] \<and> index_ok s
    \<and> (\<forall>e\<in>set (edges (sg_graph s)). edge_from e \<in> {TokenId 0, TokenId 1} \<and> edge_to e \<in> {TokenId 0, TokenId 1})"

lemma single_pool_ends:
  assumes "build_from_pools [p] = Ok g" and "e \<in> set (edges g)"
  shows "edge_from e \<in> {TokenId 0, TokenId 1} \<and> edge_to e \<in> {TokenId 0, TokenId 1}"
  using assms
  by (auto simp: build_from_pools_def add_pool_def bind_res_Ok_iff Let_def push_edge_def intern_token_new intern_token_second
      split: prod.splits if_splits)

lemma updated_edges_ends:
  "e \<in> set (updated_edges p es) \<Longrightarrow> \<exists>e0\<in>set es. edge_from e = edge_from e0 \<and> edge_to e = edge_to e0"
  by (force simp: updated_edges_def)

lemma two_token_update:
  assumes "two_token_graph s" and "update_pool p s = Ok (b, s')"
  shows "two_token_graph s'"
proof -
  have ok: "index_ok s"
    using assms(1) by (simp add: two_token_graph_def)
  have "tokens (sg_graph s') = tokens (sg_graph s)"
    "edges (sg_graph s') = edges (sg_graph s) \<or> edges (sg_graph s') = updated_edges p (edges (sg_graph s))"
    using update_pool_value [OF ok, of p] assms(2) by (auto split: if_splits)
  then show ?thesis
    using assms(1) index_ok_update [OF ok assms(2)] updated_edges_ends unfolding two_token_graph_def by metis
qed

lemma two_token_add:
  assumes "two_token_graph s" and "streaming_add_pool p s = Ok (b, s')"
  shows "two_token_graph s'"
proof (cases "pool_to_edges s (pool_key (address p)) = None \<and> (\<exists>g. build_from_pools [p] = Ok g)")
  case False
  then have "s' = s"
    using assms(2) by (auto simp: streaming_add_pool_def Let_def split: res.splits if_splits)
  then show ?thesis
    using assms(1) by simp
next
  case True
  then obtain g where g: "build_from_pools [p] = Ok g"
    by blast
  with True assms(2) have "tokens (sg_graph s') = tokens (sg_graph s)" "edges (sg_graph s') = edges (sg_graph s) @ edges g"
    by (auto simp: streaming_add_pool_def Let_def)
  moreover have "index_ok s'"
    using assms by (intro index_ok_add [OF _ assms(2)]) (simp add: two_token_graph_def)
  ultimately show ?thesis
    using assms(1) single_pool_ends [OF g] by (auto simp: two_token_graph_def)
qed

lemma two_token_on_pool_update:
  "two_token_graph s \<Longrightarrow> on_pool_update p s = Ok (cs, s') \<Longrightarrow> two_token_graph s'"
  by (auto simp: on_pool_update_def bind_res_Ok_iff split: if_splits) (meson two_token_update two_token_add)+

lemma two_token_start:
  assumes "start_detector = Ok s"
  shows "two_token_graph s"
proof -
  have "streaming_new [placeholder_pool] = Ok s"
    using assms by (auto simp: start_detector_def streaming_new_def build_from_pools_def split: res.splits)
  moreover from this obtain g where g: "build_from_pools [placeholder_pool] = Ok g" "sg_graph s = g"
    by (auto simp: streaming_new_def bind_res_Ok_iff)
  moreover have "base_mint placeholder_pool \<noteq> quote_mint placeholder_pool"
    by (simp add: placeholder_pool_def)
  ultimately show ?thesis
    using index_ok_new single_pool_ends [OF g(1)] single_pool_graph [OF g(1)] unfolding two_token_graph_def by metis
qed

lemma detect_two_token:
  assumes "two_token_graph (tr_detector t)" and "detect_and_write lib cfg env p t = Ok t'"
  shows "two_token_graph (tr_detector t')"
proof -
  from assms(2) obtain reg cs det n where det: "on_pool_update p (tr_detector t) = Ok (cs, det)"
    and run: "write_cycles lib cfg env reg cs (t\<lparr>tr_detector := det, tr_cycles_evaluated := n\<rparr>) = Ok t'"
    by (auto simp: detect_and_write_def bind_res_Ok_iff split: res.splits)
  from write_cycles_booked [OF run] have "tr_detector t' = det"
    by (auto simp: one_booked_def same_tracking_def)
  then show ?thesis
    using two_token_on_pool_update [OF assms(1) det] by simp
qed

lemma put_tracked_detector [simp]: "tr_detector (put_tracked dex k v u) = tr_detector u"
  by (cases dex) simp_all

lemma vault_update_detector:
  assumes "vault_update lib cfg env pk spl t = Ok t'"
  shows "tr_detector t' = tr_detector t
    \<or> (\<exists>p t1 t2. tr_detector t1 = tr_detector t \<and> detect_and_write lib cfg env p t1 = Ok t2 \<and> tr_detector t' = tr_detector t2)"
proof -
  from assms obtain n where n: "add_p (tr_vault_updates t) 1 = (Ok n :: (u64, unit) res)"
    by (auto simp: vault_update_def bind_res_Ok_iff)
  define t1 where "t1 = t\<lparr>tr_vault_updates := n\<rparr>"
  have t1: "tr_detector t1 = tr_detector t"
    by (simp add: t1_def)
  note run = assms [unfolded vault_update_def n bind_res.simps Let_def, folded t1_def]
  show ?thesis
  proof (cases "find_parent lib pk t1")
    case (Some found)
    obtain parent is_base dex where found: "found = (parent, is_base, dex)"
      by (cases found)
    show ?thesis
    proof (cases "tracked_of dex t1 parent")
      case at: (Some entry)
      obtain p0 bv qv where entry: "entry = (p0, bv, qv)"
        by (cases entry)
      define p where "p = with_reserve is_base (st_amount spl) p0"
      note run = run [unfolded Some found at entry option.case prod.case p_def [symmetric]]
      show ?thesis
      proof (cases "0 < base_reserve p \<and> 0 < quote_reserve p")
        case True
        with run obtain t2 where "detect_and_write lib cfg env p t1 = Ok t2" "tr_detector t' = tr_detector t2"
          by (auto simp: bind_res_Ok_iff)
        with t1 show ?thesis
          by blast
      qed (use run t1 in auto)
    qed (use run t1 Some found in simp)
  qed (use run t1 in simp)
qed

lemma handle_account_two_token:
  assumes "two_token_graph (tr_detector t0)" and "handle_account lib cfg env pk data t0 = Ok t'"
  shows "two_token_graph (tr_detector t')"
proof -
  from assms(2) obtain t where t: "tr_detector t = tr_detector t0"
    and run: "if 653 \<le> length data \<or> length data = 256 then \<exists>w. whirl_of data = Some w \<and> orca_update lib cfg env pk w t = Ok t'
      else if SPL_TOKEN_ACCOUNT_SIZE \<le> length data
      then \<exists>spl. decode_spl_token_account data = Ok spl \<and> vault_update lib cfg env pk spl t = Ok t'
      else t' = t"
    by (rule handle_account_dispatch)
  note ok = assms(1) [folded t]
  have orca: "two_token_graph (tr_detector t')" if "orca_update lib cfg env pk w t = Ok t'" for w
    using that ok by (auto simp: orca_update_def Let_def bind_res_Ok_iff subscribe_vault_def intro: detect_two_token [rotated])
  have vault: "two_token_graph (tr_detector t')" if "vault_update lib cfg env pk spl t = Ok t'" for spl
    using vault_update_detector [OF that] ok by (metis detect_two_token)
  show ?thesis
    using run ok orca vault by (auto split: if_splits)
qed

text \<open>The live price graph only ever knows the two made-up tokens of its placeholder. Whatever mints a tracked
  pool has, its edges run between those two, so any two pools make cycles, of tokens that have
  nothing to do with each other.\<close>

theorem live_graph_has_two_tokens:
  assumes "trader_reachable lib cfg from_json t"
  shows "tokens (sg_graph (tr_detector t)) = [Pubkey (replicate 32 1), Pubkey (replicate 32 2)]
    \<and> (\<forall>e\<in>set (edges (sg_graph (tr_detector t))). edge_from e \<in> {TokenId 0, TokenId 1} \<and> edge_to e \<in> {TokenId 0, TokenId 1})"
proof -
  have "two_token_graph (tr_detector t)"
    using assms
  proof (induction rule: trader_reachable.induct)
    case (started ts seed d t)
    then show ?case
      by (auto simp: trader_start_def bind_res_Ok_iff two_token_start)
  qed (rule handle_account_two_token)
  then show ?thesis
    by (simp add: two_token_graph_def placeholder_pool_def)
qed

section \<open>A running trader\<close>

definition placeholder_graph :: graph where
  "placeholder_graph = \<lparr>tokens = [Pubkey (replicate 32 1), Pubkey (replicate 32 2)],
    token_index = [replicate 32 1 \<mapsto> TokenId 0, replicate 32 2 \<mapsto> TokenId 1],
    edges = [\<lparr>edge_from = TokenId 0, edge_to = TokenId 1, edge_weight = 3000000000000000,
        edge_pool = Pubkey (replicate 32 0xFE), is_base_to_quote = True, dex_id = RaydiumAmmV4\<rparr>,
      \<lparr>edge_from = TokenId 1, edge_to = TokenId 0, edge_weight = 3000000000000000,
        edge_pool = Pubkey (replicate 32 0xFE), is_base_to_quote = False, dex_id = RaydiumAmmV4\<rparr>]\<rparr>"

lemma build_placeholder: "build_from_pools [placeholder_pool] = Ok placeholder_graph"
proof -
  have fee: "fee_multiplier_1e18 30 = Ok 997000000000000000"
    by (simp add: fee_multiplier_1e18_def sat_sub_w_def sat_mul_w_def ONE_1E18_def)
  have rate: "effective_rate_1e18 1000000000 1000000000 997000000000000000 = Ok 997000000000000000"
    using effective_rate_value [of 997000000000000000 30 1000000000 1000000000] by (simp add: rate_nat_def)
  show ?thesis
    by (simp add: placeholder_pool_def default_pool_def build_from_pools_def add_pool_def graph_new_def intern_token_def
        Let_def fee rate weight_word weight_spec_def clamp_i_def smin_def smax_def push_edge_def placeholder_graph_def
        cong: bind_res_weak_cong)
qed
definition placeholder_stream :: streaming_graph where
  "placeholder_stream = \<lparr>sg_graph = placeholder_graph,
    pool_to_edges = index_edges (enumerate 0 (edges placeholder_graph)) Map.empty\<rparr>"

lemma new_placeholder: "streaming_new [placeholder_pool] = Ok placeholder_stream"
  by (simp add: streaming_new_def build_placeholder placeholder_stream_def)

lemma start_placeholder: "start_detector = Ok placeholder_stream"
  by (simp add: start_detector_def streaming_new_def [of "[]"] build_from_pools_def new_placeholder)

lemma detect_placeholder: "streaming_detect placeholder_stream = Ok []"
  by (simp add: streaming_detect_def placeholder_stream_def placeholder_graph_def search_run cong: bind_res_weak_cong)

lemma empty_pool_ignored:
  assumes "base_reserve p = 0" and "fee_bps p \<le> 10000" and "index_ok s"
    and "\<forall>e\<in>set (edges (sg_graph s)). \<not> same_key p e" and "streaming_detect s = Ok []"
  shows "on_pool_update p s = Ok ([], s)"
proof -
  obtain m where fee: "fee_multiplier_1e18 (fee_bps p) = Ok m"
    using assms(2) unfolding fee_multiplier_1e18_def by (simp add: linorder_not_less [symmetric])
  have "\<exists>e. build_from_pools [p] = Err e"
    using effective_rate_value [OF fee_multiplier_value [OF fee, THEN conjunct1], of "quote_reserve p" 0] assms(1)
    by (auto simp: build_from_pools_def add_pool_def fee split: prod.split)
  then have add: "streaming_add_pool p s = Ok (False, s)"
    by (auto simp: streaming_add_pool_def Let_def)
  show ?thesis
    using assms(4) by (simp add: on_pool_update_def update_pool_value [OF assms(3)] add assms(5))
qed

definition sorted_iter :: "tracked_map \<Rightarrow> (u8 list \<times> tracked) list" where
  "sorted_iter m = map (\<lambda>k. (k, the (m k))) (sorted_list_of_set (dom m))"

definition sample_lib :: trader_lib where
  "sample_lib = \<lparr>tl_iter = sorted_iter, tl_to_json = (\<lambda>_. Some []), tl_show_cycle = (\<lambda>_. '''')\<rparr>"

lemma sample_lib_iter: "iter_ok sample_lib"
proof -
  have "map_of (map (\<lambda>k. (k, the (m k))) (sorted_list_of_set (dom m))) = m" if "finite (dom m)" for m :: tracked_map
    using that by (intro map_of_map_keys) simp
  then show ?thesis
    by (simp add: iter_ok_def sample_lib_def sorted_iter_def comp_def)
qed

definition sample_cfg :: trader_cfg where
  "sample_cfg = \<lparr>tc_optimistic = params_optimistic, tc_conservative = params_optimistic, tc_cost = no_cost,
    tc_max_input = 1000, tc_realistic = False, tc_path = [Normal ''wallet.json'']\<rparr>"

definition calm_env :: trader_env where
  "calm_env = \<lparr>te_subscribe_ok = (\<lambda>_. True), te_now = (\<lambda>_. 5), te_write_stops = (\<lambda>_. None),
    te_rename_ok = (\<lambda>_. True), te_append_ok = (\<lambda>_. True)\<rparr>"

definition sample_start :: trader where
  "sample_start = \<lparr>tr_raydium = Map.empty, tr_orca = Map.empty, tr_meteora = Map.empty, tr_subscribed = {},
    tr_detector = placeholder_stream, tr_wallet = wallet_new 0 10000000000, tr_disk = \<lparr>wd_file = None, wd_tmp = None\<rparr>,
    tr_jsonl = [], tr_rng = 7, tr_events = 0, tr_pools_seen = 0, tr_vault_updates = 0, tr_cycles_evaluated = 0,
    tr_trades_written = 0\<rparr>"

lemma sample_started: "trader_start (\<lambda>_. None) 0 7 \<lparr>wd_file = None, wd_tmp = None\<rparr> = Ok sample_start"
  by (simp add: trader_start_def start_placeholder start_wallet_def sample_start_def)

text \<open>A Raydium pool state.\<close>

definition raydium_blob :: "u8 list" where
  "raydium_blob = 6 # replicate 335 0 @ replicate 32 1 @ replicate 32 2 @ replicate 32 3 @ replicate 32 4 @ replicate 288 0"

lemma handle_raydium_blob_state:
  "\<exists>t' b q. handle_account sample_lib sample_cfg calm_env [9] raydium_blob sample_start = Ok t'
    \<and> tr_orca t' = [[9] \<mapsto> (seen_pool [9] OrcaWhirlpool b q 9 6 0, Pubkey (replicate 32 0), Pubkey (replicate 32 0))]
    \<and> tr_raydium t' = Map.empty \<and> tr_meteora t' = Map.empty \<and> tr_events t' = 1 \<and> tr_vault_updates t' = 0"
proof -
  have len: "length raydium_blob = 752"
    by (simp add: raydium_blob_def)
  obtain w where w: "whirl_of raydium_blob = Some w" "wp_fee_rate w = 0"
    "wp_token_vault_x w = Pubkey (replicate 32 0)" "wp_token_vault_y w = Pubkey (replicate 32 0)"
    by (simp add: whirl_of_def len decode_whirlpool_real_def WHIRLPOOL_ACCOUNT_SIZE_REAL_def simplified_whirlpool_def
        bytes_at_def raydium_blob_def word_from_le_def numeral_2_eq_2)
  define p where "p = seen_pool [9] OrcaWhirlpool (wp_token_mint_x w) (wp_token_mint_y w) 9 6 0"
  have "replicate 8 (254 :: u8) = [254, 254, 254, 254, 254, 254, 254, 254]"
    by (simp add: numeral_eq_Suc)
  then have "\<forall>e\<in>set (edges (sg_graph placeholder_stream)). \<not> same_key p e"
    by (simp add: placeholder_stream_def placeholder_graph_def same_key_def pool_key_def p_def u64_from_le_def)
  moreover have "index_ok placeholder_stream"
    by (rule index_ok_new [OF new_placeholder])
  ultimately have "on_pool_update p placeholder_stream = Ok ([], placeholder_stream)"
    by (intro empty_pool_ignored) (simp_all add: p_def seen_pool_def default_pool_def detect_placeholder)
  then show ?thesis
    by (simp add: handle_account_def w orca_update_def p_def detect_and_write_def sample_start_def subscribe_vault_def
        Let_def add_p_def) blast
qed
lemma handle_raydium_blob: "\<exists>t'. handle_account sample_lib sample_cfg calm_env [9] raydium_blob sample_start = Ok t'"
  using handle_raydium_blob_state by blast

lemma raydium_blob_valid: "\<exists>amm. decode_amm_info raydium_blob = Ok amm"
proof -
  have "bytes_at raydium_blob 0 (0 + 8) = [6, 0, 0, 0, 0, 0, 0, 0]"
    by (simp add: bytes_at_def raydium_blob_def numeral_eq_Suc)
  then show ?thesis
    by (simp add: decode_amm_info_def AMM_INFO_SIZE_def raydium_blob_def Let_def word_from_le_def)
qed

lemma live_trader_only_orca_witness:
  "\<exists>t' p vs. handle_account sample_lib sample_cfg calm_env [9] raydium_blob sample_start = Ok t'
    \<and> (\<exists>amm. decode_amm_info raydium_blob = Ok amm) \<and> tr_raydium t' = Map.empty
    \<and> tr_orca t' [9] = Some (p, vs) \<and> kind p = OrcaWhirlpool"
proof -
  obtain t' where t': "handle_account sample_lib sample_cfg calm_env [9] raydium_blob sample_start = Ok t'"
    using handle_raydium_blob by blast
  have "653 \<le> length raydium_blob"
    by (simp add: raydium_blob_def)
  with live_trader_only_orca [OF started [OF sample_started] sample_lib_iter t'] show ?thesis
    using t' raydium_blob_valid by auto
qed

lemma live_graph_has_two_tokens_witness:
  "\<exists>t'. handle_account sample_lib sample_cfg calm_env [9] raydium_blob sample_start = Ok t'
    \<and> length (tokens (sg_graph (tr_detector t'))) = 2"
proof -
  obtain t' where t': "handle_account sample_lib sample_cfg calm_env [9] raydium_blob sample_start = Ok t'"
    using handle_raydium_blob by blast
  from live_graph_has_two_tokens [OF handled [OF started [OF sample_started] t']] show ?thesis
    using t' by auto
qed


definition vault_blob :: "u8 list" where
  "vault_blob = replicate 64 0 @ 5 # replicate 100 0"

lemma vault_update_books_old_reserves_witness:
  "\<exists>t t' p0 vs. handle_account sample_lib sample_cfg calm_env (replicate 32 0) vault_blob t = Ok t'
    \<and> tr_orca t [9] = Some (p0, vs) \<and> base_reserve p0 = 0
    \<and> tr_orca t' [9] = Some (p0\<lparr>base_reserve := 5\<rparr>, vs)
    \<and> (\<exists>reg. registry_get reg [9] = Some p0 \<and> booked_on sample_cfg reg t t')"
proof -
  obtain t b q where t: "handle_account sample_lib sample_cfg calm_env [9] raydium_blob sample_start = Ok t"
    "tr_orca t = [[9] \<mapsto> (seen_pool [9] OrcaWhirlpool b q 9 6 0, Pubkey (replicate 32 0), Pubkey (replicate 32 0))]"
    "tr_raydium t = Map.empty" "tr_meteora t = Map.empty" "tr_events t = 1" "tr_vault_updates t = 0"
    using handle_raydium_blob_state by blast
  have reach: "trader_reachable sample_lib sample_cfg (\<lambda>_. None) t"
    by (rule handled [OF started [OF sample_started] t(1)])
  have len: "length vault_blob = 165"
    by (simp add: vault_blob_def)
  have spl: "decode_spl_token_account vault_blob = Ok \<lparr>st_mint = Pubkey (replicate 32 0), st_amount = 5\<rparr>"
  proof -
    have "bytes_at vault_blob 64 72 = [5, 0, 0, 0, 0, 0, 0, 0]" "bytes_at vault_blob 0 32 = replicate 32 0"
      by (simp_all add: bytes_at_def vault_blob_def numeral_eq_Suc)
    then show ?thesis
      by (simp add: decode_spl_token_account_def len SPL_TOKEN_ACCOUNT_SIZE_def word_from_le_def)
  qed
  have parent: "parent_of (replicate 32 0) (tl_iter sample_lib (tr_orca t)) = Some ([9], True)"
    by (simp add: sample_lib_def sorted_iter_def t(2))
  have "\<exists>t'. handle_account sample_lib sample_cfg calm_env (replicate 32 0) vault_blob t = Ok t'"
    using whirl_of_short [of vault_blob] parent
    by (simp add: handle_account_def len BIN_WINDOW_def SPL_TOKEN_ACCOUNT_SIZE_def spl vault_update_def find_parent_def
        add_p_def t(2-6) Let_def with_reserve_def seen_pool_def default_pool_def sample_lib_def sorted_iter_def)
  then obtain t' where run: "handle_account sample_lib sample_cfg calm_env (replicate 32 0) vault_blob t = Ok t'"
    by blast
  from vault_update_books_old_reserves [OF reach sample_lib_iter run _ _ _ parent] obtain p0 vs reg where
    "tr_orca t [9] = Some (p0, vs)" "tr_orca t' [9] = Some (with_reserve True (word_from_le (bytes_at vault_blob 64 72)) p0, vs)"
    "registry_get reg [9] = Some p0" "booked_on sample_cfg reg t t'"
    by (auto simp: len SPL_TOKEN_ACCOUNT_SIZE_def)
  moreover from this have "base_reserve p0 = 0"
    by (simp add: t(2) seen_pool_def) (auto simp: default_pool_def)
  moreover have "word_from_le (bytes_at vault_blob 64 72) = (5 :: u64)"
    using spl by (simp add: decode_spl_token_account_def len SPL_TOKEN_ACCOUNT_SIZE_def)
  ultimately show ?thesis
    using run by (intro exI [of _ t] exI [of _ t'] exI [of _ p0] exI [of _ vs]) (auto simp: with_reserve_def)
qed

end
