(* ===== verification/Fault.thy ===== *)
theory Fault
  imports Capture "HOL-Library.Multiset"
begin

text \<open>
  The fault-injection middlewares of \<^verbatim>\<open>crates/dl-recon/src/fault.rs\<close>: feeds that wrap a feed and drop,
  corrupt, delay, reorder or cut what it delivers, driven by a seeded generator. A feed is a function that
  pulls the next event; every middleware is a function from such functions to such functions, so they stack as
  the generic structs of the source do. Every one is proved to satisfy the contract of a feed when the
  wrapped one does, with what it delivers as a function of what the wrapped one delivers.
\<close>

section \<open>The generator\<close>

record jitter_rng =
  jg_state :: u64

definition jitter_from_seed :: "u64 \<Rightarrow> jitter_rng" where
  "jitter_from_seed seed = \<lparr>jg_state = seed OR 1\<rparr>"

definition jitter_next_u64 :: "jitter_rng \<Rightarrow> u64 \<times> jitter_rng" where
  "jitter_next_u64 r = (let s = jg_state r * 6364136223846793005 + 1 in (s, r\<lparr>jg_state := s\<rparr>))"

definition jitter_next_u32 :: "jitter_rng \<Rightarrow> u32 \<times> jitter_rng" where
  "jitter_next_u32 r = (case jitter_next_u64 r of (w, r') \<Rightarrow> (ucast (drop_bit 32 w), r'))"

definition jitter_next_bounded :: "u32 \<Rightarrow> jitter_rng \<Rightarrow> u32 \<times> jitter_rng" where
  "jitter_next_bounded bound r =
    (if bound = 0 then (0, r) else (case jitter_next_u64 r of (w, r') \<Rightarrow> (ucast (w mod ucast bound), r')))"

definition jitter_next_ppm :: "jitter_rng \<Rightarrow> u32 \<times> jitter_rng" where
  "jitter_next_ppm r = (case jitter_next_u64 r of (w, r') \<Rightarrow> (ucast (w mod 1000000), r'))"

section \<open>The middlewares\<close>

text \<open>Rust's \<^verbatim>\<open>Feed::next_event\<close>: the event or the end of the feed, and the feed afterwards.\<close>

type_synonym 'f puller = "'f \<Rightarrow> (feed_event option, unit) res \<times> 'f"

record 'f bounded_drop =
  bd_inner :: 'f
  bd_drop_count :: u64
  bd_dropped :: u64

definition bounded_drop_new :: "'f \<Rightarrow> u64 \<Rightarrow> 'f bounded_drop" where
  "bounded_drop_new inner n = \<lparr>bd_inner = inner, bd_drop_count = n, bd_dropped = 0\<rparr>"

function bounded_drop_next :: "'f puller \<Rightarrow> 'f bounded_drop puller" where
  "bounded_drop_next pull m =
    (if bd_dropped m < bd_drop_count m then
       (case pull (bd_inner m) of
          (Ok (Some _), f) \<Rightarrow> bounded_drop_next pull (m\<lparr>bd_inner := f, bd_dropped := bd_dropped m + 1\<rparr>)
        | (r, f) \<Rightarrow> (r, m\<lparr>bd_inner := f\<rparr>))
     else (case pull (bd_inner m) of (r, f) \<Rightarrow> (r, m\<lparr>bd_inner := f\<rparr>)))"
  by pat_completeness auto
termination
proof (relation "measure (\<lambda>(_, m). unat (bd_drop_count m) - unat (bd_dropped m))")
  fix pull :: "'f puller" and m :: "'f bounded_drop" and p r f o' e
  assume "bd_dropped m < bd_drop_count m"
  then have "unat (bd_dropped m) < unat (bd_drop_count m)" by (simp add: word_less_nat_alt)
  moreover from this have "unat (bd_dropped m + 1) = unat (bd_dropped m) + 1"
    using unat_bound [of "bd_drop_count m"] by (intro trans [OF unat_add_no_wrap]) (simp_all del: unsigned_less)
  ultimately show "((pull, m\<lparr>bd_inner := f, bd_dropped := bd_dropped m + 1\<rparr>), pull, m)
      \<in> measure (\<lambda>(_, m). unat (bd_drop_count m) - unat (bd_dropped m))" by simp
qed simp

declare bounded_drop_next.simps [simp del]

record 'f bounded_corrupt =
  bc_inner :: 'f
  bc_corrupt_prob_ppm :: u32
  bc_corrupt_len :: usize
  bc_rng :: jitter_rng
  bc_corrupted :: u64
  bc_passed :: u64

definition bounded_corrupt_new :: "'f \<Rightarrow> u32 \<Rightarrow> usize \<Rightarrow> jitter_rng \<Rightarrow> 'f bounded_corrupt" where
  "bounded_corrupt_new inner ppm len rng =
    \<lparr>bc_inner = inner, bc_corrupt_prob_ppm = ppm, bc_corrupt_len = len, bc_rng = rng, bc_corrupted = 0, bc_passed = 0\<rparr>"

text \<open>The payload is filled eight bytes of a draw at a time.\<close>

function junk_bytes :: "nat \<Rightarrow> jitter_rng \<Rightarrow> u8 list \<times> jitter_rng" where
  "junk_bytes n rng =
    (if n = 0 then ([], rng)
     else (case jitter_next_u64 rng of (w, rng1) \<Rightarrow>
       (case junk_bytes (n - 8) rng1 of (bs, rng2) \<Rightarrow> (take n (u64_to_le w) @ bs, rng2))))"
  by pat_completeness auto
termination by (relation "measure fst") auto

declare junk_bytes.simps [simp del]

definition bounded_corrupt_next :: "'f puller \<Rightarrow> 'f bounded_corrupt puller" where
  "bounded_corrupt_next pull m =
    (case pull (bc_inner m) of
       (Ok (Some event), f) \<Rightarrow>
         (case jitter_next_ppm (bc_rng m) of (roll, rng) \<Rightarrow>
            let m1 = m\<lparr>bc_inner := f, bc_rng := rng\<rparr> in
            if roll < bc_corrupt_prob_ppm m then
              (case (add_p (bc_corrupted m1) 1 :: (u64, unit) res) of
                 Ok c \<Rightarrow>
                   let m2 = m1\<lparr>bc_corrupted := c\<rparr> in
                   (case event of
                      AccountUpdate sl pk _ \<Rightarrow>
                        (case junk_bytes (bc_corrupt_len m2) (bc_rng m2) of (junk, rng2) \<Rightarrow>
                           (Ok (Some (AccountUpdate sl pk junk)), m2\<lparr>bc_rng := rng2\<rparr>))
                    | _ \<Rightarrow> (case (add_p (bc_passed m2) 1 :: (u64, unit) res) of
                         Ok p \<Rightarrow> (Ok (Some event), m2\<lparr>bc_passed := p\<rparr>)
                       | _ \<Rightarrow> (Panic, m2)))
               | _ \<Rightarrow> (Panic, m1))
            else (case (add_p (bc_passed m1) 1 :: (u64, unit) res) of
                Ok p \<Rightarrow> (Ok (Some event), m1\<lparr>bc_passed := p\<rparr>)
              | _ \<Rightarrow> (Panic, m1)))
     | (r, f) \<Rightarrow> (r, m\<lparr>bc_inner := f\<rparr>))"

record 'f jittered_slot =
  js_inner :: 'f
  js_jitter_slots :: u32
  js_rng :: jitter_rng

definition jittered_slot_new :: "'f \<Rightarrow> u32 \<Rightarrow> jitter_rng \<Rightarrow> 'f jittered_slot" where
  "jittered_slot_new inner jitter rng = \<lparr>js_inner = inner, js_jitter_slots = jitter, js_rng = rng\<rparr>"

definition jittered_slot_next :: "'f puller \<Rightarrow> 'f jittered_slot puller" where
  "jittered_slot_next pull m =
    (case pull (js_inner m) of
       (Ok (Some (SlotEvent sl)), f) \<Rightarrow>
         (case jitter_next_bounded (sat_add_w (js_jitter_slots m) 1) (js_rng m) of (jitter, rng) \<Rightarrow>
            (Ok (Some (SlotEvent (sat_add_w sl (ucast jitter)))), m\<lparr>js_inner := f, js_rng := rng\<rparr>))
     | (r, f) \<Rightarrow> (r, m\<lparr>js_inner := f\<rparr>))"

datatype reorder_mode = Reverse | Permute

record 'f reorder =
  ro_inner :: 'f
  ro_window :: usize
  ro_mode :: reorder_mode
  ro_rng :: jitter_rng
  ro_buffer :: "feed_event list"

definition reorder_new :: "'f \<Rightarrow> usize \<Rightarrow> reorder_mode \<Rightarrow> jitter_rng \<Rightarrow> 'f reorder" where
  "reorder_new inner window mode rng =
    \<lparr>ro_inner = inner, ro_window = max window 1, ro_mode = mode, ro_rng = rng, ro_buffer = []\<rparr>"

text \<open>Up to \<open>n\<close> events of the wrapped feed, as the refill loop collects them.\<close>

fun fill_buffer :: "'f puller \<Rightarrow> nat \<Rightarrow> 'f \<Rightarrow> (feed_event list, unit) res \<times> 'f" where
  "fill_buffer pull 0 f = (Ok [], f)"
| "fill_buffer pull (Suc n) f =
    (case pull f of
       (Ok (Some ev), f1) \<Rightarrow>
         (case fill_buffer pull n f1 of
            (Ok evs, f2) \<Rightarrow> (Ok (ev # evs), f2)
          | (r, f2) \<Rightarrow> (r, f2))
     | (Ok None, f1) \<Rightarrow> (Ok [], f1)
     | (Err e, f1) \<Rightarrow> (Err e, f1)
     | (Panic, f1) \<Rightarrow> (Panic, f1))"

definition swap_at :: "nat \<Rightarrow> nat \<Rightarrow> 'a list \<Rightarrow> 'a list" where
  "swap_at i j xs = xs[i := xs ! j, j := xs ! i]"

text \<open>The shuffle, from the index \<open>i\<close> down to 1.\<close>

fun shuffle_down :: "nat \<Rightarrow> 'a list \<Rightarrow> jitter_rng \<Rightarrow> 'a list \<times> jitter_rng" where
  "shuffle_down 0 xs rng = (xs, rng)"
| "shuffle_down (Suc i) xs rng =
    (case jitter_next_bounded (of_nat (Suc i + 1)) rng of (j, rng1) \<Rightarrow>
       shuffle_down i (swap_at (Suc i) (unat j) xs) rng1)"

definition reordered :: "reorder_mode \<Rightarrow> 'a list \<Rightarrow> jitter_rng \<Rightarrow> 'a list \<times> jitter_rng" where
  "reordered mode xs rng =
    (case mode of Reverse \<Rightarrow> (rev xs, rng) | Permute \<Rightarrow> shuffle_down (length xs - 1) xs rng)"

definition refill :: "'f puller \<Rightarrow> 'f reorder \<Rightarrow> (bool, unit) res \<times> 'f reorder" where
  "refill pull m =
    (case fill_buffer pull (ro_window m) (ro_inner m) of
       (Ok evs, f) \<Rightarrow>
         if evs = [] then (Ok False, m\<lparr>ro_inner := f, ro_buffer := []\<rparr>)
         else (case reordered (ro_mode m) evs (ro_rng m) of (buffer, rng) \<Rightarrow>
           (Ok True, m\<lparr>ro_inner := f, ro_rng := rng, ro_buffer := buffer\<rparr>))
     | (Err e, f) \<Rightarrow> (Err e, m\<lparr>ro_inner := f\<rparr>)
     | (Panic, f) \<Rightarrow> (Panic, m\<lparr>ro_inner := f\<rparr>))"

text \<open>\<^verbatim>\<open>buffer.remove(0)\<close>.\<close>

definition pop_buffer :: "'f reorder \<Rightarrow> feed_event option \<times> 'f reorder" where
  "pop_buffer m = (case ro_buffer m of [] \<Rightarrow> (None, m) | ev # evs \<Rightarrow> (Some ev, m\<lparr>ro_buffer := evs\<rparr>))"

definition reorder_next :: "'f puller \<Rightarrow> 'f reorder puller" where
  "reorder_next pull m =
    (if ro_buffer m = [] then
       (case refill pull m of
          (Ok True, m1) \<Rightarrow> (case pop_buffer m1 of (ev, m2) \<Rightarrow> (Ok ev, m2))
        | (Ok False, m1) \<Rightarrow> (Ok None, m1)
        | (Err e, m1) \<Rightarrow> (Err e, m1)
        | (Panic, m1) \<Rightarrow> (Panic, m1))
     else (case pop_buffer m of (ev, m2) \<Rightarrow> (Ok ev, m2)))"

record 'f capped =
  cp_inner :: 'f
  cp_cap :: u64
  cp_emitted :: u64

definition capped_new :: "'f \<Rightarrow> u64 \<Rightarrow> 'f capped" where
  "capped_new inner n = \<lparr>cp_inner = inner, cp_cap = n, cp_emitted = 0\<rparr>"

definition capped_next :: "'f puller \<Rightarrow> 'f capped puller" where
  "capped_next pull m =
    (if cp_cap m \<le> cp_emitted m then (Ok None, m)
     else (case pull (cp_inner m) of
         (Ok (Some ev), f) \<Rightarrow> (Ok (Some ev), m\<lparr>cp_inner := f, cp_emitted := cp_emitted m + 1\<rparr>)
       | (r, f) \<Rightarrow> (r, m\<lparr>cp_inner := f\<rparr>)))"

text \<open>\<open>n\<close> calls of \<^verbatim>\<open>next_event\<close>, up to a panic.\<close>

fun pull_many :: "'f puller \<Rightarrow> nat \<Rightarrow> 'f \<Rightarrow> (feed_event option, unit) res list \<times> 'f" where
  "pull_many pull 0 f = ([], f)"
| "pull_many pull (Suc n) f =
    (case pull f of (r, f1) \<Rightarrow> (case pull_many pull n f1 of (rs, f2) \<Rightarrow> (r # rs, f2)))"

section \<open>The contract of a feed\<close>

text \<open>
  What the harness relies on: a feed that is ready delivers the events it has left, one per call and in order,
  then reports the end for ever, and does not panic.
\<close>

locale feed_contract =
  fixes pull :: "'f puller"
    and left :: "'f \<Rightarrow> feed_event list"
    and ready :: "'f \<Rightarrow> bool"
  assumes pull_ready: "ready f \<Longrightarrow> \<exists>ev f'. pull f = (Ok ev, f') \<and> ready f'
    \<and> (case ev of None \<Rightarrow> left f = [] \<and> left f' = [] | Some e \<Rightarrow> left f = e # left f')"
begin

lemma pull_end:
  assumes "ready f" "left f = []"
  obtains f' where "pull f = (Ok None, f')" "ready f'" "left f' = []"
  using pull_ready [OF assms(1)] assms(2) by (auto split: option.splits)

lemma pull_event:
  assumes "ready f" "left f = e # es"
  obtains f' where "pull f = (Ok (Some e), f')" "ready f'" "left f' = es"
  using pull_ready [OF assms(1)] assms(2) by (auto split: option.splits)

lemma pull_many_left:
  "ready f \<Longrightarrow> \<exists>f'. pull_many pull n f
      = (map (\<lambda>e. Ok (Some e)) (take n (left f)) @ replicate (n - length (left f)) (Ok None), f')
    \<and> ready f' \<and> left f' = drop n (left f)"
proof (induction n arbitrary: f)
  case (Suc n)
  show ?case
  proof (cases "left f")
    case Nil
    then obtain f1 where f1: "pull f = (Ok None, f1)" "ready f1" "left f1 = []" using pull_end [OF Suc.prems] by blast
    then show ?thesis using Suc.IH [OF f1(2)] Nil by auto
  next
    case (Cons e es)
    then obtain f1 where f1: "pull f = (Ok (Some e), f1)" "ready f1" "left f1 = es" using pull_event [OF Suc.prems] by blast
    then show ?thesis using Suc.IH [OF f1(2)] Cons by auto
  qed
qed simp

lemma fill_buffer_left:
  "ready f \<Longrightarrow> \<exists>f'. fill_buffer pull n f = (Ok (take n (left f)), f') \<and> ready f' \<and> left f' = drop n (left f)"
proof (induction n arbitrary: f)
  case (Suc n)
  show ?case
  proof (cases "left f")
    case Nil
    then obtain f1 where "pull f = (Ok None, f1)" "ready f1" "left f1 = []" using pull_end [OF Suc.prems] by blast
    then show ?thesis using Nil by auto
  next
    case (Cons e es)
    then obtain f1 where f1: "pull f = (Ok (Some e), f1)" "ready f1" "left f1 = es" using pull_event [OF Suc.prems] by blast
    then show ?thesis using Suc.IH [OF f1(2)] Cons by auto
  qed
qed simp

end

text \<open>What one event becomes, with the generator after it, and what a sequence of them becomes.\<close>

definition corrupt_one :: "u32 \<Rightarrow> usize \<Rightarrow> jitter_rng \<Rightarrow> feed_event \<Rightarrow> feed_event \<times> jitter_rng" where
  "corrupt_one ppm len rng ev =
    (case jitter_next_ppm rng of (roll, rng1) \<Rightarrow>
      (case ev of
         AccountUpdate sl pk _ \<Rightarrow>
           if roll < ppm then (case junk_bytes len rng1 of (junk, rng2) \<Rightarrow> (AccountUpdate sl pk junk, rng2)) else (ev, rng1)
       | _ \<Rightarrow> (ev, rng1)))"

definition jitter_one :: "u32 \<Rightarrow> jitter_rng \<Rightarrow> feed_event \<Rightarrow> feed_event \<times> jitter_rng" where
  "jitter_one slots rng ev =
    (case ev of
       SlotEvent sl \<Rightarrow> (case jitter_next_bounded (sat_add_w slots 1) rng of (jitter, rng1) \<Rightarrow>
         (SlotEvent (sat_add_w sl (ucast jitter)), rng1))
     | _ \<Rightarrow> (ev, rng))"

fun map_rng :: "(jitter_rng \<Rightarrow> 'a \<Rightarrow> 'a \<times> jitter_rng) \<Rightarrow> jitter_rng \<Rightarrow> 'a list \<Rightarrow> 'a list" where
  "map_rng step rng [] = []"
| "map_rng step rng (x # xs) = (case step rng x of (y, rng1) \<Rightarrow> y # map_rng step rng1 xs)"

text \<open>Every window of the feed, reordered on its own.\<close>

function windows :: "nat \<Rightarrow> reorder_mode \<Rightarrow> jitter_rng \<Rightarrow> 'a list \<Rightarrow> 'a list" where
  "windows w mode rng xs =
    (if xs = [] \<or> w = 0 then []
     else (case reordered mode (take w xs) rng of (buffer, rng1) \<Rightarrow> buffer @ windows w mode rng1 (drop w xs)))"
  by pat_completeness auto
termination by (relation "measure (\<lambda>(_, _, _, xs). length xs)") auto

declare windows.simps [simp del]

lemma windows_Nil [simp]: "windows w mode rng [] = []"
  by (subst windows.simps) simp

lemma windows_step:
  "xs \<noteq> [] \<Longrightarrow> 0 < w \<Longrightarrow> reordered mode (take w xs) rng = (b, rng1) \<Longrightarrow>
    windows w mode rng xs = b @ windows w mode rng1 (drop w xs)"
  by (subst windows.simps) simp

section \<open>Every middleware keeps the contract\<close>

definition drop_left :: "('f \<Rightarrow> feed_event list) \<Rightarrow> 'f bounded_drop \<Rightarrow> feed_event list" where
  "drop_left left m = drop (unat (bd_drop_count m) - unat (bd_dropped m)) (left (bd_inner m))"

definition corrupt_left :: "('f \<Rightarrow> feed_event list) \<Rightarrow> 'f bounded_corrupt \<Rightarrow> feed_event list" where
  "corrupt_left left m = map_rng (corrupt_one (bc_corrupt_prob_ppm m) (bc_corrupt_len m)) (bc_rng m) (left (bc_inner m))"

definition corrupt_ready :: "('f \<Rightarrow> feed_event list) \<Rightarrow> ('f \<Rightarrow> bool) \<Rightarrow> 'f bounded_corrupt \<Rightarrow> bool" where
  "corrupt_ready left ready m \<longleftrightarrow> ready (bc_inner m)
    \<and> unat (bc_corrupted m) + length (left (bc_inner m)) < 2 ^ 64
    \<and> unat (bc_passed m) + length (left (bc_inner m)) < 2 ^ 64"

definition jitter_left :: "('f \<Rightarrow> feed_event list) \<Rightarrow> 'f jittered_slot \<Rightarrow> feed_event list" where
  "jitter_left left m = map_rng (jitter_one (js_jitter_slots m)) (js_rng m) (left (js_inner m))"

definition reorder_left :: "('f \<Rightarrow> feed_event list) \<Rightarrow> 'f reorder \<Rightarrow> feed_event list" where
  "reorder_left left m = ro_buffer m @ windows (ro_window m) (ro_mode m) (ro_rng m) (left (ro_inner m))"

definition capped_left :: "('f \<Rightarrow> feed_event list) \<Rightarrow> 'f capped \<Rightarrow> feed_event list" where
  "capped_left left m = take (unat (cp_cap m) - unat (cp_emitted m)) (left (cp_inner m))"

lemma unat_suc_below: "a < b \<Longrightarrow> unat (a + 1) = unat a + 1" for a b :: u64
  using unat_bound [of b] by (intro trans [OF unat_add_no_wrap]) (simp_all add: word_less_nat_alt del: unsigned_less)

lemma length_swap_at [simp]: "length (swap_at i j xs) = length xs"
  by (simp add: swap_at_def)

lemma length_shuffle_down: "shuffle_down i xs rng = (ys, rng') \<Longrightarrow> length ys = length xs"
  by (induction i xs rng rule: shuffle_down.induct) (auto split: prod.splits)

lemma length_reordered: "reordered mode xs rng = (ys, rng') \<Longrightarrow> length ys = length xs"
  by (auto simp: reordered_def length_shuffle_down split: reorder_mode.splits)

context feed_contract
begin

lemma bounded_drop_pull:
  "ready (bd_inner m) \<Longrightarrow> \<exists>ev m'. bounded_drop_next pull m = (Ok ev, m') \<and> ready (bd_inner m')
    \<and> (case ev of None \<Rightarrow> drop_left left m = [] \<and> drop_left left m' = []
       | Some e \<Rightarrow> drop_left left m = e # drop_left left m')"
proof (induction "unat (bd_drop_count m) - unat (bd_dropped m)" arbitrary: m)
  case (0 m)
  then have nlt: "\<not> bd_dropped m < bd_drop_count m" by (simp add: word_less_nat_alt)
  obtain ev f' where p: "pull (bd_inner m) = (Ok ev, f')" "ready f'"
    "case ev of None \<Rightarrow> left (bd_inner m) = [] \<and> left f' = [] | Some e \<Rightarrow> left (bd_inner m) = e # left f'"
    using pull_ready [OF "0.prems"] by blast
  have "bounded_drop_next pull m = (Ok ev, m\<lparr>bd_inner := f'\<rparr>)"
    using nlt p(1) by (subst bounded_drop_next.simps) simp
  then show ?case using p(2,3) "0.hyps" by (auto simp: drop_left_def split: option.splits)
next
  case (Suc k m)
  then have lt: "bd_dropped m < bd_drop_count m" by (simp add: word_less_nat_alt)
  show ?case
  proof (cases "left (bd_inner m)")
    case Nil
    then obtain f' where p: "pull (bd_inner m) = (Ok None, f')" "ready f'" "left f' = []"
      using pull_end [OF Suc.prems] by blast
    have "bounded_drop_next pull m = (Ok None, m\<lparr>bd_inner := f'\<rparr>)"
      using lt p(1) by (subst bounded_drop_next.simps) simp
    then show ?thesis using p(2,3) Nil by (simp add: drop_left_def)
  next
    case (Cons e es)
    then obtain f' where p: "pull (bd_inner m) = (Ok (Some e), f')" "ready f'" "left f' = es"
      using pull_event [OF Suc.prems] by blast
    define m1 where "m1 = m\<lparr>bd_inner := f', bd_dropped := bd_dropped m + 1\<rparr>"
    have step: "bounded_drop_next pull m = bounded_drop_next pull m1"
      using lt p(1) by (subst bounded_drop_next.simps) (simp add: m1_def)
    have k: "k = unat (bd_drop_count m1) - unat (bd_dropped m1)" and r: "ready (bd_inner m1)"
      using Suc.hyps(2) p(2) by (simp_all add: m1_def unat_suc_below [OF lt])
    have same: "drop_left left m1 = drop_left left m"
      using Suc.hyps(2) Cons p(3) by (simp add: m1_def drop_left_def unat_suc_below [OF lt] drop_Cons' split: nat.splits)
    show ?thesis unfolding step same [symmetric] by (rule Suc.hyps(1) [OF k r])
  qed
qed

lemma bounded_drop_contract: "feed_contract (bounded_drop_next pull) (drop_left left) (\<lambda>m. ready (bd_inner m))"
  by (rule feed_contract.intro) (rule bounded_drop_pull)

lemma bounded_corrupt_contract:
  "feed_contract (bounded_corrupt_next pull) (corrupt_left left) (corrupt_ready left ready)"
proof
  fix m :: "'f bounded_corrupt"
  assume m: "corrupt_ready left ready m"
  then have r: "ready (bc_inner m)" by (simp add: corrupt_ready_def)
  show "\<exists>ev f'. bounded_corrupt_next pull m = (Ok ev, f') \<and> corrupt_ready left ready f'
      \<and> (case ev of None \<Rightarrow> corrupt_left left m = [] \<and> corrupt_left left f' = []
         | Some e \<Rightarrow> corrupt_left left m = e # corrupt_left left f')"
  proof (cases "left (bc_inner m)")
    case Nil
    then obtain f' where "pull (bc_inner m) = (Ok None, f')" "ready f'" "left f' = []" using pull_end [OF r] by blast
    then show ?thesis using m Nil by (auto simp: bounded_corrupt_next_def corrupt_ready_def corrupt_left_def)
  next
    case (Cons e es)
    then obtain f' where p: "pull (bc_inner m) = (Ok (Some e), f')" "ready f'" "left f' = es"
      using pull_event [OF r] by blast
    obtain roll rng1 where roll: "jitter_next_ppm (bc_rng m) = (roll, rng1)" by fastforce
    obtain junk rng2 where junk: "junk_bytes (bc_corrupt_len m) rng1 = (junk, rng2)" by fastforce
    have fits: "unat (bc_corrupted m) + length es + 1 < 2 ^ 64" "unat (bc_passed m) + length es + 1 < 2 ^ 64"
      using m Cons by (simp_all add: corrupt_ready_def)
    then have adds: "(add_p (bc_corrupted m) 1 :: (u64, unit) res) = Ok (bc_corrupted m + 1)"
      "(add_p (bc_passed m) 1 :: (u64, unit) res) = Ok (bc_passed m + 1)"
      "unat (bc_corrupted m + 1) = unat (bc_corrupted m) + 1" "unat (bc_passed m + 1) = unat (bc_passed m) + 1"
      by (simp_all add: add_p_def unat_add_no_wrap)
    show ?thesis
    proof (cases "roll < bc_corrupt_prob_ppm m")
      case True
      then show ?thesis using p roll junk adds fits Cons
        by (cases e) (simp_all add: Let_def bounded_corrupt_next_def corrupt_ready_def corrupt_left_def corrupt_one_def)
    next
      case False
      then show ?thesis using p roll junk adds fits Cons
        by (cases e) (simp_all add: Let_def bounded_corrupt_next_def corrupt_ready_def corrupt_left_def corrupt_one_def)
    qed
  qed
qed

lemma jittered_slot_contract: "feed_contract (jittered_slot_next pull) (jitter_left left) (\<lambda>m. ready (js_inner m))"
proof
  fix m :: "'f jittered_slot"
  assume r: "ready (js_inner m)"
  show "\<exists>ev f'. jittered_slot_next pull m = (Ok ev, f') \<and> ready (js_inner f')
      \<and> (case ev of None \<Rightarrow> jitter_left left m = [] \<and> jitter_left left f' = []
         | Some e \<Rightarrow> jitter_left left m = e # jitter_left left f')"
  proof (cases "left (js_inner m)")
    case Nil
    then obtain f' where "pull (js_inner m) = (Ok None, f')" "ready f'" "left f' = []" using pull_end [OF r] by blast
    then show ?thesis using Nil by (auto simp: jittered_slot_next_def jitter_left_def)
  next
    case (Cons e es)
    then obtain f' where p: "pull (js_inner m) = (Ok (Some e), f')" "ready f'" "left f' = es"
      using pull_event [OF r] by blast
    obtain j rng1 where "jitter_next_bounded (sat_add_w (js_jitter_slots m) 1) (js_rng m) = (j, rng1)" by fastforce
    then show ?thesis using p Cons by (cases e) (simp_all add: jittered_slot_next_def jitter_left_def jitter_one_def)
  qed
qed

lemma reorder_contract: "feed_contract (reorder_next pull) (reorder_left left) (\<lambda>m. ready (ro_inner m) \<and> 0 < ro_window m)"
proof
  fix m :: "'f reorder"
  assume r: "ready (ro_inner m) \<and> 0 < ro_window m"
  show "\<exists>ev f'. reorder_next pull m = (Ok ev, f') \<and> (ready (ro_inner f') \<and> 0 < ro_window f')
      \<and> (case ev of None \<Rightarrow> reorder_left left m = [] \<and> reorder_left left f' = []
         | Some e \<Rightarrow> reorder_left left m = e # reorder_left left f')"
  proof (cases "ro_buffer m")
    case (Cons e es)
    then show ?thesis using r by (simp add: reorder_next_def pop_buffer_def reorder_left_def)
  next
    case empty: Nil
    obtain f' where f': "fill_buffer pull (ro_window m) (ro_inner m) = (Ok (take (ro_window m) (left (ro_inner m))), f')"
      "ready f'" "left f' = drop (ro_window m) (left (ro_inner m))"
      using fill_buffer_left r by blast
    show ?thesis
    proof (cases "left (ro_inner m) = []")
      case True
      then show ?thesis using f' r empty by (simp add: reorder_next_def refill_def reorder_left_def)
    next
      case False
      define w where "w = take (ro_window m) (left (ro_inner m))"
      have w: "w \<noteq> []" using False r by (simp add: w_def)
      obtain b rng1 where b: "reordered (ro_mode m) w (ro_rng m) = (b, rng1)" by fastforce
      obtain e es where es: "b = e # es" using length_reordered [OF b] w by (cases b) auto
      have "windows (ro_window m) (ro_mode m) (ro_rng m) (left (ro_inner m)) = b @ windows (ro_window m) (ro_mode m) rng1 (left f')"
        using windows_step [OF False] r b f'(3) by (simp add: w_def)
      then show ?thesis using f' r empty w b es
        by (simp add: reorder_next_def refill_def reorder_left_def pop_buffer_def w_def [symmetric])
    qed
  qed
qed

lemma capped_contract: "feed_contract (capped_next pull) (capped_left left) (\<lambda>m. ready (cp_inner m))"
proof
  fix m :: "'f capped"
  assume r: "ready (cp_inner m)"
  show "\<exists>ev f'. capped_next pull m = (Ok ev, f') \<and> ready (cp_inner f')
      \<and> (case ev of None \<Rightarrow> capped_left left m = [] \<and> capped_left left f' = []
         | Some e \<Rightarrow> capped_left left m = e # capped_left left f')"
  proof (cases "cp_cap m \<le> cp_emitted m")
    case True
    then show ?thesis using r by (simp add: capped_next_def capped_left_def word_le_nat_alt)
  next
    case False
    then have lt: "cp_emitted m < cp_cap m" by simp
    have nat_lt: "unat (cp_emitted m) < unat (cp_cap m)" using lt by (simp add: word_less_nat_alt)
    show ?thesis
    proof (cases "left (cp_inner m)")
      case Nil
      then obtain f' where "pull (cp_inner m) = (Ok None, f')" "ready f'" "left f' = []" using pull_end [OF r] by blast
      then show ?thesis using False Nil by (simp add: capped_next_def capped_left_def)
    next
      case (Cons e es)
      then obtain f' where p: "pull (cp_inner m) = (Ok (Some e), f')" "ready f'" "left f' = es"
        using pull_event [OF r] by blast
      have "unat (cp_cap m) - unat (cp_emitted m) = Suc (unat (cp_cap m) - unat (cp_emitted m + 1))"
        using nat_lt by (simp add: unat_suc_below [OF lt])
      then show ?thesis using p Cons False by (simp add: capped_next_def capped_left_def)
    qed
  qed
qed

end

section \<open>The scripted feed under the faults\<close>

definition scripted_pull :: "scripted_feed puller" where
  "scripted_pull f = (case scripted_next f of (ev, f') \<Rightarrow> (Ok ev, f'))"

definition scripted_left :: "scripted_feed \<Rightarrow> feed_event list" where
  "scripted_left f = drop (sf_cursor f) (sf_events f)"

interpretation scripted: feed_contract scripted_pull scripted_left "\<lambda>_. True"
proof
  fix f :: scripted_feed
  show "\<exists>ev f'. scripted_pull f = (Ok ev, f') \<and> True \<and> (case ev of None \<Rightarrow> scripted_left f = [] \<and> scripted_left f' = []
      | Some e \<Rightarrow> scripted_left f = e # scripted_left f')"
    by (simp add: scripted_pull_def scripted_next_def scripted_left_def Cons_nth_drop_Suc)
qed

text \<open>What each fault may do to an event.\<close>

definition faulted :: "usize \<Rightarrow> u32 \<Rightarrow> feed_event \<Rightarrow> feed_event \<Rightarrow> bool" where
  "faulted len slots e e' \<longleftrightarrow>
    (case e of
       SlotEvent s \<Rightarrow> (\<exists>s'. e' = SlotEvent s' \<and> s \<le> s' \<and> unat s' \<le> unat s + unat slots)
     | AccountUpdate s pk d \<Rightarrow> e' = e \<or> (\<exists>junk. e' = AccountUpdate s pk junk \<and> length junk = len)
     | _ \<Rightarrow> e' = e)"

lemma length_junk_bytes: "junk_bytes n rng = (bs, rng') \<Longrightarrow> length bs = n"
proof (induction n rng arbitrary: bs rng' rule: junk_bytes.induct)
  case (1 n rng)
  then show ?case
    by (subst (asm) (2) junk_bytes.simps) (fastforce split: if_splits prod.splits)
qed

lemma jitter_next_bounded_less:
  "jitter_next_bounded bound rng = (j, rng') \<Longrightarrow> bound \<noteq> 0 \<Longrightarrow> j < bound"
proof -
  assume "jitter_next_bounded bound rng = (j, rng')" "bound \<noteq> 0"
  then obtain w where j: "j = ucast (w mod ucast bound :: u64)"
    by (auto simp: jitter_next_bounded_def split: prod.splits)
  have "0 < unat bound" using \<open>bound \<noteq> 0\<close> by (simp add: unat_gt_0)
  then have "unat (w mod ucast bound) < unat bound"
    by (simp add: unat_mod unat_ucast_up)
  moreover have "unat j = unat (w mod ucast bound) mod 2 ^ 32"
    unfolding j by (simp add: unsigned_ucast_eq take_bit_eq_mod)
  ultimately show ?thesis
    by (metis le_less_trans mod_less_eq_dividend word_less_nat_alt)
qed

lemma jitter_one_faulted: "jitter_one slots rng e = (e', rng') \<Longrightarrow> faulted len slots e e'"
proof (cases e)
  case (SlotEvent s)
  assume one: "jitter_one slots rng e = (e', rng')"
  obtain j rng1 where j: "jitter_next_bounded (sat_add_w slots 1) rng = (j, rng1)" by fastforce
  have e': "e' = SlotEvent (sat_add_w s (ucast j))" using one j SlotEvent by (simp add: jitter_one_def)
  have pos: "sat_add_w slots 1 \<noteq> 0"
    using unat_sat_add_w [of slots 1] by (auto simp: word_unat_eq_iff)
  have "j < sat_add_w slots 1" using jitter_next_bounded_less [OF j pos] .
  then have "unat j \<le> unat slots" by (simp add: word_less_nat_alt unat_sat_add_w)
  then have "s \<le> sat_add_w s (ucast j) \<and> unat (sat_add_w s (ucast j)) \<le> unat s + unat slots"
    using unat_bound [of s] by (simp add: word_le_nat_alt unat_sat_add_w unat_ucast_up del: unsigned_less)
  then show ?thesis using e' SlotEvent by (simp add: faulted_def)
qed (auto simp: jitter_one_def faulted_def)

lemma corrupt_one_faulted:
  "corrupt_one ppm len rng e = (e', rng') \<Longrightarrow> e' = e \<or> (\<exists>s pk d junk. e = AccountUpdate s pk d \<and> e' = AccountUpdate s pk junk \<and> length junk = len)"
  by (cases e) (auto simp: corrupt_one_def dest: length_junk_bytes split: prod.splits if_splits)

lemma map_rng_list_all2:
  "(\<And>rng x y rng'. step rng x = (y, rng') \<Longrightarrow> P x y) \<Longrightarrow> list_all2 P xs (map_rng step rng xs)"
  by (induction xs arbitrary: rng) (auto split: prod.splits)

lemma swap_at_mset: "i < length xs \<Longrightarrow> j < length xs \<Longrightarrow> mset (swap_at i j xs) = mset xs"
  unfolding swap_at_def by (rule mset_swap)

lemma shuffle_down_mset:
  "i < length xs \<Longrightarrow> length xs < 2 ^ 32 \<Longrightarrow> shuffle_down i xs rng = (ys, rng') \<Longrightarrow> mset ys = mset xs"
proof (induction i xs rng arbitrary: ys rng' rule: shuffle_down.induct)
  case (2 i xs rng)
  obtain j rng1 where j: "jitter_next_bounded (of_nat (Suc i + 1)) rng = (j, rng1)" by fastforce
  have bound: "unat (of_nat (Suc i + 1) :: u32) = Suc i + 1"
    using "2.prems"(1,2) by (intro unat_of_nat_fits) simp
  then have nz: "(of_nat (Suc i + 1) :: u32) \<noteq> 0" by (auto simp: word_unat_eq_iff simp del: of_nat_add of_nat_Suc)
  have "unat j < Suc i + 1" using jitter_next_bounded_less [OF j nz] bound by (simp add: word_less_nat_alt)
  then have jlt: "unat j < length xs" using "2.prems"(1) by simp
  have "shuffle_down i (swap_at (Suc i) (unat j) xs) rng1 = (ys, rng')" using "2.prems"(3) j by simp
  then have "mset ys = mset (swap_at (Suc i) (unat j) xs)"
    using "2.IH" [OF j [symmetric]] "2.prems"(1,2) by simp
  then show ?case using swap_at_mset [OF "2.prems"(1) jlt] by simp
qed simp

lemma reordered_mset:
  "reordered mode xs rng = (ys, rng') \<Longrightarrow> xs \<noteq> [] \<Longrightarrow> length xs < 2 ^ 32 \<Longrightarrow> mset ys = mset xs"
  using shuffle_down_mset [of "length xs - 1" xs rng ys rng']
  by (auto simp: reordered_def simp flip: length_greater_0_conv split: reorder_mode.splits)

text \<open>Reordering keeps every event within its window.\<close>

lemma windows_mset_take:
  "0 < w \<Longrightarrow> w < 2 ^ 32 \<Longrightarrow> mset (take (k * w) (windows w mode rng xs)) = mset (take (k * w) xs)"
proof (induction w mode rng xs arbitrary: k rule: windows.induct)
  case (1 w mode rng xs)
  show ?case
  proof (cases "xs = [] \<or> k = 0")
    case False
    then obtain k' where k: "k = Suc k'" by (cases k) auto
    obtain b rng1 where b: "reordered mode (take w xs) rng = (b, rng1)" by fastforce
    have eq: "windows w mode rng xs = b @ windows w mode rng1 (drop w xs)"
      using windows_step False "1.prems" b by auto
    have mb: "mset b = mset (take w xs)" using reordered_mset [OF b] False "1.prems" by simp
    have lb: "length b = min w (length xs)" using length_reordered [OF b] by simp
    show ?thesis
    proof (cases "w \<le> length xs")
      case True
      have "mset (take (k' * w) (windows w mode rng1 (drop w xs))) = mset (take (k' * w) (drop w xs))"
        using "1.IH" [OF _ b [symmetric], of k'] False "1.prems" by auto
      moreover have "take (k * w) xs = take w xs @ take (k' * w) (drop w xs)"
        unfolding k by (simp add: take_add)
      moreover have "take (k * w) (windows w mode rng xs) = b @ take (k' * w) (windows w mode rng1 (drop w xs))"
        unfolding k eq using lb True by simp
      ultimately show ?thesis using mb by simp
    next
      case False
      then have "length xs \<le> k * w" using k by simp
      then show ?thesis using eq mb lb False k by simp
    qed
  qed auto
qed

lemma length_windows: "0 < w \<Longrightarrow> length (windows w mode rng xs) = length xs"
proof (induction w mode rng xs rule: windows.induct)
  case (1 w mode rng xs)
  show ?case
  proof (cases "xs = []")
    case False
    obtain b rng1 where b: "reordered mode (take w xs) rng = (b, rng1)" by fastforce
    then show ?thesis
      using windows_step [OF False "1.prems" b] "1.IH" [OF _ b [symmetric]] False "1.prems" length_reordered [OF b] by simp
  qed simp
qed

text \<open>All five faults, one over the other, on a scripted feed.\<close>

definition fault_tower ::
    "feed_event list \<Rightarrow> u64 \<Rightarrow> u32 \<Rightarrow> usize \<Rightarrow> u32 \<Rightarrow> usize \<Rightarrow> reorder_mode \<Rightarrow> u64 \<Rightarrow> u64 \<Rightarrow>
      scripted_feed bounded_drop bounded_corrupt jittered_slot reorder capped" where
  "fault_tower evs skip ppm len slots window mode cap seed =
    capped_new
      (reorder_new
        (jittered_slot_new
          (bounded_corrupt_new (bounded_drop_new (scripted_new evs) skip) ppm len (jitter_from_seed seed))
          slots (jitter_from_seed seed))
        window mode (jitter_from_seed seed))
      cap"

definition tower_pull :: "scripted_feed bounded_drop bounded_corrupt jittered_slot reorder capped puller" where
  "tower_pull = capped_next (reorder_next (jittered_slot_next (bounded_corrupt_next (bounded_drop_next scripted_pull))))"

definition tower_left :: "scripted_feed bounded_drop bounded_corrupt jittered_slot reorder capped \<Rightarrow> feed_event list" where
  "tower_left = capped_left (reorder_left (jitter_left (corrupt_left (drop_left scripted_left))))"

definition tower_ready :: "scripted_feed bounded_drop bounded_corrupt jittered_slot reorder capped \<Rightarrow> bool" where
  "tower_ready m \<longleftrightarrow> corrupt_ready (drop_left scripted_left) (\<lambda>_. True) (js_inner (ro_inner (cp_inner m)))
    \<and> 0 < ro_window (cp_inner m)"

interpretation tower: feed_contract tower_pull tower_left tower_ready
  unfolding tower_pull_def tower_left_def tower_ready_def
  by (rule feed_contract.capped_contract [OF feed_contract.reorder_contract [OF feed_contract.jittered_slot_contract
    [OF feed_contract.bounded_corrupt_contract [OF scripted.bounded_drop_contract]]]])

lemma tower_start:
  "length evs < 2 ^ 64 \<Longrightarrow> tower_ready (fault_tower evs skip ppm len slots window mode cap seed)"
  by (simp add: less_imp_diff_less max_def tower_ready_def fault_tower_def corrupt_ready_def drop_left_def scripted_left_def capped_new_def
      reorder_new_def jittered_slot_new_def bounded_corrupt_new_def bounded_drop_new_def scripted_new_def)

lemma faulted_trans:
  "e1 = e \<or> (\<exists>s pk d junk. e = AccountUpdate s pk d \<and> e1 = AccountUpdate s pk junk \<and> length junk = len) \<Longrightarrow>
    jitter_one slots rng e1 = (e2, rng') \<Longrightarrow> faulted len slots e e2"
  using jitter_one_faulted [of slots rng e1 e2 rng' len] by (auto simp: jitter_one_def faulted_def)

lemma list_all2_compose:
  "list_all2 P xs ys \<Longrightarrow> list_all2 Q ys zs \<Longrightarrow> (\<And>x y z. P x y \<Longrightarrow> Q y z \<Longrightarrow> R x z) \<Longrightarrow> list_all2 R xs zs"
  by (rule list_all2_trans [rotated 1])



section \<open>The shuffle of two does not depend on the seed\<close>

text \<open>Multiplier and increment of the generator are odd, so its lowest bit alternates, and starts at the same
  value for every seed.\<close>

lemma jitter_parity: "jitter_next_u64 rng = (w, rng') \<Longrightarrow> w = jg_state rng' \<and> (odd w \<longleftrightarrow> even (jg_state rng))"
  by (auto simp: jitter_next_u64_def Let_def)

lemma jitter_from_seed_odd: "odd (jg_state (jitter_from_seed seed))"
  by (simp add: jitter_from_seed_def even_or_iff)

lemma reorder_pair:
  "jitter_next_u64 rng = (w, rng') \<Longrightarrow>
    reordered Permute [a, b] rng = (if even w then [b, a] else [a, b], rng')"
proof -
  assume w: "jitter_next_u64 rng = (w, rng')"
  have "jitter_next_bounded 2 rng = (if even w then 0 else 1, rng')"
    using w by (simp add: jitter_next_bounded_def mod_2_eq_odd)
  then show ?thesis by (simp add: reordered_def swap_at_def)
qed

lemma windows_pairs_parity:
  "even (jg_state rng) \<longleftrightarrow> even (jg_state rng') \<Longrightarrow> windows 2 Permute rng xs = windows 2 Permute rng' xs"
proof (induction xs arbitrary: rng rng' rule: induct_list012)
  case (2 x)
  then show ?case by (subst (1 2) windows.simps) (simp add: reordered_def)
next
  case (3 a b xs)
  obtain w rng1 where w: "jitter_next_u64 rng = (w, rng1)" by fastforce
  obtain w' rng1' where w': "jitter_next_u64 rng' = (w', rng1')" by fastforce
  have par: "even w \<longleftrightarrow> even w'" "even (jg_state rng1) \<longleftrightarrow> even (jg_state rng1')"
    using jitter_parity [OF w] jitter_parity [OF w'] "3.prems" by auto
  have "windows 2 Permute rng (a # b # xs) = (if even w then [b, a] else [a, b]) @ windows 2 Permute rng1 xs"
    using reorder_pair [OF w, of a b] by (subst windows_step [where ?rng1.0 = rng1]) simp_all
  moreover have "windows 2 Permute rng' (a # b # xs) = (if even w' then [b, a] else [a, b]) @ windows 2 Permute rng1' xs"
    using reorder_pair [OF w', of a b] by (subst windows_step [where ?rng1.0 = rng1']) simp_all
  ultimately show ?case using "3.IH"(1) [OF par(2)] par(1) by simp
qed simp

definition pair_pull :: "scripted_feed reorder puller" where
  "pair_pull = reorder_next scripted_pull"

definition pair_left :: "scripted_feed reorder \<Rightarrow> feed_event list" where
  "pair_left = reorder_left scripted_left"

interpretation pair: feed_contract pair_pull pair_left "\<lambda>m. True \<and> 0 < ro_window m"
  unfolding pair_pull_def pair_left_def by (rule scripted.reorder_contract)

text \<open>The permuting window of two permutes nothing at random: whatever the seed, it delivers the same events in the
  same order, because every draw it makes is the lowest bit of a generator that alternates. So a test of out-of-order
  delivery that tries many seeds tries one order.\<close>

theorem permute_pairs_ignore_seed:
  "fst (pull_many pair_pull n (reorder_new (scripted_new evs) 2 Permute (jitter_from_seed seed)))
    = fst (pull_many pair_pull n (reorder_new (scripted_new evs) 2 Permute (jitter_from_seed seed')))"
proof -
  have left: "pair_left (reorder_new (scripted_new evs) 2 Permute (jitter_from_seed s))
      = windows 2 Permute (jitter_from_seed 0) evs" for s
    using windows_pairs_parity [of "jitter_from_seed s" "jitter_from_seed 0"]
    by (simp add: max_def pair_left_def reorder_left_def reorder_new_def scripted_left_def scripted_new_def jitter_from_seed_odd)
  have "\<exists>m'. pull_many pair_pull n (reorder_new (scripted_new evs) 2 Permute (jitter_from_seed s))
      = (map (\<lambda>e. Ok (Some e)) (take n (windows 2 Permute (jitter_from_seed 0) evs))
        @ replicate (n - length (windows 2 Permute (jitter_from_seed 0) evs)) (Ok None), m')" for s
    using pair.pull_many_left [of "reorder_new (scripted_new evs) 2 Permute (jitter_from_seed s)" n]
    unfolding left by (auto simp: reorder_new_def)
  then show ?thesis by (metis fst_conv)
qed

end
