(* ===== verification/Validate.thy ===== *)
theory Validate
  imports Rust_Prelude
begin

text \<open>
  The contract of \<^verbatim>\<open>crates/dl-pipeline\<close>: JSON values as \<^verbatim>\<open>serde_json\<close> has them, the reject reasons
  (\<^verbatim>\<open>reject.rs\<close>), the hand-written validators of \<^verbatim>\<open>cycle.v1\<close> and \<^verbatim>\<open>trade.v1\<close> and the scan for signing
  material (\<^verbatim>\<open>validate.rs\<close>), the wire types with what their derived deserializers accept (\<^verbatim>\<open>lib.rs\<close>) and
  the two line parsers (\<^verbatim>\<open>ingest/mod.rs\<close>). The text of a JSON document is parsed by an argument.
\<close>

section \<open>JSON values\<close>

text \<open>\<^verbatim>\<open>serde_json::Value\<close>. A number is a signed or unsigned 64-bit integer, or a float kept as its text; an object
  lists its entries in the order of its map, with distinct keys.\<close>

datatype json =
    JNull
  | JBool bool
  | JInt int
  | JFloat string
  | JStr string
  | JArr "json list"
  | JObj "(string \<times> json) list"

primrec as_object :: "json \<Rightarrow> (string \<times> json) list option" where
  "as_object JNull = None"
| "as_object (JBool b) = None"
| "as_object (JInt i) = None"
| "as_object (JFloat s) = None"
| "as_object (JStr s) = None"
| "as_object (JArr xs) = None"
| "as_object (JObj kvs) = Some kvs"

definition json_get :: "string \<Rightarrow> json \<Rightarrow> json option" where
  "json_get k v = (case as_object v of None \<Rightarrow> None | Some kvs \<Rightarrow> map_of kvs k)"

definition as_str :: "json \<Rightarrow> string option" where
  "as_str v = (case v of JStr s \<Rightarrow> Some s | _ \<Rightarrow> None)"

definition as_array :: "json \<Rightarrow> json list option" where
  "as_array v = (case v of JArr xs \<Rightarrow> Some xs | _ \<Rightarrow> None)"

definition as_i64 :: "json \<Rightarrow> i64 option" where
  "as_i64 v = (case v of JInt i \<Rightarrow> if in_range 64 i then Some i else None | _ \<Rightarrow> None)"

definition as_u64 :: "json \<Rightarrow> u64 option" where
  "as_u64 v = (case v of JInt i \<Rightarrow> if 0 \<le> i \<and> i < 2 ^ 64 then Some (of_int i) else None | _ \<Rightarrow> None)"

definition as_u32 :: "json \<Rightarrow> u32 option" where
  "as_u32 v = (case v of JInt i \<Rightarrow> if 0 \<le> i \<and> i < 2 ^ 32 then Some (of_int i) else None | _ \<Rightarrow> None)"

text \<open>\<^verbatim>\<open>value.get(k).and_then(as_x)\<close>.\<close>

definition get_as :: "(json \<Rightarrow> 'a option) \<Rightarrow> string \<Rightarrow> json \<Rightarrow> 'a option" where
  "get_as f k v = Option.bind (json_get k v) f"

section \<open>Lines of text\<close>

text \<open>\<^verbatim>\<open>str::trim\<close> on the ASCII white space, and the lines that hold no record.\<close>

definition is_space :: "char \<Rightarrow> bool" where
  "is_space c \<longleftrightarrow> c \<in> set [CHR '' '', CHR 0x09, CHR 0x0A, CHR 0x0B, CHR 0x0C, CHR 0x0D]"

definition str_trim :: "string \<Rightarrow> string" where
  "str_trim s = rev (dropWhile is_space (rev (dropWhile is_space s)))"

definition skipped_line :: "string \<Rightarrow> bool" where
  "skipped_line s \<longleftrightarrow> s = [] \<or> take 1 s = ''#''"

text \<open>\<^verbatim>\<open>BufRead::lines\<close>: the line break is dropped, with a carriage return before it.\<close>

definition newline :: char where
  "newline = CHR 0x0A"

definition strip_cr :: "string \<Rightarrow> string" where
  "strip_cr s = (if s \<noteq> [] \<and> last s = CHR 0x0D then butlast s else s)"

function file_lines :: "string \<Rightarrow> string list" where
  "file_lines s =
    (if s = [] then []
     else (case dropWhile (\<lambda>c. c \<noteq> newline) s of
         [] \<Rightarrow> [s]
       | _ # rest \<Rightarrow> strip_cr (takeWhile (\<lambda>c. c \<noteq> newline) s) # file_lines rest))"
  by pat_completeness auto
termination
proof (relation "measure length")
  fix s and c :: char and rest
  assume "dropWhile (\<lambda>c. c \<noteq> newline) s = c # rest"
  then have "length (c # rest) \<le> length s" using length_dropWhile_le [of "\<lambda>c. c \<noteq> newline" s] by simp
  then show "(rest, s) \<in> measure length" by simp
qed simp

declare file_lines.simps [simp del]

lemma file_lines_Nil [simp]: "file_lines [] = []"
  by (subst file_lines.simps) simp

lemma file_lines_step:
  assumes "newline \<notin> set l"
  shows "file_lines (l @ newline # rest) = strip_cr l # file_lines rest"
proof -
  have "dropWhile (\<lambda>c. c \<noteq> newline) (l @ newline # rest) = newline # rest" "takeWhile (\<lambda>c. c \<noteq> newline) (l @ newline # rest) = l"
    using assms by (induction l) auto
  then show ?thesis by (subst file_lines.simps) simp
qed

lemma file_lines_last:
  assumes "newline \<notin> set l" "l \<noteq> []"
  shows "file_lines l = [l]"
proof -
  have d: "dropWhile (\<lambda>c. c \<noteq> newline) l = []" using assms(1) by (auto simp: dropWhile_eq_Nil_conv)
  show ?thesis by (subst file_lines.simps) (simp only: d list.case assms(2) if_False)
qed

section \<open>Reject reasons\<close>

datatype reject_reason =
    SchemaMissing
  | SchemaUnknown
  | CycleIdInvalid
  | LegsEmpty
  | DecisionInvalid
  | EvaluatorInvalid
  | SourceFeedInvalid
  | DirectionInvalid
  | DexInvalid
  | FieldTypeWrong
  | PrivateField
  | SigningMaterial
  | NotJson

primrec reason_str :: "reject_reason \<Rightarrow> string" where
  "reason_str SchemaMissing = ''schema_missing''"
| "reason_str SchemaUnknown = ''schema_unknown''"
| "reason_str CycleIdInvalid = ''cycle_id_invalid''"
| "reason_str LegsEmpty = ''legs_empty''"
| "reason_str DecisionInvalid = ''decision_invalid''"
| "reason_str EvaluatorInvalid = ''evaluator_invalid''"
| "reason_str SourceFeedInvalid = ''source_feed_invalid''"
| "reason_str DirectionInvalid = ''direction_invalid''"
| "reason_str DexInvalid = ''dex_invalid''"
| "reason_str FieldTypeWrong = ''field_type_wrong''"
| "reason_str PrivateField = ''private_field''"
| "reason_str SigningMaterial = ''signing_material''"
| "reason_str NotJson = ''not_json''"

section \<open>The validators\<close>

definition is_valid_dex :: "string \<Rightarrow> bool" where
  "is_valid_dex s \<longleftrightarrow> s \<in> set [''raydium'', ''orca'', ''meteora'']"

definition is_valid_decision :: "string \<Rightarrow> bool" where
  "is_valid_decision s \<longleftrightarrow> s \<in> set [''WouldTrade'', ''WouldNotTrade'']"

definition is_valid_evaluator :: "string \<Rightarrow> bool" where
  "is_valid_evaluator s \<longleftrightarrow> s \<in> set [''conservative_default'', ''optimistic'']"

definition is_valid_direction :: "string \<Rightarrow> bool" where
  "is_valid_direction s \<longleftrightarrow> s \<in> set [''BaseToQuote'', ''QuoteToBase'']"

definition is_valid_source_feed :: "string \<Rightarrow> bool" where
  "is_valid_source_feed s \<longleftrightarrow> s \<in> set [''ws:mainnet'', ''ws:devnet'', ''capture:replay'']"

definition between :: "char \<Rightarrow> char \<Rightarrow> char \<Rightarrow> bool" where
  "between lo hi c \<longleftrightarrow> of_char lo \<le> (of_char c :: nat) \<and> of_char c \<le> (of_char hi :: nat)"

definition is_ascii_hexdigit :: "char \<Rightarrow> bool" where
  "is_ascii_hexdigit c \<longleftrightarrow> between (CHR ''0'') (CHR ''9'') c \<or> between (CHR ''a'') (CHR ''f'') c \<or> between (CHR ''A'') (CHR ''F'') c"

definition is_ascii_uppercase :: "char \<Rightarrow> bool" where
  "is_ascii_uppercase c \<longleftrightarrow> between (CHR ''A'') (CHR ''Z'') c"

definition is_blake3_hex :: "string \<Rightarrow> bool" where
  "is_blake3_hex s \<longleftrightarrow> length s = 64 \<and> list_all (\<lambda>c. is_ascii_hexdigit c \<and> \<not> is_ascii_uppercase c) s"

text \<open>\<^verbatim>\<open>ok_or_else\<close> followed by \<^verbatim>\<open>?\<close>, and a guard.\<close>

definition need :: "'a option \<Rightarrow> reject_reason \<Rightarrow> ('a, reject_reason) res" where
  "need m e = ok_or m e"

definition guard_ok :: "bool \<Rightarrow> reject_reason \<Rightarrow> (unit, reject_reason) res" where
  "guard_ok b e = (if b then Ok () else Err e)"

fun each_ok :: "('a \<Rightarrow> (unit, reject_reason) res) \<Rightarrow> 'a list \<Rightarrow> (unit, reject_reason) res" where
  "each_ok f [] = Ok ()"
| "each_ok f (x # xs) = bind_res (f x) (\<lambda>_. each_ok f xs)"

definition validate_leg :: "json \<Rightarrow> (unit, reject_reason) res" where
  "validate_leg leg =
    bind_res (need (as_object leg) FieldTypeWrong) (\<lambda>_.
    bind_res (need (get_as as_str ''pool'' leg) FieldTypeWrong) (\<lambda>pool.
    bind_res (guard_ok (\<not> (length pool < 32 \<or> 64 < length pool)) FieldTypeWrong) (\<lambda>_.
    bind_res (need (get_as as_str ''dex'' leg) FieldTypeWrong) (\<lambda>dex.
    bind_res (guard_ok (is_valid_dex dex) DexInvalid) (\<lambda>_.
    bind_res (need (get_as as_str ''direction'' leg) FieldTypeWrong) (\<lambda>direction.
    bind_res (guard_ok (is_valid_direction direction) DirectionInvalid) (\<lambda>_.
    bind_res (need (get_as as_i64 ''weight'' leg) FieldTypeWrong) (\<lambda>_. Ok ()))))))))"

definition validate_dex :: "json \<Rightarrow> (unit, reject_reason) res" where
  "validate_dex d = bind_res (need (as_str d) FieldTypeWrong) (\<lambda>s. guard_ok (is_valid_dex s) DexInvalid)"

definition validate_number :: "json \<Rightarrow> string \<times> bool \<Rightarrow> (unit, reject_reason) res" where
  "validate_number value = (\<lambda>(field, must_be_nonneg).
    bind_res (need (get_as as_i64 field value) FieldTypeWrong) (\<lambda>n.
    guard_ok (\<not> (must_be_nonneg \<and> n < 0)) FieldTypeWrong))"

definition validate_private :: "json \<Rightarrow> (unit, reject_reason) res" where
  "validate_private value =
    (case as_object value of
       None \<Rightarrow> Ok ()
     | Some kvs \<Rightarrow> each_ok (\<lambda>(k, _). guard_ok (take 6 k \<noteq> ''_priv_'') PrivateField) kvs)"

definition cycle_numbers :: "(string \<times> bool) list" where
  "cycle_numbers = [(''detected_at_slot'', True), (''gross_bps'', False), (''fee_bps_sum'', True),
    (''input_lamports'', True), (''output_lamports'', True)]"

text \<open>The decision and the evaluator, which both contracts check the same way.\<close>

definition validate_choice :: "json \<Rightarrow> string \<Rightarrow> (string \<Rightarrow> bool) \<Rightarrow> reject_reason \<Rightarrow> (unit, reject_reason) res" where
  "validate_choice value field valid reason =
    bind_res (need (get_as as_str field value) FieldTypeWrong) (\<lambda>s. guard_ok (valid s) reason)"

definition validate_cycle_v1 :: "json \<Rightarrow> (unit, reject_reason) res" where
  "validate_cycle_v1 value =
    bind_res (need (get_as as_str ''schema'' value) SchemaMissing) (\<lambda>schema.
    bind_res (guard_ok (schema = ''cycle.v1'') SchemaUnknown) (\<lambda>_.
    bind_res (need (get_as as_str ''cycle_id'' value) CycleIdInvalid) (\<lambda>cycle_id.
    bind_res (guard_ok (is_blake3_hex cycle_id) CycleIdInvalid) (\<lambda>_.
    bind_res (need (get_as as_i64 ''detected_at_unix_ms'' value) FieldTypeWrong) (\<lambda>ts.
    bind_res (guard_ok (\<not> ts < 0) FieldTypeWrong) (\<lambda>_.
    bind_res (need (get_as as_array ''legs'' value) FieldTypeWrong) (\<lambda>legs.
    bind_res (guard_ok (legs \<noteq> []) LegsEmpty) (\<lambda>_.
    bind_res (each_ok validate_leg legs) (\<lambda>_.
    bind_res (need (get_as as_array ''dexes'' value) FieldTypeWrong) (\<lambda>dexes.
    bind_res (guard_ok (dexes \<noteq> []) FieldTypeWrong) (\<lambda>_.
    bind_res (each_ok validate_dex dexes) (\<lambda>_.
    bind_res (each_ok (validate_number value) cycle_numbers) (\<lambda>_.
    bind_res (validate_choice value ''decision'' is_valid_decision DecisionInvalid) (\<lambda>_.
    bind_res (validate_choice value ''evaluator'' is_valid_evaluator EvaluatorInvalid) (\<lambda>_.
    bind_res (validate_choice value ''source_feed'' is_valid_source_feed SourceFeedInvalid) (\<lambda>_.
    bind_res (need (get_as as_str ''bot_run_id'' value) FieldTypeWrong) (\<lambda>bot_run_id.
    bind_res (guard_ok (bot_run_id \<noteq> []) FieldTypeWrong) (\<lambda>_.
    validate_private value))))))))))))))))))"

definition validate_text :: "json \<Rightarrow> string \<Rightarrow> (unit, reject_reason) res" where
  "validate_text value field =
    bind_res (need (get_as as_str field value) FieldTypeWrong) (\<lambda>s. guard_ok (s \<noteq> []) FieldTypeWrong)"

definition validate_trade_v1 :: "json \<Rightarrow> (unit, reject_reason) res" where
  "validate_trade_v1 value =
    bind_res (need (get_as as_str ''schema'' value) SchemaMissing) (\<lambda>schema.
    bind_res (guard_ok (schema = ''trade.v1'') SchemaUnknown) (\<lambda>_.
    bind_res (each_ok (validate_text value) [''trade_id'', ''cycle_id'', ''bot_run_id'', ''decision'', ''evaluator'']) (\<lambda>_.
    bind_res (validate_number value (''ts_unix_ms'', True)) (\<lambda>_.
    bind_res (each_ok (validate_number value) [(''input_lamports'', True), (''output_lamports'', True)]) (\<lambda>_.
    bind_res (validate_choice value ''decision'' is_valid_decision DecisionInvalid) (\<lambda>_.
    validate_choice value ''evaluator'' is_valid_evaluator EvaluatorInvalid))))))"

section \<open>Signing material\<close>

text \<open>A match of the regular expression lies between word boundaries, so it is a whole maximal run of word
  characters. Bytes of characters outside ASCII count as word characters.\<close>

definition is_word_char :: "char \<Rightarrow> bool" where
  "is_word_char c \<longleftrightarrow> between (CHR ''0'') (CHR ''9'') c \<or> between (CHR ''a'') (CHR ''z'') c
    \<or> between (CHR ''A'') (CHR ''Z'') c \<or> c = CHR ''_'' \<or> 128 \<le> (of_char c :: nat)"

function word_runs :: "string \<Rightarrow> string list" where
  "word_runs s =
    (case dropWhile (\<lambda>c. \<not> is_word_char c) s of
       [] \<Rightarrow> []
     | c # cs \<Rightarrow> (c # takeWhile is_word_char cs) # word_runs (dropWhile is_word_char cs))"
  by pat_completeness auto
termination
proof (relation "measure length")
  fix s c cs
  assume "dropWhile (\<lambda>c. \<not> is_word_char c) s = c # cs"
  then have "length (c # cs) \<le> length s" using length_dropWhile_le [of "\<lambda>c. \<not> is_word_char c" s] by simp
  moreover have "length (dropWhile is_word_char cs) \<le> length cs" by (rule length_dropWhile_le)
  ultimately show "(dropWhile is_word_char cs, s) \<in> measure length" by simp
qed simp

declare word_runs.simps [simp del]

definition is_base58 :: "char \<Rightarrow> bool" where
  "is_base58 c \<longleftrightarrow> between (CHR ''1'') (CHR ''9'') c \<or> between (CHR ''A'') (CHR ''H'') c \<or> between (CHR ''J'') (CHR ''N'') c
    \<or> between (CHR ''P'') (CHR ''Z'') c \<or> between (CHR ''a'') (CHR ''k'') c \<or> between (CHR ''m'') (CHR ''z'') c"

definition is_key_like :: "string \<Rightarrow> bool" where
  "is_key_like w \<longleftrightarrow> length w = 64 \<and> list_all is_ascii_hexdigit w \<or> 64 \<le> length w \<and> length w \<le> 88 \<and> list_all is_base58 w"

fun is_infix :: "string \<Rightarrow> string \<Rightarrow> bool" where
  "is_infix needle [] = (needle = [])"
| "is_infix needle (c # cs) = (take (length needle) (c # cs) = needle \<or> is_infix needle cs)"

definition secret_words :: "string list" where
  "secret_words = [''private_key'', ''secret_key'', ''seed'', ''mnemonic'', ''passphrase'']"

definition line_contains_signing_material :: "string \<Rightarrow> bool" where
  "line_contains_signing_material line \<longleftrightarrow>
    list_ex is_key_like (word_runs line) \<and> list_ex (\<lambda>w. is_infix w line) secret_words"

section \<open>Wire types and line parsers\<close>

record leg_v1 =
  lv_pool :: string
  lv_dex :: string
  lv_direction :: string
  lv_weight :: i64

record cycle_v1 =
  cv_schema :: string
  cv_cycle_id :: string
  cv_detected_at_unix_ms :: i64
  cv_detected_at_slot :: u64
  cv_bot_run_id :: string
  cv_dexes :: "string list"
  cv_legs :: "leg_v1 list"
  cv_base_mint :: string
  cv_quote_mint :: string
  cv_gross_bps :: i64
  cv_fee_bps_sum :: u32
  cv_decision :: string
  cv_evaluator :: string
  cv_input_lamports :: u64
  cv_output_lamports :: u64
  cv_source_feed :: string

fun each_some :: "('a \<Rightarrow> 'b option) \<Rightarrow> 'a list \<Rightarrow> 'b list option" where
  "each_some f [] = Some []"
| "each_some f (x # xs) = (case (f x, each_some f xs) of (Some y, Some ys) \<Rightarrow> Some (y # ys) | _ \<Rightarrow> None)"

text \<open>The derived deserializers: every field present and of its type, other fields ignored.\<close>

definition leg_from_value :: "json \<Rightarrow> leg_v1 option" where
  "leg_from_value v =
    Option.bind (get_as as_str ''pool'' v) (\<lambda>pool.
    Option.bind (get_as as_str ''dex'' v) (\<lambda>dex.
    Option.bind (get_as as_str ''direction'' v) (\<lambda>direction.
    Option.bind (get_as as_i64 ''weight'' v) (\<lambda>weight.
    Some \<lparr>lv_pool = pool, lv_dex = dex, lv_direction = direction, lv_weight = weight\<rparr>))))"

definition cycle_from_value :: "json \<Rightarrow> cycle_v1 option" where
  "cycle_from_value v =
    Option.bind (get_as as_str ''schema'' v) (\<lambda>schema.
    Option.bind (get_as as_str ''cycle_id'' v) (\<lambda>cycle_id.
    Option.bind (get_as as_i64 ''detected_at_unix_ms'' v) (\<lambda>ts.
    Option.bind (get_as as_u64 ''detected_at_slot'' v) (\<lambda>sl.
    Option.bind (get_as as_str ''bot_run_id'' v) (\<lambda>run.
    Option.bind (Option.bind (get_as as_array ''dexes'' v) (each_some as_str)) (\<lambda>dexes.
    Option.bind (Option.bind (get_as as_array ''legs'' v) (each_some leg_from_value)) (\<lambda>legs.
    Option.bind (get_as as_str ''base_mint'' v) (\<lambda>base.
    Option.bind (get_as as_str ''quote_mint'' v) (\<lambda>quote.
    Option.bind (get_as as_i64 ''gross_bps'' v) (\<lambda>gross.
    Option.bind (get_as as_u32 ''fee_bps_sum'' v) (\<lambda>fee.
    Option.bind (get_as as_str ''decision'' v) (\<lambda>decision.
    Option.bind (get_as as_str ''evaluator'' v) (\<lambda>evaluator.
    Option.bind (get_as as_u64 ''input_lamports'' v) (\<lambda>input.
    Option.bind (get_as as_u64 ''output_lamports'' v) (\<lambda>output.
    Option.bind (get_as as_str ''source_feed'' v) (\<lambda>feed.
    Some \<lparr>cv_schema = schema, cv_cycle_id = cycle_id, cv_detected_at_unix_ms = ts, cv_detected_at_slot = sl,
      cv_bot_run_id = run, cv_dexes = dexes, cv_legs = legs, cv_base_mint = base, cv_quote_mint = quote,
      cv_gross_bps = gross, cv_fee_bps_sum = fee, cv_decision = decision, cv_evaluator = evaluator,
      cv_input_lamports = input, cv_output_lamports = output, cv_source_feed = feed\<rparr>))))))))))))))))"

record trade_v1 =
  tv_schema :: string
  tv_trade_id :: string
  tv_cycle_id :: string
  tv_bot_run_id :: string
  tv_ts_unix_ms :: i64
  tv_input_lamports :: u64
  tv_output_lamports :: u64
  tv_decision :: string
  tv_evaluator :: string

definition trade_from_value :: "json \<Rightarrow> trade_v1 option" where
  "trade_from_value v =
    Option.bind (get_as as_str ''schema'' v) (\<lambda>schema.
    Option.bind (get_as as_str ''trade_id'' v) (\<lambda>trade_id.
    Option.bind (get_as as_str ''cycle_id'' v) (\<lambda>cycle_id.
    Option.bind (get_as as_str ''bot_run_id'' v) (\<lambda>run.
    Option.bind (get_as as_i64 ''ts_unix_ms'' v) (\<lambda>ts.
    Option.bind (get_as as_u64 ''input_lamports'' v) (\<lambda>input.
    Option.bind (get_as as_u64 ''output_lamports'' v) (\<lambda>output.
    Option.bind (get_as as_str ''decision'' v) (\<lambda>decision.
    Option.bind (get_as as_str ''evaluator'' v) (\<lambda>evaluator.
    Some \<lparr>tv_schema = schema, tv_trade_id = trade_id, tv_cycle_id = cycle_id, tv_bot_run_id = run, tv_ts_unix_ms = ts,
      tv_input_lamports = input, tv_output_lamports = output, tv_decision = decision, tv_evaluator = evaluator\<rparr>)))))))))"

text \<open>A contract: its validator, then its deserializer.\<close>

definition parse_line ::
    "(string \<Rightarrow> json option) \<Rightarrow> (json \<Rightarrow> (unit, reject_reason) res) \<Rightarrow> (json \<Rightarrow> 'a option) \<Rightarrow> string \<Rightarrow> ('a, reject_reason) res" where
  "parse_line from_str validate from_value line =
    (if line_contains_signing_material line then Err SigningMaterial
     else bind_res (need (from_str line) NotJson) (\<lambda>value.
       bind_res (validate value) (\<lambda>_. need (from_value value) FieldTypeWrong)))"

definition parse_cycle_v1_line :: "(string \<Rightarrow> json option) \<Rightarrow> string \<Rightarrow> (cycle_v1, reject_reason) res" where
  "parse_cycle_v1_line from_str = parse_line from_str validate_cycle_v1 cycle_from_value"

definition parse_trade_v1_line :: "(string \<Rightarrow> json option) \<Rightarrow> string \<Rightarrow> (trade_v1, reject_reason) res" where
  "parse_trade_v1_line from_str = parse_line from_str validate_trade_v1 trade_from_value"

section \<open>What the validator accepts\<close>

definition leg_ok :: "leg_v1 \<Rightarrow> bool" where
  "leg_ok l \<longleftrightarrow> 32 \<le> length (lv_pool l) \<and> length (lv_pool l) \<le> 64 \<and> is_valid_dex (lv_dex l)
    \<and> is_valid_direction (lv_direction l) \<and> in_range 64 (lv_weight l)"

text \<open>The contract, on the wire type. The two mints are not checked, and one leg is enough.\<close>

definition cycle_ok :: "cycle_v1 \<Rightarrow> bool" where
  "cycle_ok c \<longleftrightarrow> cv_schema c = ''cycle.v1'' \<and> is_blake3_hex (cv_cycle_id c)
    \<and> 0 \<le> cv_detected_at_unix_ms c \<and> in_range 64 (cv_detected_at_unix_ms c)
    \<and> cv_legs c \<noteq> [] \<and> list_all leg_ok (cv_legs c) \<and> cv_dexes c \<noteq> [] \<and> list_all is_valid_dex (cv_dexes c)
    \<and> in_range 64 (cv_gross_bps c)
    \<and> unat (cv_detected_at_slot c) < 2 ^ 63 \<and> unat (cv_input_lamports c) < 2 ^ 63 \<and> unat (cv_output_lamports c) < 2 ^ 63
    \<and> is_valid_decision (cv_decision c) \<and> is_valid_evaluator (cv_evaluator c) \<and> is_valid_source_feed (cv_source_feed c)
    \<and> cv_bot_run_id c \<noteq> []"

lemma need_Ok_iff [simp]: "need m e = Ok v \<longleftrightarrow> m = Some v"
  by (simp add: need_def)

lemma guard_ok_iff [simp]: "guard_ok b e = Ok u \<longleftrightarrow> b"
  by (simp add: guard_ok_def)

lemma each_ok_iff: "each_ok f xs = Ok u \<longleftrightarrow> (\<forall>x\<in>set xs. f x = Ok ())"
  by (induction xs) (auto simp: bind_res_Ok_iff)

lemma each_some_Cons:
  "each_some f (x # xs) = Some ys \<longleftrightarrow> (\<exists>y zs. f x = Some y \<and> each_some f xs = Some zs \<and> ys = y # zs)"
  by (auto split: option.splits)

lemma each_some_iff: "each_some f xs = Some ys \<longleftrightarrow> list_all2 (\<lambda>x y. f x = Some y) xs ys"
proof (induction xs arbitrary: ys)
  case (Cons x xs)
  show ?case unfolding each_some_Cons Cons.IH by (cases ys) auto
qed auto

lemma as_i64_range: "as_i64 v = Some i \<Longrightarrow> in_range 64 i"
  by (auto simp: as_i64_def split: json.splits if_splits)

lemma get_as_object: "get_as f k v = Some x \<Longrightarrow> \<exists>kvs. as_object v = Some kvs"
  by (cases "as_object v") (auto simp: get_as_def json_get_def)

lemma get_as_range: "get_as as_i64 k v = Some i \<Longrightarrow> in_range 64 i"
  by (auto simp: get_as_def Option.bind_eq_Some_conv dest: as_i64_range)

text \<open>A number that the validator reads as a non-negative \<^verbatim>\<open>i64\<close> is read by the deserializer as the same \<^verbatim>\<open>u64\<close>.\<close>

lemma get_as_u64_iff:
  "get_as as_i64 k v = Some n \<and> 0 \<le> n \<longleftrightarrow> (\<exists>w. get_as as_u64 k v = Some w \<and> unat w < 2 ^ 63 \<and> n = int (unat w))"
proof (cases "json_get k v")
  case (Some x)
  show ?thesis
  proof (cases "\<exists>i. x = JInt i")
    case True
    then obtain i where x: "x = JInt i" by blast
    have "unat (of_int i :: u64) = nat i" if "0 \<le> i" "i < 2 ^ 64"
      using that by (simp add: unsigned_of_int take_bit_int_eq_self)
    then show ?thesis
      by (auto simp: get_as_def Some x as_i64_def as_u64_def in_range_def smin_def smax_def nat_less_iff simp del: of_nat_unat)
  qed (auto simp: get_as_def Some as_i64_def as_u64_def split: json.splits)
qed (simp add: get_as_def)

lemma validate_leg_iff: "validate_leg v = Ok u \<longleftrightarrow> (\<exists>l. leg_from_value v = Some l \<and> leg_ok l)"
  by (auto simp: validate_leg_def leg_from_value_def leg_ok_def bind_res_Ok_iff Option.bind_eq_Some_conv not_less
      dest: get_as_object intro: get_as_range)

lemma validate_dex_iff: "validate_dex v = Ok u \<longleftrightarrow> (\<exists>s. as_str v = Some s \<and> is_valid_dex s)"
  by (auto simp: validate_dex_def bind_res_Ok_iff)

lemma each_ok_legs:
  "each_some leg_from_value vs = Some ls \<Longrightarrow> each_ok validate_leg vs = Ok u \<longleftrightarrow> list_all leg_ok ls"
  unfolding each_some_iff each_ok_iff
  by (induction vs ls rule: list_all2_induct) (auto simp: validate_leg_iff)

lemma each_ok_dexes:
  "each_some as_str vs = Some ds \<Longrightarrow> each_ok validate_dex vs = Ok u \<longleftrightarrow> list_all is_valid_dex ds"
  unfolding each_some_iff each_ok_iff
  by (induction vs ds rule: list_all2_induct) (auto simp: validate_dex_iff)

lemma each_some_Nil_iff: "each_some f vs = Some ys \<Longrightarrow> vs = [] \<longleftrightarrow> ys = []"
  by (auto simp: each_some_iff)

definition private_free :: "json \<Rightarrow> bool" where
  "private_free v \<longleftrightarrow> (\<forall>kvs. as_object v = Some kvs \<longrightarrow> (\<forall>(k, _)\<in>set kvs. take 6 k \<noteq> ''_priv_''))"

lemma validate_private_iff: "validate_private v = Ok u \<longleftrightarrow> private_free v"
  by (auto simp: validate_private_def private_free_def each_ok_iff split: option.splits)

lemma validate_choice_iff:
  "validate_choice v k P e = Ok u \<longleftrightarrow> (\<exists>s. get_as as_str k v = Some s \<and> P s)"
  by (auto simp: validate_choice_def bind_res_Ok_iff)

lemma validate_number_iff:
  "validate_number v (k, nn) = Ok u \<longleftrightarrow> (\<exists>n. get_as as_i64 k v = Some n \<and> (nn \<longrightarrow> 0 \<le> n))"
  by (auto simp: validate_number_def bind_res_Ok_iff not_less)

lemma validate_nonneg_u64:
  assumes "get_as as_u64 k v = Some w"
  shows "validate_number v (k, True) = Ok u \<longleftrightarrow> unat w < 2 ^ 63"
  using get_as_u64_iff [of k v] assms unfolding validate_number_iff by auto

lemma validate_nonneg_u32:
  assumes "get_as as_u32 k v = Some w"
  shows "validate_number v (k, True) = Ok u"
proof -
  obtain i where i: "json_get k v = Some (JInt i)" "0 \<le> i" "i < 2 ^ 32"
  proof -
    obtain y where y: "json_get k v = Some y" "as_u32 y = Some w"
      using assms by (auto simp: get_as_def Option.bind_eq_Some_conv)
    then show thesis using that by (cases y) (auto simp: as_u32_def split: if_splits)
  qed
  then show ?thesis unfolding validate_number_iff by (simp add: get_as_def as_i64_def in_range_def smin_def smax_def)
qed

lemma validate_cycle_row:
  assumes row: "cycle_from_value v = Some row"
  shows "validate_cycle_v1 v = Ok u \<longleftrightarrow> cycle_ok row \<and> private_free v"
proof -
  obtain dexes where d: "get_as as_array ''dexes'' v = Some dexes" "each_some as_str dexes = Some (cv_dexes row)"
    using row unfolding cycle_from_value_def Option.bind_eq_Some_conv by auto
  obtain legs where l: "get_as as_array ''legs'' v = Some legs" "each_some leg_from_value legs = Some (cv_legs row)"
    using row unfolding cycle_from_value_def Option.bind_eq_Some_conv by auto
  have f: "get_as as_str ''schema'' v = Some (cv_schema row)" "get_as as_str ''cycle_id'' v = Some (cv_cycle_id row)"
    "get_as as_i64 ''detected_at_unix_ms'' v = Some (cv_detected_at_unix_ms row)"
    "get_as as_u64 ''detected_at_slot'' v = Some (cv_detected_at_slot row)"
    "get_as as_str ''bot_run_id'' v = Some (cv_bot_run_id row)" "get_as as_i64 ''gross_bps'' v = Some (cv_gross_bps row)"
    "get_as as_u32 ''fee_bps_sum'' v = Some (cv_fee_bps_sum row)" "get_as as_str ''decision'' v = Some (cv_decision row)"
    "get_as as_str ''evaluator'' v = Some (cv_evaluator row)" "get_as as_u64 ''input_lamports'' v = Some (cv_input_lamports row)"
    "get_as as_u64 ''output_lamports'' v = Some (cv_output_lamports row)" "get_as as_str ''source_feed'' v = Some (cv_source_feed row)"
    using row unfolding cycle_from_value_def Option.bind_eq_Some_conv by auto
  have ranges: "in_range 64 (cv_detected_at_unix_ms row)" "in_range 64 (cv_gross_bps row)"
    using f(3,6) by (auto dest: get_as_range)
  have numbers: "each_ok (validate_number v) cycle_numbers = Ok () \<longleftrightarrow>
      unat (cv_detected_at_slot row) < 2 ^ 63 \<and> unat (cv_input_lamports row) < 2 ^ 63 \<and> unat (cv_output_lamports row) < 2 ^ 63"
    unfolding each_ok_iff cycle_numbers_def
    using validate_nonneg_u64 [OF f(4), of "()"] validate_nonneg_u64 [OF f(10), of "()"] validate_nonneg_u64 [OF f(11), of "()"]
      validate_nonneg_u32 [OF f(7), of "()"] f(6) validate_number_iff [of v "''gross_bps''" False "()"]
    by simp
  show ?thesis
    using numbers ranges each_ok_legs [OF l(2), of "()"] each_ok_dexes [OF d(2), of "()"] each_some_Nil_iff [OF l(2)] each_some_Nil_iff [OF d(2)]
    unfolding validate_cycle_v1_def cycle_ok_def
    by (simp add: bind_res_Ok_iff f d l validate_choice_iff validate_private_iff not_less)
qed


section \<open>What the scan for signing material finds\<close>

lemma word_runs_sep: "\<not> is_word_char c \<Longrightarrow> word_runs (c # s) = word_runs s"
  by (subst (1 2) word_runs.simps) simp

lemma word_runs_word:
  assumes "w \<noteq> []" "list_all is_word_char w" "rest = [] \<or> \<not> is_word_char (hd rest)"
  shows "word_runs (w @ rest) = w # word_runs rest"
proof -
  obtain c cs where w: "w = c # cs" using assms(1) by (cases w) auto
  have cs: "\<forall>x\<in>set cs. is_word_char x" "is_word_char c" using assms(2) w by (auto simp: list_all_iff)
  have split: "takeWhile is_word_char (cs @ rest) = cs" "dropWhile is_word_char (cs @ rest) = rest"
    using cs(1) assms(3) by (induction cs) (auto simp: takeWhile_eq_Nil_iff dropWhile_eq_self_iff)
  show ?thesis unfolding w by (subst word_runs.simps) (simp add: cs(2) split)
qed

lemma word_runs_append_sep:
  "\<not> is_word_char c \<Longrightarrow> word_runs (a @ c # b) = word_runs a @ word_runs b"
proof (induction a rule: word_runs.induct)
  case (1 a)
  define t where "t = dropWhile (\<lambda>c. \<not> is_word_char c) a"
  have front: "\<exists>p. a = p @ t \<and> (\<forall>x\<in>set p. \<not> is_word_char x)"
    unfolding t_def by (metis set_takeWhileD takeWhile_dropWhile_id)
  then obtain p where p: "a = p @ t" "\<forall>x\<in>set p. \<not> is_word_char x" by blast
  have drop: "word_runs (p @ r) = word_runs r" for r
    using p(2) by (induction p) (simp_all add: word_runs_sep)
  show ?case
  proof (cases t)
    case Nil
    then show ?thesis unfolding p(1) append_assoc drop using 1(2) by (subst (2) word_runs.simps) (simp add: word_runs_sep)
  next
    case (Cons x xs)
    have x: "is_word_char x" using Cons unfolding t_def by (simp add: dropWhile_eq_Cons_conv)
    define w where "w = x # takeWhile is_word_char xs"
    define r where "r = dropWhile is_word_char xs"
    have tw: "t = w @ r" using Cons by (simp add: w_def r_def)
    have wall: "w \<noteq> []" "list_all is_word_char w" using x by (auto simp: w_def list_all_iff dest: set_takeWhileD)
    have hd_r: "r = [] \<or> \<not> is_word_char (hd r)" unfolding r_def by (metis hd_dropWhile)
    have ih: "word_runs (r @ c # b) = word_runs r @ word_runs b"
      using 1(1) [of x xs] Cons 1(2) unfolding t_def r_def by simp
    have "word_runs (t @ c # b) = w # word_runs (r @ c # b)"
      unfolding tw append_assoc using wall hd_r 1(2) by (intro word_runs_word) (auto simp: hd_append)
    moreover have "word_runs t = w # word_runs r"
      unfolding tw using wall hd_r by (rule word_runs_word)
    ultimately show ?thesis unfolding p(1) append_assoc drop using ih by simp
  qed
qed

lemma hex_is_word: "is_ascii_hexdigit c \<Longrightarrow> is_word_char c"
  by (auto simp: is_ascii_hexdigit_def is_word_char_def between_def)

lemma quote_not_word: "\<not> is_word_char (CHR 0x22)"
  by (simp add: is_word_char_def between_def)

text \<open>A quoted identifier of a cycle always looks like a key.\<close>

lemma cycle_id_looks_like_key:
  assumes "is_blake3_hex i"
  shows "list_ex is_key_like (word_runs (a @ [CHR 0x22] @ i @ [CHR 0x22] @ b))"
proof -
  have i: "i \<noteq> []" "list_all is_word_char i" "list_all is_ascii_hexdigit i" "length i = 64"
    using assms by (auto simp: is_blake3_hex_def list_all_iff dest: hex_is_word)
  have "word_runs (a @ [CHR 0x22] @ i @ [CHR 0x22] @ b) = word_runs a @ word_runs (i @ CHR 0x22 # b)"
    using word_runs_append_sep [OF quote_not_word, of a] by simp
  also have "word_runs (i @ CHR 0x22 # b) = i # word_runs (CHR 0x22 # b)"
    using i quote_not_word by (intro word_runs_word) auto
  finally show ?thesis using i by (simp add: is_key_like_def)
qed

definition dq :: string where
  "dq = [CHR 0x22]"

text \<open>The scan for signing material misses and over-reports. Every line with a valid cycle identifier looks like one that
  holds a key, so it is refused exactly when one of five words stands anywhere in it, in a run identifier for
  instance; and a private key written with the usual \<open>0x\<close> in front is not found.\<close>

theorem signing_scan_misjudges:
  assumes "is_blake3_hex i" and "list_all is_ascii_hexdigit k" and "length k = 64"
  shows "(line_contains_signing_material (a @ dq @ i @ dq @ b)
      \<longleftrightarrow> list_ex (\<lambda>w. is_infix w (a @ dq @ i @ dq @ b)) secret_words)
    \<and> \<not> line_contains_signing_material (''{'' @ dq @ ''private_key'' @ dq @ '':'' @ dq @ ''0x'' @ k @ dq @ ''}'')"
proof
  show "line_contains_signing_material (a @ dq @ i @ dq @ b)
      \<longleftrightarrow> list_ex (\<lambda>w. is_infix w (a @ dq @ i @ dq @ b)) secret_words"
    using cycle_id_looks_like_key [OF assms(1), of a b] by (simp add: line_contains_signing_material_def dq_def)
next
  have kw: "list_all is_word_char (''0x'' @ k)"
  proof -
    have "is_word_char (CHR ''0'')" "is_word_char (CHR ''x'')" by (simp_all add: is_word_char_def between_def)
    then show ?thesis using assms(2) hex_is_word by (simp add: list_all_iff)
  qed
  have seps: "\<not> is_word_char (CHR ''{'')" "\<not> is_word_char (CHR ''}'')" "\<not> is_word_char (CHR '':'')"
    by (simp_all add: is_word_char_def between_def)
  have tail: "word_runs ((''0x'' @ k) @ dq @ ''}'') = [''0x'' @ k]"
    using kw quote_not_word seps by (subst word_runs_word) (simp_all add: dq_def word_runs_sep word_runs.simps [of "[]"])
  have name: "word_runs (''private_key'' @ r) = ''private_key'' # word_runs r" if "\<not> is_word_char (hd r)" for r
    using that by (intro word_runs_word) (simp_all, simp add: is_word_char_def between_def)
  have mid: "word_runs (dq @ '':'' @ dq @ r) = word_runs r" for r
    using quote_not_word seps by (simp add: dq_def word_runs_sep)
  have front: "word_runs (''{'' @ dq @ r) = word_runs r" for r
    using quote_not_word seps by (simp add: dq_def word_runs_sep)
  have q: "\<not> is_word_char (hd (dq @ r))" for r using quote_not_word by (simp add: dq_def)
  have runs: "word_runs (''{'' @ dq @ ''private_key'' @ dq @ '':'' @ dq @ ''0x'' @ k @ dq @ ''}'') = [''private_key'', ''0x'' @ k]"
    unfolding front name [OF q] mid using tail by (simp only: append_assoc)
  have "\<not> is_key_like (''0x'' @ k)" "\<not> is_key_like ''private_key''"
    using assms(3) by (simp_all add: is_key_like_def is_base58_def between_def)
  then show "\<not> line_contains_signing_material (''{'' @ dq @ ''private_key'' @ dq @ '':'' @ dq @ ''0x'' @ k @ dq @ ''}'')"
    unfolding line_contains_signing_material_def runs by simp
qed

lemma signing_scan_misjudges_witness:
  "line_contains_signing_material (''{'' @ dq @ ''cycle_id'' @ dq @ '':'' @ dq @ replicate 64 (CHR ''0'') @ dq
      @ '','' @ dq @ ''bot_run_id'' @ dq @ '':'' @ dq @ ''seedling'' @ dq @ ''}'')
    \<and> \<not> line_contains_signing_material (''{'' @ dq @ ''private_key'' @ dq @ '':'' @ dq @ ''0x'' @ replicate 64 (CHR ''f'') @ dq @ ''}'')"
proof -
  have z: "is_blake3_hex (replicate 64 (CHR ''0''))" "list_all is_ascii_hexdigit (replicate 64 (CHR ''f''))"
    by (simp_all add: is_blake3_hex_def list_all_iff is_ascii_hexdigit_def is_ascii_uppercase_def between_def)
  have found: "is_infix ''seed'' (u @ ''seed'' @ v)" for u v by (induction u) simp_all
  show ?thesis
    using signing_scan_misjudges [OF z, of "''{'' @ dq @ ''cycle_id'' @ dq @ '':''" "'','' @ dq @ ''bot_run_id'' @ dq @ '':'' @ dq @ ''seedling'' @ dq @ ''}''"]
      found [of "(''{'' @ dq @ ''cycle_id'' @ dq @ '':'') @ dq @ replicate 64 (CHR ''0'') @ dq @ '','' @ dq @ ''bot_run_id'' @ dq @ '':'' @ dq" "''ling'' @ dq @ ''}''"]
    by (simp add: secret_words_def)
qed

text \<open>Only fields at the top of the document are checked for privacy: a leg may carry any.\<close>

lemma nested_private_field_accepted:
  assumes "k \<notin> {''pool'', ''dex'', ''direction'', ''weight''}"
  shows "validate_leg (JObj (kvs @ [(k, x)])) = validate_leg (JObj kvs)"
proof -
  have "map_of (kvs @ [(k, x)]) j = map_of kvs j" if "j \<noteq> k" for j
    using that by (simp add: map_add_def split: option.splits)
  then have g: "j \<noteq> k \<Longrightarrow> get_as as_str j (JObj (kvs @ [(k, x)])) = get_as as_str j (JObj kvs)"
    "j \<noteq> k \<Longrightarrow> get_as as_i64 j (JObj (kvs @ [(k, x)])) = get_as as_i64 j (JObj kvs)" for j
    by (simp_all add: get_as_def json_get_def)
  have n: "''pool'' \<noteq> k" "''dex'' \<noteq> k" "''direction'' \<noteq> k" "''weight'' \<noteq> k" using assms by auto
  show ?thesis unfolding validate_leg_def g(1) [OF n(1)] g(1) [OF n(2)] g(1) [OF n(3)] g(2) [OF n(4)]
    by (simp add: need_def ok_or_def)
qed

end
