(* ===== verification/Onchain.thy ===== *)
theory Onchain
  imports Recon Oracle Amount Validate
begin

text \<open>
  The comparison of a replay with the chain: the macro anchors of \<^verbatim>\<open>crates/dl-recon/src/onchain.rs\<close> (dataset,
  engine aggregates, divergence, calibration) and the sweep of \<^verbatim>\<open>crates/dl-recon/src/onchain_sweep.rs\<close> (one
  fetch per bundle, the five divergence rules, the totals). The JSON parser and the fetcher are arguments.
\<close>

section \<open>Anchors\<close>

datatype anchor_name =
    AttemptCount
  | LandedArbCount
  | MeanTipLamports
  | MedianWinnerPnlSol
  | P95WinnerPnlSol
  | TipAsPctOfMev

primrec tolerance_bps :: "anchor_name \<Rightarrow> u16" where
  "tolerance_bps AttemptCount = 500"
| "tolerance_bps LandedArbCount = 500"
| "tolerance_bps MeanTipLamports = 1000"
| "tolerance_bps MedianWinnerPnlSol = 1000"
| "tolerance_bps P95WinnerPnlSol = 2000"
| "tolerance_bps TipAsPctOfMev = 1500"

record anchor_entry =
  ae_name :: anchor_name
  ae_value :: u128
  ae_unit :: string
  ae_window_start_iso :: string
  ae_window_end_iso :: string
  ae_source :: string
  ae_pulled_at_iso :: string

record anchor_dataset =
  ad_entries :: "anchor_entry list"
  ad_window_start_slot :: u64
  ad_window_end_slot :: u64
  ad_pulled_at_iso :: string

record anchor_divergence =
  av_name :: anchor_name
  av_engine_value :: u128
  av_anchor_value :: u128
  av_divergence_bps :: i32
  av_tolerance_bps :: u16
  av_exceeds_tolerance :: bool

record calibration_fit =
  fit_input_divergences :: "anchor_divergence list"
  fit_improved_params :: eval_params
  fit_adjustment_bps :: i32
  fit_divergences_remaining :: "anchor_divergence list"

datatype onchain_error =
    OnchainIo
  | OnchainJson nat
  | DuplicateName anchor_name
  | UnknownName string
  | AggregateUnavailable anchor_name
  | EmptyDataset

text \<open>The loop over the numbered lines; a line that cannot be read is \<open>None\<close>.\<close>

fun anchor_lines ::
    "(string \<Rightarrow> anchor_entry option) \<Rightarrow> nat \<Rightarrow> string option list \<Rightarrow> anchor_name list \<Rightarrow> anchor_entry list \<Rightarrow>
      (anchor_entry list, onchain_error) res" where
  "anchor_lines parse n [] seen entries = Ok entries"
| "anchor_lines parse n (None # ls) seen entries = Err OnchainIo"
| "anchor_lines parse n (Some l # ls) seen entries =
    (let trimmed = str_trim l in
     if skipped_line trimmed then anchor_lines parse (n + 1) ls seen entries
     else (case parse trimmed of
         None \<Rightarrow> Err (OnchainJson (n + 1))
       | Some e \<Rightarrow>
           if ae_name e \<in> set seen then Err (DuplicateName (ae_name e))
           else anchor_lines parse (n + 1) ls (seen @ [ae_name e]) (entries @ [e])))"

definition load_anchors :: "(string \<Rightarrow> anchor_entry option) \<Rightarrow> string option list option \<Rightarrow> (anchor_dataset, onchain_error) res" where
  "load_anchors parse lines =
    (case lines of
       None \<Rightarrow> Err OnchainIo
     | Some ls \<Rightarrow> bind_res (anchor_lines parse 0 ls [] []) (\<lambda>entries.
         (case entries of
            [] \<Rightarrow> Err EmptyDataset
          | e # _ \<Rightarrow> Ok \<lparr>ad_entries = entries, ad_window_start_slot = 0, ad_window_end_slot = 0,
              ad_pulled_at_iso = ae_pulled_at_iso e\<rparr>)))"

definition anchor_get :: "anchor_name \<Rightarrow> anchor_dataset \<Rightarrow> anchor_entry option" where
  "anchor_get n d = find (\<lambda>e. ae_name e = n) (ad_entries d)"

text \<open>\<^verbatim>\<open>i128::unsigned_abs\<close>.\<close>

definition unsigned_abs_128 :: "i128 \<Rightarrow> u128" where
  "unsigned_abs_128 v = of_nat (nat \<bar>v\<bar>)"

definition engine_aggregate :: "replay_report \<Rightarrow> anchor_name \<Rightarrow> (u128, onchain_error) res" where
  "engine_aggregate report n =
    (case n of
       AttemptCount \<Rightarrow> Ok (ucast (rr_feed_events_consumed report))
     | LandedArbCount \<Rightarrow> Ok (ucast (ls_would_trade (rr_summary report)))
     | MeanTipLamports \<Rightarrow> Ok (ucast (rr_total_tip_lamports report))
     | MedianWinnerPnlSol \<Rightarrow> Ok (unsigned_abs_128 (ls_median (rr_summary report)))
     | P95WinnerPnlSol \<Rightarrow> Ok (unsigned_abs_128 (ls_p95 (rr_summary report)))
     | TipAsPctOfMev \<Rightarrow>
         if ls_total (rr_summary report) = 0 then Ok 0
         else
           let total_mev = foldl (\<lambda>a v. clamp_i 128 (a + v)) 0
                 (map (\<lambda>rec. max (e_pnl (eo_conservative (cr_outcome rec))) 0) (rr_cycle_records report))
           in if total_mev \<le> 0 then Ok 0
              else Ok (unsigned_abs_128 (clamp_i 128 (int (unat (rr_total_tip_lamports report)) * 10000) sdiv total_mev)))"

text \<open>The subtraction, the product and \<^verbatim>\<open>abs\<close> are unchecked; \<^verbatim>\<open>/\<close> overflows at the least number by \<open>- 1\<close>.\<close>

definition compute_divergence :: "anchor_name \<Rightarrow> u128 \<Rightarrow> u128 \<Rightarrow> u16 \<Rightarrow> (anchor_divergence, onchain_error) res" where
  "compute_divergence n engine anchor tol =
    (if anchor = 0 then
       Ok \<lparr>av_name = n, av_engine_value = engine, av_anchor_value = anchor, av_divergence_bps = 0,
         av_tolerance_bps = tol, av_exceeds_tolerance = engine \<noteq> 0\<rparr>
     else
       let signed_anchor = as_i128 anchor in
       bind_res (range_p 128 (as_i128 engine - signed_anchor)) (\<lambda>diff.
       bind_res (range_p 128 (diff * 10000)) (\<lambda>scaled.
       bind_res (range_p 128 (scaled sdiv signed_anchor)) (\<lambda>bps.
       let bps_i32 = clamp_i 32 bps in
       bind_res (range_p 32 \<bar>bps_i32\<bar>) (\<lambda>size.
       Ok \<lparr>av_name = n, av_engine_value = engine, av_anchor_value = anchor, av_divergence_bps = bps_i32,
         av_tolerance_bps = tol, av_exceeds_tolerance = int (unat tol) < size\<rparr>)))))"

fun compare_entries :: "replay_report \<Rightarrow> anchor_entry list \<Rightarrow> (anchor_divergence list, onchain_error) res" where
  "compare_entries report [] = Ok []"
| "compare_entries report (e # es) =
    bind_res (engine_aggregate report (ae_name e)) (\<lambda>engine.
    bind_res (compute_divergence (ae_name e) engine (ae_value e) (tolerance_bps (ae_name e))) (\<lambda>d.
    bind_res (compare_entries report es) (\<lambda>ds. Ok (d # ds))))"

definition anchor_compare :: "anchor_dataset \<Rightarrow> replay_report \<Rightarrow> (anchor_divergence list, onchain_error) res" where
  "anchor_compare d report = compare_entries report (ad_entries d)"

text \<open>Whether a divergence remains when its engine value is scaled by the change of the win probability.\<close>

definition still_diverges :: "u128 \<Rightarrow> u128 \<Rightarrow> anchor_divergence \<Rightarrow> (bool, onchain_error) res" where
  "still_diverges scale_num scale_den d =
    bind_res (mul_p (av_engine_value d) scale_num) (\<lambda>scaled.
    let adjusted = scaled div scale_den in
    bind_res (if av_anchor_value d = 0 then Ok 0
        else bind_res (range_p 128 (as_i128 adjusted - as_i128 (av_anchor_value d))) (\<lambda>diff.
          bind_res (range_p 128 (diff * 10000)) (\<lambda>product.
          range_p 128 (product sdiv as_i128 (av_anchor_value d))))) (\<lambda>bps.
    Ok (ucast (av_tolerance_bps d) < unsigned_abs_128 bps)))"

fun filter_p :: "('a \<Rightarrow> (bool, 'e) res) \<Rightarrow> 'a list \<Rightarrow> ('a list, 'e) res" where
  "filter_p p [] = Ok []"
| "filter_p p (x # xs) =
    bind_res (p x) (\<lambda>keep. bind_res (filter_p p xs) (\<lambda>ys. Ok (if keep then x # ys else ys)))"

definition calibrate :: "anchor_divergence list \<Rightarrow> eval_params \<Rightarrow> (calibration_fit, onchain_error) res" where
  "calibrate divs current =
    bind_res (sum_p 64 0 (map av_divergence_bps divs)) (\<lambda>net_bps.
    let n = int (length divs); avg_bps = (if 0 < n then net_bps sdiv n else 0) in
    bind_res (range_p 64 (avg_bps * 1000)) (\<lambda>shift.
    bind_res (range_p 64 (- shift)) (\<lambda>shift_ppm.
    let cur_ppm = int (unat (base_win_ppm (ep_competition current))) in
    bind_res (range_p 64 (cur_ppm + shift_ppm)) (\<lambda>moved.
    let new_ppm = of_int (max 0 (min 1000000 moved)) :: u32;
        improved = current\<lparr>ep_competition := (ep_competition current)\<lparr>base_win_ppm := new_ppm\<rparr>\<rparr> in
    bind_res (mul_p (ucast new_ppm) 1000000) (\<lambda>scale_num.
    let scale_den = of_int (max cur_ppm 1) in
    bind_res (filter_p (still_diverges scale_num scale_den) divs) (\<lambda>remaining.
    Ok \<lparr>fit_input_divergences = divs, fit_improved_params = improved,
      fit_adjustment_bps = signed_take_bit 31 avg_bps, fit_divergences_remaining = remaining\<rparr>))))))"

definition anchor_reconcile :: "anchor_dataset \<Rightarrow> replay_report \<Rightarrow> eval_params \<Rightarrow> (calibration_fit, onchain_error) res" where
  "anchor_reconcile d report current = bind_res (anchor_compare d report) (\<lambda>divs. calibrate divs current)"

section \<open>The sweep\<close>

definition TIP_DRIFT_TOLERANCE_LAMPORTS :: u64 where
  "TIP_DRIFT_TOLERANCE_LAMPORTS = 1000"

datatype onchain_kind =
    TipDrift
  | SimulationLiedYes
  | SimulationLiedNo
  | RevertedAfterOk
  | MissingSignature

primrec as_spec_key :: "onchain_kind \<Rightarrow> string" where
  "as_spec_key TipDrift = ''tip_drift''"
| "as_spec_key SimulationLiedYes = ''simulation_lied_yes''"
| "as_spec_key SimulationLiedNo = ''simulation_lied_no''"
| "as_spec_key RevertedAfterOk = ''reverted_after_ok''"
| "as_spec_key MissingSignature = ''missing_signature''"

record bundle_fetch =
  bf_pre_balance :: i128
  bf_post_balance :: i128
  bf_funded_amount :: i128
  bf_tip_lamports :: u64
  bf_slot :: u64
  bf_tx_signature :: string
  bf_landed :: bool
  bf_reverted :: bool

definition realized_pnl_lamports :: "bundle_fetch \<Rightarrow> (i128, unit) res" where
  "realized_pnl_lamports f =
    bind_res (range_p 128 (bf_post_balance f - bf_pre_balance f)) (\<lambda>d. range_p 128 (d - bf_funded_amount f))"

datatype onchain_sweep_error = NoSignature string string | FetchFailed string

record sweep_row =
  sr_seq :: u64
  sr_cycle_hash :: string
  sr_paper_tip_lamports :: u64
  sr_realized_tip_lamports :: u64
  sr_paper_pnl_lamports :: i128
  sr_realized_pnl_lamports :: i128
  sr_landed :: bool
  sr_reverted :: bool
  sr_slot :: u64
  sr_tx_signature :: string
  sr_divergences :: "onchain_kind list"

record sweep_report =
  sp_bundles_submitted :: u64
  sp_bundles_landed :: u64
  sp_gross_pnl_lamports :: i128
  sp_tip_paid_lamports :: u128
  sp_rpc_cost_lamports :: u128
  sp_revert_cost_lamports :: u128
  sp_net_pnl_lamports :: i128
  sp_per_cycle :: "sweep_row list"
  sp_divergences :: "string \<rightharpoonup> u64"

definition sweep_report_empty :: sweep_report where
  "sweep_report_empty =
    \<lparr>sp_bundles_submitted = 0, sp_bundles_landed = 0, sp_gross_pnl_lamports = 0, sp_tip_paid_lamports = 0,
     sp_rpc_cost_lamports = 0, sp_revert_cost_lamports = 0, sp_net_pnl_lamports = 0, sp_per_cycle = [],
     sp_divergences = map_of (map (\<lambda>k. (as_spec_key k, 0))
       [TipDrift, SimulationLiedYes, SimulationLiedNo, RevertedAfterOk, MissingSignature])\<rparr>"

text \<open>\<^verbatim>\<open>format!("{:016x}")\<close> of a 64-bit number.\<close>

definition hex16 :: "u64 \<Rightarrow> string" where
  "hex16 w = map (\<lambda>i. hex_digit (unat w div 16 ^ i mod 16)) (rev [0..<16])"

definition abs_diff :: "u64 \<Rightarrow> u64 \<Rightarrow> u64" where
  "abs_diff a b = (if a < b then b - a else a - b)"

text \<open>The four rules for a bundle that was found, in the order of the source.\<close>

definition found_divergences :: "recon_row \<Rightarrow> bundle_fetch \<Rightarrow> i128 \<Rightarrow> onchain_kind list" where
  "found_divergences paper f pnl =
    (if TIP_DRIFT_TOLERANCE_LAMPORTS < abs_diff (bf_tip_lamports f) (rw_tip_lamports paper) then [TipDrift] else [])
    @ (if pnl < 0 \<and> 0 < rw_realized_lamports paper then [SimulationLiedYes] else [])
    @ (if 0 < pnl \<and> rw_realized_lamports paper \<le> 0 then [SimulationLiedNo] else [])
    @ (if bf_reverted f \<and> 0 < rw_realized_lamports paper then [RevertedAfterOk] else [])"

definition classify_onchain :: "recon_row \<Rightarrow> (bundle_fetch, onchain_sweep_error) res \<Rightarrow> (sweep_row, unit) res" where
  "classify_onchain paper fetched =
    (case fetched of
       Ok f \<Rightarrow> bind_res (realized_pnl_lamports f) (\<lambda>pnl.
         Ok \<lparr>sr_seq = rw_seq paper, sr_cycle_hash = ''0x'' @ hex16 (rw_cycle_hash paper),
           sr_paper_tip_lamports = rw_tip_lamports paper, sr_realized_tip_lamports = bf_tip_lamports f,
           sr_paper_pnl_lamports = rw_realized_lamports paper, sr_realized_pnl_lamports = pnl,
           sr_landed = bf_landed f, sr_reverted = bf_reverted f, sr_slot = bf_slot f,
           sr_tx_signature = bf_tx_signature f, sr_divergences = found_divergences paper f pnl\<rparr>)
     | Err _ \<Rightarrow>
         Ok \<lparr>sr_seq = rw_seq paper, sr_cycle_hash = ''0x'' @ hex16 (rw_cycle_hash paper),
           sr_paper_tip_lamports = rw_tip_lamports paper, sr_realized_tip_lamports = 0,
           sr_paper_pnl_lamports = rw_realized_lamports paper, sr_realized_pnl_lamports = 0,
           sr_landed = False, sr_reverted = False, sr_slot = 0, sr_tx_signature = [],
           sr_divergences = [MissingSignature]\<rparr>
     | Panic \<Rightarrow> Panic)"

type_synonym bundle_fetcher = "string \<Rightarrow> (bundle_fetch, onchain_sweep_error) res"

definition sweep_row_of :: "bundle_fetcher \<Rightarrow> recon_row \<Rightarrow> (sweep_row, unit) res" where
  "sweep_row_of fetch paper =
    (if rw_decision paper = WouldTrade then classify_onchain paper (fetch (dec_string (unat (rw_cycle_hash paper))))
     else
       Ok \<lparr>sr_seq = rw_seq paper, sr_cycle_hash = ''0x'' @ hex16 (rw_cycle_hash paper),
         sr_paper_tip_lamports = rw_tip_lamports paper, sr_realized_tip_lamports = 0,
         sr_paper_pnl_lamports = rw_realized_lamports paper, sr_realized_pnl_lamports = 0,
         sr_landed = False, sr_reverted = False, sr_slot = 0, sr_tx_signature = [], sr_divergences = []\<rparr>)"

fun count_divergences :: "onchain_kind list \<Rightarrow> (string \<rightharpoonup> u64) \<Rightarrow> ((string \<rightharpoonup> u64), unit) res" where
  "count_divergences [] m = Ok m"
| "count_divergences (k # ks) m =
    bind_res (add_p (case m (as_spec_key k) of None \<Rightarrow> 0 | Some n \<Rightarrow> n) 1) (\<lambda>n.
    count_divergences ks (m(as_spec_key k \<mapsto> n)))"

definition aggregate_row :: "recon_row \<Rightarrow> sweep_row \<Rightarrow> sweep_report \<Rightarrow> (sweep_report, unit) res" where
  "aggregate_row paper row out =
    bind_res (if rw_decision paper = WouldTrade then add_p (sp_bundles_submitted out) 1 else Ok (sp_bundles_submitted out))
      (\<lambda>submitted.
    bind_res
      (if sr_landed row then
         bind_res (add_p (sp_bundles_landed out) 1) (\<lambda>landed.
         bind_res (range_p 128 (sp_gross_pnl_lamports out + sr_realized_pnl_lamports row)) (\<lambda>gross.
         Ok (landed, gross, sat_add_w (sp_tip_paid_lamports out) (ucast (sr_realized_tip_lamports row)),
           if sr_reverted row
           then sat_add_w (sp_revert_cost_lamports out) (unsigned_abs_128 (sr_realized_pnl_lamports row))
           else sp_revert_cost_lamports out)))
       else Ok (sp_bundles_landed out, sp_gross_pnl_lamports out, sp_tip_paid_lamports out, sp_revert_cost_lamports out))
      (\<lambda>(landed, gross, tips, reverts).
    bind_res (count_divergences (sr_divergences row) (sp_divergences out)) (\<lambda>divs.
    Ok (out\<lparr>sp_bundles_submitted := submitted, sp_bundles_landed := landed, sp_gross_pnl_lamports := gross,
      sp_tip_paid_lamports := tips, sp_revert_cost_lamports := reverts, sp_divergences := divs,
      sp_per_cycle := sp_per_cycle out @ [row]\<rparr>))))"

fun sweep_loop :: "bundle_fetcher \<Rightarrow> recon_row list \<Rightarrow> sweep_report \<Rightarrow> (sweep_report, unit) res" where
  "sweep_loop fetch [] out = Ok out"
| "sweep_loop fetch (paper # rows) out =
    bind_res (sweep_row_of fetch paper) (\<lambda>row.
    bind_res (aggregate_row paper row out) (sweep_loop fetch rows))"

definition sweep :: "bundle_fetcher \<Rightarrow> recon_row list \<Rightarrow> (sweep_report, unit) res" where
  "sweep fetch rows =
    bind_res (sweep_loop fetch rows sweep_report_empty) (\<lambda>out.
    bind_res (range_p 128 (sp_gross_pnl_lamports out - as_i128 (sp_tip_paid_lamports out))) (\<lambda>a.
    bind_res (range_p 128 (a - as_i128 (sp_rpc_cost_lamports out))) (\<lambda>b.
    bind_res (range_p 128 (b - as_i128 (sp_revert_cost_lamports out))) (\<lambda>net.
    Ok (out\<lparr>sp_net_pnl_lamports := net\<rparr>)))))"

text \<open>The rows that are written as JSON: sorted by their number, a stable sort.\<close>

definition written_rows :: "sweep_report \<Rightarrow> sweep_row list" where
  "written_rows report = sort_key sr_seq (sp_per_cycle report)"

definition row_of_record :: "cycle_record \<Rightarrow> recon_row" where
  "row_of_record r =
    \<lparr>rw_seq = cr_seq r, rw_cycle_hash = 0, rw_predicted_lamports = 0,
     rw_realized_lamports = e_pnl (eo_conservative (cr_outcome r)), rw_delta_lamports = 0,
     rw_decision = cr_decision r, rw_tip_lamports = 0\<rparr>"

definition sweep_from_records :: "bundle_fetcher \<Rightarrow> cycle_record list \<Rightarrow> (sweep_report, unit) res" where
  "sweep_from_records fetch records = sweep fetch (map row_of_record records)"

section \<open>A comparison flags exactly the anchors that are off by more than their tolerance\<close>

text \<open>The relative distance of the engine from the anchor is more than \<open>tol\<close> whole basis points.\<close>

definition off_by_more :: "nat \<Rightarrow> nat \<Rightarrow> nat \<Rightarrow> bool" where
  "off_by_more tol engine anchor \<longleftrightarrow>
    (if anchor = 0 then engine \<noteq> 0 else (int tol + 1) * int anchor \<le> 10000 * \<bar>int engine - int anchor\<bar>)"

lemma abs_sdiv: "0 < d \<Longrightarrow> \<bar>a sdiv d\<bar> = \<bar>a\<bar> div d" for a d :: int
  by (cases "0 \<le> a") (simp_all add: sdiv_nonneg sdiv_nonpos pos_imp_zdiv_nonneg_iff)

lemma div_exceeds: "0 < d \<Longrightarrow> t < x div d \<longleftrightarrow> (t + 1) * d \<le> x" for x d t :: int
proof
  assume d: "0 < d" and t: "t < x div d"
  then have "(t + 1) * d \<le> x div d * d" by (intro mult_right_mono) simp_all
  also have "\<dots> \<le> x" using d by (simp add: minus_mod_eq_div_mult [symmetric])
  finally show "(t + 1) * d \<le> x" .
next
  assume d: "0 < d" and t: "(t + 1) * d \<le> x"
  have "(t + 1) * d div d \<le> x div d" using d t by (rule zdiv_mono1 [rotated])
  then show "t < x div d" using d by simp
qed

lemma compute_divergence_exact:
  assumes "unat engine < 2 ^ 113" and "unat anchor < 2 ^ 113"
  shows "\<exists>d. compute_divergence n engine anchor tol = Ok d \<and> av_name d = n \<and> av_engine_value d = engine
    \<and> av_anchor_value d = anchor \<and> av_tolerance_bps d = tol
    \<and> (av_exceeds_tolerance d \<longleftrightarrow> off_by_more (unat tol) (unat engine) (unat anchor))
    \<and> (engine < anchor \<longrightarrow> av_divergence_bps d \<le> 0) \<and> (anchor < engine \<longrightarrow> 0 \<le> av_divergence_bps d)
    \<and> - 10000 \<le> av_divergence_bps d"
proof (cases "anchor = 0")
  case True
  then show ?thesis by (auto simp: compute_divergence_def off_by_more_def unat_eq_0)
next
  case False
  define e where "e = int (unat engine)"
  define a where "a = int (unat anchor)"
  have pos: "0 < a" using False by (simp add: a_def unat_gt_0 del: of_nat_unat)
  have "e < int (2 ^ 113)" unfolding e_def by (rule of_nat_less_iff [THEN iffD2]) (rule assms(1))
  moreover have "a < int (2 ^ 113)" unfolding a_def by (rule of_nat_less_iff [THEN iffD2]) (rule assms(2))
  moreover have "0 \<le> e" by (simp add: e_def)
  ultimately have b: "0 \<le> e" "e < 2 ^ 113" "a < 2 ^ 113" by simp_all
  have casts: "as_i128 engine = e" "as_i128 anchor = a"
    using assms by (simp_all add: as_i128_small e_def a_def del: of_nat_unat)
  define q where "q = ((e - a) * 10000) sdiv a"
  have aq: "\<bar>q\<bar> = \<bar>e - a\<bar> * 10000 div a" unfolding q_def abs_sdiv [OF pos] abs_mult by simp
  have "\<bar>q\<bar> \<le> \<bar>e - a\<bar> * 10000" unfolding aq using zdiv_mono2 [of "\<bar>e - a\<bar> * 10000" 1 a] pos by simp
  moreover have "\<bar>e - a\<bar> \<le> 2 ^ 113" using b pos by linarith
  ultimately have qb: "\<bar>q\<bar> \<le> 10000 * 2 ^ 113" by simp
  have low: "- 10000 \<le> q"
  proof -
    have "(- a * 10000) sdiv a \<le> q" unfolding q_def using b(1) pos by (intro sdiv_mono) simp_all
    moreover have "(- a * 10000) sdiv a = - 10000" using pos by (simp add: sdiv_nonpos sdiv_nonneg)
    ultimately show ?thesis by simp
  qed
  have r: "in_range 128 (e - a)" "in_range 128 ((e - a) * 10000)" "in_range 128 q"
    using b pos qb low by (simp_all add: in_range_def smin_def smax_def abs_le_iff)
  have r4: "in_range 32 \<bar>clamp_i 32 q\<bar>"
    using low by (auto simp: in_range_def smin_def smax_def clamp_i_def abs_if)
  have run: "compute_divergence n engine anchor tol = Ok \<lparr>av_name = n, av_engine_value = engine, av_anchor_value = anchor,
      av_divergence_bps = clamp_i 32 q, av_tolerance_bps = tol, av_exceeds_tolerance = int (unat tol) < \<bar>clamp_i 32 q\<bar>\<rparr>"
    using False r r4 by (simp add: compute_divergence_def casts range_p_def Let_def q_def [symmetric] del: of_nat_unat left_diff_distrib left_diff_distrib_numeral)
  have tol: "int (unat tol) < 2 ^ 16" using unat_bound [of tol] by (simp del: unsigned_less of_nat_unat)
  have "int (unat tol) < \<bar>clamp_i 32 q\<bar> \<longleftrightarrow> int (unat tol) < \<bar>q\<bar>"
    using tol low by (auto simp: clamp_i_def smin_def smax_def abs_if simp del: of_nat_unat)
  also have "\<dots> \<longleftrightarrow> (int (unat tol) + 1) * a \<le> 10000 * \<bar>e - a\<bar>"
    unfolding aq using div_exceeds [OF pos] by (simp add: mult.commute del: of_nat_unat)
  finally have ex: "int (unat tol) < \<bar>clamp_i 32 q\<bar> \<longleftrightarrow> off_by_more (unat tol) (unat engine) (unat anchor)"
    using False by (simp add: off_by_more_def e_def a_def unat_eq_0 del: of_nat_unat)
  have sgn: "e < a \<Longrightarrow> q \<le> 0" "a < e \<Longrightarrow> 0 \<le> q" using pos by (simp_all add: q_def sdiv_nonpos_iff sdiv_nonneg_iff)
  have lt: "engine < anchor \<longleftrightarrow> e < a" "anchor < engine \<longleftrightarrow> a < e"
    by (simp_all add: e_def a_def word_less_nat_alt del: of_nat_unat)
  show ?thesis using run ex sgn low unfolding lt by (auto simp: clamp_i_def smin_def smax_def)
qed

lemma engine_aggregate_Ok: "\<exists>v. engine_aggregate report n = Ok v"
  by (cases n) (auto simp: engine_aggregate_def Let_def)

text \<open>A divergence that says of an entry what exact arithmetic says.\<close>

definition flags_exactly :: "replay_report \<Rightarrow> anchor_entry \<Rightarrow> anchor_divergence \<Rightarrow> bool" where
  "flags_exactly report e d \<longleftrightarrow> av_name d = ae_name e \<and> av_anchor_value d = ae_value e
    \<and> engine_aggregate report (ae_name e) = Ok (av_engine_value d)
    \<and> av_tolerance_bps d = tolerance_bps (ae_name e)
    \<and> (av_exceeds_tolerance d \<longleftrightarrow>
        off_by_more (unat (tolerance_bps (ae_name e))) (unat (av_engine_value d)) (unat (ae_value e)))"

lemma compare_entries_exact:
  assumes "\<forall>e\<in>set es. unat (ae_value e) < 2 ^ 113"
    and "\<forall>e\<in>set es. \<forall>v. engine_aggregate report (ae_name e) = Ok v \<longrightarrow> unat v < 2 ^ 113"
  shows "\<exists>ds. compare_entries report es = Ok ds
    \<and> list_all2 (flags_exactly report) es ds"
  using assms
proof (induction es)
  case (Cons e es)
  obtain v where v: "engine_aggregate report (ae_name e) = Ok v" using engine_aggregate_Ok by blast
  have b: "unat v < 2 ^ 113" "unat (ae_value e) < 2 ^ 113" using Cons.prems v by auto
  obtain d where d: "compute_divergence (ae_name e) v (ae_value e) (tolerance_bps (ae_name e)) = Ok d"
      "av_name d = ae_name e" "av_engine_value d = v" "av_anchor_value d = ae_value e"
      "av_tolerance_bps d = tolerance_bps (ae_name e)"
      "av_exceeds_tolerance d \<longleftrightarrow> off_by_more (unat (tolerance_bps (ae_name e))) (unat v) (unat (ae_value e))"
    using compute_divergence_exact [OF b, of "ae_name e" "tolerance_bps (ae_name e)"] by auto
  show ?case using Cons.IH Cons.prems v d by (auto simp: flags_exactly_def)
qed simp

text \<open>A comparison flags exactly the anchors the engine is off by more than their tolerance from, in exact
  arithmetic: it returns one divergence per entry of the dataset, in its order, with the aggregate the replay
  has for that anchor, and never reports an aggregate as unavailable.\<close>

theorem anchor_compare_exact:
  assumes "\<forall>e\<in>set (ad_entries d). unat (ae_value e) < 2 ^ 113"
    and "\<forall>e\<in>set (ad_entries d). \<forall>v. engine_aggregate report (ae_name e) = Ok v \<longrightarrow> unat v < 2 ^ 113"
  shows "\<exists>ds. anchor_compare d report = Ok ds
    \<and> list_all2 (flags_exactly report)
      (ad_entries d) ds"
  unfolding anchor_compare_def by (rule compare_entries_exact [OF assms])

definition sample_report :: replay_report where
  "sample_report = \<lparr>rr_params = fair_params 0, rr_cycle_records = [],
    rr_summary = \<lparr>ls_total = 2, ls_would_trade = 2, ls_would_not_trade = 0, ls_sum_optimistic = 0,
      ls_sum_conservative = 0, ls_sum_p_land = 0, ls_median = - 7, ls_p95 = 9\<rparr>,
    rr_divergences = [], rr_report_hash = 0, rr_feed_events_consumed = 100, rr_total_tip_lamports = 0\<rparr>"

definition sample_anchor :: "anchor_name \<Rightarrow> u128 \<Rightarrow> anchor_entry" where
  "sample_anchor n v = \<lparr>ae_name = n, ae_value = v, ae_unit = ''bundles'', ae_window_start_iso = [],
    ae_window_end_iso = [], ae_source = ''jito'', ae_pulled_at_iso = []\<rparr>"

lemma anchor_compare_exact_witness:
  "\<exists>ds. anchor_compare \<lparr>ad_entries = [sample_anchor AttemptCount 106, sample_anchor MedianWinnerPnlSol 7],
      ad_window_start_slot = 0, ad_window_end_slot = 0, ad_pulled_at_iso = []\<rparr> sample_report = Ok ds
    \<and> list_all2 (flags_exactly sample_report) [sample_anchor AttemptCount 106, sample_anchor MedianWinnerPnlSol 7] ds"
  using anchor_compare_exact [of "\<lparr>ad_entries = [sample_anchor AttemptCount 106, sample_anchor MedianWinnerPnlSol 7],
      ad_window_start_slot = 0, ad_window_end_slot = 0, ad_pulled_at_iso = []\<rparr>" sample_report]
  by (simp add: sample_anchor_def sample_report_def engine_aggregate_def unsigned_abs_128_def)

section \<open>The totals of a sweep\<close>

text \<open>What one row adds to the net: its balance change, less its tip, less its size when it was reverted.\<close>

definition net_share :: "sweep_row \<Rightarrow> int" where
  "net_share r = (if sr_landed r
    then sr_realized_pnl_lamports r - int (unat (sr_realized_tip_lamports r))
      - (if sr_reverted r then \<bar>sr_realized_pnl_lamports r\<bar> else 0)
    else 0)"

definition modest_row :: "sweep_row \<Rightarrow> bool" where
  "modest_row r \<longleftrightarrow> \<bar>sr_realized_pnl_lamports r\<bar> < 2 ^ 63"

text \<open>The report after the rows so far, in exact arithmetic.\<close>

definition sweep_sums :: "(recon_row \<times> sweep_row) list \<Rightarrow> sweep_report \<Rightarrow> bool" where
  "sweep_sums prs out \<longleftrightarrow>
    unat (sp_bundles_submitted out) = length (filter (\<lambda>(p, r). rw_decision p = WouldTrade) prs)
    \<and> unat (sp_bundles_landed out) = length (filter (\<lambda>(p, r). sr_landed r) prs)
    \<and> sp_gross_pnl_lamports out = (\<Sum>(p, r)\<leftarrow>prs. if sr_landed r then sr_realized_pnl_lamports r else 0)
    \<and> int (unat (sp_tip_paid_lamports out)) = (\<Sum>(p, r)\<leftarrow>prs. if sr_landed r then int (unat (sr_realized_tip_lamports r)) else 0)
    \<and> sp_rpc_cost_lamports out = 0
    \<and> int (unat (sp_revert_cost_lamports out))
        = (\<Sum>(p, r)\<leftarrow>prs. if sr_landed r \<and> sr_reverted r then \<bar>sr_realized_pnl_lamports r\<bar> else 0)
    \<and> sp_per_cycle out = map snd prs
    \<and> dom (sp_divergences out) = range as_spec_key
    \<and> (\<forall>k. unat (the (sp_divergences out (as_spec_key k))) = length (filter (\<lambda>(p, r). k \<in> set (sr_divergences r)) prs))"

lemma as_spec_key_inj: "as_spec_key k = as_spec_key k' \<longleftrightarrow> k = k'"
  by (cases k; cases k') simp_all

lemma count_divergences_exact:
  assumes "distinct ks" and "dom m = range as_spec_key" and "\<forall>k\<in>set ks. unat (the (m (as_spec_key k))) + 1 < 2 ^ 64"
  shows "\<exists>m'. count_divergences ks m = Ok m' \<and> dom m' = range as_spec_key
    \<and> (\<forall>k. unat (the (m' (as_spec_key k))) = unat (the (m (as_spec_key k))) + (if k \<in> set ks then 1 else 0))"
  using assms
proof (induction ks arbitrary: m)
  case (Cons k ks)
  obtain n where n: "m (as_spec_key k) = Some n" using Cons.prems(2) by (metis domD rangeI)
  have fit: "unat n + 1 < 2 ^ 64" using Cons.prems(3) n by simp
  have add: "(add_p n 1 :: (u64, unit) res) = Ok (n + 1)" "unat (n + 1) = unat n + 1"
    using fit by (simp_all add: add_p_def unat_add_no_wrap)
  define m1 where "m1 = m(as_spec_key k \<mapsto> n + 1)"
  have step: "count_divergences (k # ks) m = count_divergences ks m1" using n add by (simp add: m1_def)
  have other: "the (m1 (as_spec_key k')) = (if k' = k then n + 1 else the (m (as_spec_key k')))" for k'
    by (simp add: m1_def as_spec_key_inj)
  have d: "dom m1 = range as_spec_key" using Cons.prems(2) by (auto simp: m1_def)
  have b: "\<forall>k'\<in>set ks. unat (the (m1 (as_spec_key k'))) + 1 < 2 ^ 64"
    using Cons.prems(1,3) by (auto simp: other)
  obtain m' where m': "count_divergences ks m1 = Ok m'" "dom m' = range as_spec_key"
    "\<forall>k'. unat (the (m' (as_spec_key k'))) = unat (the (m1 (as_spec_key k'))) + (if k' \<in> set ks then 1 else 0)"
    using Cons.IH [OF _ d b] Cons.prems(1) by auto
  have "unat (the (m' (as_spec_key k'))) = unat (the (m (as_spec_key k'))) + (if k' \<in> set (k # ks) then 1 else 0)" for k'
    using m'(3) other [of k'] Cons.prems(1) n add(2) by (auto split: if_splits)
  then show ?case using m'(1,2) step by auto
qed simp

lemma found_divergences_distinct: "distinct (found_divergences paper f pnl)"
  by (simp add: found_divergences_def)

lemma sweep_row_distinct: "sweep_row_of fetch paper = Ok row \<Longrightarrow> distinct (sr_divergences row)"
  by (auto simp: sweep_row_of_def classify_onchain_def bind_res_Ok_iff found_divergences_distinct split: if_splits res.splits)

text \<open>What the fetcher documents: it answers or reports an error, with balances that lamports can have.\<close>

definition fetcher_ok :: "bundle_fetcher \<Rightarrow> bool" where
  "fetcher_ok fetch \<longleftrightarrow> (\<forall>sig. fetch sig \<noteq> Panic \<and> (\<forall>f. fetch sig = Ok f \<longrightarrow>
    \<bar>bf_pre_balance f\<bar> < 2 ^ 61 \<and> \<bar>bf_post_balance f\<bar> < 2 ^ 61 \<and> \<bar>bf_funded_amount f\<bar> < 2 ^ 61))"

lemma realized_pnl_ok:
  assumes "\<bar>bf_pre_balance f\<bar> < 2 ^ 61" "\<bar>bf_post_balance f\<bar> < 2 ^ 61" "\<bar>bf_funded_amount f\<bar> < 2 ^ 61"
  shows "realized_pnl_lamports f = Ok (bf_post_balance f - bf_pre_balance f - bf_funded_amount f)"
  using assms by (auto simp: realized_pnl_lamports_def range_p_def in_range_def smin_def smax_def abs_less_iff)

lemma sweep_row_modest:
  assumes "fetcher_ok fetch"
  obtains r where "sweep_row_of fetch p = Ok r" "modest_row r"
proof (cases "rw_decision p = WouldTrade")
  case True
  show ?thesis
  proof (cases "fetch (dec_string (unat (rw_cycle_hash p)))")
    case (Ok f)
    then have b: "\<bar>bf_pre_balance f\<bar> < 2 ^ 61" "\<bar>bf_post_balance f\<bar> < 2 ^ 61" "\<bar>bf_funded_amount f\<bar> < 2 ^ 61"
      using assms unfolding fetcher_ok_def by blast+
    then show ?thesis
      using that True Ok realized_pnl_ok [OF b]
      by (simp add: sweep_row_of_def classify_onchain_def modest_row_def abs_less_iff)
  next
    case (Err e)
    then show ?thesis using that True by (simp add: sweep_row_of_def classify_onchain_def modest_row_def)
  next
    case Panic
    then show ?thesis using assms unfolding fetcher_ok_def by blast
  qed
next
  case False
  then show ?thesis using that by (simp add: sweep_row_of_def modest_row_def)
qed

lemma sweep_sums_start: "sweep_sums [] sweep_report_empty"
proof -
  have "range as_spec_key = as_spec_key ` {TipDrift, SimulationLiedYes, SimulationLiedNo, RevertedAfterOk, MissingSignature}"
    using onchain_kind.exhaust by blast
  moreover have "the (sp_divergences sweep_report_empty (as_spec_key k)) = 0" for k
    by (cases k) (simp_all add: sweep_report_empty_def)
  ultimately show ?thesis by (simp add: sweep_sums_def) (auto simp: sweep_report_empty_def split: if_splits)
qed

text \<open>Sums over the rows so far are far below the limits.\<close>

lemma sum_list_bounded:
  "(\<forall>x\<in>set xs. \<bar>f x\<bar> \<le> b) \<Longrightarrow> \<bar>\<Sum>x\<leftarrow>xs. f x\<bar> \<le> int (length xs) * b"
proof (induction xs)
  case (Cons x xs)
  have "\<bar>f x\<bar> \<le> b" "\<bar>\<Sum>x\<leftarrow>xs. f x\<bar> \<le> int (length xs) * b" using Cons by simp_all
  then show ?case by (simp add: algebra_simps)
qed simp

lemma u64_le: "unat w \<le> 18446744073709551616" for w :: u64
  using unat_bound [of w] by (simp del: unsigned_less)

lemma aggregate_row_exact:
  assumes sums: "sweep_sums prs out" and len: "length prs < 2 ^ 32" and small: "\<forall>(p, r)\<in>set prs. modest_row r"
    and row: "modest_row r" "distinct (sr_divergences r)"
  shows "\<exists>out'. aggregate_row p r out = Ok out' \<and> sweep_sums (prs @ [(p, r)]) out'"
proof -
  let ?n = "int (length prs)"
  let ?sub = "length (filter (\<lambda>(p, r). rw_decision p = WouldTrade) prs)"
  let ?lan = "length (filter (\<lambda>(p, r). sr_landed r) prs)"
  let ?gross = "\<Sum>(p, r)\<leftarrow>prs. if sr_landed r then sr_realized_pnl_lamports r else 0"
  let ?tips = "\<Sum>(p, r)\<leftarrow>prs. if sr_landed r then int (unat (sr_realized_tip_lamports r)) else 0"
  let ?revs = "\<Sum>(p, r)\<leftarrow>prs. if sr_landed r \<and> sr_reverted r then \<bar>sr_realized_pnl_lamports r\<bar> else 0"
  have s: "unat (sp_bundles_submitted out) = ?sub" "unat (sp_bundles_landed out) = ?lan"
    "sp_gross_pnl_lamports out = ?gross" "int (unat (sp_tip_paid_lamports out)) = ?tips" "sp_rpc_cost_lamports out = 0"
    "int (unat (sp_revert_cost_lamports out)) = ?revs" "sp_per_cycle out = map snd prs"
    "dom (sp_divergences out) = range as_spec_key"
    "\<And>k. unat (the (sp_divergences out (as_spec_key k))) = length (filter (\<lambda>(p, r). k \<in> set (sr_divergences r)) prs)"
    using sums unfolding sweep_sums_def by blast+
  have n: "?n < 2 ^ 32" using len by simp
  have le: "?sub \<le> length prs" "?lan \<le> length prs" by (rule length_filter_le)+
  have sub: "unat (sp_bundles_submitted out) + 1 < 2 ^ 64" and lan: "unat (sp_bundles_landed out) + 1 < 2 ^ 64"
    using le_less_trans [OF le(1) len] le_less_trans [OF le(2) len] s(1,2) by simp_all
  have "\<bar>?gross\<bar> \<le> ?n * 2 ^ 63"
    by (rule sum_list_bounded) (use small in \<open>auto simp: modest_row_def\<close>)
  then have gross: "\<bar>sp_gross_pnl_lamports out\<bar> < 2 ^ 96" using s(3) n by simp
  have "\<bar>?tips\<bar> \<le> ?n * 2 ^ 64"
    by (rule sum_list_bounded) (auto simp: u64_le simp del: of_nat_unat)
  then have tips: "int (unat (sp_tip_paid_lamports out)) < 2 ^ 97" using s(4) n by simp
  have "\<bar>?revs\<bar> \<le> ?n * 2 ^ 63"
    by (rule sum_list_bounded) (use small in \<open>auto simp: modest_row_def\<close>)
  then have revs: "int (unat (sp_revert_cost_lamports out)) < 2 ^ 96" using s(6) n by simp
  let ?v = "sr_realized_pnl_lamports r"
  have v: "\<bar>?v\<bar> < 2 ^ 63" using row(1) by (simp add: modest_row_def)
  have uv: "int (unat (unsigned_abs_128 ?v)) = \<bar>?v\<bar>"
  proof -
    have "nat \<bar>?v\<bar> < 2 ^ 128" using v by (simp add: nat_less_iff)
    then show ?thesis unfolding unsigned_abs_128_def by (subst unat_of_nat_fits) simp_all
  qed
  have tip: "unat (sr_realized_tip_lamports r) < 2 ^ 64" using unat_bound [of "sr_realized_tip_lamports r"] by (simp del: unsigned_less)
  have tip_nat: "unat (sp_tip_paid_lamports out) < 2 ^ 97" and rev_nat: "unat (sp_revert_cost_lamports out) < 2 ^ 96"
    using tips revs by (simp_all del: of_nat_unat)
  have uv_nat: "unat (unsigned_abs_128 ?v) < 2 ^ 63" using uv v by (simp del: of_nat_unat)
  have add: "(add_p (sp_bundles_submitted out) 1 :: (u64, unit) res) = Ok (sp_bundles_submitted out + 1)"
    "unat (sp_bundles_submitted out + 1) = ?sub + 1"
    "(add_p (sp_bundles_landed out) 1 :: (u64, unit) res) = Ok (sp_bundles_landed out + 1)"
    "unat (sp_bundles_landed out + 1) = ?lan + 1"
    using sub lan s(1,2) by (simp_all add: add_p_def unat_add_no_wrap)
  have g: "(range_p 128 (sp_gross_pnl_lamports out + ?v) :: (int, unit) res) = Ok (sp_gross_pnl_lamports out + ?v)"
    using gross v by (auto simp: range_p_def in_range_def smin_def smax_def abs_less_iff)
  have t: "int (unat (sat_add_w (sp_tip_paid_lamports out) (ucast (sr_realized_tip_lamports r))))
      = ?tips + int (unat (sr_realized_tip_lamports r))"
    using tip tip_nat s(4) by (simp add: unat_sat_add_w unat_ucast_up min_def del: of_nat_unat)
  have rv: "int (unat (sat_add_w (sp_revert_cost_lamports out) (unsigned_abs_128 ?v))) = ?revs + \<bar>?v\<bar>"
    using uv uv_nat rev_nat s(6) by (simp add: unat_sat_add_w min_def del: of_nat_unat)
  have "\<forall>k\<in>set (sr_divergences r). unat (the (sp_divergences out (as_spec_key k))) + 1 < 2 ^ 64"
  proof
    fix k
    have "length (filter (\<lambda>(p, r). k \<in> set (sr_divergences r)) prs) \<le> length prs" by (rule length_filter_le)
    from le_less_trans [OF this len] show "unat (the (sp_divergences out (as_spec_key k))) + 1 < 2 ^ 64" using s(9) [of k] by simp
  qed
  then obtain m where m: "count_divergences (sr_divergences r) (sp_divergences out) = Ok m" "dom m = range as_spec_key"
    "\<And>k. unat (the (m (as_spec_key k))) = unat (the (sp_divergences out (as_spec_key k))) + (if k \<in> set (sr_divergences r) then 1 else 0)"
    using count_divergences_exact [OF row(2) s(8)] by blast
  define out' where "out' = out\<lparr>sp_bundles_submitted := (if rw_decision p = WouldTrade then sp_bundles_submitted out + 1 else sp_bundles_submitted out),
    sp_bundles_landed := (if sr_landed r then sp_bundles_landed out + 1 else sp_bundles_landed out),
    sp_gross_pnl_lamports := (if sr_landed r then sp_gross_pnl_lamports out + ?v else sp_gross_pnl_lamports out),
    sp_tip_paid_lamports := (if sr_landed r then sat_add_w (sp_tip_paid_lamports out) (ucast (sr_realized_tip_lamports r)) else sp_tip_paid_lamports out),
    sp_revert_cost_lamports := (if sr_landed r \<and> sr_reverted r then sat_add_w (sp_revert_cost_lamports out) (unsigned_abs_128 ?v) else sp_revert_cost_lamports out),
    sp_divergences := m, sp_per_cycle := sp_per_cycle out @ [r]\<rparr>"
  have "aggregate_row p r out = Ok out'"
    using add(1,3) g m(1) by (simp add: aggregate_row_def out'_def)
  moreover have "sweep_sums (prs @ [(p, r)]) out'"
    unfolding sweep_sums_def
  proof (intro conjI allI)
    show "unat (sp_bundles_submitted out') = length (filter (\<lambda>(p, r). rw_decision p = WouldTrade) (prs @ [(p, r)]))"
      using add(2) s(1) by (simp add: out'_def)
    show "unat (sp_bundles_landed out') = length (filter (\<lambda>(p, r). sr_landed r) (prs @ [(p, r)]))"
      using add(4) s(2) by (simp add: out'_def)
    show "sp_gross_pnl_lamports out' = (\<Sum>(p, r)\<leftarrow>prs @ [(p, r)]. if sr_landed r then sr_realized_pnl_lamports r else 0)"
      using s(3) by (simp add: out'_def)
    show "int (unat (sp_tip_paid_lamports out')) = (\<Sum>(p, r)\<leftarrow>prs @ [(p, r)]. if sr_landed r then int (unat (sr_realized_tip_lamports r)) else 0)"
      using t s(4) by (simp add: out'_def del: of_nat_unat)
    show "sp_rpc_cost_lamports out' = 0" using s(5) by (simp add: out'_def)
    show "int (unat (sp_revert_cost_lamports out'))
        = (\<Sum>(p, r)\<leftarrow>prs @ [(p, r)]. if sr_landed r \<and> sr_reverted r then \<bar>sr_realized_pnl_lamports r\<bar> else 0)"
      using rv s(6) by (simp add: out'_def del: of_nat_unat)
    show "sp_per_cycle out' = map snd (prs @ [(p, r)])" using s(7) by (simp add: out'_def)
    show "dom (sp_divergences out') = range as_spec_key" using m(2) by (simp add: out'_def)
    show "unat (the (sp_divergences out' (as_spec_key k))) = length (filter (\<lambda>(p, r). k \<in> set (sr_divergences r)) (prs @ [(p, r)]))" for k
      using m(3) [of k] s(9) [of k] by (simp add: out'_def)
  qed
  ultimately show ?thesis by blast
qed

lemma sweep_loop_exact:
  assumes "fetcher_ok fetch"
  shows "sweep_sums prs out \<Longrightarrow> length prs + length rows < 2 ^ 32 \<Longrightarrow> \<forall>(p, r)\<in>set prs. modest_row r \<Longrightarrow>
    \<exists>rs out'. sweep_loop fetch rows out = Ok out' \<and> list_all2 (\<lambda>p r. sweep_row_of fetch p = Ok r \<and> modest_row r) rows rs
      \<and> sweep_sums (prs @ zip rows rs) out'"
proof (induction rows arbitrary: prs out)
  case (Cons p rows)
  obtain r where r: "sweep_row_of fetch p = Ok r" "modest_row r" using sweep_row_modest [OF assms] by blast
  have len: "length prs < 2 ^ 32" using Cons.prems(2) by simp
  obtain out1 where out1: "aggregate_row p r out = Ok out1" "sweep_sums (prs @ [(p, r)]) out1"
    using aggregate_row_exact [OF Cons.prems(1) len Cons.prems(3) r(2) sweep_row_distinct [OF r(1)], of p] by blast
  obtain rs out' where rest: "sweep_loop fetch rows out1 = Ok out'"
    "list_all2 (\<lambda>p r. sweep_row_of fetch p = Ok r \<and> modest_row r) rows rs"
    "sweep_sums ((prs @ [(p, r)]) @ zip rows rs) out'"
    using Cons.IH [OF out1(2)] Cons.prems(2,3) r(2) by auto
  have "sweep_loop fetch (p # rows) out = Ok out'" using r(1) out1(1) rest(1) by simp
  then show ?case using rest(2,3) r by (intro exI [of _ "r # rs"] exI [of _ out']) simp
qed simp

lemma sum_list_bounded_nn: "(\<forall>x\<in>set xs. 0 \<le> f x \<and> f x \<le> b) \<Longrightarrow> 0 \<le> (\<Sum>x\<leftarrow>xs. f x) \<and> (\<Sum>x\<leftarrow>xs. f x) \<le> int (length xs) * b"
  by (induction xs) (auto simp: algebra_simps)

lemma net_share_sum:
  "length rows = length rs \<Longrightarrow>
    (\<Sum>(p, r)\<leftarrow>zip rows rs. if sr_landed r then sr_realized_pnl_lamports r else 0)
      - (\<Sum>(p, r)\<leftarrow>zip rows rs. if sr_landed r then int (unat (sr_realized_tip_lamports r)) else 0)
      - (\<Sum>(p, r)\<leftarrow>zip rows rs. if sr_landed r \<and> sr_reverted r then \<bar>sr_realized_pnl_lamports r\<bar> else 0)
    = (\<Sum>r\<leftarrow>rs. net_share r)"
  by (induction rows rs rule: list_induct2) (simp_all add: net_share_def)


definition sample_recon_row :: recon_row where
  "sample_recon_row = \<lparr>rw_seq = 0, rw_cycle_hash = 5, rw_predicted_lamports = 9, rw_realized_lamports = 4,
    rw_delta_lamports = 5, rw_decision = WouldTrade, rw_tip_lamports = 3\<rparr>"

definition sample_fetch :: bundle_fetcher where
  "sample_fetch sig = Ok \<lparr>bf_pre_balance = 100, bf_post_balance = 90, bf_funded_amount = 0, bf_tip_lamports = 3,
    bf_slot = 1, bf_tx_signature = sig, bf_landed = True, bf_reverted = True\<rparr>"


text \<open>The sweep over the records of a replay asks for one and the same signature for every cycle: what it reports
  depends on the answer to that single question only.\<close>

theorem sweep_from_records_one_signature:
  "fetch ''0'' = fetch' ''0'' \<Longrightarrow> sweep_from_records fetch records = sweep_from_records fetch' records"
proof -
  assume same: "fetch ''0'' = fetch' ''0''"
  have zero: "dec_string 0 = ''0''" by code_simp
  have "sweep_row_of fetch (row_of_record r) = sweep_row_of fetch' (row_of_record r)" for r
    using same by (simp add: sweep_row_of_def row_of_record_def zero)
  then have "sweep_loop fetch (map row_of_record records) out = sweep_loop fetch' (map row_of_record records) out" for out
    by (induction records arbitrary: out) (auto intro: bind_res_cong)
  then show ?thesis by (simp add: sweep_from_records_def sweep_def)
qed

lemma sweep_from_records_one_signature_witness:
  "\<forall>records. sweep_from_records (\<lambda>_. Err (FetchFailed ''down'')) records
    = sweep_from_records (\<lambda>sig. if sig = ''0'' then Err (FetchFailed ''down'') else sample_fetch sig) records"
  by (intro allI sweep_from_records_one_signature) simp

section \<open>The calibration\<close>

lemma sum_p_small:
  "(\<forall>x\<in>set xs. \<bar>x\<bar> \<le> b) \<Longrightarrow> \<bar>acc\<bar> + int (length xs) * b \<le> smax n \<Longrightarrow>
    (sum_p n acc xs :: (int, 'e) res) = Ok (acc + sum_list xs)"
proof (induction xs arbitrary: acc)
  case (Cons x xs)
  have x: "\<bar>x\<bar> \<le> b" using Cons.prems(1) by simp
  then have nn: "0 \<le> int (length xs) * b" by (intro mult_nonneg_nonneg) simp_all
  have tot: "\<bar>acc\<bar> + (b + int (length xs) * b) \<le> smax n" using Cons.prems(2) by (simp add: algebra_simps)
  have sm: "smin n = - smax n - 1" by (simp add: smin_def smax_def)
  have "in_range n (acc + x)" using x tot nn unfolding in_range_def sm by linarith
  moreover have "\<bar>acc + x\<bar> + int (length xs) * b \<le> smax n" using x tot by linarith
  ultimately show ?case using Cons.IH [of "acc + x"] Cons.prems(1) by (simp add: range_p_def add.assoc)
qed simp

lemma still_diverges_total:
  assumes "unat (av_engine_value d) < 2 ^ 73" "unat (av_anchor_value d) < 2 ^ 113"
    and "unat num \<le> 10 ^ 12" "0 < unat den"
  shows "\<exists>b. still_diverges num den d = Ok b"
proof -
  let ?e = "av_engine_value d"
  have "unat ?e * unat num \<le> 2 ^ 73 * 10 ^ 12" using assms(1,3) by (intro mult_le_mono) simp_all
  then have prod: "unat ?e * unat num < 2 ^ 113" by (rule le_less_trans) simp
  then have mul: "(mul_p ?e num :: (u128, onchain_error) res) = Ok (?e * num)" and ums: "unat (?e * num) = unat ?e * unat num"
    by (simp_all add: mul_p_def unat_mul_no_wrap)
  have adj: "unat (?e * num div den) < 2 ^ 113"
    using prod unfolding unat_div ums by (rule le_less_trans [OF div_le_dividend])
  define a where "a = int (unat (av_anchor_value d))"
  define j where "j = int (unat (?e * num div den))"
  have "a < int (2 ^ 113)" "j < int (2 ^ 113)"
    unfolding a_def j_def by (rule of_nat_less_iff [THEN iffD2], rule assms(2) adj)+
  then have b: "0 \<le> a" "a < 2 ^ 113" "0 \<le> j" "j < 2 ^ 113" by (simp_all add: a_def j_def)
  have casts: "as_i128 (av_anchor_value d) = a" "as_i128 (?e * num div den) = j"
    using assms(2) adj by (simp_all add: as_i128_small a_def j_def del: of_nat_unat)
  have zero: "av_anchor_value d = 0 \<longleftrightarrow> a = 0" by (simp add: a_def unat_eq_0 del: of_nat_unat)
  show ?thesis
  proof (cases "a = 0")
    case True
    then show ?thesis by (simp add: still_diverges_def mul zero)
  next
    case False
    then have pos: "0 < a" using b by simp
    have "\<bar>((j - a) * 10000) sdiv a\<bar> = \<bar>j - a\<bar> * 10000 div a" unfolding abs_sdiv [OF pos] abs_mult by simp
    also have "\<dots> \<le> \<bar>j - a\<bar> * 10000" using zdiv_mono2 [of "\<bar>j - a\<bar> * 10000" 1 a] pos by simp
    also have "\<dots> \<le> 2 ^ 113 * 10000" using b by (intro mult_right_mono) linarith+
    finally have q: "\<bar>((j - a) * 10000) sdiv a\<bar> \<le> 2 ^ 113 * 10000" .
    have r: "in_range 128 (j - a)" "in_range 128 ((j - a) * 10000)"
      using b by (simp_all add: in_range_def smin_def smax_def)
    have r3: "in_range 128 (((j - a) * 10000) sdiv a)"
      using q by (simp add: in_range_def smin_def smax_def abs_le_iff del: left_diff_distrib left_diff_distrib_numeral)
    show ?thesis
      using False r r3
      by (simp add: still_diverges_def mul zero casts range_p_def Let_def del: left_diff_distrib left_diff_distrib_numeral)
  qed
qed

lemma filter_p_total:
  "(\<forall>x\<in>set xs. \<exists>b. p x = Ok b) \<Longrightarrow> \<exists>ys. filter_p p xs = Ok ys \<and> ys = filter (\<lambda>x. p x = Ok True) xs"
  by (induction xs) auto

text \<open>Calibrating never panics and moves the win probability by a tenth of a percentage point for every basis
  point of the average error, clamped to a probability, and changes nothing else. So an average over-estimate of
  ten percent sets it to zero and an under-estimate of ten percent to certainty, whatever it was.\<close>

theorem calibrate_exact:
  assumes "\<forall>d\<in>set divs. \<bar>av_divergence_bps d\<bar> < 2 ^ 31 \<and> unat (av_engine_value d) < 2 ^ 73 \<and> unat (av_anchor_value d) < 2 ^ 113"
    and "length divs < 2 ^ 31" and "unat (base_win_ppm (ep_competition current)) \<le> 1000000"
    and "avg = (if divs = [] then 0 else sum_list (map av_divergence_bps divs) sdiv int (length divs))"
  shows "\<exists>fit new. calibrate divs current = Ok fit
    \<and> fit_improved_params fit = current\<lparr>ep_competition := (ep_competition current)\<lparr>base_win_ppm := new\<rparr>\<rparr>
    \<and> int (unat new) = max 0 (min 1000000 (int (unat (base_win_ppm (ep_competition current))) - 1000 * avg))
    \<and> (1000 \<le> avg \<longrightarrow> new = 0) \<and> (avg \<le> - 1000 \<longrightarrow> new = 1000000)
    \<and> fit_adjustment_bps fit = avg \<and> fit_input_divergences fit = divs
    \<and> set (fit_divergences_remaining fit) \<subseteq> set divs"
proof -
  let ?xs = "map av_divergence_bps divs"
  let ?cur = "int (unat (base_win_ppm (ep_competition current)))"
  have "int (length ?xs) * 2147483647 \<le> 2 ^ 31 * 2147483647" using assms(2) by (intro mult_right_mono) simp_all
  then have small: "\<bar>0\<bar> + int (length ?xs) * 2147483647 \<le> smax 64" by (simp add: smax_def)
  have each: "\<forall>x\<in>set ?xs. \<bar>x\<bar> \<le> 2147483647" using assms(1) by auto
  have sum: "(sum_p 64 0 ?xs :: (int, onchain_error) res) = Ok (sum_list ?xs)"
    using sum_p_small [OF each small] by simp
  have avg: "avg = (if 0 < int (length divs) then sum_list ?xs sdiv int (length divs) else 0)" using assms(4) by simp
  have avg_b: "\<bar>avg\<bar> \<le> 2147483647"
  proof (cases "divs = []")
    case False
    have "\<bar>\<Sum>x\<leftarrow>?xs. id x\<bar> \<le> int (length ?xs) * 2147483647" by (rule sum_list_bounded) (use each in simp)
    then have "\<bar>sum_list ?xs\<bar> \<le> int (length divs) * 2147483647" by (simp add: list.map_id0)
    then have "\<bar>sum_list ?xs\<bar> div int (length divs) \<le> (int (length divs) * 2147483647) div int (length divs)"
      using False by (intro zdiv_mono1) simp_all
    then show ?thesis using False assms(4) by (simp add: abs_sdiv)
  qed (simp add: assms(4))
  have cur: "0 \<le> ?cur" "?cur \<le> 1000000" using assms(3) by (simp_all del: of_nat_unat)
  have r: "in_range 64 (avg * 1000)" "in_range 64 (- (avg * 1000))" "in_range 64 (?cur - avg * 1000)"
    using avg_b cur unfolding in_range_def smin_def smax_def abs_le_iff by (simp_all del: of_nat_unat)
  define w where "w = max 0 (min 1000000 (?cur - avg * 1000))"
  define new where "new = (of_int w :: u32)"
  have w: "0 \<le> w" "w \<le> 1000000" by (simp_all add: w_def)
  have new_nat: "unat new = nat w" using w unfolding new_def by (simp add: unsigned_of_int take_bit_int_eq_self)
  then have new: "int (unat new) = w" using w by (simp del: of_nat_unat)
  have un: "unat (ucast new :: u128) \<le> 1000000" using w new_nat by (simp add: unat_ucast_up)
  have num: "(mul_p (ucast new) 1000000 :: (u128, onchain_error) res) = Ok (ucast new * 1000000)"
    and num_b: "unat (ucast new * 1000000 :: u128) \<le> 10 ^ 12"
  proof -
    have "unat (ucast new :: u128) * unat (1000000 :: u128) \<le> 10 ^ 12" using un by simp
    then show "(mul_p (ucast new) 1000000 :: (u128, onchain_error) res) = Ok (ucast new * 1000000)" "unat (ucast new * 1000000 :: u128) \<le> 10 ^ 12"
      by (simp_all add: mul_p_def unat_mul_no_wrap)
  qed
  have den: "0 < unat (of_int (max ?cur 1) :: u128)"
  proof -
    have "(of_int (max ?cur 1) :: u128) \<noteq> 0"
      using cur by (simp add: word_unat_eq_iff unsigned_of_int take_bit_int_eq_self max_def del: of_nat_unat of_int_of_nat_eq)
    then show ?thesis by (simp add: unat_gt_0)
  qed
  obtain ys where ys: "filter_p (still_diverges (ucast new * 1000000) (of_int (max ?cur 1))) divs = Ok ys" "set ys \<subseteq> set divs"
    using filter_p_total [of divs "still_diverges (ucast new * 1000000) (of_int (max ?cur 1))"]
      still_diverges_total [OF _ _ num_b den] assms(1) by auto
  have adj: "signed_take_bit 31 avg = avg" using avg_b by (intro signed_take_bit_int_eq_self) simp_all
  have run: "calibrate divs current = Ok \<lparr>fit_input_divergences = divs,
      fit_improved_params = current\<lparr>ep_competition := (ep_competition current)\<lparr>base_win_ppm := new\<rparr>\<rparr>,
      fit_adjustment_bps = avg, fit_divergences_remaining = ys\<rparr>"
    using r unfolding calibrate_def sum bind_res.simps Let_def avg [symmetric]
    by (simp add: range_p_def num ys(1) adj w_def [symmetric] new_def [symmetric] del: of_nat_unat)
  have ends: "1000 \<le> avg \<longrightarrow> new = 0" "avg \<le> - 1000 \<longrightarrow> new = 1000000"
    using cur by (auto simp: new_def w_def simp del: of_nat_unat)
  have "int (unat new) = max 0 (min 1000000 (?cur - 1000 * avg))" using new by (simp only: w_def mult.commute)
  then show ?thesis using run ends ys(2) by (intro exI conjI) (assumption | simp)+
qed

definition sample_divergence :: anchor_divergence where
  "sample_divergence = \<lparr>av_name = AttemptCount, av_engine_value = 200, av_anchor_value = 100, av_divergence_bps = 10000,
    av_tolerance_bps = 500, av_exceeds_tolerance = True\<rparr>"

lemma calibrate_exact_witness:
  "\<exists>fit. calibrate [sample_divergence] params_optimistic = Ok fit
    \<and> base_win_ppm (ep_competition params_optimistic) = 1000000
    \<and> base_win_ppm (ep_competition (fit_improved_params fit)) = 0"
proof -
  have win: "base_win_ppm (ep_competition params_optimistic) = 1000000"
    by (simp add: params_optimistic_def competition_optimistic_def PPM_ONE_def)
  have "(10000::int) = (if [sample_divergence] = [] then 0 else sum_list (map av_divergence_bps [sample_divergence]) sdiv int (length [sample_divergence]))"
    by (simp add: sample_divergence_def)
  from calibrate_exact [OF _ _ _ this, of params_optimistic] show ?thesis
    using win by (auto simp: sample_divergence_def)
qed

end
