(* ===== verification/Warehouse.thy ===== *)
theory Warehouse
  imports Validate "HOL-Library.Sublist"
begin

text \<open>
  The warehouse of \<^verbatim>\<open>crates/dl-pipeline\<close> (\<^verbatim>\<open>warehouse.rs\<close>): day partitions of JSON lines with an insert that
  ignores what is there, a checksum per partition, an archive; and the ingest of a file of cycles
  (\<^verbatim>\<open>ingest/mod.rs\<close>). The JSON codec, the calendar and the hash are arguments; what the file system does
  to a write is part of the environment.
\<close>

section \<open>State\<close>

datatype pipeline_error =
    PipeIo
  | PipeJson
  | PipeValidation reject_reason
  | PipeWarehouse string
  | PipeDate string
  | ChecksumMismatch string string string
  | PipeNotFound string
  | PipeWalk string
  | Roundtrip u64 u64 u64
  | PipePolicy string

text \<open>The files by partition, and the identifiers this process has seen.\<close>

record warehouse =
  wh_cycles :: "string \<rightharpoonup> string"
  wh_checksums :: "string \<rightharpoonup> string"
  wh_archive :: "string \<rightharpoonup> string"
  wh_rejects :: "string \<rightharpoonup> string"
  wh_seen :: "(string \<times> string) set"

record daily_checksum =
  dc_table :: string
  dc_date :: string
  dc_row_count :: u64
  dc_row_set_blake3 :: string
  dc_pipeline_run_id :: string
  dc_sealed_at_unix_ms :: i64

record reject_row =
  rj_pipeline_run_id :: string
  rj_source_path :: string
  rj_line_number :: u64
  rj_reason :: reject_reason
  rj_raw_line :: string
  rj_rejected_at_unix_ms :: i64

text \<open>\<^verbatim>\<open>serde_json\<close>, \<^verbatim>\<open>chrono\<close> and \<^verbatim>\<open>blake3\<close>.\<close>

record warehouse_lib =
  wl_from_str :: "string \<Rightarrow> json option"
  wl_date_of :: "i64 \<Rightarrow> (string, string) res"
  wl_cycle_json :: "cycle_v1 \<Rightarrow> string option"
  wl_parse_cycle :: "string \<Rightarrow> cycle_v1 option"
  wl_reject_json :: "reject_row \<Rightarrow> string option"
  wl_parse_reject :: "string \<Rightarrow> reject_row option"
  wl_checksum_json :: "daily_checksum \<Rightarrow> string option"
  wl_parse_checksum :: "string \<Rightarrow> daily_checksum option"
  wl_blake3 :: "string \<Rightarrow> string"
  wl_age_days :: "string \<Rightarrow> int option"

text \<open>What happens to one append: after how many lines the scan of the file fails, whether the file opens for
  appending, and after how many characters a write stops.\<close>

record append_env =
  an_scan_stops :: "nat option"
  an_open_ok :: bool
  an_stops :: "nat option"

definition no_fault :: append_env where
  "no_fault = \<lparr>an_scan_stops = None, an_open_ok = True, an_stops = None\<rparr>"

text \<open>Opening the warehouse again: the files stay, what was seen is forgotten.\<close>

definition reopen :: "warehouse \<Rightarrow> warehouse" where
  "reopen w = w\<lparr>wh_seen := {}\<rparr>"

text \<open>Open for appending, encode, write: the file is created before anything can fail.\<close>

definition append_line :: "append_env \<Rightarrow> string option \<Rightarrow> string option \<Rightarrow> (unit, pipeline_error) res \<times> string option" where
  "append_line env old line =
    (if \<not> an_open_ok env then (Err PipeIo, old)
     else let content = (case old of None \<Rightarrow> [] | Some c \<Rightarrow> c) in
       (case line of
          None \<Rightarrow> (Err PipeJson, Some content)
        | Some l \<Rightarrow>
            let s = l @ [newline] in
            (case an_stops env of
               Some k \<Rightarrow> (Err PipeIo, Some (content @ take k s))
             | None \<Rightarrow> (Ok (), Some (content @ s)))))"

section \<open>Inserting a cycle\<close>

fun after_first :: "string \<Rightarrow> string \<Rightarrow> string option" where
  "after_first needle [] = (if needle = [] then Some [] else None)"
| "after_first needle (c # cs) =
    (if take (length needle) (c # cs) = needle then Some (drop (length needle) (c # cs)) else after_first needle cs)"

definition cycle_id_needle :: string where
  "cycle_id_needle = CHR 0x22 # ''cycle_id'' @ [CHR 0x22, CHR '':'', CHR 0x22]"

definition extract_cycle_id_from_jsonl :: "string \<Rightarrow> string option" where
  "extract_cycle_id_from_jsonl line =
    (case after_first cycle_id_needle line of
       None \<Rightarrow> None
     | Some rest \<Rightarrow>
         if CHR 0x22 \<in> set rest then Some (takeWhile (\<lambda>c. c \<noteq> CHR 0x22) rest) else None)"

definition records :: "string list \<Rightarrow> string list" where
  "records ls = filter (\<lambda>l. l \<noteq> []) ls"

definition ids_in_lines :: "string list \<Rightarrow> string set" where
  "ids_in_lines ls = set (List.map_filter extract_cycle_id_from_jsonl (records ls))"

text \<open>\<^verbatim>\<open>DatePartition::from_unix_ms\<close>: the calendar is an argument.\<close>

definition date_partition :: "warehouse_lib \<Rightarrow> i64 \<Rightarrow> (string, pipeline_error) res" where
  "date_partition lib ms = map_err PipeDate (wl_date_of lib ms)"

text \<open>The scan of a partition that exists: what it saw before it failed stays seen.\<close>

definition rehydrate :: "append_env \<Rightarrow> string \<Rightarrow> warehouse \<Rightarrow> (unit, pipeline_error) res \<times> warehouse" where
  "rehydrate env d w =
    (case wh_cycles w d of
       None \<Rightarrow> (Ok (), w)
     | Some content \<Rightarrow>
         (case an_scan_stops env of
            None \<Rightarrow> (Ok (), w\<lparr>wh_seen := wh_seen w \<union> {d} \<times> ids_in_lines (file_lines content)\<rparr>)
          | Some k \<Rightarrow> (Err PipeIo, w\<lparr>wh_seen := wh_seen w \<union> {d} \<times> ids_in_lines (take k (file_lines content))\<rparr>)))"

definition append_cycle ::
    "warehouse_lib \<Rightarrow> append_env \<Rightarrow> string \<Rightarrow> cycle_v1 \<Rightarrow> warehouse \<Rightarrow> (bool, pipeline_error) res \<times> warehouse" where
  "append_cycle lib env d row w =
    (case append_line env (wh_cycles w d) (wl_cycle_json lib row) of
       (r, f) \<Rightarrow> (bind_res r (\<lambda>_. Ok True),
         w\<lparr>wh_cycles := (wh_cycles w)(d := f),
           wh_seen := (if r = Ok () then insert (d, cv_cycle_id row) (wh_seen w) else wh_seen w)\<rparr>))"

definition insert_cycle ::
    "warehouse_lib \<Rightarrow> append_env \<Rightarrow> cycle_v1 \<Rightarrow> warehouse \<Rightarrow> (bool, pipeline_error) res \<times> warehouse" where
  "insert_cycle lib env row w =
    (case date_partition lib (cv_detected_at_unix_ms row) of
       Ok d \<Rightarrow>
         if (d, cv_cycle_id row) \<in> wh_seen w then (Ok False, w)
         else (case rehydrate env d w of
             (Ok _, w1) \<Rightarrow>
               if (d, cv_cycle_id row) \<in> wh_seen w1 then (Ok False, w1) else append_cycle lib env d row w1
           | (Err e, w1) \<Rightarrow> (Err e, w1)
           | (Panic, w1) \<Rightarrow> (Panic, w1))
     | Err e \<Rightarrow> (Err e, w)
     | Panic \<Rightarrow> (Panic, w))"

definition append_reject ::
    "warehouse_lib \<Rightarrow> append_env \<Rightarrow> reject_row \<Rightarrow> warehouse \<Rightarrow> (unit, pipeline_error) res \<times> warehouse" where
  "append_reject lib env rej w =
    (case append_line env (wh_rejects w (rj_pipeline_run_id rej)) (wl_reject_json lib rej) of
       (r, f) \<Rightarrow> (r, w\<lparr>wh_rejects := (wh_rejects w)(rj_pipeline_run_id rej := f)\<rparr>))"

section \<open>Reading, sealing, verifying, compacting\<close>

text \<open>A file that exists is read in full, or the read fails.\<close>

definition lines_of :: "bool \<Rightarrow> string option \<Rightarrow> (string list, pipeline_error) res" where
  "lines_of read_ok content =
    (case content of None \<Rightarrow> Ok [] | Some c \<Rightarrow> if read_ok then Ok (records (file_lines c)) else Err PipeIo)"

definition read_cycle_partition :: "warehouse_lib \<Rightarrow> bool \<Rightarrow> string \<Rightarrow> warehouse \<Rightarrow> (cycle_v1 list, pipeline_error) res" where
  "read_cycle_partition lib read_ok d w =
    bind_res (lines_of read_ok (wh_cycles w d)) (\<lambda>ls.
    Ok (sort_key cv_detected_at_unix_ms (List.map_filter (wl_parse_cycle lib) ls)))"

text \<open>The files of rejects in the order the directory lists them, each with the outcome of its read.\<close>

fun read_rejects :: "warehouse_lib \<Rightarrow> (string \<times> bool) list \<Rightarrow> warehouse \<Rightarrow> (reject_row list, pipeline_error) res" where
  "read_rejects lib [] w = Ok []"
| "read_rejects lib ((run, read_ok) # runs) w =
    bind_res (lines_of read_ok (wh_rejects w run)) (\<lambda>ls.
    bind_res (read_rejects lib runs w) (\<lambda>rest.
    Ok (List.map_filter (wl_parse_reject lib) ls @ rest)))"

definition compute_live_checksum ::
    "warehouse_lib \<Rightarrow> bool \<Rightarrow> string \<Rightarrow> string \<Rightarrow> i64 \<Rightarrow> warehouse \<Rightarrow> (daily_checksum, pipeline_error) res" where
  "compute_live_checksum lib read_ok d run ts w =
    bind_res (lines_of read_ok (wh_cycles w d)) (\<lambda>ls.
    Ok \<lparr>dc_table = ''cycle_v1'', dc_date = d, dc_row_count = of_nat (length ls), dc_row_set_blake3 = wl_blake3 lib (concat ls),
      dc_pipeline_run_id = run, dc_sealed_at_unix_ms = ts\<rparr>)"

definition read_stored_checksum :: "warehouse_lib \<Rightarrow> string \<Rightarrow> warehouse \<Rightarrow> (daily_checksum option, pipeline_error) res" where
  "read_stored_checksum lib d w =
    (case wh_checksums w d of
       None \<Rightarrow> Ok None
     | Some s \<Rightarrow> (case wl_parse_checksum lib s of None \<Rightarrow> Err PipeJson | Some c \<Rightarrow> Ok (Some c)))"

definition verify_partition ::
    "warehouse_lib \<Rightarrow> bool \<Rightarrow> string \<Rightarrow> i64 \<Rightarrow> warehouse \<Rightarrow> (daily_checksum \<times> daily_checksum option, pipeline_error) res" where
  "verify_partition lib read_ok d ts w =
    bind_res (compute_live_checksum lib read_ok d ''verify-cli'' ts w) (\<lambda>live.
    bind_res (read_stored_checksum lib d w) (\<lambda>stored. Ok (live, stored)))"

text \<open>The sidecar is written beside and renamed over the old one; either step may fail.\<close>

definition seal_partition ::
    "warehouse_lib \<Rightarrow> bool \<Rightarrow> bool \<Rightarrow> bool \<Rightarrow> string \<Rightarrow> string \<Rightarrow> i64 \<Rightarrow> warehouse \<Rightarrow> (daily_checksum, pipeline_error) res \<times> warehouse" where
  "seal_partition lib read_ok write_ok rename_ok d run ts w =
    (case compute_live_checksum lib read_ok d run ts w of
       Ok live \<Rightarrow>
         (case wl_checksum_json lib live of
            None \<Rightarrow> (Err PipeJson, w)
          | Some s \<Rightarrow>
              if write_ok \<and> rename_ok then (Ok live, w\<lparr>wh_checksums := (wh_checksums w)(d \<mapsto> s)\<rparr>) else (Err PipeIo, w))
     | Err e \<Rightarrow> (Err e, w)
     | Panic \<Rightarrow> (Panic, w))"

definition archive_day :: "(string \<Rightarrow> bool) \<Rightarrow> string \<Rightarrow> warehouse \<Rightarrow> warehouse" where
  "archive_day remove_ok d w = w\<lparr>wh_archive := (wh_archive w)(d := wh_cycles w d), wh_cycles := (wh_cycles w)(d := None),
    wh_checksums := (wh_checksums w)(d := if remove_ok d then None else wh_checksums w d)\<rparr>"

text \<open>The loop over the partitions the directory lists. A failed rename ends it, a checksum that cannot be
  removed stays.\<close>

fun compact ::
    "warehouse_lib \<Rightarrow> (string \<Rightarrow> bool) \<Rightarrow> (string \<Rightarrow> bool) \<Rightarrow> u64 \<Rightarrow> string list \<Rightarrow> warehouse \<Rightarrow>
      (string list, pipeline_error) res \<times> warehouse" where
  "compact lib rename_ok remove_ok older [] w = (Ok [], w)"
| "compact lib rename_ok remove_ok older (d # ds) w =
    (case wl_age_days lib d of
       None \<Rightarrow> compact lib rename_ok remove_ok older ds w
     | Some age \<Rightarrow>
         if age < sint older then compact lib rename_ok remove_ok older ds w
         else if wh_archive w d \<noteq> None then compact lib rename_ok remove_ok older ds w
         else if wh_cycles w d \<noteq> None \<and> \<not> rename_ok d then (Err PipeIo, w)
         else
           (case compact lib rename_ok remove_ok older ds (archive_day remove_ok d w) of
                 (Ok archived, w2) \<Rightarrow> (Ok (d # archived), w2)
               | (r, w2) \<Rightarrow> (r, w2)))"

text \<open>\<^verbatim>\<open>expand_input_paths\<close>: what the input path is on disk is an argument.\<close>

datatype input_path = MissingPath | OneFile | Directory "(string \<times> bool) list"

definition expand_input_paths :: "(string list \<Rightarrow> string list) \<Rightarrow> string \<Rightarrow> input_path \<Rightarrow> (string list, pipeline_error) res" where
  "expand_input_paths path_sort input what =
    (case what of
       MissingPath \<Rightarrow> Err (PipeNotFound input)
     | OneFile \<Rightarrow> Ok [input]
     | Directory entries \<Rightarrow>
         let out = path_sort (map fst (filter snd entries)) in
         if out = [] then Err (PipeNotFound (''no .jsonl files under '' @ input)) else Ok out)"

section \<open>Ingesting a file\<close>

record ingest_stats =
  ig_files_processed :: nat
  ig_lines_read :: nat
  ig_lines_parsed :: nat
  ig_lines_written :: nat
  ig_lines_ignored_dup :: nat
  ig_rejects :: nat

definition ingest_start :: ingest_stats where
  "ingest_start = \<lparr>ig_files_processed = 1, ig_lines_read = 0, ig_lines_parsed = 0, ig_lines_written = 0,
    ig_lines_ignored_dup = 0, ig_rejects = 0\<rparr>"

definition ingest_merge :: "ingest_stats \<Rightarrow> ingest_stats \<Rightarrow> ingest_stats" where
  "ingest_merge a b =
    \<lparr>ig_files_processed = ig_files_processed a + ig_files_processed b, ig_lines_read = ig_lines_read a + ig_lines_read b,
     ig_lines_parsed = ig_lines_parsed a + ig_lines_parsed b, ig_lines_written = ig_lines_written a + ig_lines_written b,
     ig_lines_ignored_dup = ig_lines_ignored_dup a + ig_lines_ignored_dup b, ig_rejects = ig_rejects a + ig_rejects b\<rparr>"

text \<open>The world while a line is handled: the two appends, and the clock.\<close>

record line_env =
  le_insert :: append_env
  le_reject :: append_env
  le_clock :: i64

definition reject_line ::
    "warehouse_lib \<Rightarrow> line_env \<Rightarrow> string \<Rightarrow> string \<Rightarrow> nat \<Rightarrow> string \<Rightarrow> reject_reason \<Rightarrow> ingest_stats \<Rightarrow> warehouse \<Rightarrow>
      (ingest_stats, pipeline_error) res \<times> warehouse" where
  "reject_line lib env run path n line reason stats w =
    (case append_reject lib (le_reject env)
        \<lparr>rj_pipeline_run_id = run, rj_source_path = path, rj_line_number = of_nat n, rj_reason = reason,
         rj_raw_line = line, rj_rejected_at_unix_ms = le_clock env\<rparr> w of
       (Ok _, w1) \<Rightarrow> (Ok (stats\<lparr>ig_rejects := ig_rejects stats + 1\<rparr>), w1)
     | (Err e, w1) \<Rightarrow> (Err e, w1)
     | (Panic, w1) \<Rightarrow> (Panic, w1))"

definition ingest_line ::
    "warehouse_lib \<Rightarrow> line_env \<Rightarrow> string \<Rightarrow> string \<Rightarrow> nat \<Rightarrow> string \<Rightarrow> ingest_stats \<Rightarrow> warehouse \<Rightarrow>
      (ingest_stats, pipeline_error) res \<times> warehouse" where
  "ingest_line lib env run path n line stats w =
    (if str_trim line = [] then (Ok stats, w)
     else
       let s1 = stats\<lparr>ig_lines_read := ig_lines_read stats + 1\<rparr> in
       (case parse_cycle_v1_line (wl_from_str lib) line of
          Ok row \<Rightarrow>
            let s2 = s1\<lparr>ig_lines_parsed := ig_lines_parsed s1 + 1\<rparr> in
            (case insert_cycle lib (le_insert env) row w of
               (Ok True, w1) \<Rightarrow> (Ok (s2\<lparr>ig_lines_written := ig_lines_written s2 + 1\<rparr>), w1)
             | (Ok False, w1) \<Rightarrow> (Ok (s2\<lparr>ig_lines_ignored_dup := ig_lines_ignored_dup s2 + 1\<rparr>), w1)
             | (Err _, w1) \<Rightarrow> reject_line lib env run path n line FieldTypeWrong s2 w1
             | (Panic, w1) \<Rightarrow> (Panic, w1))
        | Err reason \<Rightarrow> reject_line lib env run path n line reason s1 w
        | Panic \<Rightarrow> (Panic, w)))"

fun ingest_lines ::
    "warehouse_lib \<Rightarrow> (nat \<Rightarrow> line_env) \<Rightarrow> string \<Rightarrow> string \<Rightarrow> nat \<Rightarrow> string option list \<Rightarrow> ingest_stats \<Rightarrow> warehouse \<Rightarrow>
      (ingest_stats, pipeline_error) res \<times> warehouse" where
  "ingest_lines lib env run path n [] stats w = (Ok stats, w)"
| "ingest_lines lib env run path n (None # ls) stats w = (Err PipeIo, w)"
| "ingest_lines lib env run path n (Some line # ls) stats w =
    (case ingest_line lib (env n) run path (n + 1) line stats w of
       (Ok stats', w1) \<Rightarrow> ingest_lines lib env run path (n + 1) ls stats' w1
     | (Err e, w1) \<Rightarrow> (Err e, w1)
     | (Panic, w1) \<Rightarrow> (Panic, w1))"

definition ingest_cycle_v1_file ::
    "warehouse_lib \<Rightarrow> (nat \<Rightarrow> line_env) \<Rightarrow> string \<Rightarrow> string \<Rightarrow> string option list option \<Rightarrow> warehouse \<Rightarrow>
      (ingest_stats, pipeline_error) res \<times> warehouse" where
  "ingest_cycle_v1_file lib env run path lines w =
    (case lines of
       None \<Rightarrow> (Err PipeIo, w)
     | Some ls \<Rightarrow> ingest_lines lib env run path 0 ls ingest_start w)"

text \<open>All the files of an ingest, in their order, with the environment of each.\<close>

fun ingest_files ::
    "warehouse_lib \<Rightarrow> string \<Rightarrow> (string \<Rightarrow> nat \<Rightarrow> line_env) \<Rightarrow> (string \<Rightarrow> string option list option) \<Rightarrow> string list \<Rightarrow>
      ingest_stats \<Rightarrow> warehouse \<Rightarrow> (ingest_stats, pipeline_error) res \<times> warehouse" where
  "ingest_files lib run env contents [] acc w = (Ok acc, w)"
| "ingest_files lib run env contents (p # ps) acc w =
    (case ingest_cycle_v1_file lib (env p) run p (contents p) w of
       (Ok s, w1) \<Rightarrow> ingest_files lib run env contents ps (ingest_merge acc s) w1
     | (Err e, w1) \<Rightarrow> (Err e, w1)
     | (Panic, w1) \<Rightarrow> (Panic, w1))"

definition ingest_zero :: ingest_stats where
  "ingest_zero = ingest_start\<lparr>ig_files_processed := 0\<rparr>"

definition ingest_cycle_v1 ::
    "warehouse_lib \<Rightarrow> (string list \<Rightarrow> string list) \<Rightarrow> string \<Rightarrow> (string \<Rightarrow> nat \<Rightarrow> line_env) \<Rightarrow>
      (string \<Rightarrow> string option list option) \<Rightarrow> string \<Rightarrow> input_path \<Rightarrow> warehouse \<Rightarrow> (ingest_stats, pipeline_error) res \<times> warehouse" where
  "ingest_cycle_v1 lib path_sort run env contents input what w =
    (case expand_input_paths path_sort input what of
       Ok ps \<Rightarrow> ingest_files lib run env contents ps ingest_zero w
     | Err e \<Rightarrow> (Err e, w)
     | Panic \<Rightarrow> (Panic, w))"

definition ingest_trade_v1 :: "(ingest_stats, pipeline_error) res" where
  "ingest_trade_v1 = Ok ingest_zero"

section \<open>A store that inserts or ignores\<close>

text \<open>What a client of the warehouse relies on: rows by day, a key per row, and an insert that adds a row unless
  the day already holds its key. \<open>good\<close> is the invariant of the store, \<open>fits\<close> what a row must satisfy.\<close>

fun add_new :: "('r \<Rightarrow> 'k) \<Rightarrow> ('r \<Rightarrow> 'd) \<Rightarrow> 'r list \<Rightarrow> ('d \<Rightarrow> 'r list) \<Rightarrow> bool list \<times> ('d \<Rightarrow> 'r list)" where
  "add_new key day [] m = ([], m)"
| "add_new key day (r # rs) m =
    (if key r \<in> key ` set (m (day r))
     then (case add_new key day rs m of (bs, m') \<Rightarrow> (False # bs, m'))
     else (case add_new key day rs (m(day r := m (day r) @ [r])) of (bs, m') \<Rightarrow> (True # bs, m')))"

fun run_inserts :: "('r \<Rightarrow> 'w \<Rightarrow> (bool, 'e) res \<times> 'w) \<Rightarrow> 'r list \<Rightarrow> 'w \<Rightarrow> (bool, 'e) res list \<times> 'w" where
  "run_inserts ins [] w = ([], w)"
| "run_inserts ins (r # rs) w =
    (case ins r w of (b, w1) \<Rightarrow> (case run_inserts ins rs w1 of (bs, w2) \<Rightarrow> (b # bs, w2)))"

lemma add_new_keeps: "set (m d) \<subseteq> set (snd (add_new key day rs m) d)"
proof (induction rs arbitrary: m)
  case (Cons r rs)
  define m1 where "m1 = m(day r := m (day r) @ [r])"
  have "set (m d) \<subseteq> set (m1 d)" by (auto simp: m1_def)
  then show ?case using Cons [of m] Cons [of m1] by (auto simp: split_beta m1_def [symmetric])
qed simp

lemma add_new_holds: "r \<in> set rs \<Longrightarrow> key r \<in> key ` set (snd (add_new key day rs m) (day r))"
proof (induction rs arbitrary: m)
  case (Cons x xs)
  define m1 where "m1 = m(day x := m (day x) @ [x])"
  show ?case
  proof (cases "r = x")
    case True
    show ?thesis
    proof (cases "key x \<in> key ` set (m (day x))")
      case t: True
      have "set (m (day x)) \<subseteq> set (snd (add_new key day xs m) (day x))" by (rule add_new_keeps)
      then have "key x \<in> key ` set (snd (add_new key day xs m) (day x))" using t by blast
      then show ?thesis using t True by (simp add: split_beta)
    next
      case f: False
      have "set (m1 (day x)) \<subseteq> set (snd (add_new key day xs m1) (day x))" by (rule add_new_keeps)
      moreover have "x \<in> set (m1 (day x))" by (simp add: m1_def)
      ultimately have "key x \<in> key ` set (snd (add_new key day xs m1) (day x))" by blast
      then show ?thesis using f True by (simp add: split_beta m1_def)
    qed
  next
    case False
    then have "r \<in> set xs" using Cons.prems by simp
    then show ?thesis using Cons.IH [of m] Cons.IH [of m1] by (simp add: split_beta m1_def [symmetric])
  qed
qed simp

lemma add_new_again:
  "\<forall>r\<in>set rs. key r \<in> key ` set (m (day r)) \<Longrightarrow> add_new key day rs m = (replicate (length rs) False, m)"
  by (induction rs) simp_all

locale insert_or_ignore =
  fixes ins :: "'r \<Rightarrow> 'w \<Rightarrow> (bool, 'e) res \<times> 'w"
    and rows :: "'w \<Rightarrow> 'd \<Rightarrow> 'r list"
    and key :: "'r \<Rightarrow> 'k"
    and day :: "'r \<Rightarrow> 'd"
    and good :: "'w \<Rightarrow> bool"
    and fits :: "'r \<Rightarrow> bool"
  assumes ins_new: "good w \<Longrightarrow> fits r \<Longrightarrow> key r \<notin> key ` set (rows w (day r)) \<Longrightarrow>
      \<exists>w'. ins r w = (Ok True, w') \<and> good w' \<and> rows w' = (rows w)(day r := rows w (day r) @ [r])"
    and ins_old: "good w \<Longrightarrow> fits r \<Longrightarrow> key r \<in> key ` set (rows w (day r)) \<Longrightarrow>
      \<exists>w'. ins r w = (Ok False, w') \<and> good w' \<and> rows w' = rows w"
begin

lemma run_refines:
  assumes "good w" and "\<forall>r\<in>set rs. fits r"
  shows "\<exists>w'. run_inserts ins rs w = (map Ok (fst (add_new key day rs (rows w))), w')
    \<and> good w' \<and> rows w' = snd (add_new key day rs (rows w))"
  using assms
proof (induction rs arbitrary: w)
  case (Cons r rs)
  show ?case
  proof (cases "key r \<in> key ` set (rows w (day r))")
    case True
    obtain w1 where w1: "ins r w = (Ok False, w1)" "good w1" "rows w1 = rows w"
      using ins_old [OF Cons.prems(1) _ True] Cons.prems(2) by auto
    show ?thesis using Cons.IH [OF w1(2)] Cons.prems(2) True by (auto simp: w1 split_beta)
  next
    case False
    obtain w1 where w1: "ins r w = (Ok True, w1)" "good w1" "rows w1 = (rows w)(day r := rows w (day r) @ [r])"
      using ins_new [OF Cons.prems(1) _ False] Cons.prems(2) by auto
    define m1 where "m1 = (rows w)(day r := rows w (day r) @ [r])"
    have "rows w1 = m1" by (simp add: m1_def w1)
    then show ?thesis using Cons.IH [OF w1(2)] Cons.prems(2) False by (auto simp: w1(1) split_beta m1_def [symmetric])
  qed
qed simp

lemma run_again_ignores:
  assumes "good w" and "\<forall>r\<in>set rs. fits r" and "\<forall>r\<in>set rs. key r \<in> key ` set (rows w (day r))"
  shows "\<exists>w'. run_inserts ins rs w = (replicate (length rs) (Ok False), w') \<and> good w' \<and> rows w' = rows w"
  using run_refines [OF assms(1,2)] by (simp add: add_new_again [where m = "rows w", OF assms(3)])

end

section \<open>The warehouse is such a store\<close>

definition complete_file :: "string \<Rightarrow> bool" where
  "complete_file c \<longleftrightarrow> c = [] \<or> last c = newline"

definition rows_in :: "warehouse_lib \<Rightarrow> string \<Rightarrow> cycle_v1 list" where
  "rows_in lib c = List.map_filter (wl_parse_cycle lib) (records (file_lines c))"

definition partition_rows :: "warehouse_lib \<Rightarrow> warehouse \<Rightarrow> string \<Rightarrow> cycle_v1 list" where
  "partition_rows lib w d = (case wh_cycles w d of None \<Rightarrow> [] | Some c \<Rightarrow> rows_in lib c)"

definition day_of :: "warehouse_lib \<Rightarrow> cycle_v1 \<Rightarrow> string" where
  "day_of lib row = (case wl_date_of lib (cv_detected_at_unix_ms row) of Ok d \<Rightarrow> d | _ \<Rightarrow> [])"

text \<open>What the codec promises of a row: it has a day, its line has no break and does not end in a carriage
  return, it parses back, and its first \<^verbatim>\<open>cycle_id\<close> is the one of the row.\<close>

definition line_fits :: "warehouse_lib \<Rightarrow> cycle_v1 \<Rightarrow> string \<Rightarrow> bool" where
  "line_fits lib row s \<longleftrightarrow> newline \<notin> set s \<and> s \<noteq> [] \<and> last s \<noteq> CHR 0x0D \<and> wl_parse_cycle lib s = Some row
    \<and> extract_cycle_id_from_jsonl s = Some (cv_cycle_id row)"

definition row_fits :: "warehouse_lib \<Rightarrow> cycle_v1 \<Rightarrow> bool" where
  "row_fits lib row \<longleftrightarrow> (\<exists>d. wl_date_of lib (cv_detected_at_unix_ms row) = Ok d)
    \<and> (\<exists>s. wl_cycle_json lib row = Some s \<and> line_fits lib row s)"

definition file_good :: "warehouse_lib \<Rightarrow> string \<Rightarrow> bool" where
  "file_good lib c \<longleftrightarrow> complete_file c \<and> ids_in_lines (file_lines c) = cv_cycle_id ` set (rows_in lib c)"

definition store_good :: "warehouse_lib \<Rightarrow> warehouse \<Rightarrow> bool" where
  "store_good lib w \<longleftrightarrow> (\<forall>c\<in>ran (wh_cycles w). file_good lib c)
    \<and> (\<forall>(d, i)\<in>wh_seen w. i \<in> cv_cycle_id ` set (partition_rows lib w d))"

lemma file_lines_append: "complete_file c \<Longrightarrow> file_lines (c @ s) = file_lines c @ file_lines s"
proof (induction c rule: length_induct)
  case (1 c)
  show ?case
  proof (cases "c = []")
    case False
    then have "newline \<in> set c" using 1(2) last_in_set [of c] by (auto simp: complete_file_def)
    then obtain l rest where c: "c = l @ newline # rest" "newline \<notin> set l" by (auto dest: split_list_first)
    have "complete_file rest" using 1(2) c by (auto simp: complete_file_def split: if_splits)
    then have "file_lines (rest @ s) = file_lines rest @ file_lines s" using 1(1) c by simp
    then show ?thesis using c(2) by (simp add: c(1) file_lines_step)
  qed simp
qed

lemma file_lines_one: "newline \<notin> set s \<Longrightarrow> file_lines (s @ [newline]) = [strip_cr s]"
  by (simp add: file_lines_step)

lemma records_append [simp]: "records (a @ b) = records a @ records b"
  by (simp add: records_def)

lemma map_filter_append [simp]: "List.map_filter f (a @ b) = List.map_filter f a @ List.map_filter f b"
  by (simp add: List.map_filter_def)

lemma ids_in_lines_append: "ids_in_lines (a @ b) = ids_in_lines a \<union> ids_in_lines b"
  by (simp add: ids_in_lines_def)

lemma append_complete:
  assumes "complete_file c" and "line_fits lib row s"
  shows "rows_in lib (c @ s @ [newline]) = rows_in lib c @ [row]"
    and "ids_in_lines (file_lines (c @ s @ [newline])) = insert (cv_cycle_id row) (ids_in_lines (file_lines c))"
    and "complete_file (c @ s @ [newline])"
proof -
  have one: "file_lines (c @ s @ [newline]) = file_lines c @ [s]"
    using assms by (simp add: file_lines_append file_lines_one line_fits_def strip_cr_def)
  show "rows_in lib (c @ s @ [newline]) = rows_in lib c @ [row]"
    using assms(2) unfolding rows_in_def one by (simp add: records_def line_fits_def List.map_filter_def)
  show "ids_in_lines (file_lines (c @ s @ [newline])) = insert (cv_cycle_id row) (ids_in_lines (file_lines c))"
    using assms(2) unfolding one ids_in_lines_append
    by (simp add: ids_in_lines_def records_def line_fits_def List.map_filter_def)
  show "complete_file (c @ s @ [newline])" by (simp add: complete_file_def)
qed

lemma file_good_append:
  assumes "file_good lib c" and "line_fits lib row s"
  shows "file_good lib (c @ s @ [newline])"
  using append_complete [OF _ assms(2), of c] assms(1) by (simp add: file_good_def)

lemma file_good_empty: "file_good lib []"
  by (simp add: file_good_def complete_file_def rows_in_def ids_in_lines_def records_def List.map_filter_def)

lemma rehydrate_good:
  assumes "store_good lib w"
  shows "\<exists>w1. rehydrate no_fault d w = (Ok (), w1) \<and> store_good lib w1 \<and> partition_rows lib w1 = partition_rows lib w
    \<and> wh_cycles w1 = wh_cycles w \<and> (\<forall>i. (d, i) \<in> wh_seen w1 \<longleftrightarrow> i \<in> cv_cycle_id ` set (partition_rows lib w d))"
proof (cases "wh_cycles w d")
  case None
  then show ?thesis using assms by (fastforce simp: rehydrate_def store_good_def partition_rows_def)
next
  case (Some c)
  define w1 where "w1 = w\<lparr>wh_seen := wh_seen w \<union> {d} \<times> ids_in_lines (file_lines c)\<rparr>"
  have same: "partition_rows lib w1 = partition_rows lib w" by (simp add: fun_eq_iff partition_rows_def w1_def)
  have ids: "ids_in_lines (file_lines c) = cv_cycle_id ` set (partition_rows lib w d)"
    using assms Some by (auto simp: store_good_def file_good_def partition_rows_def ran_def)
  have "store_good lib w1" using assms unfolding store_good_def same by (auto simp: w1_def ids)
  moreover have "(d, i) \<in> wh_seen w1 \<longleftrightarrow> i \<in> cv_cycle_id ` set (partition_rows lib w d)" for i
    using assms by (auto simp: w1_def ids store_good_def)
  ultimately show ?thesis using same Some by (auto simp: rehydrate_def no_fault_def w1_def)
qed

lemma append_cycle_good:
  assumes "store_good lib w" and "row_fits lib row"
  shows "\<exists>w'. append_cycle lib no_fault d row w = (Ok True, w') \<and> store_good lib w'
    \<and> partition_rows lib w' = (partition_rows lib w)(d := partition_rows lib w d @ [row])"
proof -
  obtain s where s: "wl_cycle_json lib row = Some s" "line_fits lib row s" using assms(2) by (auto simp: row_fits_def)
  define c where "c = (case wh_cycles w d of None \<Rightarrow> [] | Some c \<Rightarrow> c)"
  define w' where "w' = w\<lparr>wh_cycles := (wh_cycles w)(d \<mapsto> c @ s @ [newline]), wh_seen := insert (d, cv_cycle_id row) (wh_seen w)\<rparr>"
  have c: "file_good lib c" "partition_rows lib w d = rows_in lib c"
    using assms(1) file_good_empty by (auto simp: c_def store_good_def partition_rows_def ran_def rows_in_def records_def
        List.map_filter_def split: option.splits)
  have run: "append_cycle lib no_fault d row w = (Ok True, w')"
    by (simp add: append_cycle_def append_line_def no_fault_def Let_def s w'_def c_def)
  have rows: "partition_rows lib w' = (partition_rows lib w)(d := partition_rows lib w d @ [row])"
    using append_complete(1) [OF _ s(2)] c
    by (auto simp: fun_eq_iff partition_rows_def w'_def file_good_def)
  have files: "\<forall>c\<in>ran (wh_cycles w'). file_good lib c"
    using assms(1) file_good_append [OF c(1) s(2)] by (auto simp: store_good_def w'_def ran_def)
  have "store_good lib w'" unfolding store_good_def rows
    using assms(1) files by (auto simp: store_good_def w'_def split: if_splits)
  then show ?thesis using run rows by blast
qed

interpretation jsonl: insert_or_ignore
  "insert_cycle lib no_fault" "partition_rows lib" cv_cycle_id "day_of lib" "store_good lib" "row_fits lib" for lib
proof (unfold_locales, goal_cases)
  case (1 w r)
  obtain d where d: "wl_date_of lib (cv_detected_at_unix_ms r) = Ok d" using 1(2) by (auto simp: row_fits_def)
  then have day: "day_of lib r = d" by (simp add: day_of_def)
  have unseen: "(d, cv_cycle_id r) \<notin> wh_seen w" using 1(1,3) day by (auto simp: store_good_def)
  obtain w1 where w1: "rehydrate no_fault d w = (Ok (), w1)" "store_good lib w1" "partition_rows lib w1 = partition_rows lib w"
    "(d, cv_cycle_id r) \<notin> wh_seen w1"
    using rehydrate_good [OF 1(1), of d] 1(3) day by blast
  then have "insert_cycle lib no_fault r w = append_cycle lib no_fault d r w1"
    using unseen by (simp add: insert_cycle_def date_partition_def d)
  then show ?case using append_cycle_good [OF w1(2) 1(2), of d] w1(3) day by auto
next
  case (2 w r)
  obtain d where d: "wl_date_of lib (cv_detected_at_unix_ms r) = Ok d" using 2(2) by (auto simp: row_fits_def)
  then have day: "day_of lib r = d" by (simp add: day_of_def)
  obtain w1 where w1: "rehydrate no_fault d w = (Ok (), w1)" "store_good lib w1" "partition_rows lib w1 = partition_rows lib w"
    "(d, cv_cycle_id r) \<in> wh_seen w1"
    using rehydrate_good [OF 2(1), of d] 2(3) day by blast
  show ?case
  proof (cases "(d, cv_cycle_id r) \<in> wh_seen w")
    case True
    then show ?thesis using 2(1) by (simp add: insert_cycle_def date_partition_def d)
  next
    case False
    then show ?thesis using w1 by (simp add: insert_cycle_def date_partition_def d)
  qed
qed

lemma reopen_good: "store_good lib w \<Longrightarrow> store_good lib (reopen w)"
  by (auto simp: store_good_def reopen_def)

lemma reopen_rows [simp]: "partition_rows lib (reopen w) = partition_rows lib w"
  by (simp add: fun_eq_iff partition_rows_def reopen_def)

lemma read_partition_rows: "read_cycle_partition lib True d w = Ok (sort_key cv_detected_at_unix_ms (partition_rows lib w d))"
  by (simp add: read_cycle_partition_def lines_of_def partition_rows_def rows_in_def List.map_filter_def split: option.splits)

text \<open>C23. From any state a complete run left, inserting rows answers what the abstract store answers, and a day reads
  back as its rows and the new ones, the first of each identifier, by time. Running the same rows again, in this
  process or in one that opened the warehouse anew, writes nothing.\<close>

theorem warehouse_inserts_once:
  assumes "store_good lib w" and "\<forall>r\<in>set rows. row_fits lib r"
  shows "\<exists>w'. run_inserts (insert_cycle lib no_fault) rows w
        = (map Ok (fst (add_new cv_cycle_id (day_of lib) rows (partition_rows lib w))), w')
    \<and> (\<forall>d. read_cycle_partition lib True d w'
        = Ok (sort_key cv_detected_at_unix_ms (snd (add_new cv_cycle_id (day_of lib) rows (partition_rows lib w)) d)))
    \<and> (\<forall>v\<in>{w', reopen w'}. \<exists>v'. run_inserts (insert_cycle lib no_fault) rows v = (replicate (length rows) (Ok False), v')
        \<and> (\<forall>d. read_cycle_partition lib True d v' = read_cycle_partition lib True d w'))"
proof -
  obtain w' where run: "run_inserts (insert_cycle lib no_fault) rows w
        = (map Ok (fst (add_new cv_cycle_id (day_of lib) rows (partition_rows lib w))), w')"
    and good: "store_good lib w'" and r: "partition_rows lib w' = snd (add_new cv_cycle_id (day_of lib) rows (partition_rows lib w))"
    using jsonl.run_refines [OF assms] by blast
  have all_in: "\<forall>r\<in>set rows. cv_cycle_id r \<in> cv_cycle_id ` set (partition_rows lib w' (day_of lib r))"
    unfolding r by (simp add: add_new_holds)
  have again: "\<exists>v'. run_inserts (insert_cycle lib no_fault) rows v = (replicate (length rows) (Ok False), v')
        \<and> (\<forall>d. read_cycle_partition lib True d v' = read_cycle_partition lib True d w')" if "v \<in> {w', reopen w'}" for v
  proof -
    have v: "store_good lib v" "partition_rows lib v = partition_rows lib w'" using that good reopen_good by auto
    show ?thesis using jsonl.run_again_ignores [OF v(1) assms(2)] all_in by (auto simp: v(2) read_partition_rows)
  qed
  have reads: "read_cycle_partition lib True d w'
      = Ok (sort_key cv_detected_at_unix_ms (snd (add_new cv_cycle_id (day_of lib) rows (partition_rows lib w)) d))" for d
    by (simp add: read_partition_rows r)
  show ?thesis using run reads again by (intro exI [of _ w'] conjI) blast+
qed

section \<open>A write that was cut short\<close>

lemma rehydrate_file:
  "wh_cycles w d = Some c \<Longrightarrow> rehydrate no_fault d w = (Ok (), w\<lparr>wh_seen := wh_seen w \<union> {d} \<times> ids_in_lines (file_lines c)\<rparr>)"
  by (simp add: rehydrate_def no_fault_def)

lemma file_lines_cut: "complete_file c \<Longrightarrow> newline \<notin> set piece \<Longrightarrow> piece \<noteq> [] \<Longrightarrow> file_lines (c @ piece) = file_lines c @ [piece]"
  by (simp add: file_lines_append file_lines_last)

lemma cut_file:
  assumes "complete_file c" and "newline \<notin> set piece" and "piece \<noteq> []" and "wl_parse_cycle lib piece = None"
    and "extract_cycle_id_from_jsonl piece = Some i"
  shows "rows_in lib (c @ piece) = rows_in lib c" and "ids_in_lines (file_lines (c @ piece)) = insert i (ids_in_lines (file_lines c))"
  using assms by (simp_all add: rows_in_def file_lines_cut ids_in_lines_append)
    (simp_all add: ids_in_lines_def records_def List.map_filter_def)

lemma read_same_rows: "partition_rows lib v d = partition_rows lib w d \<Longrightarrow> read_cycle_partition lib True d v = read_cycle_partition lib True d w"
  by (simp add: read_partition_rows)

lemma extract_Nil: "extract_cycle_id_from_jsonl [] = None"
  by (simp add: extract_cycle_id_from_jsonl_def cycle_id_needle_def)

text \<open>The state after the cut: the file of the day ends in the piece, and nothing new is seen.\<close>

lemma insert_cut:
  assumes "store_good lib w" and "wl_date_of lib (cv_detected_at_unix_ms row) = Ok d"
    and "wl_cycle_json lib row = Some s" and "k \<le> length s" and "cv_cycle_id row \<notin> cv_cycle_id ` set (partition_rows lib w d)"
  shows "\<exists>w1 c. insert_cycle lib (no_fault\<lparr>an_stops := Some k\<rparr>) row w = (Err PipeIo, w1) \<and> wh_cycles w1 d = Some (c @ take k s)
    \<and> file_good lib c \<and> rows_in lib c = partition_rows lib w d
    \<and> (\<forall>i. (d, i) \<in> wh_seen w1 \<longrightarrow> i \<in> cv_cycle_id ` set (partition_rows lib w d))"
proof -
  let ?env = "no_fault\<lparr>an_stops := Some k\<rparr>"
  define c where "c = (case wh_cycles w d of None \<Rightarrow> [] | Some c \<Rightarrow> c)"
  have c: "file_good lib c" "rows_in lib c = partition_rows lib w d"
    using assms(1) file_good_empty by (auto simp: c_def store_good_def partition_rows_def ran_def rows_in_def records_def
        List.map_filter_def split: option.splits)
  have same: "rehydrate ?env d w = rehydrate no_fault d w" by (cases "wh_cycles w d") (simp_all add: rehydrate_def no_fault_def)
  obtain w0 where w0: "rehydrate no_fault d w = (Ok (), w0)" "wh_cycles w0 = wh_cycles w"
    "\<forall>i. (d, i) \<in> wh_seen w0 \<longleftrightarrow> i \<in> cv_cycle_id ` set (partition_rows lib w d)"
    using rehydrate_good [OF assms(1), of d] by blast
  have unseen: "(d, cv_cycle_id row) \<notin> wh_seen w" using assms(1,5) by (auto simp: store_good_def)
  have "append_line ?env (wh_cycles w d) (Some s) = (Err PipeIo, Some (c @ take k s))"
    using assms(4) by (simp add: append_line_def no_fault_def c_def Let_def)
  then have "insert_cycle lib ?env row w = (Err PipeIo, w0\<lparr>wh_cycles := (wh_cycles w)(d \<mapsto> c @ take k s)\<rparr>)"
    using unseen w0 assms(5) by (simp add: insert_cycle_def date_partition_def assms(2,3) same append_cycle_def)
  then show ?thesis using c w0(3) by auto
qed

text \<open>C25. A row whose line was cut after its identifier is lost: it is never read back, and inserting it again, in this
  process or the next, answers that it is already there. The row that comes after it is reported as written
  and is lost with it.\<close>

theorem torn_row_lost:
  assumes "store_good lib w" and "wl_date_of lib (cv_detected_at_unix_ms row) = Ok d"
    and "wl_cycle_json lib row = Some s" and "k \<le> length s" and "cv_cycle_id row \<notin> cv_cycle_id ` set (partition_rows lib w d)"
    and "newline \<notin> set s" and "wl_parse_cycle lib (take k s) = None"
    and "extract_cycle_id_from_jsonl (take k s) = Some (cv_cycle_id row)"
    and "row_fits lib row'" and "day_of lib row' = d" and "cv_cycle_id row' \<notin> insert (cv_cycle_id row) (cv_cycle_id ` set (partition_rows lib w d))"
    and "\<forall>s'. wl_cycle_json lib row' = Some s' \<longrightarrow> wl_parse_cycle lib (take k s @ s') = None"
  shows "\<exists>w1. insert_cycle lib (no_fault\<lparr>an_stops := Some k\<rparr>) row w = (Err PipeIo, w1)
    \<and> (\<forall>v\<in>{w1, reopen w1}.
        (\<exists>v'. insert_cycle lib no_fault row v = (Ok False, v') \<and> read_cycle_partition lib True d v' = read_cycle_partition lib True d w)
      \<and> (\<exists>v'. insert_cycle lib no_fault row' v = (Ok True, v') \<and> read_cycle_partition lib True d v' = read_cycle_partition lib True d w))"
proof -
  obtain w1 c where w1: "insert_cycle lib (no_fault\<lparr>an_stops := Some k\<rparr>) row w = (Err PipeIo, w1)" "wh_cycles w1 d = Some (c @ take k s)"
    "file_good lib c" "rows_in lib c = partition_rows lib w d"
    "\<forall>i. (d, i) \<in> wh_seen w1 \<longrightarrow> i \<in> cv_cycle_id ` set (partition_rows lib w d)"
    using insert_cut [OF assms(1-5)] by blast
  have cut: "newline \<notin> set (take k s)" "take k s \<noteq> []"
    using assms(6) in_set_takeD assms(8) extract_Nil by (fast, metis option.distinct(1))
  have c: "complete_file c" using w1(3) by (simp add: file_good_def)
  obtain s' where s': "wl_cycle_json lib row' = Some s'" "line_fits lib row' s'" using assms(9) by (auto simp: row_fits_def)
  have d': "wl_date_of lib (cv_detected_at_unix_ms row') = Ok d" using assms(9,10) by (auto simp: row_fits_def day_of_def)
  have glued: "rows_in lib (c @ take k s @ s' @ [newline]) = rows_in lib c"
    using file_lines_append [OF c, of "take k s @ s' @ [newline]"] cut s' assms(12) file_lines_one [of "take k s @ s'"]
    by (simp add: rows_in_def line_fits_def strip_cr_def records_def List.map_filter_def)
  have lost: "(\<exists>v'. insert_cycle lib no_fault row v = (Ok False, v') \<and> partition_rows lib v' d = partition_rows lib w d)
      \<and> (\<exists>v'. insert_cycle lib no_fault row' v = (Ok True, v') \<and> partition_rows lib v' d = partition_rows lib w d)"
    if v: "wh_cycles v d = Some (c @ take k s)" "\<forall>i. (d, i) \<in> wh_seen v \<longrightarrow> i \<in> cv_cycle_id ` set (partition_rows lib w d)" for v
  proof -
    define v1 where "v1 = v\<lparr>wh_seen := wh_seen v \<union> {d} \<times> ids_in_lines (file_lines (c @ take k s))\<rparr>"
    note ids = cut_file [OF c cut assms(7,8)]
    have re: "rehydrate no_fault d v = (Ok (), v1)" using rehydrate_file [OF v(1)] by (simp add: v1_def)
    have seen: "(d, i) \<in> wh_seen v1 \<longleftrightarrow> i \<in> insert (cv_cycle_id row) (cv_cycle_id ` set (partition_rows lib w d))" for i
      using v(2) w1(3,4) by (auto simp: v1_def ids(2) file_good_def)
    have unseen: "(d, cv_cycle_id row) \<notin> wh_seen v" "(d, cv_cycle_id row') \<notin> wh_seen v" using v(2) assms(5,11) by auto
    have "insert_cycle lib no_fault row v = (Ok False, v1)"
      using unseen(1) seen by (simp add: insert_cycle_def date_partition_def assms(2) re)
    moreover have "partition_rows lib v1 d = partition_rows lib w d" using w1(4) v(1) ids(1) by (simp add: partition_rows_def v1_def)
    moreover have "insert_cycle lib no_fault row' v = append_cycle lib no_fault d row' v1"
      using unseen(2) seen assms(11) by (simp add: insert_cycle_def date_partition_def d' re)
    moreover have "append_cycle lib no_fault d row' v1
        = (Ok True, v1\<lparr>wh_cycles := (wh_cycles v1)(d \<mapsto> c @ take k s @ s' @ [newline]), wh_seen := insert (d, cv_cycle_id row') (wh_seen v1)\<rparr>)"
      using v(1) by (simp add: append_cycle_def append_line_def no_fault_def s'(1) v1_def Let_def)
    ultimately show ?thesis using glued w1(4) by (simp add: partition_rows_def)
  qed
  show ?thesis
  proof (rule exI [of _ w1], rule conjI, rule w1(1), intro ballI conjI)
    fix v assume "v \<in> {w1, reopen w1}"
    then have v: "wh_cycles v d = Some (c @ take k s)" "\<forall>i. (d, i) \<in> wh_seen v \<longrightarrow> i \<in> cv_cycle_id ` set (partition_rows lib w d)"
      using w1(2,5) by (auto simp: reopen_def)
    show "\<exists>v'. insert_cycle lib no_fault row v = (Ok False, v') \<and> read_cycle_partition lib True d v' = read_cycle_partition lib True d w"
      using lost [OF v] read_same_rows by metis
    show "\<exists>v'. insert_cycle lib no_fault row' v = (Ok True, v') \<and> read_cycle_partition lib True d v' = read_cycle_partition lib True d w"
      using lost [OF v] read_same_rows by metis
  qed
qed

section \<open>Archiving\<close>

lemma compact_keeps_archived:
  "wh_archive w d \<noteq> None \<Longrightarrow> wh_cycles (snd (compact lib rename_ok remove_ok older ds w)) d = wh_cycles w d"
proof (induction ds arbitrary: w)
  case (Cons x xs)
  define w1 where "w1 = archive_day remove_ok x w"
  have snd_ok: "snd (case p of (Ok archived, w2) \<Rightarrow> (Ok (x # archived), w2) | (r, w2) \<Rightarrow> (r, w2)) = snd p"
    for p :: "(string list, pipeline_error) res \<times> warehouse" by (auto split: prod.splits res.splits)
  have "wh_cycles (snd (compact lib rename_ok remove_ok older xs w1)) d = wh_cycles w d" if "x \<noteq> d"
    using Cons.IH [of w1] Cons.prems that by (simp add: w1_def archive_day_def)
  then show ?case
    using Cons.IH [of w] Cons.prems
    by (cases "x = d") (auto simp: Let_def snd_ok w1_def [symmetric] split: option.split)
qed simp

text \<open>Once a day is archived, a process that opens the warehouse anew takes its rows for new and writes them again,
  into a partition that no later run archives.\<close>

theorem archived_rows_come_back:
  assumes "store_good lib w" and "wl_age_days lib d = Some age" and "sint older \<le> age" and "wh_archive w d = None"
    and "row \<in> set (partition_rows lib w d)" and "row_fits lib row" and "day_of lib row = d"
  shows "\<exists>w1 w2. compact lib (\<lambda>_. True) remove_ok older [d] w = (Ok [d], w1) \<and> wh_archive w1 d = wh_cycles w d
    \<and> insert_cycle lib no_fault row (reopen w1) = (Ok True, w2) \<and> read_cycle_partition lib True d w2 = Ok [row]
    \<and> (\<forall>rename_ok remove_ok older ds. wh_cycles (snd (compact lib rename_ok remove_ok older ds w2)) d = wh_cycles w2 d)"
proof -
  define w1 where "w1 = archive_day remove_ok d w"
  have run: "compact lib (\<lambda>_. True) remove_ok older [d] w = (Ok [d], w1)"
    using assms(2-4) by (simp add: w1_def Let_def)
  have held: "wh_cycles w d \<noteq> None" using assms(5) by (cases "wh_cycles w d") (simp_all add: partition_rows_def)
  have good: "store_good lib (reopen w1)" and none: "partition_rows lib (reopen w1) d = []"
    using assms(1) by (auto simp: store_good_def reopen_def w1_def archive_day_def ran_def partition_rows_def split: if_splits)
  obtain w2 where w2: "insert_cycle lib no_fault row (reopen w1) = (Ok True, w2)" "partition_rows lib w2 d = [row]"
    using jsonl.ins_new [OF good assms(6)] none assms(7) by auto
  have "wh_archive w2 = wh_archive (reopen w1)"
    using w2(1) by (auto simp: insert_cycle_def rehydrate_def append_cycle_def split: res.splits option.splits if_splits prod.splits)
  then have "wh_archive w2 d \<noteq> None" using held by (simp add: reopen_def w1_def archive_day_def)
  then have "\<forall>rename_ok remove_ok older ds. wh_cycles (snd (compact lib rename_ok remove_ok older ds w2)) d = wh_cycles w2 d"
    by (simp add: compact_keeps_archived)
  then show ?thesis using run w2 by (auto simp: w1_def archive_day_def read_partition_rows)
qed

section \<open>Accounting of an ingest\<close>

definition balanced :: "ingest_stats \<Rightarrow> bool" where
  "balanced s \<longleftrightarrow> ig_lines_read s = ig_lines_written s + ig_lines_ignored_dup s + ig_rejects s \<and> ig_lines_parsed s \<le> ig_lines_read s"

definition blank :: "string \<Rightarrow> bool" where
  "blank l \<longleftrightarrow> str_trim l = []"

lemma reject_line_stats:
  "fst (reject_line lib env run path n line reason s w) = Ok s' \<Longrightarrow> s' = s\<lparr>ig_rejects := ig_rejects s + 1\<rparr>"
  by (auto simp: reject_line_def split: prod.splits res.splits)

lemma ingest_line_counts:
  assumes "fst (ingest_line lib env run path n line s w) = Ok s'" and "balanced s"
  shows "balanced s' \<and> ig_lines_read s' = ig_lines_read s + (if blank line then 0 else 1)"
  using assms
  by (auto simp: ingest_line_def blank_def balanced_def Let_def dest!: reject_line_stats split: if_splits res.splits prod.splits bool.splits)

lemma ingest_lines_counts:
  assumes "fst (ingest_lines lib env run path n ls s w) = Ok s'" and "balanced s"
  shows "balanced s' \<and> (\<exists>ss. ls = map Some ss \<and> ig_lines_read s' = ig_lines_read s + length (filter (\<lambda>l. \<not> blank l) ss))"
  using assms
proof (induction lib env run path n ls s w arbitrary: s' rule: ingest_lines.induct)
  case (3 lib env run path n line ls s w)
  obtain s1 w1 where one: "ingest_line lib (env n) run path (n + 1) line s w = (Ok s1, w1)"
    and rest: "fst (ingest_lines lib env run path (n + 1) ls s1 w1) = Ok s'"
    using "3.prems"(1) by (auto split: prod.splits res.splits)
  have b: "balanced s1" "ig_lines_read s1 = ig_lines_read s + (if blank line then 0 else 1)"
    using ingest_line_counts [of lib "env n" run path "n + 1" line s w s1] one "3.prems"(2) by auto
  obtain ss where "balanced s'" "ls = map Some ss" "ig_lines_read s' = ig_lines_read s1 + length (filter (\<lambda>l. \<not> blank l) ss)"
    using "3.IH" [OF one [symmetric] refl rest b(1)] by blast
  then show ?case using b(2) by (intro conjI exI [of _ "line # ss"]) auto
qed auto

text \<open>Whatever the files and the disk do, an ingest that succeeds has read every line and accounts for every line
  that is not blank: it was written, was there before, or is a reject.\<close>

theorem ingest_accounts:
  assumes "ingest_cycle_v1_file lib env run path lines w = (Ok s, w')"
  shows "\<exists>ss. lines = Some (map Some ss)
    \<and> length (filter (\<lambda>l. str_trim l \<noteq> []) ss) = ig_lines_written s + ig_lines_ignored_dup s + ig_rejects s"
proof -
  obtain ls where ls: "lines = Some ls" "fst (ingest_lines lib env run path 0 ls ingest_start w) = Ok s"
    using assms by (auto simp: ingest_cycle_v1_file_def split: option.splits)
  show ?thesis using ingest_lines_counts [OF ls(2)]
    by (auto simp: ls(1) balanced_def ingest_start_def blank_def)
qed

text \<open>The rows a file brings, and the lines it has refused.\<close>

definition rows_of_lines :: "warehouse_lib \<Rightarrow> string list \<Rightarrow> cycle_v1 list" where
  "rows_of_lines lib ss =
    List.map_filter (\<lambda>l. case parse_cycle_v1_line (wl_from_str lib) l of Ok row \<Rightarrow> Some row | _ \<Rightarrow> None) (filter (\<lambda>l. \<not> blank l) ss)"

definition refused_lines :: "warehouse_lib \<Rightarrow> string list \<Rightarrow> string list" where
  "refused_lines lib ss = filter (\<lambda>l. \<not> blank l \<and> (\<exists>e. parse_cycle_v1_line (wl_from_str lib) l = Err e)) ss"

lemma need_total: "need m e \<noteq> Panic" and guard_total: "guard_ok b e \<noteq> Panic"
  by (simp_all add: need_def guard_ok_def ok_or_def split: option.split)

lemma each_ok_total: "\<forall>x. f x \<noteq> Panic \<Longrightarrow> each_ok f xs \<noteq> Panic"
  by (induction xs) (auto simp: bind_res_Panic_iff)

lemma validate_no_panic: "validate_cycle_v1 v \<noteq> Panic"
proof -
  have legs: "validate_leg l \<noteq> Panic" for l
    by (simp add: validate_leg_def bind_res_Panic_iff need_total guard_total)
  have dex: "validate_dex l \<noteq> Panic" for l
    by (simp add: validate_dex_def bind_res_Panic_iff need_total guard_total)
  have num: "validate_number v x \<noteq> Panic" for x
    by (cases x) (simp add: validate_number_def bind_res_Panic_iff need_total guard_total)
  have choice: "validate_choice v f p e \<noteq> Panic" for f p e
    by (simp add: validate_choice_def bind_res_Panic_iff need_total guard_total)
  have priv: "validate_private v \<noteq> Panic"
    by (auto simp: validate_private_def guard_total intro!: each_ok_total split: option.split)
  show ?thesis
    by (simp add: validate_cycle_v1_def bind_res_Panic_iff need_total guard_total legs dex num choice priv each_ok_total)
qed

lemma parse_no_panic: "parse_cycle_v1_line f l \<noteq> Panic"
  by (simp add: parse_cycle_v1_line_def parse_line_def bind_res_Panic_iff need_total validate_no_panic)

definition quiet_line :: "line_env \<Rightarrow> bool" where
  "quiet_line e \<longleftrightarrow> le_insert e = no_fault \<and> an_open_ok (le_reject e) \<and> an_stops (le_reject e) = None"

text \<open>The statistics after some lines, where the store held \<open>m\<close> before.\<close>

definition tally :: "warehouse_lib \<Rightarrow> string list \<Rightarrow> (string \<Rightarrow> cycle_v1 list) \<Rightarrow> ingest_stats \<Rightarrow> ingest_stats" where
  "tally lib ss m s =
    (let bs = fst (add_new cv_cycle_id (day_of lib) (rows_of_lines lib ss) m) in
     s\<lparr>ig_lines_read := ig_lines_read s + length (filter (\<lambda>l. \<not> blank l) ss),
       ig_lines_parsed := ig_lines_parsed s + length (rows_of_lines lib ss),
       ig_lines_written := ig_lines_written s + length (filter id bs),
       ig_lines_ignored_dup := ig_lines_ignored_dup s + length (filter Not bs),
       ig_rejects := ig_rejects s + length (refused_lines lib ss)\<rparr>)"

abbreviation held_after :: "warehouse_lib \<Rightarrow> string list \<Rightarrow> (string \<Rightarrow> cycle_v1 list) \<Rightarrow> string \<Rightarrow> cycle_v1 list" where
  "held_after lib ss m \<equiv> snd (add_new cv_cycle_id (day_of lib) (rows_of_lines lib ss) m)"

lemma add_new_append:
  "add_new key day (xs @ ys) m =
    (let (bs, m1) = add_new key day xs m; (cs, m2) = add_new key day ys m1 in (bs @ cs, m2))"
  by (induction xs arbitrary: m) (simp_all add: split_beta Let_def)

lemma rows_of_lines_append: "rows_of_lines lib (xs @ ys) = rows_of_lines lib xs @ rows_of_lines lib ys"
  by (simp add: rows_of_lines_def)

lemma tally_append: "tally lib (xs @ ys) m s = tally lib ys (held_after lib xs m) (tally lib xs m s)"
  by (simp add: tally_def rows_of_lines_append add_new_append refused_lines_def Let_def split_beta add.assoc)

lemma append_reject_quiet:
  assumes "an_open_ok env" and "an_stops env = None" and "wl_reject_json lib r \<noteq> None"
  shows "\<exists>f. append_reject lib env r w = (Ok (), w\<lparr>wh_rejects := f\<rparr>)"
  using assms by (auto simp: append_reject_def append_line_def Let_def)

lemma rejects_irrelevant [simp]:
  "store_good lib (w\<lparr>wh_rejects := f\<rparr>) = store_good lib w" "partition_rows lib (w\<lparr>wh_rejects := f\<rparr>) = partition_rows lib w"
proof -
  show p: "partition_rows lib (w\<lparr>wh_rejects := f\<rparr>) = partition_rows lib w" by (simp add: fun_eq_iff partition_rows_def)
  show "store_good lib (w\<lparr>wh_rejects := f\<rparr>) = store_good lib w" by (simp add: store_good_def p)
qed

lemma ingest_line_exact:
  assumes "store_good lib w" and "quiet_line env" and "\<forall>r. wl_reject_json lib r \<noteq> None"
    and "\<forall>row\<in>set (rows_of_lines lib [l]). row_fits lib row"
  shows "\<exists>w'. ingest_line lib env run path n l s w = (Ok (tally lib [l] (partition_rows lib w) s), w')
    \<and> store_good lib w' \<and> partition_rows lib w' = held_after lib [l] (partition_rows lib w)"
proof (cases "blank l")
  case True
  then show ?thesis using assms(1)
    by (simp add: ingest_line_def blank_def tally_def rows_of_lines_def refused_lines_def List.map_filter_def)
next
  case False
  then have nb: "str_trim l \<noteq> []" by (simp add: blank_def)
  show ?thesis
  proof (cases "parse_cycle_v1_line (wl_from_str lib) l")
    case (Ok row)
    have rows: "rows_of_lines lib [l] = [row]" "refused_lines lib [l] = []"
      using False Ok by (simp_all add: rows_of_lines_def refused_lines_def List.map_filter_def)
    have fits: "row_fits lib row" using assms(4) rows by simp
    have env: "le_insert env = no_fault" using assms(2) by (simp add: quiet_line_def)
    show ?thesis
    proof (cases "cv_cycle_id row \<in> cv_cycle_id ` set (partition_rows lib w (day_of lib row))")
      case True
      then show ?thesis using jsonl.ins_old [OF assms(1) fits] nb False
        by (auto simp: ingest_line_def Ok env Let_def tally_def rows)
    next
      case f: False
      then show ?thesis using jsonl.ins_new [OF assms(1) fits] nb False
        by (auto simp: ingest_line_def Ok env Let_def tally_def rows)
    qed
  next
    case (Err e)
    have rows: "rows_of_lines lib [l] = []" "refused_lines lib [l] = [l]"
      using False Err by (simp_all add: rows_of_lines_def refused_lines_def List.map_filter_def)
    have env: "an_open_ok (le_reject env)" "an_stops (le_reject env) = None" using assms(2) by (simp_all add: quiet_line_def)
    obtain f where "append_reject lib (le_reject env)
        \<lparr>rj_pipeline_run_id = run, rj_source_path = path, rj_line_number = of_nat n, rj_reason = e,
         rj_raw_line = l, rj_rejected_at_unix_ms = le_clock env\<rparr> w = (Ok (), w\<lparr>wh_rejects := f\<rparr>)"
      using append_reject_quiet [OF env] assms(3) by blast
    then show ?thesis using nb False assms(1)
      by (simp add: ingest_line_def Err Let_def reject_line_def tally_def rows)
  next
    case Panic
    then show ?thesis using parse_no_panic by simp
  qed
qed

lemma ingest_lines_exact:
  assumes "store_good lib w" and "\<forall>n. quiet_line (env n)" and "\<forall>r. wl_reject_json lib r \<noteq> None"
    and "\<forall>row\<in>set (rows_of_lines lib ss). row_fits lib row"
  shows "\<exists>w'. ingest_lines lib env run path n (map Some ss) s w = (Ok (tally lib ss (partition_rows lib w) s), w')
    \<and> store_good lib w' \<and> partition_rows lib w' = held_after lib ss (partition_rows lib w)"
  using assms(1,4)
proof (induction ss arbitrary: n s w)
  case Nil
  then show ?case by (simp add: tally_def rows_of_lines_def refused_lines_def List.map_filter_def)
next
  case (Cons l ss)
  have split: "rows_of_lines lib (l # ss) = rows_of_lines lib [l] @ rows_of_lines lib ss"
    using rows_of_lines_append [of lib "[l]" ss] by simp
  obtain w1 where w1: "ingest_line lib (env n) run path (n + 1) l s w = (Ok (tally lib [l] (partition_rows lib w) s), w1)"
    "store_good lib w1" "partition_rows lib w1 = held_after lib [l] (partition_rows lib w)"
    using ingest_line_exact [OF Cons.prems(1), of "env n" l run path "n + 1" s] assms(2,3) Cons.prems(2) split by auto
  obtain w2 where w2: "ingest_lines lib env run path (n + 1) (map Some ss) (tally lib [l] (partition_rows lib w) s) w1
      = (Ok (tally lib ss (partition_rows lib w1) (tally lib [l] (partition_rows lib w) s)), w2)"
    "store_good lib w2" "partition_rows lib w2 = held_after lib ss (partition_rows lib w1)"
    using Cons.IH [OF w1(2), of "n + 1" "tally lib [l] (partition_rows lib w) s"] Cons.prems(2) split by auto
  have "held_after lib (l # ss) (partition_rows lib w) = partition_rows lib w2"
    by (simp only: w2(3) w1(3) split add_new_append Let_def split_beta snd_conv)
  moreover have "tally lib (l # ss) (partition_rows lib w) s
      = tally lib ss (partition_rows lib w1) (tally lib [l] (partition_rows lib w) s)"
    using tally_append [of lib "[l]" ss] by (simp add: w1(3))
  ultimately show ?case using w1(1) w2(1,2) by simp
qed

text \<open>C24. On a quiet disk the ingest of a file does to the warehouse what the abstract store does with its valid rows, and its
  statistics say exactly that; the same file once more, in a process that opened the warehouse anew, writes
  no row.\<close>

theorem ingest_file_exact:
  assumes "store_good lib w" and "\<forall>n. quiet_line (env n)" and "\<forall>r. wl_reject_json lib r \<noteq> None"
    and "\<forall>row\<in>set (rows_of_lines lib ss). row_fits lib row"
  shows "\<exists>w'. ingest_cycle_v1_file lib env run path (Some (map Some ss)) w = (Ok (tally lib ss (partition_rows lib w) ingest_start), w')
    \<and> (\<forall>d. read_cycle_partition lib True d w' = Ok (sort_key cv_detected_at_unix_ms
          (snd (add_new cv_cycle_id (day_of lib) (rows_of_lines lib ss) (partition_rows lib w)) d)))
    \<and> (\<exists>s v. ingest_cycle_v1_file lib env run path (Some (map Some ss)) (reopen w') = (Ok s, v)
        \<and> ig_lines_written s = 0 \<and> ig_lines_ignored_dup s = length (rows_of_lines lib ss)
        \<and> (\<forall>d. read_cycle_partition lib True d v = read_cycle_partition lib True d w'))"
proof -
  obtain w' where w': "ingest_lines lib env run path 0 (map Some ss) ingest_start w = (Ok (tally lib ss (partition_rows lib w) ingest_start), w')"
    "store_good lib w'" "partition_rows lib w' = held_after lib ss (partition_rows lib w)"
    using ingest_lines_exact [OF assms] by blast
  have good: "store_good lib (reopen w')" by (rule reopen_good [OF w'(2)])
  have "add_new cv_cycle_id (day_of lib) (rows_of_lines lib ss) (partition_rows lib w')
      = (replicate (length (rows_of_lines lib ss)) False, partition_rows lib w')"
    by (rule add_new_again) (simp add: w'(3) add_new_holds)
  then obtain v where v: "ingest_lines lib env run path 0 (map Some ss) ingest_start (reopen w')
      = (Ok (tally lib ss (partition_rows lib w') ingest_start), v)" "partition_rows lib v = partition_rows lib w'"
    and t: "ig_lines_written (tally lib ss (partition_rows lib w') ingest_start) = 0"
    "ig_lines_ignored_dup (tally lib ss (partition_rows lib w') ingest_start) = length (rows_of_lines lib ss)"
    using ingest_lines_exact [OF good assms(2-4), of run path 0 ingest_start]
    by (auto simp: tally_def ingest_start_def Let_def)
  have reads: "read_cycle_partition lib True d w' = Ok (sort_key cv_detected_at_unix_ms
          (snd (add_new cv_cycle_id (day_of lib) (rows_of_lines lib ss) (partition_rows lib w)) d))" for d
    by (simp add: read_partition_rows w'(3))
  have same: "read_cycle_partition lib True d v = read_cycle_partition lib True d w'" for d
    by (simp add: read_partition_rows v(2))
  show ?thesis using w'(1) reads v(1) t same by (auto simp: ingest_cycle_v1_file_def)
qed

section \<open>A concrete warehouse\<close>

definition id0 :: string where
  "id0 = replicate 64 (CHR ''0'')"

definition id1 :: string where
  "id1 = replicate 64 (CHR ''1'')"

definition sample_line :: "string \<Rightarrow> string" where
  "sample_line i = ''{'' @ cycle_id_needle @ i @ dq @ ''}''"

definition sample_leg :: leg_v1 where
  "sample_leg = \<lparr>lv_pool = replicate 32 (CHR ''p''), lv_dex = ''orca'', lv_direction = ''BaseToQuote'', lv_weight = 5\<rparr>"

definition sample_cycle :: "string \<Rightarrow> cycle_v1" where
  "sample_cycle i = \<lparr>cv_schema = ''cycle.v1'', cv_cycle_id = i, cv_detected_at_unix_ms = 0, cv_detected_at_slot = 7,
    cv_bot_run_id = ''run'', cv_dexes = [''orca''], cv_legs = [sample_leg], cv_base_mint = ''a'', cv_quote_mint = ''b'',
    cv_gross_bps = 12, cv_fee_bps_sum = 30, cv_decision = ''WouldTrade'', cv_evaluator = ''optimistic'',
    cv_input_lamports = 100, cv_output_lamports = 101, cv_source_feed = ''ws:mainnet''\<rparr>"

definition sample_json :: "string \<Rightarrow> json" where
  "sample_json i = JObj [(''schema'', JStr ''cycle.v1''), (''cycle_id'', JStr i), (''detected_at_unix_ms'', JInt 0),
    (''detected_at_slot'', JInt 7), (''bot_run_id'', JStr ''run''), (''dexes'', JArr [JStr ''orca'']),
    (''legs'', JArr [JObj [(''pool'', JStr (replicate 32 (CHR ''p''))), (''dex'', JStr ''orca''), (''direction'', JStr ''BaseToQuote''), (''weight'', JInt 5)]]),
    (''base_mint'', JStr ''a''), (''quote_mint'', JStr ''b''), (''gross_bps'', JInt 12), (''fee_bps_sum'', JInt 30),
    (''decision'', JStr ''WouldTrade''), (''evaluator'', JStr ''optimistic''), (''input_lamports'', JInt 100),
    (''output_lamports'', JInt 101), (''source_feed'', JStr ''ws:mainnet'')]"

definition sample_parse :: "string \<Rightarrow> string option" where
  "sample_parse l = (case extract_cycle_id_from_jsonl l of None \<Rightarrow> None | Some i \<Rightarrow> if l = sample_line i then Some i else None)"

definition sample_lib :: warehouse_lib where
  "sample_lib = \<lparr>wl_from_str = (\<lambda>l. map_option sample_json (sample_parse l)), wl_date_of = (\<lambda>_. Ok ''2026-06-21''), wl_cycle_json = (\<lambda>r. Some (sample_line (cv_cycle_id r))),
    wl_parse_cycle = (\<lambda>l. map_option sample_cycle (sample_parse l)), wl_reject_json = (\<lambda>r. Some (rj_raw_line r)),
    wl_parse_reject = (\<lambda>_. None), wl_checksum_json = (\<lambda>_. None), wl_parse_checksum = (\<lambda>_. None), wl_blake3 = id,
    wl_age_days = (\<lambda>_. Some 90)\<rparr>"

definition empty_warehouse :: warehouse where
  "empty_warehouse = \<lparr>wh_cycles = Map.empty, wh_checksums = Map.empty, wh_archive = Map.empty, wh_rejects = Map.empty, wh_seen = {}\<rparr>"

lemma empty_warehouse_good: "store_good lib empty_warehouse"
  by (simp add: store_good_def empty_warehouse_def)

lemma empty_warehouse_rows [simp]: "partition_rows lib empty_warehouse = (\<lambda>_. [])"
  by (simp add: fun_eq_iff partition_rows_def empty_warehouse_def)

lemma after_first_prefix: "after_first needle (needle @ r) = Some r"
proof (cases "needle @ r")
  case (Cons c cs)
  have "take (length needle) (c # cs) = needle" "drop (length needle) (c # cs) = r" unfolding Cons [symmetric] by simp_all
  then show ?thesis unfolding Cons by simp
qed simp

lemma extract_line:
  assumes "CHR 0x22 \<notin> set i"
  shows "extract_cycle_id_from_jsonl (''{'' @ cycle_id_needle @ i @ CHR 0x22 # r) = Some i"
proof -
  have "after_first cycle_id_needle (''{'' @ s) = after_first cycle_id_needle s" for s
    by (simp add: cycle_id_needle_def)
  then have "after_first cycle_id_needle (''{'' @ cycle_id_needle @ i @ CHR 0x22 # r) = Some (i @ CHR 0x22 # r)"
    by (simp only: after_first_prefix)
  moreover have "takeWhile (\<lambda>c. c \<noteq> CHR 0x22) (i @ CHR 0x22 # r) = i" using assms by (induction i) auto
  ultimately show ?thesis unfolding extract_cycle_id_from_jsonl_def by simp
qed

lemma sample_fits:
  assumes "CHR 0x22 \<notin> set i" and "newline \<notin> set i"
  shows "row_fits sample_lib (sample_cycle i)"
proof -
  have "extract_cycle_id_from_jsonl (sample_line i) = Some i" using extract_line [OF assms(1)] by (simp add: sample_line_def dq_def)
  then have "line_fits sample_lib (sample_cycle i) (sample_line i)"
    using assms(2) by (auto simp: line_fits_def sample_lib_def sample_parse_def sample_cycle_def)
      (auto simp: sample_line_def dq_def newline_def cycle_id_needle_def)
  then show ?thesis by (simp add: row_fits_def sample_lib_def sample_cycle_def)
qed

lemma sample_ids: "CHR 0x22 \<notin> set id0" "CHR 0x22 \<notin> set id1" "newline \<notin> set id0" "newline \<notin> set id1" "id0 \<noteq> id1"
  by (simp_all add: id0_def id1_def newline_def)

lemma warehouse_inserts_once_witness:
  "\<exists>w'. run_inserts (insert_cycle sample_lib no_fault) [sample_cycle id0, sample_cycle id1, sample_cycle id0] empty_warehouse
      = ([Ok True, Ok True, Ok False], w')
    \<and> read_cycle_partition sample_lib True ''2026-06-21'' w' = Ok [sample_cycle id0, sample_cycle id1]"
proof -
  have fits: "\<forall>r\<in>set [sample_cycle id0, sample_cycle id1, sample_cycle id0]. row_fits sample_lib r"
    using sample_fits sample_ids by simp
  have key: "cv_cycle_id (sample_cycle i) = i" "cv_detected_at_unix_ms (sample_cycle i) = 0" "day_of sample_lib (sample_cycle i) = ''2026-06-21''" for i
    by (simp_all add: sample_cycle_def day_of_def sample_lib_def)
  show ?thesis
    using warehouse_inserts_once [OF empty_warehouse_good fits] sample_ids(5) by (auto simp: key insort_key.simps)
qed

lemma sample_line_accepted:
  assumes "i \<in> {id0, id1}"
  shows "parse_cycle_v1_line (wl_from_str sample_lib) (sample_line i) = Ok (sample_cycle i)"
proof -
  have ex: "extract_cycle_id_from_jsonl (sample_line i) = Some i"
    using extract_line [of i "''}''"] assms sample_ids by (auto simp: sample_line_def dq_def)
  have clean: "\<not> line_contains_signing_material (sample_line i)"
  proof -
    have "\<not> list_ex (\<lambda>w. is_infix w (sample_line id0)) secret_words" "\<not> list_ex (\<lambda>w. is_infix w (sample_line id1)) secret_words"
      by code_simp+
    then show ?thesis using assms by (auto simp: line_contains_signing_material_def)
  qed
  have decoded: "cycle_from_value (sample_json i) = Some (sample_cycle i)"
    by (simp add: cycle_from_value_def sample_json_def sample_cycle_def get_as_def json_get_def as_str_def as_i64_def as_u64_def
        as_u32_def as_array_def leg_from_value_def sample_leg_def in_range_def smin_def smax_def)
  have "validate_cycle_v1 (sample_json id0) = Ok ()" "validate_cycle_v1 (sample_json id1) = Ok ()" by code_simp+
  then have "validate_cycle_v1 (sample_json i) = Ok ()" using assms by auto
  then show ?thesis
    by (simp add: parse_cycle_v1_line_def parse_line_def clean sample_lib_def sample_parse_def ex decoded need_def ok_or_def)
qed

lemma sample_key: "cv_cycle_id (sample_cycle i) = i" "cv_detected_at_unix_ms (sample_cycle i) = 0"
    "day_of sample_lib (sample_cycle i) = ''2026-06-21''"
  by (simp_all add: sample_cycle_def day_of_def sample_lib_def)

lemma sample_rows: "rows_of_lines sample_lib [sample_line id0, [], sample_line id0, ''x'', sample_line id1]
    = [sample_cycle id0, sample_cycle id0, sample_cycle id1]"
  and sample_refused: "refused_lines sample_lib [sample_line id0, [], sample_line id0, ''x'', sample_line id1] = [''x'']"
proof -
  have b: "\<not> blank (sample_line id0)" "\<not> blank (sample_line id1)" "blank []" "\<not> blank ''x''" by code_simp+
  have x: "parse_cycle_v1_line (wl_from_str sample_lib) ''x'' = Err NotJson" by code_simp
  show "rows_of_lines sample_lib [sample_line id0, [], sample_line id0, ''x'', sample_line id1]
      = [sample_cycle id0, sample_cycle id0, sample_cycle id1]"
    by (simp add: rows_of_lines_def b x sample_line_accepted List.map_filter_def)
  show "refused_lines sample_lib [sample_line id0, [], sample_line id0, ''x'', sample_line id1] = [''x'']"
    by (simp add: refused_lines_def b x sample_line_accepted)
qed

definition quiet_env :: "nat \<Rightarrow> line_env" where
  "quiet_env n = \<lparr>le_insert = no_fault, le_reject = no_fault, le_clock = 1\<rparr>"

lemma ingest_file_exact_witness:
  "\<exists>w'. ingest_cycle_v1_file sample_lib quiet_env ''r'' ''f'' (Some (map Some [sample_line id0, [], sample_line id0, ''x'', sample_line id1])) empty_warehouse
      = (Ok \<lparr>ig_files_processed = 1, ig_lines_read = 4, ig_lines_parsed = 3, ig_lines_written = 2, ig_lines_ignored_dup = 1, ig_rejects = 1\<rparr>, w')
    \<and> read_cycle_partition sample_lib True ''2026-06-21'' w' = Ok [sample_cycle id0, sample_cycle id1]"
proof -
  have b: "\<not> blank (sample_line id0)" "\<not> blank (sample_line id1)" "blank []" "\<not> blank ''x''" by code_simp+
  have quiet: "\<forall>n. quiet_line (quiet_env n)" by (simp add: quiet_line_def quiet_env_def no_fault_def)
  have rej: "\<forall>r. wl_reject_json sample_lib r \<noteq> None" by (simp add: sample_lib_def)
  have fits: "\<forall>row\<in>set (rows_of_lines sample_lib [sample_line id0, [], sample_line id0, ''x'', sample_line id1]). row_fits sample_lib row"
    unfolding sample_rows using sample_fits sample_ids by simp
  show ?thesis
    using ingest_file_exact [OF empty_warehouse_good quiet rej fits, of "''r''" "''f''"] sample_ids(5)
    by (auto simp: sample_rows sample_refused sample_key tally_def b ingest_start_def)
qed

lemma ingest_accounts_witness:
  "\<exists>s ss. [Some ''x''] = map Some ss \<and> length (filter (\<lambda>l. str_trim l \<noteq> []) ss) = ig_lines_written s + ig_lines_ignored_dup s + ig_rejects s
    \<and> fst (ingest_cycle_v1_file sample_lib quiet_env ''r'' ''f'' (Some [Some ''x'']) empty_warehouse) = Ok s"
proof -
  have x: "parse_cycle_v1_line (wl_from_str sample_lib) ''x'' = Err NotJson" "str_trim ''x'' \<noteq> []" by code_simp+
  have env: "le_reject (quiet_env n) = no_fault" for n by (simp add: quiet_env_def)
  have rej: "wl_reject_json sample_lib r = Some (rj_raw_line r)" for r by (simp add: sample_lib_def)
  have "\<exists>s w'. ingest_cycle_v1_file sample_lib quiet_env ''r'' ''f'' (Some [Some ''x'']) empty_warehouse = (Ok s, w')"
    by (simp add: ingest_cycle_v1_file_def ingest_line_def x reject_line_def append_reject_def append_line_def env rej Let_def)
      (simp add: no_fault_def)
  then obtain s w' where run: "ingest_cycle_v1_file sample_lib quiet_env ''r'' ''f'' (Some [Some ''x'']) empty_warehouse = (Ok s, w')"
    by blast
  show ?thesis using ingest_accounts [OF run] by (auto simp: run)
qed

lemma torn_row_lost_witness:
  "\<exists>w1. insert_cycle sample_lib (no_fault\<lparr>an_stops := Some 78\<rparr>) (sample_cycle id0) empty_warehouse = (Err PipeIo, w1)
    \<and> (\<exists>v'. insert_cycle sample_lib no_fault (sample_cycle id0) (reopen w1) = (Ok False, v') \<and> read_cycle_partition sample_lib True ''2026-06-21'' v' = Ok [])
    \<and> (\<exists>v'. insert_cycle sample_lib no_fault (sample_cycle id1) (reopen w1) = (Ok True, v') \<and> read_cycle_partition sample_lib True ''2026-06-21'' v' = Ok [])"
proof -
  have date: "wl_date_of sample_lib (cv_detected_at_unix_ms (sample_cycle id0)) = Ok ''2026-06-21''"
    and enc: "wl_cycle_json sample_lib (sample_cycle i) = Some (sample_line i)" for i
    by (simp_all add: sample_lib_def sample_cycle_def)
  have k: "78 \<le> length (sample_line id0)" "newline \<notin> set (sample_line id0)" by code_simp+
  have cut: "wl_parse_cycle sample_lib (take 78 (sample_line id0)) = None"
    "extract_cycle_id_from_jsonl (take 78 (sample_line id0)) = Some (cv_cycle_id (sample_cycle id0))"
    "wl_parse_cycle sample_lib (take 78 (sample_line id0) @ sample_line id1) = None" by code_simp+
  have fits: "row_fits sample_lib (sample_cycle id1)" using sample_fits sample_ids by simp
  show ?thesis
    using torn_row_lost [OF empty_warehouse_good date enc k(1) _ k(2) cut(1,2) fits] sample_ids(5)
    by (simp add: sample_key enc cut(3) read_partition_rows, blast)
qed

lemma archived_rows_come_back_witness:
  "\<exists>w w1 w2. compact sample_lib (\<lambda>_. True) (\<lambda>_. True) 30 [''2026-06-21''] w = (Ok [''2026-06-21''], w1)
    \<and> insert_cycle sample_lib no_fault (sample_cycle id0) (reopen w1) = (Ok True, w2)
    \<and> partition_rows sample_lib w ''2026-06-21'' = [sample_cycle id0]"
proof -
  have fits: "row_fits sample_lib (sample_cycle id0)" using sample_fits sample_ids by simp
  obtain w where w: "store_good sample_lib w" "partition_rows sample_lib w = (\<lambda>_. [])(''2026-06-21'' := [sample_cycle id0])"
    "insert_cycle sample_lib no_fault (sample_cycle id0) empty_warehouse = (Ok True, w)"
    using jsonl.ins_new [OF empty_warehouse_good fits] by (auto simp: sample_key)
  have arch: "wh_archive w ''2026-06-21'' = None"
    using w(3) by (auto simp: insert_cycle_def rehydrate_def append_cycle_def empty_warehouse_def split: res.splits option.splits if_splits prod.splits)
  have age: "wl_age_days sample_lib ''2026-06-21'' = Some 90" "sint (30 :: u64) \<le> 90" by (simp_all add: sample_lib_def)
  have held: "sample_cycle id0 \<in> set (partition_rows sample_lib w ''2026-06-21'')" "partition_rows sample_lib w ''2026-06-21'' = [sample_cycle id0]"
    using w(2) by simp_all
  show ?thesis
    using archived_rows_come_back [OF w(1) age arch held(1) fits sample_key(3), of "\<lambda>_. True"] held(2) by blast
qed

end
