(* ===== verification/PaperReconcile.thy ===== *)
theory PaperReconcile
  imports Onchain
begin

text \<open>
  The command \<^verbatim>\<open>dl-app reconcile\<close> (\<^verbatim>\<open>crates/dl-app/src/reconcile.rs\<close>): the rows of the paper ledger joined with the
  re-derived report by the hash of their cycle, the comparison of both sides, the report as it is read back from
  disk, and the command with its exit codes. The JSON and binary codecs and the files are arguments.
\<close>

section \<open>Rows, joins, divergences\<close>

record paper_cycle_row =
  pc_cycle_hash_hex :: string
  pc_gross_bps :: i64
  pc_decision :: "string option"
  pc_input_lamports :: u64
  pc_output_lamports :: u64
  pc_tip_lamports :: u64
  pc_schema :: string

record cycle_join =
  cj_seq :: u64
  cj_cycle_hash_hex :: string
  cj_paper_decision :: "string option"
  cj_paper_input_lamports :: u64
  cj_paper_output_lamports :: u64
  cj_paper_tip_lamports :: u64
  cj_paper_gross_bps :: "i64 option"
  cj_re_e_pnl :: i128
  cj_re_optimistic_e_pnl :: i128
  cj_re_decision :: string
  cj_re_tip_lamports :: u64

record paper_divergence =
  pd_seq :: u64
  pd_kind :: string
  pd_gross_bps_diff :: "i64 option"
  pd_paper_decision :: "string option"
  pd_re_decision :: "string option"

datatype reconcile_error =
    RecIo
  | RecJson nat
  | RecJsonSer
  | RecOnchain onchain_error
  | RecSummary string

definition decision_to_string :: "decision \<Rightarrow> string" where
  "decision_to_string d = (case d of WouldTrade \<Rightarrow> ''WouldTrade'' | WouldNotTrade \<Rightarrow> ''WouldNotTrade'')"

definition cycle_hash_to_hex :: "cycle \<Rightarrow> string" where
  "cycle_hash_to_hex c = hex16 (ledger_hash c)"

text \<open>The index of the paper rows keeps the first row of every key.\<close>

fun first_rows :: "paper_cycle_row list \<Rightarrow> (string \<rightharpoonup> paper_cycle_row) \<Rightarrow> (string \<rightharpoonup> paper_cycle_row)" where
  "first_rows [] m = m"
| "first_rows (r # rs) m =
    first_rows rs (case m (pc_cycle_hash_hex r) of None \<Rightarrow> m(pc_cycle_hash_hex r \<mapsto> r) | Some _ \<Rightarrow> m)"

definition join_record :: "(string \<rightharpoonup> paper_cycle_row) \<Rightarrow> cycle_record \<Rightarrow> cycle_join" where
  "join_record by_hash rec =
    (let hex = cycle_hash_to_hex (cr_cycle rec); paper = by_hash hex in
     \<lparr>cj_seq = cr_seq rec, cj_cycle_hash_hex = hex,
      cj_paper_decision = Option.bind paper pc_decision,
      cj_paper_input_lamports = (case paper of None \<Rightarrow> 0 | Some p \<Rightarrow> pc_input_lamports p),
      cj_paper_output_lamports = (case paper of None \<Rightarrow> 0 | Some p \<Rightarrow> pc_output_lamports p),
      cj_paper_tip_lamports = (case paper of None \<Rightarrow> 0 | Some p \<Rightarrow> pc_tip_lamports p),
      cj_paper_gross_bps = map_option pc_gross_bps paper,
      cj_re_e_pnl = e_pnl (eo_conservative (cr_outcome rec)),
      cj_re_optimistic_e_pnl = e_pnl (eo_optimistic (cr_outcome rec)),
      cj_re_decision = decision_to_string (cr_decision rec),
      cj_re_tip_lamports = le_tip_lamports (cr_entry rec)\<rparr>)"

definition join_by_cycle_hash :: "replay_report \<Rightarrow> paper_cycle_row list \<Rightarrow> cycle_join list" where
  "join_by_cycle_hash report rows = map (join_record (first_rows rows Map.empty)) (rr_cycle_records report)"

definition GROSS_BPS_TOLERANCE :: i64 where
  "GROSS_BPS_TOLERANCE = 5"

text \<open>The basis points of the re-derived side; the two guards make its arithmetic total.\<close>

definition re_gross_bps :: "cycle_join \<Rightarrow> i64" where
  "re_gross_bps j =
    (if cj_paper_input_lamports j = 0 then 0
     else
       let input = int (unat (cj_paper_input_lamports j)); gross = clamp_i 128 (cj_re_optimistic_e_pnl j + input) in
       if gross \<le> 0 \<or> input \<le> 0 then 0
       else if gross - input \<le> 0 then 0
       else clamp_i 64 (clamp_i 128 ((gross - input) * 10000) sdiv input))"

definition missing_row :: "cycle_join \<Rightarrow> paper_divergence" where
  "missing_row j = \<lparr>pd_seq = cj_seq j, pd_kind = ''cycle_hash_missing'', pd_gross_bps_diff = None, pd_paper_decision = None,
    pd_re_decision = Some (cj_re_decision j)\<rparr>"

definition decision_differs :: "cycle_join \<Rightarrow> paper_divergence list" where
  "decision_differs j =
    (case cj_paper_decision j of
       None \<Rightarrow> []
     | Some d \<Rightarrow>
         if d = cj_re_decision j then []
         else [\<lparr>pd_seq = cj_seq j, pd_kind = ''decision'', pd_gross_bps_diff = None, pd_paper_decision = Some d,
           pd_re_decision = Some (cj_re_decision j)\<rparr>])"

definition divergences_of_join :: "cycle_join \<Rightarrow> (paper_divergence list, reconcile_error) res" where
  "divergences_of_join j =
    (case cj_paper_gross_bps j of
       None \<Rightarrow> Ok [missing_row j]
     | Some paper_bps \<Rightarrow>
         bind_res (range_p 64 (paper_bps - re_gross_bps j)) (\<lambda>d.
         bind_res (range_p 64 \<bar>d\<bar>) (\<lambda>diff.
         Ok (decision_differs j @
           (if GROSS_BPS_TOLERANCE < diff
            then [\<lparr>pd_seq = cj_seq j, pd_kind = ''e_pnl'', pd_gross_bps_diff = Some diff, pd_paper_decision = None,
              pd_re_decision = None\<rparr>]
            else [])))))"

fun paper_vs_paper :: "cycle_join list \<Rightarrow> (paper_divergence list, reconcile_error) res" where
  "paper_vs_paper [] = Ok []"
| "paper_vs_paper (j # js) =
    bind_res (divergences_of_join j) (\<lambda>ds. bind_res (paper_vs_paper js) (\<lambda>rest. Ok (ds @ rest)))"

fun count_decision_lies :: "paper_divergence list \<Rightarrow> u64 \<times> u64 \<Rightarrow> (u64 \<times> u64, reconcile_error) res" where
  "count_decision_lies [] (yes, no) = Ok (yes, no)"
| "count_decision_lies (d # ds) (yes, no) =
    (if pd_kind d \<noteq> ''decision'' then count_decision_lies ds (yes, no)
     else if pd_paper_decision d = Some ''WouldTrade'' \<and> pd_re_decision d = Some ''WouldNotTrade''
     then bind_res (add_p yes 1) (\<lambda>y. count_decision_lies ds (y, no))
     else if pd_paper_decision d = Some ''WouldNotTrade'' \<and> pd_re_decision d = Some ''WouldTrade''
     then bind_res (add_p no 1) (\<lambda>n. count_decision_lies ds (yes, n))
     else count_decision_lies ds (yes, no))"

section \<open>The report\<close>

record onchain_placeholder =
  ph_bundles_submitted :: u64
  ph_bundles_landed :: u64
  ph_gross_pnl_lamports :: i128
  ph_tip_paid_lamports :: u128
  ph_rpc_cost_lamports :: u128
  ph_revert_cost_lamports :: u128
  ph_net_pnl_lamports :: i128
  ph_rolling_baseline_net_lamports :: i128
  ph_deviation_from_baseline_bps :: i32
  ph_per_cycle :: "json list"

definition onchain_placeholder_default :: onchain_placeholder where
  "onchain_placeholder_default = \<lparr>ph_bundles_submitted = 0, ph_bundles_landed = 0, ph_gross_pnl_lamports = 0,
    ph_tip_paid_lamports = 0, ph_rpc_cost_lamports = 0, ph_revert_cost_lamports = 0, ph_net_pnl_lamports = 0,
    ph_rolling_baseline_net_lamports = 0, ph_deviation_from_baseline_bps = 0, ph_per_cycle = []\<rparr>"

record divergence_counters =
  dv_tip_drift :: u64
  dv_simulation_lied_yes :: u64
  dv_simulation_lied_no :: u64
  dv_reverted_after_ok :: u64
  dv_missing_signature :: u64

record reconcile_output =
  ro_window_start_slot :: u64
  ro_window_end_slot :: u64
  ro_cycles_seen :: u64
  ro_would_trade_paper :: u64
  ro_would_trade_re :: u64
  ro_paper_divergences :: "paper_divergence list"
  ro_anchor_divergences :: "anchor_divergence list"
  ro_onchain :: onchain_placeholder
  ro_divergences :: divergence_counters
  ro_report_hash :: u64

fun hash_each :: "('a \<Rightarrow> u8 list option) \<Rightarrow> 'a list \<Rightarrow> u64 \<Rightarrow> (u64, reconcile_error) res" where
  "hash_each ser [] h = Ok h"
| "hash_each ser (x # xs) h = (case ser x of None \<Rightarrow> Panic | Some bytes \<Rightarrow> hash_each ser xs (fnv bytes h))"

definition hash_divergences ::
    "(paper_divergence \<Rightarrow> u8 list option) \<Rightarrow> (anchor_divergence \<Rightarrow> u8 list option) \<Rightarrow> paper_divergence list \<Rightarrow>
      anchor_divergence list \<Rightarrow> (u64, reconcile_error) res" where
  "hash_divergences ser_p ser_a paper anchors = bind_res (hash_each ser_p paper FNV_OFFSET) (hash_each ser_a anchors)"

definition paper_reconcile ::
    "(paper_divergence \<Rightarrow> u8 list option) \<Rightarrow> (anchor_divergence \<Rightarrow> u8 list option) \<Rightarrow> replay_report \<Rightarrow>
      paper_cycle_row list \<Rightarrow> anchor_dataset option \<Rightarrow> (reconcile_output, reconcile_error) res" where
  "paper_reconcile ser_p ser_a report rows anchors =
    (let joins = join_by_cycle_hash report rows in
     bind_res (paper_vs_paper joins) (\<lambda>paper_divs.
     bind_res (count_decision_lies paper_divs (0, 0)) (\<lambda>(yes, no).
     bind_res (case anchors of None \<Rightarrow> Ok [] | Some ds \<Rightarrow> map_err RecOnchain (anchor_compare ds report)) (\<lambda>anchor_divs.
     bind_res (hash_divergences ser_p ser_a paper_divs anchor_divs) (\<lambda>h.
     Ok \<lparr>ro_window_start_slot = (case anchors of None \<Rightarrow> 0 | Some d \<Rightarrow> ad_window_start_slot d),
         ro_window_end_slot = (case anchors of None \<Rightarrow> 0 | Some d \<Rightarrow> ad_window_end_slot d),
         ro_cycles_seen = of_nat (length joins),
         ro_would_trade_paper = of_nat (length (filter (\<lambda>r. pc_decision r = Some ''WouldTrade'') rows)),
         ro_would_trade_re = report_would_trade report,
         ro_paper_divergences = paper_divs, ro_anchor_divergences = anchor_divs,
         ro_onchain = onchain_placeholder_default,
         ro_divergences = \<lparr>dv_tip_drift = 0, dv_simulation_lied_yes = yes, dv_simulation_lied_no = no,
           dv_reverted_after_ok = 0, dv_missing_signature = 0\<rparr>,
         ro_report_hash = h\<rparr>)))))"

section \<open>Loading both sides\<close>

definition or_default :: "'a option \<Rightarrow> 'a \<Rightarrow> 'a" where
  "or_default m d = (case m of None \<Rightarrow> d | Some v \<Rightarrow> v)"

definition project_paper_row :: "json \<Rightarrow> paper_cycle_row" where
  "project_paper_row v =
    \<lparr>pc_cycle_hash_hex =
       or_default (Option.bind (case json_get ''cycle_id'' v of Some x \<Rightarrow> Some x | None \<Rightarrow> json_get ''pool_address'' v) as_str) [],
     pc_gross_bps = or_default (get_as as_i64 ''gross_bps'' v) 0,
     pc_decision = get_as as_str ''decision'' v,
     pc_input_lamports = or_default (get_as as_u64 ''input_lamports'' v) 0,
     pc_output_lamports = or_default (get_as as_u64 ''output_lamports'' v) 0,
     pc_tip_lamports = or_default (get_as as_u64 ''tip_lamports'' v) 0,
     pc_schema = or_default (get_as as_str ''schema'' v) ''v0''\<rparr>"

fun cycle_rows :: "(string \<Rightarrow> json option) \<Rightarrow> nat \<Rightarrow> string option list \<Rightarrow> (paper_cycle_row list, reconcile_error) res" where
  "cycle_rows from_str n [] = Ok []"
| "cycle_rows from_str n (None # ls) = Err RecIo"
| "cycle_rows from_str n (Some l # ls) =
    (let trimmed = str_trim l in
     if skipped_line trimmed then cycle_rows from_str (n + 1) ls
     else (case from_str trimmed of
         None \<Rightarrow> Err (RecJson (n + 1))
       | Some v \<Rightarrow> bind_res (cycle_rows from_str (n + 1) ls) (\<lambda>rows. Ok (project_paper_row v # rows))))"

definition load_cycles_jsonl :: "(string \<Rightarrow> json option) \<Rightarrow> string option list option \<Rightarrow> (paper_cycle_row list, reconcile_error) res" where
  "load_cycles_jsonl from_str lines = (case lines of None \<Rightarrow> Err RecIo | Some ls \<Rightarrow> cycle_rows from_str 0 ls)"

text \<open>The report on disk: what the derived serializer wrote of a report, as the mirror types read it. The summary and
  the divergences are read as values and dropped.\<close>

record cycle_record_on_disk =
  cd_seq :: u64
  cd_cycle :: "leg list"
  cd_net :: net_profit_record
  cd_outcome :: eval_outcome
  cd_decision :: decision
  cd_entry :: ledger_entry

record report_on_disk =
  rd_params :: replay_params
  rd_cycle_records :: "cycle_record_on_disk list"
  rd_report_hash :: u64
  rd_feed_events_consumed :: u64
  rd_total_tip_lamports :: u64

definition report_to_disk :: "replay_report \<Rightarrow> report_on_disk" where
  "report_to_disk r =
    \<lparr>rd_params = rr_params r,
     rd_cycle_records = map (\<lambda>c. \<lparr>cd_seq = cr_seq c, cd_cycle = legs (cr_cycle c), cd_net = cr_net c,
       cd_outcome = cr_outcome c, cd_decision = cr_decision c, cd_entry = cr_entry c\<rparr>) (rr_cycle_records r),
     rd_report_hash = rr_report_hash r, rd_feed_events_consumed = rr_feed_events_consumed r,
     rd_total_tip_lamports = rr_total_tip_lamports r\<rparr>"

fun records_from_disk :: "cycle_record_on_disk list \<Rightarrow> (cycle_record list, reconcile_error) res" where
  "records_from_disk [] = Ok []"
| "records_from_disk (c # cs) =
    bind_res (cycle_new (cd_cycle c)) (\<lambda>cyc.
    bind_res (records_from_disk cs) (\<lambda>rest.
    Ok (\<lparr>cr_seq = cd_seq c, cr_cycle = cyc, cr_net = cd_net c, cr_outcome = cd_outcome c, cr_decision = cd_decision c,
      cr_entry = cd_entry c\<rparr> # rest)))"

definition report_from_disk :: "report_on_disk \<Rightarrow> (replay_report, reconcile_error) res" where
  "report_from_disk o' =
    bind_res (records_from_disk (rd_cycle_records o')) (\<lambda>records.
    bind_res
      (case summary_from_entries (map cr_entry records) of
         Ok s \<Rightarrow> Ok s
       | Err _ \<Rightarrow> (case summary_from_entries [] of Ok s \<Rightarrow> Ok s | _ \<Rightarrow> Panic)
       | Panic \<Rightarrow> Panic)
      (\<lambda>summary.
    Ok \<lparr>rr_params = rd_params o', rr_cycle_records = records, rr_summary = summary, rr_divergences = [],
      rr_report_hash = rd_report_hash o', rr_feed_events_consumed = rd_feed_events_consumed o',
      rr_total_tip_lamports = rd_total_tip_lamports o'\<rparr>))"

text \<open>The file, read and parsed: \<open>None\<close> where the read fails, \<open>Some None\<close> where the parse does.\<close>

definition load_recon_report :: "report_on_disk option option \<Rightarrow> (replay_report, reconcile_error) res" where
  "load_recon_report content =
    (case content of None \<Rightarrow> Err RecIo | Some None \<Rightarrow> Err RecJsonSer | Some (Some o') \<Rightarrow> report_from_disk o')"

section \<open>The command\<close>

record reconcile_opts =
  op_cycles_jsonl :: "string option"
  op_recon_report :: "string option"
  op_anchors :: "string option"
  op_out :: "string option"

definition no_opts :: reconcile_opts where
  "no_opts = \<lparr>op_cycles_jsonl = None, op_recon_report = None, op_anchors = None, op_out = None\<rparr>"

text \<open>Help exits the process with 0.\<close>

datatype 'o cli_args = CliOpts 'o | CliHelp | CliUsage string

fun reconcile_flags :: "string list \<Rightarrow> reconcile_opts \<Rightarrow> reconcile_opts cli_args" where
  "reconcile_flags [] o' = CliOpts o'"
| "reconcile_flags (a # rest) o' =
    (if a = ''--cycles-jsonl'' then
       (case rest of [] \<Rightarrow> CliUsage ''--cycles-jsonl: missing value'' | v # rest' \<Rightarrow> reconcile_flags rest' (o'\<lparr>op_cycles_jsonl := Some v\<rparr>))
     else if a = ''--recon-report'' then
       (case rest of [] \<Rightarrow> CliUsage ''--recon-report: missing value'' | v # rest' \<Rightarrow> reconcile_flags rest' (o'\<lparr>op_recon_report := Some v\<rparr>))
     else if a = ''--anchors'' \<or> a = ''-a'' then
       (case rest of [] \<Rightarrow> CliUsage ''--anchors: missing value'' | v # rest' \<Rightarrow> reconcile_flags rest' (o'\<lparr>op_anchors := Some v\<rparr>))
     else if a = ''--out'' \<or> a = ''-o'' then
       (case rest of [] \<Rightarrow> CliUsage ''--out: missing value'' | v # rest' \<Rightarrow> reconcile_flags rest' (o'\<lparr>op_out := Some v\<rparr>))
     else if a = ''--help'' \<or> a = ''-h'' then CliHelp
     else CliUsage (''unknown arg: '' @ a))"

definition reconcile_parse_args :: "string list \<Rightarrow> reconcile_opts cli_args" where
  "reconcile_parse_args args =
    (case reconcile_flags args no_opts of
       CliOpts o' \<Rightarrow>
         if op_cycles_jsonl o' = None then CliUsage ''--cycles-jsonl <path> is required''
         else if op_recon_report o' = None then CliUsage ''--recon-report <path> is required''
         else if op_out o' = None then CliUsage ''--out <path> is required''
         else CliOpts o'
     | r \<Rightarrow> r)"

datatype cli_failure =
    BadArgs string
  | ReportFailed reconcile_error
  | CyclesFailed reconcile_error
  | AnchorsFailed onchain_error
  | ReconcileFailed reconcile_error
  | WriteFailed reconcile_error

datatype reconcile_cli_result =
    CliOk
  | CliPaperDivergences "paper_divergence list"
  | CliAnchorOverTolerance "anchor_divergence list"
  | CliError cli_failure

primrec exit_code :: "reconcile_cli_result \<Rightarrow> nat" where
  "exit_code CliOk = 0"
| "exit_code (CliPaperDivergences ds) = 1"
| "exit_code (CliAnchorOverTolerance ds) = 2"
| "exit_code (CliError e) = 3"

text \<open>The files and codecs the command meets.\<close>

record reconcile_env =
  rv_report :: "string \<Rightarrow> report_on_disk option option"
  rv_lines :: "string \<Rightarrow> string option list option"
  rv_from_str :: "string \<Rightarrow> json option"
  rv_parse_anchor :: "string \<Rightarrow> anchor_entry option"
  rv_ser_paper :: "paper_divergence \<Rightarrow> u8 list option"
  rv_ser_anchor :: "anchor_divergence \<Rightarrow> u8 list option"
  rv_json_ok :: "reconcile_output \<Rightarrow> bool"
  rv_write_ok :: "string \<Rightarrow> bool"

definition write_output :: "reconcile_env \<Rightarrow> string \<Rightarrow> reconcile_output \<Rightarrow> (unit, reconcile_error) res" where
  "write_output env path out =
    (if \<not> rv_json_ok env out then Err RecJsonSer else if \<not> rv_write_ok env path then Err RecIo else Ok ())"

definition classify_output :: "reconcile_output \<Rightarrow> reconcile_cli_result" where
  "classify_output out =
    (let bad = filter av_exceeds_tolerance (ro_anchor_divergences out) in
     if bad \<noteq> [] then CliAnchorOverTolerance bad
     else if ro_paper_divergences out \<noteq> [] then CliPaperDivergences (ro_paper_divergences out)
     else CliOk)"

text \<open>An error of a stage ends the command with that stage's failure.\<close>

definition stage :: "('e \<Rightarrow> cli_failure) \<Rightarrow> ('a, 'e) res \<Rightarrow> ('a \<Rightarrow> (reconcile_cli_result, unit) res) \<Rightarrow> (reconcile_cli_result, unit) res" where
  "stage failed m f = (case m of Ok v \<Rightarrow> f v | Err e \<Rightarrow> Ok (CliError (failed e)) | Panic \<Rightarrow> Panic)"

definition reconcile_with_opts :: "reconcile_env \<Rightarrow> reconcile_opts \<Rightarrow> (reconcile_cli_result, unit) res" where
  "reconcile_with_opts env o' =
    stage ReportFailed (load_recon_report (rv_report env (the (op_recon_report o')))) (\<lambda>report.
    stage CyclesFailed (load_cycles_jsonl (rv_from_str env) (rv_lines env (the (op_cycles_jsonl o')))) (\<lambda>rows.
    stage AnchorsFailed
      (case op_anchors o' of
         None \<Rightarrow> Ok None
       | Some p \<Rightarrow> bind_res (load_anchors (rv_parse_anchor env) (rv_lines env p)) (\<lambda>d. Ok (Some d))) (\<lambda>anchors.
    stage ReconcileFailed (paper_reconcile (rv_ser_paper env) (rv_ser_anchor env) report rows anchors) (\<lambda>out.
    stage WriteFailed (write_output env (the (op_out o')) out) (\<lambda>_.
    Ok (classify_output out))))))"

text \<open>The exit status of the process.\<close>

definition reconcile_main :: "reconcile_env \<Rightarrow> string list \<Rightarrow> (nat, unit) res" where
  "reconcile_main env args =
    (case reconcile_parse_args args of
       CliHelp \<Rightarrow> Ok 0
     | CliUsage msg \<Rightarrow> Ok (exit_code (CliError (BadArgs msg)))
     | CliOpts o' \<Rightarrow> bind_res (reconcile_with_opts env o') (\<lambda>r. Ok (exit_code r)))"

section \<open>Reading a replayed report back\<close>

text \<open>What \<^verbatim>\<open>Cycle::new\<close> establishes and the search keeps.\<close>

definition from_new :: "cycle \<Rightarrow> bool" where
  "from_new c \<longleftrightarrow> cycle_seq c = 0 \<and> (sum_p 64 0 (map leg_weight (legs c)) :: (i64, unit) res) = Ok (weight_sum c)"

lemma sum_p_poly: "(sum_p n a xs :: (int, 'e) res) = Ok v \<longleftrightarrow> (sum_p n a xs :: (int, 'f) res) = Ok v"
  by (induction xs arbitrary: a) (auto simp: bind_res_Ok_iff range_p_def)

lemma from_new_iff: "from_new c \<longleftrightarrow> (cycle_new (legs c) :: (cycle, 'e) res) = Ok (c\<lparr>expected_profit_bps := 0\<rparr>)"
proof
  assume f: "from_new c"
  have "(sum_p 64 0 (map leg_weight (legs c)) :: (i64, 'e) res) = Ok (weight_sum c)"
    using f unfolding from_new_def sum_p_poly [where 'e = 'e and 'f = unit] by simp
  then show "(cycle_new (legs c) :: (cycle, 'e) res) = Ok (c\<lparr>expected_profit_bps := 0\<rparr>)"
    using f by (cases c) (simp add: cycle_new_def from_new_def)
next
  assume n: "(cycle_new (legs c) :: (cycle, 'e) res) = Ok (c\<lparr>expected_profit_bps := 0\<rparr>)"
  then have "(sum_p 64 0 (map leg_weight (legs c)) :: (i64, 'e) res) = Ok (weight_sum c)" "cycle_seq c = 0"
    by (cases c, auto simp: cycle_new_def bind_res_Ok_iff)+
  then show "from_new c" unfolding from_new_def sum_p_poly [where 'e = unit and 'f = 'e] by simp
qed

lemma close_cycle_new:
  assumes "close_cycle es path e st = Ok st'" and "\<forall>c\<in>set (dfs_out st). from_new c"
  shows "\<forall>c\<in>set (dfs_out st'). from_new c"
proof -
  have "from_new (compute_expected_profit_bps c)" if "(cycle_new ls :: (cycle, detect_error) res) = Ok c" for ls c
  proof -
    have "legs c = ls" "expected_profit_bps c = 0" using that by (auto simp: cycle_new_def bind_res_Ok_iff)
    then have "from_new c" using that by (simp add: from_new_iff [where 'e = detect_error])
    then show ?thesis by (simp add: from_new_def compute_expected_profit_bps_def)
  qed
  note fresh = this
  obtain ws0 ls where legs: "collect_legs es path 0 [] = Ok (ws0, ls)" using assms(1) by (auto simp: close_cycle_def bind_res_Ok_iff)
  show ?thesis
  proof (cases "checked_i 64 (ws0 + edge_weight e)")
    case None
    then show ?thesis using assms by (simp add: close_cycle_def legs)
  next
    case (Some ws)
    show ?thesis
    proof (cases "ws < 0")
      case True
      obtain c where c: "(cycle_new (ls @ [leg_of e]) :: (cycle, detect_error) res) = Ok c"
        using assms(1) True by (auto simp: close_cycle_def legs Some bind_res_Ok_iff)
      show ?thesis using assms fresh [OF c] by (auto simp: close_cycle_def legs Some True c Let_def split: if_splits)
    next
      case False
      then show ?thesis using assms by (simp add: close_cycle_def legs Some)
    qed
  qed
qed

lemma dfs_new:
  "dfs es adj max_legs start is w path nodes st = Ok st' \<Longrightarrow> \<forall>c\<in>set (dfs_out st). from_new c \<Longrightarrow>
    \<forall>c\<in>set (dfs_out st'). from_new c"
proof (induction es adj max_legs start "is" w path nodes st arbitrary: st' rule: dfs.induct)
  case (2 es adj max_legs start i "is" w path nodes st)
  obtain e where e: "index_p es i = (Ok e :: (edge, detect_error) res)" using "2.prems"(1) by (auto simp: bind_res_Ok_iff)
  note run = "2.prems"(1) [unfolded dfs.simps e bind_res.simps]
  note ok = "2.prems"(2)
  note IH = "2.IH"
  show ?case
    using run ok IH [OF e] close_cycle_new by (auto simp: bind_res_Ok_iff split: if_splits option.splits)
qed simp

lemma search_starts_new:
  "search_starts es adj max_legs ss st = Ok st' \<Longrightarrow> \<forall>c\<in>set (dfs_out st). from_new c \<Longrightarrow> \<forall>c\<in>set (dfs_out st'). from_new c"
proof (induction ss arbitrary: st)
  case (Cons s ss)
  obtain out st1 where "dfs es adj max_legs (of_nat s) out 0 [] [TokenId (of_nat s)] st = Ok st1"
    "search_starts es adj max_legs ss st1 = Ok st'"
    using Cons.prems(1) by (auto simp: Let_def bind_res_Ok_iff)
  then show ?case using Cons.IH dfs_new Cons.prems(2) by blast
qed simp

lemma find_negative_cycles_new:
  assumes "find_negative_cycles g max_legs = Ok cs"
  shows "\<forall>c\<in>set cs. from_new c"
proof (cases "n_tokens g = 0 \<or> max_legs < 2")
  case True
  then show ?thesis using assms by (simp add: find_negative_cycles_def)
next
  case False
  then obtain adj st where "search_starts (edges g) adj max_legs [0..<n_tokens g] \<lparr>seen_signatures = {}, dfs_out = []\<rparr> = Ok st"
    "cs = dfs_out st" using assms by (auto simp: find_negative_cycles_def bind_res_Ok_iff)
  then show ?thesis using search_starts_new by fastforce
qed

definition forget_profit :: "cycle_record \<Rightarrow> cycle_record" where
  "forget_profit rec = rec\<lparr>cr_cycle := (cr_cycle rec)\<lparr>expected_profit_bps := 0\<rparr>\<rparr>"

lemma records_reload:
  "\<forall>rec\<in>set recs. from_new (cr_cycle rec) \<Longrightarrow>
    records_from_disk (map (\<lambda>c. \<lparr>cd_seq = cr_seq c, cd_cycle = legs (cr_cycle c), cd_net = cr_net c,
       cd_outcome = cr_outcome c, cd_decision = cr_decision c, cd_entry = cr_entry c\<rparr>) recs) = Ok (map forget_profit recs)"
  by (induction recs) (simp_all add: from_new_iff [where 'e = reconcile_error] forget_profit_def)

lemma join_forgets [simp]: "join_record m (forget_profit rec) = join_record m rec"
  by (simp add: join_record_def forget_profit_def cycle_hash_to_hex_def ledger_hash_def)

lemma entries_forget [simp]: "cr_entry (forget_profit rec) = cr_entry rec" "cr_outcome (forget_profit rec) = cr_outcome rec" "cr_decision (forget_profit rec) = cr_decision rec"
  by (simp_all add: forget_profit_def)

lemma reload_report:
  assumes "\<forall>rec\<in>set (rr_cycle_records r). from_new (cr_cycle rec)" and "rr_divergences r = []"
    and "summary_from_entries (map cr_entry (rr_cycle_records r)) = Ok (rr_summary r)"
  shows "report_from_disk (report_to_disk r) = Ok (r\<lparr>rr_cycle_records := map forget_profit (rr_cycle_records r)\<rparr>)"
  using assms(2,3) by (cases r) (simp add: report_from_disk_def report_to_disk_def records_reload assms(1) comp_def)

lemma replay_records_new:
  assumes "replay_pools_to_ledger ser iter pools params = Ok r"
  shows "\<forall>rec\<in>set (rr_cycle_records r). from_new (cr_cycle rec)" and "rr_divergences r = []"
    and "summary_from_entries (map cr_entry (rr_cycle_records r)) = Ok (rr_summary r)"
proof -
  have "(\<forall>rec\<in>set (rr_cycle_records r). from_new (cr_cycle rec)) \<and> rr_divergences r = []
      \<and> summary_from_entries (map cr_entry (rr_cycle_records r)) = Ok (rr_summary r)"
  proof (cases "build_from_pools (sort_key (\<lambda>p. key_bytes (address p)) (iter (registry_of pools)))")
    case (Ok g)
    then obtain cycles records summary where c: "find_negative_cycles g (rq_max_cycle_legs params) = Ok cycles"
      "evaluate_all (registry_of pools) params (enumerate 0 cycles) = Ok records"
      "summary_from_entries (map cr_entry records) = Ok summary"
      and r: "rr_cycle_records r = records" "rr_divergences r = []" "rr_summary r = summary"
      using assms by (auto simp: replay_pools_to_ledger_def Let_def bind_res_Ok_iff map_err_Ok_iff)
    have "cr_cycle ` set records = set cycles" using evaluate_all_records(1) [OF c(2)] by (metis set_map)
    then show ?thesis using find_negative_cycles_new [OF c(1)] c(3) r by auto
  next
    case (Err e)
    then show ?thesis using assms by (cases e) (auto simp: replay_pools_to_ledger_def Let_def bind_res_Ok_iff map_err_Ok_iff)
  next
    case Panic
    then show ?thesis using assms by (simp add: replay_pools_to_ledger_def Let_def)
  qed
  then show "\<forall>rec\<in>set (rr_cycle_records r). from_new (cr_cycle rec)" "rr_divergences r = []"
    "summary_from_entries (map cr_entry (rr_cycle_records r)) = Ok (rr_summary r)" by blast+
qed

text \<open>C28. A report that a replay wrote is read back with the profit estimate of every cycle reset to zero, and
  everything else as it was; the reconciliation with any paper rows and anchors is that of the report itself.\<close>

theorem report_reload_exact:
  assumes "replay_pools_to_ledger ser iter pools params = Ok r"
  shows "\<exists>r'. load_recon_report (Some (Some (report_to_disk r))) = Ok r'
    \<and> r' = r\<lparr>rr_cycle_records := map (\<lambda>rec. rec\<lparr>cr_cycle := (cr_cycle rec)\<lparr>expected_profit_bps := 0\<rparr>\<rparr>) (rr_cycle_records r)\<rparr>
    \<and> paper_reconcile ser_p ser_a r' rows anchors = paper_reconcile ser_p ser_a r rows anchors"
proof -
  let ?r' = "r\<lparr>rr_cycle_records := map forget_profit (rr_cycle_records r)\<rparr>"
  have load: "load_recon_report (Some (Some (report_to_disk r))) = Ok ?r'"
    using reload_report [OF replay_records_new [OF assms]] by (simp add: load_recon_report_def)
  have agg: "engine_aggregate ?r' n = engine_aggregate r n" for n
    by (cases n) (simp_all add: engine_aggregate_def comp_def Let_def)
  have cmp: "compare_entries ?r' es = compare_entries r es" for es
    by (induction es) (simp_all add: agg)
  have joins: "join_by_cycle_hash ?r' rows = join_by_cycle_hash r rows" by (simp add: join_by_cycle_hash_def)
  have trades: "report_would_trade ?r' = report_would_trade r" by (simp add: report_would_trade_def filter_map comp_def)
  have "paper_reconcile ser_p ser_a ?r' rows anchors = paper_reconcile ser_p ser_a r rows anchors"
    unfolding paper_reconcile_def joins trades anchor_compare_def cmp by simp
  then show ?thesis using load by (simp add: forget_profit_def [abs_def])
qed

section \<open>When both sides agree\<close>

lemma first_rows_lookup:
  "first_rows rows m k = (case m k of Some r \<Rightarrow> Some r | None \<Rightarrow> find (\<lambda>r. pc_cycle_hash_hex r = k) rows)"
  by (induction rows arbitrary: m) (auto split: option.splits)

lemma join_lookup: "first_rows rows Map.empty k = find (\<lambda>r. pc_cycle_hash_hex r = k) rows"
  by (simp add: first_rows_lookup)

text \<open>The basis points of a profit on an input, rounded down.\<close>

definition profit_bps :: "int \<Rightarrow> u64 \<Rightarrow> int" where
  "profit_bps pnl input = (if input = 0 \<or> pnl \<le> 0 then 0 else min (2 ^ 63 - 1) (pnl * 10000 div int (unat input)))"

text \<open>A paper row agrees with a re-derived record: the same decision, where it has one, and at most five basis points apart.\<close>

definition agrees :: "cycle_record \<Rightarrow> paper_cycle_row \<Rightarrow> bool" where
  "agrees rec row \<longleftrightarrow> pc_decision row \<in> {None, Some (decision_to_string (cr_decision rec))}
    \<and> \<bar>pc_gross_bps row - profit_bps (e_pnl (eo_optimistic (cr_outcome rec))) (pc_input_lamports row)\<bar> \<le> 5"

definition all_agree :: "replay_report \<Rightarrow> paper_cycle_row list \<Rightarrow> bool" where
  "all_agree report rows \<longleftrightarrow> (\<forall>rec\<in>set (rr_cycle_records report).
    \<exists>row. find (\<lambda>r. pc_cycle_hash_hex r = cycle_hash_to_hex (cr_cycle rec)) rows = Some row \<and> agrees rec row)"

lemma clamp_up: "0 \<le> v \<Longrightarrow> clamp_i n v = min (2 ^ (n - 1) - 1) v"
proof -
  assume v: "0 \<le> v"
  have "(0 :: int) \<le> 2 ^ (n - 1)" by simp
  with v have "\<not> v < - (2 ^ (n - 1))" by linarith
  then show "clamp_i n v = min (2 ^ (n - 1) - 1) v" by (auto simp: clamp_i_def smax_def smin_def)
qed

lemma re_gross_bps_eq:
  assumes "cj_re_optimistic_e_pnl j < 2 ^ 100"
  shows "re_gross_bps j = profit_bps (cj_re_optimistic_e_pnl j) (cj_paper_input_lamports j)"
proof -
  let ?p = "cj_re_optimistic_e_pnl j" and ?i = "int (unat (cj_paper_input_lamports j))"
  have i: "0 \<le> ?i" "?i < 2 ^ 64" using unsigned_less [of "cj_paper_input_lamports j"] by simp_all
  show ?thesis
  proof (cases "cj_paper_input_lamports j = 0 \<or> ?p \<le> 0")
    case True
    moreover have "clamp_i 128 (?p + ?i) \<le> 0 \<or> clamp_i 128 (?p + ?i) - ?i \<le> 0" if "?p \<le> 0"
      using that i by (simp add: clamp_i_def smin_def smax_def del: of_nat_unat)
    ultimately show ?thesis by (auto simp: re_gross_bps_def profit_bps_def Let_def simp del: of_nat_unat)
  next
    case False
    then have pos: "0 < ?p" "0 < ?i" by (simp_all add: unat_gt_0 del: of_nat_unat)
    have g: "clamp_i 128 (?p + ?i) = ?p + ?i" using pos i assms by (simp add: clamp_up del: of_nat_unat)
    have m: "clamp_i 128 (?p * 10000) = ?p * 10000" using pos assms by (simp add: clamp_up del: of_nat_unat)
    have q: "0 \<le> ?p * 10000 div ?i" using pos by (simp add: pos_imp_zdiv_nonneg_iff del: of_nat_unat)
    have s: "?p * 10000 sdiv ?i = ?p * 10000 div ?i" using pos by (simp add: sdiv_nonneg del: of_nat_unat)
    have step: "re_gross_bps j = clamp_i 64 (clamp_i 128 (?p * 10000) sdiv ?i)"
      using False pos by (simp add: re_gross_bps_def Let_def g del: of_nat_unat)
    show ?thesis unfolding step m s clamp_up [OF q] using False by (simp add: profit_bps_def del: of_nat_unat)
  qed
qed

lemma profit_bps_range: "0 \<le> profit_bps p i \<and> profit_bps p i < 2 ^ 63"
proof (cases "i = 0 \<or> p \<le> 0")
  case False
  then have "0 \<le> p * 10000 div int (unat i)" by (simp add: pos_imp_zdiv_nonneg_iff unat_gt_0 del: of_nat_unat)
  then show ?thesis using False by (simp add: profit_bps_def del: of_nat_unat)
qed (simp add: profit_bps_def)

text \<open>Bounds under which nothing overflows: a profit below \<open>2 ^ 100\<close>, and basis points that are not negative, as the paper
  writer computes them.\<close>

definition modest_side :: "replay_report \<Rightarrow> paper_cycle_row list \<Rightarrow> bool" where
  "modest_side report rows \<longleftrightarrow> (\<forall>rec\<in>set (rr_cycle_records report). e_pnl (eo_optimistic (cr_outcome rec)) < 2 ^ 100)
    \<and> (\<forall>row\<in>set rows. 0 \<le> pc_gross_bps row \<and> pc_gross_bps row < 2 ^ 63)
    \<and> length (rr_cycle_records report) < 2 ^ 62"

lemma record_diverges:
  assumes "e_pnl (eo_optimistic (cr_outcome rec)) < 2 ^ 100" and "\<forall>row\<in>set rows. 0 \<le> pc_gross_bps row \<and> pc_gross_bps row < 2 ^ 63"
  shows "\<exists>ds. divergences_of_join (join_record (first_rows rows Map.empty) rec) = Ok ds \<and> length ds \<le> 2
    \<and> (ds = [] \<longleftrightarrow> (\<exists>row. find (\<lambda>r. pc_cycle_hash_hex r = cycle_hash_to_hex (cr_cycle rec)) rows = Some row \<and> agrees rec row))"
proof (cases "find (\<lambda>r. pc_cycle_hash_hex r = cycle_hash_to_hex (cr_cycle rec)) rows")
  case None
  then show ?thesis by (simp add: divergences_of_join_def join_record_def join_lookup Let_def)
next
  case (Some row)
  define j where "j = join_record (first_rows rows Map.empty) rec"
  have sel: "cj_paper_gross_bps j = Some (pc_gross_bps row)" "cj_paper_decision j = pc_decision row"
    "cj_paper_input_lamports j = pc_input_lamports row" "cj_re_optimistic_e_pnl j = e_pnl (eo_optimistic (cr_outcome rec))"
    "cj_re_decision j = decision_to_string (cr_decision rec)"
    by (simp_all add: j_def join_record_def join_lookup Some Let_def)
  let ?re = "profit_bps (e_pnl (eo_optimistic (cr_outcome rec))) (pc_input_lamports row)"
  have re: "re_gross_bps j = ?re" using re_gross_bps_eq [of j] assms(1) by (simp add: sel)
  have "row \<in> set rows" using Some by (metis find_Some_iff nth_mem)
  then have g: "0 \<le> pc_gross_bps row" "pc_gross_bps row < 2 ^ 63" using assms(2) by auto
  have rng: "in_range 64 (pc_gross_bps row - ?re)" "in_range 64 \<bar>pc_gross_bps row - ?re\<bar>"
    using g profit_bps_range [of "e_pnl (eo_optimistic (cr_outcome rec))" "pc_input_lamports row"]
    by (simp_all add: in_range_def smin_def smax_def, linarith+)
  show ?thesis unfolding j_def [symmetric]
    using rng by (auto simp: divergences_of_join_def sel re range_p_def agrees_def Some GROSS_BPS_TOLERANCE_def decision_differs_def
        split: option.splits)
qed

lemma paper_vs_paper_exact:
  assumes "\<forall>rec\<in>set recs. e_pnl (eo_optimistic (cr_outcome rec)) < 2 ^ 100"
    and "\<forall>row\<in>set rows. 0 \<le> pc_gross_bps row \<and> pc_gross_bps row < 2 ^ 63"
  shows "\<exists>ds. paper_vs_paper (map (join_record (first_rows rows Map.empty)) recs) = Ok ds \<and> length ds \<le> 2 * length recs
    \<and> (ds = [] \<longleftrightarrow> (\<forall>rec\<in>set recs. \<exists>row. find (\<lambda>r. pc_cycle_hash_hex r = cycle_hash_to_hex (cr_cycle rec)) rows = Some row \<and> agrees rec row))"
  using assms(1)
proof (induction recs)
  case (Cons rec recs)
  obtain ds where ds: "divergences_of_join (join_record (first_rows rows Map.empty) rec) = Ok ds" "length ds \<le> 2"
    "ds = [] \<longleftrightarrow> (\<exists>row. find (\<lambda>r. pc_cycle_hash_hex r = cycle_hash_to_hex (cr_cycle rec)) rows = Some row \<and> agrees rec row)"
    using record_diverges [OF _ assms(2), of rec] Cons.prems by auto
  obtain es where es: "paper_vs_paper (map (join_record (first_rows rows Map.empty)) recs) = Ok es" "length es \<le> 2 * length recs"
    "es = [] \<longleftrightarrow> (\<forall>rec\<in>set recs. \<exists>row. find (\<lambda>r. pc_cycle_hash_hex r = cycle_hash_to_hex (cr_cycle rec)) rows = Some row \<and> agrees rec row)"
    using Cons by auto
  have both: "paper_vs_paper (map (join_record (first_rows rows Map.empty)) (rec # recs)) = Ok (ds @ es)" by (simp add: ds(1) es(1))
  show ?case unfolding both using ds(2,3) es(2,3) by simp
qed simp

lemma count_lies_total:
  "unat y + length ds < 2 ^ 64 \<Longrightarrow> unat n + length ds < 2 ^ 64 \<Longrightarrow> \<exists>p. count_decision_lies ds (y, n) = Ok p"
proof (induction ds arbitrary: y n)
  case (Cons d ds)
  have s: "unat w + 1 < 2 ^ 64 \<Longrightarrow> unat (w + 1) = unat w + 1" for w :: u64 by (simp add: unat_add_no_wrap)
  have a: "unat w + 1 < 2 ^ 64 \<Longrightarrow> (add_p w 1 :: (u64, reconcile_error) res) = Ok (w + 1)" for w :: u64 by (simp add: add_p_def)
  show ?case using Cons.prems Cons.IH [of y n] Cons.IH [of "y + 1" n] Cons.IH [of y "n + 1"] by (simp add: s a)
qed simp

lemma hash_each_total: "\<forall>x. ser x \<noteq> None \<Longrightarrow> \<exists>h'. hash_each ser xs h = Ok h'"
proof (induction xs arbitrary: h)
  case (Cons x xs)
  then obtain bytes where "ser x = Some bytes" by blast
  then show ?case using Cons by simp
qed simp

lemma reconcile_total:
  assumes "modest_side report rows" and "\<forall>x. ser_p x \<noteq> None" and "\<forall>x. ser_a x \<noteq> None"
    and "(case anchors of None \<Rightarrow> Ok [] | Some ds \<Rightarrow> map_err RecOnchain (anchor_compare ds report)) = Ok avs"
  shows "\<exists>out. paper_reconcile ser_p ser_a report rows anchors = Ok out
    \<and> (ro_paper_divergences out = [] \<longleftrightarrow> all_agree report rows) \<and> ro_anchor_divergences out = avs"
proof -
  obtain ds where ds: "paper_vs_paper (join_by_cycle_hash report rows) = Ok ds" "length ds \<le> 2 * length (rr_cycle_records report)"
    "ds = [] \<longleftrightarrow> all_agree report rows"
    using paper_vs_paper_exact [of "rr_cycle_records report" rows] assms(1)
    by (auto simp: modest_side_def join_by_cycle_hash_def all_agree_def)
  have "length ds < 2 ^ 64" using ds(2) assms(1) by (simp add: modest_side_def)
  then obtain yes no where lies: "count_decision_lies ds (0, 0) = Ok (yes, no)" using count_lies_total [of 0 ds 0] by auto
  obtain h where h: "hash_divergences ser_p ser_a ds avs = Ok h"
  proof -
    obtain h1 where h1: "hash_each ser_p ds FNV_OFFSET = Ok h1" using hash_each_total [OF assms(2)] by blast
    obtain h2 where "hash_each ser_a avs h1 = Ok h2" using hash_each_total [OF assms(3)] by blast
    then show ?thesis by (intro that [of h2]) (simp add: hash_divergences_def h1)
  qed
  show ?thesis using ds(3) by (simp add: paper_reconcile_def Let_def ds(1) lies assms(4) h)
qed

text \<open>C27. With its files in order, the command exits with 2 when an anchor is over its tolerance, else with 0 when every
  re-derived cycle has its first paper row, of the same decision and at most five basis points away, and else
  with 1.\<close>

theorem reconcile_exit_exact:
  assumes "reconcile_parse_args args = CliOpts o'"
    and "load_recon_report (rv_report env (the (op_recon_report o'))) = Ok report"
    and "load_cycles_jsonl (rv_from_str env) (rv_lines env (the (op_cycles_jsonl o'))) = Ok rows"
    and "(case op_anchors o' of None \<Rightarrow> Ok None
       | Some p \<Rightarrow> bind_res (load_anchors (rv_parse_anchor env) (rv_lines env p)) (\<lambda>d. Ok (Some d))) = Ok anchors"
    and "(case anchors of None \<Rightarrow> Ok [] | Some ds \<Rightarrow> map_err RecOnchain (anchor_compare ds report)) = Ok avs"
    and "modest_side report rows" and "\<forall>x. rv_ser_paper env x \<noteq> None" and "\<forall>x. rv_ser_anchor env x \<noteq> None"
    and "\<forall>x. rv_json_ok env x" and "rv_write_ok env (the (op_out o'))"
  shows "reconcile_main env args = Ok (if \<exists>a\<in>set avs. av_exceeds_tolerance a then 2 else if all_agree report rows then 0 else 1)"
proof -
  obtain out where out: "paper_reconcile (rv_ser_paper env) (rv_ser_anchor env) report rows anchors = Ok out"
    "ro_paper_divergences out = [] \<longleftrightarrow> all_agree report rows" "ro_anchor_divergences out = avs"
    using reconcile_total [OF assms(6,7,8,5)] by blast
  have "reconcile_with_opts env o' = Ok (classify_output out)"
    by (simp add: reconcile_with_opts_def stage_def assms out(1) write_output_def)
  then show ?thesis using out(2,3)
    by (auto simp: reconcile_main_def assms(1) classify_output_def Let_def filter_empty_conv)
qed

section \<open>Concrete runs\<close>

lemma report_reload_exact_witness:
  "\<exists>report report'. replay_pools_to_ledger sample_ser (\<lambda>_. two_pools) two_pools (fair_params 2) = Ok report
    \<and> load_recon_report (Some (Some (report_to_disk report))) = Ok report' \<and> length (rr_cycle_records report') = 2"
proof -
  obtain report where run: "replay_pools_to_ledger sample_ser (\<lambda>_. two_pools) two_pools (fair_params 2) = Ok report"
    "length (rr_cycle_records report) = 2" using replay_two by blast
  obtain report' where "load_recon_report (Some (Some (report_to_disk report))) = Ok report'"
    "rr_cycle_records report' = map (\<lambda>rec. rec\<lparr>cr_cycle := (cr_cycle rec)\<lparr>expected_profit_bps := 0\<rparr>\<rparr>) (rr_cycle_records report)"
    using report_reload_exact [OF run(1), of "\<lambda>_. None" "\<lambda>_. None" "[]" None] by auto
  then show ?thesis using run by auto
qed

definition disk_sample :: report_on_disk where
  "disk_sample = \<lparr>rd_params = fair_params 2,
    rd_cycle_records = [\<lparr>cd_seq = 0, cd_cycle = [], cd_net = sample_net 5,
      cd_outcome = \<lparr>eo_optimistic = le_optimistic (sample_entry 0 5), eo_conservative = le_conservative (sample_entry 0 5)\<rparr>,
      cd_decision = WouldTrade, cd_entry = sample_entry 0 5\<rparr>],
    rd_report_hash = 0, rd_feed_events_consumed = 2, rd_total_tip_lamports = 0\<rparr>"

definition disk_record :: cycle_record where
  "disk_record = \<lparr>cr_seq = 0, cr_cycle = \<lparr>cycle_seq = 0, legs = [], weight_sum = 0, expected_profit_bps = 0\<rparr>,
    cr_net = sample_net 5, cr_outcome = \<lparr>eo_optimistic = le_optimistic (sample_entry 0 5), eo_conservative = le_conservative (sample_entry 0 5)\<rparr>,
    cr_decision = WouldTrade, cr_entry = sample_entry 0 5\<rparr>"

lemma disk_sample_loads: "\<exists>report. load_recon_report (Some (Some disk_sample)) = Ok report \<and> rr_cycle_records report = [disk_record]"
proof -
  have "unat (scaled prob_ONE) = 10 ^ 18" by (simp add: prob_ONE_def PROB_SCALE_1E18_def)
  then have fit: "sums_fit 128 0 (opt_pnls [sample_entry 0 5])" "sums_fit 128 0 (con_pnls [sample_entry 0 5])"
    "sum_list (p_lands [sample_entry 0 5]) < 2 ^ 128"
    by (simp_all add: in_range_def smin_def smax_def)
  obtain s where s: "summary_from_entries [sample_entry 0 5] = Ok s"
    using ledger_summary_exact [of "[sample_entry 0 5]"] fit by simp
  have new: "(cycle_new [] :: (cycle, reconcile_error) res) = Ok \<lparr>cycle_seq = 0, legs = [], weight_sum = 0, expected_profit_bps = 0\<rparr>"
    by (simp add: cycle_new_def)
  have recs: "records_from_disk (rd_cycle_records disk_sample) = Ok [disk_record]"
    by (simp add: disk_sample_def disk_record_def new)
  have es: "map cr_entry [disk_record] = [sample_entry 0 5]" by (simp add: disk_record_def)
  have "report_from_disk disk_sample = Ok \<lparr>rr_params = rd_params disk_sample, rr_cycle_records = [disk_record], rr_summary = s,
      rr_divergences = [], rr_report_hash = rd_report_hash disk_sample, rr_feed_events_consumed = rd_feed_events_consumed disk_sample,
      rr_total_tip_lamports = rd_total_tip_lamports disk_sample\<rparr>"
    unfolding report_from_disk_def recs bind_res.simps es s by simp
  then show ?thesis by (simp add: load_recon_report_def)
qed

text \<open>A paper row under the key of that record, and one that is not.\<close>

definition disk_row :: "i64 \<Rightarrow> json" where
  "disk_row bps = JObj [(''gross_bps'', JInt bps), (''pool_address'', JStr (cycle_hash_to_hex (cr_cycle disk_record)))]"

definition disk_env :: "i64 \<Rightarrow> reconcile_env" where
  "disk_env bps = \<lparr>rv_report = (\<lambda>_. Some (Some disk_sample)), rv_lines = (\<lambda>_. Some [Some ''x'']), rv_from_str = (\<lambda>_. Some (disk_row bps)),
    rv_parse_anchor = (\<lambda>_. None), rv_ser_paper = (\<lambda>_. Some []), rv_ser_anchor = (\<lambda>_. Some []), rv_json_ok = (\<lambda>_. True),
    rv_write_ok = (\<lambda>_. True)\<rparr>"

definition disk_args :: "string list" where
  "disk_args = [''--recon-report'', ''r'', ''-o'', ''out'', ''--cycles-jsonl'', ''c'']"

lemma disk_line: "str_trim ''x'' = ''x''" "\<not> skipped_line ''x''" by code_simp+

lemma disk_rows: "load_cycles_jsonl (rv_from_str (disk_env b)) (rv_lines (disk_env b) p) = Ok [project_paper_row (disk_row b)]"
  by (simp add: load_cycles_jsonl_def disk_env_def disk_line Let_def)

lemma disk_row_sel:
  assumes "b \<in> {5, 6}"
  shows "pc_cycle_hash_hex (project_paper_row (disk_row b)) = cycle_hash_to_hex (cr_cycle disk_record)"
    and "pc_gross_bps (project_paper_row (disk_row b)) = b" and "pc_decision (project_paper_row (disk_row b)) = None"
    and "pc_input_lamports (project_paper_row (disk_row b)) = 0"
  using assms by (auto simp: project_paper_row_def disk_row_def json_get_def get_as_def as_str_def as_i64_def or_default_def in_range_def smin_def smax_def)

text \<open>Five basis points of a paper profit are the tolerance; six are a divergence.\<close>

lemma reconcile_exit_exact_witness: "reconcile_main (disk_env 5) disk_args = Ok 0 \<and> reconcile_main (disk_env 6) disk_args = Ok 1"
proof -
  obtain o' where args: "reconcile_parse_args disk_args = CliOpts o'" "op_anchors o' = None"
    by (simp add: disk_args_def reconcile_parse_args_def no_opts_def)
  obtain report where report: "load_recon_report (Some (Some disk_sample)) = Ok report" "rr_cycle_records report = [disk_record]"
    using disk_sample_loads by blast
  have pnl: "e_pnl (eo_optimistic (cr_outcome disk_record)) = 5" by (simp add: disk_record_def)
  have decision: "cr_decision disk_record = WouldTrade" by (simp add: disk_record_def)
  have run: "reconcile_main (disk_env b) disk_args = Ok (if b = 5 then 0 else 1)" if b: "b \<in> {5, 6}" for b
  proof -
    have agree: "all_agree report [project_paper_row (disk_row b)] \<longleftrightarrow> b = 5"
      using b by (auto simp: all_agree_def report(2) disk_row_sel agrees_def profit_bps_def)
    have modest: "modest_side report [project_paper_row (disk_row b)]"
      using b by (auto simp: modest_side_def report(2) disk_row_sel pnl)
    show ?thesis
      using reconcile_exit_exact [OF args(1) _ disk_rows [of b], where report = report and anchors = None and avs = "[]"] report(1) modest agree
      by (simp add: disk_env_def args(2))
  qed
  show ?thesis using run [of 5] run [of 6] by simp
qed

end
