(* ===== verification/PaperJoin.thy ===== *)
theory PaperJoin
  imports PaperReconcile PaperTrader_Safety Warehouse
begin

text \<open>
  What the join of \<^verbatim>\<open>dl-app reconcile\<close> finds of the rows that the repository writes: those of the \<^verbatim>\<open>cycle.v1\<close>
  contract and those of the live paper trader.
\<close>

section \<open>The keys of the two sides\<close>

lemma hex16_shape: "length (hex16 w) = 16" "CHR ''C'' \<notin> set (hex16 w)"
proof -
  show "length (hex16 w) = 16" by (simp add: hex16_def)
  have all: "\<forall>k\<in>set [0..<16]. hex_digit k \<noteq> CHR ''C''" by code_simp
  have digit: "hex_digit (n mod 16) \<noteq> CHR ''C''" for n
    by (rule all [rule_format]) simp
  show "CHR ''C'' \<notin> set (hex16 w)" unfolding hex16_def set_map image_iff using digit by metis
qed

text \<open>The line the live paper trader appends, as the value it encodes.\<close>

definition trader_json :: "jsonl_row \<Rightarrow> json" where
  "trader_json jr = JObj [(''base_mint'', JStr (jr_base_mint jr)), (''detected_at_unix_ms'', JInt (jr_detected_at jr)),
    (''dex'', JStr (jr_dex jr)), (''fee_bps'', JInt (int (jr_fee_bps jr))), (''gross_bps'', JInt (jr_gross_bps jr)),
    (''pool_address'', JStr (jr_pool_address jr)), (''quote_mint'', JStr (jr_quote_mint jr))]"

lemma trader_row_key: "pc_cycle_hash_hex (project_paper_row (trader_json jr)) = jr_pool_address jr"
  by (simp add: project_paper_row_def trader_json_def json_get_def as_str_def or_default_def)

lemma contract_row_key:
  assumes "validate_cycle_v1 v = Ok ()"
  shows "length (pc_cycle_hash_hex (project_paper_row v)) = 64"
proof -
  obtain i where i: "get_as as_str ''cycle_id'' v = Some i" "is_blake3_hex i"
    using assms by (auto simp: validate_cycle_v1_def bind_res_Ok_iff)
  then obtain x where "json_get ''cycle_id'' v = Some x" "as_str x = Some i" by (auto simp: get_as_def bind_eq_Some_conv)
  then show ?thesis using i(2) by (simp add: project_paper_row_def or_default_def is_blake3_hex_def)
qed

text \<open>Every line a run of the trader appends carries the debug form of a cycle.\<close>

definition shown :: "trader_lib \<Rightarrow> trader \<Rightarrow> bool" where
  "shown lib t \<longleftrightarrow> (\<forall>jr\<in>set (tr_jsonl t). \<exists>c. jr_pool_address jr = tl_show_cycle lib c)"

lemma shown_simps [simp]:
  "shown lib (tr_raydium_update a t) = shown lib t" "shown lib (tr_orca_update b t) = shown lib t"
  "shown lib (tr_meteora_update c t) = shown lib t" "shown lib (tr_subscribed_update d t) = shown lib t"
  "shown lib (tr_detector_update e t) = shown lib t" "shown lib (tr_wallet_update f t) = shown lib t"
  "shown lib (tr_disk_update g t) = shown lib t" "shown lib (tr_rng_update h t) = shown lib t"
  "shown lib (tr_events_update i t) = shown lib t" "shown lib (tr_pools_seen_update j t) = shown lib t"
  "shown lib (tr_vault_updates_update k t) = shown lib t" "shown lib (tr_cycles_evaluated_update l t) = shown lib t"
  "shown lib (tr_trades_written_update m t) = shown lib t"
  by (simp_all add: shown_def)

lemma shown_subscribe [simp]: "shown lib (subscribe_vault env v t) = shown lib t"
  by (simp add: subscribe_vault_def)

lemma shown_put_tracked [simp]: "shown lib (put_tracked dex k v u) = shown lib u"
  by (cases dex) simp_all

lemma append_shown: "shown lib t \<Longrightarrow> tf_cycle_hash_hex f = tl_show_cycle lib c \<Longrightarrow> shown lib (append_cycle_jsonl lib env k d f t)"
  by (auto simp: shown_def append_cycle_jsonl_def Let_def)

lemma settle_hash: "settle cfg f rng = Ok (trade, rng') \<Longrightarrow> tf_cycle_hash_hex trade = tf_cycle_hash_hex f"
  by (auto simp: settle_def bind_res_Ok_iff split: if_splits prod.splits)

lemma book_cycle_shown:
  assumes "book_cycle lib cfg env reg c t = Ok (goes_on, t')" and "shown lib t"
  shows "shown lib t'"
proof -
  obtain priced where p: "price_cycle cfg reg c = (Ok priced :: (_, unit) res)" using assms(1) by (auto simp: book_cycle_def bind_res_Ok_iff)
  show ?thesis
  proof (cases priced)
    case None
    then show ?thesis using assms p by (simp add: book_cycle_def)
  next
    case (Some q)
    obtain input gross net where q: "q = (input, gross, net)" by (cases q)
    obtain out where out: "evaluate net (tc_optimistic cfg) (tc_conservative cfg) = Ok out"
      using assms(1) p Some q by (auto simp: book_cycle_def split: res.splits)
    note run = assms(1) [unfolded book_cycle_def p bind_res.simps Some q option.case prod.case out res.case]
    show ?thesis
    proof (cases "decision_from_ev (eo_conservative out) = WouldTrade")
      case True
      obtain n trade rng where s: "add_p (tr_cycles_evaluated t) 1 = (Ok n :: (_, unit) res)"
        "settle cfg (fill_of_cycle lib cfg c input gross out) (tr_rng t) = Ok (trade, rng)"
        using run True by (auto simp: bind_res_Ok_iff)
      have hash: "tf_cycle_hash_hex trade = tl_show_cycle lib c" using settle_hash [OF s(2)] by (simp add: fill_of_cycle_def)
      note run = run [unfolded s bind_res.simps prod.case Let_def if_not_P [OF not_not [THEN iffD2, OF True]]]
      let ?k = "length (pw_trades (tr_wallet t))"
      obtain r w where ex: "wallet_execute (te_now env ?k) trade (tr_wallet t) = (r, w)" by (cases "wallet_execute (te_now env ?k) trade (tr_wallet t)")
      show ?thesis
      proof (cases r)
        case (Ok u)
        obtain m where m: "(add_p (tr_trades_written t) 1 :: (u64, unit) res) = Ok m"
          using run by (auto simp: ex Ok bind_res_Ok_iff)
        obtain r2 d where save: "wallet_save (tl_to_json lib) (tc_path cfg) (te_write_stops env ?k) (te_rename_ok env ?k) w (tr_disk t) = (r2, d)"
          by (cases "wallet_save (tl_to_json lib) (tc_path cfg) (te_write_stops env ?k) (te_rename_ok env ?k) w (tr_disk t)")
        show ?thesis using run assms(2) by (cases r2) (auto simp: ex Ok m save intro!: append_shown [OF _ hash])
      qed (use run assms(2) ex in auto)
    next
      case False
      then show ?thesis using run assms(2) by simp
    qed
  qed
qed

lemma write_cycles_shown: "write_cycles lib cfg env reg cs t = Ok t' \<Longrightarrow> shown lib t \<Longrightarrow> shown lib t'"
proof (induction cs arbitrary: t)
  case (Cons c cs)
  obtain goes_on t1 where "book_cycle lib cfg env reg c t = Ok (goes_on, t1)"
    "(if goes_on then write_cycles lib cfg env reg cs t1 else Ok t1) = Ok t'"
    using Cons.prems(1) by (auto simp: bind_res_Ok_iff)
  then show ?case using Cons.IH [of t1] book_cycle_shown Cons.prems(2) by (auto split: if_splits)
qed simp

lemma detect_shown: "detect_and_write lib cfg env p t = Ok t' \<Longrightarrow> shown lib t \<Longrightarrow> shown lib t'"
  by (auto simp: detect_and_write_def bind_res_Ok_iff split: res.splits elim!: write_cycles_shown)

lemma vault_update_shown:
  assumes "vault_update lib cfg env pk spl t = Ok t'" and "shown lib t"
  shows "shown lib t'"
proof -
  obtain n where n: "add_p (tr_vault_updates t) 1 = (Ok n :: (u64, unit) res)"
    using assms(1) by (auto simp: vault_update_def bind_res_Ok_iff)
  define t1 where "t1 = t\<lparr>tr_vault_updates := n\<rparr>"
  have t1: "shown lib t1" using assms(2) by (simp add: t1_def shown_def)
  note run = assms(1) [unfolded vault_update_def n bind_res.simps Let_def, folded t1_def]
  have "shown lib u" if "(if b then detect_and_write lib cfg env p t1 else Ok t1) = Ok u" for b p u
    using that t1 detect_shown by (auto split: if_splits)
  then show ?thesis using run t1
    by (auto simp: bind_res_Ok_iff split: option.splits prod.splits)
qed

lemma orca_update_shown: "orca_update lib cfg env pk w t = Ok t' \<Longrightarrow> shown lib t \<Longrightarrow> shown lib t'"
  by (auto simp: orca_update_def Let_def bind_res_Ok_iff elim!: detect_shown)

lemma handle_account_shown:
  assumes "handle_account lib cfg env pk data t0 = Ok t'" and "shown lib t0"
  shows "shown lib t'"
proof -
  from assms(1) obtain t where t: "tr_jsonl t = tr_jsonl t0"
    and run: "if 653 \<le> length data \<or> length data = 256 then \<exists>w. whirl_of data = Some w \<and> orca_update lib cfg env pk w t = Ok t'
      else if SPL_TOKEN_ACCOUNT_SIZE \<le> length data
      then \<exists>spl. decode_spl_token_account data = Ok spl \<and> vault_update lib cfg env pk spl t = Ok t'
      else t' = t"
    by (rule handle_account_dispatch)
  have "shown lib t" using assms(2) t by (simp add: shown_def)
  then show ?thesis using run orca_update_shown vault_update_shown by (auto split: if_splits)
qed

lemma reachable_shown: "trader_reachable lib cfg from_json t \<Longrightarrow> shown lib t"
proof (induction rule: trader_reachable.induct)
  case (started ts seed d t)
  then show ?case by (auto simp: trader_start_def shown_def bind_res_Ok_iff)
qed (rule handle_account_shown)

text \<open>C29. The paper side and the re-derived side never meet. The join looks for the 16 hexadecimal digits of the ledger
  hash; a row of the \<^verbatim>\<open>cycle.v1\<close> contract is keyed by 64, and a row of the live paper trader by the debug form of its
  cycle. So every cycle of every report is reported as missing on paper, whatever was traded.\<close>

theorem paper_rows_never_join:
  assumes "\<forall>c. \<exists>s. tl_show_cycle lib c = ''Cycle'' @ s" and "trader_reachable lib cfg from_json t"
    and "\<forall>v\<in>set vs. validate_cycle_v1 v = Ok () \<or> v \<in> trader_json ` set (tr_jsonl t)"
  shows "paper_vs_paper (join_by_cycle_hash report (map project_paper_row vs))
    = Ok (map (\<lambda>rec. \<lparr>pd_seq = cr_seq rec, pd_kind = ''cycle_hash_missing'', pd_gross_bps_diff = None, pd_paper_decision = None,
        pd_re_decision = Some (decision_to_string (cr_decision rec))\<rparr>) (rr_cycle_records report))"
proof -
  have none: "find (\<lambda>r. pc_cycle_hash_hex r = cycle_hash_to_hex c) (map project_paper_row vs) = None" for c
  proof -
    have "pc_cycle_hash_hex (project_paper_row v) \<noteq> hex16 h" if v: "v \<in> set vs" for v h
    proof (cases "validate_cycle_v1 v = Ok ()")
      case True
      then show ?thesis using contract_row_key [OF True] hex16_shape(1) [of h] by auto
    next
      case False
      then obtain jr where jr: "jr \<in> set (tr_jsonl t)" "v = trader_json jr" using assms(3) v by blast
      then obtain c where "jr_pool_address jr = tl_show_cycle lib c" using reachable_shown [OF assms(2)] unfolding shown_def by blast
      then obtain s where "jr_pool_address jr = ''Cycle'' @ s" using assms(1) by metis
      then have "CHR ''C'' \<in> set (jr_pool_address jr)" by simp
      then show ?thesis using hex16_shape(2) [of h] unfolding jr(2) trader_row_key by metis
    qed
    then show ?thesis by (auto simp: find_None_iff cycle_hash_to_hex_def)
  qed
  have "divergences_of_join (join_record (first_rows (map project_paper_row vs) Map.empty) rec)
      = Ok [\<lparr>pd_seq = cr_seq rec, pd_kind = ''cycle_hash_missing'', pd_gross_bps_diff = None, pd_paper_decision = None,
        pd_re_decision = Some (decision_to_string (cr_decision rec))\<rparr>]" for rec
    by (simp add: divergences_of_join_def join_record_def join_lookup none Let_def missing_row_def)
  then have "paper_vs_paper (map (join_record (first_rows (map project_paper_row vs) Map.empty)) recs)
      = Ok (map (\<lambda>rec. \<lparr>pd_seq = cr_seq rec, pd_kind = ''cycle_hash_missing'', pd_gross_bps_diff = None, pd_paper_decision = None,
        pd_re_decision = Some (decision_to_string (cr_decision rec))\<rparr>) recs)" for recs
    by (induction recs) simp_all
  then show ?thesis by (simp add: join_by_cycle_hash_def)
qed

lemma paper_rows_never_join_witness:
  "\<exists>report d. replay_pools_to_ledger sample_ser (\<lambda>_. two_pools) two_pools (fair_params 2) = Ok report
    \<and> paper_vs_paper (join_by_cycle_hash report [project_paper_row (sample_json id0)]) = Ok d \<and> length d = 2"
proof -
  obtain report where run: "replay_pools_to_ledger sample_ser (\<lambda>_. two_pools) two_pools (fair_params 2) = Ok report"
    "length (rr_cycle_records report) = 2" using replay_two by blast
  have shows_cycle: "\<forall>c. \<exists>s. tl_show_cycle (PaperTrader_Safety.sample_lib\<lparr>tl_show_cycle := (\<lambda>_. ''Cycle { legs: [] }'')\<rparr>) c = ''Cycle'' @ s" by simp
  have start: "trader_reachable (PaperTrader_Safety.sample_lib\<lparr>tl_show_cycle := (\<lambda>_. ''Cycle { legs: [] }'')\<rparr>) sample_cfg (\<lambda>_. None) sample_start"
    by (rule trader_reachable.started [OF sample_started])
  have "validate_cycle_v1 (sample_json id0) = Ok ()" by code_simp
  then have rows: "\<forall>v\<in>set [sample_json id0]. validate_cycle_v1 v = Ok () \<or> v \<in> trader_json ` set (tr_jsonl sample_start)" by simp
  show ?thesis using paper_rows_never_join [OF shows_cycle start rows, of report] run by simp
qed

end
