(* ===== verification/DailyRecon.thy ===== *)
theory DailyRecon
  imports Warehouse "HOL-Library.Multiset"
begin

text \<open>
  The daily reconciliation of \<^verbatim>\<open>crates/dl-pipeline\<close> (\<^verbatim>\<open>recon.rs\<close>): the cycles of a day against every report of
  the warehouse, counted, with the percentiles of the drift, written over the row of that day. The JSON codec and
  the directory walk are arguments.
\<close>

section \<open>Data\<close>

record recon_cycle_entry =
  rc_cycle_id :: string
  rc_matched_in_capture :: bool
  rc_gross_bps_drift :: i64
  rc_evaluator_differs :: bool

record recon_report_v1 =
  rw_schema :: string
  rw_report_id :: string
  rw_bot_run_id :: string
  rw_captured_at_unix_ms :: i64
  rw_reconciled_at_unix_ms :: i64
  rw_cycles :: "recon_cycle_entry list"

record recon_stats =
  st_date :: string
  st_cycles_emitted :: u64
  st_cycles_matched :: u64
  st_cycles_unmatched :: u64
  st_drift_p50 :: i64
  st_drift_p99 :: i64
  st_evaluator_differs :: u64
  st_reports_processed :: u64

record daily_recon_v1 =
  dr_schema :: string
  dr_date :: string
  dr_pipeline_run_id :: string
  dr_stats :: recon_stats
  dr_generated_at_unix_ms :: i64

text \<open>What the walk meets: a file with the extension or something else, whose lines are read one by one; opening it
  or reading a line may fail.\<close>

record walked_file =
  wf_is_jsonl :: bool
  wf_lines :: "string option list option"

text \<open>The reports on disk, the codecs, the clock, and what happens to the write.\<close>

record daily_env =
  de_reports :: "walked_file list option"
  de_parse_report :: "string \<Rightarrow> recon_report_v1 option"
  de_row_json :: "daily_recon_v1 \<Rightarrow> string option"
  de_cycles_ok :: bool
  de_now_ms :: i64
  de_mkdir_ok :: bool
  de_create_ok :: bool
  de_stops :: "nat option"
  de_rename_ok :: bool

text \<open>The rows of the days and the temporary files beside them.\<close>

record daily_files =
  df_row :: "string \<rightharpoonup> string"
  df_tmp :: "string \<rightharpoonup> string"

section \<open>Operations\<close>

definition percentile :: "i64 list \<Rightarrow> u32 \<Rightarrow> (i64 option, pipeline_error) res" where
  "percentile xs pct =
    (if xs = [] then Ok None
     else
       bind_res (mul_p (ucast pct :: u64) (of_nat (length xs))) (\<lambda>a.
       bind_res (add_p a 99) (\<lambda>b.
       let rank = max (unat (b div 100)) 1;
           idx = min (rank - 1) (length xs - 1)
       in Ok (Some (xs ! idx)))))"

fun report_lines :: "(string \<Rightarrow> recon_report_v1 option) \<Rightarrow> string option list \<Rightarrow> (recon_report_v1 list, pipeline_error) res" where
  "report_lines parse [] = Ok []"
| "report_lines parse (None # ls) = Err PipeIo"
| "report_lines parse (Some l # ls) =
    (if l = [] then report_lines parse ls
     else (case parse l of
         Some r \<Rightarrow> bind_res (report_lines parse ls) (\<lambda>rs. Ok (r # rs))
       | None \<Rightarrow> report_lines parse ls))"

fun report_files :: "(string \<Rightarrow> recon_report_v1 option) \<Rightarrow> walked_file list \<Rightarrow> (recon_report_v1 list, pipeline_error) res" where
  "report_files parse [] = Ok []"
| "report_files parse (f # fs) =
    (if \<not> wf_is_jsonl f then report_files parse fs
     else (case wf_lines f of
         None \<Rightarrow> Err PipeIo
       | Some ls \<Rightarrow>
           bind_res (report_lines parse ls) (\<lambda>rs.
           bind_res (report_files parse fs) (\<lambda>rest. Ok (rs @ rest)))))"

definition read_all_reports :: "daily_env \<Rightarrow> (recon_report_v1 list, pipeline_error) res" where
  "read_all_reports env = (case de_reports env of None \<Rightarrow> Ok [] | Some fs \<Rightarrow> report_files (de_parse_report env) fs)"

text \<open>The counters and the drifts, entry by entry.\<close>

fun count_entries ::
    "string set \<Rightarrow> recon_cycle_entry list \<Rightarrow> u64 \<times> u64 \<times> u64 \<times> i64 list \<Rightarrow> (u64 \<times> u64 \<times> u64 \<times> i64 list, pipeline_error) res" where
  "count_entries ids [] acc = Ok acc"
| "count_entries ids (e # es) (matched, unmatched, differs, drifts) =
    (if rc_cycle_id e \<notin> ids then count_entries ids es (matched, unmatched, differs, drifts)
     else
       bind_res (if rc_matched_in_capture e then add_p matched 1 else Ok matched) (\<lambda>matched'.
       bind_res (if rc_matched_in_capture e then Ok unmatched else add_p unmatched 1) (\<lambda>unmatched'.
       bind_res (if rc_evaluator_differs e then add_p differs 1 else Ok differs) (\<lambda>differs'.
       count_entries ids es (matched', unmatched', differs', drifts @ [rc_gross_bps_drift e])))))"

text \<open>The row goes to a temporary file, which then takes the place of the old one.\<close>

definition write_daily_recon :: "daily_env \<Rightarrow> string \<Rightarrow> daily_recon_v1 \<Rightarrow> daily_files \<Rightarrow> (unit, pipeline_error) res \<times> daily_files" where
  "write_daily_recon env d row fs =
    (if \<not> de_mkdir_ok env \<or> \<not> de_create_ok env then (Err PipeIo, fs)
     else (case de_row_json env row of
         None \<Rightarrow> (Err PipeJson, fs\<lparr>df_tmp := (df_tmp fs)(d \<mapsto> [])\<rparr>)
       | Some j \<Rightarrow>
           let s = j @ [newline] in
           (case de_stops env of
              Some k \<Rightarrow> (Err PipeIo, fs\<lparr>df_tmp := (df_tmp fs)(d \<mapsto> take k s)\<rparr>)
            | None \<Rightarrow>
                if \<not> de_rename_ok env then (Err PipeIo, fs\<lparr>df_tmp := (df_tmp fs)(d \<mapsto> s)\<rparr>)
                else (Ok (), \<lparr>df_row = (df_row fs)(d \<mapsto> s), df_tmp = (df_tmp fs)(d := None)\<rparr>))))"

definition daily_stats :: "string \<Rightarrow> cycle_v1 list \<Rightarrow> recon_report_v1 list \<Rightarrow> (recon_stats, pipeline_error) res" where
  "daily_stats d cycles reports =
    bind_res (count_entries (set (map cv_cycle_id cycles)) (concat (map rw_cycles reports)) (0, 0, 0, []))
      (\<lambda>(matched, unmatched, differs, drifts).
    let ds = sort drifts in
    bind_res (percentile ds 50) (\<lambda>p50.
    bind_res (percentile ds 99) (\<lambda>p99.
    Ok \<lparr>st_date = d, st_cycles_emitted = of_nat (length cycles), st_cycles_matched = matched,
        st_cycles_unmatched = unmatched, st_drift_p50 = (case p50 of None \<Rightarrow> 0 | Some v \<Rightarrow> v),
        st_drift_p99 = (case p99 of None \<Rightarrow> 0 | Some v \<Rightarrow> v), st_evaluator_differs = differs,
        st_reports_processed = of_nat (length reports)\<rparr>)))"

definition daily_reconcile ::
    "warehouse_lib \<Rightarrow> daily_env \<Rightarrow> string \<Rightarrow> string \<Rightarrow> warehouse \<Rightarrow> daily_files \<Rightarrow> (daily_recon_v1, pipeline_error) res \<times> daily_files" where
  "daily_reconcile lib env d run w fs =
    (case bind_res (read_cycle_partition lib (de_cycles_ok env) d w) (\<lambda>cycles.
          bind_res (read_all_reports env) (\<lambda>reports.
          bind_res (daily_stats d cycles reports) (\<lambda>stats.
          Ok \<lparr>dr_schema = ''daily_recon.v1'', dr_date = d, dr_pipeline_run_id = run, dr_stats = stats,
              dr_generated_at_unix_ms = de_now_ms env\<rparr>))) of
       Err e \<Rightarrow> (Err e, fs)
     | Panic \<Rightarrow> (Panic, fs)
     | Ok row \<Rightarrow>
         (case write_daily_recon env d row fs of (r, fs') \<Rightarrow> (bind_res r (\<lambda>_. Ok row), fs')))"

section \<open>Counting\<close>

text \<open>The entries whose cycle was emitted on the day.\<close>

definition joined :: "cycle_v1 list \<Rightarrow> recon_report_v1 list \<Rightarrow> recon_cycle_entry list" where
  "joined cycles reports = filter (\<lambda>e. rc_cycle_id e \<in> cv_cycle_id ` set cycles) (concat (map rw_cycles reports))"

lemma count_entries_exact:
  fixes m u v :: u64
  shows "unat m + length es < 2 ^ 64 \<Longrightarrow> unat u + length es < 2 ^ 64 \<Longrightarrow> unat v + length es < 2 ^ 64 \<Longrightarrow>
    count_entries ids es (m, u, v, ds) =
      (let j = filter (\<lambda>e. rc_cycle_id e \<in> ids) es in
       Ok (m + of_nat (length (filter rc_matched_in_capture j)), u + of_nat (length (filter (\<lambda>e. \<not> rc_matched_in_capture e) j)),
           v + of_nat (length (filter rc_evaluator_differs j)), ds @ map rc_gross_bps_drift j))"
proof (induction es arbitrary: m u v ds)
  case (Cons e es)
  have s: "unat w + 1 < 2 ^ 64 \<Longrightarrow> unat (w + 1) = unat w + 1" for w :: u64 by (simp add: unat_add_no_wrap)
  have a: "unat w + 1 < 2 ^ 64 \<Longrightarrow> (add_p w 1 :: (u64, pipeline_error) res) = Ok (w + 1)" for w :: u64 by (simp add: add_p_def)
  show ?case using Cons.prems by (simp add: Cons.IH s a Let_def add.assoc)
qed simp

section \<open>Nearest rank\<close>

text \<open>The number of the \<open>p\<close>th percentile among \<open>n\<close> sorted numbers, from 0.\<close>

definition rank_index :: "nat \<Rightarrow> nat \<Rightarrow> nat" where
  "rank_index p n = max ((p * n + 99) div 100) 1 - 1"

lemma rank_index_less: "p \<le> 100 \<Longrightarrow> 0 < n \<Longrightarrow> rank_index p n < n"
proof -
  assume "p \<le> 100" "0 < n"
  then have "p * n \<le> 100 * n" by simp
  then have "(p * n + 99) div 100 \<le> n" by linarith
  then show "rank_index p n < n" using \<open>0 < n\<close> by (simp add: rank_index_def)
qed

lemma percentile_eq:
  assumes "xs \<noteq> []" and "unat p \<le> 100" and "100 * length xs + 99 < 2 ^ 64"
  shows "percentile xs p = Ok (Some (xs ! rank_index (unat p) (length xs)))"
proof -
  let ?n = "length xs"
  have n: "unat (of_nat ?n :: u64) = ?n" using assms(3) by (simp add: unat_of_nat_fits)
  have p: "unat (ucast p :: u64) = unat p" by (simp add: unat_ucast_up)
  have le: "unat p * ?n \<le> 100 * ?n" using assms(2) by simp
  have fits: "unat p * ?n + 99 < 2 ^ 64" using le assms(3) by linarith
  have m: "(mul_p (ucast p :: u64) (of_nat ?n) :: (u64, pipeline_error) res) = Ok (ucast p * of_nat ?n)"
    using fits by (simp add: mul_p_def n p)
  have mu: "unat (ucast p * of_nat ?n :: u64) = unat p * ?n"
    using fits by (subst unat_mul_no_wrap) (simp_all add: n p)
  have a: "(add_p (ucast p * of_nat ?n :: u64) 99 :: (u64, pipeline_error) res) = Ok (ucast p * of_nat ?n + 99)"
    using fits by (simp add: add_p_def mu)
  have au: "unat (ucast p * of_nat ?n + 99 :: u64) = unat p * ?n + 99"
    using fits by (subst unat_add_no_wrap) (simp_all add: mu)
  have d: "unat ((ucast p * of_nat ?n + 99) div 100 :: u64) = (unat p * ?n + 99) div 100"
    by (simp add: unat_div au)
  have i: "min (max ((unat p * ?n + 99) div 100) 1 - 1) (?n - 1) = rank_index (unat p) ?n"
    using rank_index_less [OF assms(2), of ?n] assms(1) by (simp add: rank_index_def)
  show ?thesis unfolding percentile_def m bind_res.simps a Let_def d i using assms(1) by simp
qed

lemma length_filter_sort: "length (filter P (sort xs)) = length (filter P xs)"
  by (metis mset_filter mset_sort size_mset)

text \<open>The number at that place: at least \<open>p\<close> percent of the numbers are not above it, and fewer than \<open>p\<close> percent are
  below it, unless none is.\<close>

lemma nearest_rank:
  fixes xs :: "int list"
  assumes "xs \<noteq> []" and "p \<le> 100"
  defines "v \<equiv> sort xs ! rank_index p (length xs)"
  shows "v \<in> set xs" and "p * length xs \<le> 100 * length (filter (\<lambda>x. x \<le> v) xs)"
    and "filter (\<lambda>x. x < v) xs = [] \<or> 100 * length (filter (\<lambda>x. x < v) xs) < p * length xs"
proof -
  let ?ys = "sort xs" and ?i = "rank_index p (length xs)"
  have i: "?i < length ?ys" using rank_index_less [OF assms(2), of "length xs"] assms(1) by simp
  show "v \<in> set xs" using nth_mem [OF i] by (simp add: v_def)
  have low: "x \<le> v" if "x \<in> set (take (Suc ?i) ?ys)" for x
    using that i by (auto simp: in_set_conv_nth v_def intro!: sorted_nth_mono)
  have high: "v \<le> x" if "x \<in> set (drop ?i ?ys)" for x
    using that i by (auto simp: in_set_conv_nth v_def intro!: sorted_nth_mono)
  have "filter (\<lambda>x. x \<le> v) (take (Suc ?i) ?ys) = take (Suc ?i) ?ys" using low by (simp add: filter_id_conv)
  then have "Suc ?i \<le> length (filter (\<lambda>x. x \<le> v) (take (Suc ?i) ?ys @ drop (Suc ?i) ?ys))"
    using i by (simp only: filter_append length_append) simp
  then have le: "Suc ?i \<le> length (filter (\<lambda>x. x \<le> v) xs)" by (simp add: length_filter_sort)
  have "filter (\<lambda>x. x < v) (drop ?i ?ys) = []" using high by (auto simp: filter_empty_conv not_less)
  then have "length (filter (\<lambda>x. x < v) (take ?i ?ys @ drop ?i ?ys)) \<le> ?i"
    using length_filter_le [of "\<lambda>x. x < v" "take ?i ?ys"] i by (simp only: filter_append length_append) simp
  then have lt: "length (filter (\<lambda>x. x < v) xs) \<le> ?i" by (simp add: length_filter_sort)
  show "p * length xs \<le> 100 * length (filter (\<lambda>x. x \<le> v) xs)" using le by (simp add: rank_index_def max_def split: if_splits)
  show "filter (\<lambda>x. x < v) xs = [] \<or> 100 * length (filter (\<lambda>x. x < v) xs) < p * length xs"
  proof (cases "p * length xs = 0")
    case True
    then have "?i = 0" by (simp add: rank_index_def)
    then show ?thesis using lt by simp
  next
    case False
    have b: "100 * (max ((m + 99) div 100) 1 - 1) < m" if "0 < m" for m :: nat
    proof -
      have "100 * ((m + 99) div 100) \<le> m + 99" by simp
      then show ?thesis using that by (auto simp: max_def)
    qed
    have "0 < p * length xs" using False by simp
    then have "100 * ?i < p * length xs" unfolding rank_index_def by (rule b)
    then show ?thesis using lt by linarith
  qed
qed

section \<open>The row of a day\<close>

definition rank_or_zero :: "nat \<Rightarrow> i64 list \<Rightarrow> i64" where
  "rank_or_zero p xs = (if xs = [] then 0 else sort xs ! rank_index p (length xs))"

definition stats_of_day :: "string \<Rightarrow> cycle_v1 list \<Rightarrow> recon_report_v1 list \<Rightarrow> recon_stats" where
  "stats_of_day d cycles reports =
    (let j = joined cycles reports in
     \<lparr>st_date = d, st_cycles_emitted = of_nat (length cycles),
      st_cycles_matched = of_nat (length (filter rc_matched_in_capture j)),
      st_cycles_unmatched = of_nat (length (filter (\<lambda>e. \<not> rc_matched_in_capture e) j)),
      st_drift_p50 = rank_or_zero 50 (map rc_gross_bps_drift j), st_drift_p99 = rank_or_zero 99 (map rc_gross_bps_drift j),
      st_evaluator_differs = of_nat (length (filter rc_evaluator_differs j)),
      st_reports_processed = of_nat (length reports)\<rparr>)"

lemma daily_stats_exact:
  assumes "100 * length (concat (map rw_cycles reports)) + 99 < 2 ^ 64"
  shows "daily_stats d cycles reports = Ok (stats_of_day d cycles reports)"
proof -
  let ?es = "concat (map rw_cycles reports)" and ?j = "joined cycles reports"
  have "length ?j \<le> length ?es" by (simp add: joined_def)
  then have small: "100 * length ?j + 99 < 2 ^ 64" using assms by linarith
  have loop: "count_entries (set (map cv_cycle_id cycles)) ?es (0, 0, 0, []) =
      Ok (of_nat (length (filter rc_matched_in_capture ?j)), of_nat (length (filter (\<lambda>e. \<not> rc_matched_in_capture e) ?j)),
        of_nat (length (filter rc_evaluator_differs ?j)), map rc_gross_bps_drift ?j)"
    using assms by (subst count_entries_exact) (simp_all add: joined_def Let_def)
  have p: "percentile (sort (map rc_gross_bps_drift ?j)) q
      = Ok (if ?j = [] then None else Some (sort (map rc_gross_bps_drift ?j) ! rank_index (unat q) (length ?j)))"
    if "unat q \<le> 100" for q
  proof (cases "?j = []")
    case False
    then have "sort (map rc_gross_bps_drift ?j) \<noteq> []" by (metis length_0_conv length_map length_sort)
    then show ?thesis using percentile_eq [OF _ that, of "sort (map rc_gross_bps_drift ?j)"] small False by simp
  qed (simp add: percentile_def)
  have q: "unat (50 :: u32) = 50" "unat (99 :: u32) = 99" by simp_all
  show ?thesis unfolding daily_stats_def loop bind_res.simps prod.case Let_def
    by (simp add: p q stats_of_day_def rank_or_zero_def Let_def)
qed

lemma joined_perm: "mset reports = mset reports' \<Longrightarrow> mset (joined cycles reports) = mset (joined cycles reports')"
proof -
  assume r: "mset reports = mset reports'"
  have m: "mset (concat (map rw_cycles rs)) = sum_mset (image_mset (\<lambda>r. mset (rw_cycles r)) (mset rs))" for rs
    by (induction rs) simp_all
  have "mset (concat (map rw_cycles reports)) = mset (concat (map rw_cycles reports'))" by (simp only: m r)
  then show ?thesis by (simp add: joined_def)
qed

text \<open>The walk of the directory may come in any order.\<close>

lemma stats_perm:
  assumes "mset reports = mset reports'"
  shows "stats_of_day d cycles reports = stats_of_day d cycles reports'"
proof -
  have m: "mset (joined cycles reports) = mset (joined cycles reports')" by (rule joined_perm [OF assms])
  have c: "length (filter P (joined cycles reports)) = length (filter P (joined cycles reports'))" for P
    using m by (metis mset_filter size_mset)
  have "mset (map rc_gross_bps_drift (joined cycles reports)) = mset (map rc_gross_bps_drift (joined cycles reports'))"
    using m by simp
  then have s: "sort (map rc_gross_bps_drift (joined cycles reports)) = sort (map rc_gross_bps_drift (joined cycles reports'))"
    by (metis properties_for_sort mset_sort sorted_sort)
  have l: "length (joined cycles reports) = length (joined cycles reports')" using m by (metis size_mset)
  have e: "joined cycles reports = [] \<longleftrightarrow> joined cycles reports' = []" using l by (metis length_0_conv)
  have n: "length reports = length reports'" using assms by (metis size_mset)
  show ?thesis by (simp add: stats_of_day_def Let_def c rank_or_zero_def s l e n)
qed

definition day_writable :: "daily_env \<Rightarrow> bool" where
  "day_writable env \<longleftrightarrow> de_mkdir_ok env \<and> de_create_ok env \<and> de_stops env = None \<and> de_rename_ok env"


text \<open>Whatever fails, the row of the day is the old one or a complete new one, and the rows of other days stay.\<close>

theorem daily_row_never_torn:
  "case daily_reconcile lib env d run w fs of (r, fs') \<Rightarrow>
     df_row fs' = (df_row fs)(d := df_row fs' d)
   \<and> (case r of Ok row \<Rightarrow> (\<exists>s. de_row_json env row = Some s \<and> df_row fs' d = Some (s @ [newline])) | _ \<Rightarrow> df_row fs' = df_row fs)"
  by (auto simp: daily_reconcile_def write_daily_recon_def Let_def split: res.splits option.splits prod.splits)

definition day_entry :: "string \<Rightarrow> i64 \<Rightarrow> bool \<Rightarrow> recon_cycle_entry" where
  "day_entry i drift hit = \<lparr>rc_cycle_id = i, rc_matched_in_capture = hit, rc_gross_bps_drift = drift, rc_evaluator_differs = False\<rparr>"

definition day_report :: recon_report_v1 where
  "day_report = \<lparr>rw_schema = ''recon_report.v1'', rw_report_id = ''r'', rw_bot_run_id = ''b'', rw_captured_at_unix_ms = 0,
    rw_reconciled_at_unix_ms = 0, rw_cycles = [day_entry id0 30 True, day_entry id1 999 True, day_entry id0 (- 12) False]\<rparr>"

definition day_lib :: warehouse_lib where
  "day_lib = sample_lib\<lparr>wl_parse_cycle := (\<lambda>_. Some (sample_cycle id0))\<rparr>"

definition day_env :: daily_env where
  "day_env = \<lparr>de_reports = Some [\<lparr>wf_is_jsonl = False, wf_lines = None\<rparr>, \<lparr>wf_is_jsonl = True, wf_lines = Some [Some [], Some ''r'']\<rparr>],
    de_parse_report = (\<lambda>_. Some day_report), de_row_json = (\<lambda>_. Some ''row''), de_cycles_ok = True, de_now_ms = 0,
    de_mkdir_ok = True, de_create_ok = True, de_stops = None, de_rename_ok = True\<rparr>"

definition day_store :: warehouse where
  "day_store = empty_warehouse\<lparr>wh_cycles := [''d'' \<mapsto> ''x'' @ [newline]]\<rparr>"


end
