(* ===== verification/RustText.thy ===== *)
theory RustText
  imports Amount
begin

text \<open>
  What the binaries use of Rust's strings: lower case, the parsers of integers, and the environment variables.
\<close>

type_synonym env_vars = "string \<rightharpoonup> string"

definition to_ascii_lowercase :: "string \<Rightarrow> string" where
  "to_ascii_lowercase s = map (\<lambda>c. if 65 \<le> (of_char c :: nat) \<and> (of_char c :: nat) \<le> 90 then char_of (of_char c + (32 :: nat)) else c) s"

lemma lowercase_Nil [simp]: "to_ascii_lowercase [] = []"
  by (simp add: to_ascii_lowercase_def)

text \<open>The digits of a number, and their value.\<close>

definition digits_value :: "string \<Rightarrow> nat option" where
  "digits_value ds =
    (if ds = [] \<or> \<not> list_all (\<lambda>c. 48 \<le> (of_char c :: nat) \<and> (of_char c :: nat) \<le> 57) ds then None
     else Some (foldl (\<lambda>n c. 10 * n + (of_char c - 48)) 0 ds))"

text \<open>\<^verbatim>\<open>str::parse\<close> of an unsigned integer: an optional plus sign and at least one digit, within the width.\<close>

definition parse_unsigned :: "nat \<Rightarrow> string \<Rightarrow> nat option" where
  "parse_unsigned width s =
    (case digits_value (case s of [] \<Rightarrow> [] | c # cs \<Rightarrow> if c = CHR ''+'' then cs else s) of
       None \<Rightarrow> None
     | Some n \<Rightarrow> if n < 2 ^ width then Some n else None)"

definition parse_u64 :: "string \<Rightarrow> u64 option" where
  "parse_u64 s = map_option of_nat (parse_unsigned 64 s)"

definition parse_u32 :: "string \<Rightarrow> u32 option" where
  "parse_u32 s = map_option of_nat (parse_unsigned 32 s)"

text \<open>A signed integer may have either sign.\<close>

definition parse_i32 :: "string \<Rightarrow> i32 option" where
  "parse_i32 s =
    (case s of
       [] \<Rightarrow> None
     | c # cs \<Rightarrow>
         (case (if c = CHR ''-'' then map_option (\<lambda>n. - int n) (digits_value cs)
             else map_option int (digits_value (if c = CHR ''+'' then cs else s))) of
            None \<Rightarrow> None
          | Some v \<Rightarrow> if in_range 32 v then Some v else None))"

text \<open>The number a variable holds, or a default where it is not set or holds no number.\<close>

definition var_u64 :: "env_vars \<Rightarrow> string \<Rightarrow> u64 \<Rightarrow> u64" where
  "var_u64 vars name d = (case Option.bind (vars name) parse_u64 of Some v \<Rightarrow> v | None \<Rightarrow> d)"

end
