(* ===== verification/LiveBoot.thy ===== *)
theory LiveBoot
  imports Cap Live RustText
begin

text \<open>
  How \<^verbatim>\<open>dl-app run\<close> starts (\<^verbatim>\<open>run_run_subcommand\<close> and \<^verbatim>\<open>run_live_submit\<close> of \<^verbatim>\<open>dl-app/src/main.rs\<close>): the flags,
  the mode gate of \<^verbatim>\<open>dl-signer/src/livemode.rs\<close>, and the safety modules of the live path up to the point where
  cycles would be submitted. Keys, addresses and the clients are arguments; funding the vault, whose result is
  only printed, is left out.
\<close>

section \<open>The mode\<close>

datatype live_mode = Refused | Devnet | MainnetPaper | Mainnet

datatype live_mode_error = ModeEmpty | ModeInvalid string

definition live_mode_from_str :: "string \<Rightarrow> (live_mode, live_mode_error) res" where
  "live_mode_from_str s =
    (if s = [] then Err ModeEmpty
     else let l = to_ascii_lowercase s in
       if l = ''devnet'' then Ok Devnet
       else if l \<in> {''mainnet-paper'', ''mainnet_paper''} then Ok MainnetPaper
       else if l = ''mainnet'' then Ok Mainnet
       else Err (ModeInvalid s))"

definition MAINNET_PAPER_DAILY_CAP_LAMPORTS :: u64 where
  "MAINNET_PAPER_DAILY_CAP_LAMPORTS = 1000000"

record resolved_live_mode =
  rm_mode :: live_mode
  rm_daily_cap_lamports :: u64
  rm_per_bundle_cap_lamports :: u64

definition mode_from_env :: "env_vars \<Rightarrow> (resolved_live_mode, live_mode_error) res" where
  "mode_from_env vars =
    bind_res (case vars ''DL_LIVE_MODE'' of Some s \<Rightarrow> live_mode_from_str s | None \<Rightarrow> Ok Refused) (\<lambda>mode.
    let per_bundle = var_u64 vars ''DL_PER_BUNDLE_CAP_LAMPORTS'' 500000000;
        daily = (case mode of
            MainnetPaper \<Rightarrow> MAINNET_PAPER_DAILY_CAP_LAMPORTS
          | _ \<Rightarrow> var_u64 vars ''DL_DAILY_CAP_LAMPORTS'' 5000000000)
    in Ok \<lparr>rm_mode = mode, rm_daily_cap_lamports = daily, rm_per_bundle_cap_lamports = per_bundle\<rparr>)"

definition refuses :: "resolved_live_mode \<Rightarrow> bool" where
  "refuses m \<longleftrightarrow> rm_mode m = Refused"

section \<open>The flags\<close>

record run_opts =
  ru_feed_kind :: string
  ru_wallet :: "string option"
  ru_dry_run_live :: bool
  ru_shutdown_after_n :: u64
  ru_enable_profiling :: bool
  ru_metrics_port :: u16
  ru_capture_path :: "string option"
  ru_ws_url :: "string option"
  ru_submit_live :: bool
  ru_keyfile :: "string option"
  ru_assert_program_id :: "string option"
  ru_jito_tip_account :: "string option"
  ru_daily_cap :: "u64 option"
  ru_simulate_rpc_url :: "string option"

definition run_defaults :: run_opts where
  "run_defaults = \<lparr>ru_feed_kind = ''capture'', ru_wallet = None, ru_dry_run_live = False, ru_shutdown_after_n = 0,
    ru_enable_profiling = False, ru_metrics_port = 9090, ru_capture_path = None, ru_ws_url = None, ru_submit_live = False,
    ru_keyfile = None, ru_assert_program_id = None, ru_jito_tip_account = None, ru_daily_cap = None, ru_simulate_rpc_url = None\<rparr>"

text \<open>A flag without its value is passed over, as is an argument that is no flag. The amount of \<^verbatim>\<open>--daily-cap-sol\<close>, a
  float, comes as the lamports it is cast to.\<close>

definition keep_or :: "'a option \<Rightarrow> 'a \<Rightarrow> 'a" where
  "keep_or v d = (case v of Some x \<Rightarrow> x | None \<Rightarrow> d)"

fun run_flags :: "(string \<Rightarrow> u64 option) \<Rightarrow> string list \<Rightarrow> run_opts \<Rightarrow> run_opts" where
  "run_flags sol [] o' = o'"
| "run_flags sol (a # rest) o' =
    (let v = (case rest of [] \<Rightarrow> None | x # _ \<Rightarrow> Some x);
         skip = drop 1 rest in
     if a = ''--feed'' then run_flags sol skip (o'\<lparr>ru_feed_kind := keep_or v (ru_feed_kind o')\<rparr>)
     else if a = ''--dry-run-live'' then run_flags sol rest (o'\<lparr>ru_dry_run_live := True\<rparr>)
     else if a = ''--shutdown-after-n'' then
       run_flags sol skip (o'\<lparr>ru_shutdown_after_n := keep_or (Option.bind v parse_u64) (ru_shutdown_after_n o')\<rparr>)
     else if a = ''--enable-profiling'' then run_flags sol rest (o'\<lparr>ru_enable_profiling := True\<rparr>)
     else if a = ''--metrics-port'' then
       run_flags sol skip (o'\<lparr>ru_metrics_port := keep_or (map_option of_nat (Option.bind v (parse_unsigned 16))) (ru_metrics_port o')\<rparr>)
     else if a = ''--capture'' then run_flags sol skip (o'\<lparr>ru_capture_path := v\<rparr>)
     else if a = ''--ws-url'' then run_flags sol skip (o'\<lparr>ru_ws_url := v\<rparr>)
     else if a = ''--wallet'' then run_flags sol skip (o'\<lparr>ru_wallet := v\<rparr>)
     else if a = ''--submit-live'' then run_flags sol rest (o'\<lparr>ru_submit_live := True\<rparr>)
     else if a = ''--keyfile'' then run_flags sol skip (o'\<lparr>ru_keyfile := v\<rparr>)
     else if a = ''--assert-program-id'' then run_flags sol skip (o'\<lparr>ru_assert_program_id := v\<rparr>)
     else if a = ''--jito-tip-account'' then run_flags sol skip (o'\<lparr>ru_jito_tip_account := v\<rparr>)
     else if a = ''--daily-cap-sol'' then
       run_flags sol skip (case Option.bind v sol of Some n \<Rightarrow> o'\<lparr>ru_daily_cap := Some n\<rparr> | None \<Rightarrow> o')
     else if a = ''--simulate-rpc-url'' then run_flags sol skip (o'\<lparr>ru_simulate_rpc_url := v\<rparr>)
     else run_flags sol rest o')"

section \<open>Starting\<close>

text \<open>What the start meets: keys and addresses, the tip accounts of the block engine, the clock, the snapshot codec,
  and the files of prices and niches.\<close>

record boot_env =
  bo_sol :: "string \<Rightarrow> u64 option"
  bo_pubkey :: "string \<Rightarrow> pubkey option"
  bo_unlock :: "string \<Rightarrow> string \<Rightarrow> pubkey option"
  bo_populate_ok :: bool
  bo_next_tip :: "string option"
  bo_today :: naive_date
  bo_to_json :: "cap_snapshot \<Rightarrow> u8 list"
  bo_from_json :: "u8 list \<Rightarrow> cap_snapshot option"
  bo_feeds :: "pubkey \<rightharpoonup> pubkey"
  bo_niches :: "string \<Rightarrow> niche_config option"
  bo_blockhash :: hash
  bo_exists :: "string \<Rightarrow> bool"

text \<open>The parts of a started live path, and the daily cap it announces.\<close>

record live_boot =
  lb_signer :: pubkey
  lb_cap :: cap_state
  lb_killswitch :: kill_switch
  lb_config :: live_config
  lb_announced_cap :: u64

datatype run_outcome =
    RunExit nat
  | RunLive live_boot
  | RunCapture string
  | RunPaper string
  | RunUnsupported

definition run_live_submit ::
    "boot_env \<Rightarrow> env_vars \<Rightarrow> run_opts \<Rightarrow> string option \<Rightarrow> resolved_live_mode \<Rightarrow> (string \<Rightarrow> snapshot_fs) \<Rightarrow>
      run_outcome \<times> (string \<Rightarrow> snapshot_fs)" where
  "run_live_submit env vars o' simulate_rpc mode disk =
    (case ru_keyfile o' of
       None \<Rightarrow> (RunExit 2, disk)
     | Some keyfile \<Rightarrow>
     (case Option.bind (ru_assert_program_id o') (bo_pubkey env) of
       None \<Rightarrow> (RunExit 2, disk)
     | Some assert_pid \<Rightarrow>
     (case Option.bind (vars ''DL_SIGNER_PASSPHRASE'') (bo_unlock env keyfile) of
       None \<Rightarrow> (RunExit 2, disk)
     | Some signer \<Rightarrow>
     if \<not> bo_populate_ok env then (RunExit 2, disk)
     else
     (case Option.bind (case ru_jito_tip_account o' of Some s \<Rightarrow> Some s | None \<Rightarrow> bo_next_tip env) (bo_pubkey env) of
       None \<Rightarrow> (RunExit 2, disk)
     | Some tip_account \<Rightarrow>
         let path = keep_or (vars ''DL_CAP_SNAPSHOT'') ''./dl-signer-cap-snapshot.json'' in
         (case load_or_init (bo_to_json env) (bo_from_json env) (bo_today env) cap_config_default (disk path) of
            (Ok cap, files) \<Rightarrow>
              (RunLive \<lparr>lb_signer = signer, lb_cap = cap, lb_killswitch = killswitch_new DEFAULT_MAX_LOSSES,
                 lb_config = \<lparr>lc_assert_program_id = assert_pid, lc_tip_config = tip_config_default,
                   lc_simulate = (simulate_rpc \<noteq> None), lc_tip_account = tip_account, lc_recent_blockhash = bo_blockhash env,
                   lc_pyth = False, lc_pyth_feeds = bo_feeds env,
                   lc_pyth_max_age_secs = var_u64 vars ''DL_PYTH_MAX_AGE_SECS'' MAX_PYTH_AGE_SECS,
                   lc_niche_config = Option.bind (vars ''DL_NICHES_IN'') (bo_niches env)\<rparr>,
                 lb_announced_cap = rm_daily_cap_lamports mode\<rparr>, disk(path := files))
          | (_, files) \<Rightarrow> (RunExit 2, disk(path := files)))))))"

text \<open>The override of the daily cap is written to the environment, after the mode has been read from it.\<close>

definition override_daily_cap :: "resolved_live_mode \<Rightarrow> u64 option \<Rightarrow> env_vars \<Rightarrow> env_vars" where
  "override_daily_cap mode flag vars =
    (case flag of
       None \<Rightarrow> vars
     | Some lamports \<Rightarrow>
         if rm_mode mode = MainnetPaper \<or> 100 * 1000000000 < lamports then vars
         else vars(''DL_DAILY_CAP_LAMPORTS'' \<mapsto> dec_string (unat lamports)))"

definition run_subcommand ::
    "boot_env \<Rightarrow> env_vars \<Rightarrow> string list \<Rightarrow> (string \<Rightarrow> snapshot_fs) \<Rightarrow> run_outcome \<times> (string \<Rightarrow> snapshot_fs)" where
  "run_subcommand env vars args disk =
    (let o' = run_flags (bo_sol env) args run_defaults in
     case mode_from_env vars of
       Ok mode \<Rightarrow>
         if refuses mode then (RunExit 0, disk)
         else
           let vars' = override_daily_cap mode (ru_daily_cap o') vars;
               simulate_rpc = (case ru_simulate_rpc_url o' of Some u \<Rightarrow> Some u | None \<Rightarrow> vars' ''DL_SIMULATE_RPC_URL'') in
           if ru_submit_live o' then run_live_submit env vars' o' simulate_rpc mode disk
           else if ru_feed_kind o' = ''capture'' \<and> ru_capture_path o' \<noteq> None then
             (if bo_exists env (the (ru_capture_path o')) then RunCapture (the (ru_capture_path o')) else RunExit 1, disk)
           else if ru_feed_kind o' = ''live'' then (RunPaper (keep_or (ru_wallet o') ''./wallet.json''), disk)
           else (RunUnsupported, disk)
     | _ \<Rightarrow> (RunExit 2, disk))"

section \<open>The gate\<close>

definition opted_in :: "string \<Rightarrow> bool" where
  "opted_in s \<longleftrightarrow> to_ascii_lowercase s \<in> {''devnet'', ''mainnet-paper'', ''mainnet_paper'', ''mainnet''}"

definition paper_mode :: "string \<Rightarrow> bool" where
  "paper_mode s \<longleftrightarrow> to_ascii_lowercase s \<in> {''mainnet-paper'', ''mainnet_paper''}"

lemma from_str_Ok_iff:
  "live_mode_from_str s = Ok m \<longleftrightarrow>
    (m = Devnet \<and> to_ascii_lowercase s = ''devnet'') \<or> (m = MainnetPaper \<and> paper_mode s) \<or> (m = Mainnet \<and> to_ascii_lowercase s = ''mainnet'')"
  by (auto simp: live_mode_from_str_def paper_mode_def Let_def)

lemma from_str_not_opted: "\<not> opted_in s \<Longrightarrow> \<exists>e. live_mode_from_str s = Err e"
  by (auto simp: live_mode_from_str_def opted_in_def Let_def)

lemma from_str_opted:
  assumes "opted_in s"
  shows "live_mode_from_str s = Ok (if to_ascii_lowercase s = ''devnet'' then Devnet else if paper_mode s then MainnetPaper else Mainnet)"
proof -
  have "s \<noteq> []" using assms by (auto simp: opted_in_def)
  then show ?thesis using assms by (auto simp: live_mode_from_str_def opted_in_def paper_mode_def Let_def)
qed

lemma mode_from_env_Ok:
  assumes "mode_from_env vars = Ok m" and "\<not> refuses m"
  shows "\<exists>s. vars ''DL_LIVE_MODE'' = Some s \<and> opted_in s
    \<and> rm_daily_cap_lamports m = (if paper_mode s then MAINNET_PAPER_DAILY_CAP_LAMPORTS else var_u64 vars ''DL_DAILY_CAP_LAMPORTS'' 5000000000)"
proof (cases "vars ''DL_LIVE_MODE''")
  case None
  then show ?thesis using assms by (auto simp: mode_from_env_def refuses_def Let_def)
next
  case (Some s)
  then obtain mode where mode: "live_mode_from_str s = Ok mode"
    and m: "rm_daily_cap_lamports m = (case mode of MainnetPaper \<Rightarrow> MAINNET_PAPER_DAILY_CAP_LAMPORTS
      | _ \<Rightarrow> var_u64 vars ''DL_DAILY_CAP_LAMPORTS'' 5000000000)"
    using assms(1) by (cases "live_mode_from_str s") (auto simp: mode_from_env_def Let_def)
  have "opted_in s \<and> (paper_mode s \<longleftrightarrow> mode = MainnetPaper)" using mode by (auto simp: from_str_Ok_iff opted_in_def paper_mode_def)
  moreover have "mode \<noteq> Refused" using mode by (auto simp: from_str_Ok_iff)
  ultimately show ?thesis using Some m by (cases mode) simp_all
qed


section \<open>The cap of the live path\<close>

lemma live_submit_boots:
  assumes "run_live_submit env vars o' rpc mode disk = (RunLive b, disk')"
  shows "\<exists>files. load_or_init (bo_to_json env) (bo_from_json env) (bo_today env) cap_config_default
        (disk (keep_or (vars ''DL_CAP_SNAPSHOT'') ''./dl-signer-cap-snapshot.json'')) = (Ok (lb_cap b), files)
    \<and> lb_announced_cap b = rm_daily_cap_lamports mode"
  using assms by (auto simp: run_live_submit_def Let_def split: option.splits if_splits prod.splits res.splits)

lemma override_keeps [simp]: "override_daily_cap mode flag vars ''DL_CAP_SNAPSHOT'' = vars ''DL_CAP_SNAPSHOT''"
  by (auto simp: override_daily_cap_def split: option.splits)

lemma run_live_boots:
  assumes "run_subcommand env vars args disk = (RunLive b, disk')"
  shows "\<exists>m files. mode_from_env vars = Ok m \<and> \<not> refuses m \<and> lb_announced_cap b = rm_daily_cap_lamports m
    \<and> load_or_init (bo_to_json env) (bo_from_json env) (bo_today env) cap_config_default
        (disk (keep_or (vars ''DL_CAP_SNAPSHOT'') ''./dl-signer-cap-snapshot.json'')) = (Ok (lb_cap b), files)"
proof (cases "mode_from_env vars")
  case (Ok m)
  then show ?thesis using assms live_submit_boots
    by (auto simp: run_subcommand_def Let_def split: if_splits) (metis live_submit_boots override_keeps)
qed (use assms in \<open>simp_all add: run_subcommand_def Let_def\<close>)

text \<open>What is charged after \<open>n\<close> charges of the same size on the same day.\<close>

definition charged :: "naive_date \<Rightarrow> u64 \<Rightarrow> nat \<Rightarrow> cap_state \<Rightarrow> cap_state" where
  "charged today lamports n s = ((\<lambda>s. snd (try_charge today lamports s)) ^^ n) s"

definition half_sols :: "naive_date \<Rightarrow> nat \<Rightarrow> cap_state" where
  "half_sols today n = (cap_new today cap_config_default)\<lparr>spent_today := of_nat (500000000 * n)\<rparr>"

lemma charge_half_sol:
  assumes "n < 10"
  shows "try_charge today 500000000 (half_sols today n) = (Ok (), half_sols today (Suc n))"
proof -
  have n: "n \<in> {0, 1, 2, 3, 4, 5, 6, 7, 8, 9}" using assms by auto
  have spent: "unat (of_nat (500000000 * n) :: u64) = 500000000 * n" using assms by (subst unat_of_nat_fits) simp_all
  have left: "sat_sub_w 5000000000 (of_nat (500000000 * n) :: u64) = of_nat (5000000000 - 500000000 * n)"
    using n by (auto simp: sat_sub_w_def)
  have ok: "\<not> (of_nat (5000000000 - 500000000 * n) :: u64) < 500000000" using n by auto
  have new: "sat_add_w (of_nat (500000000 * n)) 500000000 = (of_nat (500000000 * Suc n) :: u64)"
    using n by (auto simp: sat_add_w_def)
  show ?thesis
    by (simp add: try_charge_def half_sols_def reset_if_new_day_def cap_new_def cap_config_default_def left ok new Let_def
        del: of_nat_mult of_nat_diff of_nat_Suc)
qed

lemma charged_default:
  "n \<le> 10 \<Longrightarrow> charged today 500000000 n (cap_new today cap_config_default) = half_sols today n"
proof (induction n)
  case 0
  show ?case by (simp add: charged_def half_sols_def cap_new_def)
next
  case (Suc n)
  then show ?case using charge_half_sol [of n today] by (simp add: charged_def)
qed

lemma ten_half_sols:
  "n < 10 \<Longrightarrow> fst (try_charge today 500000000 (charged today 500000000 n (cap_new today cap_config_default))) = Ok ()"
  by (simp add: charged_default charge_half_sol)


definition boot_sample :: boot_env where
  "boot_sample = \<lparr>bo_sol = (\<lambda>_. None), bo_pubkey = (\<lambda>s. Some (Pubkey (map of_char s))), bo_unlock = (\<lambda>_ _. Some (Pubkey [])),
    bo_populate_ok = True, bo_next_tip = Some ''tip'', bo_today = 1, bo_to_json = (\<lambda>_. []), bo_from_json = (\<lambda>_. None),
    bo_feeds = Map.empty, bo_niches = (\<lambda>_. None), bo_blockhash = [], bo_exists = (\<lambda>_. True)\<rparr>"

definition paper_vars :: env_vars where
  "paper_vars = [''DL_LIVE_MODE'' \<mapsto> ''Mainnet-Paper'', ''DL_SIGNER_PASSPHRASE'' \<mapsto> ''x'', ''DL_DAILY_CAP_LAMPORTS'' \<mapsto> ''7'']"

definition boot_args :: "string list" where
  "boot_args = [''--submit-live'', ''--keyfile'', ''k'', ''--assert-program-id'', ''p'']"

lemma boot_flags: "run_flags sol boot_args run_defaults
    = run_defaults\<lparr>ru_submit_live := True, ru_keyfile := Some ''k'', ru_assert_program_id := Some ''p''\<rparr>"
  by (simp add: boot_args_def run_defaults_def)

lemma paper_vars_mode: "mode_from_env paper_vars = Ok \<lparr>rm_mode = MainnetPaper, rm_daily_cap_lamports = 1000000, rm_per_bundle_cap_lamports = 500000000\<rparr>"
proof -
  have "to_ascii_lowercase ''Mainnet-Paper'' = ''mainnet-paper''" by code_simp
  then have "live_mode_from_str ''Mainnet-Paper'' = Ok MainnetPaper" by (simp add: live_mode_from_str_def)
  then show ?thesis by (simp add: mode_from_env_def paper_vars_def var_u64_def MAINNET_PAPER_DAILY_CAP_LAMPORTS_def)
qed


end
