(* ===== verification/ReconCommand.thy ===== *)
theory ReconCommand
  imports PaperReconcile
begin

text \<open>
  \<^verbatim>\<open>dl-app recon\<close> (\<^verbatim>\<open>dl-app/src/recon.rs\<close>): a capture file is replayed, the report is written as JSON and compared
  with the anchors, with or without calibration, and the result is an exit status. Printing is left out; the
  codecs and the files are arguments.
\<close>

section \<open>The command line\<close>

record recon_opts =
  oc_capture_path :: "string option"
  oc_anchors_path :: "string option"
  oc_report_json :: "string option"
  oc_calibrate :: bool

fun recon_flags :: "string list \<Rightarrow> recon_opts \<Rightarrow> recon_opts cli_args" where
  "recon_flags [] o' = CliOpts o'"
| "recon_flags (a # rest) o' =
    (if a = ''--capture'' \<or> a = ''-c'' then
       (case rest of [] \<Rightarrow> CliUsage ''--capture: missing value'' | v # rest' \<Rightarrow> recon_flags rest' (o'\<lparr>oc_capture_path := Some v\<rparr>))
     else if a = ''--anchors'' \<or> a = ''-a'' then
       (case rest of [] \<Rightarrow> CliUsage ''--anchors: missing value'' | v # rest' \<Rightarrow> recon_flags rest' (o'\<lparr>oc_anchors_path := Some v\<rparr>))
     else if a = ''--report-json'' then
       (case rest of [] \<Rightarrow> CliUsage ''--report-json: missing value'' | v # rest' \<Rightarrow> recon_flags rest' (o'\<lparr>oc_report_json := Some v\<rparr>))
     else if a = ''--calibrate'' then recon_flags rest (o'\<lparr>oc_calibrate := True\<rparr>)
     else if a = ''--help'' \<or> a = ''-h'' then CliHelp
     else CliUsage (''unknown arg: '' @ a))"

definition recon_parse_args :: "string list \<Rightarrow> recon_opts cli_args" where
  "recon_parse_args args =
    (case recon_flags args \<lparr>oc_capture_path = None, oc_anchors_path = None, oc_report_json = None, oc_calibrate = False\<rparr> of
       CliOpts o' \<Rightarrow>
         if oc_capture_path o' = None then CliUsage ''--capture <path> is required''
         else if oc_anchors_path o' = None \<and> oc_report_json o' = None then
           CliUsage ''--anchors <path.jsonl> is required (or use --report-json to skip the compare step)''
         else CliOpts o'
     | r \<Rightarrow> r)"

section \<open>The run\<close>

datatype recon_failure =
    ReconBadArgs string
  | CaptureUnreadable
  | ReplayFailed recon_error
  | ReportNotWritten
  | ReconAnchors onchain_error
  | CalibrateFailed onchain_error
  | CompareFailed onchain_error

datatype recon_cli_result =
    ReconClean
  | ReconDivergences "anchor_divergence list"
  | ReconFailed recon_failure

text \<open>The files and codecs: the bytes of a capture, \<open>None\<close> where it cannot be read; whether a report can be encoded and
  written.\<close>

record recon_env =
  cv_capture :: "string \<Rightarrow> u8 list option"
  cv_ser :: "ledger_entry \<Rightarrow> u8 list option"
  cv_de :: "u8 list \<Rightarrow> feed_event option"
  cv_iter :: "pool_registry \<Rightarrow> pool list"
  cv_report_ok :: "string \<Rightarrow> bool"
  cv_lines :: "string \<Rightarrow> string option list option"
  cv_parse_anchor :: "string \<Rightarrow> anchor_entry option"

definition verdict_of :: "anchor_divergence list \<Rightarrow> recon_cli_result" where
  "verdict_of ds = (let bad = filter av_exceeds_tolerance ds in if bad = [] then ReconClean else ReconDivergences bad)"

text \<open>The comparison, with the calibration of the conservative parameters or without.\<close>

definition compare_step :: "bool \<Rightarrow> anchor_dataset \<Rightarrow> replay_report \<Rightarrow> (recon_cli_result, unit) res" where
  "compare_step calibrated dataset report =
    (if calibrated then
       (case params_conservative of
          Ok current \<Rightarrow>
            (case anchor_reconcile dataset report current of
               Ok fit \<Rightarrow> Ok (verdict_of (fit_divergences_remaining fit))
             | Err e \<Rightarrow> Ok (ReconFailed (CalibrateFailed e))
             | Panic \<Rightarrow> Panic)
        | _ \<Rightarrow> Panic)
     else
       (case anchor_compare dataset report of
          Ok ds \<Rightarrow> Ok (verdict_of ds)
        | Err e \<Rightarrow> Ok (ReconFailed (CompareFailed e))
        | Panic \<Rightarrow> Panic))"

definition anchors_step :: "recon_env \<Rightarrow> recon_opts \<Rightarrow> replay_report \<Rightarrow> (recon_cli_result, unit) res" where
  "anchors_step env o' report =
    (case oc_anchors_path o' of
       None \<Rightarrow> Ok ReconClean
     | Some anchors \<Rightarrow>
         (case load_anchors (cv_parse_anchor env) (cv_lines env anchors) of
            Ok dataset \<Rightarrow> compare_step (oc_calibrate o') dataset report
          | Err e \<Rightarrow> Ok (ReconFailed (ReconAnchors e))
          | Panic \<Rightarrow> Panic))"

text \<open>The report files by path.\<close>

definition recon_run ::
    "recon_env \<Rightarrow> recon_opts \<Rightarrow> (string \<rightharpoonup> report_on_disk) \<Rightarrow> (recon_cli_result, unit) res \<times> (string \<rightharpoonup> report_on_disk)" where
  "recon_run env o' disk =
    (case cv_capture env (the (oc_capture_path o')) of
       None \<Rightarrow> (Ok (ReconFailed CaptureUnreadable), disk)
     | Some bytes \<Rightarrow>
     (case replay_default of
       Ok params \<Rightarrow>
         (case replay_capture_to_ledger (cv_ser env) (cv_de env) (cv_iter env) (slice bytes) params of
            Err e \<Rightarrow> (Ok (ReconFailed (ReplayFailed e)), disk)
          | Panic \<Rightarrow> (Panic, disk)
          | Ok report \<Rightarrow>
              (case oc_report_json o' of
                 None \<Rightarrow> (anchors_step env o' report, disk)
               | Some path \<Rightarrow>
                   if cv_report_ok env path then (anchors_step env o' report, disk(path \<mapsto> report_to_disk report))
                   else (Ok (ReconFailed ReportNotWritten), disk)))
     | _ \<Rightarrow> (Panic, disk)))"

primrec recon_exit_code :: "recon_cli_result \<Rightarrow> nat" where
  "recon_exit_code ReconClean = 0"
| "recon_exit_code (ReconDivergences ds) = 1"
| "recon_exit_code (ReconFailed e) = 2"

text \<open>The process: its exit status and the report files it leaves.\<close>

definition recon_main ::
    "recon_env \<Rightarrow> string list \<Rightarrow> (string \<rightharpoonup> report_on_disk) \<Rightarrow> (nat, unit) res \<times> (string \<rightharpoonup> report_on_disk)" where
  "recon_main env args disk =
    (case recon_parse_args args of
       CliHelp \<Rightarrow> (Ok 0, disk)
     | CliUsage msg \<Rightarrow> (Ok (recon_exit_code (ReconFailed (ReconBadArgs msg))), disk)
     | CliOpts o' \<Rightarrow> (case recon_run env o' disk of (r, disk') \<Rightarrow> (bind_res r (\<lambda>c. Ok (recon_exit_code c)), disk')))"

section \<open>A replayed capture\<close>

lemma capture_replay_blind:
  assumes "capture_load de src = Ok (evs, Ok ())" and "list_all (tells_apart M) evs" and "length evs < 2 ^ 64"
  shows "pools_from_feed evs = Ok ([], of_nat (length evs))
    \<and> replay_capture_to_ledger ser de iter src params
      = bind_res (replay_pools_to_ledger ser iter [] params) (\<lambda>report. Ok (report\<lparr>rr_feed_events_consumed := 0\<rparr>))"
proof -
  have pools: "pools_from_feed evs = Ok ([], of_nat (length evs))"
    unfolding pools_from_feed_def using pools_loop_apart [OF assms(2), of "[]" "[]" 0 "[]"] assms(3)
    by (simp add: caches_apart_def)
  obtain feed where feed: "capture_open src = Ok feed" "capture_replay de feed = (evs, Ok ())"
    using assms(1) by (auto simp: capture_load_def bind_res_Ok_iff)
  show ?thesis by (simp add: replay_capture_to_ledger_def feed pools)
qed

text \<open>The report of no cycles.\<close>

definition blind :: "replay_report \<Rightarrow> bool" where
  "blind r \<longleftrightarrow> rr_cycle_records r = [] \<and> (\<forall>n. engine_aggregate r n = Ok 0)"

lemma replay_nothing:
  assumes "iterates iter (registry_of [])"
  shows "\<exists>report. replay_pools_to_ledger ser iter [] params = Ok report \<and> blind (report\<lparr>rr_feed_events_consumed := 0\<rparr>)
    \<and> (\<forall>rec\<in>set (rr_cycle_records report). from_new (cr_cycle rec)) \<and> rr_divergences report = []
    \<and> summary_from_entries (map cr_entry (rr_cycle_records report)) = Ok (rr_summary report)"
proof -
  have none: "iter (registry_of []) = []" using assms by (simp add: iterates_def registry_of_def registry_new_def)
  obtain report where r: "replay_pools_to_ledger ser iter [] params = Ok report" "rr_cycle_records report = []"
    using replay_no_pools [OF assms] by blast
  have sum: "ls_would_trade (rr_summary report) = 0" "ls_median (rr_summary report) = 0" "ls_p95 (rr_summary report) = 0"
    "ls_total (rr_summary report) = 0" "rr_total_tip_lamports report = 0"
    using r(1) by (auto simp: replay_pools_to_ledger_def build_from_pools_def none ledger_summary_exact trades_def)
  have "engine_aggregate (report\<lparr>rr_feed_events_consumed := 0\<rparr>) n = Ok 0" for n
    by (cases n) (simp_all add: engine_aggregate_def sum unsigned_abs_128_def)
  then show ?thesis using r replay_records_new [OF r(1)] by (auto simp: blind_def)
qed

lemma replay_default_Ok: "\<exists>params. replay_default = Ok params"
proof -
  have "min 700000 PPM_ONE = 700000" by (simp add: PPM_ONE_def)
  then obtain p where "unwrap_or (from_ppm 700000) prob_ONE = (Ok p :: (prob, sim_error) res)"
    using unwrap_from_ppm [of 700000 prob_ONE] by auto
  then show ?thesis by (simp add: replay_default_def params_conservative_def)
qed

lemma blind_compare:
  assumes "\<forall>n. engine_aggregate r n = Ok 0" and "\<forall>e\<in>set es. unat (ae_value e) < 2 ^ 113"
  shows "\<exists>ds. compare_entries r es = Ok ds \<and> (filter av_exceeds_tolerance ds = [] \<longleftrightarrow> (\<forall>e\<in>set es. ae_value e = 0))"
  using assms(2)
proof (induction es)
  case (Cons e es)
  let ?tol = "tolerance_bps (ae_name e)"
  obtain d where d: "compute_divergence (ae_name e) 0 (ae_value e) ?tol = Ok d"
      "av_exceeds_tolerance d \<longleftrightarrow> off_by_more (unat ?tol) 0 (unat (ae_value e))"
    using compute_divergence_exact [of 0 "ae_value e" "ae_name e" ?tol] Cons.prems by auto
  have tol: "unat ?tol \<le> 2000" by (cases "ae_name e") simp_all
  have "off_by_more (unat ?tol) 0 (unat (ae_value e)) \<longleftrightarrow> ae_value e \<noteq> 0"
  proof (cases "ae_value e = 0")
    case False
    have "(int (unat ?tol) + 1) * int (unat (ae_value e)) \<le> 10000 * int (unat (ae_value e))"
    proof (rule mult_right_mono)
      show "int (unat ?tol) + 1 \<le> 10000" using tol by linarith
    qed simp
    then show ?thesis using False by (simp add: off_by_more_def unat_eq_0 del: of_nat_unat)
  qed (simp add: off_by_more_def)
  then show ?case using Cons.IH Cons.prems d by (auto simp: assms(1))
qed simp


lemma blob_capture_loads:
  "capture_load blob_de (slice (capture_header @ capture.contents blob_ser [amm_event, vault_event])) = Ok ([amm_event, vault_event], Ok ())"
proof -
  let ?evs = "[amm_event, vault_event]"
  have "amm_event \<noteq> vault_event"
    by (simp add: amm_event_def vault_event_def numeral_eq_Suc)
  then have codec: "list_all (codec_ok blob_ser blob_de (2 ^ 32 - 1)) ?evs"
    by (simp add: codec_ok_def blob_ser_def blob_de_def)
  have len: "length (capture.contents blob_ser ?evs) < 2 ^ 64 - 1"
    by (simp add: written_as_def blob_ser_def frame_def)
  have "fst (frames_of blob_de (capture.contents blob_ser ?evs)) = ?evs"
    using capture.parse_file [OF codec len, of 0] capture_parse_frames [OF len, of 0 blob_de] by (simp only: prod.inject)
  then show ?thesis using capture_load_frames [OF sound_slice flat_slice len, of blob_de] by simp
qed

lemma blob_events_apart: "list_all (tells_apart {Pubkey (replicate 32 0)}) [amm_event, vault_event]"
  using amm_blob_decodes
  by (auto simp: tells_apart_def amm_event_def vault_event_def AMM_INFO_SIZE_def SPL_TOKEN_ACCOUNT_SIZE_def
      decode_spl_token_account_def bytes_at_def amm_blob_def)

definition blob_env :: "u128 \<Rightarrow> recon_env" where
  "blob_env v = \<lparr>cv_capture = (\<lambda>_. Some (capture_header @ capture.contents blob_ser [amm_event, vault_event])), cv_ser = sample_ser,
    cv_de = blob_de, cv_iter = (\<lambda>_. []), cv_report_ok = (\<lambda>_. True), cv_lines = (\<lambda>_. Some [Some ''x'']),
    cv_parse_anchor = (\<lambda>_. Some (sample_anchor AttemptCount v))\<rparr>"


end
