(* ===== verification/Metrics.thy ===== *)
theory Metrics
  imports Live Amount
begin

text \<open>
  The metrics of \<^verbatim>\<open>dl-app\<close>: counters, gauges and histograms of a registry with its sinks (\<^verbatim>\<open>metrics.rs\<close>), their text
  for Prometheus (\<^verbatim>\<open>metrics_prom.rs\<close>), the adapter of the live counters (\<^verbatim>\<open>live_metrics.rs\<close>) and the ring of landing
  latencies (\<^verbatim>\<open>dl-executor/src/metrics.rs\<close>). The order of a hash map and everything in floating point are
  arguments.
\<close>

section \<open>Histograms\<close>

definition MAX_BUCKETS :: nat where
  "MAX_BUCKETS = 12"

record histogram =
  hi_count :: u64
  hi_sum :: u64
  hi_buckets :: "u64 list"

definition metric_histogram_new :: histogram where
  "metric_histogram_new = \<lparr>hi_count = 0, hi_sum = 0, hi_buckets = replicate MAX_BUCKETS 0\<rparr>"

text \<open>\<^verbatim>\<open>u64::leading_zeros\<close>.\<close>

definition leading_zeros :: "u64 \<Rightarrow> nat" where
  "leading_zeros v = 64 - bit_length (unat v)"

definition bucket_index :: "u64 \<Rightarrow> nat" where
  "bucket_index v =
    (if v = 0 then 0
     else let bit = 63 - leading_zeros v in
       if MAX_BUCKETS - 1 \<le> bit then MAX_BUCKETS - 1 else bit + 1)"

definition histogram_observe :: "u64 \<Rightarrow> histogram \<Rightarrow> histogram" where
  "histogram_observe v h =
    (let b = bucket_index v in
     h\<lparr>hi_count := sat_add_w (hi_count h) 1, hi_sum := sat_add_w (hi_sum h) v,
       hi_buckets := (hi_buckets h)[b := sat_add_w (hi_buckets h ! b) 1]\<rparr>)"

section \<open>The registry\<close>

datatype metric_event =
    CounterPublished string u64
  | GaugePublished string u64
  | HistogramObserved string u64 u64 "u64 list"
  | SinkFlushed

text \<open>The handles of a name share its value, so the registry holds the values; a sink is what it was told.\<close>

record metrics_registry =
  mr_counters :: "string \<rightharpoonup> u64"
  mr_gauges :: "string \<rightharpoonup> u64"
  mr_histograms :: "string \<rightharpoonup> histogram"
  mr_sinks :: "metric_event list list"

definition metrics_registry_new :: metrics_registry where
  "metrics_registry_new = \<lparr>mr_counters = Map.empty, mr_gauges = Map.empty, mr_histograms = Map.empty, mr_sinks = []\<rparr>"

definition add_sink :: "metrics_registry \<Rightarrow> metrics_registry" where
  "add_sink r = r\<lparr>mr_sinks := mr_sinks r @ [[]]\<rparr>"

definition emit :: "metric_event \<Rightarrow> metrics_registry \<Rightarrow> metrics_registry" where
  "emit e r = r\<lparr>mr_sinks := map (\<lambda>log. log @ [e]) (mr_sinks r)\<rparr>"

definition registry_counter :: "string \<Rightarrow> metrics_registry \<Rightarrow> metrics_registry" where
  "registry_counter n r = (case mr_counters r n of Some _ \<Rightarrow> r | None \<Rightarrow> r\<lparr>mr_counters := (mr_counters r)(n \<mapsto> 0)\<rparr>)"

definition registry_gauge :: "string \<Rightarrow> metrics_registry \<Rightarrow> metrics_registry" where
  "registry_gauge n r = (case mr_gauges r n of Some _ \<Rightarrow> r | None \<Rightarrow> r\<lparr>mr_gauges := (mr_gauges r)(n \<mapsto> 0)\<rparr>)"

definition registry_histogram :: "string \<Rightarrow> metrics_registry \<Rightarrow> metrics_registry" where
  "registry_histogram n r =
    (case mr_histograms r n of Some _ \<Rightarrow> r | None \<Rightarrow> r\<lparr>mr_histograms := (mr_histograms r)(n \<mapsto> metric_histogram_new)\<rparr>)"

definition counter_value :: "string \<Rightarrow> metrics_registry \<Rightarrow> u64" where
  "counter_value n r = (case mr_counters r n of Some v \<Rightarrow> v | None \<Rightarrow> 0)"

definition gauge_value :: "string \<Rightarrow> metrics_registry \<Rightarrow> u64" where
  "gauge_value n r = (case mr_gauges r n of Some v \<Rightarrow> v | None \<Rightarrow> 0)"

definition histogram_value :: "string \<Rightarrow> metrics_registry \<Rightarrow> histogram" where
  "histogram_value n r = (case mr_histograms r n of Some h \<Rightarrow> h | None \<Rightarrow> metric_histogram_new)"

text \<open>The atomics wrap.\<close>

definition counter_add :: "string \<Rightarrow> u64 \<Rightarrow> metrics_registry \<Rightarrow> metrics_registry" where
  "counter_add n k r =
    (let v = counter_value n r + k in emit (CounterPublished n v) (r\<lparr>mr_counters := (mr_counters r)(n \<mapsto> v)\<rparr>))"

definition gauge_set :: "string \<Rightarrow> u64 \<Rightarrow> metrics_registry \<Rightarrow> metrics_registry" where
  "gauge_set n v r = emit (GaugePublished n v) (r\<lparr>mr_gauges := (mr_gauges r)(n \<mapsto> v)\<rparr>)"

definition registry_observe :: "string \<Rightarrow> u64 \<Rightarrow> metrics_registry \<Rightarrow> metrics_registry" where
  "registry_observe n v r =
    (let h = histogram_observe v (histogram_value n r) in
     emit (HistogramObserved n (hi_sum h) (hi_count h) (hi_buckets h)) (r\<lparr>mr_histograms := (mr_histograms r)(n \<mapsto> h)\<rparr>))"

definition registry_flush :: "metrics_registry \<Rightarrow> metrics_registry" where
  "registry_flush r = emit SinkFlushed r"

record metrics_snapshot =
  ms_counters :: "(string \<times> u64) list"
  ms_gauges :: "(string \<times> u64) list"
  ms_histograms :: "(string \<times> u64 list) list"

text \<open>The names in the order their maps give them.\<close>

definition registry_snapshot :: "string list \<Rightarrow> string list \<Rightarrow> string list \<Rightarrow> metrics_registry \<Rightarrow> metrics_snapshot" where
  "registry_snapshot cs gs hs r =
    \<lparr>ms_counters = map (\<lambda>n. (n, counter_value n r)) cs, ms_gauges = map (\<lambda>n. (n, gauge_value n r)) gs,
     ms_histograms = map (\<lambda>n. (n, hi_buckets (histogram_value n r))) hs\<rparr>"

section \<open>The text for Prometheus\<close>

definition quoted :: "string \<Rightarrow> string" where
  "quoted s = CHR 0x22 # s @ [CHR 0x22]"

definition dec_u64 :: "u64 \<Rightarrow> string" where
  "dec_u64 v = dec_string (unat v)"

definition scalar_lines :: "string \<Rightarrow> string \<times> u64 \<Rightarrow> string list" where
  "scalar_lines ty nv = (case nv of (n, v) \<Rightarrow>
    [''# HELP '' @ n @ '' '' @ ty, ''# TYPE '' @ n @ '' '' @ ty, n @ '' '' @ dec_u64 v])"

fun bucket_lines :: "string \<Rightarrow> nat \<Rightarrow> nat \<Rightarrow> u64 \<Rightarrow> u64 list \<Rightarrow> string list" where
  "bucket_lines n num i cumulative [] = []"
| "bucket_lines n num i cumulative (c # cs) =
    (let cum = sat_add_w cumulative c;
         bound = (if i + 1 = num then ''+Inf'' else dec_string (2 ^ i))
     in (n @ ''_bucket{le='' @ quoted bound @ ''} '' @ dec_u64 cum) # bucket_lines n num (i + 1) cum cs)"

fun sum_u64 :: "u64 \<Rightarrow> u64 list \<Rightarrow> (u64, unit) res" where
  "sum_u64 a [] = Ok a"
| "sum_u64 a (c # cs) = bind_res (add_p a c) (\<lambda>a'. sum_u64 a' cs)"

definition histogram_lines :: "string \<times> u64 list \<Rightarrow> (string list, unit) res" where
  "histogram_lines nb = (case nb of (n, buckets) \<Rightarrow>
    bind_res (sum_u64 0 buckets) (\<lambda>s.
    Ok ([''# HELP '' @ n @ '' histogram'', ''# TYPE '' @ n @ '' histogram'']
      @ bucket_lines n (length buckets) 0 0 buckets
      @ [n @ ''_sum '' @ dec_u64 s, n @ ''_count '' @ dec_u64 s])))"

fun all_histogram_lines :: "(string \<times> u64 list) list \<Rightarrow> (string list, unit) res" where
  "all_histogram_lines [] = Ok []"
| "all_histogram_lines (h # hs) =
    bind_res (histogram_lines h) (\<lambda>ls. bind_res (all_histogram_lines hs) (\<lambda>rest. Ok (ls @ rest)))"

definition render_snapshot :: "metrics_snapshot \<Rightarrow> (string, unit) res" where
  "render_snapshot s =
    bind_res (all_histogram_lines (ms_histograms s)) (\<lambda>hist.
    Ok (concat (map (\<lambda>l. l @ [char_of (10 :: nat)])
      (concat (map (scalar_lines ''counter'') (ms_counters s)) @ concat (map (scalar_lines ''gauge'') (ms_gauges s)) @ hist))))"

section \<open>The adapter of the live counters\<close>

definition pnl_add :: "i64 \<Rightarrow> i64 \<Rightarrow> i64" where
  "pnl_add cur delta = clamp_i 64 (cur + delta)"

record live_adapter =
  la_last_submitted :: u64
  la_last_landed :: u64

definition live_adapter_new :: "metrics_registry \<Rightarrow> live_adapter \<times> metrics_registry" where
  "live_adapter_new r =
    (\<lparr>la_last_submitted = 0, la_last_landed = 0\<rparr>,
     registry_gauge ''dl_realized_pnl_sol'' (registry_gauge ''dl_daily_cap_remaining_lamports''
       (registry_counter ''dl_jito_landed_total'' (registry_counter ''dl_jito_submit_total'' r))))"

text \<open>What one poll reads: the two counters of the live path, the cap and the bits of the profit in SOL.\<close>

record live_source =
  ls_submitted :: u64
  ls_landed :: u64
  ls_cap :: cap_state
  ls_pnl_bits :: u64

definition add_growth :: "string \<Rightarrow> u64 \<Rightarrow> u64 \<Rightarrow> metrics_registry \<Rightarrow> metrics_registry" where
  "add_growth n prev cur r = (if prev < cur then counter_add n (cur - prev) r else r)"

definition live_adapter_poll :: "live_source \<Rightarrow> live_adapter \<times> metrics_registry \<Rightarrow> live_adapter \<times> metrics_registry" where
  "live_adapter_poll src ar = (case ar of (a, r) \<Rightarrow>
    let r1 = add_growth ''dl_jito_submit_total'' (la_last_submitted a) (ls_submitted src) r;
        r2 = add_growth ''dl_jito_landed_total'' (la_last_landed a) (ls_landed src) r1;
        r3 = gauge_set ''dl_daily_cap_remaining_lamports'' (cap_remaining (ls_cap src)) r2
    in (\<lparr>la_last_submitted = ls_submitted src, la_last_landed = ls_landed src\<rparr>,
        gauge_set ''dl_realized_pnl_sol'' (ls_pnl_bits src) r3))"

section \<open>The ring of landing latencies\<close>

definition LANDING_LATENCY_CAPACITY :: nat where
  "LANDING_LATENCY_CAPACITY = 512"

record landing_ring =
  lr_samples :: "u64 list"
  lr_total :: u64
  lr_latest :: u64

definition landing_ring_new :: landing_ring where
  "landing_ring_new = \<lparr>lr_samples = [], lr_total = 0, lr_latest = 0\<rparr>"

definition record_landing_latency_ms :: "u64 \<Rightarrow> landing_ring \<Rightarrow> landing_ring" where
  "record_landing_latency_ms ms ring =
    ring\<lparr>lr_latest := ms, lr_total := sat_add_w (lr_total ring) 1,
      lr_samples := (if length (lr_samples ring) < LANDING_LATENCY_CAPACITY then lr_samples ring @ [ms]
        else tl (lr_samples ring) @ [ms])\<rparr>"

record landing_latency_snapshot =
  ll_count :: u64
  ll_sum_ms :: u64
  ll_min_ms :: u64
  ll_max_ms :: u64
  ll_p50_ms :: u64
  ll_p95_ms :: u64
  ll_total_samples :: u64

text \<open>The interpolated percentiles are floating point: arguments over the sorted samples.\<close>

definition landing_latency_snapshot_of ::
    "(u64 list \<Rightarrow> u64) \<Rightarrow> (u64 list \<Rightarrow> u64) \<Rightarrow> landing_ring \<Rightarrow> (landing_latency_snapshot, unit) res" where
  "landing_latency_snapshot_of p50 p95 ring =
    (let xs = lr_samples ring in
     if xs = [] then
       Ok \<lparr>ll_count = 0, ll_sum_ms = 0, ll_min_ms = 0, ll_max_ms = 0, ll_p50_ms = 0, ll_p95_ms = 0, ll_total_samples = 0\<rparr>
     else
       bind_res (sum_u64 0 xs) (\<lambda>s.
       Ok \<lparr>ll_count = of_nat (length xs), ll_sum_ms = s, ll_min_ms = Min (set xs), ll_max_ms = Max (set xs),
           ll_p50_ms = p50 (sort xs), ll_p95_ms = p95 (sort xs), ll_total_samples = lr_total ring\<rparr>))"

definition landing_summary_lines :: "string \<Rightarrow> landing_latency_snapshot \<Rightarrow> string list" where
  "landing_summary_lines n snap =
    (let q = (\<lambda>p v. n @ ''{quantile='' @ quoted p @ ''} '' @ v);
         dec = (\<lambda>v. if ll_count snap = 0 then ''0'' else dec_u64 v)
     in [''# HELP '' @ n @ '' Time from Jito submit call to LandingResult::Landed observation (milliseconds)'', ''# TYPE '' @ n @ '' summary'',
         q ''0.5'' (dec (ll_p50_ms snap)), q ''0.95'' (dec (ll_p95_ms snap)),
         n @ ''_count '' @ dec (ll_count snap), n @ ''_sum '' @ dec (ll_sum_ms snap)])"

section \<open>Buckets\<close>

lemma bucket_index_value: "bucket_index v = min (bit_length (unat v)) 11"
proof (cases "v = 0")
  case False
  have "bit_length (unat v) \<le> 64" using unat_bound [of v] by (simp add: bit_length_le_iff)
  moreover have "0 < bit_length (unat v)" using False bit_length_bounds [of "unat v"] by (simp add: unat_gt_0)
  ultimately show ?thesis using False by (simp add: bucket_index_def leading_zeros_def MAX_BUCKETS_def Let_def)
qed (simp add: bucket_index_def bit_length.simps [of 0])

lemma bucket_index_le: "i < 11 \<Longrightarrow> bucket_index v \<le> i \<longleftrightarrow> unat v < 2 ^ i"
  by (auto simp: bucket_index_value bit_length_le_iff [symmetric] min_le_iff_disj)

lemma bucket_index_less: "bucket_index v < 12"
  by (simp add: bucket_index_value)

definition holds :: "u64 list \<Rightarrow> histogram \<Rightarrow> bool" where
  "holds vs h \<longleftrightarrow> length (hi_buckets h) = 12 \<and> unat (hi_count h) = length vs
    \<and> (\<forall>i<12. unat (hi_buckets h ! i) = length (filter (\<lambda>v. bucket_index v = i) vs))"

lemma observe_holds:
  assumes "length vs < 2 ^ 64"
  shows "holds vs (fold histogram_observe vs metric_histogram_new)"
  using assms
proof (induction vs rule: rev_induct)
  case (snoc v vs)
  define g where "g = fold histogram_observe vs metric_histogram_new"
  have h: "holds vs g" unfolding g_def using snoc by simp
  have step: "fold histogram_observe (vs @ [v]) metric_histogram_new = histogram_observe v g" by (simp add: g_def)
  let ?b = "bucket_index v"
  have b: "?b < length (hi_buckets g)" using h bucket_index_less by (simp add: holds_def)
  have inc: "unat w = k \<Longrightarrow> k \<le> length vs \<Longrightarrow> unat (sat_add_w w (1 :: u64)) = Suc k" for w k
    using snoc.prems by (simp add: unat_sat_add_w)
  have one: "unat (sat_add_w (hi_buckets g ! ?b) 1) = Suc (length (filter (\<lambda>u. bucket_index u = ?b) vs))"
    using h bucket_index_less [of v] by (intro inc) (simp_all add: holds_def)
  have cnt: "unat (sat_add_w (hi_count g) 1) = Suc (length vs)" using h by (intro inc) (simp_all add: holds_def)
  have "unat ((hi_buckets g)[?b := sat_add_w (hi_buckets g ! ?b) 1] ! i) = length (filter (\<lambda>u. bucket_index u = i) (vs @ [v]))"
    if "i < 12" for i
    using that h b one by (cases "i = ?b") (simp_all add: holds_def nth_list_update)
  then show ?case unfolding step using h cnt by (simp add: holds_def histogram_observe_def Let_def)
qed (simp add: holds_def metric_histogram_new_def MAX_BUCKETS_def)

section \<open>What the text says\<close>

definition bucket_line :: "string \<Rightarrow> string \<Rightarrow> nat \<Rightarrow> string" where
  "bucket_line n bound k = n @ ''_bucket{le='' @ quoted bound @ ''} '' @ dec_string k"

lemma bucket_lines_Cons:
  "bucket_lines n num i cum (c # cs) =
    bucket_line n (if i + 1 = num then ''+Inf'' else dec_string (2 ^ i)) (unat (sat_add_w cum c)) # bucket_lines n num (i + 1) (sat_add_w cum c) cs"
  by (simp add: bucket_line_def dec_u64_def Let_def)

lemma bucket_lines_exact:
  "unat cum + sum_list (map unat cs) < 2 ^ 64 \<Longrightarrow>
    bucket_lines n num i cum cs = map (\<lambda>k. bucket_line n (if i + k + 1 = num then ''+Inf'' else dec_string (2 ^ (i + k)))
      (unat cum + sum_list (map unat (take (Suc k) cs)))) [0..<length cs]"
proof (induction cs arbitrary: i cum)
  case (Cons c cs)
  have c: "unat (sat_add_w cum c) = unat cum + unat c" using Cons.prems by (simp add: unat_sat_add_w)
  have "[0..<length (c # cs)] = 0 # map Suc [0..<length cs]" by (simp add: upt_conv_Cons map_Suc_upt del: upt_Suc)
  moreover have "bucket_lines n num (Suc i) (sat_add_w cum c) cs
      = map (\<lambda>k. bucket_line n (if Suc i + k + 1 = num then ''+Inf'' else dec_string (2 ^ (Suc i + k)))
          (unat cum + unat c + sum_list (map unat (take (Suc k) cs)))) [0..<length cs]"
    using Cons.IH [of "sat_add_w cum c" "Suc i"] Cons.prems by (simp only: c) (simp add: add.assoc)
  ultimately show ?case
    unfolding bucket_lines_Cons by (auto simp: c comp_def add.assoc simp del: power_Suc bucket_lines.simps)
qed simp

lemma length_filter_below: "(\<Sum>j<m. length (filter (\<lambda>v. f v = j) vs)) = length (filter (\<lambda>v. f v < m) vs)" for f :: "'a \<Rightarrow> nat"
proof (induction m)
  case (Suc m)
  have "length (filter (\<lambda>v. f v < Suc m) vs) = length (filter (\<lambda>v. f v < m) vs) + length (filter (\<lambda>v. f v = m) vs)"
    by (induction vs) auto
  then show ?case using Suc by simp
qed simp

lemma take_buckets:
  assumes "holds vs h" and "k \<le> 12"
  shows "sum_list (map unat (take k (hi_buckets h))) = length (filter (\<lambda>v. bucket_index v < k) vs)"
proof -
  have "sum_list (map unat (take k (hi_buckets h))) = (\<Sum>j<k. unat (hi_buckets h ! j))"
    using assms by (simp add: sum_list_sum_nth holds_def atLeast0LessThan)
  also have "\<dots> = (\<Sum>j<k. length (filter (\<lambda>v. bucket_index v = j) vs))" using assms by (intro sum.cong) (auto simp: holds_def)
  finally show ?thesis by (simp add: length_filter_below)
qed

lemma sum_u64_exact: "unat a + sum_list (map unat xs) < 2 ^ 64 \<Longrightarrow> sum_u64 a xs = Ok (of_nat (unat a + sum_list (map unat xs)))"
proof (induction xs arbitrary: a)
  case (Cons x xs)
  have "unat (a + x) = unat a + unat x" using Cons.prems by (intro unat_add_no_wrap) simp
  then show ?case using Cons by (simp add: add_p_def add.assoc)
qed simp

text \<open>C21. The text of a histogram after any observations: the line of a bound \<open>2 ^ i\<close> counts those below the bound and not
  those equal to it, and the line of the sum is the number of observations, not their sum.\<close>

theorem prometheus_histogram_exact:
  assumes "length vs < 2 ^ 64"
  shows "histogram_lines (n, hi_buckets (fold histogram_observe vs metric_histogram_new)) =
    Ok ([''# HELP '' @ n @ '' histogram'', ''# TYPE '' @ n @ '' histogram'']
      @ map (\<lambda>i. bucket_line n (dec_string (2 ^ i)) (length (filter (\<lambda>v. unat v < 2 ^ i) vs))) [0..<11]
      @ [bucket_line n ''+Inf'' (length vs), n @ ''_sum '' @ dec_string (length vs), n @ ''_count '' @ dec_string (length vs)])"
proof -
  let ?h = "fold histogram_observe vs metric_histogram_new"
  have h: "holds vs ?h" by (rule observe_holds [OF assms])
  have len: "length (hi_buckets ?h) = 12" using h by (simp add: holds_def)
  have all: "sum_list (map unat (hi_buckets ?h)) = length vs"
    using take_buckets [OF h, of 12] bucket_index_less len by simp
  have lines: "bucket_lines n 12 0 0 (hi_buckets ?h) = map (\<lambda>k. bucket_line n (if k + 1 = 12 then ''+Inf'' else dec_string (2 ^ k))
      (length (filter (\<lambda>v. bucket_index v < Suc k) vs))) [0..<12]"
    using bucket_lines_exact [of 0 "hi_buckets ?h" n 12 0] assms
    by (simp add: all len take_buckets [OF h])
  also have "\<dots> = map (\<lambda>i. bucket_line n (dec_string (2 ^ i)) (length (filter (\<lambda>v. unat v < 2 ^ i) vs))) [0..<11]
      @ [bucket_line n ''+Inf'' (length vs)]"
  proof -
    have "[0..<12] = [0..<11] @ [11 :: nat]" by (simp add: upt_rec)
    moreover have "filter (\<lambda>v. bucket_index v < Suc k) vs = filter (\<lambda>v. unat v < 2 ^ k) vs" if "k < 11" for k
      using that by (intro filter_cong) (simp_all add: less_Suc_eq_le bucket_index_le)
    moreover have "filter (\<lambda>v. bucket_index v < Suc 11) vs = vs" using bucket_index_less by simp
    ultimately show ?thesis by simp
  qed
  finally have lines': "bucket_lines n 12 0 0 (hi_buckets ?h) = \<dots>" .
  have s: "sum_u64 0 (hi_buckets ?h) = Ok (of_nat (length vs))" using sum_u64_exact [of 0 "hi_buckets ?h"] assms by (simp add: all)
  show ?thesis using assms
    by (simp add: histogram_lines_def s len lines' dec_u64_def unat_of_nat_fits)
qed

section \<open>The adapter follows its source\<close>

fun grows :: "u64 \<Rightarrow> u64 list \<Rightarrow> bool" where
  "grows a [] \<longleftrightarrow> True"
| "grows a (x # xs) \<longleftrightarrow> a \<le> x \<and> grows x xs"

definition follows :: "live_adapter \<times> metrics_registry \<Rightarrow> bool" where
  "follows ar \<longleftrightarrow> counter_value ''dl_jito_submit_total'' (snd ar) = la_last_submitted (fst ar)
    \<and> counter_value ''dl_jito_landed_total'' (snd ar) = la_last_landed (fst ar)"

lemma counter_emit [simp]: "counter_value n (emit e r) = counter_value n r"
  by (simp add: counter_value_def emit_def)

lemma counter_gauge_set [simp]: "counter_value n (gauge_set g v r) = counter_value n r"
  by (simp add: gauge_set_def) (simp add: counter_value_def)

lemma counter_add_value: "counter_value n (counter_add m k r) = (if n = m then counter_value n r + k else counter_value n r)"
  by (simp add: counter_add_def Let_def) (simp add: counter_value_def)

lemma counter_growth: "counter_value n (add_growth m a x r) =
    (if n = m \<and> a < x then counter_value n r + (x - a) else counter_value n r)"
  by (simp add: add_growth_def counter_add_value)

lemma poll_follows:
  assumes "follows ar" and "la_last_submitted (fst ar) \<le> ls_submitted src" and "la_last_landed (fst ar) \<le> ls_landed src"
  shows "follows (live_adapter_poll src ar)" and "la_last_submitted (fst (live_adapter_poll src ar)) = ls_submitted src"
    and "la_last_landed (fst (live_adapter_poll src ar)) = ls_landed src"
    and "gauge_value ''dl_daily_cap_remaining_lamports'' (snd (live_adapter_poll src ar)) = cap_remaining (ls_cap src)"
proof -
  obtain a r where ar: "ar = (a, r)" by (cases ar)
  show "follows (live_adapter_poll src ar)"
    using assms by (simp add: ar follows_def live_adapter_poll_def Let_def counter_growth)
  show "la_last_submitted (fst (live_adapter_poll src ar)) = ls_submitted src" "la_last_landed (fst (live_adapter_poll src ar)) = ls_landed src"
    by (simp_all add: ar live_adapter_poll_def Let_def)
  show "gauge_value ''dl_daily_cap_remaining_lamports'' (snd (live_adapter_poll src ar)) = cap_remaining (ls_cap src)"
    by (simp add: ar live_adapter_poll_def Let_def gauge_set_def gauge_value_def emit_def)
qed

text \<open>While the counters of the live path only grow, the exported counters are equal to them after every poll, and the
  exported cap is what is left of the cap.\<close>

theorem adapter_follows_source:
  assumes "grows 0 (map ls_submitted srcs)" and "grows 0 (map ls_landed srcs)" and "srcs \<noteq> []"
    and "mr_counters r ''dl_jito_submit_total'' = None" and "mr_counters r ''dl_jito_landed_total'' = None"
  shows "case fold live_adapter_poll srcs (live_adapter_new r) of (a, r') \<Rightarrow>
    counter_value ''dl_jito_submit_total'' r' = ls_submitted (last srcs)
    \<and> counter_value ''dl_jito_landed_total'' r' = ls_landed (last srcs)
    \<and> gauge_value ''dl_daily_cap_remaining_lamports'' r' = cap_remaining (ls_cap (last srcs))"
proof -
  have run: "follows (fold live_adapter_poll ss ar) \<and> (ss \<noteq> [] \<longrightarrow> (case fold live_adapter_poll ss ar of (a, r') \<Rightarrow>
      la_last_submitted a = ls_submitted (last ss) \<and> la_last_landed a = ls_landed (last ss)
      \<and> gauge_value ''dl_daily_cap_remaining_lamports'' r' = cap_remaining (ls_cap (last ss))))"
    if "follows ar" "grows (la_last_submitted (fst ar)) (map ls_submitted ss)" "grows (la_last_landed (fst ar)) (map ls_landed ss)" for ss ar
    using that
  proof (induction ss arbitrary: ar)
    case (Cons s ss)
    have p: "follows (live_adapter_poll s ar)" "la_last_submitted (fst (live_adapter_poll s ar)) = ls_submitted s"
      "la_last_landed (fst (live_adapter_poll s ar)) = ls_landed s"
      "gauge_value ''dl_daily_cap_remaining_lamports'' (snd (live_adapter_poll s ar)) = cap_remaining (ls_cap s)"
      using poll_follows [of ar s] Cons.prems by simp_all
    show ?case using Cons.IH [OF p(1)] Cons.prems p by (cases ss) (auto simp: split_beta)
  qed simp
  have "follows (live_adapter_new r) \<and> la_last_submitted (fst (live_adapter_new r)) = 0 \<and> la_last_landed (fst (live_adapter_new r)) = 0"
    using assms(4,5) by (auto simp: live_adapter_new_def follows_def registry_gauge_def registry_counter_def counter_value_def split: option.splits)
  then show ?thesis using run [of "live_adapter_new r" srcs] assms(1-3) by (auto simp: follows_def split_beta)
qed

section \<open>The ring keeps the latest\<close>

lemma ring_run:
  "lr_samples (fold record_landing_latency_ms xs landing_ring_new) = drop (length xs - 512) xs
    \<and> lr_total (fold record_landing_latency_ms xs landing_ring_new) = of_nat (min (length xs) (2 ^ 64 - 1))"
proof (induction xs rule: rev_induct)
  case (snoc x xs)
  define g where "g = fold record_landing_latency_ms xs landing_ring_new"
  have step: "fold record_landing_latency_ms (xs @ [x]) landing_ring_new = record_landing_latency_ms x g" by (simp add: g_def)
  have g: "lr_samples g = drop (length xs - 512) xs" "lr_total g = of_nat (min (length xs) (2 ^ 64 - 1))"
    using snoc by (simp_all add: g_def)
  have "tl (drop (length xs - 512) xs) = drop (Suc (length xs) - 512) xs" if "512 \<le> length xs"
    using Suc_diff_le [OF that] by (simp only: tl_drop drop_Suc)
  then have s: "lr_samples (record_landing_latency_ms x g) = drop (length (xs @ [x]) - 512) (xs @ [x])"
    by (auto simp: record_landing_latency_ms_def LANDING_LATENCY_CAPACITY_def g(1) not_less)
  have u: "unat (lr_total g) = min (length xs) (2 ^ 64 - 1)" unfolding g(2) by (rule unat_of_nat_fits) simp
  have "unat (sat_add_w (lr_total g) 1) = min (Suc (length xs)) (2 ^ 64 - 1)" by (simp add: unat_sat_add_w u)
  moreover have "of_nat (unat w) = w" for w :: u64 by simp
  ultimately have "sat_add_w (lr_total g) 1 = of_nat (min (Suc (length xs)) (2 ^ 64 - 1))" by metis
  then show ?case unfolding step using s by (simp add: record_landing_latency_ms_def)
qed (simp add: landing_ring_new_def)

text \<open>The snapshot of the ring is that of the last 512 samples, and counts all of them.\<close>

theorem landing_ring_exact:
  assumes "sum_list (map unat (drop (length xs - 512) xs)) < 2 ^ 64" and "xs \<noteq> []"
  shows "\<exists>s. landing_latency_snapshot_of p50 p95 (fold record_landing_latency_ms xs landing_ring_new) = Ok s
    \<and> unat (ll_count s) = min (length xs) 512 \<and> unat (ll_sum_ms s) = sum_list (map unat (drop (length xs - 512) xs))
    \<and> ll_min_ms s = Min (set (drop (length xs - 512) xs)) \<and> ll_max_ms s = Max (set (drop (length xs - 512) xs))
    \<and> unat (ll_total_samples s) = min (length xs) (2 ^ 64 - 1)"
proof -
  let ?ys = "drop (length xs - 512) xs"
  have ne: "?ys \<noteq> []" using assms(2) by (cases xs) auto
  have s: "sum_u64 0 ?ys = Ok (of_nat (sum_list (map unat ?ys)))" using sum_u64_exact [of 0 ?ys] assms(1) by simp
  have u: "unat (of_nat (sum_list (map unat ?ys)) :: u64) = sum_list (map unat ?ys)" using assms(1) by (subst unat_of_nat_fits) simp_all
  have l: "unat (of_nat (length ?ys) :: u64) = min (length xs) 512" by (subst unat_of_nat_fits) auto
  have t: "unat (of_nat (min (length xs) (2 ^ 64 - 1)) :: u64) = min (length xs) (2 ^ 64 - 1)" by (rule unat_of_nat_fits) simp
  show ?thesis unfolding landing_latency_snapshot_of_def Let_def ring_run [THEN conjunct1] ring_run [THEN conjunct2] s
    using ne u l t by simp
qed

lemma prometheus_histogram_exact_witness:
  "\<exists>ls. histogram_lines (''h'', hi_buckets (fold histogram_observe [1, 4, 5] metric_histogram_new)) = Ok ls
    \<and> ls ! 4 = bucket_line ''h'' ''4'' 1 \<and> ls ! 14 = ''h_sum 3''"
proof -
  have "histogram_lines (''h'', hi_buckets (fold histogram_observe [1, 4, 5] metric_histogram_new)) =
    Ok ([''# HELP '' @ ''h'' @ '' histogram'', ''# TYPE '' @ ''h'' @ '' histogram'']
      @ map (\<lambda>i. bucket_line ''h'' (dec_string (2 ^ i)) (length (filter (\<lambda>v. unat v < 2 ^ i) [1, 4, 5 :: u64]))) [0..<11]
      @ [bucket_line ''h'' ''+Inf'' (length [1, 4, 5 :: u64]), ''h'' @ ''_sum '' @ dec_string (length [1, 4, 5 :: u64]),
         ''h'' @ ''_count '' @ dec_string (length [1, 4, 5 :: u64])])"
    by (rule prometheus_histogram_exact) simp
  moreover have "dec_string 4 = ''4''" "dec_string (Suc (Suc (Suc 0))) = ''3''" by code_simp+
  ultimately show ?thesis by (simp add: upt_rec)
qed

definition rich_source :: "u64 \<Rightarrow> live_source" where
  "rich_source n = \<lparr>ls_submitted = n, ls_landed = 1, ls_cap = cap_new 1 cap_config_default, ls_pnl_bits = 0\<rparr>"

lemma adapter_follows_source_witness:
  "counter_value ''dl_jito_submit_total'' (snd (fold live_adapter_poll [rich_source 2, rich_source 7] (live_adapter_new metrics_registry_new))) = 7"
  using adapter_follows_source [of "[rich_source 2, rich_source 7]" metrics_registry_new]
  by (simp add: rich_source_def metrics_registry_new_def split_beta)

end
