(* ===== verification/LiveStatus.thy ===== *)
theory LiveStatus
  imports Executor Cap Oracle Amount
begin

text \<open>
  The status file of the live path (\<^verbatim>\<open>dl-app/src/live_status.rs\<close>): a record of the cap, the kill switch and the
  inputs, built once a second and written through a temporary file. Prices in dollars are floating point, so
  their conversion is an argument, as are the encoder, the clock and the file system.
\<close>

section \<open>The record\<close>

datatype sol_usd_source = FromPyth | CoinbaseFallback | NoSource

record kill_switch_snapshot =
  kw_open :: bool
  kw_stop_file_present :: bool
  kw_consecutive_losses :: i64
  kw_max_consecutive_losses :: i64
  kw_reason :: "string option"

record last_landed_snapshot =
  ll_bundle_id :: "string option"
  ll_ts_unix_ms :: "i64 option"
  ll_profit_lamports :: "i64 option"

record 'f live_status =
  lv_schema_version :: u32
  lv_ts_unix_ms :: i64
  lv_running :: bool
  lv_daily_cap_lamports :: i64
  lv_daily_spent_lamports :: i64
  lv_kill_switch :: kill_switch_snapshot
  lv_last_landed_bundle :: last_landed_snapshot
  lv_realized_pnl_today_lamports :: i64
  lv_sol_usd :: "'f option"
  lv_sol_usd_source :: sol_usd_source
  lv_sol_usd_age_secs :: "i64 option"

record writer_inputs =
  wi_running :: bool
  wi_last_landed :: last_landed_snapshot
  wi_realized_pnl_today :: i64
  wi_pyth :: "(pubkey \<Rightarrow> price option) option"
  wi_pyth_sol_feed :: "pubkey option"

definition STATUS_SCHEMA_VERSION :: u32 where
  "STATUS_SCHEMA_VERSION = 1"

text \<open>\<^verbatim>\<open>as i64\<close> of an unsigned number, and \<^verbatim>\<open>{}\<close> of a number that is not negative.\<close>

definition u64_as_i64 :: "u64 \<Rightarrow> i64" where
  "u64_as_i64 w = sint w"

definition u32_as_i64 :: "u32 \<Rightarrow> i64" where
  "u32_as_i64 w = int (unat w)"

definition losses_text :: "string \<Rightarrow> i64 \<Rightarrow> i64 \<Rightarrow> string" where
  "losses_text pre consec mx = pre @ dec_string (nat consec) @ '' consecutive losses (max '' @ dec_string (nat mx) @ '')''"

definition sol_usd_snapshot ::
    "(price \<Rightarrow> 'f) \<Rightarrow> writer_inputs \<Rightarrow> i64 \<Rightarrow> ('f option \<times> sol_usd_source \<times> i64 option, unit) res" where
  "sol_usd_snapshot to_usd inputs ts =
    (case (wi_pyth inputs, wi_pyth_sol_feed inputs) of
       (Some fetch, Some feed) \<Rightarrow>
         (case fetch feed of
            Some p \<Rightarrow> bind_res (range_p 64 (ts sdiv 1000 - publish_time p)) (\<lambda>age. Ok (Some (to_usd p), FromPyth, Some (max age 0)))
          | None \<Rightarrow> Ok (None, NoSource, None))
     | _ \<Rightarrow> Ok (None, NoSource, None))"

definition status_of ::
    "(price \<Rightarrow> 'f) \<Rightarrow> i64 \<Rightarrow> writer_inputs \<Rightarrow> cap_state \<Rightarrow> kill_switch_snapshot \<Rightarrow> ('f live_status, unit) res" where
  "status_of to_usd ts inputs cap ksnap =
    bind_res (sol_usd_snapshot to_usd inputs ts) (\<lambda>(usd, src, age).
    Ok \<lparr>lv_schema_version = STATUS_SCHEMA_VERSION, lv_ts_unix_ms = ts, lv_running = wi_running inputs,
        lv_daily_cap_lamports = u64_as_i64 (daily_lamports (cap_cfg cap)), lv_daily_spent_lamports = u64_as_i64 (spent_today cap),
        lv_kill_switch = ksnap, lv_last_landed_bundle = wi_last_landed inputs,
        lv_realized_pnl_today_lamports = wi_realized_pnl_today inputs, lv_sol_usd = usd, lv_sol_usd_source = src,
        lv_sol_usd_age_secs = age\<rparr>)"

text \<open>\<^verbatim>\<open>build\<close>, from the kill switch itself; the file is looked for where its configuration says.\<close>

definition status_build ::
    "(price \<Rightarrow> 'f) \<Rightarrow> i64 \<Rightarrow> string \<Rightarrow> bool \<Rightarrow> writer_inputs \<Rightarrow> cap_state \<Rightarrow> kill_switch \<Rightarrow> ('f live_status, unit) res" where
  "status_build to_usd ts stop_path stop inputs cap ks =
    (let is_open = (killswitch_check stop ks \<noteq> Ok ());
         consec = u32_as_i64 (consecutive_losses ks);
         mx = u32_as_i64 (max_consecutive_losses ks);
         reason = (if is_open then
             Some (if stop \<and> mx \<le> consec then losses_text ''STOP file present + '' consec mx
               else if stop then ''STOP file present at '' @ stop_path
               else losses_text '''' consec mx)
           else None)
     in status_of to_usd ts inputs cap
       \<lparr>kw_open = is_open, kw_stop_file_present = stop, kw_consecutive_losses = consec, kw_max_consecutive_losses = mx,
        kw_reason = reason\<rparr>)"

text \<open>What the writer keeps of the kill switch after it has released the lock, and \<^verbatim>\<open>build_with_ks_view\<close>.\<close>

record ks_local_snap =
  kl_check :: bool
  kl_stop_file_present :: bool
  kl_consecutive_losses :: i64
  kl_max_consecutive_losses :: i64

definition ks_fallback_snapshot :: "bool \<Rightarrow> kill_switch \<Rightarrow> ks_local_snap" where
  "ks_fallback_snapshot stop ks =
    \<lparr>kl_check = (killswitch_check stop ks = Ok ()), kl_stop_file_present = stop,
     kl_consecutive_losses = u32_as_i64 (consecutive_losses ks), kl_max_consecutive_losses = u32_as_i64 (max_consecutive_losses ks)\<rparr>"

definition build_with_ks_view ::
    "(price \<Rightarrow> 'f) \<Rightarrow> i64 \<Rightarrow> writer_inputs \<Rightarrow> cap_state \<Rightarrow> ks_local_snap \<Rightarrow> ('f live_status, unit) res" where
  "build_with_ks_view to_usd ts inputs cap snap =
    (let is_open = (\<not> kl_check snap);
         consec = u32_as_i64 (of_int (kl_consecutive_losses snap));
         mx = u32_as_i64 (of_int (kl_max_consecutive_losses snap));
         reason = (if is_open then
             Some (if kl_stop_file_present snap \<and> mx \<le> consec then losses_text ''STOP file present + '' consec mx
               else if kl_stop_file_present snap then ''STOP file present''
               else losses_text '''' consec mx)
           else None)
     in status_of to_usd ts inputs cap
       \<lparr>kw_open = is_open, kw_stop_file_present = kl_stop_file_present snap, kw_consecutive_losses = consec,
        kw_max_consecutive_losses = mx, kw_reason = reason\<rparr>)"

section \<open>The file\<close>

record status_files =
  sf_file :: "string option"
  sf_tmp :: "string option"

text \<open>What happens to one write.\<close>

record write_env =
  we_create_ok :: bool
  we_stops :: "nat option"
  we_sync_ok :: bool
  we_rename_ok :: bool
  we_remove_ok :: bool

definition write_atomic :: "('f live_status \<Rightarrow> string option) \<Rightarrow> write_env \<Rightarrow> 'f live_status \<Rightarrow> status_files \<Rightarrow> bool \<times> status_files" where
  "write_atomic encode env status fs =
    (case encode status of
       None \<Rightarrow> (False, fs)
     | Some json \<Rightarrow>
         if \<not> we_create_ok env then (False, fs)
         else (case we_stops env of
             Some k \<Rightarrow> (False, fs\<lparr>sf_tmp := Some (take k json)\<rparr>)
           | None \<Rightarrow>
               if \<not> we_sync_ok env then (False, fs\<lparr>sf_tmp := Some json\<rparr>)
               else if we_rename_ok env then (True, \<lparr>sf_file = Some json, sf_tmp = None\<rparr>)
               else (False, fs\<lparr>sf_tmp := (if we_remove_ok env then None else Some json)\<rparr>)))"

text \<open>The state a tick locks and reads, with the time and the fate of its write.\<close>

record status_tick =
  tk_ts :: i64
  tk_cap :: cap_state
  tk_ks :: kill_switch
  tk_stop :: bool
  tk_inputs :: writer_inputs
  tk_env :: write_env

definition tick_status :: "(price \<Rightarrow> 'f) \<Rightarrow> status_tick \<Rightarrow> ('f live_status, unit) res" where
  "tick_status to_usd t = build_with_ks_view to_usd (tk_ts t) (tk_inputs t) (tk_cap t) (ks_fallback_snapshot (tk_stop t) (tk_ks t))"

definition tick_once ::
    "(price \<Rightarrow> 'f) \<Rightarrow> ('f live_status \<Rightarrow> string option) \<Rightarrow> status_tick \<Rightarrow> status_files \<Rightarrow> (unit, unit) res \<times> status_files" where
  "tick_once to_usd encode t fs =
    (case tick_status to_usd t of
       Ok status \<Rightarrow> (Ok (), snd (write_atomic encode (tk_env t) status fs))
     | Err e \<Rightarrow> (Err e, fs)
     | Panic \<Rightarrow> (Panic, fs))"

text \<open>The loop: a tick of the timer, or a change of the shutdown channel, which ends it with one more write if its value
  is true. Without more events the loop waits: \<open>None\<close>.\<close>

datatype writer_event = TimerTick status_tick | ShutdownChanged bool status_tick

fun run_writer_loop ::
    "(price \<Rightarrow> 'f) \<Rightarrow> ('f live_status \<Rightarrow> string option) \<Rightarrow> writer_event list \<Rightarrow> status_files \<Rightarrow> (unit, unit) res option \<times> status_files" where
  "run_writer_loop to_usd encode [] fs = (None, fs)"
| "run_writer_loop to_usd encode (TimerTick t # es) fs =
    (case tick_once to_usd encode t fs of
       (Ok _, fs') \<Rightarrow> run_writer_loop to_usd encode es fs'
     | (r, fs') \<Rightarrow> (Some r, fs'))"
| "run_writer_loop to_usd encode (ShutdownChanged stopping t # es) fs =
    (if stopping then (case tick_once to_usd encode t fs of (r, fs') \<Rightarrow> (Some r, fs'))
     else run_writer_loop to_usd encode es fs)"

section \<open>What the file says\<close>

lemma u32_i64_roundtrip [simp]: "u32_as_i64 (of_int (u32_as_i64 w)) = u32_as_i64 w"
  by (simp add: u32_as_i64_def)

lemma u32_as_i64_le: "u32_as_i64 a \<le> u32_as_i64 b \<longleftrightarrow> a \<le> b"
  by (simp add: u32_as_i64_def word_le_nat_alt del: of_nat_unat)

lemma check_cases: "killswitch_check stop ks = Ok () \<longleftrightarrow> \<not> stop \<and> \<not> max_consecutive_losses ks \<le> consecutive_losses ks"
  by (auto simp: killswitch_check_Ok_iff not_le)

text \<open>Two records of the same state, but for the text of the reason.\<close>

definition same_but_reason :: "'f live_status \<Rightarrow> 'f live_status \<Rightarrow> bool" where
  "same_but_reason a b \<longleftrightarrow> a\<lparr>lv_kill_switch := (lv_kill_switch a)\<lparr>kw_reason := None\<rparr>\<rparr> = b\<lparr>lv_kill_switch := (lv_kill_switch b)\<lparr>kw_reason := None\<rparr>\<rparr>"

text \<open>The writer's record is the one that is built from the kill switch itself, but for the path in the reason. The
  switch is shown open exactly when its check refuses, and has a reason exactly then.\<close>

theorem status_shows_the_switch:
  "case tick_status to_usd t of
     Ok s \<Rightarrow> (\<exists>b. status_build to_usd (tk_ts t) path (tk_stop t) (tk_inputs t) (tk_cap t) (tk_ks t) = Ok b \<and> same_but_reason s b
         \<and> (kw_reason (lv_kill_switch s) = kw_reason (lv_kill_switch b)
           \<or> (tk_stop t \<and> kw_reason (lv_kill_switch s) = Some ''STOP file present'')))
       \<and> (kw_open (lv_kill_switch s) \<longleftrightarrow> killswitch_check (tk_stop t) (tk_ks t) \<noteq> Ok ())
       \<and> (kw_reason (lv_kill_switch s) \<noteq> None \<longleftrightarrow> kw_open (lv_kill_switch s))
   | r \<Rightarrow> status_build to_usd (tk_ts t) path (tk_stop t) (tk_inputs t) (tk_cap t) (tk_ks t) = r"
  by (cases "sol_usd_snapshot to_usd (tk_inputs t) (tk_ts t)")
    (auto simp: tick_status_def build_with_ks_view_def status_build_def status_of_def ks_fallback_snapshot_def same_but_reason_def Let_def)

text \<open>The records the events of a run build.\<close>

fun event_tick :: "writer_event \<Rightarrow> status_tick" where
  "event_tick (TimerTick t) = t"
| "event_tick (ShutdownChanged b t) = t"

definition complete_status :: "(price \<Rightarrow> 'f) \<Rightarrow> ('f live_status \<Rightarrow> string option) \<Rightarrow> writer_event list \<Rightarrow> string \<Rightarrow> bool" where
  "complete_status to_usd encode es json \<longleftrightarrow> (\<exists>e\<in>set es. \<exists>s. tick_status to_usd (event_tick e) = Ok s \<and> encode s = Some json)"

lemma tick_once_file:
  "sf_file (snd (tick_once to_usd encode t fs)) = sf_file fs
   \<or> (\<exists>s json. tick_status to_usd t = Ok s \<and> encode s = Some json \<and> sf_file (snd (tick_once to_usd encode t fs)) = Some json)"
  by (auto simp: tick_once_def write_atomic_def Let_def split: res.splits option.splits)

text \<open>Whatever fails, and whenever it is looked at, the status file is the one from before the run or the complete record
  of one of its ticks.\<close>

theorem status_file_never_torn:
  "case sf_file (snd (run_writer_loop to_usd encode es fs)) of
     None \<Rightarrow> sf_file fs = None
   | Some json \<Rightarrow> sf_file fs = Some json \<or> complete_status to_usd encode es json"
proof -
  have "sf_file (snd (run_writer_loop to_usd encode es fs)) = sf_file fs
    \<or> (\<exists>json. sf_file (snd (run_writer_loop to_usd encode es fs)) = Some json \<and> complete_status to_usd encode es json)"
  proof (induction es arbitrary: fs)
    case (Cons e es)
    have more: "complete_status to_usd encode es json \<Longrightarrow> complete_status to_usd encode (e # es) json" for json
      by (auto simp: complete_status_def)
    have here: "tick_status to_usd (event_tick e) = Ok s \<Longrightarrow> encode s = Some json \<Longrightarrow> complete_status to_usd encode (e # es) json" for s json
      by (auto simp: complete_status_def)
    obtain r fs1 where tick: "tick_once to_usd encode (event_tick e) fs = (r, fs1)" by (cases "tick_once to_usd encode (event_tick e) fs")
    have one: "sf_file fs1 = sf_file fs \<or> (\<exists>json. sf_file fs1 = Some json \<and> complete_status to_usd encode (e # es) json)"
      using tick_once_file [of to_usd encode "event_tick e" fs] here by (auto simp: tick)
    have rest: "sf_file (snd (run_writer_loop to_usd encode es fs1)) = sf_file fs1
      \<or> (\<exists>json. sf_file (snd (run_writer_loop to_usd encode es fs1)) = Some json \<and> complete_status to_usd encode (e # es) json)"
      using Cons.IH [of fs1] more by blast
    show ?case
    proof (cases e)
      case (TimerTick t)
      then show ?thesis using tick one rest by (cases r) auto
    next
      case (ShutdownChanged b t)
      then show ?thesis using tick one Cons.IH [of fs] more by (cases b) (auto 0 3)
    qed
  qed simp
  then show ?thesis by (auto split: option.splits)
qed

end
