(* ===== verification/CalibrationLoop.thy ===== *)
theory CalibrationLoop
  imports Recon Calibration Amount
begin

text \<open>
  The loop from a ledger file back to the evaluation (\<^verbatim>\<open>dl-calibration/src/dam64.rs\<close>): the rows of a reconciliation
  become captures, and the captures are fitted. The overfit statistics, which are floating point, are left out.
\<close>

section \<open>Rows as captures\<close>

text \<open>\<^verbatim>\<open>u64 as i64\<close> and \<^verbatim>\<open>i128 as i64\<close> keep the low 64 bits.\<close>

definition wrap_i64 :: "int \<Rightarrow> i64" where
  "wrap_i64 v = sint (of_int v :: u64)"

definition row_to_capture :: "recon_row \<Rightarrow> string \<Rightarrow> i64 \<Rightarrow> i64 \<Rightarrow> calibration_capture" where
  "row_to_capture row label base_ts index =
    (let predicted = rw_predicted_lamports row;
         magnitude = \<bar>predicted\<bar>;
         input_amount = (if 2 ^ 64 - 1 < magnitude then - 1 else of_int (max magnitude 1) :: u64);
         per_leg_delta = (if predicted = 0 then 0 else wrap_i64 (min predicted (2 ^ 63 - 1)));
         out = max (clamp_i 64 (wrap_i64 (int (unat input_amount)) + per_leg_delta)) 0
     in \<lparr>cc_ts = clamp_i 64 (base_ts + index), cc_cycle_seq = rw_seq row, cc_slot = rw_seq row, cc_input_mint = label,
         cc_output_mint = label, cc_input_amount = input_amount, cc_expected_out_per_leg = [of_int out],
         cc_jito_bundle_id = ''recon-'' @ dec_string (unat (rw_seq row)), cc_realized_pnl = clamp_i 64 (rw_realized_lamports row),
         cc_won = (rw_decision row = WouldTrade)\<rparr>)"

fun captures_from :: "recon_row list \<Rightarrow> string \<Rightarrow> i64 \<Rightarrow> nat \<Rightarrow> calibration_capture list" where
  "captures_from [] label base_ts i = []"
| "captures_from (row # rows) label base_ts i =
    row_to_capture row label base_ts (int i) # captures_from rows label base_ts (i + 1)"

definition captures_from_reconciliation_report :: "reconciliation_report \<Rightarrow> i64 \<Rightarrow> calibration_capture list" where
  "captures_from_reconciliation_report report base_ts = captures_from (rc_rows report) (rc_source_label report) base_ts 0"

definition fit_from_reconciliation_report ::
    "i64 \<Rightarrow> reconciliation_report \<Rightarrow> i64 \<Rightarrow> calibration_capture list \<times> (calibration_result, sim_error) res" where
  "fit_from_reconciliation_report now report base_ts =
    (let captures = captures_from_reconciliation_report report base_ts in (captures, fit now captures))"

section \<open>What the loop measures\<close>

lemma clamp_zero_iff: "clamp_i 64 v = 0 \<longleftrightarrow> v = 0"
  by (auto simp: clamp_i_def smin_def smax_def)

lemma captures_counts:
  "length (captures_from (map row_of_entry es) label ts i) = length es"
  "realized_count (captures_from (map row_of_entry es) label ts i) = length (filter (\<lambda>v. v \<noteq> 0) (con_pnls es))"
  "won_count (captures_from (map row_of_entry es) label ts i) = trades es"
  by (induction es arbitrary: i)
    (simp_all add: row_to_capture_def row_of_entry_def Let_def realized_count_def won_count_def trades_def clamp_zero_iff)

text \<open>Entries that say what their conservative value says, as the writers make them.\<close>

definition decided :: "ledger_entry list \<Rightarrow> bool" where
  "decided es \<longleftrightarrow> (\<forall>e\<in>set es. le_decision e = decision_from_ev (le_conservative e))"

lemma decided_trades: "decided es \<Longrightarrow> trades es = length (filter (\<lambda>v. 0 < v) (con_pnls es))"
  by (induction es) (auto simp: decided_def trades_def decision_from_ev_def split: if_splits)

text \<open>C15. The fit of a ledger file that was written in full: it reads the rows back in order, and its win and detection
  probabilities are shares of the conservative predictions that were written, those above zero and those that are
  not zero. Nothing of what was realized enters.\<close>

theorem fit_measures_predictions:
  assumes codec: "list_all (codec_ok ser de MAX_ENTRY_BYTES) es"
    and size: "length es < 2 ^ 63" "length (ledger.contents ser es) < 2 ^ 64 - 1"
    and run: "ledger_session ser es room = (Ok (), out_file)" "12 \<le> room"
    and rows: "\<forall>row. ser_row row \<noteq> None"
    and fits: "sums_fit 128 0 (opt_pnls es)" "sums_fit 128 0 (con_pnls es)"
    and decided: "decided es"
  shows "\<exists>report captures r. reconcile_ledger ser_row de (slice out_file) label = Ok report
    \<and> fit_from_reconciliation_report now report base_ts = (captures, Ok r)
    \<and> map cc_cycle_seq captures = map le_seq es
    \<and> (let nonzero = length (filter (\<lambda>v. v \<noteq> 0) (con_pnls es)); positive = length (filter (\<lambda>v. 0 < v) (con_pnls es)) in
        unat (scaled (cr_p_win r)) = ratio_ppm (positive + 1) (nonzero + 2) * 10 ^ 12
        \<and> unat (scaled (cr_p_detect r)) = ratio_ppm (nonzero + 1) (length es + 2) * 10 ^ 12
        \<and> cr_p_land r = cr_p_detect r)"
proof -
  have n: "length es < 2 ^ 64" using size(1) by simp
  have out: "out_file = ledger_header @ ledger.contents ser es"
    using ledger_session_run [OF codec n, of room] run by (auto split: if_splits)
  have parsed: "ledger_parse de (ledger.contents ser es) = (es, Ok ())" using ledger.parse_file [OF codec size(2)] by simp
  obtain report where report: "reconcile_ledger ser_row de (slice out_file) label = Ok report" "rc_rows report = map row_of_entry es"
    using reconcile_parsed [OF parsed n rows fits, of label] by (auto simp: out reports_entries_def)
  define captures where "captures = captures_from_reconciliation_report report base_ts"
  have c: "captures = captures_from (map row_of_entry es) (rc_source_label report) base_ts 0"
    by (simp add: captures_def captures_from_reconciliation_report_def report(2))
  have seqs: "map cc_cycle_seq (captures_from (map row_of_entry es) l ts i) = map le_seq es" for l ts i
    by (induction es arbitrary: i) (simp_all add: row_to_capture_def row_of_entry_def Let_def)
  have len: "length captures < 2 ^ 63" unfolding c captures_counts by (rule size(1))
  obtain r where r: "fit now captures = Ok r"
    "unat (scaled (cr_p_detect r)) = ratio_ppm (realized_count captures + 1) (length captures + 2) * 10 ^ 12"
    "unat (scaled (cr_p_win r)) = ratio_ppm (won_count captures + 1) (realized_count captures + 2) * 10 ^ 12"
    "cr_p_land r = cr_p_detect r"
    using fit_value [OF len, of now] by blast
  have "fit_from_reconciliation_report now report base_ts = (captures, Ok r)"
    by (simp add: fit_from_reconciliation_report_def captures_def [symmetric] r(1))
  moreover have "map cc_cycle_seq captures = map le_seq es" unfolding c by (rule seqs)
  ultimately show ?thesis
    using report(1) r(2-4) unfolding c captures_counts decided_trades [OF decided] Let_def by blast
qed

lemma fit_measures_predictions_witness:
  "\<exists>out_file report captures r. ledger_session sample_ser [sample_entry 1 5, sample_entry 2 5] 100 = (Ok (), out_file)
    \<and> reconcile_ledger (\<lambda>_. Some []) sample_de (slice out_file) ''day'' = Ok report
    \<and> fit_from_reconciliation_report 0 report 0 = (captures, Ok r) \<and> map cc_cycle_seq captures = [1, 2]
    \<and> unat (scaled (cr_p_win r)) = 750000 * 10 ^ 12"
proof -
  let ?es = "[sample_entry 1 5, sample_entry 2 5]"
  have codec: "list_all (codec_ok sample_ser sample_de MAX_ENTRY_BYTES) ?es"
    by (simp add: sample_codec)
  have len: "length (ledger.contents sample_ser ?es) = 24"
    by (simp add: written_as_def sample_ser_def frame_def)
  obtain out_file where run: "ledger_session sample_ser ?es 100 = (Ok (), out_file)"
    using ledger_session_run [OF codec, of 100] len by simp
  have size: "length ?es < 2 ^ 63" "length (ledger.contents sample_ser ?es) < 2 ^ 64 - 1"
    by (simp, simp only: len, simp)
  have fits: "sums_fit 128 0 (opt_pnls ?es)" "sums_fit 128 0 (con_pnls ?es)"
    by (simp_all add: in_range_def smin_def smax_def)
  have decided: "decided ?es" by (simp add: decided_def decision_from_ev_def)
  have room: "12 \<le> (100 :: nat)" by simp
  have rows: "\<forall>row. (\<lambda>_ :: recon_row. Some []) row \<noteq> (None :: u8 list option)" by simp
  show ?thesis
    using fit_measures_predictions [OF codec size run room rows fits decided, of "''day''" 0 0] run
    by (fastforce simp: Let_def ratio_ppm_def sample_entry_def from_evaluated_def)
qed

end
