(* ===== verification/Config.thy ===== *)
theory Config
  imports Ledger RustText
begin

text \<open>
  The configuration of the engine (\<^verbatim>\<open>dl-app/src/config.rs\<close>): its defaults, the file, the override of every field by
  the environment, and the parameters it stands for. The TOML parser that \<^verbatim>\<open>serde\<close> generates is an argument.
\<close>

section \<open>Data\<close>

datatype config_error = ConfigIo | ConfigToml | ConfigInvalid string

record eval_config =
  vc_p_detect_ppm :: u32
  vc_base_win_ppm :: u32
  vc_richness_threshold_bps :: i32
  vc_decay_ppm_per_bps :: u32
  vc_t_detect_ms :: u32
  vc_t_decide_ms :: u32
  vc_t_build_ms :: u32
  vc_t_network_ms :: u32
  vc_t_auction_ms :: u32
  vc_p_land_grace_ms :: u32
  vc_p_land_decay_ppm_per_ms :: u32
  vc_failed_attempts_per_win :: u32
  vc_failed_per_attempt_lamports :: u64
  vc_submit_path :: submit_path
  vc_tip_lamports :: u64

record cost_config =
  kc_n_signatures :: u32
  kc_cu_limit :: u32
  kc_cu_price_micro_lamports :: u64
  kc_jito_tip_lamports :: u64

record capture_config =
  gc_rpc_url :: string
  gc_capture_path :: string
  gc_capture_secs :: u64
  gc_test_pool_pubkey :: string

record recon_config =
  nc_anchor_path :: string
  nc_calibrate :: bool

record engine_config =
  en_eval :: eval_config
  en_cost :: cost_config
  en_capture :: capture_config
  en_recon :: recon_config

section \<open>Defaults\<close>

text \<open>What \<^verbatim>\<open>derive(Default)\<close> gives.\<close>

definition eval_config_zero :: eval_config where
  "eval_config_zero = \<lparr>vc_p_detect_ppm = 0, vc_base_win_ppm = 0, vc_richness_threshold_bps = 0, vc_decay_ppm_per_bps = 0,
    vc_t_detect_ms = 0, vc_t_decide_ms = 0, vc_t_build_ms = 0, vc_t_network_ms = 0, vc_t_auction_ms = 0,
    vc_p_land_grace_ms = 0, vc_p_land_decay_ppm_per_ms = 0, vc_failed_attempts_per_win = 0,
    vc_failed_per_attempt_lamports = 0, vc_submit_path = Spam, vc_tip_lamports = 0\<rparr>"

definition cost_config_zero :: cost_config where
  "cost_config_zero = \<lparr>kc_n_signatures = 0, kc_cu_limit = 0, kc_cu_price_micro_lamports = 0, kc_jito_tip_lamports = 0\<rparr>"

definition capture_config_default :: capture_config where
  "capture_config_default = \<lparr>gc_rpc_url = [], gc_capture_path = [], gc_capture_secs = 60, gc_test_pool_pubkey = []\<rparr>"

definition recon_config_default :: recon_config where
  "recon_config_default = \<lparr>nc_anchor_path = [], nc_calibrate = False\<rparr>"

definition eval_config_of :: "eval_params \<Rightarrow> eval_config" where
  "eval_config_of p =
    \<lparr>vc_p_detect_ppm = to_ppm (ep_p_detect p), vc_base_win_ppm = base_win_ppm (ep_competition p),
     vc_richness_threshold_bps = richness_threshold_bps (ep_competition p),
     vc_decay_ppm_per_bps = decay_ppm_per_bps (ep_competition p), vc_t_detect_ms = t_detect_ms (ep_latency p),
     vc_t_decide_ms = t_decide_ms (ep_latency p), vc_t_build_ms = t_build_ms (ep_latency p),
     vc_t_network_ms = t_network_ms (ep_latency p), vc_t_auction_ms = t_auction_ms (ep_latency p),
     vc_p_land_grace_ms = grace_ms (ep_landing p), vc_p_land_decay_ppm_per_ms = decay_ppm_per_ms (ep_landing p),
     vc_failed_attempts_per_win = attempts_per_win (ep_failed p),
     vc_failed_per_attempt_lamports = per_attempt_lamports (ep_failed p), vc_submit_path = submit_via (ep_failed p),
     vc_tip_lamports = 0\<rparr>"

definition default_eval_config :: "(eval_config, config_error) res" where
  "default_eval_config = (case params_conservative of Ok p \<Rightarrow> Ok (eval_config_of p) | _ \<Rightarrow> Panic)"

definition default_cost_config :: cost_config where
  "default_cost_config =
    \<lparr>kc_n_signatures = ucast (n_signatures default_busy), kc_cu_limit = cu_limit default_busy,
     kc_cu_price_micro_lamports = cu_price_micro_lamports default_busy, kc_jito_tip_lamports = jito_tip_lamports default_busy\<rparr>"

definition engine_config_default :: "(engine_config, config_error) res" where
  "engine_config_default = bind_res default_eval_config (\<lambda>e.
    Ok \<lparr>en_eval = e, en_cost = default_cost_config, en_capture = capture_config_default, en_recon = recon_config_default\<rparr>)"

section \<open>The file\<close>

text \<open>What the parser found in a file: of each table, if it is there, the fields it sets, as an update.\<close>

record engine_doc =
  dc_eval :: "(eval_config \<Rightarrow> eval_config) option"
  dc_cost :: "(cost_config \<Rightarrow> cost_config) option"
  dc_capture :: "(capture_config \<Rightarrow> capture_config) option"
  dc_recon :: "(recon_config \<Rightarrow> recon_config) option"

text \<open>The attributes of the fields: a table that is missing is the named function or the default of its type, and the
  fields missing from a table are those of the default of its type.\<close>

definition config_of_doc :: "engine_doc \<Rightarrow> (engine_config, config_error) res" where
  "config_of_doc d =
    bind_res (case dc_eval d of None \<Rightarrow> default_eval_config | Some f \<Rightarrow> Ok (f eval_config_zero)) (\<lambda>e.
    Ok \<lparr>en_eval = e,
        en_cost = (case dc_cost d of None \<Rightarrow> default_cost_config | Some f \<Rightarrow> f cost_config_zero),
        en_capture = (case dc_capture d of None \<Rightarrow> capture_config_default | Some f \<Rightarrow> f capture_config_default),
        en_recon = (case dc_recon d of None \<Rightarrow> recon_config_default | Some f \<Rightarrow> f recon_config_default)\<rparr>)"

section \<open>The environment\<close>

definition parse_submit_path :: "string \<Rightarrow> submit_path option" where
  "parse_submit_path v =
    (let l = to_ascii_lowercase v in
     if l = ''spam'' then Some Spam
     else if l \<in> {''jito_bundle'', ''jitobundle'', ''bundle''} then Some JitoBundle
     else None)"

definition parse_flag :: "string \<Rightarrow> bool option" where
  "parse_flag v =
    (if v \<in> {''1'', ''true'', ''TRUE'', ''yes''} then Some True
     else if v \<in> {''0'', ''false'', ''FALSE'', ''no''} then Some False
     else None)"

text \<open>One variable: its name, and what its text does to the configuration.\<close>

type_synonym override = "string \<times> (string \<Rightarrow> (engine_config \<Rightarrow> engine_config) option)"

definition eval_field :: "string \<Rightarrow> (string \<Rightarrow> 'a option) \<Rightarrow> ('a \<Rightarrow> eval_config \<Rightarrow> eval_config) \<Rightarrow> override" where
  "eval_field n parse put = (n, \<lambda>v. map_option (\<lambda>x c. c\<lparr>en_eval := put x (en_eval c)\<rparr>) (parse v))"

definition cost_field :: "string \<Rightarrow> (string \<Rightarrow> 'a option) \<Rightarrow> ('a \<Rightarrow> cost_config \<Rightarrow> cost_config) \<Rightarrow> override" where
  "cost_field n parse put = (n, \<lambda>v. map_option (\<lambda>x c. c\<lparr>en_cost := put x (en_cost c)\<rparr>) (parse v))"

definition capture_field :: "string \<Rightarrow> (string \<Rightarrow> 'a option) \<Rightarrow> ('a \<Rightarrow> capture_config \<Rightarrow> capture_config) \<Rightarrow> override" where
  "capture_field n parse put = (n, \<lambda>v. map_option (\<lambda>x c. c\<lparr>en_capture := put x (en_capture c)\<rparr>) (parse v))"

definition recon_field :: "string \<Rightarrow> (string \<Rightarrow> 'a option) \<Rightarrow> ('a \<Rightarrow> recon_config \<Rightarrow> recon_config) \<Rightarrow> override" where
  "recon_field n parse put = (n, \<lambda>v. map_option (\<lambda>x c. c\<lparr>en_recon := put x (en_recon c)\<rparr>) (parse v))"

definition eval_overrides :: "override list" where
  "eval_overrides =
    [eval_field ''DL_P_DETECT_PPM'' parse_u32 (\<lambda>x e. e\<lparr>vc_p_detect_ppm := x\<rparr>),
     eval_field ''DL_BASE_WIN_PPM'' parse_u32 (\<lambda>x e. e\<lparr>vc_base_win_ppm := x\<rparr>),
     eval_field ''DL_RICHNESS_THRESHOLD_BPS'' parse_i32 (\<lambda>x e. e\<lparr>vc_richness_threshold_bps := x\<rparr>),
     eval_field ''DL_DECAY_PPM_PER_BPS'' parse_u32 (\<lambda>x e. e\<lparr>vc_decay_ppm_per_bps := x\<rparr>),
     eval_field ''DL_T_DETECT_MS'' parse_u32 (\<lambda>x e. e\<lparr>vc_t_detect_ms := x\<rparr>),
     eval_field ''DL_T_DECIDE_MS'' parse_u32 (\<lambda>x e. e\<lparr>vc_t_decide_ms := x\<rparr>),
     eval_field ''DL_T_BUILD_MS'' parse_u32 (\<lambda>x e. e\<lparr>vc_t_build_ms := x\<rparr>),
     eval_field ''DL_T_NETWORK_MS'' parse_u32 (\<lambda>x e. e\<lparr>vc_t_network_ms := x\<rparr>),
     eval_field ''DL_T_AUCTION_MS'' parse_u32 (\<lambda>x e. e\<lparr>vc_t_auction_ms := x\<rparr>),
     eval_field ''DL_P_LAND_GRACE_MS'' parse_u32 (\<lambda>x e. e\<lparr>vc_p_land_grace_ms := x\<rparr>),
     eval_field ''DL_P_LAND_DECAY_PPM_PER_MS'' parse_u32 (\<lambda>x e. e\<lparr>vc_p_land_decay_ppm_per_ms := x\<rparr>),
     eval_field ''DL_FAILED_ATTEMPTS_PER_WIN'' parse_u32 (\<lambda>x e. e\<lparr>vc_failed_attempts_per_win := x\<rparr>),
     eval_field ''DL_FAILED_PER_ATTEMPT_LAMPORTS'' parse_u64 (\<lambda>x e. e\<lparr>vc_failed_per_attempt_lamports := x\<rparr>),
     eval_field ''DL_SUBMIT_PATH'' parse_submit_path (\<lambda>x e. e\<lparr>vc_submit_path := x\<rparr>),
     eval_field ''DL_TIP_LAMPORTS'' parse_u64 (\<lambda>x e. e\<lparr>vc_tip_lamports := x\<rparr>)]"

definition other_overrides :: "override list" where
  "other_overrides =
    [cost_field ''DL_N_SIGNATURES'' parse_u32 (\<lambda>x k. k\<lparr>kc_n_signatures := x\<rparr>),
     cost_field ''DL_CU_LIMIT'' parse_u32 (\<lambda>x k. k\<lparr>kc_cu_limit := x\<rparr>),
     cost_field ''DL_CU_PRICE_MICRO_LAMPORTS'' parse_u64 (\<lambda>x k. k\<lparr>kc_cu_price_micro_lamports := x\<rparr>),
     cost_field ''DL_JITO_TIP_LAMPORTS'' parse_u64 (\<lambda>x k. k\<lparr>kc_jito_tip_lamports := x\<rparr>),
     capture_field ''DL_RPC_URL'' Some (\<lambda>x g. g\<lparr>gc_rpc_url := x\<rparr>),
     capture_field ''DL_CAPTURE_PATH'' Some (\<lambda>x g. g\<lparr>gc_capture_path := x\<rparr>),
     capture_field ''DL_CAPTURE_SECS'' parse_u64 (\<lambda>x g. g\<lparr>gc_capture_secs := x\<rparr>),
     capture_field ''DL_TEST_POOL_PUBKEY'' Some (\<lambda>x g. g\<lparr>gc_test_pool_pubkey := x\<rparr>),
     recon_field ''DL_RECON_ANCHOR_PATH'' Some (\<lambda>x r. r\<lparr>nc_anchor_path := x\<rparr>),
     recon_field ''DL_RECON_CALIBRATE'' parse_flag (\<lambda>x r. r\<lparr>nc_calibrate := x\<rparr>)]"

fun apply_overrides :: "env_vars \<Rightarrow> override list \<Rightarrow> engine_config \<Rightarrow> (engine_config, config_error) res" where
  "apply_overrides vars [] cfg = Ok cfg"
| "apply_overrides vars ((n, f) # os) cfg =
    (case vars n of
       None \<Rightarrow> apply_overrides vars os cfg
     | Some v \<Rightarrow> (case f v of None \<Rightarrow> Err (ConfigInvalid n) | Some g \<Rightarrow> apply_overrides vars os (g cfg)))"

definition apply_env :: "env_vars \<Rightarrow> engine_config \<Rightarrow> (engine_config, config_error) res" where
  "apply_env vars cfg = apply_overrides vars (eval_overrides @ other_overrides) cfg"

text \<open>The file: whether it is there, what reading it gives, and what the parser makes of it.\<close>

record config_env =
  ce_exists :: bool
  ce_contents :: "string option"
  ce_parse :: "string \<Rightarrow> engine_doc option"

definition config_load :: "config_env \<Rightarrow> env_vars \<Rightarrow> (engine_config, config_error) res" where
  "config_load env vars =
    bind_res
      (if ce_exists env then
         (case ce_contents env of
            None \<Rightarrow> Err ConfigIo
          | Some s \<Rightarrow> (case ce_parse env s of None \<Rightarrow> Err ConfigToml | Some d \<Rightarrow> config_of_doc d))
       else engine_config_default)
      (apply_env vars)"

section \<open>What it stands for\<close>

definition config_cost_model :: "engine_config \<Rightarrow> cost_model" where
  "config_cost_model c =
    \<lparr>n_signatures = ucast (min (kc_n_signatures (en_cost c)) 65535), cu_limit = kc_cu_limit (en_cost c),
     cu_price_micro_lamports = kc_cu_price_micro_lamports (en_cost c), jito_tip_lamports = kc_jito_tip_lamports (en_cost c)\<rparr>"

definition config_eval_params :: "engine_config \<Rightarrow> (eval_params, config_error) res" where
  "config_eval_params c =
    (let e = en_eval c in
     bind_res (case from_ppm (vc_p_detect_ppm e) of
         Ok p \<Rightarrow> Ok p
       | Err _ \<Rightarrow> (case params_conservative of Ok d \<Rightarrow> Ok (ep_p_detect d) | _ \<Rightarrow> Panic)
       | Panic \<Rightarrow> Panic) (\<lambda>p.
     Ok \<lparr>ep_p_detect = p,
         ep_competition = \<lparr>base_win_ppm = vc_base_win_ppm e, richness_threshold_bps = vc_richness_threshold_bps e,
           decay_ppm_per_bps = vc_decay_ppm_per_bps e\<rparr>,
         ep_latency = \<lparr>t_detect_ms = vc_t_detect_ms e, t_decide_ms = vc_t_decide_ms e, t_build_ms = vc_t_build_ms e,
           t_network_ms = vc_t_network_ms e, t_auction_ms = vc_t_auction_ms e\<rparr>,
         ep_landing = \<lparr>grace_ms = vc_p_land_grace_ms e, decay_ppm_per_ms = vc_p_land_decay_ppm_per_ms e\<rparr>,
         ep_failed = \<lparr>attempts_per_win = vc_failed_attempts_per_win e,
           per_attempt_lamports = vc_failed_per_attempt_lamports e, submit_via = vc_submit_path e\<rparr>,
         ep_tip_lamports = vc_tip_lamports e\<rparr>))"

section \<open>Defaults and overrides\<close>

lemma conservative_Ok:
  "\<exists>p. params_conservative = Ok p \<and> unat (scaled (ep_p_detect p)) = 700000 * 10 ^ 12
    \<and> ep_competition p = competition_conservative \<and> ep_latency p = latency_conservative
    \<and> ep_landing p = landing_conservative \<and> ep_failed p = failed_conservative_spam \<and> ep_tip_lamports p = 0"
proof -
  obtain q where q: "from_ppm 700000 = Ok q" "unat (scaled q) = unat (700000 :: u32) * 10 ^ 12"
    using from_ppm_Ok [of 700000] by (auto simp: PPM_ONE_def)
  then show ?thesis by (simp add: params_conservative_def)
qed

text \<open>Whether every variable that is set can be read, and the first that cannot.\<close>

definition unreadable :: "env_vars \<Rightarrow> override \<Rightarrow> bool" where
  "unreadable vars ov = (case vars (fst ov) of None \<Rightarrow> False | Some v \<Rightarrow> snd ov v = None)"

definition put_override :: "env_vars \<Rightarrow> override \<Rightarrow> engine_config \<Rightarrow> engine_config" where
  "put_override vars ov c = (case vars (fst ov) of None \<Rightarrow> c | Some v \<Rightarrow> the (snd ov v) c)"

lemma apply_overrides_exact:
  "apply_overrides vars os c =
    (case filter (unreadable vars) os of [] \<Rightarrow> Ok (fold (put_override vars) os c) | ov # _ \<Rightarrow> Err (ConfigInvalid (fst ov)))"
  by (induction vars os c rule: apply_overrides.induct)
    (auto simp: unreadable_def put_override_def split: option.splits list.splits)

lemma no_overrides: "apply_overrides Map.empty os c = Ok c"
  by (induction os) auto

lemma to_ppm_from_ppm:
  assumes "ppm \<le> PPM_ONE" and "from_ppm ppm = Ok p"
  shows "to_ppm p = ppm"
proof -
  have s: "unat (scaled p) = unat ppm * 10 ^ 12" using from_ppm_Ok [OF assms(1)] assms(2) by auto
  have "unat (scaled p div (PROB_SCALE_1E18 div ucast PPM_ONE)) = unat ppm"
    by (subst unat_div) (simp only: s ppm_unit, simp)
  moreover have "unat ppm < 2 ^ 32" using unat_bound [of ppm] by simp
  ultimately have "unat (to_ppm p) = unat ppm" by (simp add: to_ppm_def unsigned_ucast_eq take_bit_nat_eq_self)
  then show ?thesis by (rule unsigned_word_eqI)
qed

text \<open>Without a file and without variables the configuration stands for the conservative parameters and the busy cost
  model.\<close>

theorem config_defaults:
  assumes "\<not> ce_exists env"
  shows "\<exists>c p. config_load env Map.empty = Ok c \<and> params_conservative = Ok p \<and> config_eval_params c = Ok p
    \<and> config_cost_model c = default_busy"
proof -
  obtain q where q: "from_ppm 700000 = Ok q" using from_ppm_Ok [of 700000] by (auto simp: PPM_ONE_def)
  define p where "p = \<lparr>ep_p_detect = q, ep_competition = competition_conservative, ep_latency = latency_conservative,
    ep_landing = landing_conservative, ep_failed = failed_conservative_spam, ep_tip_lamports = 0\<rparr>"
  have p: "params_conservative = Ok p" "from_ppm 700000 = Ok (ep_p_detect p)"
    using q by (simp_all add: params_conservative_def p_def)
  have d: "to_ppm q = 700000" using q by (intro to_ppm_from_ppm) (simp_all add: PPM_ONE_def)
  define c where "c = \<lparr>en_eval = eval_config_of p, en_cost = default_cost_config, en_capture = capture_config_default,
    en_recon = recon_config_default\<rparr>"
  have "config_load env Map.empty = Ok c"
    using assms by (simp add: config_load_def engine_config_default_def default_eval_config_def p(1) c_def apply_env_def no_overrides)
  moreover have "config_eval_params c = Ok p"
    by (simp add: config_eval_params_def c_def eval_config_of_def d q p_def)
  moreover have "config_cost_model c = default_busy"
    by (simp add: config_cost_model_def c_def default_cost_config_def default_busy_def)
  ultimately show ?thesis using p(1) by blast
qed

text \<open>A variable that is set wins over the file: with all of them set, the file does not matter.\<close>

definition put_all :: "env_vars \<Rightarrow> override list \<Rightarrow> engine_config \<Rightarrow> engine_config" where
  "put_all vars os = fold (\<lambda>ov. the (snd ov (the (vars (fst ov))))) os"

definition readable :: "env_vars \<Rightarrow> override \<Rightarrow> bool" where
  "readable vars ov \<longleftrightarrow> snd ov (the (vars (fst ov))) \<noteq> None"

lemma put_all_eval:
  assumes "list_all (readable vars) eval_overrides"
  shows "put_all vars eval_overrides c = c\<lparr>en_eval := en_eval (put_all vars eval_overrides c')\<rparr>"
proof -
  obtain e k g r where c: "c = \<lparr>en_eval = e, en_cost = k, en_capture = g, en_recon = r\<rparr>" by (cases c)
  show ?thesis using assms unfolding eval_overrides_def eval_field_def put_all_def readable_def c
    by (cases e; cases "en_eval c'") clarsimp
qed

lemma put_all_other:
  assumes "list_all (readable vars) other_overrides"
  shows "put_all vars other_overrides c = (put_all vars other_overrides c')\<lparr>en_eval := en_eval c\<rparr>"
proof -
  obtain e k g r where c: "c = \<lparr>en_eval = e, en_cost = k, en_capture = g, en_recon = r\<rparr>" by (cases c)
  obtain e' k' g' r' where c': "c' = \<lparr>en_eval = e', en_cost = k', en_capture = g', en_recon = r'\<rparr>" by (cases c')
  show ?thesis using assms unfolding other_overrides_def cost_field_def capture_field_def recon_field_def put_all_def readable_def c c'
    by (cases k; cases g; cases r; cases k'; cases g'; cases r') clarsimp
qed

definition all_set :: "env_vars \<Rightarrow> bool" where
  "all_set vars \<longleftrightarrow> (\<forall>ov\<in>set (eval_overrides @ other_overrides). vars (fst ov) \<noteq> None)"

theorem environment_decides:
  assumes "all_set vars"
  shows "apply_env vars a = apply_env vars b"
proof (cases "filter (unreadable vars) (eval_overrides @ other_overrides)")
  case Nil
  let ?os = "eval_overrides @ other_overrides"
  have each: "readable vars ov \<and> put_override vars ov c = the (snd ov (the (vars (fst ov)))) c" if ov: "ov \<in> set ?os" for ov c
  proof -
    obtain v where "vars (fst ov) = Some v" using bspec [OF assms [unfolded all_set_def] ov] by auto
    moreover have "\<not> unreadable vars ov" using ov Nil by (metis filter_empty_conv)
    ultimately show ?thesis by (simp add: unreadable_def put_override_def readable_def)
  qed
  have "list_all (readable vars) ?os" unfolding list_all_iff using each by blast
  then have r: "list_all (readable vars) eval_overrides" "list_all (readable vars) other_overrides" by simp_all
  have "put_all vars ?os a = put_all vars ?os b"
    using put_all_eval [OF r(1), of a b] put_all_other [OF r(2), of "put_all vars eval_overrides a" "put_all vars eval_overrides b"]
      put_all_other [OF r(2), of "put_all vars eval_overrides b" "put_all vars eval_overrides b"]
    by (simp add: put_all_def)
  moreover have "fold (put_override vars) ?os c = put_all vars ?os c" for c
    unfolding put_all_def by (rule fold_cong) (use each in \<open>auto intro!: ext\<close>)
  ultimately have "fold (put_override vars) ?os a = fold (put_override vars) ?os b" by simp
  then show ?thesis unfolding apply_env_def apply_overrides_exact Nil by (simp only: list.case)
qed (simp add: apply_env_def apply_overrides_exact)

lemma overrides_keep:
  "\<forall>ov\<in>set os. \<forall>v g c. vars (fst ov) = Some v \<longrightarrow> snd ov v = Some g \<longrightarrow> field (g c) = field c \<Longrightarrow>
    apply_overrides vars os c = Ok c' \<Longrightarrow> field c' = field c"
proof (induction os arbitrary: c)
  case (Cons ov os)
  show ?case
  proof (cases "vars (fst ov)")
    case None
    then show ?thesis using Cons by (cases ov) auto
  next
    case (Some v)
    then obtain g where g: "snd ov v = Some g" "apply_overrides vars os (g c) = Ok c'"
      using Cons.prems(2) by (cases ov) (auto split: option.splits)
    have "field c' = field (g c)" using Cons.prems(1) g(2) by (intro Cons.IH) auto
    then show ?thesis using Cons.prems(1) Some g(1) by simp
  qed
qed simp

text \<open>A file with a table \<^verbatim>\<open>[eval]\<close> that does not set the probability of detection sets it to zero, and no cycle is ever
  worth a trade, however profitable.\<close>

theorem partial_table_never_trades:
  assumes "ce_exists env" and "ce_contents env = Some s" and "ce_parse env s = Some d" and "dc_eval d = Some f"
    and "\<forall>c. vc_p_detect_ppm (f c) = vc_p_detect_ppm c"
    and "vars ''DL_P_DETECT_PPM'' = None" and "config_load env vars = Ok cfg"
    and "\<bar>np_net_profit net\<bar> < 2 ^ 127"
    and "np_net_profit_bps net - vc_richness_threshold_bps (en_eval cfg) \<le> smax 32"
  shows "\<exists>p ev. config_eval_params cfg = Ok p \<and> evaluate_one net p = Ok ev \<and> decision_from_ev ev = WouldNotTrade"
proof -
  have keep: "vc_p_detect_ppm (en_eval c') = vc_p_detect_ppm (en_eval c)"
    if "apply_env vars c = Ok c'" for c c'
    using that unfolding apply_env_def
    by (rule overrides_keep [rotated])
      (use assms(6) in \<open>auto simp: eval_overrides_def other_overrides_def eval_field_def cost_field_def capture_field_def recon_field_def\<close>)
  obtain c where c: "config_of_doc d = Ok c" "apply_env vars c = Ok cfg"
    using assms(1-3,7) by (auto simp: config_load_def bind_res_Ok_iff)
  have "vc_p_detect_ppm (en_eval c) = 0" using c(1) assms(4,5) by (auto simp: config_of_doc_def eval_config_zero_def)
  then have zero: "vc_p_detect_ppm (en_eval cfg) = 0" using keep [OF c(2)] by simp
  obtain q where q: "from_ppm 0 = Ok q" "unat (scaled q) = 0" "prob_ok q" using from_ppm_Ok [of 0] by (auto simp: PPM_ONE_def)
  obtain p where p: "config_eval_params cfg = Ok p" "ep_p_detect p = q"
    "richness_threshold_bps (ep_competition p) = vc_richness_threshold_bps (en_eval cfg)"
    using q(1) by (simp add: config_eval_params_def zero Let_def)
  have ready: "eval_ready net p" using assms(8,9) p q(3) by (simp add: eval_ready_def)
  have "pnl_spec net p \<le> 0"
    using q(2) by (simp add: pnl_spec_def haircut_nat_def p(2) Let_def clamp_i_nonpos)
  moreover obtain ev where "evaluate_one net p = Ok ev" "e_pnl ev = pnl_spec net p" using evaluate_one_run [OF ready] by blast
  ultimately show ?thesis using p(1) by (auto simp: decision_from_ev_def intro!: exI [of _ ev])
qed

text \<open>A file that only sets the time of the detection.\<close>

definition slower_doc :: engine_doc where
  "slower_doc = \<lparr>dc_eval = Some (\<lambda>e. e\<lparr>vc_t_detect_ms := 50\<rparr>), dc_cost = None, dc_capture = None, dc_recon = None\<rparr>"

definition slower_env :: config_env where
  "slower_env = \<lparr>ce_exists = True, ce_contents = Some ''t'', ce_parse = (\<lambda>_. Some slower_doc)\<rparr>"

lemma partial_table_never_trades_witness:
  "\<exists>cfg p ev. config_load slower_env Map.empty = Ok cfg \<and> vc_t_detect_ms (en_eval cfg) = 50
    \<and> config_eval_params cfg = Ok p \<and> evaluate_one (sample_net (10 ^ 12)) p = Ok ev \<and> decision_from_ev ev = WouldNotTrade"
proof -
  define cfg where "cfg = \<lparr>en_eval = eval_config_zero\<lparr>vc_t_detect_ms := 50\<rparr>, en_cost = default_cost_config,
    en_capture = capture_config_default, en_recon = recon_config_default\<rparr>"
  have load: "config_load slower_env Map.empty = Ok cfg"
    by (simp add: config_load_def slower_env_def slower_doc_def config_of_doc_def apply_env_def no_overrides cfg_def)
  have "\<exists>p ev. config_eval_params cfg = Ok p \<and> evaluate_one (sample_net (10 ^ 12)) p = Ok ev \<and> decision_from_ev ev = WouldNotTrade"
    by (rule partial_table_never_trades [where s = "''t''" and d = slower_doc and f = "\<lambda>e. e\<lparr>vc_t_detect_ms := 50\<rparr>", OF _ _ _ _ _ _ load])
      (simp_all add: slower_env_def slower_doc_def sample_net_def cfg_def eval_config_zero_def smax_def)
  then show ?thesis using load by (auto simp: cfg_def)
qed

end
