(* ===== verification/Spec2Isabelle.thy ===== *)
theory Spec2Isabelle
  imports Amount Clock Cost Ev Detector Cap AssertProgram Live_Safety Ledger Feed WsFeed Streaming Recon Wallet PaperTrader_Safety Fault Onchain Warehouse PaperJoin DailyRecon LiveBoot ReconCommand Metrics LiveStatus CalibrationLoop Config
begin

text \<open>
  Verification library for \<^verbatim>\<open>damascus_laundry\<close>, an arbitrage engine for Solana. The program watches the accounts of
  constant-product, Whirlpool and Meteora pools, keeps a price graph, searches it for negative-weight cycles, sizes
  and prices what it finds, and either books it on paper or builds a bundle that an on-chain program guards, and
  sends it within a daily spending cap. Replays, reconciliations and a warehouse check afterwards what was recorded.

  \<^bold>\<open>Conventions.\<close> Unsigned integers are words of their width, so that \<open>+\<close> wraps where the code wraps; signed integers
  are \<open>int\<close> with \<open>in_range n\<close>. A computation is a value of \<open>('a, 'e) res\<close>: \<open>Ok\<close>, \<open>Err\<close> with the error enumeration of
  the crate, or \<open>Panic\<close> (an arithmetic operation that overflows, as in a build with overflow checks, an index out of bounds,
  \<^verbatim>\<open>unwrap\<close>). State is a record passed along; a handler returns its result with the new state, also when
  it fails. Maps are \<open>\<rightharpoonup>\<close>; where the code iterates a \<^verbatim>\<open>HashMap\<close> the order is an argument of the definition, and the
  properties hold for every order. Definitions are executable and keep the names of the source.

  \<^bold>\<open>What is an argument.\<close> Code that is not in the repository is not defined here: \<^verbatim>\<open>serde_json\<close> and \<^verbatim>\<open>bincode\<close> (an encoder
  and a decoder, with \<open>codec_ok\<close> or \<open>line_fits\<close> as the round trip that is relied on), the RPC node, Jito, Jupiter and Pyth
  (fields of an environment record), the clock, the file system (which of its steps fail, and after how many bytes),
  signatures, \<^verbatim>\<open>f64\<close> factors, the calendar and hashes. A property that relies on one of them states the documented
  law as a hypothesis, and its witness instantiates it.

  \<^bold>\<open>Arithmetic and data model.\<close>
  \<^item> \<open>Rust_Prelude\<close>: the result type, checked, saturating and panicking operations, signed ranges, the shared rewrite
    collections \<open>rust_nat\<close> and \<open>rust_step\<close>.
  \<^item> \<open>Fixed\<close> (\<^verbatim>\<open>dl-core/src/fixed.rs\<close>): 256-bit products and their long division; \<open>mul_div_floor\<close> is the floor of the
    exact quotient. \<open>Amount\<close> (\<^verbatim>\<open>amount.rs\<close>), \<open>Rng\<close> (\<^verbatim>\<open>rng.rs\<close>, \<^verbatim>\<open>prob.rs\<close>), \<open>Clock\<close> (\<^verbatim>\<open>clock.rs\<close>, with the locale
    \<open>monotonic_clock\<close>).
  \<^item> \<open>Pool\<close> (\<^verbatim>\<open>dl-state\<close>: \<^verbatim>\<open>pool.rs\<close>, \<^verbatim>\<open>registry.rs\<close>, \<^verbatim>\<open>cycle.rs\<close>, \<^verbatim>\<open>mint.rs\<close>): pools, cycles and the registry, which is an
    instance of the locale \<open>keyed_store\<close>. \<open>Decoders\<close> (\<^verbatim>\<open>dl-state/src/decoder\<close>): the three account layouts at their byte
    offsets, their encoders and the assembly of pools.

  \<^bold>\<open>Pricing.\<close>
  \<^item> \<open>Fill\<close> (\<^verbatim>\<open>dl-sim/src/fill.rs\<close>, \<^verbatim>\<open>fill_orca.rs\<close>, \<^verbatim>\<open>fill_meteora.rs\<close>): the three swap formulas; the locale \<open>swap_curve\<close>
    (monotone, bounded by the reserve) is interpreted by each. \<open>Simulate\<close> (\<^verbatim>\<open>simulate.rs\<close>): a cycle as the chain of its
    legs. \<open>Cost\<close> (\<^verbatim>\<open>cost.rs\<close>), \<open>Sizing\<close> (\<^verbatim>\<open>sizing.rs\<close>, \<^verbatim>\<open>net_profit.rs\<close>), \<open>Ev\<close> (\<^verbatim>\<open>ev.rs\<close>).

  \<^bold>\<open>Search.\<close>
  \<^item> \<open>Graph\<close> (\<^verbatim>\<open>dl-detect\<close>: \<^verbatim>\<open>graph.rs\<close>, \<^verbatim>\<open>staleness.rs\<close>) and \<open>Detector\<close> (\<^verbatim>\<open>bellman_ford.rs\<close>): the search reports simple closed
    walks of negative weight only, and every one of them up to rotation. \<open>Streaming\<close> (\<^verbatim>\<open>dl-stream\<close>: \<^verbatim>\<open>detector.rs\<close>,
    \<^verbatim>\<open>latency.rs\<close>, \<^verbatim>\<open>pipeline.rs\<close>): the graph that is updated in place, the latency histogram and the loop.

  \<^bold>\<open>Feeds.\<close>
  \<^item> \<open>Framing\<close>: readers and writers that may stop at any byte, and the locale \<open>record_stream\<close> of a file of
    length-prefixed records: what was written before a stop is what is read. \<open>Capture\<close> (\<^verbatim>\<open>dl-feed\<close>: \<^verbatim>\<open>capture.rs\<close>,
    \<^verbatim>\<open>capturing.rs\<close>, \<^verbatim>\<open>dl-core/src/feed.rs\<close>) and \<open>Ledger\<close> below interpret it.
  \<^item> \<open>Feed\<close> (\<^verbatim>\<open>reconnect.rs\<close>, \<^verbatim>\<open>registry.rs\<close>, \<^verbatim>\<open>staleness.rs\<close>): backoff, storms, the staleness guard against its trace
    specification. \<open>WsFeed\<close> (\<^verbatim>\<open>ws_feed.rs\<close>, \<^verbatim>\<open>whirlpool.rs\<close>): the subscription protocol as a step function with its reply
    table. \<open>Fault\<close> (\<^verbatim>\<open>dl-recon/src/fault.rs\<close>): the five fault layers; the locale \<open>feed_contract\<close> gives each layer, and
    any stack of them, a specification on lists of events, and is interpreted on the scripted feed and the full stack.

  \<^bold>\<open>Execution.\<close>
  \<^item> \<open>Cap\<close> (\<^verbatim>\<open>dl-signer/src/cap.rs\<close>): charges, refunds, the daily reset and the snapshot file; the locale \<open>spending_cap\<close>
    proves the daily bound over any run once, for the cap alone and in \<open>Live_Safety\<close> for the whole pipeline.
  \<^item> \<open>Executor\<close> (\<^verbatim>\<open>dl-executor\<close>: \<^verbatim>\<open>error.rs\<close>, \<^verbatim>\<open>killswitch.rs\<close>, \<^verbatim>\<open>tip.rs\<close>, \<^verbatim>\<open>landing.rs\<close>), \<open>Bundle\<close> (\<^verbatim>\<open>simulate.rs\<close>,
    \<^verbatim>\<open>bundle.rs\<close>, \<^verbatim>\<open>signer_integration.rs\<close>), \<open>AssertProgram\<close> (\<^verbatim>\<open>dl-assert-program\<close>, \<^verbatim>\<open>dl-assert-sdk\<close>), \<open>Oracle\<close> (\<^verbatim>\<open>dl-oracle\<close>),
    \<open>Calibration\<close> (\<^verbatim>\<open>dl-calibration\<close>).
  \<^item> \<open>Live\<close> (\<^verbatim>\<open>dl-app/src/live.rs\<close>, \<^verbatim>\<open>opportunity.rs\<close>): \<open>submit_opportunity\<close> with every gate and exit, in the order of the
    source. \<open>Live_Safety\<close>: nothing is sent that did not pass every gate, the tip is refunded on every exit but
    acceptance, and the kill switch stops everything.
  \<^item> \<open>LiveBoot\<close> (\<^verbatim>\<open>dl-signer/src/livemode.rs\<close>, the \<^verbatim>\<open>run\<close> command of \<^verbatim>\<open>dl-app/src/main.rs\<close>, with the parsers of \<open>RustText\<close>): the
    mode gate, the flags and the start of the live path, with the cap it really starts with. \<open>LiveStatus\<close>
    (\<^verbatim>\<open>live_status.rs\<close>): the status record, its atomic write and the writer loop. \<open>Metrics\<close> (\<^verbatim>\<open>metrics.rs\<close>,
    \<^verbatim>\<open>metrics_prom.rs\<close>, \<^verbatim>\<open>live_metrics.rs\<close>, the latency ring of \<^verbatim>\<open>dl-executor/src/metrics.rs\<close>): the registry and its
    sinks, the text for Prometheus, the adapter that copies the live counters.

  \<^bold>\<open>Books.\<close>
  \<^item> \<open>Ledger\<close> (\<^verbatim>\<open>dl-ledger\<close>): the cycle hash, the entry, the file and its summary. \<open>Wallet\<close> (\<^verbatim>\<open>dl-paper\<close>): the paper
    wallet, its invariant and its statistics. \<open>PaperTrader\<close> (\<^verbatim>\<open>run_live_paper\<close> of \<^verbatim>\<open>dl-app/src/main.rs\<close>): one account
    update after the other through decoding, tracking, detection, pricing and booking; \<open>PaperTrader_Safety\<close> proves its
    books over any run.
  \<^item> \<open>Recon\<close> (\<^verbatim>\<open>dl-recon\<close>: \<^verbatim>\<open>pipeline.rs\<close>, \<^verbatim>\<open>reconcile.rs\<close>, \<^verbatim>\<open>invariants.rs\<close>): the replay and the reconciliation of a
    ledger. \<open>Onchain\<close> (\<^verbatim>\<open>onchain.rs\<close>, \<^verbatim>\<open>onchain_sweep.rs\<close>): anchors, calibration and the sweep over the chain.
    \<open>CalibrationLoop\<close> (\<^verbatim>\<open>dl-calibration/src/dam64.rs\<close>): the rows of a reconciled ledger as captures, and their fit.
  \<^item> \<open>Validate\<close> (\<^verbatim>\<open>dl-pipeline\<close>: \<^verbatim>\<open>validate.rs\<close>, \<^verbatim>\<open>reject.rs\<close>, the wire types) and \<open>Warehouse\<close> (\<^verbatim>\<open>warehouse.rs\<close>,
    \<^verbatim>\<open>ingest/mod.rs\<close>): the contract of a line, and the store by day. The locale \<open>insert_or_ignore\<close> is the abstract
    store; the interpretation \<open>jsonl\<close> proves that the files implement it, also across restarts.
    \<open>DailyRecon\<close> (\<^verbatim>\<open>dl-pipeline/src/recon.rs\<close>): the row of a day, from the cycles of the warehouse and every report.
  \<^item> \<open>PaperReconcile\<close> (\<^verbatim>\<open>dl-app/src/reconcile.rs\<close>): the join of the paper rows with a replayed report, from the
    command line to the exit status. \<open>PaperJoin\<close> shows what that join finds of the rows this repository writes.
    \<open>ReconCommand\<close> (\<^verbatim>\<open>dl-app/src/recon.rs\<close>): the other command, from a capture and its anchors to the exit status.

  \<^bold>\<open>How the parts meet.\<close> \<open>Graph\<close> reads the pools of \<open>Decoders\<close>; \<open>Detector\<close> searches it; \<open>Sizing\<close>, \<open>Simulate\<close> and \<open>Ev\<close> price
  its cycles. \<open>Recon\<close> and \<open>PaperTrader\<close> compose these with \<open>Ledger\<close> and \<open>Wallet\<close>; \<open>Live\<close> composes \<open>Oracle\<close>, \<open>Cap\<close>, \<open>Executor\<close>,
  \<open>Bundle\<close> and \<open>AssertProgram\<close>. The properties that span components are in \<open>Live_Safety\<close>, \<open>PaperTrader_Safety\<close>, \<open>Recon\<close>,
  \<open>PaperJoin\<close>, \<open>ReconCommand\<close>, \<open>CalibrationLoop\<close> and \<open>LiveBoot\<close>.

  \<^bold>\<open>Termination and bounds.\<close> Loops are structural or have a measure: the depth-first search the legs that are left, the
  long division its bits, the golden section its 64 rounds, the file readers the bytes that are left. Only the landing
  poll has fuel: \<open>timeout_ms + 1\<close> rounds always give a result (\<open>poll_bundle_landing_returns\<close>), since every round takes at
  least a millisecond. The bounds in hypotheses (a capture of less than 4 GiB records, fewer than \<open>2 ^ 32\<close> rows of a
  sweep) keep sums of 64-bit values inside 128 bits.

  \<^bold>\<open>What the lemmas show against the code.\<close> Where the code does not do what it means to, the property states what it
  does: the sizing search crosses its bracket and underflows, a refund after midnight raises the cap of the new day,
  the capture replay assembles no pool because vaults are cached under the wrong key, one update of a pool in the
  streaming graph fabricates an arbitrage, the live path starts with the default cap whatever its mode, a row whose line was cut is lost with the row after it.

  \<^bold>\<open>Not modelled.\<close> Pure input and output: HTTP and WebSocket clients, the endpoint that serves the metrics,
  progress messages, and the subcommands of \<^verbatim>\<open>main.rs\<close> that only print. The key store, which only calls \<^verbatim>\<open>aes-gcm\<close> and
  \<^verbatim>\<open>argon2\<close>. What is floating point throughout: the overfit statistics of \<^verbatim>\<open>dl-recon-overfit\<close>, the token bucket of
  \<^verbatim>\<open>dl-signer/src/ratelimit.rs\<close> (its answer is an argument of \<open>submit_opportunity\<close>), the interpolation of the latency
  percentiles. \<^verbatim>\<open>feed_metrics.rs\<close>, which no module declares, and a copy of the Raydium state under \<^verbatim>\<open>dl-state/docs\<close>
  that nothing compiles. Configuration files (\<^verbatim>\<open>toml\<close> through \<^verbatim>\<open>serde\<close>). Dashboards, scripts and probes.
\<close>

end
